(* ===== verification/Prelude.thy ===== *)
theory Prelude
  imports Main "HOL-Library.Word"
begin

text \<open>
  Shared vocabulary of the development: bytes and machine words, big-endian
  encodings, C strings and the few routines of the C library that the MiPlay
  receiver calls (\<open>strstr\<close>/\<open>memmem\<close>, \<open>strncpy\<close>, \<open>strtoull\<close>, \<open>strtoll\<close>, \<open>atoi\<close>,
  \<open>snprintf\<close> of decimal and hexadecimal numbers). A buffer is a \<open>byte list\<close>; a C
  string is the list of its bytes before the terminating NUL.
\<close>

unbundle bit_operations_syntax

type_synonym byte = "8 word"
type_synonym u16 = "16 word"
type_synonym u32 = "32 word"
type_synonym u64 = "64 word"

named_theorems wire_simps \<open>evaluation of wire-format constants\<close>

definition str :: "string \<Rightarrow> byte list" where
  [code_unfold]: "str s = map of_char s"

lemma str_simps [wire_simps]:
  "str [] = []"
  "str (c # s) = of_char c # str s"
  by (simp_all add: str_def)

lemma length_str [simp]: "length (str s) = length s"
  by (simp add: str_def)

lemma str_append: "str (s @ t) = str s @ str t"
  by (simp add: str_def)

subsection \<open>Big-endian words\<close>

text \<open>The bytes of the low \<open>8 * n\<close> bits of a word, most significant first, and back.\<close>

fun be_bytes :: "nat \<Rightarrow> 'a::len word \<Rightarrow> byte list" where
  "be_bytes 0 w = []"
| "be_bytes (Suc n) w = ucast (drop_bit (8 * n) w) # be_bytes n w"

definition be_word :: "byte list \<Rightarrow> 'a::len word" where
  "be_word bs = foldl (\<lambda>v b. push_bit 8 v OR ucast b) 0 bs"

lemma length_be_bytes [simp]: "length (be_bytes n w) = n"
  by (induction n) auto

lemma be_word_Nil [simp]: "be_word [] = 0"
  by (simp add: be_word_def)

lemma be_word_snoc: "be_word (bs @ [b]) = push_bit 8 (be_word bs) OR ucast b"
  by (simp add: be_word_def)

lemma be_bytes_snoc: "be_bytes (Suc n) w = be_bytes n (drop_bit 8 w) @ [ucast w]"
  by (induction n arbitrary: w) (simp_all add: drop_bit_drop_bit add.commute)

lemma be_word_be_bytes: "be_word (be_bytes n w) = take_bit (8 * n) w"
proof (induction n arbitrary: w)
  case 0
  show ?case by simp
next
  case (Suc n)
  show ?case
    unfolding be_bytes_snoc be_word_snoc Suc.IH
    by (rule bit_word_eqI) (auto simp: bit_simps)
qed

lemma be_word_be_bytes_full [simp]:
  "LENGTH('a::len) \<le> 8 * n \<Longrightarrow> be_word (be_bytes n (w :: 'a word)) = w"
  by (simp add: be_word_be_bytes take_bit_word_eq_self)

lemma be_bytes_be_word:
  "8 * length bs \<le> LENGTH('a::len) \<Longrightarrow> be_bytes (length bs) (be_word bs :: 'a word) = bs"
proof (induction bs rule: rev_induct)
  case Nil
  show ?case by simp
next
  case (snoc b bs)
  have small: "\<not> bit (be_word bs :: 'a word) k" if "8 * length bs \<le> k" for k bs
    using that
  proof (induction bs arbitrary: k rule: rev_induct)
    case Nil
    then show ?case by simp
  next
    case (snoc b bs)
    then have "\<not> bit (be_word bs :: 'a word) (k - 8)" by simp
    moreover have "\<not> bit b k" using snoc.prems by (auto dest: bit_imp_le_length)
    ultimately show ?case by (auto simp: be_word_snoc bit_simps)
  qed
  have up: "drop_bit 8 (push_bit 8 (be_word bs) OR ucast b :: 'a word)
      = (be_word bs :: 'a word)"
  proof (rule bit_word_eqI)
    fix n assume "n < LENGTH('a)"
    then show "bit (drop_bit 8 (push_bit 8 (be_word bs) OR ucast b :: 'a word)) n
        = bit (be_word bs :: 'a word) n"
      using small [of bs n] snoc.prems
      by (cases "8 * length bs \<le> n") (auto simp: bit_simps dest: bit_imp_le_length)
  qed
  have low: "ucast (push_bit 8 (be_word bs) OR ucast b :: 'a word) = b"
    using snoc.prems by (intro bit_word_eqI) (auto simp: bit_simps)
  from snoc.prems have "be_bytes (length bs) (be_word bs :: 'a word) = bs"
    by (intro snoc.IH) simp
  then show ?case
    using up by (simp add: be_bytes_snoc be_word_snoc low del: be_bytes.simps)
qed

text \<open>The 16-, 32- and 64-bit forms as the C writes them, byte by byte.\<close>

definition be16 :: "u16 \<Rightarrow> byte list" where
  "be16 v = [ucast (drop_bit 8 v), ucast v]"

definition be32 :: "u32 \<Rightarrow> byte list" where
  "be32 v = [ucast (drop_bit 24 v), ucast (drop_bit 16 v), ucast (drop_bit 8 v), ucast v]"

definition be64 :: "u64 \<Rightarrow> byte list" where
  "be64 v = be_bytes 8 v"

definition rd16 :: "byte list \<Rightarrow> nat \<Rightarrow> u16" where
  "rd16 p i = push_bit 8 (ucast (p ! i)) OR ucast (p ! (i + 1))"

definition rd32 :: "byte list \<Rightarrow> nat \<Rightarrow> u32" where
  "rd32 p i = push_bit 24 (ucast (p ! i)) OR push_bit 16 (ucast (p ! (i + 1)))
     OR push_bit 8 (ucast (p ! (i + 2))) OR ucast (p ! (i + 3))"

lemma be16_eq: "be16 v = be_bytes 2 v"
  by (simp add: be16_def numeral_2_eq_2)

lemma be32_eq: "be32 v = be_bytes 4 v"
  by (simp add: be32_def eval_nat_numeral)

lemma length_be [simp]: "length (be16 v) = 2" "length (be32 w) = 4" "length (be64 x) = 8"
  by (simp_all add: be16_def be32_def be64_def)

lemma rd32_eq: "i + 4 \<le> length p \<Longrightarrow> rd32 p i = be_word (take 4 (drop i p))"
proof -
  assume "i + 4 \<le> length p"
  then have "take 4 (drop i p) = [p ! i, p ! (i + 1), p ! (i + 2), p ! (i + 3)]"
    by (auto simp: eval_nat_numeral take_Suc_conv_app_nth)
  then show ?thesis
    by (simp add: rd32_def be_word_def push_bit_or ac_simps)
qed

lemma rd16_eq: "i + 2 \<le> length p \<Longrightarrow> rd16 p i = be_word (take 2 (drop i p))"
proof -
  assume "i + 2 \<le> length p"
  then have "take 2 (drop i p) = [p ! i, p ! (i + 1)]"
    by (auto simp: eval_nat_numeral take_Suc_conv_app_nth)
  then show ?thesis
    by (simp add: rd16_def be_word_def)
qed

lemma rd32_be32 [simp]: "length pre = i \<Longrightarrow> rd32 (pre @ be32 v @ post) i = v"
  by (subst rd32_eq) (auto simp: be32_eq)

lemma rd16_be16 [simp]: "length pre = i \<Longrightarrow> rd16 (pre @ be16 v @ post) i = v"
  by (subst rd16_eq) (auto simp: be16_eq)

lemma rd32_append: "i + 4 \<le> length p \<Longrightarrow> rd32 (p @ q) i = rd32 p i"
  by (simp add: rd32_def nth_append)

lemma rd16_append: "i + 2 \<le> length p \<Longrightarrow> rd16 (p @ q) i = rd16 p i"
  by (simp add: rd16_def nth_append)

lemma sint_of_nat32: "n < 2 ^ 31 \<Longrightarrow> sint (of_nat n :: u32) = int n"
  by (simp add: signed_of_nat signed_take_bit_int_eq_self)

end
