(* ===== verification/Cstring.thy ===== *)
theory Cstring
  imports Prelude
begin

text \<open>
  The routines of the C library that the receiver relies on, on byte lists: substring
  search (\<open>strstr\<close>, \<open>memmem\<close>), bounded copies (\<open>strncpy\<close> followed by a terminator),
  character classes, the \<open>strto*\<close> family in base 10 with its saturation, and the
  \<open>printf\<close> conversions \<open>%u\<close>, \<open>%0nllu\<close>, \<open>%02x\<close> and \<open>%02X\<close>.
\<close>

subsection \<open>Search and copy\<close>

definition cstr :: "byte list \<Rightarrow> byte list" where
  \<comment> \<open>the C string stored at the head of a buffer\<close>
  "cstr buf = takeWhile (\<lambda>b. b \<noteq> 0) buf"

lemma cstr_nul: "0 \<notin> set t \<Longrightarrow> cstr (t @ 0 # r) = t"
  by (induction t) (auto simp: cstr_def)

fun find_sub :: "byte list \<Rightarrow> byte list \<Rightarrow> nat option" where
  "find_sub pat [] = (if pat = [] then Some 0 else None)"
| "find_sub pat (x # xs) =
     (if take (length pat) (x # xs) = pat then Some 0 else map_option Suc (find_sub pat xs))"

lemma find_sub_Some:
  "find_sub pat xs = Some i \<Longrightarrow> take (length pat) (drop i xs) = pat \<and> i + length pat \<le> length xs"
proof (induction xs arbitrary: i)
  case Nil
  then show ?case by (auto split: if_splits)
next
  case (Cons x xs)
  show ?case
  proof (cases "take (length pat) (x # xs) = pat")
    case True
    then have "length pat \<le> length (x # xs)"
      by (metis length_take min.cobounded1 min.commute)
    with True Cons.prems show ?thesis by auto
  next
    case False
    with Cons.prems obtain j where "find_sub pat xs = Some j" and "i = Suc j" by auto
    with Cons.IH show ?thesis by auto
  qed
qed

lemma find_sub_least:
  "find_sub pat xs = Some i \<Longrightarrow> j < i \<Longrightarrow> take (length pat) (drop j xs) \<noteq> pat"
proof (induction xs arbitrary: i j)
  case Nil
  then show ?case by (auto split: if_splits)
next
  case (Cons x xs)
  then show ?case by (cases j) (auto split: if_splits)
qed

lemma find_sub_None:
  "find_sub pat xs = None \<longleftrightarrow> (\<forall>i\<le>length xs. take (length pat) (drop i xs) \<noteq> pat)"
proof (induction xs)
  case Nil
  show ?case by simp
next
  case (Cons x xs)
  show ?case
  proof (cases "take (length pat) (x # xs) = pat")
    case True
    then show ?thesis by (auto intro: exI [of _ 0])
  next
    case False
    have "(\<forall>i\<le>length (x # xs). take (length pat) (drop i (x # xs)) \<noteq> pat) \<longleftrightarrow>
        (\<forall>i\<le>length xs. take (length pat) (drop i xs) \<noteq> pat)" (is "?L \<longleftrightarrow> ?R")
    proof
      assume ?L
      then show ?R by (metis Suc_le_mono drop_Suc_Cons length_Cons)
    next
      assume ?R
      with False show ?L by (metis Suc_le_mono drop0 drop_Suc_Cons length_Cons not0_implies_Suc)
    qed
    with Cons False show ?thesis by simp
  qed
qed

lemma find_sub_prefix: "find_sub pat (pat @ xs) = Some 0"
proof (cases "pat @ xs")
  case Nil
  then show ?thesis by simp
next
  case (Cons y ys)
  have "take (length pat) (pat @ xs) = pat" by simp
  with Cons show ?thesis by simp
qed

lemma find_sub_append: "find_sub pat a = Some i \<Longrightarrow> find_sub pat (a @ b) = Some i"
proof (induction a arbitrary: i)
  case Nil
  then show ?case using find_sub_prefix [of "[]" b] by (auto split: if_splits)
next
  case (Cons x a)
  show ?case
  proof (cases "take (length pat) (x # a) = pat")
    case True
    then have "length pat \<le> length (x # a)" by (metis length_take min.cobounded1 min.commute)
    then have "take (length pat) (x # a @ b) = take (length pat) (x # a)" using take_append [of "length pat" "x # a" b] by simp
    with True Cons.prems show ?thesis by simp
  next
    case False
    with Cons.prems obtain j where j: "find_sub pat a = Some j" and i: "i = Suc j" by auto
    from Cons.IH [OF j] have "find_sub pat (a @ b) = Some j" .
    moreover have "take (length pat) (x # a @ b) \<noteq> pat"
    proof
      assume t: "take (length pat) (x # a @ b) = pat"
      have "j + length pat \<le> length a" using find_sub_Some [OF j] by simp
      then have "take (length pat) (x # a @ b) = take (length pat) (x # a)" using take_append [of "length pat" "x # a" b] by simp
      with t False show False by simp
    qed
    ultimately show ?thesis by (simp add: i)
  qed
qed

lemma find_sub_cut: "find_sub pat (a @ b) = Some i \<Longrightarrow> length a < i + length pat \<Longrightarrow> find_sub pat a = None"
  using find_sub_append [of pat a] find_sub_Some [of pat a] by (cases "find_sub pat a") fastforce+

lemma find_sub_cons: "find_sub (p # ps) (x # xs) = (if x = p \<and> take (length ps) xs = ps then Some 0 else map_option Suc (find_sub (p # ps) xs))"
  by auto

lemma find_sub_skip:
  assumes "pat \<noteq> []" and "hd pat \<notin> set xs"
  shows "find_sub pat (xs @ ys) = map_option (\<lambda>i. length xs + i) (find_sub pat ys)"
  using assms by (induction xs; cases "find_sub pat ys") (auto simp: neq_Nil_conv)

lemma takeWhile_stop: "\<forall>c\<in>set xs. P c \<Longrightarrow> \<not> P y \<Longrightarrow> takeWhile P (xs @ y # ys) = xs"
  by (simp add: takeWhile_append2)

definition index_of :: "byte \<Rightarrow> byte list \<Rightarrow> nat option" where
  \<comment> \<open>\<open>strchr\<close> in a C string\<close>
  "index_of b s = (let n = length (takeWhile (\<lambda>c. c \<noteq> b) s) in if n < length s then Some n else None)"

lemma index_of_at: "b \<notin> set xs \<Longrightarrow> index_of b (xs @ b # ys) = Some (length xs)"
proof -
  assume "b \<notin> set xs"
  then have "takeWhile (\<lambda>c. c \<noteq> b) (xs @ b # ys) = xs" by (intro takeWhile_stop) auto
  then show ?thesis by (simp add: index_of_def)
qed

definition dq :: "string \<Rightarrow> byte list" where
  \<comment> \<open>a text in which backquotes stand for double quotes\<close>
  "dq s = map (\<lambda>c. if c = 96 then 34 else c) (str s)"

definition copy_text :: "nat \<Rightarrow> byte list \<Rightarrow> byte list" where
  \<comment> \<open>\<open>strncpy (dst, src, size - 1); dst[size - 1] = 0\<close>\<close>
  "copy_text cap s = take (cap - 1) s"

lemma length_copy_text [simp]: "0 < n \<Longrightarrow> length (copy_text n s) < n"
  by (auto simp: copy_text_def)

lemma copy_text_fits: "length s < n \<Longrightarrow> copy_text n s = s"
  by (simp add: copy_text_def)

subsection \<open>Character classes and numbers\<close>

definition is_space :: "byte \<Rightarrow> bool" where
  "is_space b \<longleftrightarrow> b = 32 \<or> (9 \<le> b \<and> b \<le> 13)"

definition is_digit :: "byte \<Rightarrow> bool" where
  "is_digit b \<longleftrightarrow> 48 \<le> b \<and> b \<le> 57"

definition to_lower :: "byte \<Rightarrow> byte" where
  "to_lower b = (if 65 \<le> b \<and> b \<le> 90 then b + 32 else b)"

definition strcaseeq :: "byte list \<Rightarrow> byte list \<Rightarrow> bool" where
  "strcaseeq s t \<longleftrightarrow> map to_lower s = map to_lower t"

definition dec_val :: "byte list \<Rightarrow> nat" where
  "dec_val ds = foldl (\<lambda>v b. 10 * v + (unat b - 48)) 0 ds"

text \<open>What every \<open>strto*\<close> routine reads: the sign, the digits, and how many bytes it
  consumed (\<open>end - str\<close>), which is 0 when there is no digit.\<close>

definition scan_dec :: "byte list \<Rightarrow> bool \<times> nat \<times> nat" where
  "scan_dec s =
    (let ws = takeWhile is_space s; r = drop (length ws) s;
         neg = (r \<noteq> [] \<and> hd r = 45);
         sg = (if r \<noteq> [] \<and> (hd r = 45 \<or> hd r = 43) then 1 else 0);
         ds = takeWhile is_digit (drop sg r)
     in if ds = [] then (False, 0, 0) else (neg, dec_val ds, length ws + sg + length ds))"

definition strtoull :: "byte list \<Rightarrow> u64 \<times> nat" where
  "strtoull s = (case scan_dec s of (neg, n, used) \<Rightarrow>
     (if 2 ^ 64 \<le> n then - 1 else if neg then - of_nat n else of_nat n, used))"

definition strtoll :: "byte list \<Rightarrow> int \<times> nat" where
  "strtoll s = (case scan_dec s of (neg, n, used) \<Rightarrow>
     (if neg then max (- (2 ^ 63)) (- int n) else min (2 ^ 63 - 1) (int n), used))"

definition atoi :: "byte list \<Rightarrow> int" where
  \<comment> \<open>\<open>(int) strtol\<close> with the 32-bit \<open>long\<close> of the target\<close>
  "atoi s = (case scan_dec s of (neg, n, used) \<Rightarrow>
     if neg then max (- (2 ^ 31)) (- int n) else min (2 ^ 31 - 1) (int n))"

lemma strtoll_range: "- (2 ^ 63) \<le> fst (strtoll s) \<and> fst (strtoll s) < 2 ^ 63"
  by (auto simp: strtoll_def split: prod.splits)

lemma atoi_range: "- (2 ^ 31) \<le> atoi s \<and> atoi s < 2 ^ 31"
  by (auto simp: atoi_def split: prod.splits)

subsection \<open>Printing\<close>

definition digit :: "nat \<Rightarrow> byte" where
  "digit d = of_nat (48 + d)"

fun fmt_dec :: "nat \<Rightarrow> byte list" where
  "fmt_dec n = (if n < 10 then [digit n] else fmt_dec (n div 10) @ [digit (n mod 10)])"

declare fmt_dec.simps [simp del]

definition fmt_dec0 :: "nat \<Rightarrow> nat \<Rightarrow> byte list" where
  \<comment> \<open>\<open>%0wllu\<close>: zero-padded to \<open>w\<close> digits, never cut\<close>
  "fmt_dec0 w n = replicate (w - length (fmt_dec n)) 48 @ fmt_dec n"

lemma fmt_dec_ne [simp]: "fmt_dec n \<noteq> []"
  by (subst fmt_dec.simps) simp

lemma unat_digit [simp]: "d < 10 \<Longrightarrow> unat (digit d) = 48 + d"
proof -
  assume "d < 10"
  then have "(48 + d) mod 2 ^ LENGTH(8) = 48 + d" by simp
  then show ?thesis by (simp only: digit_def unat_of_nat)
qed

lemma is_digit_digit [simp]: "d < 10 \<Longrightarrow> is_digit (digit d)"
  by (simp add: is_digit_def word_le_nat_alt)

lemma fmt_dec_digits: "list_all is_digit (fmt_dec n)"
proof (induction n rule: fmt_dec.induct)
  case (1 n)
  then show ?case by (cases "n < 10") (subst fmt_dec.simps, simp)+
qed

lemma dec_val_snoc: "dec_val (ds @ [b]) = 10 * dec_val ds + (unat b - 48)"
  by (simp add: dec_val_def)

lemma dec_val_fmt_dec [simp]: "dec_val (fmt_dec n) = n"
proof (induction n rule: fmt_dec.induct)
  case (1 n)
  show ?case
  proof (cases "n < 10")
    case True
    then show ?thesis by (subst fmt_dec.simps) (simp add: dec_val_def)
  next
    case False
    with "1.IH" show ?thesis by (subst fmt_dec.simps) (simp add: dec_val_snoc)
  qed
qed

lemma length_fmt_dec_le: "n < 10 ^ k \<Longrightarrow> 0 < k \<Longrightarrow> length (fmt_dec n) \<le> k"
proof (induction k arbitrary: n)
  case 0
  then show ?case by simp
next
  case (Suc k)
  show ?case
  proof (cases "n < 10")
    case True
    then show ?thesis by (subst fmt_dec.simps) simp
  next
    case False
    with Suc.prems have "n div 10 < 10 ^ k" by (simp add: less_mult_imp_div_less mult.commute)
    moreover have "0 < k" using False Suc.prems(1) by (cases k) auto
    ultimately have "length (fmt_dec (n div 10)) \<le> k" by (rule Suc.IH)
    with False show ?thesis by (subst fmt_dec.simps) simp
  qed
qed

lemma length_fmt_dec_ge: "10 ^ k \<le> n \<Longrightarrow> k < length (fmt_dec n)"
proof (induction k arbitrary: n)
  case 0
  then show ?case by simp
next
  case (Suc k)
  have "(1::nat) \<le> 10 ^ k" by simp
  with Suc.prems have "\<not> n < 10" unfolding power_Suc by linarith
  moreover from Suc.prems have "10 ^ k \<le> n div 10" by (simp add: less_eq_div_iff_mult_less_eq mult.commute)
  then have "k < length (fmt_dec (n div 10))" by (rule Suc.IH)
  ultimately show ?case by (subst fmt_dec.simps) simp
qed

lemma length_fmt_dec: "10 ^ k \<le> n \<Longrightarrow> n < 10 ^ Suc k \<Longrightarrow> length (fmt_dec n) = Suc k"
  using length_fmt_dec_le [of n "Suc k"] length_fmt_dec_ge [of k n] by simp

lemma length_fmt_dec0: "n < 10 ^ w \<Longrightarrow> 0 < w \<Longrightarrow> length (fmt_dec0 w n) = w"
  using length_fmt_dec_le [of n w] by (simp add: fmt_dec0_def)

lemma dec_val_pad: "dec_val (replicate k 48 @ ds) = dec_val ds"
  by (induction k) (simp_all add: dec_val_def)

lemma dec_val_fmt_dec0 [simp]: "dec_val (fmt_dec0 w n) = n"
  by (simp add: fmt_dec0_def dec_val_pad)

lemma fmt_dec0_digits: "list_all is_digit (fmt_dec0 w n)"
  using fmt_dec_digits [of n]
  by (auto simp: fmt_dec0_def is_digit_def list_all_iff)

lemma hd_fmt_dec: "0 < n \<Longrightarrow> hd (fmt_dec n) \<noteq> 48"
proof (induction n rule: fmt_dec.induct)
  case (1 n)
  show ?case
  proof (cases "n < 10")
    case True
    have "unat (hd (fmt_dec n)) = 48 + n" using True by (subst fmt_dec.simps) simp
    with \<open>0 < n\<close> show ?thesis by auto
  next
    case False
    with 1 show ?thesis by (subst fmt_dec.simps) simp
  qed
qed

definition hex_lo :: "byte list" where "hex_lo = str ''0123456789abcdef''"
definition hex_up :: "byte list" where "hex_up = str ''0123456789ABCDEF''"

definition hex2 :: "byte list \<Rightarrow> byte \<Rightarrow> byte list" where
  "hex2 tab b = [tab ! unat (drop_bit 4 b AND 15), tab ! unat (b AND 15)]"

definition crlf :: "byte list" where "crlf = [13, 10]"

lemma length_crlf [simp]: "length crlf = 2"
  by (simp add: crlf_def)

definition fmt_int :: "int \<Rightarrow> byte list" where
  "fmt_int i = (if i < 0 then 45 # fmt_dec (nat (- i)) else fmt_dec (nat i))"

lemma length_fmt_int: "- (2 ^ 31) \<le> i \<Longrightarrow> i < 2 ^ 31 \<Longrightarrow> length (fmt_int i) \<le> 11"
proof -
  assume "- (2 ^ 31) \<le> i" "i < 2 ^ 31"
  then have "nat i < 10 ^ 10" "nat (- i) < 10 ^ 10" by auto
  from length_fmt_dec_le [OF this(1)] length_fmt_dec_le [OF this(2)] show ?thesis by (simp add: fmt_int_def)
qed

definition s32 :: "int \<Rightarrow> int" where
  \<comment> \<open>the value of a 32-bit \<open>int\<close> after wrap-around\<close>
  "s32 i = sint (of_int i :: u32)"

subsection \<open>sscanf\<close>

datatype fmt = Lit byte | Num \<comment> \<open>\<open>%d\<close>\<close>

definition scan_int :: "byte list \<Rightarrow> (int \<times> nat) option" where
  "scan_int s = (case scan_dec s of (neg, n, used) \<Rightarrow>
     if used = 0 then None
     else Some (if neg then max (- (2 ^ 31)) (- int n) else min (2 ^ 31 - 1) (int n), used))"

fun sscanf :: "fmt list \<Rightarrow> byte list \<Rightarrow> int list" where
  \<comment> \<open>the values assigned; their number is what \<open>sscanf\<close> returns\<close>
  "sscanf [] s = []"
| "sscanf (Lit c # f) s = (case s of [] \<Rightarrow> [] | x # xs \<Rightarrow> if x = c then sscanf f xs else [])"
| "sscanf (Num # f) s = (case scan_int s of None \<Rightarrow> [] | Some (v, used) \<Rightarrow> v # sscanf f (drop used s))"

lemma digits_not_space: "list_all is_digit ds \<Longrightarrow> ds \<noteq> [] \<Longrightarrow> \<not> is_space (hd ds) \<and> hd ds \<noteq> 45 \<and> hd ds \<noteq> 43"
proof -
  assume a: "list_all is_digit ds" "ds \<noteq> []"
  then have "is_digit (hd ds)" by (cases ds) auto
  then have "48 \<le> unat (hd ds)" by (simp add: is_digit_def word_le_nat_alt)
  then show ?thesis by (auto simp: is_space_def word_le_nat_alt)
qed

lemma scan_dec_digits:
  assumes "list_all is_digit ds" and "ds \<noteq> []" and "r = [] \<or> \<not> is_digit (hd r)"
  shows "scan_dec (ds @ r) = (False, dec_val ds, length ds)"
proof -
  note h = digits_not_space [OF assms(1,2)]
  have w: "takeWhile is_space (ds @ r) = []" using h assms(2) by (cases ds) auto
  have d: "takeWhile is_digit (ds @ r) = ds"
    using assms(1,3) by (cases r) (auto simp: takeWhile_append2 list_all_iff)
  show ?thesis using h assms(2) by (simp add: scan_dec_def w d Let_def)
qed

lemma scan_int_digits:
  assumes "list_all is_digit ds" and "ds \<noteq> []" and "r = [] \<or> \<not> is_digit (hd r)" and "dec_val ds < 2 ^ 31"
  shows "scan_int (ds @ r) = Some (int (dec_val ds), length ds)"
  using assms by (simp add: scan_int_def scan_dec_digits)

lemma fmt_dec0_ne [simp]: "fmt_dec0 w n \<noteq> []"
  by (simp add: fmt_dec0_def)

lemma not_digit_simps [simp]: "\<not> is_digit 58" "\<not> is_digit 46" "\<not> is_digit 93" "\<not> is_digit 44" "\<not> is_digit 41"
  by (simp_all add: is_digit_def)

lemma s32_small: "- (2 ^ 31) \<le> i \<Longrightarrow> i < 2 ^ 31 \<Longrightarrow> s32 i = i"
  by (simp add: s32_def signed_of_int signed_take_bit_int_eq_self)

lemma sscanf_digits:
  assumes "list_all is_digit ds" and "ds \<noteq> []" and "r = [] \<or> \<not> is_digit (hd r)" and "dec_val ds < 2 ^ 31"
  shows "sscanf (Num # f) (ds @ r) = int (dec_val ds) # sscanf f r"
  by (simp add: scan_int_digits [OF assms])

lemma sscanf_fmt:
  "n < 2 ^ 31 \<Longrightarrow> r = [] \<or> \<not> is_digit (hd r) \<Longrightarrow> sscanf (Num # f) (fmt_dec0 w n @ r) = int n # sscanf f r"
  using sscanf_digits [of "fmt_dec0 w n" r f] by (simp add: fmt_dec0_digits del: sscanf.simps)

end
