(* ===== verification/Streams.thy ===== *)
theory Streams
  imports Prelude
begin

text \<open>
  The two interfaces that the byte-stream components of the receiver share.

  A TCP reader keeps a buffer and looks at its head again and again: it waits for more
  bytes, drops some, or takes one whole message. \<open>drain\<close> is that loop over such a
  \<open>step\<close>; the locale \<open>drain_laws\<close> says what a step owes the loop (it consumes at least
  one byte and never more than there are), and \<open>framed_stream\<close> adds that a verdict once
  reached does not change when more bytes arrive, from which the messages delivered do
  not depend on how TCP cuts the stream into segments.

  The locale \<open>codec\<close> is the contract between an encoder and the decoder of the other
  side: what is written is read back, whatever follows it.
\<close>

datatype 'm verdict = More | Skip nat | Take nat 'm

partial_function (option) drain ::
  "(byte list \<Rightarrow> 'm verdict) \<Rightarrow> byte list \<Rightarrow> ('m list \<times> byte list) option" where
  "drain step buf =
     (case step buf of
        More \<Rightarrow> Some ([], buf)
      | Skip n \<Rightarrow> drain step (drop n buf)
      | Take n m \<Rightarrow> Option.bind (drain step (drop n buf)) (\<lambda>(ms, r). Some (m # ms, r)))"

lemma drain_More: "step buf = More \<Longrightarrow> drain step buf = Some ([], buf)"
  by (simp add: drain.simps)

lemma drain_Skip: "step buf = Skip n \<Longrightarrow> drain step buf = drain step (drop n buf)"
  by (subst drain.simps) simp

lemma drain_Take: "step buf = Take n m \<Longrightarrow>
    drain step buf = Option.bind (drain step (drop n buf)) (\<lambda>(ms, r). Some (m # ms, r))"
  by (subst drain.simps) simp

fun feed :: "(byte list \<Rightarrow> 'm verdict) \<Rightarrow> byte list \<Rightarrow> byte list list \<Rightarrow> ('m list \<times> byte list) option" where
  "feed step r [] = Some ([], r)"
| "feed step r (c # cs) =
     Option.bind (drain step (r @ c)) (\<lambda>(ms, r').
       map_option (\<lambda>(ms', r''). (ms @ ms', r'')) (feed step r' cs))"

locale drain_laws =
  fixes step :: "byte list \<Rightarrow> 'm verdict"
  assumes skip_progress: "step buf = Skip n \<Longrightarrow> 0 < n \<and> n \<le> length buf"
    and take_progress: "step buf = Take n m \<Longrightarrow> 0 < n \<and> n \<le> length buf"
begin

lemma returns: "\<exists>ms r. drain step buf = Some (ms, r)"
proof (induction "length buf" arbitrary: buf rule: less_induct)
  case less
  show ?case
  proof (cases "step buf")
    case More
    then show ?thesis by (simp add: drain_More)
  next
    case (Skip n)
    with skip_progress have "length (drop n buf) < length buf" by fastforce
    with less have "\<exists>ms r. drain step (drop n buf) = Some (ms, r)" by blast
    with Skip show ?thesis by (simp add: drain_Skip)
  next
    case (Take n m)
    with take_progress have "length (drop n buf) < length buf" by fastforce
    with less obtain ms r where "drain step (drop n buf) = Some (ms, r)" by blast
    with Take show ?thesis by (simp add: drain_Take)
  qed
qed

lemma rest:
  "drain step buf = Some (ms, r) \<Longrightarrow> step r = More \<and> (\<exists>pre. buf = pre @ r)"
proof (induction "length buf" arbitrary: buf ms rule: less_induct)
  case less
  show ?case
  proof (cases "step buf")
    case More
    with less.prems show ?thesis by (simp add: drain_More)
  next
    case (Skip n)
    with less.prems have d: "drain step (drop n buf) = Some (ms, r)" by (simp add: drain_Skip)
    from Skip skip_progress have "length (drop n buf) < length buf" by fastforce
    from less.hyps [OF this d] show ?thesis by (metis append.assoc append_take_drop_id)
  next
    case (Take n m)
    with less.prems obtain ms' where d: "drain step (drop n buf) = Some (ms', r)"
      by (auto simp: drain_Take bind_eq_Some_conv)
    from Take take_progress have "length (drop n buf) < length buf" by fastforce
    from less.hyps [OF this d] show ?thesis by (metis append.assoc append_take_drop_id)
  qed
qed

lemma rest_length: "drain step buf = Some (ms, r) \<Longrightarrow> length r \<le> length buf"
  using rest by fastforce

lemma rest_idle: "drain step buf = Some (ms, r) \<Longrightarrow> drain step r = Some ([], r)"
  using rest by (simp add: drain_More)

end

locale framed_stream = drain_laws +
  assumes skip_stable: "step buf = Skip n \<Longrightarrow> step (buf @ more) = Skip n"
    and take_stable: "step buf = Take n m \<Longrightarrow> step (buf @ more) = Take n m"
begin

lemma drain_append:
  "drain step a = Some (ms, r) \<Longrightarrow>
   drain step (a @ b) = map_option (\<lambda>(ms', r'). (ms @ ms', r')) (drain step (r @ b))"
proof (induction "length a" arbitrary: a ms rule: less_induct)
  case less
  show ?case
  proof (cases "step a")
    case More
    with less.prems show ?thesis
      by (cases "drain step (a @ b)") (auto simp: drain_More)
  next
    case (Skip n)
    then have n: "length (drop n a) < length a" "n \<le> length a"
      using skip_progress [of a n] by auto
    from Skip less.prems have "drain step (drop n a) = Some (ms, r)" by (simp add: drain_Skip)
    from less.hyps [OF n(1) this] n(2) skip_stable [OF Skip, of b] show ?thesis
      by (simp add: drain_Skip)
  next
    case (Take n m)
    then have n: "length (drop n a) < length a" "n \<le> length a"
      using take_progress [of a n m] by auto
    from Take less.prems obtain ms' where ms: "ms = m # ms'"
      and d: "drain step (drop n a) = Some (ms', r)"
      by (auto simp: drain_Take bind_eq_Some_conv)
    from less.hyps [OF n(1) d] n(2) take_stable [OF Take, of b] show ?thesis
      by (cases "drain step (r @ b)") (auto simp: drain_Take ms)
  qed
qed

lemma feed_concat: "step r = More \<Longrightarrow> feed step r cs = drain step (r @ concat cs)"
proof (induction cs arbitrary: r)
  case Nil
  then show ?case by (simp add: drain_More)
next
  case (Cons c cs)
  obtain ms r' where d: "drain step (r @ c) = Some (ms, r')" using returns by blast
  then have "step r' = More" using rest by blast
  with Cons.IH have "feed step r' cs = drain step (r' @ concat cs)" by blast
  with drain_append [OF d, of "concat cs"] d show ?case by simp
qed

end

subsection \<open>Encoders and decoders\<close>

function dec_all :: "(byte list \<Rightarrow> ('a \<times> byte list) option) \<Rightarrow> byte list \<Rightarrow> 'a list option" where
  "dec_all dec bs =
     (if bs = [] then Some []
      else case dec bs of
             None \<Rightarrow> None
           | Some (a, r) \<Rightarrow>
               if length r < length bs then map_option (Cons a) (dec_all dec r) else None)"
  by pat_completeness auto
termination
  by (relation "measure (\<lambda>(dec, bs). length bs)") auto

declare dec_all.simps [simp del]

locale codec =
  fixes enc :: "'a \<Rightarrow> byte list"
    and dec :: "byte list \<Rightarrow> ('a \<times> byte list) option"
    and ok :: "'a \<Rightarrow> bool"
  assumes dec_enc: "ok a \<Longrightarrow> dec (enc a @ tail) = Some (a, tail)"
    and enc_nonempty: "ok a \<Longrightarrow> enc a \<noteq> []"
begin

lemma dec_all_enc: "list_all ok as \<Longrightarrow> dec_all dec (concat (map enc as)) = Some as"
proof (induction "as")
  case Nil
  show ?case by (simp add: dec_all.simps)
next
  case (Cons a "as")
  then show ?case
    by (subst dec_all.simps) (auto simp: dec_enc enc_nonempty)
qed

lemma enc_inj: "ok a \<Longrightarrow> ok b \<Longrightarrow> enc a @ s = enc b @ t \<Longrightarrow> a = b \<and> s = t"
proof -
  assume "ok a" "ok b" and eq: "enc a @ s = enc b @ t"
  have "Some (a, s) = dec (enc a @ s)" using \<open>ok a\<close> by (rule dec_enc [symmetric])
  also have "\<dots> = Some (b, t)" unfolding eq using \<open>ok b\<close> by (rule dec_enc)
  finally show ?thesis by simp
qed

end

end
