(* ===== verification/Safety.thy ===== *)
theory Safety
  imports Cstring
begin

text \<open>
  \<open>SafetyData v1\<close>, the container of every encrypted MiPlay payload (\<open>miplay.c\<close>, from
  \<open>miplay_crc32_table_entry\<close> to \<open>safety_envelope_encode\<close>): the CRC-32 integrity value,
  AES-128-CBC with zero padding, the 9-byte header, and the envelope of the Safety phase.

  AES itself is \<open>mbedtls\<close>, which is not part of the repository: the block functions are
  the parameters \<open>E\<close> and \<open>D\<close> (key, then a 16-byte block), and what the code relies on is
  the predicate \<open>cipher_ok\<close>. Each call that can fail for a reason outside the code (a
  key schedule, an allocation) has a boolean argument that says whether it succeeds.
\<close>

definition AES_BLOCK_LEN :: nat where "AES_BLOCK_LEN = 16"
definition SAFETY_DATA_HDR_LEN :: nat where "SAFETY_DATA_HDR_LEN = 9"
definition SAFETY_DATA_VERSION :: byte where "SAFETY_DATA_VERSION = 1"
definition SAFETY_DATA_FLAGS :: byte where "SAFETY_DATA_FLAGS = 0xE0"
definition SAFETY_VALUE_TYPE :: byte where "SAFETY_VALUE_TYPE = 30"
definition CRC32_MPEG2_POLY :: u32 where "CRC32_MPEG2_POLY = 0x04C11DB7"

lemmas safety_consts = AES_BLOCK_LEN_def SAFETY_DATA_HDR_LEN_def SAFETY_DATA_VERSION_def
  SAFETY_DATA_FLAGS_def SAFETY_VALUE_TYPE_def

subsection \<open>CRC-32\<close>

definition crc_shift :: "u32 \<Rightarrow> u32" where
  "crc_shift v = (if v AND 0x80000000 \<noteq> 0 then push_bit 1 v XOR CRC32_MPEG2_POLY else push_bit 1 v)"

definition bswap32 :: "u32 \<Rightarrow> u32" where
  "bswap32 v = push_bit 24 (v AND 0xFF) OR push_bit 8 (v AND 0xFF00)
     OR (drop_bit 8 v AND 0xFF00) OR drop_bit 24 v"

definition miplay_crc32_table_entry :: "byte \<Rightarrow> u32" where
  "miplay_crc32_table_entry index = bswap32 ((crc_shift ^^ 8) (push_bit 24 (ucast index)))"

definition safety_integrity :: "byte list \<Rightarrow> u32" where
  "safety_integrity data =
     foldl (\<lambda>crc d. miplay_crc32_table_entry (ucast (crc AND 0xFF) XOR d) XOR drop_bit 8 crc)
       0xFFFFFFFF data"

text \<open>The textbook CRC-32/MPEG-2 the comment names: most significant bit first, no table.\<close>

definition crc32_mpeg2_step :: "u32 \<Rightarrow> byte \<Rightarrow> u32" where
  "crc32_mpeg2_step c d = (crc_shift ^^ 8) (c XOR push_bit 24 (ucast d))"

definition crc32_mpeg2 :: "byte list \<Rightarrow> u32" where
  "crc32_mpeg2 data = foldl crc32_mpeg2_step 0xFFFFFFFF data"

lemma msb_mask: "(v :: u32) AND 0x80000000 \<noteq> 0 \<longleftrightarrow> bit v 31"
proof -
  show ?thesis using and_exp_eq_0_iff_not_bit [of v 31] by simp
qed

lemma push_bit_xor': "push_bit n (a XOR b) = push_bit n a XOR push_bit n (b::u32)"
  by (rule bit_word_eqI) (auto simp: bit_simps)

lemma crc_shift_xor: "crc_shift (a XOR b) = crc_shift a XOR crc_shift b"
  by (simp add: crc_shift_def CRC32_MPEG2_POLY_def msb_mask bit_xor_iff push_bit_xor' ac_simps)

lemma crc_shift_0: "crc_shift v = 0 \<Longrightarrow> v = 0"
proof -
  assume z: "crc_shift v = 0"
  have "\<not> bit v 31"
  proof
    assume "bit v 31"
    then have "bit (crc_shift v) 0" by (simp add: crc_shift_def CRC32_MPEG2_POLY_def msb_mask bit_xor_iff bit_push_bit_iff del: push_bit_Suc)
    with z show False by simp
  qed
  with z have p: "push_bit 1 v = 0" by (simp add: crc_shift_def CRC32_MPEG2_POLY_def msb_mask)
  show "v = 0"
  proof (rule bit_word_eqI)
    fix n assume "n < LENGTH(32)"
    have "bit (push_bit 1 v) (Suc n) = (Suc n < 32 \<and> bit v n)" using bit_push_bit_iff [of 1 v "Suc n"] by simp
    with p \<open>\<not> bit v 31\<close> \<open>n < LENGTH(32)\<close> show "bit v n = bit 0 n"
      by (cases "n = 31") auto
  qed
qed

lemma crc_shift_small: "\<not> bit v 31 \<Longrightarrow> crc_shift v = push_bit 1 v" by (simp add: crc_shift_def CRC32_MPEG2_POLY_def msb_mask)

lemma crc_small: "k \<le> 8 \<Longrightarrow> (crc_shift ^^ k) (take_bit 24 v) = push_bit k (take_bit 24 v)"
proof (induction k)
  case (Suc k)
  then have "(crc_shift ^^ k) (take_bit 24 v) = push_bit k (take_bit 24 v)" by simp
  moreover have "\<not> bit (push_bit k (take_bit 24 v)) 31" using Suc.prems by (auto simp: bit_simps)
  ultimately show ?case by (simp add: crc_shift_small)
qed simp

lemma maskFF: "(0xFF::u32) = mask 8" by (simp add: mask_eq_exp_minus_1)

lemma maskFF00: "(0xFF00::u32) = push_bit 8 (mask 8)" by (simp add: mask_eq_exp_minus_1)

lemma bit_bswap32: "bit (bswap32 v) n \<longleftrightarrow> (n < 8 \<and> bit v (24 + n) \<or> 8 \<le> n \<and> n < 16 \<and> bit v (8 + n)
   \<or> 16 \<le> n \<and> n < 24 \<and> bit v (n - 8) \<or> 24 \<le> n \<and> n < 32 \<and> bit v (n - 24))"
proof -
  have "bit (push_bit 24 (v AND 0xFF)) n \<longleftrightarrow> 24 \<le> n \<and> n < 32 \<and> bit v (n - 24)"
    unfolding maskFF by (auto simp: bit_simps)
  moreover have "bit (push_bit 8 (v AND 0xFF00)) n \<longleftrightarrow> 16 \<le> n \<and> n < 24 \<and> bit v (n - 8)"
    unfolding maskFF00 by (auto simp: bit_simps)
  moreover have "bit (drop_bit 8 v AND 0xFF00) n \<longleftrightarrow> 8 \<le> n \<and> n < 16 \<and> bit v (8 + n)"
    unfolding maskFF00 by (auto simp: bit_simps)
  moreover have "bit (drop_bit 24 v) n \<longleftrightarrow> n < 8 \<and> bit v (24 + n)"
    by (auto simp: bit_simps dest: bit_imp_le_length)
  ultimately show ?thesis unfolding bswap32_def bit_or_iff by blast
qed

lemma byte_cases32:
  obtains "(n::nat) < 8" | k where "k < 8" "n = 8 + k" | k where "k < 8" "n = 16 + k"
    | k where "k < 8" "n = 24 + k" | "32 \<le> n"
proof -
  assume hyps: "n < 8 \<Longrightarrow> thesis" "\<And>k. k < 8 \<Longrightarrow> n = 8 + k \<Longrightarrow> thesis" "\<And>k. k < 8 \<Longrightarrow> n = 16 + k \<Longrightarrow> thesis"
    "\<And>k. k < 8 \<Longrightarrow> n = 24 + k \<Longrightarrow> thesis" "32 \<le> n \<Longrightarrow> thesis"
  consider "n < 8" | "8 \<le> n" "n < 16" | "16 \<le> n" "n < 24" | "24 \<le> n" "n < 32" | "32 \<le> n" by linarith
  then show thesis
    by cases (use hyps(1) hyps(2) [of "n - 8"] hyps(3) [of "n - 16"] hyps(4) [of "n - 24"] hyps(5) in auto)
qed

lemma bswap32_invol: "bswap32 (bswap32 v) = v"
proof (rule bit_word_eqI)
  fix n assume "n < LENGTH(32)"
  then show "bit (bswap32 (bswap32 v)) n = bit v n"
    by (cases n rule: byte_cases32) (simp_all add: bit_bswap32)
qed

lemma bswap32_xor: "bswap32 (a XOR b) = bswap32 a XOR bswap32 b"
  by (rule bit_word_eqI) (auto simp: bit_bswap32 bit_xor_iff)

lemma bswap32_drop: "bswap32 (drop_bit 8 v) = push_bit 8 (bswap32 v)"
proof (rule bit_word_eqI)
  fix n assume "n < LENGTH(32)"
  then show "bit (bswap32 (drop_bit 8 v)) n = bit (push_bit 8 (bswap32 v)) n"
    by (cases n rule: byte_cases32)
      (auto simp: bit_bswap32 bit_push_bit_iff bit_drop_bit_eq dest: bit_imp_le_length)
qed

lemma bswap32_inject: "bswap32 a = bswap32 b \<longleftrightarrow> a = b" by (metis bswap32_invol)

lemma low_byte: "push_bit 24 (ucast (ucast (v AND 0xFF) :: byte) :: u32) = bswap32 v AND NOT (mask 24)"
proof (rule bit_word_eqI)
  fix n assume "n < LENGTH(32)"
  then show "bit (push_bit 24 (ucast (ucast (v AND 0xFF) :: byte) :: u32)) n = bit (bswap32 v AND NOT (mask 24)) n"
    unfolding maskFF
    by (cases n rule: byte_cases32) (simp_all add: bit_bswap32 bit_push_bit_iff bit_and_iff bit_not_iff bit_mask_iff bit_ucast_iff)
qed

lemma hi_lo_split: "(c :: u32) = (c AND NOT (mask 24)) XOR take_bit 24 c"
  by (rule bit_word_eqI) (auto simp: bit_xor_iff bit_and_iff bit_not_iff bit_mask_iff bit_take_bit_iff)

lemma crc_shift_pow_xor: "(crc_shift ^^ k) (a XOR b) = (crc_shift ^^ k) a XOR (crc_shift ^^ k) b"
  by (induction k) (simp_all add: crc_shift_xor)

lemma crc_shift_pow_0: "(crc_shift ^^ k) v = 0 \<Longrightarrow> v = 0"
  by (induction k) (auto dest: crc_shift_0)

lemma crc_step_bswap:
  "miplay_crc32_table_entry (ucast (bswap32 c AND 0xFF) XOR d) XOR drop_bit 8 (bswap32 c)
     = bswap32 (crc32_mpeg2_step c d)"
proof -
  let ?hi = "c AND NOT (mask 24)" and ?d = "push_bit 24 (ucast d) :: u32"
  have idx: "push_bit 24 (ucast (ucast (bswap32 c AND 0xFF) XOR d)) = ?hi XOR ?d"
  proof -
    have "push_bit 24 (ucast (ucast (bswap32 c AND 0xFF) XOR d) :: u32)
        = push_bit 24 (ucast (ucast (bswap32 c AND 0xFF) :: byte)) XOR ?d"
      by (rule bit_word_eqI) (auto simp: bit_push_bit_iff bit_xor_iff bit_ucast_iff)
    then show ?thesis by (simp add: low_byte bswap32_invol)
  qed
  have low: "drop_bit 8 (bswap32 c) = bswap32 (push_bit 8 c)"
    by (metis bswap32_drop bswap32_invol)
  have "crc32_mpeg2_step c d = (crc_shift ^^ 8) ((?hi XOR ?d) XOR take_bit 24 c)"
    unfolding crc32_mpeg2_step_def by (subst hi_lo_split [of c]) (simp add: ac_simps)
  also have "\<dots> = (crc_shift ^^ 8) (?hi XOR ?d) XOR push_bit 8 (take_bit 24 c)"
    by (simp only: crc_shift_pow_xor crc_small [of 8])
  also have "push_bit 8 (take_bit 24 c) = push_bit 8 c"
    by (rule bit_word_eqI) (auto simp: bit_push_bit_iff bit_take_bit_iff)
  finally show ?thesis
    by (simp add: miplay_crc32_table_entry_def idx low bswap32_xor)
qed

lemma safety_integrity_bswap: "safety_integrity data = bswap32 (crc32_mpeg2 data)"
proof -
  have "foldl (\<lambda>crc d. miplay_crc32_table_entry (ucast (crc AND 0xFF) XOR d) XOR drop_bit 8 crc)
      (bswap32 c) data = bswap32 (foldl crc32_mpeg2_step c data)" for c :: u32
    by (induction data arbitrary: c) (simp_all add: crc_step_bswap)
  note step = this
  show ?thesis
    using step [of "0xFFFFFFFF"] by (simp add: safety_integrity_def crc32_mpeg2_def bswap32_def)
qed

lemma xor_cancel:
  "(a :: 'a::len word) XOR b = a XOR c \<longleftrightarrow> b = c" "b XOR a = c XOR a \<longleftrightarrow> b = c"
  by (metis xor.assoc xor.commute xor.left_neutral xor_self_eq)+

lemma xor_eq_0: "(a :: 'a::len word) XOR b = 0 \<longleftrightarrow> a = b"
  using xor_cancel(1) [of a b a] by auto

lemma crc_step_inj_state: "crc32_mpeg2_step c d = crc32_mpeg2_step c' d \<Longrightarrow> c = c'"
proof -
  assume "crc32_mpeg2_step c d = crc32_mpeg2_step c' d"
  then have "(crc_shift ^^ 8) (c XOR c') = 0"
    by (simp add: crc32_mpeg2_step_def crc_shift_pow_xor xor_cancel)
  then show ?thesis by (auto simp: xor_eq_0 dest!: crc_shift_pow_0)
qed

lemma crc_step_inj_byte: "crc32_mpeg2_step c d = crc32_mpeg2_step c d' \<Longrightarrow> d = d'"
proof -
  assume "crc32_mpeg2_step c d = crc32_mpeg2_step c d'"
  then have "(crc_shift ^^ 8) (push_bit 24 (ucast d) XOR push_bit 24 (ucast d')) = 0"
    by (simp add: crc32_mpeg2_step_def crc_shift_pow_xor xor_cancel)
  then have "push_bit 24 (ucast d) = (push_bit 24 (ucast d') :: u32)"
    by (auto simp: xor_eq_0 dest!: crc_shift_pow_0)
  then have eq: "bit (push_bit 24 (ucast d) :: u32) (24 + n) = bit (push_bit 24 (ucast d') :: u32) (24 + n)" for n
    by simp
  show ?thesis
  proof (rule bit_word_eqI)
    fix n assume "n < LENGTH(8)"
    with eq [of n] show "bit d n = bit d' n" by (simp add: bit_push_bit_iff bit_ucast_iff)
  qed
qed

lemma crc_foldl_inj: "foldl crc32_mpeg2_step c ds = foldl crc32_mpeg2_step c' ds \<Longrightarrow> c = c'"
  by (induction ds arbitrary: c c') (auto dest: crc_step_inj_state)

lemma safety_integrity_single_byte:
  "b \<noteq> b' \<Longrightarrow> safety_integrity (pre @ b # post) \<noteq> safety_integrity (pre @ b' # post)"
  by (auto simp: safety_integrity_bswap bswap32_inject crc32_mpeg2_def
      dest!: crc_foldl_inj crc_step_inj_byte)

subsection \<open>AES-128-CBC\<close>

definition xor_block :: "byte list \<Rightarrow> byte list \<Rightarrow> byte list" where
  "xor_block a b = map2 (\<lambda>x y. x XOR y) a b"

text \<open>The block loops of the two routines: the chaining value is the last ciphertext block.\<close>

function cbc_enc :: "(byte list \<Rightarrow> byte list) \<Rightarrow> byte list \<Rightarrow> byte list \<Rightarrow> byte list \<times> byte list" where
  "cbc_enc e iv input =
     (if length input < AES_BLOCK_LEN then ([], iv)
      else let c = e (xor_block (take AES_BLOCK_LEN input) iv);
               (cs, iv') = cbc_enc e c (drop AES_BLOCK_LEN input)
           in (c @ cs, iv'))"
  by pat_completeness auto
termination
  by (relation "measure (\<lambda>(e, iv, input). length input)") (auto simp: AES_BLOCK_LEN_def)

function cbc_dec :: "(byte list \<Rightarrow> byte list) \<Rightarrow> byte list \<Rightarrow> byte list \<Rightarrow> byte list \<times> byte list" where
  "cbc_dec d iv input =
     (if length input < AES_BLOCK_LEN then ([], iv)
      else let c = take AES_BLOCK_LEN input;
               (ps, iv') = cbc_dec d c (drop AES_BLOCK_LEN input)
           in (xor_block (d c) iv @ ps, iv'))"
  by pat_completeness auto
termination
  by (relation "measure (\<lambda>(d, iv, input). length input)") (auto simp: AES_BLOCK_LEN_def)

declare cbc_enc.simps [simp del] cbc_dec.simps [simp del]

type_synonym block_fun = "byte list \<Rightarrow> byte list \<Rightarrow> byte list"

definition aes_cbc_encrypt ::
  "block_fun \<Rightarrow> bool \<Rightarrow> byte list \<Rightarrow> byte list \<Rightarrow> byte list \<Rightarrow> (byte list \<times> byte list) option" where
  \<comment> \<open>the output and the IV left behind; \<open>setkey\<close> says whether the key schedule succeeds\<close>
  "aes_cbc_encrypt E setkey key iv input =
     (if length input mod AES_BLOCK_LEN \<noteq> 0 then None
      else if \<not> setkey then None
      else Some (cbc_enc (E key) iv input))"

definition aes_cbc_decrypt ::
  "block_fun \<Rightarrow> bool \<Rightarrow> byte list \<Rightarrow> byte list \<Rightarrow> byte list \<Rightarrow> (byte list \<times> byte list) option" where
  "aes_cbc_decrypt D setkey key iv input =
     (if length input mod AES_BLOCK_LEN \<noteq> 0 then None
      else if \<not> setkey then None
      else Some (cbc_dec (D key) iv input))"

definition cipher_ok :: "block_fun \<Rightarrow> block_fun \<Rightarrow> byte list \<Rightarrow> bool" where
  \<comment> \<open>what the code relies on of \<open>mbedtls_aes_crypt_ecb\<close>: a permutation of 16-byte blocks\<close>
  "cipher_ok E D key \<longleftrightarrow>
     (\<forall>b. length b = AES_BLOCK_LEN \<longrightarrow> length (E key b) = AES_BLOCK_LEN \<and> D key (E key b) = b)"

lemma length_xor_block [simp]: "length (xor_block a b) = min (length a) (length b)"
  by (simp add: xor_block_def)

lemma xor_block_cancel: "length a \<le> length b \<Longrightarrow> xor_block (xor_block a b) b = a"
  unfolding xor_block_def
  by (rule nth_equalityI) (auto simp: xor.assoc)

lemma cbc_roundtrip:
  assumes "\<And>b. length b = AES_BLOCK_LEN \<Longrightarrow> length (e b) = AES_BLOCK_LEN \<and> d (e b) = b"
    and "length input mod AES_BLOCK_LEN = 0" and "length iv = AES_BLOCK_LEN"
    and "cbc_enc e iv input = (ct, iv')"
  shows "cbc_dec d iv ct = (input, iv') \<and> length ct = length input \<and> length iv' = AES_BLOCK_LEN"
  using assms(2-4)
proof (induction "length input" arbitrary: iv input ct rule: less_induct)
  case less
  show ?case
  proof (cases "length input < AES_BLOCK_LEN")
    case True
    with less.prems have "input = []" by (cases input) (auto simp: AES_BLOCK_LEN_def)
    with less.prems show ?thesis
      by (auto simp: cbc_enc.simps [of e iv] cbc_dec.simps [of _ _ "[]"] AES_BLOCK_LEN_def)
  next
    case False
    let ?p = "take AES_BLOCK_LEN input" and ?q = "drop AES_BLOCK_LEN input"
    let ?c = "e (xor_block ?p iv)"
    obtain cs where cs: "cbc_enc e ?c ?q = (cs, iv')" and ct: "ct = ?c @ cs"
      using less.prems(3) False
      by (auto simp: cbc_enc.simps [of e iv] Let_def split: prod.splits)
    from False less.prems(2) have lp: "length (xor_block ?p iv) = AES_BLOCK_LEN"
      by (simp add: min_def)
    with assms(1) have lc: "length ?c = AES_BLOCK_LEN" and dc: "d ?c = xor_block ?p iv" by auto
    have "cbc_dec d ?c cs = (?q, iv') \<and> length cs = length ?q \<and> length iv' = AES_BLOCK_LEN"
    proof (rule less.hyps)
      show "length ?q < length input" using False by (simp add: AES_BLOCK_LEN_def)
      show "length ?q mod AES_BLOCK_LEN = 0"
        using less.prems(1) False by (simp add: mod_if [of "length input"] not_less)
      show "length ?c = AES_BLOCK_LEN" by (rule lc)
      show "cbc_enc e ?c ?q = (cs, iv')" by (rule cs)
    qed
    with False lc dc less.prems(2) show ?thesis
      by (simp add: ct cbc_dec.simps [of d iv] Let_def xor_block_cancel)
  qed
qed

subsection \<open>The SafetyData v1 container\<close>

text \<open>
  \<open>safety_encrypt\<close> returns the container and the IV it leaves; 0 (failure) is \<open>None\<close>,
  and the IV is then the old one. Its NULL checks have no counterpart: every caller passes
  arrays of the program. \<open>mem\<close> says whether the padding buffer is allocated.
\<close>

definition safety_encrypt ::
  "block_fun \<Rightarrow> bool \<Rightarrow> bool \<Rightarrow> byte list \<Rightarrow> byte list \<Rightarrow> byte list \<Rightarrow> nat \<Rightarrow> (byte list \<times> byte list) option" where
  "safety_encrypt E setkey mem plaintext key iv out_max =
    (let pt_len = length plaintext;
         pad_len = AES_BLOCK_LEN - pt_len mod AES_BLOCK_LEN;
         padded_len = pt_len + pad_len
     in if out_max < SAFETY_DATA_HDR_LEN + padded_len then None
        else if \<not> mem then None
        else case aes_cbc_encrypt E setkey key iv (plaintext @ replicate pad_len 0) of
               None \<Rightarrow> None
             | Some (ciphertext, iv') \<Rightarrow>
                 Some ([0x00, 0x07, SAFETY_DATA_VERSION, SAFETY_DATA_FLAGS, of_nat pad_len]
                         @ be32 (safety_integrity ciphertext) @ ciphertext, iv'))"

text \<open>
  \<open>safety_decrypt\<close> returns the plaintext (or \<open>None\<close> for -1) and the IV it leaves: once
  the block decryption has run the IV is the new one, also when the padding check then
  fails. \<open>pt_len\<close> is a 32-bit \<open>size_t\<close>, so a padding length larger than the ciphertext
  wraps around and is refused as larger than the output buffer.
\<close>

definition safety_decrypt ::
  "block_fun \<Rightarrow> bool \<Rightarrow> bool \<Rightarrow> byte list \<Rightarrow> byte list \<Rightarrow> byte list \<Rightarrow> nat \<Rightarrow> byte list option \<times> byte list" where
  "safety_decrypt D setkey mem data key iv out_max =
    (if length data < SAFETY_DATA_HDR_LEN then (None, iv)
     else if data ! 0 \<noteq> 0x00 \<or> data ! 1 \<noteq> 0x07 then (None, iv)
     else if data ! 2 \<noteq> SAFETY_DATA_VERSION then (None, iv)
     else if data ! 3 AND 0x80 = 0 then (None, iv)
     else
       let pad_len = (if data ! 3 AND 0x40 \<noteq> 0 then unat (data ! 4) else 0);
           expected_crc = rd32 data 5;
           ct = drop SAFETY_DATA_HDR_LEN data;
           ct_len = length ct
       in if ct_len = 0 \<or> ct_len mod AES_BLOCK_LEN \<noteq> 0 then (None, iv)
          else if safety_integrity ct \<noteq> expected_crc then (None, iv)
          else
            let pt_len = unat (of_nat ct_len - of_nat pad_len :: u32)
            in if out_max < pt_len then (None, iv)
               else if \<not> mem then (None, iv)
               else case aes_cbc_decrypt D setkey key iv ct of
                      None \<Rightarrow> (None, iv)
                    | Some (decrypted, iv') \<Rightarrow>
                        if list_all (\<lambda>b. b = 0) (drop pt_len decrypted)
                        then (Some (take pt_len decrypted), iv')
                        else (None, iv'))"

text \<open>The envelope of the Safety phase; 0 (too long for the buffer) is \<open>None\<close>.\<close>

definition safety_envelope_encode :: "bool \<Rightarrow> byte \<Rightarrow> byte list \<Rightarrow> nat \<Rightarrow> byte list option" where
  "safety_envelope_encode is_ack value_type payload out_max =
    (let tag = (if is_ack then str ''ack'' else str ''cmd''); tag_len = 3;
         total = 1 + tag_len + 4 + 1 + length payload
     in if out_max < total then None
        else Some ([of_nat tag_len] @ tag @ [value_type, 0x00, 0x00, 0x00]
                    @ [of_nat (length payload)] @ payload))"

lemma safety_encrypt_Some:
  assumes "safety_encrypt E setkey mem pt key iv out_max = Some (frame, iv')"
  obtains pad ct where "pad = AES_BLOCK_LEN - length pt mod AES_BLOCK_LEN"
    and "cbc_enc (E key) iv (pt @ replicate pad 0) = (ct, iv')"
    and "frame = [0x00, 0x07, SAFETY_DATA_VERSION, SAFETY_DATA_FLAGS, of_nat pad]
        @ be32 (safety_integrity ct) @ ct"
    and "SAFETY_DATA_HDR_LEN + length pt + pad \<le> out_max" and "setkey" and "mem"
  using assms
  by (auto simp: safety_encrypt_def aes_cbc_encrypt_def Let_def split: if_splits option.splits prod.splits)

lemma padded_length:
  "(length pt + (AES_BLOCK_LEN - length pt mod AES_BLOCK_LEN)) mod AES_BLOCK_LEN = 0"
proof -
  have "n + (16 - n mod 16) = 16 * (n div 16 + 1)" for n :: nat
    by presburger
  then show ?thesis by (simp add: AES_BLOCK_LEN_def)
qed

lemma safety_encrypt_frame:
  assumes "safety_encrypt E setkey mem pt key iv out_max = Some (frame, iv')"
    and "cipher_ok E D key" and "length iv = AES_BLOCK_LEN"
  shows "length frame = SAFETY_DATA_HDR_LEN + length pt + (AES_BLOCK_LEN - length pt mod AES_BLOCK_LEN)"
    and "take 4 frame = [0x00, 0x07, 0x01, 0xE0]" and "length iv' = AES_BLOCK_LEN"
proof -
  obtain pad ct where pad: "pad = AES_BLOCK_LEN - length pt mod AES_BLOCK_LEN"
    and ct: "cbc_enc (E key) iv (pt @ replicate pad 0) = (ct, iv')"
    and frame: "frame = [0x00, 0x07, SAFETY_DATA_VERSION, SAFETY_DATA_FLAGS, of_nat pad]
        @ be32 (safety_integrity ct) @ ct"
    using assms(1) by (rule safety_encrypt_Some)
  have "cbc_dec (D key) iv ct = (pt @ replicate pad 0, iv') \<and> length ct = length (pt @ replicate pad 0)
      \<and> length iv' = AES_BLOCK_LEN"
    using assms(2,3) padded_length [of pt] pad
    by (intro cbc_roundtrip [OF _ _ _ ct]) (auto simp: cipher_ok_def)
  then show "length iv' = AES_BLOCK_LEN"
    and "length frame = SAFETY_DATA_HDR_LEN + length pt + (AES_BLOCK_LEN - length pt mod AES_BLOCK_LEN)"
    by (simp_all add: frame pad SAFETY_DATA_HDR_LEN_def)
  show "take 4 frame = [0x00, 0x07, 0x01, 0xE0]"
    by (simp add: frame SAFETY_DATA_VERSION_def SAFETY_DATA_FLAGS_def)
qed

lemma safety_decrypt_encrypt:
  assumes enc: "safety_encrypt E setkey mem pt key iv out_max = Some (frame, iv')"
    and ok: "cipher_ok E D key" "length iv = AES_BLOCK_LEN"
    and fits: "length frame < 2 ^ 32" "length pt \<le> cap"
  shows "safety_decrypt D True True frame key iv cap = (Some pt, iv')"
proof -
  obtain pad ct where pad: "pad = AES_BLOCK_LEN - length pt mod AES_BLOCK_LEN"
    and ct: "cbc_enc (E key) iv (pt @ replicate pad 0) = (ct, iv')"
    and frame: "frame = [0x00, 0x07, SAFETY_DATA_VERSION, SAFETY_DATA_FLAGS, of_nat pad]
        @ be32 (safety_integrity ct) @ ct"
    using enc by (rule safety_encrypt_Some)
  have mod0: "(length pt + pad) mod AES_BLOCK_LEN = 0" by (simp add: pad padded_length)
  have d: "cbc_dec (D key) iv ct = (pt @ replicate pad 0, iv')" and len: "length ct = length pt + pad"
    using cbc_roundtrip [OF _ _ ok(2) ct, of "D key"] ok(1) mod0 by (auto simp: cipher_ok_def)
  have pad_bounds: "0 < pad" "pad \<le> 16" by (auto simp: pad AES_BLOCK_LEN_def)
  then have unat_pad: "unat (of_nat pad :: byte) = pad" by (simp add: unat_of_nat)
  have hdr: "frame ! 0 = 0" "frame ! 1 = 7" "frame ! 2 = SAFETY_DATA_VERSION" "frame ! 3 = 0xE0"
    "frame ! 4 = of_nat pad" "drop SAFETY_DATA_HDR_LEN frame = ct"
    by (simp_all add: frame safety_consts be32_def)
  have "frame = [0x00, 0x07, SAFETY_DATA_VERSION, SAFETY_DATA_FLAGS, of_nat pad]
      @ be32 (safety_integrity ct) @ ct" by (rule frame)
  then have crc: "rd32 frame 5 = safety_integrity ct" by (simp only: rd32_be32 list.size)
  have "length frame = 9 + length ct" by (simp add: frame)
  with fits(1) len have "length pt + pad < 2 ^ 32" by simp
  then have pl: "unat (of_nat (length ct) - of_nat pad :: u32) = length pt"
    by (simp add: len unat_of_nat)
  have "aes_cbc_decrypt D True key iv ct = Some (pt @ replicate pad 0, iv')"
    using d mod0 by (simp add: aes_cbc_decrypt_def len)
  moreover have "length frame \<ge> SAFETY_DATA_HDR_LEN" "ct \<noteq> []"
    using len pad_bounds by (auto simp: frame SAFETY_DATA_HDR_LEN_def)
  moreover have "list_all (\<lambda>b. b = 0) (drop (length pt) (pt @ replicate pad 0))"
    by (simp add: list_all_iff)
  moreover have "length ct mod AES_BLOCK_LEN = 0" by (simp add: len mod0)
  ultimately show ?thesis
    using crc pl fits(2) unat_pad hdr unfolding safety_decrypt_def Let_def
    by (simp add: not_less)
qed

subsection \<open>What the receiver does with the IV\<close>

lemma cbc_dec_last:
  "length iv = AES_BLOCK_LEN \<Longrightarrow> length ct mod AES_BLOCK_LEN = 0 \<Longrightarrow>
   snd (cbc_dec d iv ct) = drop (length (iv @ ct) - AES_BLOCK_LEN) (iv @ ct)"
proof (induction "length ct" arbitrary: iv ct rule: less_induct)
  case less
  show ?case
  proof (cases "length ct < AES_BLOCK_LEN")
    case True
    with less.prems have "ct = []" by (cases ct) (auto simp: AES_BLOCK_LEN_def)
    with less.prems show ?thesis by (simp add: cbc_dec.simps [of d iv] AES_BLOCK_LEN_def)
  next
    case False
    let ?c = "take AES_BLOCK_LEN ct" and ?q = "drop AES_BLOCK_LEN ct"
    have "snd (cbc_dec d ?c ?q) = drop (length (?c @ ?q) - AES_BLOCK_LEN) (?c @ ?q)"
      using False less.prems(2)
      by (intro less.hyps) (auto simp: AES_BLOCK_LEN_def mod_if [of "length ct"] not_less)
    with False less.prems(1) show ?thesis
      by (simp add: cbc_dec.simps [of d iv] Let_def case_prod_beta)
  qed
qed

lemma safety_decrypt_Some:
  assumes "safety_decrypt D setkey mem data key iv out_max = (Some pt, iv')"
  shows "SAFETY_DATA_HDR_LEN < length data" "rd32 data 5 = safety_integrity (drop SAFETY_DATA_HDR_LEN data)"
    "(length data - SAFETY_DATA_HDR_LEN) mod AES_BLOCK_LEN = 0" "length pt \<le> out_max"
    "setkey" "mem"
    "iv' = snd (cbc_dec (D key) iv (drop SAFETY_DATA_HDR_LEN data))"
  using assms
  by (auto simp: safety_decrypt_def Let_def aes_cbc_decrypt_def split: if_splits option.splits prod.splits)

lemma safety_decrypt_iv_cases:
  "safety_decrypt D setkey mem data key iv out_max = (r, iv') \<Longrightarrow>
   iv' = iv \<or> (SAFETY_DATA_HDR_LEN < length data
     \<and> (length data - SAFETY_DATA_HDR_LEN) mod AES_BLOCK_LEN = 0
     \<and> rd32 data 5 = safety_integrity (drop SAFETY_DATA_HDR_LEN data)
     \<and> iv' = snd (cbc_dec (D key) iv (drop SAFETY_DATA_HDR_LEN data)))"
  by (auto simp: safety_decrypt_def Let_def aes_cbc_decrypt_def split: if_splits option.splits prod.splits)

lemma cbc_dec_last_block:
  assumes "length iv = AES_BLOCK_LEN" "SAFETY_DATA_HDR_LEN < length data"
    "(length data - SAFETY_DATA_HDR_LEN) mod AES_BLOCK_LEN = 0"
  shows "snd (cbc_dec d iv (drop SAFETY_DATA_HDR_LEN data)) = drop (length data - AES_BLOCK_LEN) data"
proof -
  let ?ct = "drop SAFETY_DATA_HDR_LEN data"
  have "AES_BLOCK_LEN \<le> length ?ct"
    using assms(2,3) by (auto simp: AES_BLOCK_LEN_def dest: dvd_imp_le)
  moreover have "snd (cbc_dec d iv ?ct) = drop (length (iv @ ?ct) - AES_BLOCK_LEN) (iv @ ?ct)"
    using assms by (intro cbc_dec_last) auto
  ultimately show ?thesis
    using assms(1,2) by (simp add: AES_BLOCK_LEN_def SAFETY_DATA_HDR_LEN_def)
qed

lemma rd32_inj:
  assumes "i + 4 \<le> length p" "i + 4 \<le> length q" "rd32 p i = rd32 q i"
  shows "take 4 (drop i p) = take 4 (drop i q)"
proof -
  let ?a = "take 4 (drop i p)" and ?b = "take 4 (drop i q)"
  have len: "length ?a = 4" "length ?b = 4" using assms(1,2) by auto
  have "be_bytes (length ?a) (be_word ?a :: u32) = ?a" "be_bytes (length ?b) (be_word ?b :: u32) = ?b"
    by (rule be_bytes_be_word, simp only: len, simp)+
  moreover have "be_word ?a = (be_word ?b :: u32)"
    using assms(3) rd32_eq [OF assms(1)] rd32_eq [OF assms(2)] by simp
  ultimately show ?thesis using len by metis
qed

lemma rd32_update:
  assumes "i \<le> k" "k < i + 4" "i + 4 \<le> length p" "b \<noteq> p ! k"
  shows "rd32 (p[k := b]) i \<noteq> rd32 p i"
proof
  assume "rd32 (p[k := b]) i = rd32 p i"
  with assms have "take 4 (drop i (p[k := b])) = take 4 (drop i p)" by (intro rd32_inj) auto
  then have "take 4 (drop i (p[k := b])) ! (k - i) = take 4 (drop i p) ! (k - i)" by simp
  with assms show False by (simp add: nth_take)
qed

lemma rd32_update_after [simp]: "i + 4 \<le> k \<Longrightarrow> rd32 (p[k := b]) i = rd32 p i"
  by (simp add: rd32_def)

subsection \<open>A conversation\<close>

text \<open>One side sends its messages one after the other, the other decrypts them in order;
  each keeps the IV the previous message left (\<open>s_encrypt_iv\<close>, \<open>s_decrypt_iv\<close>).\<close>

fun send_seq :: "block_fun \<Rightarrow> byte list \<Rightarrow> nat \<Rightarrow> byte list \<Rightarrow> byte list list \<Rightarrow> (byte list list \<times> byte list) option" where
  "send_seq E key cap iv [] = Some ([], iv)"
| "send_seq E key cap iv (m # ms) =
     (case safety_encrypt E True True m key iv cap of
        None \<Rightarrow> None
      | Some (f, iv') \<Rightarrow> map_option (\<lambda>(fs, iv''). (f # fs, iv'')) (send_seq E key cap iv' ms))"

fun recv_seq :: "block_fun \<Rightarrow> byte list \<Rightarrow> nat \<Rightarrow> byte list \<Rightarrow> byte list list \<Rightarrow> byte list option list \<times> byte list" where
  "recv_seq D key cap iv [] = ([], iv)"
| "recv_seq D key cap iv (f # fs) =
     (let (r, iv') = safety_decrypt D True True f key iv cap; (rs, iv'') = recv_seq D key cap iv' fs
      in (r # rs, iv''))"

lemma safety_encrypt_bound:
  "safety_encrypt E setkey mem m key iv cap = Some (f, iv') \<Longrightarrow> cipher_ok E D key \<Longrightarrow>
   length iv = AES_BLOCK_LEN \<Longrightarrow> length f \<le> cap"
  by (frule (2) safety_encrypt_frame(1)) (auto elim: safety_encrypt_Some)

lemma safety_encrypt_defined:
  "(\<exists>f iv'. safety_encrypt E setkey mem m key iv cap = Some (f, iv')) \<longleftrightarrow>
     setkey \<and> mem \<and> SAFETY_DATA_HDR_LEN + AES_BLOCK_LEN * (length m div AES_BLOCK_LEN + 1) \<le> cap"
proof -
  have "n + (16 - n mod 16) = 16 * (n div 16 + 1)" for n :: nat by presburger
  then show ?thesis
    by (auto simp: safety_encrypt_def aes_cbc_encrypt_def AES_BLOCK_LEN_def Let_def split: prod.splits)
qed

lemma send_seq_defined:
  "list_all (\<lambda>m. SAFETY_DATA_HDR_LEN + AES_BLOCK_LEN * (length m div AES_BLOCK_LEN + 1) \<le> cap) ms \<Longrightarrow>
   \<exists>fs iv'. send_seq E key cap iv ms = Some (fs, iv')"
proof (induction ms arbitrary: iv)
  case (Cons m ms)
  then have "\<exists>f ivm. safety_encrypt E True True m key iv cap = Some (f, ivm)"
    by (simp add: safety_encrypt_defined)
  then obtain f ivm where f: "safety_encrypt E True True m key iv cap = Some (f, ivm)" by blast
  from Cons have "\<exists>fs iv'. send_seq E key cap ivm ms = Some (fs, iv')" by simp
  then obtain fs iv' where "send_seq E key cap ivm ms = Some (fs, iv')" by blast
  with f show ?case by simp
qed simp

lemma recv_send_seq:
  "cipher_ok E D key \<Longrightarrow> length iv = AES_BLOCK_LEN \<Longrightarrow> cap < 2 ^ 32 \<Longrightarrow>
   list_all (\<lambda>m. length m \<le> rcap) ms \<Longrightarrow> send_seq E key cap iv ms = Some (fs, iv') \<Longrightarrow>
   recv_seq D key rcap iv fs = (map Some ms, iv')"
proof (induction ms arbitrary: iv fs)
  case Nil
  then show ?case by simp
next
  case (Cons m ms)
  from Cons.prems(5) obtain f ivm gs where
    f: "safety_encrypt E True True m key iv cap = Some (f, ivm)"
    and gs: "send_seq E key cap ivm ms = Some (gs, iv')" and fs: "fs = f # gs"
    by (auto split: option.splits prod.splits)
  have "length f < 2 ^ 32"
    using safety_encrypt_bound [OF f Cons.prems(1,2)] Cons.prems(3) by simp
  then have "safety_decrypt D True True f key iv rcap = (Some m, ivm)"
    using safety_decrypt_encrypt [OF f Cons.prems(1,2)] Cons.prems(4) by simp
  moreover have "length ivm = AES_BLOCK_LEN" by (rule safety_encrypt_frame(3) [OF f Cons.prems(1,2)])
  ultimately show ?case using Cons.IH [OF Cons.prems(1) _ Cons.prems(3) _ gs] Cons.prems(4) fs by simp
qed

subsection \<open>Properties\<close>

text \<open>C4: An encrypted conversation is lossless. Whatever messages one side encrypts with
  \<open>safety_encrypt\<close> under its chained IV, the peer that starts from the same key and IV gets
  exactly these messages, in order, from \<open>safety_decrypt\<close>, and ends with the same IV, for
  every block cipher that is a permutation of blocks.\<close>

theorem safety_channel_lossless:
  assumes "cipher_ok E D key" and "length iv = AES_BLOCK_LEN" and "cap < 2 ^ 32"
    and "list_all (\<lambda>m. length m \<le> rcap) ms" and "send_seq E key cap iv ms = Some (fs, iv')"
  shows "recv_seq D key rcap iv fs = (map Some ms, iv')"
  by (rule recv_send_seq [OF assms])

text \<open>The concrete cipher of the witnesses: XOR with the key.\<close>

definition xor_cipher :: block_fun where
  "xor_cipher key b = xor_block b key"

lemma xor_cipher_ok: "length key = AES_BLOCK_LEN \<Longrightarrow> cipher_ok xor_cipher xor_cipher key"
  by (simp add: cipher_ok_def xor_cipher_def xor_block_cancel)

lemma sample_container:
  "\<exists>f iv'. length f = 25
     \<and> safety_decrypt xor_cipher True True f (replicate 16 7) (replicate 16 1) 10 = (Some [1, 2, 3], iv')"
proof -
  have "\<exists>f iv'. safety_encrypt xor_cipher True True [1, 2, 3] (replicate 16 7) (replicate 16 1) 64 = Some (f, iv')"
    by (simp add: safety_encrypt_defined safety_consts)
  then obtain f iv' where
    f: "safety_encrypt xor_cipher True True [1, 2, 3] (replicate 16 7) (replicate 16 1) 64 = Some (f, iv')" by blast
  have ok: "cipher_ok xor_cipher xor_cipher (replicate 16 7)" "length (replicate 16 (1 :: byte)) = AES_BLOCK_LEN"
    by (simp_all add: xor_cipher_ok AES_BLOCK_LEN_def)
  have len: "length f = 25" using safety_encrypt_frame(1) [OF f ok] by (simp add: safety_consts)
  have "safety_decrypt xor_cipher True True f (replicate 16 7) (replicate 16 1) 10 = (Some [1, 2, 3], iv')"
    by (rule safety_decrypt_encrypt [OF f ok]) (simp_all add: len)
  with len show ?thesis by blast
qed

lemma safety_channel_lossless_witness:
  "case send_seq xor_cipher (replicate 16 7) 64 (replicate 16 1) [[1, 2, 3], [], [9]] of
     None \<Rightarrow> False
   | Some (fs, iv') \<Rightarrow> recv_seq xor_cipher (replicate 16 7) 10 (replicate 16 1) fs
       = ([Some [1, 2, 3], Some [], Some [9]], iv')"
proof -
  have "\<exists>fs iv'. send_seq xor_cipher (replicate 16 7) 64 (replicate 16 1) [[1, 2, 3], [], [9]] = Some (fs, iv')"
    by (rule send_seq_defined) (simp add: safety_consts)
  then obtain fs iv' where
    s: "send_seq xor_cipher (replicate 16 7) 64 (replicate 16 1) [[1, 2, 3], [], [9]] = Some (fs, iv')" by blast
  have "recv_seq xor_cipher (replicate 16 7) 10 (replicate 16 1) fs = (map Some [[1, 2, 3], [], [9]], iv')"
    by (rule safety_channel_lossless [OF xor_cipher_ok _ _ _ s]) (simp_all add: AES_BLOCK_LEN_def)
  with s show ?thesis by simp
qed

text \<open>C35: Corruption is detected. If a container is accepted and one byte of its CRC field
  or of its ciphertext (any byte from offset 5 on) is changed, \<open>safety_decrypt\<close> refuses
  the changed container, and the receive IV stays as it was.\<close>

theorem safety_single_byte_corruption:
  assumes "safety_decrypt D setkey mem data key iv cap = (Some pt, iv')"
    and "5 \<le> k" "k < length data" and "b \<noteq> data ! k"
  shows "safety_decrypt D setkey mem (data[k := b]) key iv cap = (None, iv)"
proof -
  let ?ct = "drop SAFETY_DATA_HDR_LEN data" and ?ct' = "drop SAFETY_DATA_HDR_LEN (data[k := b])"
  note acc = safety_decrypt_Some [OF assms(1)]
  have crc: "safety_integrity ?ct' \<noteq> rd32 (data[k := b]) 5"
  proof (cases "k < 9")
    case True
    then have "?ct' = ?ct" by (simp add: drop_update_cancel SAFETY_DATA_HDR_LEN_def)
    moreover have "rd32 (data[k := b]) 5 \<noteq> rd32 data 5"
      using True assms(2,4) acc(1) by (intro rd32_update) (auto simp: SAFETY_DATA_HDR_LEN_def)
    ultimately show ?thesis using acc(2) by simp
  next
    case False
    define j where "j = k - SAFETY_DATA_HDR_LEN"
    have j: "j < length ?ct" "?ct ! j = data ! k" "?ct' = ?ct[j := b]"
      using False assms(3) by (auto simp: j_def SAFETY_DATA_HDR_LEN_def drop_update_swap)
    have ct: "?ct = take j ?ct @ ?ct ! j # drop (Suc j) ?ct" by (rule id_take_nth_drop [OF j(1)])
    have "?ct' = take j ?ct @ b # drop (Suc j) ?ct" by (simp only: j(3) upd_conv_take_nth_drop [OF j(1)])
    then have "safety_integrity ?ct' \<noteq> safety_integrity ?ct"
      using safety_integrity_single_byte assms(4) ct j(2) by metis
    with False acc(2) show ?thesis by simp
  qed
  then show ?thesis by (simp add: safety_decrypt_def Let_def)
qed

lemma safety_single_byte_corruption_witness:
  "\<exists>f iv'. safety_decrypt xor_cipher True True f (replicate 16 7) (replicate 16 1) 10 = (Some [1, 2, 3], iv')
     \<and> safety_decrypt xor_cipher True True (f[6 := f ! 6 + 1]) (replicate 16 7) (replicate 16 1) 10
       = (None, replicate 16 1)"
proof -
  obtain f iv' where len: "length f = 25"
    and "safety_decrypt xor_cipher True True f (replicate 16 7) (replicate 16 1) 10 = (Some [1, 2, 3], iv')"
    using sample_container by blast
  with safety_single_byte_corruption [OF this(2), of 6 "f ! 6 + 1"] show ?thesis by auto
qed

text \<open>C36: The integrity value is the CRC the comment names: \<open>safety_integrity\<close>, computed
  from the byte-swapped table one byte at a time, is the byte swap of CRC-32/MPEG-2 (most
  significant bit first, polynomial 04C11DB7, initial value FFFFFFFF, no final XOR).\<close>

theorem safety_integrity_is_mpeg2: "safety_integrity data = bswap32 (crc32_mpeg2 data)"
  by (rule safety_integrity_bswap)

text \<open>What \<open>safety_decrypt\<close> may write and how the two ends stay synchronised. The
  plaintext never exceeds the output buffer; after an accepted message the IV is the last
  ciphertext block, whatever it was before; a refused message leaves the IV alone or (when
  only the padding is wrong) moves it to that same block.\<close>

theorem safety_decrypt_bounds_iv:
  assumes "safety_decrypt D setkey mem data key iv cap = (r, iv')" and "length iv = AES_BLOCK_LEN"
  shows "case r of Some pt \<Rightarrow> length pt \<le> cap \<and> iv' = drop (length data - AES_BLOCK_LEN) data
           | None \<Rightarrow> iv' = iv \<or> iv' = drop (length data - AES_BLOCK_LEN) data"
proof (cases r)
  case None
  with safety_decrypt_iv_cases [OF assms(1)] cbc_dec_last_block [OF assms(2)] show ?thesis by auto
next
  case (Some pt)
  with assms(1) have "safety_decrypt D setkey mem data key iv cap = (Some pt, iv')" by simp
  note acc = safety_decrypt_Some [OF this]
  with Some cbc_dec_last_block [OF assms(2) acc(1,3)] show ?thesis by simp
qed

lemma safety_decrypt_bounds_iv_witness:
  "\<exists>f iv'. safety_decrypt xor_cipher True True f (replicate 16 7) (replicate 16 1) 10 = (Some [1, 2, 3], iv')
     \<and> iv' = drop 9 f"
proof -
  obtain f iv' where len: "length f = 25"
    and d: "safety_decrypt xor_cipher True True f (replicate 16 7) (replicate 16 1) 10 = (Some [1, 2, 3], iv')"
    using sample_container by blast
  from safety_decrypt_bounds_iv [OF d] len have "iv' = drop 9 f" by (simp add: AES_BLOCK_LEN_def)
  with d show ?thesis by blast
qed

end
