(* ===== verification/Session.thy ===== *)
theory Session
  imports Safety
begin

text \<open>
  The control sessions of the receiver (\<open>miplay.c\<close>: \<open>miplay_session_t\<close>,
  \<open>miplay_session_load\<close> to \<open>miplay_session_release\<close>, \<open>disconnect_cleanup\<close>). The phone
  opens several TCP connections; each has a slot with its own keys, IVs and control
  sequence number, and a frame copies its slot into the global working set before it is
  decoded and back afterwards. Every operation runs with \<open>s_session_mux\<close> (and, where it
  touches the IV, \<open>s_send_mux\<close>) held, so an operation is one atomic step here.

  A pointer into \<open>s_sessions\<close> is the index of its slot. A \<open>char\<close>/\<open>uint8_t\<close> array that
  is copied as a whole is a byte list. \<open>s_notify_seq\<close> is a C \<open>int\<close>, the field of the slot
  a \<open>uint32_t\<close>.
\<close>

definition MIPLAY_MAX_CONTROL_SESSIONS :: nat where "MIPLAY_MAX_CONTROL_SESSIONS = 3"

record session =
  ss_in_use :: bool
  ss_sock :: int
  ss_peer_ip :: u32
  ss_peer_port :: u16
  ss_aes_key :: "byte list"
  ss_encrypt_iv :: "byte list"
  ss_decrypt_iv :: "byte list"
  ss_auth_key :: "byte list"
  ss_auth_msg :: "byte list"
  ss_has_session_key :: bool
  ss_notify_seq :: u32
  ss_reverse_control_ready :: bool
  ss_play_source_registered :: bool
  ss_media_session_opened :: bool
  ss_media_info_notify_sent :: bool
  ss_task :: bool \<comment> \<open>the task handle is not NULL\<close>

definition zero_session :: session where
  \<comment> \<open>\<open>memset (slot, 0, sizeof *slot)\<close>\<close>
  "zero_session = \<lparr> ss_in_use = False, ss_sock = 0, ss_peer_ip = 0, ss_peer_port = 0,
     ss_aes_key = replicate 16 0, ss_encrypt_iv = replicate 16 0, ss_decrypt_iv = replicate 16 0,
     ss_auth_key = replicate 33 0, ss_auth_msg = replicate 33 0, ss_has_session_key = False,
     ss_notify_seq = 0, ss_reverse_control_ready = False, ss_play_source_registered = False,
     ss_media_session_opened = False, ss_media_info_notify_sent = False, ss_task = False \<rparr>"

text \<open>The global working set and the table.\<close>

record ctl =
  s_aes_key :: "byte list"
  s_encrypt_iv :: "byte list"
  s_decrypt_iv :: "byte list"
  s_auth_key :: "byte list"
  s_auth_msg :: "byte list"
  s_has_session_key :: bool
  s_notify_seq :: int
  s_reverse_control_ready :: bool
  s_play_source_registered :: bool
  s_media_session_opened :: bool
  s_sessions :: "session list"
  s_session_count :: nat
  s_active_client_sock :: int
  s_active_peer_ip :: u32
  s_media_generation :: u32
  s_connected :: bool
  s_media_paused :: bool

definition ctl_init :: ctl where
  \<comment> \<open>the static initialisers\<close>
  "ctl_init = \<lparr> s_aes_key = replicate 16 0, s_encrypt_iv = replicate 16 0, s_decrypt_iv = replicate 16 0,
     s_auth_key = replicate 33 0, s_auth_msg = replicate 33 0, s_has_session_key = False, s_notify_seq = 8,
     s_reverse_control_ready = False, s_play_source_registered = False, s_media_session_opened = False,
     s_sessions = replicate MIPLAY_MAX_CONTROL_SESSIONS zero_session, s_session_count = 0,
     s_active_client_sock = -1, s_active_peer_ip = 0, s_media_generation = 0, s_connected = False,
     s_media_paused = False \<rparr>"

subsection \<open>Load and save\<close>

definition load_fields :: "session \<Rightarrow> ctl \<Rightarrow> ctl" where
  "load_fields s c = c \<lparr> s_aes_key := ss_aes_key s, s_encrypt_iv := ss_encrypt_iv s,
     s_decrypt_iv := ss_decrypt_iv s, s_auth_key := ss_auth_key s, s_auth_msg := ss_auth_msg s,
     s_has_session_key := ss_has_session_key s, s_notify_seq := sint (ss_notify_seq s),
     s_reverse_control_ready := ss_reverse_control_ready s,
     s_play_source_registered := ss_play_source_registered s,
     s_media_session_opened := ss_media_session_opened s \<rparr>"

definition save_fields :: "ctl \<Rightarrow> session \<Rightarrow> session" where
  "save_fields c s = s \<lparr> ss_aes_key := s_aes_key c, ss_encrypt_iv := s_encrypt_iv c,
     ss_decrypt_iv := s_decrypt_iv c, ss_auth_key := s_auth_key c, ss_auth_msg := s_auth_msg c,
     ss_has_session_key := s_has_session_key c,
     ss_notify_seq := (if s_notify_seq c < 8 then 8 else word_of_int (s_notify_seq c)),
     ss_reverse_control_ready := s_reverse_control_ready c,
     ss_play_source_registered := s_play_source_registered c,
     ss_media_session_opened := s_media_session_opened c \<rparr>"

definition miplay_session_load :: "nat option \<Rightarrow> ctl \<Rightarrow> ctl" where
  "miplay_session_load p c = (case p of None \<Rightarrow> c | Some i \<Rightarrow> load_fields (s_sessions c ! i) c)"

definition miplay_session_save :: "nat option \<Rightarrow> ctl \<Rightarrow> ctl" where
  "miplay_session_save p c = (case p of None \<Rightarrow> c
     | Some i \<Rightarrow> c \<lparr> s_sessions := (s_sessions c)[i := save_fields c (s_sessions c ! i)] \<rparr>)"

subsection \<open>The table\<close>

fun find_slot :: "(session \<Rightarrow> bool) \<Rightarrow> session list \<Rightarrow> nat option" where
  "find_slot P [] = None"
| "find_slot P (s # ss) = (if P s then Some 0 else map_option Suc (find_slot P ss))"

definition miplay_session_find_locked :: "int \<Rightarrow> ctl \<Rightarrow> nat option" where
  "miplay_session_find_locked fd c = find_slot (\<lambda>s. ss_in_use s \<and> ss_sock s = fd) (s_sessions c)"

definition miplay_session_alloc :: "int \<Rightarrow> u32 \<Rightarrow> u16 \<Rightarrow> ctl \<Rightarrow> nat option \<times> ctl" where
  "miplay_session_alloc fd ip port c =
     (case find_slot (\<lambda>s. \<not> ss_in_use s) (s_sessions c) of
        None \<Rightarrow> (None, c)
      | Some i \<Rightarrow>
          (Some i, c \<lparr> s_sessions := (s_sessions c)[i := zero_session \<lparr> ss_in_use := True, ss_sock := fd,
                         ss_peer_ip := ip, ss_peer_port := port, ss_notify_seq := 8 \<rparr>],
                       s_session_count := s_session_count c + 1 \<rparr>))"

definition miplay_session_release :: "nat option \<Rightarrow> ctl \<Rightarrow> ctl" where
  "miplay_session_release p c = (case p of None \<Rightarrow> c
     | Some i \<Rightarrow>
         if ss_in_use (s_sessions c ! i)
         then c \<lparr> s_sessions := (s_sessions c)[i := (s_sessions c ! i) \<lparr> ss_in_use := False, ss_task := False \<rparr>],
                  s_session_count := (if 0 < s_session_count c then s_session_count c - 1 else 0) \<rparr>
         else c)"

subsection \<open>Which session the receiver controls\<close>

fun preferred_peer :: "int \<Rightarrow> u32 \<Rightarrow> session list \<Rightarrow> u32" where
  \<comment> \<open>the first loop of \<open>miplay_session_active_locked\<close>\<close>
  "preferred_peer acs ip [] = ip"
| "preferred_peer acs ip (s # ss) =
     (if \<not> ss_in_use s \<or> \<not> ss_has_session_key s \<or> \<not> ss_media_session_opened s then preferred_peer acs ip ss
      else if ss_sock s = acs then ss_peer_ip s
      else preferred_peer acs (ss_peer_ip s) ss)"

definition route_score :: "int \<Rightarrow> session \<Rightarrow> int" where
  "route_score acs s = (if ss_reverse_control_ready s then 4 else 0)
     + (if ss_play_source_registered s then 2 else 0)
     + (if ss_media_session_opened s then 1 else 0) + (if ss_sock s = acs then 1 else 0)"

fun best_route :: "int \<Rightarrow> u32 \<Rightarrow> nat \<Rightarrow> nat option \<times> int \<Rightarrow> session list \<Rightarrow> nat option" where
  \<comment> \<open>the second loop, from index \<open>i\<close> on with the best candidate so far\<close>
  "best_route acs ip i (best, best_score) [] = best"
| "best_route acs ip i (best, best_score) (s # ss) =
     (if \<not> ss_in_use s \<or> \<not> ss_has_session_key s then best_route acs ip (i + 1) (best, best_score) ss
      else if ip \<noteq> 0 \<and> ss_peer_ip s \<noteq> ip then best_route acs ip (i + 1) (best, best_score) ss
      else if best_score < route_score acs s then best_route acs ip (i + 1) (Some i, route_score acs s) ss
      else best_route acs ip (i + 1) (best, best_score) ss)"

definition active_peer :: "ctl \<Rightarrow> u32" where
  "active_peer c =
     (let active = miplay_session_find_locked (s_active_client_sock c) c;
          ip = preferred_peer (s_active_client_sock c) 0 (s_sessions c)
      in case active of
           Some a \<Rightarrow> if ip = 0 \<and> ss_has_session_key (s_sessions c ! a) then ss_peer_ip (s_sessions c ! a) else ip
         | None \<Rightarrow> ip)"

definition miplay_session_active_locked :: "ctl \<Rightarrow> nat option" where
  "miplay_session_active_locked c =
     best_route (s_active_client_sock c) (active_peer c) 0 (None, -1) (s_sessions c)"

definition miplay_mark_media_session_closed :: "int \<Rightarrow> u32 \<Rightarrow> ctl \<Rightarrow> ctl" where
  "miplay_mark_media_session_closed client_sock generation c =
     (if s_media_generation c \<noteq> generation then c
      else
        let c1 = (case miplay_session_find_locked client_sock c of
                    None \<Rightarrow> c
                  | Some i \<Rightarrow> c \<lparr> s_sessions :=
                      (s_sessions c)[i := (s_sessions c ! i) \<lparr> ss_media_session_opened := False \<rparr>] \<rparr>)
        in if s_active_client_sock c1 = client_sock then c1 \<lparr> s_media_session_opened := False \<rparr> else c1)"

definition wipe_session :: "nat \<Rightarrow> ctl \<Rightarrow> ctl" where
  \<comment> \<open>\<open>disconnect_cleanup\<close> up to \<open>miplay_session_save\<close>\<close>
  "wipe_session i c =
     (let client_sock = ss_sock (s_sessions c ! i);
          c1 = miplay_session_load (Some i) c;
          c2 = (if s_active_client_sock c1 = client_sock
                then c1 \<lparr> s_active_client_sock := -1, s_active_peer_ip := 0 \<rparr> else c1);
          c3 = c2 \<lparr> s_has_session_key := False, s_reverse_control_ready := False,
                    s_play_source_registered := False, s_media_session_opened := False, s_notify_seq := 8,
                    s_aes_key := replicate 16 0, s_encrypt_iv := replicate 16 0, s_decrypt_iv := replicate 16 0,
                    s_auth_key := replicate 33 0, s_auth_msg := replicate 33 0 \<rparr>
      in miplay_session_save (Some i) c3)"

definition disconnect_cleanup :: "nat \<Rightarrow> ctl \<Rightarrow> ctl \<times> bool" where
  \<comment> \<open>the new state, and whether the connection callback is told the phone is gone\<close>
  "disconnect_cleanup i c =
     (let c4 = wipe_session i c
      in case miplay_session_active_locked c4 of
           Some r \<Rightarrow> (miplay_session_load (Some r)
                        (c4 \<lparr> s_active_client_sock := ss_sock (s_sessions c4 ! r),
                              s_active_peer_ip := ss_peer_ip (s_sessions c4 ! r) \<rparr>), False)
         | None \<Rightarrow> (c4 \<lparr> s_connected := False, s_media_paused := True \<rparr>, True))"

definition miplay_next_notify_seq_locked :: "ctl \<Rightarrow> u16 \<times> ctl" where
  "miplay_next_notify_seq_locked c =
     (let q = s_notify_seq c; n = (if q < 8 \<or> 65535 < q then 8 else q)
      in (word_of_int n, c \<lparr> s_notify_seq := (if n = 65535 then 8 else n + 1) \<rparr>))"

subsection \<open>Lookup\<close>

lemma find_slot_Some:
  "find_slot P ss = Some i \<Longrightarrow> i < length ss \<and> P (ss ! i) \<and> (\<forall>j<i. \<not> P (ss ! j))"
proof (induction ss arbitrary: i)
  case (Cons s ss)
  then show ?case by (auto simp: less_Suc_eq_0_disj split: if_splits)
qed simp

lemma find_slot_None: "find_slot P ss = None \<longleftrightarrow> (\<forall>s\<in>set ss. \<not> P s)"
  by (induction ss) auto

lemma find_slot_eq:
  "i < length ss \<Longrightarrow> P (ss ! i) \<Longrightarrow> (\<And>j. j < i \<Longrightarrow> \<not> P (ss ! j)) \<Longrightarrow> find_slot P ss = Some i"
proof (induction ss arbitrary: i)
  case (Cons s ss)
  show ?case
  proof (cases i)
    case 0
    with Cons.prems show ?thesis by simp
  next
    case (Suc k)
    with Cons.prems(3) [of 0] have "\<not> P s" by simp
    moreover have "find_slot P ss = Some k"
    proof (rule Cons.IH)
      show "k < length ss" "P (ss ! k)" using Cons.prems Suc by auto
      show "\<not> P (ss ! j)" if "j < k" for j using Cons.prems(3) [of "Suc j"] Suc that by simp
    qed
    ultimately show ?thesis by (simp add: Suc)
  qed
qed simp

lemma find_slot_cong: "(\<And>s. s \<in> set ss \<Longrightarrow> P s = Q s) \<Longrightarrow> find_slot P ss = find_slot Q ss"
  by (induction ss) auto

lemma find_slot_map: "find_slot P (map f ss) = find_slot (P \<circ> f) ss"
  by (induction ss) auto

lemma find_slot_update:
  "i < length ss \<Longrightarrow> (P s \<longleftrightarrow> P (ss ! i)) \<Longrightarrow> find_slot P (ss[i := s]) = find_slot P ss"
proof (induction ss arbitrary: i)
  case (Cons t ss)
  then show ?case by (cases i) auto
qed simp

subsection \<open>The invariant of the table\<close>

definition owns :: "int \<Rightarrow> session \<Rightarrow> bool" where
  "owns fd s \<longleftrightarrow> ss_in_use s \<and> ss_sock s = fd"

definition table_ok :: "ctl \<Rightarrow> bool" where
  "table_ok c \<longleftrightarrow> length (s_sessions c) = MIPLAY_MAX_CONTROL_SESSIONS
     \<and> s_session_count c = length (filter ss_in_use (s_sessions c))
     \<and> distinct (map ss_sock (filter ss_in_use (s_sessions c)))"

lemma find_locked_eq: "miplay_session_find_locked fd c = find_slot (owns fd) (s_sessions c)"
  by (auto simp: miplay_session_find_locked_def owns_def intro: find_slot_cong)

lemma filter_update:
  "i < length xs \<Longrightarrow> filter P (xs[i := x])
     = filter P (take i xs) @ (if P x then [x] else []) @ filter P (drop (Suc i) xs)"
  by (simp add: upd_conv_take_nth_drop)

lemma filter_at:
  "i < length xs \<Longrightarrow> filter P xs
     = filter P (take i xs) @ (if P (xs ! i) then [xs ! i] else []) @ filter P (drop (Suc i) xs)"
  using filter_update [of i xs P "xs ! i"] by simp

text \<open>Two tables that differ only in fields other than \<open>in_use\<close> and \<open>sock\<close>.\<close>

definition same_slots :: "session list \<Rightarrow> session list \<Rightarrow> bool" where
  "same_slots ss ts \<longleftrightarrow> map (\<lambda>s. (ss_in_use s, ss_sock s)) ss = map (\<lambda>s. (ss_in_use s, ss_sock s)) ts"

lemma same_slots_refl [simp]: "same_slots ss ss"
  by (simp add: same_slots_def)

lemma same_slots_trans: "same_slots ss ts \<Longrightarrow> same_slots ts us \<Longrightarrow> same_slots ss us"
  by (simp add: same_slots_def)

lemma same_slots_update:
  "i < length ss \<Longrightarrow> ss_in_use t = ss_in_use (ss ! i) \<Longrightarrow> ss_sock t = ss_sock (ss ! i) \<Longrightarrow>
   same_slots (ss[i := t]) ss"
proof -
  assume i: "i < length ss" and "ss_in_use t = ss_in_use (ss ! i)" "ss_sock t = ss_sock (ss ! i)"
  then have "(ss_in_use t, ss_sock t) = map (\<lambda>s. (ss_in_use s, ss_sock s)) ss ! i" by simp
  then show ?thesis unfolding same_slots_def map_update by (metis list_update_id)
qed

lemma same_slots_length: "same_slots ss ts \<Longrightarrow> length ss = length ts"
  unfolding same_slots_def by (metis length_map)

lemma same_slots_owns: "same_slots ss ts \<Longrightarrow> find_slot (owns fd) ss = find_slot (owns fd) ts"
proof (induction ss arbitrary: ts)
  case Nil
  then show ?case by (simp add: same_slots_def)
next
  case (Cons s ss)
  then obtain t ts' where ts: "ts = t # ts'" and "same_slots ss ts'"
    and "ss_in_use s = ss_in_use t" "ss_sock s = ss_sock t"
    by (auto simp: same_slots_def)
  with Cons.IH show ?case by (simp add: owns_def)
qed

lemma same_slots_used:
  "same_slots ss ts \<Longrightarrow> map ss_sock (filter ss_in_use ss) = map ss_sock (filter ss_in_use ts)"
proof (induction ss arbitrary: ts)
  case Nil
  then show ?case by (simp add: same_slots_def)
next
  case (Cons s ss)
  then obtain t ts' where ts: "ts = t # ts'" and "same_slots ss ts'"
    and "ss_in_use s = ss_in_use t" "ss_sock s = ss_sock t"
    by (auto simp: same_slots_def)
  with Cons.IH show ?case by simp
qed

lemma table_ok_same:
  "table_ok c \<Longrightarrow> same_slots (s_sessions d) (s_sessions c) \<Longrightarrow> s_session_count d = s_session_count c \<Longrightarrow> table_ok d"
  using same_slots_used [of "s_sessions d" "s_sessions c"] same_slots_length [of "s_sessions d" "s_sessions c"]
  unfolding table_ok_def by (metis length_map)

subsection \<open>The interface of a connection table\<close>

text \<open>What the accept loop and the client tasks need of a table of bounded size: a key is
  found after it was given a slot, and until its slot is released; other keys are not
  affected; a key is refused only when all slots are taken.\<close>

definition live_keys :: "('k \<Rightarrow> 't \<Rightarrow> nat option) \<Rightarrow> 't \<Rightarrow> 'k set" where
  "live_keys lookup t = {k. lookup k t \<noteq> None}"

lemma live_keys_update:
  assumes "\<forall>j. j \<noteq> k \<longrightarrow> lookup j t' = lookup j t"
  shows "live_keys lookup t' = (if lookup k t' = None then live_keys lookup t - {k} else insert k (live_keys lookup t))"
proof (rule set_eqI)
  fix j
  show "j \<in> live_keys lookup t' \<longleftrightarrow>
    j \<in> (if lookup k t' = None then live_keys lookup t - {k} else insert k (live_keys lookup t))"
    using assms by (cases "j = k") (auto simp: live_keys_def)
qed

datatype ('k, 'a) conn_event = Accepted 'k 'a | Ended 'k

fun spec_serve :: "nat \<Rightarrow> 'k set \<Rightarrow> ('k, 'a) conn_event list \<Rightarrow> 'k set" where
  "spec_serve cap K [] = K"
| "spec_serve cap K (Accepted k a # es) = spec_serve cap (if card K < cap then insert k K else K) es"
| "spec_serve cap K (Ended k # es) = spec_serve cap (K - {k}) es"

fun fresh_conns :: "nat \<Rightarrow> 'k set \<Rightarrow> ('k, 'a) conn_event list \<Rightarrow> bool" where
  \<comment> \<open>\<open>accept\<close> never returns a descriptor that is still open\<close>
  "fresh_conns cap K [] = True"
| "fresh_conns cap K (Accepted k a # es) \<longleftrightarrow>
     k \<notin> K \<and> fresh_conns cap (if card K < cap then insert k K else K) es"
| "fresh_conns cap K (Ended k # es) = fresh_conns cap (K - {k}) es"

fun serve_with :: "('k \<Rightarrow> 'a \<Rightarrow> 't \<Rightarrow> nat option \<times> 't) \<Rightarrow> ('k \<Rightarrow> 't \<Rightarrow> nat option) \<Rightarrow> (nat \<Rightarrow> 't \<Rightarrow> 't)
    \<Rightarrow> 't \<Rightarrow> ('k, 'a) conn_event list \<Rightarrow> 't" where
  "serve_with alloc lookup close t [] = t"
| "serve_with alloc lookup close t (Accepted k a # es) = serve_with alloc lookup close (snd (alloc k a t)) es"
| "serve_with alloc lookup close t (Ended k # es) =
     serve_with alloc lookup close (case lookup k t of None \<Rightarrow> t | Some i \<Rightarrow> close i t) es"

locale session_table =
  fixes inv :: "'t \<Rightarrow> bool" and cap :: nat
    and alloc :: "'k \<Rightarrow> 'a \<Rightarrow> 't \<Rightarrow> nat option \<times> 't"
    and lookup :: "'k \<Rightarrow> 't \<Rightarrow> nat option"
    and close :: "nat \<Rightarrow> 't \<Rightarrow> 't"
  assumes alloc_inv: "inv t \<Longrightarrow> lookup k t = None \<Longrightarrow> inv (snd (alloc k a t))"
    and alloc_free: "inv t \<Longrightarrow> lookup k t = None \<Longrightarrow> card (live_keys lookup t) < cap \<Longrightarrow>
      \<exists>i t'. alloc k a t = (Some i, t') \<and> lookup k t' = Some i \<and> (\<forall>j. j \<noteq> k \<longrightarrow> lookup j t' = lookup j t)"
    and alloc_full: "inv t \<Longrightarrow> \<not> card (live_keys lookup t) < cap \<Longrightarrow> alloc k a t = (None, t)"
    and close_inv: "inv t \<Longrightarrow> lookup k t = Some i \<Longrightarrow> inv (close i t)"
    and close_same: "inv t \<Longrightarrow> lookup k t = Some i \<Longrightarrow> lookup k (close i t) = None"
    and close_other: "inv t \<Longrightarrow> lookup k t = Some i \<Longrightarrow> j \<noteq> k \<Longrightarrow> lookup j (close i t) = lookup j t"
begin

lemma live_alloc:
  assumes "inv t" "lookup k t = None"
  shows "live_keys lookup (snd (alloc k a t))
     = (if card (live_keys lookup t) < cap then insert k (live_keys lookup t) else live_keys lookup t)"
proof (cases "card (live_keys lookup t) < cap")
  case True
  with alloc_free [OF assms, of a] obtain i t' where "alloc k a t = (Some i, t')"
    "lookup k t' = Some i" "\<forall>j. j \<noteq> k \<longrightarrow> lookup j t' = lookup j t" by blast
  with True show ?thesis by (simp add: live_keys_update)
next
  case False
  with alloc_full [OF assms(1) False, of k a] show ?thesis by simp
qed

lemma live_close:
  "inv t \<Longrightarrow> lookup k t = Some i \<Longrightarrow> live_keys lookup (close i t) = live_keys lookup t - {k}"
  by (subst live_keys_update [of k lookup "close i t" t]) (auto simp: close_same close_other)

lemma serve_refines:
  "inv t \<Longrightarrow> fresh_conns cap (live_keys lookup t) es \<Longrightarrow>
   inv (serve_with alloc lookup close t es)
   \<and> live_keys lookup (serve_with alloc lookup close t es) = spec_serve cap (live_keys lookup t) es"
proof (induction es arbitrary: t)
  case Nil
  then show ?case by simp
next
  case (Cons e es)
  show ?case
  proof (cases e)
    case (Accepted k a)
    with Cons.prems have k: "lookup k t = None" by (simp add: live_keys_def)
    note inv' = alloc_inv [OF Cons.prems(1) k] and live = live_alloc [OF Cons.prems(1) k]
    have "fresh_conns cap (live_keys lookup (snd (alloc k a t))) es"
      using Cons.prems(2) by (simp add: Accepted live)
    from Cons.IH [OF inv' this] show ?thesis by (simp add: Accepted live)
  next
    case (Ended k)
    show ?thesis
    proof (cases "lookup k t")
      case None
      then have "live_keys lookup t - {k} = live_keys lookup t" by (auto simp: live_keys_def)
      with Cons.IH [OF Cons.prems(1)] Cons.prems(2) None show ?thesis by (simp add: Ended)
    next
      case (Some i)
      note inv' = close_inv [OF Cons.prems(1) Some] and live = live_close [OF Cons.prems(1) Some]
      have "fresh_conns cap (live_keys lookup (close i t)) es"
        using Cons.prems(2) by (simp add: Ended live)
      from Cons.IH [OF inv' this] show ?thesis by (simp add: Ended Some live)
    qed
  qed
qed

lemma spec_bound: "finite K \<Longrightarrow> card K \<le> cap \<Longrightarrow>
    finite (spec_serve cap K es) \<and> card (spec_serve cap K es) \<le> cap"
proof (induction es arbitrary: K)
  case (Cons e es)
  show ?case
  proof (cases e)
    case (Accepted k a)
    with Cons show ?thesis by (simp add: card_insert_if)
  next
    case (Ended k)
    have "card (K - {k}) \<le> cap" using Cons.prems by (meson card_Diff1_le order_trans)
    with Cons Ended show ?thesis by simp
  qed
qed simp

end

subsection \<open>The table of the receiver\<close>

definition alloc_conn :: "int \<Rightarrow> u32 \<times> u16 \<Rightarrow> ctl \<Rightarrow> nat option \<times> ctl" where
  \<comment> \<open>the accept loop\<close>
  "alloc_conn fd addr c = miplay_session_alloc fd (fst addr) (snd addr) c"

definition close_conn :: "nat \<Rightarrow> ctl \<Rightarrow> ctl" where
  \<comment> \<open>the end of a client task\<close>
  "close_conn i c = miplay_session_release (Some i) (fst (disconnect_cleanup i c))"

lemma live_sessions:
  "live_keys miplay_session_find_locked c = set (map ss_sock (filter ss_in_use (s_sessions c)))"
proof (rule set_eqI)
  fix fd
  have "fd \<in> live_keys miplay_session_find_locked c \<longleftrightarrow> (\<exists>s\<in>set (s_sessions c). owns fd s)"
    by (simp only: live_keys_def find_locked_eq mem_Collect_eq find_slot_None) blast
  then show "fd \<in> live_keys miplay_session_find_locked c \<longleftrightarrow> fd \<in> set (map ss_sock (filter ss_in_use (s_sessions c)))"
    by (auto simp: owns_def)
qed

lemma card_live: "table_ok c \<Longrightarrow> card (live_keys miplay_session_find_locked c) = s_session_count c"
  unfolding live_sessions by (simp add: table_ok_def distinct_card del: set_map)

lemma no_free_slot:
  assumes "table_ok c"
  shows "find_slot (\<lambda>s. \<not> ss_in_use s) (s_sessions c) = None \<longleftrightarrow> \<not> s_session_count c < MIPLAY_MAX_CONTROL_SESSIONS"
proof -
  have "length (filter ss_in_use ss) < length ss \<longleftrightarrow> (\<exists>s\<in>set ss. \<not> ss_in_use s)" for ss
    by (induction ss) (auto simp: less_Suc_eq_le)
  from this [of "s_sessions c"] assms show ?thesis
    by (simp only: find_slot_None table_ok_def) blast
qed

lemma alloc_table_ok:
  assumes "table_ok c" "miplay_session_find_locked fd c = None"
  shows "table_ok (snd (miplay_session_alloc fd ip port c))"
proof (cases "find_slot (\<lambda>s. \<not> ss_in_use s) (s_sessions c)")
  case None
  with assms show ?thesis by (simp add: miplay_session_alloc_def)
next
  case (Some i)
  note i = find_slot_Some [OF Some]
  have "fd \<notin> set (map ss_sock (filter ss_in_use (s_sessions c)))"
    using assms(2) unfolding live_sessions [symmetric] live_keys_def by simp
  with assms(1) i filter_at [of i "s_sessions c" ss_in_use] show ?thesis
    by (auto simp: miplay_session_alloc_def Some table_ok_def filter_update)
qed

lemma alloc_free_slot:
  assumes "table_ok c" "miplay_session_find_locked fd c = None" "s_session_count c < MIPLAY_MAX_CONTROL_SESSIONS"
  shows "\<exists>i c'. miplay_session_alloc fd ip port c = (Some i, c') \<and> miplay_session_find_locked fd c' = Some i
    \<and> (\<forall>k. k \<noteq> fd \<longrightarrow> miplay_session_find_locked k c' = miplay_session_find_locked k c)"
proof -
  from assms(1,3) obtain i where Some: "find_slot (\<lambda>s. \<not> ss_in_use s) (s_sessions c) = Some i"
    using no_free_slot by fastforce
  note i = find_slot_Some [OF this]
  have none: "\<not> owns fd s" if "s \<in> set (s_sessions c)" for s
    using assms(2) that by (auto simp: find_locked_eq find_slot_None)
  let ?new = "zero_session \<lparr> ss_in_use := True, ss_sock := fd, ss_peer_ip := ip, ss_peer_port := port, ss_notify_seq := 8 \<rparr>"
  have "find_slot (owns fd) ((s_sessions c)[i := ?new]) = Some i"
    using i none by (intro find_slot_eq) (auto simp: owns_def nth_list_update)
  moreover have "find_slot (owns k) ((s_sessions c)[i := ?new]) = find_slot (owns k) (s_sessions c)" if "k \<noteq> fd" for k
    using i that by (intro find_slot_update) (auto simp: owns_def)
  ultimately show ?thesis by (simp add: miplay_session_alloc_def Some find_locked_eq)
qed

lemma load_table [simp]:
  "s_sessions (miplay_session_load p c) = s_sessions c"
  "s_session_count (miplay_session_load p c) = s_session_count c"
  "s_active_client_sock (miplay_session_load p c) = s_active_client_sock c"
  "s_active_peer_ip (miplay_session_load p c) = s_active_peer_ip c"
  "s_connected (miplay_session_load p c) = s_connected c"
  by (simp_all add: miplay_session_load_def load_fields_def split: option.splits)

lemma save_slot [simp]:
  "ss_in_use (save_fields c s) = ss_in_use s" "ss_sock (save_fields c s) = ss_sock s"
  "ss_peer_ip (save_fields c s) = ss_peer_ip s"
  by (simp_all add: save_fields_def)

lemma save_table [simp]:
  "s_session_count (miplay_session_save p c) = s_session_count c"
  "s_active_client_sock (miplay_session_save p c) = s_active_client_sock c"
  by (simp_all add: miplay_session_save_def split: option.splits)

lemma wipe_sessions:
  "s_sessions (wipe_session i c) = (s_sessions c)[i := (s_sessions c ! i) \<lparr> ss_aes_key := replicate 16 0,
     ss_encrypt_iv := replicate 16 0, ss_decrypt_iv := replicate 16 0, ss_auth_key := replicate 33 0,
     ss_auth_msg := replicate 33 0, ss_has_session_key := False, ss_notify_seq := 8,
     ss_reverse_control_ready := False, ss_play_source_registered := False, ss_media_session_opened := False \<rparr>]"
  "s_session_count (wipe_session i c) = s_session_count c"
  by (simp_all add: wipe_session_def miplay_session_save_def save_fields_def Let_def)

lemma cleanup_count [simp]: "s_session_count (fst (disconnect_cleanup i c)) = s_session_count c"
  by (simp add: disconnect_cleanup_def wipe_sessions Let_def split: option.splits)

lemma cleanup_slots: "i < length (s_sessions c) \<Longrightarrow> same_slots (s_sessions (fst (disconnect_cleanup i c))) (s_sessions c)"
  by (simp add: disconnect_cleanup_def Let_def wipe_sessions same_slots_update split: option.splits)

lemma release_table_ok:
  assumes "table_ok c" "i < length (s_sessions c)"
  shows "table_ok (miplay_session_release (Some i) c)"
proof (cases "ss_in_use (s_sessions c ! i)")
  case True
  with assms filter_at [of i "s_sessions c" ss_in_use] show ?thesis
    by (auto simp: miplay_session_release_def table_ok_def filter_update)
qed (use assms in \<open>simp add: miplay_session_release_def\<close>)

lemma find_release:
  assumes "table_ok c" "miplay_session_find_locked fd c = Some i"
  shows "miplay_session_find_locked fd (miplay_session_release (Some i) c) = None"
    and "k \<noteq> fd \<Longrightarrow> miplay_session_find_locked k (miplay_session_release (Some i) c) = miplay_session_find_locked k c"
proof -
  from assms(2) have i: "i < length (s_sessions c)" "owns fd (s_sessions c ! i)"
    by (auto simp: find_locked_eq dest: find_slot_Some)
  have "fd \<notin> live_keys miplay_session_find_locked (miplay_session_release (Some i) c)"
    using i assms(1) filter_at [of i "s_sessions c" ss_in_use]
    by (auto simp: live_sessions miplay_session_release_def owns_def table_ok_def filter_update)
  then show "miplay_session_find_locked fd (miplay_session_release (Some i) c) = None"
    by (simp add: live_keys_def)
  show "miplay_session_find_locked k (miplay_session_release (Some i) c) = miplay_session_find_locked k c" if "k \<noteq> fd"
    using i that
    by (auto simp: find_locked_eq miplay_session_release_def owns_def intro!: find_slot_update)
qed

lemma cleanup_find [simp]:
  "i < length (s_sessions c) \<Longrightarrow>
   miplay_session_find_locked k (fst (disconnect_cleanup i c)) = miplay_session_find_locked k c"
  using cleanup_slots [of i c] by (simp add: find_locked_eq same_slots_owns)

lemma cleanup_table_ok:
  "table_ok c \<Longrightarrow> i < length (s_sessions c) \<Longrightarrow> table_ok (fst (disconnect_cleanup i c))"
  using cleanup_slots [of i c] by (simp add: table_ok_same)

lemma find_length: "miplay_session_find_locked k c = Some i \<Longrightarrow> i < length (s_sessions c)"
  by (auto simp: find_locked_eq dest: find_slot_Some)

interpretation sessions: session_table table_ok MIPLAY_MAX_CONTROL_SESSIONS
  alloc_conn miplay_session_find_locked close_conn
proof (unfold_locales, goal_cases)
  case (1 t k a)
  then show ?case unfolding alloc_conn_def by (rule alloc_table_ok)
next
  case (2 t k a)
  then show ?case unfolding alloc_conn_def by (intro alloc_free_slot) (simp_all add: card_live)
next
  case (3 t k a)
  then have "find_slot (\<lambda>s. \<not> ss_in_use s) (s_sessions t) = None" by (simp add: card_live no_free_slot)
  then show ?case by (simp add: alloc_conn_def miplay_session_alloc_def)
next
  case (4 t k i)
  then show ?case unfolding close_conn_def
    by (intro release_table_ok cleanup_table_ok) (auto dest: find_length simp: same_slots_length [OF cleanup_slots])
next
  case (5 t k i)
  with find_length [OF this(2)] show ?case unfolding close_conn_def
    by (intro find_release(1) cleanup_table_ok) auto
next
  case (6 t k i j)
  with find_length [OF this(2)] show ?case unfolding close_conn_def
    by (subst find_release(2) [of _ k]) (auto intro: cleanup_table_ok)
qed

subsection \<open>Routing\<close>

definition routable :: "u32 \<Rightarrow> session \<Rightarrow> bool" where
  "routable ip s \<longleftrightarrow> ss_in_use s \<and> ss_has_session_key s \<and> (ip = 0 \<or> ss_peer_ip s = ip)"

definition best_of :: "int \<Rightarrow> u32 \<Rightarrow> int \<Rightarrow> session list \<Rightarrow> nat option \<Rightarrow> bool" where
  \<comment> \<open>the first routable session of maximal score among those scoring more than \<open>b\<close>\<close>
  "best_of acs ip b ss r \<longleftrightarrow> (case r of
     None \<Rightarrow> (\<forall>s\<in>set ss. routable ip s \<longrightarrow> route_score acs s \<le> b)
   | Some j \<Rightarrow> j < length ss \<and> routable ip (ss ! j) \<and> b < route_score acs (ss ! j)
       \<and> (\<forall>k<length ss. routable ip (ss ! k) \<longrightarrow> route_score acs (ss ! k) \<le> route_score acs (ss ! j))
       \<and> (\<forall>k<j. routable ip (ss ! k) \<longrightarrow> route_score acs (ss ! k) < route_score acs (ss ! j)))"

lemma route_score_nonneg: "0 \<le> route_score acs s"
  by (simp add: route_score_def)

lemma best_route_best_of:
  "\<exists>r. best_of acs ip b ss r \<and>
     best_route acs ip i (best, b) ss = (case r of None \<Rightarrow> best | Some j \<Rightarrow> Some (i + j))"
proof (induction ss arbitrary: i best b)
  case Nil
  show ?case by (intro exI [of _ None]) (simp add: best_of_def)
next
  case (Cons s ss)
  let ?sc = "route_score acs s"
  show ?case
  proof (cases "routable ip s \<and> b < ?sc")
    case True
    obtain r where r: "best_of acs ip ?sc ss r"
      and br: "best_route acs ip (i + 1) (Some i, ?sc) ss = (case r of None \<Rightarrow> Some i | Some j \<Rightarrow> Some (i + 1 + j))"
      using Cons.IH [of ?sc "i + 1" "Some i"] by blast
    have "best_route acs ip i (best, b) (s # ss) = best_route acs ip (i + 1) (Some i, ?sc) ss"
      using True by (auto simp: routable_def)
    moreover have "best_of acs ip b (s # ss) (Some (case r of None \<Rightarrow> 0 | Some j \<Rightarrow> Suc j))"
      using r True
      by (cases r) (fastforce simp: best_of_def nth_Cons' in_set_conv_nth all_conj_distrib less_Suc_eq_0_disj)+
    ultimately show ?thesis using br
      by (intro exI [of _ "Some (case r of None \<Rightarrow> 0 | Some j \<Rightarrow> Suc j)"]) (auto split: option.splits)
  next
    case False
    obtain r where r: "best_of acs ip b ss r"
      and br: "best_route acs ip (i + 1) (best, b) ss = (case r of None \<Rightarrow> best | Some j \<Rightarrow> Some (i + 1 + j))"
      using Cons.IH [of b "i + 1" best] by blast
    have "best_route acs ip i (best, b) (s # ss) = best_route acs ip (i + 1) (best, b) ss"
      using False by (auto simp: routable_def)
    moreover have "best_of acs ip b (s # ss) (map_option Suc r)"
      using r False by (cases r) (fastforce simp: best_of_def less_Suc_eq_0_disj)+
    ultimately show ?thesis using br
      by (intro exI [of _ "map_option Suc r"]) (auto split: option.splits)
  qed
qed

lemma active_locked_best: "best_of (s_active_client_sock c) (active_peer c) (-1) (s_sessions c) (miplay_session_active_locked c)"
proof -
  obtain r where "best_of (s_active_client_sock c) (active_peer c) (-1) (s_sessions c) r"
    and "miplay_session_active_locked c = (case r of None \<Rightarrow> None | Some j \<Rightarrow> Some (0 + j))"
    using best_route_best_of unfolding miplay_session_active_locked_def by blast
  then show ?thesis by (cases r) auto
qed

lemma preferred_peer_cases:
  "preferred_peer acs ip ss = ip
   \<or> (\<exists>s\<in>set ss. ss_in_use s \<and> ss_has_session_key s \<and> ss_media_session_opened s \<and> ss_peer_ip s = preferred_peer acs ip ss)"
  by (induction ss arbitrary: ip) (auto, (metis)+)

lemma active_peer_cases:
  "active_peer c = 0 \<or> (\<exists>s\<in>set (s_sessions c). ss_in_use s \<and> ss_has_session_key s \<and> ss_peer_ip s = active_peer c)"
proof -
  have "preferred_peer (s_active_client_sock c) 0 (s_sessions c) = 0 \<or>
    (\<exists>s\<in>set (s_sessions c). ss_in_use s \<and> ss_has_session_key s
       \<and> ss_peer_ip s = preferred_peer (s_active_client_sock c) 0 (s_sessions c))"
    using preferred_peer_cases by metis
  moreover have "s_sessions c ! a \<in> set (s_sessions c) \<and> ss_in_use (s_sessions c ! a)"
    if "miplay_session_find_locked (s_active_client_sock c) c = Some a" for a
    using that by (auto simp: find_locked_eq owns_def dest: find_slot_Some)
  ultimately show ?thesis
    by (auto simp: active_peer_def Let_def split: option.splits)
qed

lemma active_route_spec':
  "case miplay_session_active_locked c of
     None \<Rightarrow> \<forall>s\<in>set (s_sessions c). \<not> (ss_in_use s \<and> ss_has_session_key s)
   | Some i \<Rightarrow> i < length (s_sessions c) \<and> routable (active_peer c) (s_sessions c ! i)
       \<and> (\<forall>s\<in>set (s_sessions c). routable (active_peer c) s \<longrightarrow>
            route_score (s_active_client_sock c) s \<le> route_score (s_active_client_sock c) (s_sessions c ! i))"
proof (cases "miplay_session_active_locked c")
  case None
  with active_locked_best [of c] have "\<forall>s\<in>set (s_sessions c). \<not> routable (active_peer c) s"
    by (fastforce simp: best_of_def dest: order.trans [OF route_score_nonneg])
  with active_peer_cases [of c] None show ?thesis by (fastforce simp: routable_def)
next
  case (Some i)
  with active_locked_best [of c] show ?thesis by (auto simp: best_of_def in_set_conv_nth)
qed

subsection \<open>Sequence numbers\<close>

fun next_seqs :: "nat \<Rightarrow> ctl \<Rightarrow> u16 list" where
  "next_seqs 0 c = []"
| "next_seqs (Suc n) c = (let (q, c') = miplay_next_notify_seq_locked c in q # next_seqs n c')"

lemma next_seqs_from:
  "s_notify_seq c = 8 + int (k mod 65528) \<Longrightarrow> next_seqs n c = map (\<lambda>j. of_nat (8 + j mod 65528)) [k..<k + n]"
proof (induction n arbitrary: c k)
  case 0
  show ?case by simp
next
  case (Suc n)
  obtain q c' where n: "miplay_next_notify_seq_locked c = (q, c')" by fastforce
  have lt: "k mod 65528 < 65528" by simp
  have q: "q = of_nat (8 + k mod 65528)"
    using n Suc.prems lt by (auto simp: miplay_next_notify_seq_locked_def Let_def)
  have "Suc k mod 65528 = (if k mod 65528 = 65527 then 0 else Suc (k mod 65528))"
    by (simp add: mod_Suc)
  then have "s_notify_seq c' = 8 + int (Suc k mod 65528)"
    using n Suc.prems lt by (auto simp: miplay_next_notify_seq_locked_def Let_def split: if_splits)
  from Suc.IH [OF this] show ?case by (simp add: n q upt_rec [of k])
qed

subsection \<open>Properties\<close>

lemma cleanup_spec:
  assumes "i < length (s_sessions c)" and "disconnect_cleanup i c = (c', gone)"
  shows "s_sessions c' = (s_sessions c)[i := (s_sessions c ! i) \<lparr> ss_aes_key := replicate 16 0,
             ss_encrypt_iv := replicate 16 0, ss_decrypt_iv := replicate 16 0, ss_auth_key := replicate 33 0,
             ss_auth_msg := replicate 33 0, ss_has_session_key := False, ss_notify_seq := 8,
             ss_reverse_control_ready := False, ss_play_source_registered := False,
             ss_media_session_opened := False \<rparr>]
    \<and> (if gone then \<not> s_connected c' \<and> s_media_paused c'
           \<and> (\<forall>s\<in>set (s_sessions c'). \<not> (ss_in_use s \<and> ss_has_session_key s))
       else \<exists>s\<in>set (s_sessions c'). ss_in_use s \<and> ss_has_session_key s \<and> s_active_client_sock c' = ss_sock s
           \<and> s_active_peer_ip c' = ss_peer_ip s \<and> s_aes_key c' = ss_aes_key s)"
proof (cases "miplay_session_active_locked (wipe_session i c)")
  case None
  with active_route_spec' [of "wipe_session i c"] assms(2) show ?thesis
    by (auto simp: disconnect_cleanup_def Let_def wipe_sessions)
next
  case (Some r)
  let ?c = "wipe_session i c"
  from Some active_route_spec' [of ?c] have r: "s_sessions ?c ! r \<in> set (s_sessions ?c)"
    "ss_in_use (s_sessions ?c ! r)" "ss_has_session_key (s_sessions ?c ! r)" by (auto simp: routable_def)
  have c': "c' = miplay_session_load (Some r)
      (?c \<lparr> s_active_client_sock := ss_sock (s_sessions ?c ! r), s_active_peer_ip := ss_peer_ip (s_sessions ?c ! r) \<rparr>)"
    and "\<not> gone" using assms(2) Some by (auto simp: disconnect_cleanup_def Let_def)
  moreover have "s_aes_key c' = ss_aes_key (s_sessions ?c ! r)"
    by (simp add: c' miplay_session_load_def load_fields_def)
  ultimately show ?thesis using r
    by (simp only: c' load_table wipe_sessions(1) [symmetric] if_False) (auto simp: wipe_sessions)
qed

text \<open>C22: The session table implements a bounded set of connections. Over any sequence of
  accepted and ended connections (\<open>accept\<close> not returning an open descriptor), starting from
  the static initial state, the invariant of the table holds and the sockets that
  \<open>miplay_session_find_locked\<close> finds are exactly those of the abstract set in which a
  connection is refused only when three are open; \<open>s_session_count\<close> is its size.\<close>

theorem session_table_refines:
  assumes "fresh_conns MIPLAY_MAX_CONTROL_SESSIONS {} es"
  shows "let c = serve_with alloc_conn miplay_session_find_locked close_conn ctl_init es;
             K = spec_serve MIPLAY_MAX_CONTROL_SESSIONS {} es
         in table_ok c \<and> live_keys miplay_session_find_locked c = K \<and> s_session_count c = card K \<and> card K \<le> 3"
proof -
  have init: "table_ok ctl_init" "live_keys miplay_session_find_locked ctl_init = {}"
    by (simp_all add: live_sessions table_ok_def ctl_init_def zero_session_def)
  with assms have "fresh_conns MIPLAY_MAX_CONTROL_SESSIONS (live_keys miplay_session_find_locked ctl_init) es" by simp
  note r = sessions.serve_refines [OF init(1) this]
  moreover have "card (spec_serve MIPLAY_MAX_CONTROL_SESSIONS {} es) \<le> MIPLAY_MAX_CONTROL_SESSIONS"
    using sessions.spec_bound [of "{}" es] by simp
  ultimately show ?thesis
    using card_live [OF conjunct1 [OF r]] by (simp add: Let_def init(2) MIPLAY_MAX_CONTROL_SESSIONS_def)
qed

lemma session_table_refines_witness:
  "s_session_count (serve_with alloc_conn miplay_session_find_locked close_conn ctl_init
     [Accepted 5 (1, 2), Accepted 6 (1, 3), Ended 5, Accepted 5 (9, 9), Accepted 7 (1, 1), Accepted 8 (1, 1)]) = 3"
  using session_table_refines [of "[Accepted 5 (1, 2), Accepted 6 (1, 3), Ended 5, Accepted 5 (9, 9), Accepted 7 (1, 1), Accepted 8 (1, 1)]"]
  by (simp add: Let_def MIPLAY_MAX_CONTROL_SESSIONS_def card_insert_if)

text \<open>Routing of local controls. \<open>miplay_session_active_locked\<close> fails exactly when no
  session is authenticated; otherwise it returns an authenticated session which, when some
  phone owns the current stream, belongs to that phone, and no other such session has a
  higher score (reverse control first, then play source, then media).\<close>

theorem active_route_spec:
  "case miplay_session_active_locked c of
     None \<Rightarrow> \<forall>s\<in>set (s_sessions c). \<not> (ss_in_use s \<and> ss_has_session_key s)
   | Some i \<Rightarrow> i < length (s_sessions c) \<and> routable (active_peer c) (s_sessions c ! i)
       \<and> (\<forall>s\<in>set (s_sessions c). routable (active_peer c) s \<longrightarrow>
            route_score (s_active_client_sock c) s \<le> route_score (s_active_client_sock c) (s_sessions c ! i))"
  by (rule active_route_spec')

lemma active_route_spec_witness:
  "miplay_session_active_locked (ctl_init \<lparr> s_active_client_sock := 4, s_sessions :=
     [zero_session \<lparr> ss_in_use := True, ss_sock := 4, ss_peer_ip := 7, ss_has_session_key := True, ss_media_session_opened := True \<rparr>,
      zero_session \<lparr> ss_in_use := True, ss_sock := 5, ss_peer_ip := 9, ss_has_session_key := True, ss_reverse_control_ready := True \<rparr>,
      zero_session \<lparr> ss_in_use := True, ss_sock := 6, ss_peer_ip := 7, ss_has_session_key := True, ss_reverse_control_ready := True \<rparr>] \<rparr>) = Some 2"
  (is "miplay_session_active_locked ?c = _")
proof -
  have "active_peer ?c = 7" by (simp add: active_peer_def Let_def zero_session_def split: option.splits)
  with active_route_spec [of ?c] show ?thesis
    by (auto simp: routable_def zero_session_def route_score_def less_Suc_eq split: option.splits)
qed

text \<open>Closing a connection. \<open>disconnect_cleanup\<close> wipes the keys, IVs and authentication
  material of its own slot and of no other, the closed socket is no longer the active one,
  and the phone is reported gone exactly when no authenticated session is left; otherwise
  the active socket is that of an authenticated session.\<close>

theorem disconnect_cleanup_spec:
  assumes "i < length (s_sessions c)" and "disconnect_cleanup i c = (c', gone)"
  shows "s_sessions c' = (s_sessions c)[i := (s_sessions c ! i) \<lparr> ss_aes_key := replicate 16 0,
             ss_encrypt_iv := replicate 16 0, ss_decrypt_iv := replicate 16 0, ss_auth_key := replicate 33 0,
             ss_auth_msg := replicate 33 0, ss_has_session_key := False, ss_notify_seq := 8,
             ss_reverse_control_ready := False, ss_play_source_registered := False,
             ss_media_session_opened := False \<rparr>]
    \<and> (if gone then \<not> s_connected c' \<and> s_media_paused c'
           \<and> (\<forall>s\<in>set (s_sessions c'). \<not> (ss_in_use s \<and> ss_has_session_key s))
       else \<exists>s\<in>set (s_sessions c'). ss_in_use s \<and> ss_has_session_key s \<and> s_active_client_sock c' = ss_sock s
           \<and> s_active_peer_ip c' = ss_peer_ip s \<and> s_aes_key c' = ss_aes_key s)"
  using assms by (rule cleanup_spec)

lemma disconnect_cleanup_spec_witness:
  "\<exists>c' gone. disconnect_cleanup 0 ctl_init = (c', gone) \<and> length (s_sessions c') = 3"
proof -
  have len: "0 < length (s_sessions ctl_init)" "length (s_sessions ctl_init) = 3"
    by (simp_all add: ctl_init_def MIPLAY_MAX_CONTROL_SESSIONS_def)
  obtain c' gone where d: "disconnect_cleanup 0 ctl_init = (c', gone)" by fastforce
  with disconnect_cleanup_spec [OF len(1) d] len show ?thesis by auto
qed

text \<open>Control sequence numbers. From the initial value the numbers handed out are 8, 9,
  ... up to 65535 and then 8 again: never 0 to 7, and no number repeats within 65528.\<close>

theorem notify_seq_cycle:
  assumes "s_notify_seq c = 8"
  shows "next_seqs n c = map (\<lambda>k. of_nat (8 + k mod 65528)) [0..<n]"
  using next_seqs_from [of c 0 n] assms by simp

lemma notify_seq_cycle_witness: "next_seqs 3 ctl_init = [8, 9, 10]"
  using notify_seq_cycle [of ctl_init 3] by (simp add: ctl_init_def upt_rec)

end
