(* ===== verification/Frame.thy ===== *)
theory Frame
  imports Session Streams
begin

text \<open>
  The control frames of MiPlay (\<open>miplay.c\<close>: \<open>socket_send_all\<close> to
  \<open>send_encrypted_envelope\<close>, \<open>miplay_frame_hdr_plausible\<close>, and the receive loop of
  \<open>handle_client\<close>): 9 header bytes (magic, command, sequence number, payload length, all
  big endian), then the payload.

  The environment is a record of functions: the block cipher, and for the \<open>k\<close>-th call of
  an allocation, a key schedule or \<open>send\<close> what it answers. The network state counts those
  calls and records what was handed to each socket.
\<close>

record env =
  env_E :: block_fun
  env_D :: block_fun
  env_aes :: "nat \<Rightarrow> bool" \<comment> \<open>the key schedule succeeds\<close>
  env_mem :: "nat \<Rightarrow> bool" \<comment> \<open>the allocation succeeds\<close>
  env_send :: "nat \<Rightarrow> nat \<Rightarrow> int" \<comment> \<open>the result of \<open>send\<close> for so many bytes\<close>

record net =
  calls :: nat
  tx_log :: "(int \<times> byte list) list"

definition sent_to :: "int \<Rightarrow> net \<Rightarrow> byte list" where
  "sent_to fd n = concat (map snd (filter (\<lambda>e. fst e = fd) (tx_log n)))"

definition MIPLAY_FRAME_MAGIC :: byte where "MIPLAY_FRAME_MAGIC = 0x24"
definition MIPLAY_FRAME_HDR_LEN :: nat where "MIPLAY_FRAME_HDR_LEN = 9"
definition MIPLAY_MAX_FRAME_PAYLOAD :: nat where "MIPLAY_MAX_FRAME_PAYLOAD = 256 * 1024"
definition MIPLAY_RX_BUF_LEN :: nat where "MIPLAY_RX_BUF_LEN = MIPLAY_MAX_FRAME_PAYLOAD + MIPLAY_FRAME_HDR_LEN"

lemmas frame_consts = MIPLAY_FRAME_MAGIC_def MIPLAY_FRAME_HDR_LEN_def MIPLAY_MAX_FRAME_PAYLOAD_def
  MIPLAY_RX_BUF_LEN_def

definition CMD_GET_MEDIA_INFO :: u16 where "CMD_GET_MEDIA_INFO = 0x0014"

subsection \<open>Sending\<close>

function socket_send_all :: "env \<Rightarrow> int \<Rightarrow> nat \<Rightarrow> byte list \<Rightarrow> net \<Rightarrow> int \<times> net" where
  \<comment> \<open>\<open>sent\<close> bytes are out, \<open>data\<close> is what remains\<close>
  "socket_send_all env fd sent data n =
     (if data = [] then (int sent, n)
      else let r = env_send env (calls n) (length data); n1 = n \<lparr> calls := calls n + 1 \<rparr>
           in if r \<le> 0 then (if r < 0 then r else -1, n1)
              else socket_send_all env fd (sent + nat r) (drop (nat r) data)
                     (n1 \<lparr> tx_log := tx_log n1 @ [(fd, take (nat r) data)] \<rparr>))"
  by pat_completeness auto
termination
  by (relation "measure (\<lambda>(env, fd, sent, data, n). length data)") auto

declare socket_send_all.simps [simp del]

definition frame_hdr :: "u16 \<Rightarrow> u16 \<Rightarrow> u32 \<Rightarrow> byte list" where
  "frame_hdr cmd sq plen = MIPLAY_FRAME_MAGIC # be16 cmd @ be16 sq @ be32 plen"

definition miplay_send_cmd_raw :: "env \<Rightarrow> int \<Rightarrow> u16 \<Rightarrow> u16 \<Rightarrow> byte list \<Rightarrow> net \<Rightarrow> int \<times> net" where
  "miplay_send_cmd_raw env fd cmd sq payload n =
     (let (ret, n1) = socket_send_all env fd 0 (frame_hdr cmd sq (of_nat (length payload))) n
      in if ret < 0 then (ret, n1)
         else if payload \<noteq> [] then
           let (ret2, n2) = socket_send_all env fd 0 payload n1
           in if ret2 < 0 then (ret2, n2)
              else (int MIPLAY_FRAME_HDR_LEN + int (length payload), n2)
         else (int MIPLAY_FRAME_HDR_LEN + int (length payload), n1))"

definition miplay_send_cmd :: "env \<Rightarrow> int \<Rightarrow> u16 \<Rightarrow> u16 \<Rightarrow> byte list \<Rightarrow> net \<Rightarrow> int \<times> net" where
  "miplay_send_cmd env fd cmd sq payload n = miplay_send_cmd_raw env fd cmd sq payload n"

definition ENCRYPT_BUF_LEN :: nat where
  \<comment> \<open>\<open>sizeof s_encrypt_buf\<close>\<close>
  "ENCRYPT_BUF_LEN = MIPLAY_MAX_FRAME_PAYLOAD + SAFETY_DATA_HDR_LEN + AES_BLOCK_LEN"

definition ENVELOPE_BUF_LEN :: nat where
  \<comment> \<open>\<open>sizeof s_envelope_buf\<close>\<close>
  "ENVELOPE_BUF_LEN = 9 + 2048"

definition seal :: "env \<Rightarrow> byte list \<Rightarrow> ctl \<times> net \<Rightarrow> byte list option \<times> (ctl \<times> net)" where
  \<comment> \<open>\<open>safety_encrypt (\<dots>, s_aes_key, s_encrypt_iv, s_encrypt_buf, sizeof s_encrypt_buf)\<close>\<close>
  "seal env plain = (\<lambda>(c, n).
     (case safety_encrypt (env_E env) (env_aes env (calls n)) (env_mem env (calls n)) plain
             (s_aes_key c) (s_encrypt_iv c) ENCRYPT_BUF_LEN of
        None \<Rightarrow> (None, (c, n \<lparr> calls := calls n + 1 \<rparr>))
      | Some (out, iv) \<Rightarrow> (Some out, (c \<lparr> s_encrypt_iv := iv \<rparr>, n \<lparr> calls := calls n + 1 \<rparr>))))"

definition send_encrypted_cmd_locked ::
  "env \<Rightarrow> int \<Rightarrow> u16 \<Rightarrow> u16 \<Rightarrow> byte list \<Rightarrow> ctl \<times> net \<Rightarrow> int \<times> (ctl \<times> net)" where
  "send_encrypted_cmd_locked env fd cmd sq payload st =
     (if MIPLAY_MAX_FRAME_PAYLOAD < length payload then (-1, st)
      else case seal env payload st of
             (None, st1) \<Rightarrow> (-1, st1)
           | (Some sd, (c1, n1)) \<Rightarrow>
               let (ret, n2) = miplay_send_cmd_raw env fd cmd sq sd n1 in (ret, (c1, n2)))"

definition send_encrypted_cmd_auto_seq ::
  "env \<Rightarrow> int \<Rightarrow> u16 \<Rightarrow> byte list \<Rightarrow> ctl \<times> net \<Rightarrow> (int \<times> u16) \<times> (ctl \<times> net)" where
  "send_encrypted_cmd_auto_seq env fd cmd payload = (\<lambda>(c, n).
     let (sq, c1) = miplay_next_notify_seq_locked c;
         (ret, st) = send_encrypted_cmd_locked env fd cmd sq payload (c1, n)
     in ((ret, sq), st))"

definition send_encrypted_cmd ::
  "env \<Rightarrow> int \<Rightarrow> u16 \<Rightarrow> u16 \<Rightarrow> byte list \<Rightarrow> ctl \<times> net \<Rightarrow> int \<times> (ctl \<times> net)" where
  "send_encrypted_cmd env fd cmd sq payload st = send_encrypted_cmd_locked env fd cmd sq payload st"

definition miplay_send_media_info_query :: "env \<Rightarrow> int \<Rightarrow> ctl \<times> net \<Rightarrow> int \<times> (ctl \<times> net)" where
  "miplay_send_media_info_query env fd = (\<lambda>(c, n).
     let p = miplay_session_find_locked fd c;
         c1 = miplay_session_load p c;
         can_send = (0 \<le> fd \<and> p \<noteq> None \<and> s_has_session_key c1);
         (ret, (c2, n2)) = (if can_send then
             let (sq, c1') = miplay_next_notify_seq_locked c1
             in send_encrypted_cmd_locked env fd CMD_GET_MEDIA_INFO sq [] (c1', n)
           else (-1, (c1, n)))
     in (ret, (miplay_session_save p c2, n2)))"

definition send_plain_envelope :: "env \<Rightarrow> int \<Rightarrow> u16 \<Rightarrow> u16 \<Rightarrow> byte list \<Rightarrow> net \<Rightarrow> int \<times> net" where
  "send_plain_envelope env fd cmd16 sq payload n =
     (if 2048 < length payload then (-1, n)
      else if \<not> env_mem env (calls n) then (-1, n \<lparr> calls := calls n + 1 \<rparr>)
      else case safety_envelope_encode True SAFETY_VALUE_TYPE payload (1 + 3 + 4 + 1 + length payload) of
             None \<Rightarrow> (-1, n \<lparr> calls := calls n + 1 \<rparr>)
           | Some envelope \<Rightarrow> miplay_send_cmd env fd cmd16 sq envelope (n \<lparr> calls := calls n + 1 \<rparr>))"

definition send_encrypted_envelope ::
  "env \<Rightarrow> int \<Rightarrow> u16 \<Rightarrow> u16 \<Rightarrow> bool \<Rightarrow> byte list \<Rightarrow> ctl \<times> net \<Rightarrow> int \<times> (ctl \<times> net)" where
  "send_encrypted_envelope env fd cmd16 sq is_ack payload st =
     (if 2048 < length payload then (-1, st)
      else case safety_envelope_encode is_ack SAFETY_VALUE_TYPE payload ENVELOPE_BUF_LEN of
             None \<Rightarrow> (-1, st)
           | Some envelope \<Rightarrow>
               (case seal env envelope st of
                  (None, st1) \<Rightarrow> (-1, st1)
                | (Some sd, (c1, n1)) \<Rightarrow>
                    let (ret, n2) = miplay_send_cmd_raw env fd cmd16 sq sd n1 in (ret, (c1, n2))))"

subsection \<open>Receiving\<close>

record frame =
  f_cmd :: u16
  f_seq :: u16
  f_payload :: "byte list"

definition miplay_frame_hdr_plausible :: "byte \<Rightarrow> u32 \<Rightarrow> bool" where
  "miplay_frame_hdr_plausible outer_type plen \<longleftrightarrow>
     \<not> MIPLAY_MAX_FRAME_PAYLOAD < unat plen \<and> (outer_type = 0x00 \<or> outer_type = 0x04 \<or> outer_type = 0x14)"

text \<open>One round of the loop \<open>while (buf_used >= MIPLAY_FRAME_HDR_LEN)\<close>.\<close>

definition frame_step :: "byte list \<Rightarrow> frame verdict" where
  "frame_step buf =
     (if length buf < MIPLAY_FRAME_HDR_LEN then More
      else if buf ! 0 \<noteq> MIPLAY_FRAME_MAGIC
      then Skip (1 + length (takeWhile (\<lambda>b. b \<noteq> MIPLAY_FRAME_MAGIC) (tl buf)))
      else let outer_type = buf ! 1; cmd = rd16 buf 1; sq = rd16 buf 3; plen = rd32 buf 5;
               total = MIPLAY_FRAME_HDR_LEN + unat plen
           in if \<not> miplay_frame_hdr_plausible outer_type plen then Skip 1
              else if length buf < total then More
              else Take total \<lparr> f_cmd = cmd, f_seq = sq,
                     f_payload = take (unat plen) (drop MIPLAY_FRAME_HDR_LEN buf) \<rparr>)"

text \<open>What \<open>recv\<close> adds and the loop leaves: the frames handled and the bytes kept. A full
  buffer is emptied.\<close>

definition client_recv :: "byte list \<Rightarrow> byte list \<Rightarrow> (frame list \<times> byte list) option" where
  "client_recv buf chunk =
     (if MIPLAY_RX_BUF_LEN \<le> length buf then Some ([], [])
      else drain frame_step (buf @ take (MIPLAY_RX_BUF_LEN - length buf) chunk))"

subsection \<open>The receive loop\<close>

lemma takeWhile_tl_le: "\<not> length buf < 9 \<Longrightarrow> Suc (length (takeWhile P (tl buf))) \<le> length buf"
  using length_takeWhile_le [of P "tl buf"] by (cases buf) auto

interpretation frames: drain_laws frame_step
proof
  show "frame_step buf = Skip n \<Longrightarrow> 0 < n \<and> n \<le> length buf" for buf n
    using takeWhile_tl_le [of buf]
    by (auto simp: frame_step_def Let_def MIPLAY_FRAME_HDR_LEN_def split: if_splits)
  show "frame_step buf = Take n m \<Longrightarrow> 0 < n \<and> n \<le> length buf" for buf n m
    by (auto simp: frame_step_def Let_def MIPLAY_FRAME_HDR_LEN_def split: if_splits)
qed

lemma hdr_append:
  "\<not> length buf < 9 \<Longrightarrow> (buf @ ys) ! 0 = buf ! 0 \<and> (buf @ ys) ! 1 = buf ! 1
     \<and> rd16 (buf @ ys) 1 = rd16 buf 1 \<and> rd16 (buf @ ys) 3 = rd16 buf 3 \<and> rd32 (buf @ ys) 5 = rd32 buf 5"
  using rd32_append [of 5 buf ys] rd16_append [of 1 buf ys] rd16_append [of 3 buf ys]
  by (auto simp: nth_append)

text \<open>The same loop dropping one byte at a time: each of its verdicts is final.\<close>

definition frame_step1 :: "byte list \<Rightarrow> frame verdict" where
  "frame_step1 buf = (case frame_step buf of Skip n \<Rightarrow> Skip 1 | v \<Rightarrow> v)"

lemma frame_step1_eq:
  "frame_step1 buf =
     (if length buf < 9 then More
      else if buf ! 0 \<noteq> MIPLAY_FRAME_MAGIC \<or> \<not> miplay_frame_hdr_plausible (buf ! 1) (rd32 buf 5) then Skip 1
      else if length buf < 9 + unat (rd32 buf 5) then More
      else Take (9 + unat (rd32 buf 5)) \<lparr> f_cmd = rd16 buf 1, f_seq = rd16 buf 3,
             f_payload = take (unat (rd32 buf 5)) (drop 9 buf) \<rparr>)"
  by (simp add: frame_step1_def frame_step_def Let_def MIPLAY_FRAME_HDR_LEN_def)

interpretation bytewise: framed_stream frame_step1
proof
  show "frame_step1 buf = Skip n \<Longrightarrow> 0 < n \<and> n \<le> length buf" for buf n
    by (auto simp: frame_step1_eq split: if_splits)
  show "frame_step1 buf = Take n m \<Longrightarrow> 0 < n \<and> n \<le> length buf" for buf n m
    by (auto simp: frame_step1_eq split: if_splits)
  show "frame_step1 buf = Skip n \<Longrightarrow> frame_step1 (buf @ ys) = Skip n" for buf n ys
    using hdr_append [of buf ys] by (auto simp: frame_step1_eq split: if_splits)
  show "frame_step1 buf = Take n m \<Longrightarrow> frame_step1 (buf @ ys) = Take n m" for buf n m ys
    using hdr_append [of buf ys] by (auto simp: frame_step1_eq split: if_splits)
qed

definition resync :: "byte list \<Rightarrow> byte list" where
  \<comment> \<open>without the bytes before the next magic\<close>
  "resync buf = dropWhile (\<lambda>b. b \<noteq> MIPLAY_FRAME_MAGIC) buf"

definition same_outcome :: "(frame list \<times> byte list) option \<Rightarrow> (frame list \<times> byte list) option \<Rightarrow> bool" where
  "same_outcome x y \<longleftrightarrow> map_option (map_prod id resync) x = map_option (map_prod id resync) y"

lemma same_outcome_refl [simp]: "same_outcome x x"
  by (simp add: same_outcome_def)

lemma drain_junk1: "b \<noteq> MIPLAY_FRAME_MAGIC \<Longrightarrow> same_outcome (drain frame_step1 (b # r)) (drain frame_step1 r)"
proof (cases "length (b # r) < 9")
  case True
  assume b: "b \<noteq> MIPLAY_FRAME_MAGIC"
  from True have "frame_step1 (b # r) = More" "frame_step1 r = More" by (simp_all add: frame_step1_eq)
  then show ?thesis using b by (simp add: drain_More same_outcome_def resync_def)
next
  case False
  assume b: "b \<noteq> MIPLAY_FRAME_MAGIC"
  with False have "frame_step1 (b # r) = Skip 1" by (simp add: frame_step1_eq)
  then show ?thesis by (simp add: drain_Skip)
qed

lemma drain_junk:
  "(\<And>b. b \<in> set j \<Longrightarrow> b \<noteq> MIPLAY_FRAME_MAGIC) \<Longrightarrow> same_outcome (drain frame_step1 (j @ r)) (drain frame_step1 r)"
proof (induction j)
  case (Cons b j)
  with drain_junk1 [of b "j @ r"] show ?case by (simp add: same_outcome_def)
qed simp

lemma frame_step_skip_magic:
  assumes "frame_step buf = Skip n"
  shows "n = 1 \<and> frame_step1 buf = Skip 1 \<or> (\<forall>b\<in>set (take n buf). b \<noteq> MIPLAY_FRAME_MAGIC)"
proof (cases "buf ! 0 = MIPLAY_FRAME_MAGIC")
  case True
  with assms show ?thesis by (auto simp: frame_step1_def frame_step_def Let_def split: if_splits)
next
  case False
  with assms have n: "n = 1 + length (takeWhile (\<lambda>b. b \<noteq> MIPLAY_FRAME_MAGIC) (tl buf))" and ne: "buf \<noteq> []"
    by (auto simp: frame_step_def frame_consts split: if_splits)
  then have "take n buf = buf ! 0 # takeWhile (\<lambda>b. b \<noteq> MIPLAY_FRAME_MAGIC) (tl buf)"
    by (cases buf) (simp_all add: takeWhile_eq_take [symmetric])
  with False show ?thesis by (auto dest: set_takeWhileD)
qed

lemma drain_bytewise: "same_outcome (drain frame_step buf) (drain frame_step1 buf)"
proof (induction "length buf" arbitrary: buf rule: less_induct)
  case less
  show ?case
  proof (cases "frame_step buf")
    case More
    then show ?thesis by (simp add: drain_More frame_step1_def)
  next
    case (Take n m)
    then have t1: "frame_step1 buf = Take n m" by (simp add: frame_step1_def)
    from frames.take_progress [OF Take] have "length (drop n buf) < length buf" by auto
    from less [OF this] show ?thesis
      by (cases "drain frame_step (drop n buf)"; cases "drain frame_step1 (drop n buf)")
        (auto simp: drain_Take [of frame_step, OF Take] drain_Take [of frame_step1, OF t1] same_outcome_def)
  next
    case (Skip n)
    from frames.skip_progress [OF Skip] have "length (drop n buf) < length buf" by auto
    note ih = less [OF this]
    have "same_outcome (drain frame_step1 buf) (drain frame_step1 (drop n buf))"
      using frame_step_skip_magic [OF Skip] drain_junk [of "take n buf" "drop n buf"]
      by (auto simp: drain_Skip)
    with ih show ?thesis by (simp add: drain_Skip [of frame_step, OF Skip] same_outcome_def)
  qed
qed

lemma resync_split: "\<exists>j. buf = j @ resync buf \<and> (\<forall>b\<in>set j. b \<noteq> MIPLAY_FRAME_MAGIC)"
  by (intro exI [of _ "takeWhile (\<lambda>b. b \<noteq> MIPLAY_FRAME_MAGIC) buf"]) (auto simp: resync_def dest: set_takeWhileD)

lemma drain_resync: "same_outcome (drain frame_step1 (r @ c)) (drain frame_step1 (resync r @ c))"
proof -
  obtain j where j: "r = j @ resync r" and m: "\<forall>b\<in>set j. b \<noteq> MIPLAY_FRAME_MAGIC" using resync_split by blast
  have "same_outcome (drain frame_step1 (j @ (resync r @ c))) (drain frame_step1 (resync r @ c))"
    using m by (intro drain_junk) blast
  with j show ?thesis by (metis append.assoc)
qed

lemma feed_bytewise:
  "resync r = resync r1 \<Longrightarrow> map_option fst (feed frame_step r cs) = map_option fst (feed frame_step1 r1 cs)"
proof (induction cs arbitrary: r r1)
  case Nil
  show ?case by simp
next
  case (Cons c cs)
  obtain ms q ms1 q1 where d: "drain frame_step (r @ c) = Some (ms, q)"
    and d1: "drain frame_step1 (r1 @ c) = Some (ms1, q1)"
    using frames.returns bytewise.returns by metis
  have "same_outcome (drain frame_step (r @ c)) (drain frame_step1 (r1 @ c))"
    using drain_bytewise [of "r @ c"] drain_resync [of r c] drain_resync [of r1 c] Cons.prems
    by (simp add: same_outcome_def)
  with d d1 have ms: "ms = ms1" and q: "resync q = resync q1" by (simp_all add: same_outcome_def)
  from Cons.IH [OF q] d d1 ms show ?case
    by (cases "feed frame_step q cs"; cases "feed frame_step1 q1 cs") auto
qed

subsection \<open>The bound of the buffer\<close>

lemma idle_bound: "frame_step buf = More \<Longrightarrow> length buf < MIPLAY_RX_BUF_LEN"
  by (auto simp: frame_step_def Let_def frame_consts miplay_frame_hdr_plausible_def split: if_splits)

lemma client_recv_idle:
  assumes "frame_step r = More" "length c \<le> MIPLAY_RX_BUF_LEN - length r"
  shows "client_recv r c = drain frame_step (r @ c)"
  using idle_bound [OF assms(1)] assms(2) by (simp add: client_recv_def)

subsection \<open>Frames on the wire\<close>

definition frame_bytes :: "frame \<Rightarrow> byte list" where
  "frame_bytes f = frame_hdr (f_cmd f) (f_seq f) (of_nat (length (f_payload f))) @ f_payload f"

definition frame_ok :: "frame \<Rightarrow> bool" where
  \<comment> \<open>one of the three outer types and a payload the peer accepts\<close>
  "frame_ok f \<longleftrightarrow> length (f_payload f) \<le> MIPLAY_MAX_FRAME_PAYLOAD
     \<and> ucast (drop_bit 8 (f_cmd f)) \<in> {0x00 :: byte, 0x04, 0x14}"

definition frame_dec :: "byte list \<Rightarrow> (frame \<times> byte list) option" where
  "frame_dec buf = (case frame_step buf of Take n f \<Rightarrow> Some (f, drop n buf) | _ \<Rightarrow> None)"

lemma frame_hdr_eq: "frame_hdr cmd sq plen = [0x24, ucast (drop_bit 8 cmd), ucast cmd, ucast (drop_bit 8 sq), ucast sq,
    ucast (drop_bit 24 plen), ucast (drop_bit 16 plen), ucast (drop_bit 8 plen), ucast plen]"
  by (simp add: frame_hdr_def MIPLAY_FRAME_MAGIC_def be16_def be32_def)

lemma length_frame_hdr [simp]: "length (frame_hdr cmd sq plen) = 9"
  by (simp add: frame_hdr_eq)

lemma frame_hdr_fields:
  "(frame_hdr cmd sq plen @ x) ! 0 = MIPLAY_FRAME_MAGIC"
  "(frame_hdr cmd sq plen @ x) ! Suc 0 = ucast (drop_bit 8 cmd)"
  "rd16 (frame_hdr cmd sq plen @ x) (Suc 0) = cmd" "rd16 (frame_hdr cmd sq plen @ x) 3 = sq"
  "rd32 (frame_hdr cmd sq plen @ x) 5 = plen"
proof -
  let ?h = "frame_hdr cmd sq plen @ x"
  show "?h ! 0 = MIPLAY_FRAME_MAGIC" "?h ! Suc 0 = ucast (drop_bit 8 cmd)"
    by (simp_all add: frame_hdr_eq MIPLAY_FRAME_MAGIC_def)
  show "rd16 ?h (Suc 0) = cmd"
    using rd16_be16 [of "[MIPLAY_FRAME_MAGIC]" 1 cmd "be16 sq @ be32 plen @ x"] by (simp add: frame_hdr_def)
  show "rd16 ?h 3 = sq"
    using rd16_be16 [of "MIPLAY_FRAME_MAGIC # be16 cmd" 3 sq "be32 plen @ x"] by (simp add: frame_hdr_def)
  show "rd32 ?h 5 = plen"
    using rd32_be32 [of "MIPLAY_FRAME_MAGIC # be16 cmd @ be16 sq" 5 plen x] by (simp add: frame_hdr_def)
qed

lemma frame_step_bytes:
  assumes "frame_ok f"
  shows "frame_step (frame_bytes f @ x) = Take (9 + length (f_payload f)) f"
proof -
  from assms have len: "length (f_payload f) \<le> 262144" by (simp add: frame_ok_def frame_consts)
  then have u: "unat (of_nat (length (f_payload f)) :: u32) = length (f_payload f)"
    by (simp add: unat_of_nat)
  have hdr: "miplay_frame_hdr_plausible (ucast (drop_bit 8 (f_cmd f))) (of_nat (length (f_payload f)))"
    using assms by (auto simp: frame_ok_def miplay_frame_hdr_plausible_def u)
  show ?thesis
    by (simp add: frame_step_def frame_bytes_def frame_hdr_fields Let_def MIPLAY_FRAME_HDR_LEN_def hdr u)
qed

interpretation wire: codec frame_bytes frame_dec frame_ok
proof
  show "frame_dec (frame_bytes f @ x) = Some (f, x)" if "frame_ok f" for f x
    using frame_step_bytes [OF that, of x] by (simp add: frame_dec_def frame_bytes_def)
  show "frame_bytes f \<noteq> []" for f by (simp add: frame_bytes_def frame_hdr_eq)
qed

lemma drain_frames:
  "list_all frame_ok fs \<Longrightarrow> drain frame_step (concat (map frame_bytes fs)) = Some (fs, [])"
proof (induction fs)
  case Nil
  have "frame_step [] = More" by (simp add: frame_step_def MIPLAY_FRAME_HDR_LEN_def)
  then show ?case by (simp add: drain_More)
next
  case (Cons f fs)
  then have "frame_step (concat (map frame_bytes (f # fs))) = Take (9 + length (f_payload f)) f"
    by (simp add: frame_step_bytes)
  moreover have "drop (9 + length (f_payload f)) (concat (map frame_bytes (f # fs))) = concat (map frame_bytes fs)"
    by (simp add: frame_bytes_def)
  ultimately show ?case using Cons by (simp add: drain_Take)
qed

subsection \<open>What is on the wire after a send\<close>

definition net_ok :: "env \<Rightarrow> bool" where
  \<comment> \<open>\<open>send\<close> takes at least one byte and no more than it was given; nothing else fails\<close>
  "net_ok env \<longleftrightarrow> (\<forall>k m. 0 < m \<longrightarrow> 0 < env_send env k m \<and> env_send env k m \<le> int m)
     \<and> (\<forall>k. env_aes env k) \<and> (\<forall>k. env_mem env k)"

lemma sent_to_snoc [simp]:
  "sent_to k (n \<lparr> calls := j, tx_log := tx_log n @ [(fd, d)] \<rparr>) = (if k = fd then sent_to k n @ d else sent_to k n)"
  by (simp add: sent_to_def)

lemma sent_to_calls [simp]: "sent_to k (n \<lparr> calls := m \<rparr>) = sent_to k n"
  by (simp add: sent_to_def)

lemma socket_send_all_prefix:
  "socket_send_all env fd s data n = (r, n') \<Longrightarrow>
   \<exists>m. sent_to fd n' = sent_to fd n @ take m data \<and> (0 \<le> r \<longrightarrow> take m data = data)
     \<and> (\<forall>k. k \<noteq> fd \<longrightarrow> sent_to k n' = sent_to k n)"
proof (induction env fd s data n arbitrary: r n' rule: socket_send_all.induct)
  case (1 env fd s data n)
  let ?r = "env_send env (calls n) (length data)"
  show ?case
  proof (cases "data = [] \<or> ?r \<le> 0")
    case True
    then have "sent_to k n' = sent_to k n" for k
      using "1.prems" by (subst (asm) socket_send_all.simps) (auto simp: Let_def split: if_splits)
    moreover have "data = [] \<or> r < 0"
      using "1.prems" True by (subst (asm) socket_send_all.simps) (auto simp: Let_def split: if_splits)
    ultimately show ?thesis by (intro exI [of _ 0]) auto
  next
    case False
    then have ne: "data \<noteq> []" "\<not> ?r \<le> 0" by auto
    let ?n = "(n \<lparr> calls := calls n + 1 \<rparr>) \<lparr> tx_log := tx_log (n \<lparr> calls := calls n + 1 \<rparr>) @ [(fd, take (nat ?r) data)] \<rparr>"
    have "socket_send_all env fd (s + nat ?r) (drop (nat ?r) data) ?n = (r, n')"
      using "1.prems" ne by (subst (asm) socket_send_all.simps) (simp add: Let_def)
    from "1.IH" [OF ne(1) refl refl ne(2) this] obtain m where
      m: "sent_to fd n' = sent_to fd ?n @ take m (drop (nat ?r) data)"
        "0 \<le> r \<longrightarrow> take m (drop (nat ?r) data) = drop (nat ?r) data"
        "\<forall>k. k \<noteq> fd \<longrightarrow> sent_to k n' = sent_to k ?n" by blast
    then show ?thesis by (intro exI [of _ "nat ?r + m"]) (auto simp: take_add)
  qed
qed

lemma socket_send_all_ok:
  "net_ok env \<Longrightarrow> \<exists>n'. socket_send_all env fd s data n = (int s + int (length data), n')"
proof (induction "length data" arbitrary: s data n rule: less_induct)
  case less
  show ?case
  proof (cases "data = []")
    case True
    then show ?thesis by (simp add: socket_send_all.simps)
  next
    case False
    let ?r = "env_send env (calls n) (length data)"
    let ?n = "(n \<lparr> calls := calls n + 1 \<rparr>) \<lparr> tx_log := tx_log (n \<lparr> calls := calls n + 1 \<rparr>) @ [(fd, take (nat ?r) data)] \<rparr>"
    from less.prems False have r: "0 < ?r" "?r \<le> int (length data)" by (auto simp: net_ok_def)
    with False have "length (drop (nat ?r) data) < length data" by simp
    from less.hyps [OF this less.prems, of "s + nat ?r" ?n] r show ?thesis
      by (subst socket_send_all.simps) (auto simp: Let_def)
  qed
qed

lemma send_cmd_raw_prefix:
  assumes "miplay_send_cmd_raw env fd cmd sq p n = (r, n')"
  shows "\<exists>m. sent_to fd n' = sent_to fd n @ take m (frame_bytes \<lparr> f_cmd = cmd, f_seq = sq, f_payload = p \<rparr>)
    \<and> (0 \<le> r \<longrightarrow> take m (frame_bytes \<lparr> f_cmd = cmd, f_seq = sq, f_payload = p \<rparr>)
         = frame_bytes \<lparr> f_cmd = cmd, f_seq = sq, f_payload = p \<rparr>)
    \<and> (\<forall>k. k \<noteq> fd \<longrightarrow> sent_to k n' = sent_to k n)"
proof -
  let ?h = "frame_hdr cmd sq (of_nat (length p))"
  obtain r1 n1 where h: "socket_send_all env fd 0 ?h n = (r1, n1)" by fastforce
  obtain r2 n2 where b: "socket_send_all env fd 0 p n1 = (r2, n2)" by fastforce
  obtain m1 where m1: "sent_to fd n1 = sent_to fd n @ take m1 ?h" "0 \<le> r1 \<longrightarrow> take m1 ?h = ?h"
    "\<forall>k. k \<noteq> fd \<longrightarrow> sent_to k n1 = sent_to k n" using socket_send_all_prefix [OF h] by blast
  obtain m2 where m2: "sent_to fd n2 = sent_to fd n1 @ take m2 p" "0 \<le> r2 \<longrightarrow> take m2 p = p"
    "\<forall>k. k \<noteq> fd \<longrightarrow> sent_to k n2 = sent_to k n1" using socket_send_all_prefix [OF b] by blast
  consider "r1 < 0" | "0 \<le> r1" "p = []" | "0 \<le> r1" "p \<noteq> []" by linarith
  then show ?thesis
  proof cases
    case 1
    then have "r = r1" "n' = n1" using assms h by (auto simp: miplay_send_cmd_raw_def Let_def)
    with 1 m1 show ?thesis by (intro exI [of _ "min m1 9"]) (auto simp: frame_bytes_def min_def)
  next
    case 2
    then have "n' = n1" using assms h by (auto simp: miplay_send_cmd_raw_def Let_def)
    with 2 m1 show ?thesis by (intro exI [of _ 9]) (simp add: frame_bytes_def)
  next
    case 3
    then have "n' = n2" "0 \<le> r \<longrightarrow> 0 \<le> r2" using assms h b
      by (auto simp: miplay_send_cmd_raw_def Let_def split: if_splits)
    with 3 m1 m2 show ?thesis by (intro exI [of _ "9 + m2"]) (auto simp: frame_bytes_def)
  qed
qed

lemma send_cmd_raw_ok:
  assumes "net_ok env"
  shows "\<exists>n'. miplay_send_cmd_raw env fd cmd sq p n = (9 + int (length p), n')"
proof -
  let ?h = "frame_hdr cmd sq (of_nat (length p))"
  obtain n1 where h: "socket_send_all env fd 0 ?h n = (9, n1)"
    using socket_send_all_ok [OF assms, of fd 0 ?h n] by auto
  obtain n2 where b: "socket_send_all env fd 0 p n1 = (int (length p), n2)"
    using socket_send_all_ok [OF assms, of fd 0 p n1] by auto
  show ?thesis using h b by (auto simp: miplay_send_cmd_raw_def Let_def MIPLAY_FRAME_HDR_LEN_def)
qed

lemma send_cmd_raw_wire:
  assumes "net_ok env"
  obtains n' where "miplay_send_cmd_raw env fd cmd sq p n = (9 + int (length p), n')"
    and "sent_to fd n' = sent_to fd n @ frame_bytes \<lparr> f_cmd = cmd, f_seq = sq, f_payload = p \<rparr>"
    and "\<And>k. k \<noteq> fd \<Longrightarrow> sent_to k n' = sent_to k n"
proof -
  obtain n' where r: "miplay_send_cmd_raw env fd cmd sq p n = (9 + int (length p), n')"
    using send_cmd_raw_ok [OF assms] by blast
  with send_cmd_raw_prefix [OF r] that show thesis by fastforce
qed

subsection \<open>Several sessions\<close>

text \<open>One control message of a session, as every sender does it: load the slot, take a
  number, encrypt and send, save the slot.\<close>

definition session_send :: "env \<Rightarrow> nat \<times> u16 \<times> byte list \<Rightarrow> ctl \<times> net \<Rightarrow> ctl \<times> net" where
  "session_send env = (\<lambda>(i, cmd, payload) (c, n).
     let (res, (c2, n2)) = send_encrypted_cmd_auto_seq env (ss_sock (s_sessions c ! i)) cmd payload
                             (miplay_session_load (Some i) c, n)
     in (miplay_session_save (Some i) c2, n2))"

definition session_sends :: "env \<Rightarrow> (nat \<times> u16 \<times> byte list) list \<Rightarrow> ctl \<times> net \<Rightarrow> ctl \<times> net" where
  "session_sends env evs st = foldl (\<lambda>st e. session_send env e st) st evs"

definition slot_ready :: "nat \<Rightarrow> session \<Rightarrow> bool" where
  \<comment> \<open>the next sequence number is the \<open>k\<close>-th of the session\<close>
  "slot_ready k s \<longleftrightarrow> length (ss_encrypt_iv s) = AES_BLOCK_LEN \<and> ss_notify_seq s = of_nat (8 + k mod 65528)"

lemma session_send_step:
  assumes "net_ok env" and "cipher_ok (env_E env) D (ss_aes_key (s_sessions c ! i))"
    and "i < length (s_sessions c)" and ready: "slot_ready k (s_sessions c ! i)"
    and "length payload \<le> 262100"
  obtains c' n' sd iv' where "session_send env (i, cmd, payload) (c, n) = (c', n')"
    and "safety_encrypt (env_E env) True True payload (ss_aes_key (s_sessions c ! i))
           (ss_encrypt_iv (s_sessions c ! i)) ENCRYPT_BUF_LEN = Some (sd, iv')"
    and "length sd \<le> MIPLAY_MAX_FRAME_PAYLOAD"
    and "s_sessions c' = (s_sessions c)[i := (s_sessions c ! i) \<lparr> ss_encrypt_iv := iv',
           ss_notify_seq := of_nat (8 + Suc k mod 65528) \<rparr>]"
    and "length iv' = AES_BLOCK_LEN"
    and "sent_to (ss_sock (s_sessions c ! i)) n' = sent_to (ss_sock (s_sessions c ! i)) n
           @ frame_bytes \<lparr> f_cmd = cmd, f_seq = of_nat (8 + k mod 65528), f_payload = sd \<rparr>"
    and "\<And>fd. fd \<noteq> ss_sock (s_sessions c ! i) \<Longrightarrow> sent_to fd n' = sent_to fd n"
proof -
  let ?s = "s_sessions c ! i"
  define q where "q = 8 + k mod 65528"
  have q: "8 \<le> q" "q \<le> 65535" by (simp_all add: q_def less_Suc_eq_le [symmetric])
  let ?c1 = "miplay_session_load (Some i) c"
  let ?c2 = "?c1 \<lparr> s_notify_seq := (if q = 65535 then 8 else int (Suc q)) \<rparr>"
  from ready have iv: "length (ss_encrypt_iv ?s) = AES_BLOCK_LEN"
    and sq: "ss_notify_seq ?s = of_nat q" by (simp_all add: slot_ready_def q_def)
  have "s_notify_seq ?c1 = int q"
    using q sint_of_nat32 [of q] by (simp add: miplay_session_load_def load_fields_def sq)
  then have nx: "miplay_next_notify_seq_locked ?c1 = (of_nat q, ?c2)"
    using q by (auto simp: miplay_next_notify_seq_locked_def Let_def)
  have "\<exists>sd iv'. safety_encrypt (env_E env) True True payload (ss_aes_key ?s) (ss_encrypt_iv ?s) ENCRYPT_BUF_LEN = Some (sd, iv')"
    using assms(5) by (simp add: safety_encrypt_defined ENCRYPT_BUF_LEN_def frame_consts safety_consts)
  then obtain sd iv' where
    enc: "safety_encrypt (env_E env) True True payload (ss_aes_key ?s) (ss_encrypt_iv ?s) ENCRYPT_BUF_LEN = Some (sd, iv')" by blast
  note fr = safety_encrypt_frame [OF enc assms(2) iv]
  have sd: "length sd \<le> MIPLAY_MAX_FRAME_PAYLOAD"
    using fr(1) assms(5) by (simp add: frame_consts safety_consts)
  have se: "seal env payload (?c2, n) = (Some sd, (?c2 \<lparr> s_encrypt_iv := iv' \<rparr>, n \<lparr> calls := calls n + 1 \<rparr>))"
    using assms(1) enc by (simp add: seal_def net_ok_def miplay_session_load_def load_fields_def)
  obtain n' where raw: "miplay_send_cmd_raw env (ss_sock ?s) cmd (of_nat q) sd
      (n \<lparr> calls := calls n + 1 \<rparr>) = (9 + int (length sd), n')"
    and wire: "sent_to (ss_sock ?s) n' = sent_to (ss_sock ?s) n
      @ frame_bytes \<lparr> f_cmd = cmd, f_seq = of_nat q, f_payload = sd \<rparr>"
    "\<And>fd. fd \<noteq> ss_sock ?s \<Longrightarrow> sent_to fd n' = sent_to fd n"
    using send_cmd_raw_wire [OF assms(1), of "ss_sock ?s" cmd "of_nat q" sd "n \<lparr> calls := calls n + 1 \<rparr>"]
    unfolding sent_to_calls by blast
  let ?c3 = "?c2 \<lparr> s_encrypt_iv := iv' \<rparr>"
  have "session_send env (i, cmd, payload) (c, n) = (miplay_session_save (Some i) ?c3, n')"
    using assms(5) raw
    by (simp add: session_send_def send_encrypted_cmd_auto_seq_def send_encrypted_cmd_locked_def nx se Let_def
        frame_consts)
  moreover have "s_sessions (miplay_session_save (Some i) ?c3) = (s_sessions c)[i := ?s \<lparr> ss_encrypt_iv := iv',
      ss_notify_seq := of_nat (8 + Suc k mod 65528) \<rparr>]"
  proof -
    have "8 + Suc k mod 65528 = (if q = 65535 then 8 else Suc q)" by (simp add: mod_Suc q_def)
    then have "of_nat (8 + Suc k mod 65528) = (if q = 65535 then 8 else of_nat (Suc q) :: u32)" by simp
    then have "save_fields ?c3 ?s = ?s \<lparr> ss_encrypt_iv := iv', ss_notify_seq := of_nat (8 + Suc k mod 65528) \<rparr>"
      using q by (simp add: save_fields_def miplay_session_load_def load_fields_def del: of_nat_add of_nat_Suc)
    then show ?thesis by (simp add: miplay_session_save_def)
  qed
  ultimately show thesis using that enc sd fr(3) wire unfolding q_def by blast
qed

definition msg_ok :: "nat \<Rightarrow> nat \<times> u16 \<times> byte list \<Rightarrow> bool" where
  "msg_ok N e \<longleftrightarrow> fst e < N \<and> length (snd (snd e)) \<le> 262100
     \<and> ucast (drop_bit 8 (fst (snd e))) \<in> {0x00 :: byte, 0x04, 0x14}"

definition of_slot :: "nat \<Rightarrow> (nat \<times> u16 \<times> byte list) list \<Rightarrow> (u16 \<times> byte list) list" where
  "of_slot i evs = map snd (filter (\<lambda>e. fst e = i) evs)"

lemma of_slot_simps [simp]:
  "of_slot i [] = []"
  "of_slot i ((j, m) # evs) = (if j = i then m # of_slot i evs else of_slot i evs)"
  by (simp_all add: of_slot_def)

definition table_ready :: "env \<Rightarrow> (nat \<Rightarrow> block_fun) \<Rightarrow> (nat \<Rightarrow> nat) \<Rightarrow> ctl \<Rightarrow> bool" where
  \<comment> \<open>every slot has a working cipher and a well-formed IV, and the sockets are distinct\<close>
  "table_ready env D k c \<longleftrightarrow> distinct (map ss_sock (s_sessions c))
     \<and> (\<forall>i<length (s_sessions c). cipher_ok (env_E env) (D i) (ss_aes_key (s_sessions c ! i))
          \<and> slot_ready (k i) (s_sessions c ! i))"

lemma table_ready_step:
  assumes "table_ready env D k c" "i < length (s_sessions c)" "length iv' = AES_BLOCK_LEN"
    and "s_sessions c' = (s_sessions c)[i := (s_sessions c ! i) \<lparr> ss_encrypt_iv := iv',
           ss_notify_seq := of_nat (8 + Suc (k i) mod 65528) \<rparr>]"
  shows "table_ready env D (k(i := Suc (k i))) c'"
proof -
  have "map ss_sock (s_sessions c') = map ss_sock (s_sessions c)"
    using assms(2,4) by (simp add: map_update list_update_id) (metis list_update_id nth_map)
  with assms show ?thesis
    by (auto simp: table_ready_def slot_ready_def nth_list_update)
qed

lemma sends_slot:
  assumes "net_ok env"
  shows "table_ready env D k c \<Longrightarrow> i < length (s_sessions c) \<Longrightarrow>
    list_all (msg_ok (length (s_sessions c))) evs \<Longrightarrow>
    \<exists>c' n' fs iv'. session_sends env evs (c, n) = (c', n') \<and> list_all frame_ok fs
      \<and> sent_to (ss_sock (s_sessions c ! i)) n' = sent_to (ss_sock (s_sessions c ! i)) n @ concat (map frame_bytes fs)
      \<and> map f_cmd fs = map fst (of_slot i evs)
      \<and> map f_seq fs = map (\<lambda>j. of_nat (8 + j mod 65528)) [k i..<k i + length (of_slot i evs)]
      \<and> send_seq (env_E env) (ss_aes_key (s_sessions c ! i)) ENCRYPT_BUF_LEN (ss_encrypt_iv (s_sessions c ! i))
          (map snd (of_slot i evs)) = Some (map f_payload fs, iv')"
proof (induction evs arbitrary: c n k)
  case Nil
  then show ?case by (simp add: session_sends_def)
next
  case (Cons e evs)
  obtain j cmd p where e: "e = (j, cmd, p)" by (cases e) auto
  from Cons.prems e have j: "j < length (s_sessions c)" and p: "length p \<le> 262100"
    and cj: "cipher_ok (env_E env) (D j) (ss_aes_key (s_sessions c ! j))" and rj: "slot_ready (k j) (s_sessions c ! j)"
    by (auto simp: table_ready_def msg_ok_def)
  obtain c1 n1 sd iv1 where st: "session_send env (j, cmd, p) (c, n) = (c1, n1)"
    and enc: "safety_encrypt (env_E env) True True p (ss_aes_key (s_sessions c ! j))
           (ss_encrypt_iv (s_sessions c ! j)) ENCRYPT_BUF_LEN = Some (sd, iv1)"
    and sd: "length sd \<le> MIPLAY_MAX_FRAME_PAYLOAD"
    and c1: "s_sessions c1 = (s_sessions c)[j := (s_sessions c ! j) \<lparr> ss_encrypt_iv := iv1,
           ss_notify_seq := of_nat (8 + Suc (k j) mod 65528) \<rparr>]"
    and iv1: "length iv1 = AES_BLOCK_LEN"
    and wire: "sent_to (ss_sock (s_sessions c ! j)) n1 = sent_to (ss_sock (s_sessions c ! j)) n
           @ frame_bytes \<lparr> f_cmd = cmd, f_seq = of_nat (8 + k j mod 65528), f_payload = sd \<rparr>"
    and other: "\<And>fd. fd \<noteq> ss_sock (s_sessions c ! j) \<Longrightarrow> sent_to fd n1 = sent_to fd n"
    by (rule session_send_step [OF assms cj j rj p, of cmd n]) blast
  let ?k = "k(j := Suc (k j))"
  have ready1: "table_ready env D ?k c1" by (rule table_ready_step [OF Cons.prems(1) j iv1 c1])
  have len: "length (s_sessions c1) = length (s_sessions c)" by (simp add: c1)
  with Cons.prems have "i < length (s_sessions c1)"
    "list_all (msg_ok (length (s_sessions c1))) evs" by auto
  from Cons.IH [OF ready1 this, of n1] obtain c' n' fs iv' where ih:
    "session_sends env evs (c1, n1) = (c', n')" "list_all frame_ok fs"
    "sent_to (ss_sock (s_sessions c1 ! i)) n' = sent_to (ss_sock (s_sessions c1 ! i)) n1 @ concat (map frame_bytes fs)"
    "map f_cmd fs = map fst (of_slot i evs)"
    "map f_seq fs = map (\<lambda>j. of_nat (8 + j mod 65528)) [?k i..<?k i + length (of_slot i evs)]"
    "send_seq (env_E env) (ss_aes_key (s_sessions c1 ! i)) ENCRYPT_BUF_LEN (ss_encrypt_iv (s_sessions c1 ! i))
       (map snd (of_slot i evs)) = Some (map f_payload fs, iv')" by blast
  have s: "session_sends env (e # evs) (c, n) = (c', n')" using st ih(1) by (simp add: session_sends_def e)
  show ?case
  proof (cases "j = i")
    case True
    let ?f = "\<lparr> f_cmd = cmd, f_seq = of_nat (8 + k i mod 65528), f_payload = sd \<rparr>"
    have "[k i..<k i + Suc (length (of_slot i evs))] = k i # [Suc (k i)..<Suc (k i) + length (of_slot i evs)]"
      by (simp add: upt_rec)
    moreover have "frame_ok ?f" using Cons.prems(3) sd by (simp add: frame_ok_def msg_ok_def e)
    ultimately show ?thesis using True s ih wire enc Cons.prems(2)
      by (intro exI [of _ c'] exI [of _ n'] exI [of _ "?f # fs"] exI [of _ iv'])
        (simp add: e c1 del: of_nat_add upt_Suc)
  next
    case False
    have "ss_sock (s_sessions c ! i) \<noteq> ss_sock (s_sessions c ! j)"
      using Cons.prems(1,2) j False by (auto simp: table_ready_def distinct_conv_nth)
    with False s ih other show ?thesis
      by (intro exI [of _ c'] exI [of _ n'] exI [of _ fs] exI [of _ iv']) (simp add: e c1)
  qed
qed

lemma drain_bytewise_fst: "map_option fst (drain frame_step buf) = map_option fst (drain frame_step1 buf)"
  using drain_bytewise [of buf]
  by (cases "drain frame_step buf"; cases "drain frame_step1 buf") (auto simp: same_outcome_def)

lemma feed_frames: "map_option fst (feed frame_step [] cs) = map_option fst (drain frame_step (concat cs))"
proof -
  have "frame_step1 [] = More" by (simp add: frame_step1_eq)
  from bytewise.feed_concat [OF this, of cs] show ?thesis
    using feed_bytewise [of "[]" "[]" cs] drain_bytewise_fst [of "concat cs"] by simp
qed

lemma drain_after_junk:
  assumes "\<forall>b\<in>set j. b \<noteq> MIPLAY_FRAME_MAGIC"
  shows "map_option fst (drain frame_step (j @ r)) = map_option fst (drain frame_step r)"
proof -
  have "same_outcome (drain frame_step1 (j @ r)) (drain frame_step1 r)" using assms by (intro drain_junk) blast
  then have "map_option fst (drain frame_step1 (j @ r)) = map_option fst (drain frame_step1 r)"
    by (cases "drain frame_step1 (j @ r)"; cases "drain frame_step1 r") (auto simp: same_outcome_def)
  then show ?thesis by (simp add: drain_bytewise_fst)
qed

subsection \<open>Properties\<close>

text \<open>C6: The receive loop does not depend on how TCP cuts the stream. Whatever bytes
  arrive, well formed or not, two ways of splitting them into received chunks deliver the
  same frames, and the loop always ends.\<close>

theorem frame_fragmentation:
  assumes "concat cs = concat cs'"
  shows "\<exists>fs. map_option fst (feed frame_step [] cs) = Some fs \<and> map_option fst (feed frame_step [] cs') = Some fs"
  using frames.returns [of "concat cs"] by (auto simp: feed_frames assms)

lemma frame_fragmentation_witness:
  "map_option fst (feed frame_step [] [[1, 2], [0x24, 0, 0x1A, 0, 7, 0, 0], [0, 1, 9, 5]])
     = Some [\<lparr> f_cmd = 0x1A, f_seq = 7, f_payload = [9] \<rparr>]"
proof -
  let ?f = "\<lparr> f_cmd = 0x1A, f_seq = 7, f_payload = [9] \<rparr>"
  have "\<exists>fs. map_option fst (feed frame_step [] [[1, 2], [0x24, 0, 0x1A, 0, 7, 0, 0], [0, 1, 9, 5]]) = Some fs
      \<and> map_option fst (feed frame_step [] [[1, 2] @ frame_bytes ?f @ [5]]) = Some fs"
    by (rule frame_fragmentation) (simp add: frame_bytes_def frame_hdr_eq)
  then obtain fs where
    a: "map_option fst (feed frame_step [] [[1, 2], [0x24, 0, 0x1A, 0, 7, 0, 0], [0, 1, 9, 5]]) = Some fs"
    and b: "map_option fst (feed frame_step [] [[1, 2] @ frame_bytes ?f @ [5]]) = Some fs" by blast
  have "frame_step [5] = More" "frame_ok ?f"
    by (simp_all add: frame_step_def frame_consts frame_ok_def)
  then have "drain frame_step (frame_bytes ?f @ [5]) = Some ([?f], [5])"
    using frame_step_bytes [of ?f "[5]"] by (simp add: drain_Take drain_More frame_bytes_def)
  then have "map_option fst (feed frame_step [] [[1, 2] @ frame_bytes ?f @ [5]]) = Some [?f]"
    using drain_after_junk [of "[1, 2]" "frame_bytes ?f @ [5]"] unfolding feed_frames
    by (simp add: MIPLAY_FRAME_MAGIC_def)
  with a b show ?thesis by metis
qed

text \<open>Frames survive the wire. Any sequence of frames of the three known outer types
  with payloads within the limit, sent one after the other, possibly after garbage without a
  magic byte, in any segmentation, is received as exactly that sequence: command, sequence
  number and payload.\<close>

theorem frame_roundtrip:
  assumes "list_all frame_ok fs" and "\<forall>b\<in>set junk. b \<noteq> MIPLAY_FRAME_MAGIC"
    and "concat cs = junk @ concat (map frame_bytes fs)"
  shows "map_option fst (feed frame_step [] cs) = Some fs"
  by (simp add: feed_frames assms(3) drain_after_junk [OF assms(2)] drain_frames [OF assms(1)])

lemma frame_roundtrip_witness:
  "map_option fst (feed frame_step [] [[1, 2, 0x24, 0, 0x36, 0, 3], [0, 0, 0, 0]])
     = Some [\<lparr> f_cmd = 0x36, f_seq = 3, f_payload = [] \<rparr>]"
  by (rule frame_roundtrip [of _ "[1, 2]"])
    (simp_all add: frame_ok_def frame_consts frame_bytes_def frame_hdr_eq)



text \<open>What \<open>miplay_send_cmd_raw\<close> leaves on the wire. Whatever \<open>send\<close> answers, the
  socket gets a prefix of the frame and the other sockets nothing; when the result is not
  negative it got the whole frame.\<close>

theorem send_cmd_raw_wire_prefix:
  assumes "miplay_send_cmd_raw env fd cmd sq p n = (r, n')"
  shows "\<exists>m. sent_to fd n' = sent_to fd n @ take m (frame_bytes \<lparr> f_cmd = cmd, f_seq = sq, f_payload = p \<rparr>)
    \<and> (0 \<le> r \<longrightarrow> take m (frame_bytes \<lparr> f_cmd = cmd, f_seq = sq, f_payload = p \<rparr>)
         = frame_bytes \<lparr> f_cmd = cmd, f_seq = sq, f_payload = p \<rparr>)
    \<and> (\<forall>k. k \<noteq> fd \<longrightarrow> sent_to k n' = sent_to k n)"
  by (rule send_cmd_raw_prefix [OF assms])

definition sample_env :: env where
  \<comment> \<open>\<open>send\<close> takes four bytes at most\<close>
  "sample_env = \<lparr> env_E = xor_cipher, env_D = xor_cipher, env_aes = (\<lambda>k. True), env_mem = (\<lambda>k. True),
     env_send = (\<lambda>k m. min 4 (int m)) \<rparr>"

lemma sample_env_ok: "net_ok sample_env"
  by (simp add: net_ok_def sample_env_def)

lemma send_cmd_raw_wire_prefix_witness:
  "\<exists>r n'. miplay_send_cmd_raw sample_env 5 0x1B 9 [1, 2] \<lparr> calls = 0, tx_log = [] \<rparr> = (r, n')
     \<and> sent_to 5 n' = [0x24, 0, 0x1B, 0, 9, 0, 0, 0, 2, 1, 2] \<and> sent_to 6 n' = []"
proof -
  obtain n' where r: "miplay_send_cmd_raw sample_env 5 0x1B 9 [1, 2] \<lparr> calls = 0, tx_log = [] \<rparr> = (11, n')"
    using send_cmd_raw_ok [OF sample_env_ok, of 5 "0x1B" 9 "[1, 2]"] by fastforce
  have empty: "sent_to k \<lparr> calls = 0, tx_log = [] \<rparr> = []" for k by (simp add: sent_to_def)
  from send_cmd_raw_wire_prefix [OF r]
  have "sent_to 5 n' = frame_bytes \<lparr> f_cmd = 0x1B, f_seq = 9, f_payload = [1, 2] \<rparr>" "sent_to 6 n' = []"
    by (auto simp: empty)
  with r show ?thesis by (simp add: frame_bytes_def frame_hdr_eq)
qed

text \<open>C5: Concurrent sessions do not disturb each other. Control messages of all
  connections are interleaved in any order, each loading its slot, drawing a number,
  encrypting and sending, and saving the slot. Then what any one socket received is a
  sequence of whole frames that carries that session's messages alone: in order, with the
  session's consecutive numbers, and its peer decrypts every one of them.\<close>

theorem interleaved_sessions_lossless:
  assumes "net_ok env" and "table_ready env D k c" and "i < length (s_sessions c)"
    and "list_all (msg_ok (length (s_sessions c))) evs" and "262100 \<le> rcap"
    and "session_sends env evs (c, n) = (c', n')" and "sent_to (ss_sock (s_sessions c ! i)) n = []"
  shows "\<exists>fs. drain frame_step (sent_to (ss_sock (s_sessions c ! i)) n') = Some (fs, [])
    \<and> map f_cmd fs = map fst (of_slot i evs)
    \<and> map f_seq fs = map (\<lambda>j. of_nat (8 + j mod 65528)) [k i..<k i + length (of_slot i evs)]
    \<and> fst (recv_seq (D i) (ss_aes_key (s_sessions c ! i)) rcap (ss_encrypt_iv (s_sessions c ! i)) (map f_payload fs))
        = map (Some \<circ> snd) (of_slot i evs)"
proof -
  let ?s = "s_sessions c ! i"
  from sends_slot [OF assms(1-4), of n] assms(6,7) obtain fs iv' where
    fs: "list_all frame_ok fs" "sent_to (ss_sock ?s) n' = concat (map frame_bytes fs)"
      "map f_cmd fs = map fst (of_slot i evs)"
      "map f_seq fs = map (\<lambda>j. of_nat (8 + j mod 65528)) [k i..<k i + length (of_slot i evs)]"
    and snd: "send_seq (env_E env) (ss_aes_key ?s) ENCRYPT_BUF_LEN (ss_encrypt_iv ?s)
      (map snd (of_slot i evs)) = Some (map f_payload fs, iv')" by auto
  have "list_all (\<lambda>m. length m \<le> rcap) (map snd (of_slot i evs))"
    using assms(4,5) by (force simp: list_all_iff of_slot_def msg_ok_def)
  moreover have "cipher_ok (env_E env) (D i) (ss_aes_key ?s)" "length (ss_encrypt_iv ?s) = AES_BLOCK_LEN"
    using assms(2,3) by (auto simp: table_ready_def slot_ready_def)
  moreover have "ENCRYPT_BUF_LEN < 2 ^ 32" by (simp add: ENCRYPT_BUF_LEN_def frame_consts safety_consts)
  ultimately have "recv_seq (D i) (ss_aes_key ?s) rcap (ss_encrypt_iv ?s) (map f_payload fs)
      = (map Some (map snd (of_slot i evs)), iv')" using snd by (intro recv_send_seq)
  with fs drain_frames [OF fs(1)] show ?thesis by (intro exI [of _ fs]) simp
qed

definition sample_table :: ctl where
  \<comment> \<open>two sessions with different keys\<close>
  "sample_table = ctl_init \<lparr> s_sessions :=
     [zero_session \<lparr> ss_in_use := True, ss_sock := 4, ss_aes_key := replicate 16 7, ss_notify_seq := 8 \<rparr>,
      zero_session \<lparr> ss_in_use := True, ss_sock := 5, ss_aes_key := replicate 16 9, ss_notify_seq := 8 \<rparr>] \<rparr>"

lemma interleaved_sessions_lossless_witness:
  "\<exists>c' n' fs. session_sends sample_env [(0, 0x22, [1]), (1, 0x22, [2, 2]), (0, 0x14, [])]
        (sample_table, \<lparr> calls = 0, tx_log = [] \<rparr>) = (c', n')
     \<and> drain frame_step (sent_to 4 n') = Some (fs, []) \<and> map f_cmd fs = [0x22, 0x14] \<and> map f_seq fs = [8, 9]
     \<and> fst (recv_seq xor_cipher (replicate 16 7) 262144 (replicate 16 0) (map f_payload fs)) = [Some [1], Some []]"
proof -
  let ?evs = "[(0, 0x22, [1]), (1, 0x22, [2, 2]), (0, 0x14, [])] :: (nat \<times> u16 \<times> byte list) list"
  obtain c' n' where s: "session_sends sample_env ?evs (sample_table, \<lparr> calls = 0, tx_log = [] \<rparr>) = (c', n')"
    by fastforce
  have ready: "table_ready sample_env (\<lambda>i. xor_cipher) (\<lambda>i. 0) sample_table"
    by (auto simp: table_ready_def sample_table_def sample_env_def slot_ready_def zero_session_def AES_BLOCK_LEN_def
        less_Suc_eq intro!: xor_cipher_ok)
  have "0 < length (s_sessions sample_table)" "list_all (msg_ok (length (s_sessions sample_table))) ?evs"
    "sent_to (ss_sock (s_sessions sample_table ! 0)) \<lparr> calls = 0, tx_log = [] \<rparr> = []" "(262100 :: nat) \<le> 262144"
    by (simp_all add: sample_table_def msg_ok_def sent_to_def)
  from interleaved_sessions_lossless [OF sample_env_ok ready this(1,2,4) s this(3)] s show ?thesis
    by (intro exI [of _ c'] exI [of _ n']) (auto simp: sample_table_def zero_session_def upt_rec)
qed

end
