(* ===== verification/Opack.thy ===== *)
theory Opack
  imports Cstring Streams
begin

text \<open>
  The OPack-like fields of media notifications (\<open>miplay.c\<close>: \<open>opack_u32_be\<close> to
  \<open>opack_string_to_int\<close>, \<open>opack_write_label\<close>, \<open>opack_write_string_field\<close>): a length byte
  and a label, a type byte, a value. A reader gets the buffer, the number \<open>len\<close> of bytes
  it may read (the buffer can be longer: it is the receive buffer, or the enclosing object)
  and an offset; it returns the new offset, or \<open>None\<close> for false. A label or string is a C
  string for its users, so it ends at its first NUL. \<open>size_t\<close> has 32 bits.
\<close>

datatype opack_value = OInt u64 | OStr "byte list" | OObj

definition opack_u32_be :: "byte list \<Rightarrow> nat \<Rightarrow> u32" where
  "opack_u32_be p i = rd32 p i"

definition opack_u64_be :: "byte list \<Rightarrow> nat \<Rightarrow> u64" where
  "opack_u64_be p i = foldl (\<lambda>v k. push_bit 8 v OR ucast (p ! (i + k))) 0 [0..<8]"

definition opack_read_label :: "byte list \<Rightarrow> nat \<Rightarrow> nat \<Rightarrow> nat \<Rightarrow> (byte list \<times> nat) option" where
  "opack_read_label data len off label_size =
     (if len \<le> off then None
      else let label_len = unat (data ! off); off1 = off + 1
           in if label_len = 0 \<or> len - off1 < label_len then None
              else Some (cstr (take (min label_len (label_size - 1)) (drop off1 data)), off1 + label_len))"

definition opack_read_value :: "byte list \<Rightarrow> nat \<Rightarrow> nat \<Rightarrow> nat \<Rightarrow> (opack_value \<times> nat) option" where
  "opack_read_value data len off string_size =
     (if len \<le> off then None
      else let value_type = data ! off; off1 = off + 1
           in if value_type = 0x03 then
                (if len \<le> off1 then None else Some (OInt (ucast (data ! off1)), off1 + 1))
              else if value_type = 0x06 \<or> value_type = 0x07 then
                (if len - off1 < 4 then None else Some (OInt (ucast (opack_u32_be data off1)), off1 + 4))
              else if value_type = 0x09 then
                (if len - off1 < 8 then None else Some (OInt (opack_u64_be data off1), off1 + 8))
              else if value_type = 0x14 then
                (if len - off1 < 4 then None
                 else let value_len = unat (opack_u32_be data off1); off2 = off1 + 4
                      in if len - off2 < value_len then None
                         else Some (OStr (cstr (take (min value_len (string_size - 1)) (drop off2 data))),
                                off2 + value_len))
              else if value_type = 0x16 then
                (if len - off1 < 4 then None
                 else let object_len = unat (opack_u32_be data off1); off2 = off1 + 4
                      in if len - off2 < object_len then None else Some (OObj, off2 + object_len))
              else None)"

definition opack_integer_to_int :: "u64 \<Rightarrow> int" where
  "opack_integer_to_int v = (if 0x7fffffff < v then 0x7fffffff else uint v)"

definition opack_string_to_int :: "byte list \<Rightarrow> int" where
  "opack_string_to_int s =
     (if s = [] then 0
      else case strtoull s of (parsed, used) \<Rightarrow> if used = 0 then 0 else opack_integer_to_int parsed)"

text \<open>A writer gets the bytes written so far (their number is \<open>*offset\<close>) and the capacity
  of the buffer. The room left is computed in \<open>size_t\<close>, as the code does.\<close>

definition opack_write_label :: "nat \<Rightarrow> byte list \<Rightarrow> byte list \<Rightarrow> byte list option" where
  "opack_write_label capacity out label =
     (let label_len = length label; offset = length out
      in if label_len = 0 \<or> 255 < label_len \<or> capacity < offset
            \<or> unat (of_nat capacity - of_nat offset - 1 :: u32) < label_len
         then None
         else Some (out @ of_nat label_len # label))"

definition opack_write_string_field :: "nat \<Rightarrow> byte list \<Rightarrow> byte list \<Rightarrow> byte list \<Rightarrow> byte list option" where
  "opack_write_string_field capacity out name value =
     (case opack_write_label capacity out name of
        None \<Rightarrow> None
      | Some out1 \<Rightarrow>
          let value_len = length value; offset = length out1
          in if capacity < offset \<or> capacity - offset < 5 \<or> capacity - offset - 5 < value_len then None
             else Some (out1 @ [0x14] @ be32 (of_nat value_len) @ value))"

subsection \<open>Readers stay inside their bytes\<close>

lemma rd32_take: "i + 4 \<le> n \<Longrightarrow> rd32 (take n p) i = rd32 p i"
  by (simp add: rd32_def)

lemma opack_u64_take: "i + 8 \<le> n \<Longrightarrow> opack_u64_be (take n p) i = opack_u64_be p i"
  unfolding opack_u64_be_def by (rule foldl_cong) auto

lemma take_inside: "i + k \<le> n \<Longrightarrow> take k (drop i (take n p)) = take k (drop i p)"
  by (simp add: drop_take min_def)

lemma read_label_local: "opack_read_label (take len data) len off sz = opack_read_label data len off sz"
proof (cases "len \<le> off")
  case False
  moreover have "take (min (unat (data ! off)) (sz - 1)) (drop (off + 1) (take len data))
      = take (min (unat (data ! off)) (sz - 1)) (drop (off + 1) data)"
    if "unat (data ! off) \<le> len - (off + 1)"
    using that False by (intro take_inside) auto
  ultimately show ?thesis by (auto simp: opack_read_label_def Let_def not_less simp del: drop_take)
qed (simp add: opack_read_label_def)

lemma read_value_local: "opack_read_value (take len data) len off sz = opack_read_value data len off sz"
proof (cases "len \<le> off")
  case False
  have str: "take (min k (sz - 1)) (drop (off + 1 + 4) (take len data)) = take (min k (sz - 1)) (drop (off + 1 + 4) data)"
    if "k \<le> len - (off + 1 + 4)" "4 \<le> len - (off + 1)" for k
    using that by (intro take_inside) auto
  have w: "rd32 (take len data) (off + 1) = rd32 data (off + 1)" if "4 \<le> len - (off + 1)"
    using that by (intro rd32_take) auto
  have d: "opack_u64_be (take len data) (off + 1) = opack_u64_be data (off + 1)" if "8 \<le> len - (off + 1)"
    using that by (intro opack_u64_take) auto
  from False show ?thesis
    using str w d
    by (auto simp: opack_read_value_def Let_def opack_u32_be_def not_less not_le simp del: drop_take)
qed (simp add: opack_read_value_def)

lemma read_label_bounds: "opack_read_label data len off sz = Some (l, off') \<Longrightarrow> off + 2 \<le> off' \<and> off' \<le> len"
  by (auto simp: opack_read_label_def Let_def split: if_splits)

lemma read_value_bounds: "opack_read_value data len off sz = Some (v, off') \<Longrightarrow> off + 2 \<le> off' \<and> off' \<le> len"
  by (auto simp: opack_read_value_def Let_def split: if_splits)

lemma cstr_le: "length (cstr s) \<le> length s"
  by (simp add: cstr_def length_takeWhile_le)

lemma read_label_length: "0 < sz \<Longrightarrow> opack_read_label data len off sz = Some (l, off') \<Longrightarrow> length l < sz"
  using cstr_le [of "take (min (unat (data ! off)) (sz - 1)) (drop (off + 1) data)"]
  by (auto simp: opack_read_label_def Let_def split: if_splits)

subsection \<open>Fields\<close>

definition MIPLAY_COVER_SOURCE_MAX :: nat where "MIPLAY_COVER_SOURCE_MAX = 64 * 1024"

definition opack_read_field :: "byte list \<Rightarrow> nat \<Rightarrow> nat \<Rightarrow> ((byte list \<times> opack_value) \<times> nat) option" where
  \<comment> \<open>one round of the field loops: a label of at most 63 bytes, then a value\<close>
  "opack_read_field data len off =
     (case opack_read_label data len off 64 of
        None \<Rightarrow> None
      | Some (name, off1) \<Rightarrow>
          (case opack_read_value data len off1 MIPLAY_COVER_SOURCE_MAX of
             None \<Rightarrow> None
           | Some (v, off2) \<Rightarrow> Some ((name, v), off2)))"

lemma read_field_bounds: "opack_read_field data len off = Some (f, off') \<Longrightarrow> off + 4 \<le> off' \<and> off' \<le> len"
  by (auto simp: opack_read_field_def dest!: read_label_bounds read_value_bounds split: option.splits)

lemma read_field_local: "opack_read_field (take len data) len off = opack_read_field data len off"
  by (simp add: opack_read_field_def read_label_local read_value_local split: option.split)

function opack_fields :: "('s \<Rightarrow> byte list \<times> opack_value \<Rightarrow> 's) \<Rightarrow> byte list \<Rightarrow> nat \<Rightarrow> nat \<Rightarrow> 's \<Rightarrow> 's \<times> bool" where
  \<comment> \<open>\<open>while (offset < len)\<close>: apply each field; false when one is malformed\<close>
  "opack_fields act data len off st =
     (if off < len then
        case opack_read_field data len off of
          None \<Rightarrow> (st, False)
        | Some (f, off1) \<Rightarrow> opack_fields act data len off1 (act st f)
      else (st, True))"
  by pat_completeness auto
termination
  by (relation "measure (\<lambda>(act, data, len, off, st). len - off)") (auto dest!: read_field_bounds)

declare opack_fields.simps [simp del]

lemma opack_fields_local: "opack_fields act (take len data) len off st = opack_fields act data len off st"
proof (induction act data len off st rule: opack_fields.induct)
  case (1 act data len off st)
  show ?case
    using 1 by (subst (1 2) opack_fields.simps) (auto simp: read_field_local split: option.splits)
qed

subsection \<open>What is written is read back\<close>

definition field_bytes :: "byte list \<times> byte list \<Rightarrow> byte list" where
  "field_bytes = (\<lambda>(name, value).
     of_nat (length name) # name @ [0x14] @ be32 (of_nat (length value)) @ value)"

definition field_ok :: "byte list \<times> byte list \<Rightarrow> bool" where
  "field_ok = (\<lambda>(name, value). name \<noteq> [] \<and> length name < 64 \<and> length value < MIPLAY_COVER_SOURCE_MAX
     \<and> 0 \<notin> set name \<and> 0 \<notin> set value)"

definition field_dec :: "byte list \<Rightarrow> ((byte list \<times> byte list) \<times> byte list) option" where
  "field_dec bs = (case opack_read_field bs (length bs) 0 of
     Some ((name, OStr value), off) \<Rightarrow> Some ((name, value), drop off bs) | _ \<Rightarrow> None)"

lemma cstr_id: "0 \<notin> set s \<Longrightarrow> cstr s = s"
  by (auto simp: cstr_def takeWhile_eq_all_conv)

lemma read_label_at:
  assumes "length pre = off" "name \<noteq> []" "length name < sz" "length name < 256" "0 \<notin> set name"
    and "off + 1 + length name \<le> len"
  shows "opack_read_label (pre @ of_nat (length name) # name @ post) len off sz = Some (name, off + 1 + length name)"
proof -
  have u: "unat (of_nat (length name) :: byte) = length name" using assms(4) by (simp add: unat_of_nat)
  show ?thesis
    using assms by (simp add: opack_read_label_def Let_def u nth_append min_def cstr_id not_le)
qed

lemma read_string_at:
  assumes "length pre = off" "length value < sz" "length value < 2 ^ 32" "0 \<notin> set value"
    and "off + 5 + length value \<le> len"
  shows "opack_read_value (pre @ 0x14 # be32 (of_nat (length value)) @ value @ post) len off sz
    = Some (OStr value, off + 5 + length value)"
proof -
  have u: "unat (of_nat (length value) :: u32) = length value" using assms(3) by (simp add: unat_of_nat)
  have "rd32 ((pre @ [0x14]) @ be32 (of_nat (length value)) @ value @ post) (off + 1) = of_nat (length value)"
    using assms(1) by (intro rd32_be32) simp
  moreover have "drop (off + 5) (pre @ 0x14 # be32 (of_nat (length value)) @ value @ post) = value @ post"
    using assms(1) by simp
  ultimately show ?thesis
    using assms by (auto simp: opack_read_value_def opack_u32_be_def Let_def u nth_append min_def cstr_id
        add.assoc [symmetric] not_le)
qed

lemma read_field_at:
  assumes "field_ok (name, value)" "length pre = off"
    and "off + length (field_bytes (name, value)) \<le> len"
  shows "opack_read_field (pre @ field_bytes (name, value) @ post) len off
    = Some ((name, OStr value), off + length (field_bytes (name, value)))"
proof -
  let ?n = "of_nat (length name) # name" and ?v = "0x14 # be32 (of_nat (length value)) @ value"
  from assms(1) have ok: "name \<noteq> []" "length name < 64" "length value < 65536" "0 \<notin> set name" "0 \<notin> set value"
    by (simp_all add: field_ok_def MIPLAY_COVER_SOURCE_MAX_def)
  have len: "length (field_bytes (name, value)) = length name + length value + 6" by (simp add: field_bytes_def)
  have "opack_read_label (pre @ of_nat (length name) # name @ ?v @ post) len off 64 = Some (name, off + 1 + length name)"
    using ok assms(2,3) len by (intro read_label_at) auto
  moreover have "opack_read_value ((pre @ ?n) @ 0x14 # be32 (of_nat (length value)) @ value @ post) len
      (off + 1 + length name) MIPLAY_COVER_SOURCE_MAX = Some (OStr value, off + 1 + length name + 5 + length value)"
    using ok assms(2,3) len by (intro read_string_at) (auto simp: MIPLAY_COVER_SOURCE_MAX_def)
  ultimately show ?thesis
    by (simp add: opack_read_field_def field_bytes_def)
qed

interpretation fields: codec field_bytes field_dec field_ok
proof
  show "field_dec (field_bytes f @ x) = Some (f, x)" if "field_ok f" for f x
    using that read_field_at [of "fst f" "snd f" "[]" 0 "length (field_bytes f @ x)" x]
    by (simp add: field_dec_def)
  show "field_bytes f \<noteq> []" for f by (simp add: field_bytes_def split: prod.splits)
qed

lemma opack_fields_written:
  "list_all field_ok fs \<Longrightarrow> length pre = off \<Longrightarrow>
   opack_fields act (pre @ concat (map field_bytes fs) @ post) (off + length (concat (map field_bytes fs))) off st
     = (foldl act st (map (\<lambda>(n, v). (n, OStr v)) fs), True)"
proof (induction fs arbitrary: pre off st)
  case Nil
  then show ?case by (simp add: opack_fields.simps)
next
  case (Cons f fs)
  obtain n v where f: "f = (n, v)" by fastforce
  let ?len = "off + length (concat (map field_bytes (f # fs)))"
  have rd: "opack_read_field (pre @ field_bytes (n, v) @ concat (map field_bytes fs) @ post) ?len off
      = Some ((n, OStr v), off + length (field_bytes (n, v)))"
    using Cons.prems by (intro read_field_at) (auto simp: f)
  have "opack_fields act ((pre @ field_bytes f) @ concat (map field_bytes fs) @ post)
      (off + length (field_bytes f) + length (concat (map field_bytes fs))) (off + length (field_bytes f)) (act st (n, OStr v))
    = (foldl act (act st (n, OStr v)) (map (\<lambda>(n, v). (n, OStr v)) fs), True)"
    using Cons.prems by (intro Cons.IH) auto
  moreover have "off < ?len" by (simp add: f field_bytes_def)
  ultimately show ?case using rd by (subst opack_fields.simps) (simp add: f add.assoc)
qed

lemma write_field_bytes:
  assumes "name \<noteq> []" "length name \<le> 255" "capacity < 2 ^ 32" "length out + length (field_bytes (name, value)) \<le> capacity"
  shows "opack_write_string_field capacity out name value = Some (out @ field_bytes (name, value))"
proof -
  have len: "length (field_bytes (name, value)) = length name + length value + 6" by (simp add: field_bytes_def)
  with assms have "of_nat capacity - of_nat (length out) - 1 = (of_nat (capacity - length out - 1) :: u32)"
    by (simp add: of_nat_diff)
  then have "unat (of_nat capacity - of_nat (length out) - 1 :: u32) = capacity - length out - 1"
    using assms(3) by (simp only: unat_of_nat) simp
  with assms len show ?thesis
    by (auto simp: opack_write_string_field_def opack_write_label_def Let_def field_bytes_def)
qed

end
