(* ===== verification/Media.thy ===== *)
theory Media
  imports Opack Frame
begin

text \<open>
  Media metadata and playback state (\<open>miplay.c\<close>: \<open>miplay_wire_state_to_player\<close> to
  \<open>miplay_notify_empty_media_info_ex\<close>; \<open>miplay.h\<close>: \<open>miplay_media_event_t\<close>). A notification
  is parsed into an event; emitting an event copies the fields it carries into the
  snapshot \<open>s_media_*\<close> and hands the event to the application. The phone's position
  heartbeats are turned into playing/paused events.

  The snapshot and the position hint are the record \<open>media\<close>; \<open>s_media_paused\<close> and
  \<open>s_media_generation\<close> are part of \<open>ctl\<close>. \<open>cb_log\<close> lists the events the callback got.
  \<open>int64_t\<close> values are integers (the conversions from 64-bit words are explicit).
\<close>

definition MIPLAY_MEDIA_CHANGED_ID :: u32 where "MIPLAY_MEDIA_CHANGED_ID = push_bit 0 1"
definition MIPLAY_MEDIA_CHANGED_AUDIO_ID :: u32 where "MIPLAY_MEDIA_CHANGED_AUDIO_ID = push_bit 1 1"
definition MIPLAY_MEDIA_CHANGED_TITLE :: u32 where "MIPLAY_MEDIA_CHANGED_TITLE = push_bit 2 1"
definition MIPLAY_MEDIA_CHANGED_ARTIST :: u32 where "MIPLAY_MEDIA_CHANGED_ARTIST = push_bit 3 1"
definition MIPLAY_MEDIA_CHANGED_ALBUM :: u32 where "MIPLAY_MEDIA_CHANGED_ALBUM = push_bit 4 1"
definition MIPLAY_MEDIA_CHANGED_COVER_URL :: u32 where "MIPLAY_MEDIA_CHANGED_COVER_URL = push_bit 5 1"
definition MIPLAY_MEDIA_CHANGED_DURATION :: u32 where "MIPLAY_MEDIA_CHANGED_DURATION = push_bit 6 1"
definition MIPLAY_MEDIA_CHANGED_POSITION :: u32 where "MIPLAY_MEDIA_CHANGED_POSITION = push_bit 7 1"
definition MIPLAY_MEDIA_CHANGED_STATUS :: u32 where "MIPLAY_MEDIA_CHANGED_STATUS = push_bit 8 1"
definition MIPLAY_MEDIA_CHANGED_DEVICE_STATE :: u32 where "MIPLAY_MEDIA_CHANGED_DEVICE_STATE = push_bit 9 1"
definition MIPLAY_MEDIA_CHANGED_PLAYER_STATE :: u32 where "MIPLAY_MEDIA_CHANGED_PLAYER_STATE = push_bit 10 1"

lemmas changed_bits = MIPLAY_MEDIA_CHANGED_ID_def MIPLAY_MEDIA_CHANGED_AUDIO_ID_def MIPLAY_MEDIA_CHANGED_TITLE_def
  MIPLAY_MEDIA_CHANGED_ARTIST_def MIPLAY_MEDIA_CHANGED_ALBUM_def MIPLAY_MEDIA_CHANGED_COVER_URL_def
  MIPLAY_MEDIA_CHANGED_DURATION_def MIPLAY_MEDIA_CHANGED_POSITION_def MIPLAY_MEDIA_CHANGED_STATUS_def
  MIPLAY_MEDIA_CHANGED_DEVICE_STATE_def MIPLAY_MEDIA_CHANGED_PLAYER_STATE_def

definition MIPLAY_PLAYER_STATE_UNKNOWN :: int where "MIPLAY_PLAYER_STATE_UNKNOWN = -1"
definition MIPLAY_PLAYER_STATE_STOPPED :: int where "MIPLAY_PLAYER_STATE_STOPPED = 0"
definition MIPLAY_PLAYER_STATE_PLAYING :: int where "MIPLAY_PLAYER_STATE_PLAYING = 1"
definition MIPLAY_PLAYER_STATE_PAUSED :: int where "MIPLAY_PLAYER_STATE_PAUSED = 2"

lemmas player_states = MIPLAY_PLAYER_STATE_UNKNOWN_def MIPLAY_PLAYER_STATE_STOPPED_def
  MIPLAY_PLAYER_STATE_PLAYING_def MIPLAY_PLAYER_STATE_PAUSED_def

definition has_bit :: "u32 \<Rightarrow> u32 \<Rightarrow> bool" where
  "has_bit changed m \<longleftrightarrow> changed AND m \<noteq> 0"

record media_event =
  ev_changed :: u32
  ev_id :: "byte list"
  ev_audio_id :: "byte list"
  ev_title :: "byte list"
  ev_artist :: "byte list"
  ev_album :: "byte list"
  ev_cover_url :: "byte list"
  ev_duration_ms :: int
  ev_position_ms :: int
  ev_status :: int
  ev_device_state :: int
  ev_player_state :: int

record media =
  s_media_id :: "byte list"
  s_media_audio_id :: "byte list"
  s_media_title :: "byte list"
  s_media_artist :: "byte list"
  s_media_album :: "byte list"
  s_media_cover_url :: "byte list"
  s_media_duration :: u32
  s_media_position :: u64
  s_media_status :: int
  s_media_device_state :: int
  s_position_hint_last_ms :: int
  s_position_hint_last_rx_us :: int
  s_position_hint_generation :: u32
  s_position_hint_stalled_ticks :: byte
  s_media_info_query_last_us :: int
  s_media_cb :: bool \<comment> \<open>a callback is registered\<close>
  cb_log :: "media_event list"

definition miplay_wire_state_to_player :: "int \<Rightarrow> int" where
  "miplay_wire_state_to_player state =
     (if state = 2 then MIPLAY_PLAYER_STATE_PLAYING
      else if state = 3 then MIPLAY_PLAYER_STATE_PAUSED
      else if state = 0 then MIPLAY_PLAYER_STATE_STOPPED
      else MIPLAY_PLAYER_STATE_UNKNOWN)"

definition miplay_media_event_init :: media_event where
  "miplay_media_event_init = \<lparr> ev_changed = 0, ev_id = [], ev_audio_id = [], ev_title = [], ev_artist = [],
     ev_album = [], ev_cover_url = [], ev_duration_ms = 0, ev_position_ms = 0, ev_status = -1,
     ev_device_state = -1, ev_player_state = -1 \<rparr>"

definition miplay_media_event_reset_control :: "media_event \<Rightarrow> media_event" where
  "miplay_media_event_reset_control e = e \<lparr> ev_changed := 0, ev_position_ms := 0, ev_duration_ms := 0,
     ev_status := -1, ev_device_state := -1, ev_player_state := MIPLAY_PLAYER_STATE_UNKNOWN,
     ev_id := [], ev_audio_id := [], ev_title := [], ev_artist := [], ev_album := [], ev_cover_url := [] \<rparr>"

subsection \<open>Fields of a notification\<close>

definition name_is :: "byte list \<Rightarrow> string list \<Rightarrow> bool" where
  \<comment> \<open>\<open>miplay_media_name_is\<close> and the \<open>strcmp\<close> beside it\<close>
  "name_is name names \<longleftrightarrow> list_ex (\<lambda>n. name = str n) names"

definition apply_device_state :: "int \<Rightarrow> media_event \<Rightarrow> media_event" where
  "apply_device_state d e =
     (let ps = miplay_wire_state_to_player d; ch = ev_changed e OR MIPLAY_MEDIA_CHANGED_DEVICE_STATE
      in e \<lparr> ev_device_state := d, ev_player_state := ps,
             ev_changed := (if ps \<noteq> MIPLAY_PLAYER_STATE_UNKNOWN then ch OR MIPLAY_MEDIA_CHANGED_PLAYER_STATE else ch) \<rparr>)"

definition miplay_apply_media_field :: "byte list \<Rightarrow> opack_value \<Rightarrow> media_event \<Rightarrow> bool \<times> media_event" where
  "miplay_apply_media_field name v e =
    (case v of
       OObj \<Rightarrow> (False, e)
     | OStr s \<Rightarrow>
         if name_is name [''id'', ''mediaId'', ''mId'', ''media_id'']
         then (True, e \<lparr> ev_id := copy_text 64 s, ev_changed := ev_changed e OR MIPLAY_MEDIA_CHANGED_ID \<rparr>)
         else if name_is name [''mAudioId'', ''audioId'', ''audio_id'']
         then (True, e \<lparr> ev_audio_id := copy_text 64 s, ev_changed := ev_changed e OR MIPLAY_MEDIA_CHANGED_AUDIO_ID \<rparr>)
         else if name_is name [''mTitle'', ''title'', ''songName'']
         then (True, e \<lparr> ev_title := copy_text 128 s, ev_changed := ev_changed e OR MIPLAY_MEDIA_CHANGED_TITLE \<rparr>)
         else if name_is name [''mArtist'', ''artist'', ''singer'']
         then (True, e \<lparr> ev_artist := copy_text 128 s, ev_changed := ev_changed e OR MIPLAY_MEDIA_CHANGED_ARTIST \<rparr>)
         else if name_is name [''mAlbum'', ''album'']
         then (True, e \<lparr> ev_album := copy_text 128 s, ev_changed := ev_changed e OR MIPLAY_MEDIA_CHANGED_ALBUM \<rparr>)
         else if name_is name [''mCoverUrl'', ''coverUrl'', ''cover'', ''mArt'', ''artwork'', ''artworkUrl'',
             ''albumArt'', ''albumArtURI'', ''albumArtUrl'', ''cover_url'', ''art'']
         then (True, e \<lparr> ev_cover_url := copy_text MIPLAY_COVER_SOURCE_MAX s,
                         ev_changed := ev_changed e OR MIPLAY_MEDIA_CHANGED_COVER_URL \<rparr>)
         else if name_is name [''mDuration'', ''duration'', ''durationMs'', ''duration_ms'']
         then (True, e \<lparr> ev_duration_ms := sint (fst (strtoull s)),
                         ev_changed := ev_changed e OR MIPLAY_MEDIA_CHANGED_DURATION \<rparr>)
         else if name_is name [''mPosition'', ''position'', ''positionMs'', ''position_ms'']
         then (True, e \<lparr> ev_position_ms := sint (fst (strtoull s)),
                         ev_changed := ev_changed e OR MIPLAY_MEDIA_CHANGED_POSITION \<rparr>)
         else if name_is name [''status'', ''playStatus'']
         then (True, e \<lparr> ev_status := opack_string_to_int s,
                         ev_changed := ev_changed e OR MIPLAY_MEDIA_CHANGED_STATUS \<rparr>)
         else if name_is name [''mDeviceState'', ''deviceState'', ''state'', ''setState'', ''mediaState'', ''playState'']
         then (True, apply_device_state (opack_string_to_int s) e)
         else (False, e)
     | OInt i \<Rightarrow>
         if name_is name [''mDuration'', ''duration'', ''durationMs'', ''duration_ms'']
         then (True, e \<lparr> ev_duration_ms := sint i, ev_changed := ev_changed e OR MIPLAY_MEDIA_CHANGED_DURATION \<rparr>)
         else if name_is name [''mPosition'', ''position'', ''positionMs'', ''position_ms'']
         then (True, e \<lparr> ev_position_ms := sint i, ev_changed := ev_changed e OR MIPLAY_MEDIA_CHANGED_POSITION \<rparr>)
         else if name_is name [''status'', ''playStatus'']
         then (True, e \<lparr> ev_status := opack_integer_to_int i,
                         ev_changed := ev_changed e OR MIPLAY_MEDIA_CHANGED_STATUS \<rparr>)
         else if name_is name [''mDeviceState'', ''deviceState'', ''state'', ''setState'', ''mediaState'', ''playState'']
         then (True, apply_device_state (opack_integer_to_int i) e)
         else (False, e))"

definition apply_field :: "bool \<times> media_event \<Rightarrow> byte list \<times> opack_value \<Rightarrow> bool \<times> media_event" where
  \<comment> \<open>whether some field was recognised, and the event\<close>
  "apply_field st f =
     (let (ok, e) = miplay_apply_media_field (fst f) (snd f) (snd st) in (fst st \<or> ok, e))"

text \<open>\<open>event\<close> is the caller's event, left alone unless the parse succeeds; \<open>mem\<close> says
  whether the scratch event and string are allocated.\<close>

definition miplay_parse_media_info_ex :: "bool \<Rightarrow> byte list \<Rightarrow> nat \<Rightarrow> media_event option" where
  "miplay_parse_media_info_ex mem payload payload_len =
     (case opack_read_label payload payload_len 0 32 of
        None \<Rightarrow> None
      | Some (root, off) \<Rightarrow>
          if root \<noteq> str ''mediaInfoEx'' \<or> payload_len - off < 1 then None
          else if payload ! off \<noteq> 0x16 \<or> payload_len - (off + 1) < 4 then None
          else
            let object_len = unat (opack_u32_be payload (off + 1)); start = off + 1 + 4
            in if payload_len - start < object_len then None
               else if \<not> mem then None
               else case opack_fields apply_field payload (start + object_len) start (False, miplay_media_event_init) of
                      ((_, parsed), ok) \<Rightarrow> if ok \<and> ev_changed parsed \<noteq> 0 then Some parsed else None)"

definition miplay_parse_notify_payload :: "bool \<Rightarrow> byte list \<Rightarrow> nat \<Rightarrow> media_event \<Rightarrow> bool \<times> media_event" where
  "miplay_parse_notify_payload mem payload payload_len event =
     (if payload_len = 0 then (False, event)
      else case miplay_parse_media_info_ex mem payload payload_len of
        Some e \<Rightarrow> (True, e)
      | None \<Rightarrow>
          (case opack_read_label payload payload_len 0 32 of
             None \<Rightarrow> (False, event)
           | Some (root, off) \<Rightarrow>
               if \<not> mem then (False, event)
               else case opack_read_value payload payload_len off MIPLAY_COVER_SOURCE_MAX of
                      None \<Rightarrow> (False, event)
                    | Some (v, off1) \<Rightarrow>
                        (case opack_fields apply_field payload payload_len off1 (apply_field (False, event) (root, v)) of
                           ((recognized, e), ok) \<Rightarrow> (ok \<and> recognized \<and> ev_changed e \<noteq> 0, e))))"

subsection \<open>The snapshot\<close>

definition clamp_duration :: "int \<Rightarrow> u32" where
  "clamp_duration d = (if 0xFFFFFFFF < d then 0xFFFFFFFF else word_of_int (if d < 0 then 0 else d))"

definition event_wire_state :: "media_event \<Rightarrow> int" where
  "event_wire_state e =
     (if ev_device_state e < 0
      then if ev_player_state e = MIPLAY_PLAYER_STATE_PLAYING then 2
           else if ev_player_state e = MIPLAY_PLAYER_STATE_PAUSED then 3 else 0
      else ev_device_state e)"

definition snapshot :: "u32 \<Rightarrow> media_event \<Rightarrow> media \<Rightarrow> media" where
  \<comment> \<open>the copies of \<open>miplay_emit_media_event\<close>, each under its condition\<close>
  "snapshot ch e m = m \<lparr>
     s_media_id := (if has_bit ch MIPLAY_MEDIA_CHANGED_ID \<and> ev_id e \<noteq> [] then copy_text 64 (ev_id e) else s_media_id m),
     s_media_audio_id := (if has_bit ch MIPLAY_MEDIA_CHANGED_AUDIO_ID \<and> ev_audio_id e \<noteq> []
       then copy_text 64 (ev_audio_id e) else s_media_audio_id m),
     s_media_title := (if has_bit ch MIPLAY_MEDIA_CHANGED_TITLE \<and> ev_title e \<noteq> []
       then copy_text 128 (ev_title e) else s_media_title m),
     s_media_artist := (if has_bit ch MIPLAY_MEDIA_CHANGED_ARTIST \<and> ev_artist e \<noteq> []
       then copy_text 128 (ev_artist e) else s_media_artist m),
     s_media_album := (if has_bit ch MIPLAY_MEDIA_CHANGED_ALBUM \<and> ev_album e \<noteq> []
       then copy_text 128 (ev_album e) else s_media_album m),
     s_media_cover_url := (if has_bit ch MIPLAY_MEDIA_CHANGED_COVER_URL \<and> ev_cover_url e \<noteq> []
       then copy_text MIPLAY_COVER_SOURCE_MAX (ev_cover_url e) else s_media_cover_url m),
     s_media_duration := (if has_bit ch MIPLAY_MEDIA_CHANGED_DURATION \<and> 0 < ev_duration_ms e
       then clamp_duration (ev_duration_ms e) else s_media_duration m),
     s_media_position := (if has_bit ch MIPLAY_MEDIA_CHANGED_POSITION
       then if ev_position_ms e < 0 then 0 else word_of_int (ev_position_ms e) else s_media_position m),
     s_media_status := (if has_bit ch MIPLAY_MEDIA_CHANGED_STATUS then ev_status e
       else if has_bit ch MIPLAY_MEDIA_CHANGED_PLAYER_STATE then event_wire_state e else s_media_status m),
     s_media_device_state := (if has_bit ch MIPLAY_MEDIA_CHANGED_DEVICE_STATE then ev_device_state e
       else if has_bit ch MIPLAY_MEDIA_CHANGED_PLAYER_STATE then event_wire_state e else s_media_device_state m) \<rparr>"

definition miplay_emit_media_event :: "media_event \<Rightarrow> media \<Rightarrow> media" where
  "miplay_emit_media_event e0 m =
     (let e = (if ev_cover_url e0 \<noteq> [] then e0 \<lparr> ev_changed := ev_changed e0 OR MIPLAY_MEDIA_CHANGED_COVER_URL \<rparr> else e0);
          ch = ev_changed e
      in if ch = 0 then m
         else let m1 = snapshot ch e m
              in if s_media_cb m1 then m1 \<lparr> cb_log := cb_log m1 @ [e] \<rparr> else m1)"

definition miplay_emit_state_event :: "bool \<Rightarrow> int \<Rightarrow> int \<Rightarrow> media \<Rightarrow> media" where
  "miplay_emit_state_event mem wire_state player_state m =
     (if \<not> mem then m
      else miplay_emit_media_event (miplay_media_event_init \<lparr> ev_status := wire_state, ev_device_state := wire_state,
             ev_player_state := player_state,
             ev_changed := MIPLAY_MEDIA_CHANGED_STATUS OR MIPLAY_MEDIA_CHANGED_DEVICE_STATE
                           OR MIPLAY_MEDIA_CHANGED_PLAYER_STATE \<rparr>) m)"

definition miplay_set_audio_paused :: "bool \<Rightarrow> ctl \<Rightarrow> ctl" where
  "miplay_set_audio_paused paused c = c \<lparr> s_media_paused := paused \<rparr>"

definition miplay_reset_position_state_hint :: "u32 \<Rightarrow> media \<Rightarrow> media" where
  \<comment> \<open>the argument is \<open>s_media_generation\<close>\<close>
  "miplay_reset_position_state_hint generation m = m \<lparr> s_position_hint_last_ms := -1, s_position_hint_last_rx_us := 0,
     s_position_hint_generation := generation, s_position_hint_stalled_ticks := 0 \<rparr>"

definition miplay_apply_playback_control :: "media_event \<Rightarrow> ctl \<times> media \<Rightarrow> ctl \<times> media" where
  "miplay_apply_playback_control e = (\<lambda>(c, m).
     if \<not> has_bit (ev_changed e) MIPLAY_MEDIA_CHANGED_PLAYER_STATE then (c, m)
     else if ev_player_state e = MIPLAY_PLAYER_STATE_PAUSED
     then (miplay_set_audio_paused True c, miplay_reset_position_state_hint (s_media_generation c) m)
     else if ev_player_state e = MIPLAY_PLAYER_STATE_PLAYING
     then (miplay_set_audio_paused False c, miplay_reset_position_state_hint (s_media_generation c) m)
     else (c, m))"

subsection \<open>Position heartbeats\<close>

definition MIPLAY_POSITION_PLAY_DELTA_MS :: int where "MIPLAY_POSITION_PLAY_DELTA_MS = 250"
definition MIPLAY_POSITION_PLAY_SLOP_MS :: int where "MIPLAY_POSITION_PLAY_SLOP_MS = 1500"
definition MIPLAY_POSITION_STALL_TOLERANCE_MS :: int where "MIPLAY_POSITION_STALL_TOLERANCE_MS = 150"
definition MIPLAY_POSITION_STALL_INTERVAL_US :: int where "MIPLAY_POSITION_STALL_INTERVAL_US = 500000"
definition MIPLAY_TRACK_CHANGE_PREV_MIN_MS :: int where "MIPLAY_TRACK_CHANGE_PREV_MIN_MS = 5000"
definition MIPLAY_TRACK_CHANGE_NEW_MAX_MS :: int where "MIPLAY_TRACK_CHANGE_NEW_MAX_MS = 4000"
definition MIPLAY_TRACK_CHANGE_REWIND_MS :: int where "MIPLAY_TRACK_CHANGE_REWIND_MS = 5000"
definition MIPLAY_MEDIA_INFO_QUERY_COOLDOWN_US :: int where "MIPLAY_MEDIA_INFO_QUERY_COOLDOWN_US = 2000000"

lemmas position_consts = MIPLAY_POSITION_PLAY_DELTA_MS_def MIPLAY_POSITION_PLAY_SLOP_MS_def
  MIPLAY_POSITION_STALL_TOLERANCE_MS_def MIPLAY_POSITION_STALL_INTERVAL_US_def

definition infer_state :: "int \<Rightarrow> int \<Rightarrow> media \<Rightarrow> int \<times> media" where
  \<comment> \<open>the state a heartbeat suggests, and the tick counter; C division is toward zero\<close>
  "infer_state now_us position_ms m =
     (if 0 \<le> s_position_hint_last_ms m \<and> 0 < s_position_hint_last_rx_us m then
        let delta_ms = position_ms - s_position_hint_last_ms m;
            abs_delta_ms = (if delta_ms < 0 then - delta_ms else delta_ms);
            elapsed_us = now_us - s_position_hint_last_rx_us m;
            elapsed_ms = (if elapsed_us < 0 then - (- elapsed_us div 1000) else elapsed_us div 1000)
        in if MIPLAY_POSITION_PLAY_DELTA_MS \<le> elapsed_ms \<and> MIPLAY_POSITION_PLAY_DELTA_MS \<le> delta_ms
              \<and> delta_ms \<le> elapsed_ms + MIPLAY_POSITION_PLAY_SLOP_MS
           then (MIPLAY_PLAYER_STATE_PLAYING, m \<lparr> s_position_hint_stalled_ticks := 0 \<rparr>)
           else if abs_delta_ms \<le> MIPLAY_POSITION_STALL_TOLERANCE_MS \<and> MIPLAY_POSITION_STALL_INTERVAL_US \<le> elapsed_us
           then let t = (if s_position_hint_stalled_ticks m < 255 then s_position_hint_stalled_ticks m + 1
                         else s_position_hint_stalled_ticks m)
                in (if 0 < t then MIPLAY_PLAYER_STATE_PAUSED else MIPLAY_PLAYER_STATE_UNKNOWN,
                    m \<lparr> s_position_hint_stalled_ticks := t \<rparr>)
           else (MIPLAY_PLAYER_STATE_UNKNOWN, m \<lparr> s_position_hint_stalled_ticks := 0 \<rparr>)
      else (MIPLAY_PLAYER_STATE_UNKNOWN, m))"

definition miplay_project_state_from_position :: "int \<Rightarrow> u32 \<Rightarrow> media_event \<Rightarrow> media \<Rightarrow> media_event \<times> media" where
  \<comment> \<open>the arguments are \<open>esp_timer_get_time ()\<close> and \<open>s_media_generation\<close>\<close>
  "miplay_project_state_from_position now_us generation e m0 =
     (if \<not> has_bit (ev_changed e) MIPLAY_MEDIA_CHANGED_POSITION then (e, m0)
      else
        let m1 = (if s_position_hint_generation m0 \<noteq> generation then miplay_reset_position_state_hint generation m0 else m0);
            position_ms = (if ev_position_ms e < 0 then 0 else ev_position_ms e);
            (inferred, m2) = infer_state now_us position_ms m1;
            m3 = m2 \<lparr> s_position_hint_last_ms := position_ms, s_position_hint_last_rx_us := now_us \<rparr>;
            current = miplay_wire_state_to_player (s_media_device_state m3)
        in if inferred = MIPLAY_PLAYER_STATE_UNKNOWN \<or> inferred = current then (e, m3)
           else let wire_state = (if inferred = MIPLAY_PLAYER_STATE_PLAYING then 2 else 3)
                in (e \<lparr> ev_status := wire_state, ev_device_state := wire_state, ev_player_state := inferred,
                       ev_changed := ev_changed e OR (MIPLAY_MEDIA_CHANGED_STATUS
                         OR MIPLAY_MEDIA_CHANGED_DEVICE_STATE OR MIPLAY_MEDIA_CHANGED_PLAYER_STATE) \<rparr>, m3))"

definition miplay_maybe_query_media_info_on_rewind :: "int \<Rightarrow> int \<Rightarrow> int \<Rightarrow> int \<Rightarrow> media \<Rightarrow> bool \<times> media" where
  \<comment> \<open>whether a track change is inferred (it is only logged)\<close>
  "miplay_maybe_query_media_info_on_rewind now_us fd last_ms position_ms m =
     (if fd < 0 \<or> last_ms < MIPLAY_TRACK_CHANGE_PREV_MIN_MS \<or> position_ms < 0 then (False, m)
      else if MIPLAY_TRACK_CHANGE_NEW_MAX_MS < position_ms then (False, m)
      else if last_ms - position_ms < MIPLAY_TRACK_CHANGE_REWIND_MS then (False, m)
      else if 0 < s_media_info_query_last_us m
              \<and> now_us - s_media_info_query_last_us m < MIPLAY_MEDIA_INFO_QUERY_COOLDOWN_US then (False, m)
      else (True, m \<lparr> s_media_info_query_last_us := now_us \<rparr>))"

definition miplay_reset_media_state :: "u32 \<Rightarrow> media \<Rightarrow> media" where
  "miplay_reset_media_state generation m =
     miplay_reset_position_state_hint generation (m \<lparr> s_media_id := [], s_media_audio_id := [], s_media_title := [],
       s_media_artist := [], s_media_album := [], s_media_cover_url := [], s_media_duration := 0,
       s_media_position := 0, s_media_status := 0, s_media_device_state := 0 \<rparr>)"

subsection \<open>The empty mediaInfoEx\<close>

definition miplay_build_media_info_ex :: "nat \<Rightarrow> byte list option" where
  "miplay_build_media_info_ex capacity =
     (if capacity < 32 then None
      else case opack_write_label capacity [] (str ''mediaInfoEx'') of
             None \<Rightarrow> None
           | Some out \<Rightarrow>
               if capacity - 1 - 4 < length out then None
               else let out1 = out @ [0x16]; object_start = length out1 + 4
                    in case opack_write_string_field capacity (out1 @ [0, 0, 0, 0]) (str ''mTitle'') [] of
                         None \<Rightarrow> None
                       | Some out2 \<Rightarrow>
                           let object_length = length out2 - object_start
                           in Some (out1 @ be32 (of_nat object_length) @ drop object_start out2))"

definition miplay_notify_empty_media_info_ex :: "env \<Rightarrow> int \<Rightarrow> nat option \<Rightarrow> ctl \<times> net \<Rightarrow> int \<times> (ctl \<times> net)" where
  "miplay_notify_empty_media_info_ex env fd p st =
     (case miplay_build_media_info_ex 64 of
        None \<Rightarrow> (-1, st)
      | Some mi_body \<Rightarrow>
          (case send_encrypted_cmd_auto_seq env fd 0x0022 mi_body st of
             ((ret, mi_seq), (c, n)) \<Rightarrow>
               (ret,
                (case p of
                   Some i \<Rightarrow>
                     if 0 < ret
                     then c \<lparr> s_sessions := (s_sessions c)[i := (s_sessions c ! i) \<lparr> ss_media_info_notify_sent := True \<rparr>],
                              s_reverse_control_ready := True \<rparr>
                     else c
                 | None \<Rightarrow> c), n)))"

subsection \<open>Parsing reads only the payload\<close>

lemma take_take_le: "k \<le> n \<Longrightarrow> take k (take n xs) = take k xs"
  by (simp add: min_def)

lemma parse_info_local: "miplay_parse_media_info_ex mem (take len p) len = miplay_parse_media_info_ex mem p len"
proof -
  have w: "opack_u32_be (take len p) (Suc off) = opack_u32_be p (Suc off)" if "4 \<le> len - Suc off" for off
    using that rd32_take [of "Suc off" len p] by (simp add: opack_u32_be_def)
  have f: "opack_fields apply_field (take len p) (off + k) off st = opack_fields apply_field p (off + k) off st"
    if "k \<le> len - off" "off \<le> len" for off k st
  proof -
    have "off + k \<le> len" using that by simp
    then show ?thesis
      using opack_fields_local [of apply_field "off + k" "take len p" off st]
        opack_fields_local [of apply_field "off + k" p off st] by (simp add: take_take_le del: take_take)
  qed
  show ?thesis
  proof (cases "opack_read_label p len 0 32")
    case None
    then show ?thesis by (simp add: miplay_parse_media_info_ex_def read_label_local)
  next
    case (Some x)
    obtain root off where x: "x = (root, off)" by fastforce
    show ?thesis
    proof (cases "len - off < 1 \<or> len - (off + 1) < 4")
      case True
      then show ?thesis using Some x by (auto simp: miplay_parse_media_info_ex_def read_label_local)
    next
      case False
      then have "off + 5 \<le> len" "off < len" "4 \<le> len - Suc off" by auto
      with Some x w [of off] f [of _ "off + 5"] show ?thesis
        by (auto simp: miplay_parse_media_info_ex_def read_label_local Let_def not_less add.commute)
    qed
  qed
qed

lemma parse_notify_local: "miplay_parse_notify_payload mem (take len p) len e = miplay_parse_notify_payload mem p len e"
  unfolding miplay_parse_notify_payload_def parse_info_local read_label_local
  by (simp add: read_value_local opack_fields_local split: option.split)

subsection \<open>Messages\<close>

definition media_info_bytes :: "(byte list \<times> byte list) list \<Rightarrow> byte list" where
  \<comment> \<open>the message \<open>mediaInfoEx {name: value, \<dots>}\<close> with string values\<close>
  "media_info_bytes fs = of_nat 11 # str ''mediaInfoEx'' @ [0x16]
     @ be32 (of_nat (length (concat (map field_bytes fs)))) @ concat (map field_bytes fs)"

lemma str_no_nul: "0 \<notin> set (str ''mediaInfoEx'')" "0 \<notin> set (str ''mTitle'')"
  by (simp_all add: str_def)

lemma parse_media_info_bytes:
  assumes "list_all field_ok fs" "length (concat (map field_bytes fs)) < 2 ^ 32"
  shows "miplay_parse_media_info_ex True (media_info_bytes fs) (length (media_info_bytes fs))
    = (let e = snd (foldl apply_field (False, miplay_media_event_init) (map (\<lambda>(n, v). (n, OStr v)) fs))
       in if ev_changed e = 0 then None else Some e)"
proof -
  let ?b = "concat (map field_bytes fs)" and ?m = "media_info_bytes fs" and ?l = "str ''mediaInfoEx''"
  have len: "length ?m = 17 + length ?b" by (simp add: media_info_bytes_def)
  have lab: "opack_read_label ?m (length ?m) 0 32 = Some (?l, 12)"
    using read_label_at [of "[]" 0 ?l 32 "length ?m" "[0x16] @ be32 (of_nat (length ?b)) @ ?b"] str_no_nul(1) len
    by (simp add: media_info_bytes_def str_def del: set_map)
  have ty: "?m ! 12 = 0x16" by (simp add: media_info_bytes_def str_def)
  have u: "unat (opack_u32_be ?m 13) = length ?b"
  proof -
    have "rd32 ((of_nat 11 # ?l @ [0x16]) @ be32 (of_nat (length ?b)) @ ?b) 13 = of_nat (length ?b)"
      by (rule rd32_be32) simp
    moreover have "(of_nat 11 # ?l @ [0x16]) @ be32 (of_nat (length ?b)) @ ?b = ?m" by (simp add: media_info_bytes_def)
    ultimately have "opack_u32_be ?m 13 = of_nat (length ?b)" unfolding opack_u32_be_def by argo
    then show ?thesis using assms(2) by (simp add: unat_of_nat)
  qed
  have "opack_fields apply_field ((of_nat 11 # ?l @ [0x16] @ be32 (of_nat (length ?b))) @ ?b @ []) (17 + length ?b) 17
      (False, miplay_media_event_init)
    = (foldl apply_field (False, miplay_media_event_init) (map (\<lambda>(n, v). (n, OStr v)) fs), True)"
    by (rule opack_fields_written [OF assms(1)]) simp
  then have "opack_fields apply_field ?m (17 + length ?b) 17 (False, miplay_media_event_init)
    = (foldl apply_field (False, miplay_media_event_init) (map (\<lambda>(n, v). (n, OStr v)) fs), True)"
    by (simp add: media_info_bytes_def)
  with lab ty u len show ?thesis
    by (simp add: miplay_parse_media_info_ex_def Let_def split: prod.splits)
qed

lemma build_media_info_eq:
  assumes "capacity < 2 ^ 32"
  shows "miplay_build_media_info_ex capacity
    = (if capacity < 32 then None else Some (media_info_bytes [(str ''mTitle'', [])]))"
proof (cases "capacity < 32")
  case True
  then show ?thesis by (simp add: miplay_build_media_info_ex_def)
next
  case False
  let ?pre = "of_nat 11 # str ''mediaInfoEx'' @ [0x16]"
  have room: "unat (of_nat capacity - of_nat 0 - 1 :: u32) = capacity - 1"
  proof -
    have "of_nat capacity - of_nat 0 - 1 = (of_nat (capacity - 1) :: u32)" using False by (simp add: of_nat_diff)
    then show ?thesis using assms by (simp only: unat_of_nat) simp
  qed
  have lab: "opack_write_label capacity [] (str ''mediaInfoEx'') = Some (of_nat 11 # str ''mediaInfoEx'')"
    using False room by (simp add: opack_write_label_def Let_def)
  have "opack_write_string_field capacity (?pre @ [0, 0, 0, 0]) (str ''mTitle'') []
      = Some ((?pre @ [0, 0, 0, 0]) @ field_bytes (str ''mTitle'', []))"
    using False assms by (intro write_field_bytes) (simp_all add: field_bytes_def str_def)
  with False lab show ?thesis
    by (simp add: miplay_build_media_info_ex_def Let_def media_info_bytes_def)
qed

subsection \<open>Events and the snapshot\<close>

lemma has_bit_push: "k < 32 \<Longrightarrow> has_bit x (push_bit k 1) = bit x k"
  using and_exp_eq_0_iff_not_bit [of x k] by (simp add: has_bit_def push_bit_eq_mult)

lemma has_bits [simp]:
  "has_bit x MIPLAY_MEDIA_CHANGED_ID = bit x 0" "has_bit x MIPLAY_MEDIA_CHANGED_AUDIO_ID = bit x 1"
  "has_bit x MIPLAY_MEDIA_CHANGED_TITLE = bit x 2" "has_bit x MIPLAY_MEDIA_CHANGED_ARTIST = bit x 3"
  "has_bit x MIPLAY_MEDIA_CHANGED_ALBUM = bit x 4" "has_bit x MIPLAY_MEDIA_CHANGED_COVER_URL = bit x 5"
  "has_bit x MIPLAY_MEDIA_CHANGED_DURATION = bit x 6" "has_bit x MIPLAY_MEDIA_CHANGED_POSITION = bit x 7"
  "has_bit x MIPLAY_MEDIA_CHANGED_STATUS = bit x 8" "has_bit x MIPLAY_MEDIA_CHANGED_DEVICE_STATE = bit x 9"
  "has_bit x MIPLAY_MEDIA_CHANGED_PLAYER_STATE = bit x 10"
  by (simp_all only: changed_bits has_bit_push)

lemma bit_push1: "k < 32 \<Longrightarrow> bit (push_bit k 1 :: u32) n \<longleftrightarrow> n = k"
  by (auto simp: bit_exp_iff)

lemma bit_changed [simp]:
  "bit MIPLAY_MEDIA_CHANGED_ID n \<longleftrightarrow> n = 0" "bit MIPLAY_MEDIA_CHANGED_AUDIO_ID n \<longleftrightarrow> n = 1"
  "bit MIPLAY_MEDIA_CHANGED_TITLE n \<longleftrightarrow> n = 2" "bit MIPLAY_MEDIA_CHANGED_ARTIST n \<longleftrightarrow> n = 3"
  "bit MIPLAY_MEDIA_CHANGED_ALBUM n \<longleftrightarrow> n = 4" "bit MIPLAY_MEDIA_CHANGED_COVER_URL n \<longleftrightarrow> n = 5"
  "bit MIPLAY_MEDIA_CHANGED_DURATION n \<longleftrightarrow> n = 6" "bit MIPLAY_MEDIA_CHANGED_POSITION n \<longleftrightarrow> n = 7"
  "bit MIPLAY_MEDIA_CHANGED_STATUS n \<longleftrightarrow> n = 8" "bit MIPLAY_MEDIA_CHANGED_DEVICE_STATE n \<longleftrightarrow> n = 9"
  "bit MIPLAY_MEDIA_CHANGED_PLAYER_STATE n \<longleftrightarrow> n = 10"
  by (simp_all only: changed_bits bit_push1)

lemma or_bit_ne_0: "bit y n \<Longrightarrow> (x :: u32) OR y \<noteq> 0"
  by (metis bit_0_eq bit_or_iff bot_apply bot_bool_def)

definition event_ok :: "media_event \<Rightarrow> bool" where
  \<comment> \<open>texts fit their arrays, and a player state agrees with the device state beside it\<close>
  "event_ok e \<longleftrightarrow> length (ev_id e) < 64 \<and> length (ev_audio_id e) < 64 \<and> length (ev_title e) < 128
     \<and> length (ev_artist e) < 128 \<and> length (ev_album e) < 128 \<and> length (ev_cover_url e) < MIPLAY_COVER_SOURCE_MAX
     \<and> (bit (ev_changed e) 10 \<longrightarrow>
          (if bit (ev_changed e) 9 then miplay_wire_state_to_player (ev_device_state e) = ev_player_state e
           else ev_device_state e < 0 \<and> ev_player_state e \<in> {0, 1, 2}))"

definition media_ok :: "media \<Rightarrow> bool" where
  "media_ok m \<longleftrightarrow> length (s_media_id m) < 64 \<and> length (s_media_audio_id m) < 64 \<and> length (s_media_title m) < 128
     \<and> length (s_media_artist m) < 128 \<and> length (s_media_album m) < 128
     \<and> length (s_media_cover_url m) < MIPLAY_COVER_SOURCE_MAX \<and> s_position_hint_last_ms m \<ge> -1"

lemma event_init_ok: "event_ok miplay_media_event_init"
  by (simp add: event_ok_def miplay_media_event_init_def MIPLAY_COVER_SOURCE_MAX_def)

lemma copy_text_bounds [simp]:
  "length (copy_text 64 s) < 64" "length (copy_text 128 s) < 128"
  "length (copy_text MIPLAY_COVER_SOURCE_MAX s) < MIPLAY_COVER_SOURCE_MAX"
  by (rule length_copy_text, simp add: MIPLAY_COVER_SOURCE_MAX_def)+

lemma apply_device_state_ok: "event_ok e \<Longrightarrow> event_ok (apply_device_state d e)"
  by (simp add: event_ok_def apply_device_state_def Let_def bit_or_iff)

lemma event_set_ok:
  assumes "event_ok e"
  shows "event_ok (e \<lparr> ev_id := copy_text 64 s, ev_changed := ev_changed e OR MIPLAY_MEDIA_CHANGED_ID \<rparr>)"
    "event_ok (e \<lparr> ev_audio_id := copy_text 64 s, ev_changed := ev_changed e OR MIPLAY_MEDIA_CHANGED_AUDIO_ID \<rparr>)"
    "event_ok (e \<lparr> ev_title := copy_text 128 s, ev_changed := ev_changed e OR MIPLAY_MEDIA_CHANGED_TITLE \<rparr>)"
    "event_ok (e \<lparr> ev_artist := copy_text 128 s, ev_changed := ev_changed e OR MIPLAY_MEDIA_CHANGED_ARTIST \<rparr>)"
    "event_ok (e \<lparr> ev_album := copy_text 128 s, ev_changed := ev_changed e OR MIPLAY_MEDIA_CHANGED_ALBUM \<rparr>)"
    "event_ok (e \<lparr> ev_cover_url := copy_text MIPLAY_COVER_SOURCE_MAX s,
       ev_changed := ev_changed e OR MIPLAY_MEDIA_CHANGED_COVER_URL \<rparr>)"
    "event_ok (e \<lparr> ev_duration_ms := d, ev_changed := ev_changed e OR MIPLAY_MEDIA_CHANGED_DURATION \<rparr>)"
    "event_ok (e \<lparr> ev_position_ms := d, ev_changed := ev_changed e OR MIPLAY_MEDIA_CHANGED_POSITION \<rparr>)"
    "event_ok (e \<lparr> ev_status := d, ev_changed := ev_changed e OR MIPLAY_MEDIA_CHANGED_STATUS \<rparr>)"
  using assms by (auto simp: event_ok_def bit_or_iff)

lemma apply_media_field_ok:
  assumes "event_ok e"
  shows "event_ok (snd (miplay_apply_media_field name v e))"
  unfolding miplay_apply_media_field_def
  by (cases v) (simp_all add: if_distrib [of snd] assms apply_device_state_ok [OF assms] event_set_ok [OF assms])

lemma apply_field_ok: "event_ok (snd st) \<Longrightarrow> event_ok (snd (apply_field st f))"
  using apply_media_field_ok [of "snd st" "fst f" "snd f"] by (simp add: apply_field_def Let_def case_prod_beta)

lemma opack_fields_inv:
  "(\<And>st f. P st \<Longrightarrow> P (act st f)) \<Longrightarrow> P st \<Longrightarrow> P (fst (opack_fields act data len off st))"
proof (induction act data len off st rule: opack_fields.induct)
  case (1 act data len off st)
  then show ?case by (subst opack_fields.simps) (auto split: option.splits)
qed

lemma parse_info_ok: "miplay_parse_media_info_ex mem p len = Some e \<Longrightarrow> event_ok e"
proof -
  have "event_ok (snd (fst (opack_fields apply_field p (start + k) start (False, miplay_media_event_init))))" for start k
    by (rule opack_fields_inv [where P = "\<lambda>st. event_ok (snd st)"]) (simp_all add: apply_field_ok event_init_ok)
  then show "miplay_parse_media_info_ex mem p len = Some e \<Longrightarrow> event_ok e"
    by (auto simp: miplay_parse_media_info_ex_def Let_def split: option.splits if_splits prod.splits) (metis fst_conv snd_conv)+
qed

lemma parse_notify_ok:
  assumes "event_ok e" "miplay_parse_notify_payload mem p len e = (r, e')"
  shows "event_ok e'"
proof -
  have "event_ok (snd (fst (opack_fields apply_field p len off (apply_field (False, e) f))))" for off f
    by (rule opack_fields_inv [where P = "\<lambda>st. event_ok (snd st)"]) (simp_all add: apply_field_ok assms(1))
  then show ?thesis using assms parse_info_ok
    by (auto simp: miplay_parse_notify_payload_def split: option.splits if_splits prod.splits) (metis fst_conv snd_conv)+
qed

lemma wire_state_derived:
  "ev_device_state e < 0 \<Longrightarrow> ev_player_state e \<in> {0, 1, 2} \<Longrightarrow>
   miplay_wire_state_to_player (event_wire_state e) = ev_player_state e"
  by (auto simp: miplay_wire_state_to_player_def player_states event_wire_state_def)

lemma snapshot_ok: "media_ok m \<Longrightarrow> media_ok (snapshot ch e m)"
  by (simp add: media_ok_def snapshot_def)

lemma emit_media_ok: "media_ok m \<Longrightarrow> media_ok (miplay_emit_media_event e m)"
  using snapshot_ok [of m] unfolding miplay_emit_media_event_def Let_def
  by (simp add: media_ok_def)

lemma emit_player:
  assumes "event_ok e" "bit (ev_changed e) 10"
  shows "miplay_wire_state_to_player (s_media_device_state (miplay_emit_media_event e m)) = ev_player_state e"
proof -
  have ne: "ev_changed e OR MIPLAY_MEDIA_CHANGED_COVER_URL \<noteq> 0" "ev_changed e \<noteq> 0"
    using assms(2) or_bit_ne_0 [of MIPLAY_MEDIA_CHANGED_COVER_URL 5] by auto
  have "s_media_device_state (miplay_emit_media_event e m)
      = (if bit (ev_changed e) 9 then ev_device_state e else event_wire_state e)"
    using ne assms(2)
    by (simp add: miplay_emit_media_event_def Let_def bit_or_iff snapshot_def event_wire_state_def)
  with assms wire_state_derived [of e] show ?thesis by (auto simp: event_ok_def split: if_splits)
qed

lemma emit_cb:
  "cb_log (miplay_emit_media_event e m) = cb_log m
     @ (if s_media_cb m \<and> (ev_changed e \<noteq> 0 \<or> ev_cover_url e \<noteq> [])
        then [if ev_cover_url e = [] then e else e \<lparr> ev_changed := ev_changed e OR MIPLAY_MEDIA_CHANGED_COVER_URL \<rparr>]
        else [])"
proof -
  have "ev_changed e OR MIPLAY_MEDIA_CHANGED_COVER_URL \<noteq> 0" by (rule or_bit_ne_0 [of _ 5]) simp
  then show ?thesis
    by (simp add: miplay_emit_media_event_def Let_def snapshot_def)
qed

lemma infer_state_cases:
  "fst (infer_state now p m) = MIPLAY_PLAYER_STATE_UNKNOWN \<or> fst (infer_state now p m) = MIPLAY_PLAYER_STATE_PLAYING
   \<or> fst (infer_state now p m) = MIPLAY_PLAYER_STATE_PAUSED"
  unfolding infer_state_def Let_def by (simp add: if_distrib [of fst])

lemma infer_state_frame [simp]:
  "s_media_device_state (snd (infer_state now p m)) = s_media_device_state m"
  "s_position_hint_generation (snd (infer_state now p m)) = s_position_hint_generation m"
  "s_position_hint_last_ms (snd (infer_state now p m)) = s_position_hint_last_ms m"
  by (simp_all add: infer_state_def Let_def if_distrib [of snd] if_distrib [of s_media_device_state]
      if_distrib [of s_position_hint_generation] if_distrib [of s_position_hint_last_ms])

definition apply_inferred :: "int \<Rightarrow> media_event \<Rightarrow> media_event" where
  \<comment> \<open>the event of a heartbeat from which a new state was inferred\<close>
  "apply_inferred st e =
     (let wire_state = (if st = MIPLAY_PLAYER_STATE_PLAYING then 2 else 3)
      in e \<lparr> ev_status := wire_state, ev_device_state := wire_state, ev_player_state := st,
             ev_changed := ev_changed e OR (MIPLAY_MEDIA_CHANGED_STATUS
               OR MIPLAY_MEDIA_CHANGED_DEVICE_STATE OR MIPLAY_MEDIA_CHANGED_PLAYER_STATE) \<rparr>)"

lemma apply_inferred_ok:
  "event_ok e \<Longrightarrow> st = MIPLAY_PLAYER_STATE_PLAYING \<or> st = MIPLAY_PLAYER_STATE_PAUSED \<Longrightarrow> event_ok (apply_inferred st e)"
  by (auto simp: event_ok_def apply_inferred_def bit_or_iff miplay_wire_state_to_player_def player_states)

lemma project_cases:
  "fst (miplay_project_state_from_position now g e m) = e
   \<or> (\<exists>st. (st = MIPLAY_PLAYER_STATE_PLAYING \<or> st = MIPLAY_PLAYER_STATE_PAUSED)
        \<and> st \<noteq> miplay_wire_state_to_player (s_media_device_state m)
        \<and> fst (miplay_project_state_from_position now g e m) = apply_inferred st e)"
proof -
  let ?m1 = "if s_position_hint_generation m \<noteq> g then miplay_reset_position_state_hint g m else m"
  let ?p = "if ev_position_ms e < 0 then 0 else ev_position_ms e"
  obtain st m2 where r: "infer_state now ?p ?m1 = (st, m2)" by fastforce
  have "s_media_device_state ?m1 = s_media_device_state m" by (simp add: miplay_reset_position_state_hint_def)
  with r infer_state_frame(1) [of now ?p ?m1] have d: "s_media_device_state m2 = s_media_device_state m" by simp
  have st: "st = MIPLAY_PLAYER_STATE_UNKNOWN \<or> st = MIPLAY_PLAYER_STATE_PLAYING \<or> st = MIPLAY_PLAYER_STATE_PAUSED"
    using infer_state_cases [of now ?p ?m1] r by simp
  have "fst (miplay_project_state_from_position now g e m) =
    (if \<not> bit (ev_changed e) 7 \<or> st = MIPLAY_PLAYER_STATE_UNKNOWN
        \<or> st = miplay_wire_state_to_player (s_media_device_state m) then e else apply_inferred st e)"
    unfolding miplay_project_state_from_position_def Let_def r
    by (simp add: apply_inferred_def d)
  with st show ?thesis by auto
qed

lemma project_ok: "event_ok e \<Longrightarrow> event_ok (fst (miplay_project_state_from_position now g e m))"
  using project_cases [of now g e m] apply_inferred_ok by metis

definition heartbeat :: "int \<Rightarrow> u32 \<Rightarrow> int \<Rightarrow> media \<Rightarrow> media_event \<times> media" where
  \<comment> \<open>a SetPosition command at time \<open>now\<close>\<close>
  "heartbeat now g p m = miplay_project_state_from_position now g
     (miplay_media_event_init \<lparr> ev_position_ms := p, ev_changed := MIPLAY_MEDIA_CHANGED_POSITION \<rparr>) m"

definition cadence :: "int \<Rightarrow> int \<Rightarrow> int" where
  \<comment> \<open>what a move of \<open>dp\<close> ms in \<open>dt\<close> us means\<close>
  "cadence dt dp =
     (if 250 \<le> dt div 1000 \<and> 250 \<le> dp \<and> dp \<le> dt div 1000 + 1500 then MIPLAY_PLAYER_STATE_PLAYING
      else if \<bar>dp\<bar> \<le> 150 \<and> 500000 \<le> dt then MIPLAY_PLAYER_STATE_PAUSED
      else MIPLAY_PLAYER_STATE_UNKNOWN)"

lemma heartbeat_hint:
  assumes "0 \<le> p"
  shows "s_position_hint_last_ms (snd (heartbeat now g p m)) = p"
    "s_position_hint_last_rx_us (snd (heartbeat now g p m)) = now"
    "s_position_hint_generation (snd (heartbeat now g p m)) = g"
    "s_media_device_state (snd (heartbeat now g p m)) = s_media_device_state m"
proof -
  let ?m1 = "if s_position_hint_generation m \<noteq> g then miplay_reset_position_state_hint g m else m"
  obtain st m2 where r: "infer_state now p ?m1 = (st, m2)" by fastforce
  have "s_position_hint_generation ?m1 = g" "s_media_device_state ?m1 = s_media_device_state m"
    by (simp_all add: miplay_reset_position_state_hint_def)
  with r infer_state_frame [of now p ?m1]
  have m2: "s_position_hint_generation m2 = g" "s_media_device_state m2 = s_media_device_state m" by simp_all
  have "snd (heartbeat now g p m) = m2 \<lparr> s_position_hint_last_ms := p, s_position_hint_last_rx_us := now \<rparr>"
    using assms unfolding heartbeat_def miplay_project_state_from_position_def Let_def
    by (simp add: r)
  with m2 show "s_position_hint_last_ms (snd (heartbeat now g p m)) = p"
    "s_position_hint_last_rx_us (snd (heartbeat now g p m)) = now"
    "s_position_hint_generation (snd (heartbeat now g p m)) = g"
    "s_media_device_state (snd (heartbeat now g p m)) = s_media_device_state m" by simp_all
qed

lemma infer_state_cadence:
  assumes "0 \<le> s_position_hint_last_ms m" "0 < s_position_hint_last_rx_us m" "s_position_hint_last_rx_us m \<le> now"
  shows "fst (infer_state now p m) = cadence (now - s_position_hint_last_rx_us m) (p - s_position_hint_last_ms m)"
proof -
  have tick: "0 < (if t < 255 then t + 1 else t)" for t :: byte
  proof (cases "t < 255")
    case True
    then have "unat t < 255" by (simp add: word_less_nat_alt)
    then have "unat (t + 1) = unat t + 1" by (simp add: unat_word_ariths)
    with True show ?thesis by (simp add: word_less_nat_alt)
  next
    case False
    then have "255 \<le> t" by simp
    have "(0 :: byte) < 255" by simp
    with \<open>255 \<le> t\<close> have "0 < t" by (rule order.strict_trans2 [rotated])
    with False show ?thesis by simp
  qed
  have abs: "(if d < 0 then - d else d) = \<bar>d\<bar>" for d :: int by simp
  show ?thesis
    using assms tick [of "s_position_hint_stalled_ticks m"]
    unfolding infer_state_def cadence_def Let_def position_consts abs
    by (simp add: if_distrib [of fst])
qed

lemma heartbeats:
  assumes "0 \<le> p0" "0 \<le> p1" "0 < t0" "t0 \<le> t1"
  shows "ev_player_state (fst (heartbeat t1 g p1 (snd (heartbeat t0 g p0 m))))
    = (if cadence (t1 - t0) (p1 - p0) = miplay_wire_state_to_player (s_media_device_state m)
       then MIPLAY_PLAYER_STATE_UNKNOWN else cadence (t1 - t0) (p1 - p0))"
proof -
  let ?m = "snd (heartbeat t0 g p0 m)"
  note h = heartbeat_hint [OF assms(1), of t0 g m]
  obtain st m2 where r: "infer_state t1 p1 ?m = (st, m2)" by fastforce
  have st: "st = cadence (t1 - t0) (p1 - p0)"
    using infer_state_cadence [of ?m t1 p1] h assms r by simp
  have d: "s_media_device_state m2 = s_media_device_state m"
    using infer_state_frame(1) [of t1 p1 ?m] r h(4) by simp
  show ?thesis
    using assms h(3) unfolding heartbeat_def [of t1] miplay_project_state_from_position_def Let_def
    by (simp add: r d st miplay_media_event_init_def player_states)
qed

subsection \<open>Properties\<close>

text \<open>C25: The notification parser reads only the payload. Whatever bytes follow the
  payload in the receive buffer, \<open>miplay_parse_notify_payload\<close> gives the same answer and
  the same event.\<close>

theorem parse_notify_inside:
  "miplay_parse_notify_payload mem (payload @ beyond) (length payload) e
   = miplay_parse_notify_payload mem payload (length payload) e"
  using parse_notify_local [of mem "length payload" "payload @ beyond" e] by simp



text \<open>The capability notification. For every buffer a \<open>size_t\<close> can measure,
  \<open>miplay_build_media_info_ex\<close> refuses fewer than 32 bytes and otherwise writes exactly the
  message \<open>mediaInfoEx {mTitle: ""}\<close>, 29 bytes long.\<close>

lemma build_media_info_spec:
  assumes "capacity < 2 ^ 32"
  shows "miplay_build_media_info_ex capacity
      = (if capacity < 32 then None else Some (media_info_bytes [(str ''mTitle'', [])]))
    \<and> length (media_info_bytes [(str ''mTitle'', [])]) = 29"
  using build_media_info_eq [OF assms] by (simp add: media_info_bytes_def field_bytes_def)

text \<open>The room check of \<open>opack_write_label\<close>. A label that is accepted fits the
  buffer when at least one byte was free, and overruns it when none was: with the offset
  equal to the capacity, \<open>capacity - *offset - 1\<close> wraps around and the check passes.\<close>

lemma write_label_room:
  assumes "opack_write_label capacity out label = Some out'" and "length out \<le> capacity" and "capacity < 2 ^ 32"
  shows "length out' \<le> capacity \<longleftrightarrow> length out < capacity"
proof (cases "length out < capacity")
  case True
  then have "of_nat capacity - of_nat (length out) - 1 = (of_nat (capacity - length out - 1) :: u32)"
    by (simp add: of_nat_diff)
  then have "unat (of_nat capacity - of_nat (length out) - 1 :: u32) = capacity - length out - 1"
    using assms(3) by (simp only: unat_of_nat) simp
  with True assms(1) show ?thesis
    by (auto simp: opack_write_label_def Let_def not_less split: if_splits)
next
  case False
  with assms show ?thesis by (auto simp: opack_write_label_def Let_def split: if_splits)
qed

text \<open>C30: The snapshot stays well formed and follows the events. Emitting any event
  keeps every text of the snapshot within its array; the events that the parser delivers
  are well formed, and after emitting one that carries a player state, the device state of
  the snapshot means that player state.\<close>

theorem emit_follows_events:
  assumes "media_ok m" and "event_ok e" and "miplay_parse_notify_payload mem p len e = (r, e')"
  shows "event_ok e' \<and> media_ok (miplay_emit_media_event e' m)
    \<and> (bit (ev_changed e') 10 \<longrightarrow>
         miplay_wire_state_to_player (s_media_device_state (miplay_emit_media_event e' m)) = ev_player_state e')"
  using parse_notify_ok [OF assms(2,3)] emit_media_ok [OF assms(1)] emit_player by blast

definition media_init :: media where
  \<comment> \<open>the static initialisers, no callback registered\<close>
  "media_init = \<lparr> s_media_id = [], s_media_audio_id = [], s_media_title = [], s_media_artist = [], s_media_album = [],
     s_media_cover_url = [], s_media_duration = 0, s_media_position = 0, s_media_status = 0,
     s_media_device_state = 0, s_position_hint_last_ms = -1, s_position_hint_last_rx_us = 0,
     s_position_hint_generation = 0, s_position_hint_stalled_ticks = 0, s_media_info_query_last_us = 0,
     s_media_cb = False, cb_log = [] \<rparr>"

lemma media_init_ok: "media_ok media_init"
  by (simp add: media_ok_def media_init_def MIPLAY_COVER_SOURCE_MAX_def)

lemma emit_follows_events_witness:
  "let (r, e') = miplay_parse_notify_payload True [5, 115, 116, 97, 116, 101, 3, 2] 8 miplay_media_event_init
   in r \<and> ev_player_state e' = 1 \<and> miplay_wire_state_to_player (s_media_device_state (miplay_emit_media_event e' media_init)) = 1"
proof -
  let ?p = "[5, 115, 116, 97, 116, 101, 3, 2] :: byte list"
  let ?e = "apply_device_state 2 miplay_media_event_init"
  have lab: "opack_read_label ?p 8 0 32 = Some (str ''state'', 6)"
    by (simp add: opack_read_label_def cstr_def str_def Let_def)
  have val: "opack_read_value ?p 8 6 MIPLAY_COVER_SOURCE_MAX = Some (OInt 2, 8)"
    by (simp add: opack_read_value_def Let_def)
  have field: "apply_field (False, miplay_media_event_init) (str ''state'', OInt 2) = (True, ?e)"
    by (simp add: apply_field_def miplay_apply_media_field_def name_is_def str_def opack_integer_to_int_def)
  have "ev_changed ?e \<noteq> 0"
    by (simp add: apply_device_state_def Let_def miplay_media_event_init_def changed_bits miplay_wire_state_to_player_def player_states)
  moreover have "miplay_parse_media_info_ex True ?p 8 = None"
    by (simp add: miplay_parse_media_info_ex_def lab str_def)
  ultimately have "miplay_parse_notify_payload True ?p 8 miplay_media_event_init = (True, ?e)"
    by (simp add: miplay_parse_notify_payload_def lab val field opack_fields.simps)
  moreover have "bit (ev_changed ?e) 10" "ev_player_state ?e = 1"
    by (simp_all add: apply_device_state_def Let_def bit_or_iff miplay_wire_state_to_player_def player_states)
  ultimately show ?thesis
    using emit_follows_events [OF media_init_ok event_init_ok, of True ?p 8 True ?e] by (simp add: Let_def)
qed

text \<open>Playback state from position heartbeats. Whatever the earlier history, two
  consecutive position reports of the same media session yield a playing event exactly when
  the position moved by 250 ms or more, no faster than real time plus 1500 ms, over at least
  250 ms; a paused event exactly when it moved by at most 150 ms over at least 500 ms; and no
  event when that is already the known state.\<close>

theorem heartbeat_cadence:
  assumes "0 \<le> p0" and "0 \<le> p1" and "0 < t0" and "t0 \<le> t1"
  shows "ev_player_state (fst (heartbeat t1 g p1 (snd (heartbeat t0 g p0 m))))
    = (if cadence (t1 - t0) (p1 - p0) = miplay_wire_state_to_player (s_media_device_state m)
       then MIPLAY_PLAYER_STATE_UNKNOWN else cadence (t1 - t0) (p1 - p0))"
  by (rule heartbeats [OF assms])

lemma heartbeat_cadence_witness:
  "ev_player_state (fst (heartbeat 3000000 7 9000 (snd (heartbeat 2000000 7 8000 media_init)))) = 1
   \<and> ev_player_state (fst (heartbeat 3000000 7 8000 (snd (heartbeat 2000000 7 8000 media_init)))) = 2"
  using heartbeat_cadence [of 8000 9000 2000000 3000000 7 media_init]
    heartbeat_cadence [of 8000 8000 2000000 3000000 7 media_init]
  by (simp add: cadence_def media_init_def miplay_wire_state_to_player_def player_states)

end
