(* ===== verification/Json.thy ===== *)
theory Json
  imports Media
begin

text \<open>
  The JSON side of the metadata (\<open>miplay.c\<close>: \<open>miplay_json_find_value\<close> to
  \<open>miplay_parse_media_state_payload\<close>). A \<open>const char *\<close> into the text is the rest of the text
  from there on; the end of the list is the terminating NUL. A destination buffer is the
  list of its \<open>out_size\<close> bytes, because a failed copy leaves a prefix in it.
\<close>

subsection \<open>Finding a key\<close>

definition json_ws :: "byte \<Rightarrow> bool" where
  "json_ws b \<longleftrightarrow> b = 32 \<or> b = 9 \<or> b = 13 \<or> b = 10"

definition skip_ws :: "byte list \<Rightarrow> byte list" where
  "skip_ws s = dropWhile json_ws s"

definition key_here :: "byte option \<Rightarrow> byte list \<Rightarrow> byte list \<Rightarrow> byte list option" where
  \<comment> \<open>the body of the loop at one place: \<open>prev\<close> is the byte before it\<close>
  "key_here prev key s =
     (if take (length key) s = key
         \<and> (case prev of None \<Rightarrow> True | Some b \<Rightarrow> b = 123 \<or> b = 44 \<or> json_ws b)
      then let after = skip_ws (drop (length key) s)
           in if after \<noteq> [] \<and> hd after = 58 then Some (skip_ws (tl after)) else None
      else None)"

fun json_find_from :: "byte option \<Rightarrow> byte list \<Rightarrow> byte list \<Rightarrow> byte list option" where
  "json_find_from prev key [] = key_here prev key []"
| "json_find_from prev key (b # s) =
     (case key_here prev key (b # s) of Some v \<Rightarrow> Some v | None \<Rightarrow> json_find_from (Some b) key s)"

definition miplay_json_find_value :: "byte list \<Rightarrow> byte list \<Rightarrow> byte list option" where
  "miplay_json_find_value json key = json_find_from None key json"

subsection \<open>Strings\<close>

definition miplay_json_hex_digit :: "byte \<Rightarrow> nat option" where
  "miplay_json_hex_digit c =
     (if 48 \<le> c \<and> c \<le> 57 then Some (unat c - 48)
      else if 97 \<le> c \<and> c \<le> 102 then Some (unat c - 97 + 10)
      else if 65 \<le> c \<and> c \<le> 70 then Some (unat c - 65 + 10)
      else None)"

fun json_hex :: "nat \<Rightarrow> nat \<Rightarrow> byte list \<Rightarrow> nat option" where
  \<comment> \<open>\<open>n\<close> more digits after the value \<open>v\<close>\<close>
  "json_hex 0 v p = Some v"
| "json_hex (Suc n) v [] = None"
| "json_hex (Suc n) v (c # p) =
     (case miplay_json_hex_digit c of None \<Rightarrow> None | Some d \<Rightarrow> json_hex n (16 * v + d) p)"

definition utf8_bytes :: "nat \<Rightarrow> byte list option" where
  "utf8_bytes cp =
     (let w = of_nat cp :: u32
      in if cp < 0x80 then Some [ucast w]
         else if cp < 0x800 then Some [ucast (0xC0 OR drop_bit 6 w), ucast (0x80 OR (w AND 0x3F))]
         else if cp < 0x10000
         then Some [ucast (0xE0 OR drop_bit 12 w), ucast (0x80 OR (drop_bit 6 w AND 0x3F)), ucast (0x80 OR (w AND 0x3F))]
         else if cp \<le> 0x10FFFF
         then Some [ucast (0xF0 OR drop_bit 18 w), ucast (0x80 OR (drop_bit 12 w AND 0x3F)),
                    ucast (0x80 OR (drop_bit 6 w AND 0x3F)), ucast (0x80 OR (w AND 0x3F))]
         else None)"

definition miplay_json_append_codepoint :: "nat \<Rightarrow> byte list \<Rightarrow> nat \<Rightarrow> byte list option" where
  \<comment> \<open>\<open>acc\<close> is what has been written\<close>
  "miplay_json_append_codepoint out_size acc cp =
     (case utf8_bytes cp of
        None \<Rightarrow> None
      | Some bytes \<Rightarrow>
          if out_size < length acc \<or> out_size - length acc < length bytes + 1 then None else Some (acc @ bytes))"

definition json_escape_char :: "byte \<Rightarrow> byte option" where
  "json_escape_char e =
     (if e = 34 \<or> e = 92 \<or> e = 47 then Some e
      else if e = 98 then Some 8 else if e = 102 then Some 12 else if e = 110 then Some 10
      else if e = 114 then Some 13 else if e = 116 then Some 9 else None)"

definition json_codepoint :: "byte list \<Rightarrow> (nat \<times> byte list) option" where
  \<comment> \<open>after \<open>\u\<close>: the code point, surrogate pairs combined, and the rest\<close>
  "json_codepoint p =
     (case json_hex 4 0 p of
        None \<Rightarrow> None
      | Some cp \<Rightarrow>
          let p1 = drop 4 p
          in if 0xD800 \<le> cp \<and> cp \<le> 0xDBFF \<and> take 2 p1 = [92, 117]
             then case json_hex 4 0 (drop 2 p1) of
                    None \<Rightarrow> None
                  | Some low \<Rightarrow>
                      if low < 0xDC00 \<or> 0xDFFF < low then None
                      else Some (0x10000 + (cp - 0xD800) * 1024 + (low - 0xDC00), drop 6 p1)
             else if 0xD800 \<le> cp \<and> cp \<le> 0xDFFF then None
             else Some (cp, p1))"

lemma json_codepoint_le: "json_codepoint p = Some (cp, q) \<Longrightarrow> length q \<le> length p"
  by (auto simp: json_codepoint_def Let_def split: option.splits if_splits)

function json_string :: "nat \<Rightarrow> byte list \<Rightarrow> byte list \<Rightarrow> bool \<times> byte list" where
  \<comment> \<open>the loop of \<open>miplay_json_copy_string\<close>: success, and what has been written\<close>
  "json_string out_size p acc =
     (case p of
        [] \<Rightarrow> (False, acc)
      | c # r \<Rightarrow>
          if c = 34 then (True, acc)
          else if c \<noteq> 92
          then if out_size \<le> length acc + 1 then (False, acc) else json_string out_size r (acc @ [c])
          else case r of
                 [] \<Rightarrow> (False, acc)
               | e # q \<Rightarrow>
                   if e = 117
                   then case json_codepoint q of
                          None \<Rightarrow> (False, acc)
                        | Some (cp, q1) \<Rightarrow>
                            (case miplay_json_append_codepoint out_size acc cp of
                               None \<Rightarrow> (False, acc)
                             | Some acc1 \<Rightarrow> json_string out_size q1 acc1)
                   else case json_escape_char e of
                          None \<Rightarrow> (False, acc)
                        | Some x \<Rightarrow>
                            if out_size \<le> length acc + 1 then (False, acc) else json_string out_size q (acc @ [x]))"
  by pat_completeness auto
termination
  by (relation "measure (\<lambda>(out_size, p, acc). length p)") (auto dest!: json_codepoint_le)

declare json_string.simps [simp del]

definition overwrite :: "byte list \<Rightarrow> byte list \<Rightarrow> byte list" where
  \<comment> \<open>the buffer after writing at its start\<close>
  "overwrite buf bs = bs @ drop (length bs) buf"

definition miplay_json_copy_string :: "byte list \<Rightarrow> byte list \<Rightarrow> byte list \<Rightarrow> bool \<times> byte list" where
  \<comment> \<open>\<open>out_size\<close> is the length of the buffer\<close>
  "miplay_json_copy_string json key buf =
     (if buf = [] then (False, buf)
      else case miplay_json_find_value json key of
        None \<Rightarrow> (False, buf)
      | Some p \<Rightarrow>
          if p = [] \<or> hd p \<noteq> 34 then (False, buf)
          else let (ok, acc) = json_string (length buf) (tl p) []
               in (ok, overwrite buf (if ok then acc @ [0] else acc)))"

definition miplay_json_read_number :: "byte list \<Rightarrow> byte list \<Rightarrow> int option" where
  "miplay_json_read_number json key =
     (case miplay_json_find_value json key of
        None \<Rightarrow> None
      | Some p \<Rightarrow>
          let quoted = (p \<noteq> [] \<and> hd p = 34); p1 = (if quoted then tl p else p); (v, used) = strtoll p1
          in if used = 0 then None
             else if quoted \<and> take 1 (drop used p1) \<noteq> [34] then None
             else Some v)"

definition trim :: "byte list \<Rightarrow> byte list" where
  "trim s = rev (dropWhile is_space (rev (dropWhile is_space s)))"

fun miplay_json_copy_string_aliases :: "byte list \<Rightarrow> byte list list \<Rightarrow> byte list \<Rightarrow> bool \<times> byte list" where
  "miplay_json_copy_string_aliases json [] buf = (False, buf)"
| "miplay_json_copy_string_aliases json (key # keys) buf =
     (case miplay_json_copy_string json key buf of
        (False, buf1) \<Rightarrow> miplay_json_copy_string_aliases json keys buf1
      | (True, buf1) \<Rightarrow>
          let t = trim (cstr buf1)
          in if t = [] then miplay_json_copy_string_aliases json keys buf1
             else (True, overwrite buf1 (t @ [0])))"

fun miplay_json_read_number_aliases :: "byte list \<Rightarrow> byte list list \<Rightarrow> int option" where
  "miplay_json_read_number_aliases json [] = None"
| "miplay_json_read_number_aliases json (key # keys) =
     (case miplay_json_read_number json key of Some v \<Rightarrow> Some v | None \<Rightarrow> miplay_json_read_number_aliases json keys)"

definition miplay_json_read_state_aliases :: "byte list \<Rightarrow> byte list list \<Rightarrow> int option" where
  "miplay_json_read_state_aliases json keys =
     (case miplay_json_read_number_aliases json keys of
        Some v \<Rightarrow> Some v
      | None \<Rightarrow>
          (case miplay_json_copy_string_aliases json keys (replicate 32 0) of
             (False, _) \<Rightarrow> None
           | (True, buf) \<Rightarrow>
               let state = cstr buf
               in if strcaseeq state (str ''playing'') \<or> strcaseeq state (str ''play'') then Some 2
                  else if strcaseeq state (str ''paused'') \<or> strcaseeq state (str ''pause'') then Some 3
                  else if strcaseeq state (str ''stopped'') \<or> strcaseeq state (str ''stop'') then Some 0
                  else None))"

subsection \<open>Metadata objects\<close>

definition as_int :: "int \<Rightarrow> int" where
  \<comment> \<open>the conversion \<open>(int) value\<close> of an \<open>int64_t\<close>\<close>
  "as_int v = sint (word_of_int v :: u32)"

definition array_of :: "nat \<Rightarrow> byte list \<Rightarrow> byte list" where
  \<comment> \<open>a \<open>char\<close> array that holds a C string and is zero after it\<close>
  "array_of n s = s @ replicate (n - length s) 0"

definition quoted :: "string list \<Rightarrow> byte list list" where
  "quoted names = map (\<lambda>n. 34 # str n @ [34]) names"

definition json_text :: "byte list \<Rightarrow> string list \<Rightarrow> nat \<Rightarrow> byte list \<Rightarrow> bool \<times> byte list" where
  \<comment> \<open>\<open>copy_string_aliases (json, keys, field, sizeof field)\<close>, the field as a C string\<close>
  "json_text json names n field =
     (case miplay_json_copy_string_aliases json (quoted names) (array_of n field) of (ok, buf) \<Rightarrow> (ok, cstr buf))"

definition id_keys where "id_keys = [''id'', ''mId'', ''mediaId'', ''media_id'']"
definition audio_id_keys where "audio_id_keys = [''mAudioId'', ''audioId'', ''audio_id'']"
definition title_keys where "title_keys = [''mTitle'', ''title'', ''songName'', ''mSongName'']"
definition artist_keys where "artist_keys = [''mArtist'', ''artist'', ''singer'', ''artistName'']"
definition album_keys where "album_keys = [''mAlbum'', ''album'']"
definition cover_keys where "cover_keys = [''mCoverUrl'', ''coverUrl'', ''mArt'', ''artwork'', ''artworkUrl'',
  ''albumArt'', ''albumArtURI'', ''albumArtUrl'', ''cover_url'', ''cover'', ''art'']"
definition duration_keys where "duration_keys = [''mDuration'', ''duration'', ''durationMs'', ''duration_ms'']"
definition position_keys where "position_keys = [''mPosition'', ''position'', ''positionMs'', ''position_ms'']"
definition status_keys where "status_keys = [''status'', ''playStatus'', ''setState'', ''mediaState'', ''playState'']"
definition device_state_keys where "device_state_keys = [''mDeviceState'', ''deviceState'', ''setState'',
  ''mediaState'', ''playState'', ''state'']"

definition json_texts :: "byte list \<Rightarrow> media_event \<Rightarrow> bool \<times> media_event" where
  \<comment> \<open>the six text fields; a failed copy still leaves its prefix in the field\<close>
  "json_texts json e =
     (let (ok1, v1) = json_text json id_keys 64 (ev_id e);
          (ok2, v2) = json_text json audio_id_keys 64 (ev_audio_id e);
          (ok3, v3) = json_text json title_keys 128 (ev_title e);
          (ok4, v4) = json_text json artist_keys 128 (ev_artist e);
          (ok5, v5) = json_text json album_keys 128 (ev_album e);
          (ok6, v6) = json_text json cover_keys MIPLAY_COVER_SOURCE_MAX (ev_cover_url e);
          bit_if = (\<lambda>ok (m :: u32). if ok then m else 0)
      in (ok1 \<or> ok2 \<or> ok3 \<or> ok4 \<or> ok5 \<or> ok6,
          e \<lparr> ev_id := v1, ev_audio_id := v2, ev_title := v3, ev_artist := v4, ev_album := v5, ev_cover_url := v6,
              ev_changed := ev_changed e OR bit_if ok1 MIPLAY_MEDIA_CHANGED_ID
                OR bit_if ok2 MIPLAY_MEDIA_CHANGED_AUDIO_ID OR bit_if ok3 MIPLAY_MEDIA_CHANGED_TITLE
                OR bit_if ok4 MIPLAY_MEDIA_CHANGED_ARTIST OR bit_if ok5 MIPLAY_MEDIA_CHANGED_ALBUM
                OR bit_if ok6 MIPLAY_MEDIA_CHANGED_COVER_URL \<rparr>))"

definition json_numbers :: "byte list \<Rightarrow> bool \<times> media_event \<Rightarrow> bool \<times> media_event" where
  "json_numbers json st =
     (let set_duration = (\<lambda>(ok, e). case miplay_json_read_number_aliases json (quoted duration_keys) of
            None \<Rightarrow> (ok, e)
          | Some v \<Rightarrow> (True, e \<lparr> ev_duration_ms := v, ev_changed := ev_changed e OR MIPLAY_MEDIA_CHANGED_DURATION \<rparr>));
          set_position = (\<lambda>(ok, e). case miplay_json_read_number_aliases json (quoted position_keys) of
            None \<Rightarrow> (ok, e)
          | Some v \<Rightarrow> (True, e \<lparr> ev_position_ms := v, ev_changed := ev_changed e OR MIPLAY_MEDIA_CHANGED_POSITION \<rparr>));
          set_status = (\<lambda>(ok, e). case miplay_json_read_state_aliases json (quoted status_keys) of
            None \<Rightarrow> (ok, e)
          | Some v \<Rightarrow>
              let ps = miplay_wire_state_to_player (as_int v);
                  e1 = e \<lparr> ev_status := as_int v, ev_player_state := ps,
                           ev_changed := ev_changed e OR MIPLAY_MEDIA_CHANGED_STATUS \<rparr>
              in (True, if ps \<noteq> MIPLAY_PLAYER_STATE_UNKNOWN
                        then e1 \<lparr> ev_device_state := as_int v,
                               ev_changed := ev_changed e1 OR (MIPLAY_MEDIA_CHANGED_DEVICE_STATE OR MIPLAY_MEDIA_CHANGED_PLAYER_STATE) \<rparr>
                        else e1));
          set_device = (\<lambda>(ok, e). case miplay_json_read_state_aliases json (quoted device_state_keys) of
            None \<Rightarrow> (ok, e)
          | Some v \<Rightarrow> (True, apply_device_state (as_int v) e))
      in set_device (set_status (set_position (set_duration st))))"

definition json_object :: "byte list \<Rightarrow> media_event \<Rightarrow> bool \<times> media_event" where
  \<comment> \<open>\<open>miplay_parse_set_media_info_json_depth\<close> up to the nested objects\<close>
  "json_object json e = json_numbers json (json_texts json e)"

definition merge_text :: "u32 \<Rightarrow> nat \<Rightarrow> (media_event \<Rightarrow> byte list) \<Rightarrow> ((byte list \<Rightarrow> byte list) \<Rightarrow> media_event \<Rightarrow> media_event)
    \<Rightarrow> media_event \<Rightarrow> media_event \<Rightarrow> media_event" where
  "merge_text m n get upd nested e =
     (if has_bit (ev_changed nested) m \<and> \<not> has_bit (ev_changed e) m
      then upd (\<lambda>_. copy_text n (get nested)) (e \<lparr> ev_changed := ev_changed e OR m \<rparr>) else e)"

definition merge_int :: "u32 \<Rightarrow> (media_event \<Rightarrow> int) \<Rightarrow> ((int \<Rightarrow> int) \<Rightarrow> media_event \<Rightarrow> media_event)
    \<Rightarrow> media_event \<Rightarrow> media_event \<Rightarrow> media_event" where
  "merge_int m get upd nested e =
     (if \<not> has_bit (ev_changed e) m \<and> has_bit (ev_changed nested) m
      then upd (\<lambda>_. get nested) (e \<lparr> ev_changed := ev_changed e OR m \<rparr>) else e)"

definition merge_event :: "media_event \<Rightarrow> media_event \<Rightarrow> media_event" where
  \<comment> \<open>fields of the nested object that the outer one did not have\<close>
  "merge_event nested e =
     (merge_int MIPLAY_MEDIA_CHANGED_PLAYER_STATE ev_player_state ev_player_state_update nested
       (merge_int MIPLAY_MEDIA_CHANGED_DEVICE_STATE ev_device_state ev_device_state_update nested
         (merge_int MIPLAY_MEDIA_CHANGED_STATUS ev_status ev_status_update nested
           (merge_int MIPLAY_MEDIA_CHANGED_POSITION ev_position_ms ev_position_ms_update nested
             (merge_int MIPLAY_MEDIA_CHANGED_DURATION ev_duration_ms ev_duration_ms_update nested
               (merge_text MIPLAY_MEDIA_CHANGED_COVER_URL MIPLAY_COVER_SOURCE_MAX ev_cover_url ev_cover_url_update nested
                 (merge_text MIPLAY_MEDIA_CHANGED_ALBUM 128 ev_album ev_album_update nested
                   (merge_text MIPLAY_MEDIA_CHANGED_ARTIST 128 ev_artist ev_artist_update nested
                     (merge_text MIPLAY_MEDIA_CHANGED_TITLE 128 ev_title ev_title_update nested
                       (merge_text MIPLAY_MEDIA_CHANGED_AUDIO_ID 64 ev_audio_id ev_audio_id_update nested
                         (merge_text MIPLAY_MEDIA_CHANGED_ID 64 ev_id ev_id_update nested e)))))))))))"

text \<open>The allocations that can fail are numbered: 0 the text, 1 the nested text, and for
  each nested key two (the nested event, then the text of the nested call).\<close>

definition json_level1 :: "bool \<Rightarrow> byte list \<Rightarrow> bool \<times> media_event" where
  \<comment> \<open>the nested call, on a fresh event\<close>
  "json_level1 mem payload =
     (if payload = [] \<or> MIPLAY_MAX_FRAME_PAYLOAD < length payload \<or> \<not> mem then (False, miplay_media_event_init)
      else json_object (cstr payload) miplay_media_event_init)"

fun json_nested :: "(nat \<Rightarrow> bool) \<Rightarrow> nat \<Rightarrow> byte list \<Rightarrow> nat \<Rightarrow> string list \<Rightarrow> bool \<times> media_event \<Rightarrow> bool \<times> media_event" where
  "json_nested mem i json cap [] st = st"
| "json_nested mem i json cap (key # keys) (ok, e) =
     (case miplay_json_copy_string_aliases json (quoted (key # keys)) (replicate cap 0) of
        (False, _) \<Rightarrow> json_nested mem (i + 2) json cap keys (ok, e)
      | (True, buf) \<Rightarrow>
          let nested = cstr buf
          in if nested = [] \<or> (hd nested \<noteq> 123 \<and> hd nested \<noteq> 91) then json_nested mem (i + 2) json cap keys (ok, e)
             else if \<not> mem i then json_nested mem (i + 2) json cap keys (ok, e)
             else case json_level1 (mem (i + 1)) nested of
                    (False, _) \<Rightarrow> json_nested mem (i + 2) json cap keys (ok, e)
                  | (True, ne) \<Rightarrow> (True, merge_event ne e))"

definition miplay_parse_set_media_info_json :: "(nat \<Rightarrow> bool) \<Rightarrow> byte list \<Rightarrow> media_event \<Rightarrow> bool \<times> media_event" where
  "miplay_parse_set_media_info_json mem payload event =
     (if payload = [] \<or> MIPLAY_MAX_FRAME_PAYLOAD < length payload then (False, event)
      else if \<not> mem 0 then (False, event)
      else let json = cstr payload; st = json_object json event
           in if \<not> mem 1 then st
              else json_nested mem 2 json (length payload + 1) [''mediaInfo'', ''mediaInfoEx'', ''metadata''] st)"

definition miplay_parse_media_state_payload :: "(nat \<Rightarrow> bool) \<Rightarrow> byte list \<Rightarrow> media_event \<Rightarrow> bool \<times> media_event" where
  \<comment> \<open>allocation 8 is the scratch event, 9 what the notification parser needs\<close>
  "miplay_parse_media_state_payload mem payload event =
     (if payload = [] \<or> \<not> mem 8 then (False, event)
      else case miplay_parse_notify_payload (mem 9) payload (length payload) miplay_media_event_init of
             (True, e) \<Rightarrow> (True, e)
           | (False, _) \<Rightarrow>
               (case miplay_parse_set_media_info_json mem payload miplay_media_event_init of
                  (True, e) \<Rightarrow> (True, e)
                | (False, _) \<Rightarrow>
                    let scalar = (\<lambda>off.
                          let wire_state = opack_integer_to_int (ucast (opack_u32_be payload off));
                              ps = miplay_wire_state_to_player wire_state
                          in if ps = MIPLAY_PLAYER_STATE_UNKNOWN then (False, event)
                             else (True, event \<lparr> ev_device_state := wire_state, ev_player_state := ps,
                                     ev_changed := MIPLAY_MEDIA_CHANGED_DEVICE_STATE OR MIPLAY_MEDIA_CHANGED_PLAYER_STATE \<rparr>))
                    in if length payload = 4 then scalar 0
                       else if length payload = 5 \<and> payload ! 0 = 0 then scalar 1
                       else (False, event)))"

subsection \<open>The copy loop\<close>

lemma json_string_end: "json_string n (34 # r) acc = (True, acc)"
  by (simp add: json_string.simps)

lemma json_string_raw:
  "c \<noteq> 34 \<Longrightarrow> c \<noteq> 92 \<Longrightarrow>
   json_string n (c # r) acc = (if n \<le> length acc + 1 then (False, acc) else json_string n r (acc @ [c]))"
  by (subst json_string.simps) simp

lemma json_string_escape:
  "json_escape_char e = Some x \<Longrightarrow>
   json_string n (92 # e # r) acc = (if n \<le> length acc + 1 then (False, acc) else json_string n r (acc @ [x]))"
  by (subst json_string.simps) (auto simp: json_escape_char_def)

lemma json_string_u:
  "json_codepoint p = Some (cp, q) \<Longrightarrow>
   json_string n (92 # 117 # p) acc = (case miplay_json_append_codepoint n acc cp of
      None \<Rightarrow> (False, acc) | Some acc1 \<Rightarrow> json_string n q acc1)"
  by (subst json_string.simps) simp

lemma append_codepoint_bound:
  "miplay_json_append_codepoint n acc cp = Some acc' \<Longrightarrow> length acc' < n \<and> (\<exists>bs. acc' = acc @ bs)"
  by (auto simp: miplay_json_append_codepoint_def split: option.splits if_splits)

lemma json_string_bound:
  "json_string n p acc = (ok, acc') \<Longrightarrow> length acc < n \<Longrightarrow> length acc' < n \<and> (\<exists>bs. acc' = acc @ bs)"
proof (induction n p acc rule: json_string.induct)
  case (1 n p acc)
  show ?case
  proof (cases p)
    case Nil
    with "1.prems" show ?thesis by (simp add: json_string.simps)
  next
    case (Cons c r)
    note IH = "1.IH" [OF Cons]
    show ?thesis
    proof (cases "c = 34 \<or> c \<noteq> 92")
      case True
      show ?thesis
      proof (cases "c = 34 \<or> n \<le> length acc + 1")
        case True
        with Cons \<open>c = 34 \<or> c \<noteq> 92\<close> "1.prems" show ?thesis
          by (cases "c = 34") (auto simp: json_string_end json_string_raw)
      next
        case False
        with \<open>c = 34 \<or> c \<noteq> 92\<close> have c: "c \<noteq> 34" "c \<noteq> 92" "\<not> n \<le> length acc + 1" by auto
        with Cons "1.prems" have "json_string n r (acc @ [c]) = (ok, acc')" by (simp add: json_string_raw)
        from IH(1) [OF c this] c show ?thesis by auto
      qed
    next
      case False
      then have c: "c = 92" by simp
      show ?thesis
      proof (cases r)
        case Nil
        with Cons c "1.prems" show ?thesis by (simp add: json_string.simps)
      next
        case (Cons e q)
        show ?thesis
        proof (cases "e = 117")
          case True
          show ?thesis
          proof (cases "json_codepoint q")
            case None
            with Cons True \<open>p = c # r\<close> c "1.prems" show ?thesis by (subst (asm) json_string.simps) simp
          next
            case (Some cq)
            obtain cp q1 where cq: "cq = (cp, q1)" by fastforce
            show ?thesis
            proof (cases "miplay_json_append_codepoint n acc cp")
              case None
              with Some cq Cons True \<open>p = c # r\<close> c "1.prems" show ?thesis by (simp add: json_string_u)
            next
              case (Some acc1)
              note b = append_codepoint_bound [OF this]
              have "json_string n q1 acc1 = (ok, acc')"
                using Some \<open>json_codepoint q = Some cq\<close> cq Cons True \<open>p = c # r\<close> c "1.prems"
                by (simp add: json_string_u)
              from IH(2) [OF _ _ Cons True \<open>json_codepoint q = Some cq\<close> cq [symmetric] Some this] b c
              show ?thesis by auto
            qed
          qed
        next
          case False
          show ?thesis
          proof (cases "json_escape_char e")
            case None
            with False Cons \<open>p = c # r\<close> c "1.prems" show ?thesis by (subst (asm) json_string.simps) simp
          next
            case (Some x)
            show ?thesis
            proof (cases "n \<le> length acc + 1")
              case True
              with Some Cons \<open>p = c # r\<close> c "1.prems" show ?thesis by (auto simp: json_string_escape)
            next
              case room: False
              with Some Cons \<open>p = c # r\<close> c "1.prems" have "json_string n q (acc @ [x]) = (ok, acc')"
                by (simp add: json_string_escape)
              from IH(3) [OF _ _ Cons False Some room this] c room show ?thesis by auto
            qed
          qed
        qed
      qed
    qed
  qed
qed

lemma length_overwrite: "length bs \<le> length buf \<Longrightarrow> length (overwrite buf bs) = length buf"
  by (simp add: overwrite_def)

lemma copy_string_length:
  assumes "miplay_json_copy_string json key buf = (ok, buf')"
  shows "length buf' = length buf"
proof (cases "buf = [] \<or> miplay_json_find_value json key = None")
  case True
  with assms show ?thesis by (auto simp: miplay_json_copy_string_def split: if_splits)
next
  case False
  then obtain p where p: "miplay_json_find_value json key = Some p" and ne: "buf \<noteq> []" by auto
  obtain ok1 acc where j: "json_string (length buf) (tl p) [] = (ok1, acc)" by fastforce
  from json_string_bound [OF j] ne have "length acc < length buf" by simp
  with assms p ne j show ?thesis
    by (auto simp: miplay_json_copy_string_def Let_def length_overwrite split: if_splits)
qed

text \<open>The last byte of the array is never written, so a zero there stays.\<close>

lemma copy_string_last:
  assumes "miplay_json_copy_string json key buf = (ok, buf')" and "buf \<noteq> []" and "last buf = 0"
  shows "last buf' = 0"
proof (cases "miplay_json_find_value json key")
  case None
  with assms show ?thesis by (simp add: miplay_json_copy_string_def)
next
  case (Some p)
  obtain ok1 acc where j: "json_string (length buf) (tl p) [] = (ok1, acc)" by fastforce
  from json_string_bound [OF j] assms(2) have acc: "length acc < length buf" by simp
  have "last (overwrite buf (acc @ [0])) = 0"
    using acc assms(3) by (cases "length acc = length buf - 1") (auto simp: overwrite_def)
  moreover have "last (overwrite buf acc) = 0" using acc assms(3) by (simp add: overwrite_def)
  ultimately show ?thesis
    using assms Some j by (auto simp: miplay_json_copy_string_def Let_def split: if_splits)
qed

lemma trim_length: "length (trim s) \<le> length s"
  using length_dropWhile_le [of is_space "rev (dropWhile is_space s)"] length_dropWhile_le [of is_space s]
  by (simp add: trim_def)

lemma cstr_last: "buf \<noteq> [] \<Longrightarrow> last buf = 0 \<Longrightarrow> length (cstr buf) < length buf"
proof (induction buf)
  case (Cons b buf)
  then show ?case by (cases "buf = []") (auto simp: cstr_def)
qed simp

lemma aliases_last:
  "miplay_json_copy_string_aliases json keys buf = (ok, buf') \<Longrightarrow> buf \<noteq> [] \<Longrightarrow> last buf = 0 \<Longrightarrow>
   length buf' = length buf \<and> last buf' = 0"
proof (induction keys arbitrary: buf)
  case Nil
  then show ?case by simp
next
  case (Cons key keys)
  obtain ok1 buf1 where c: "miplay_json_copy_string json key buf = (ok1, buf1)" by fastforce
  have b1: "length buf1 = length buf" "last buf1 = 0" "buf1 \<noteq> []"
    using copy_string_length [OF c] copy_string_last [OF c Cons.prems(2,3)] Cons.prems(2) by auto
  let ?t = "trim (cstr buf1)"
  have t: "length ?t + 1 \<le> length buf1"
    using trim_length [of "cstr buf1"] cstr_last [OF b1(3,2)] by simp
  show ?case
  proof (cases "ok1 \<and> ?t \<noteq> []")
    case True
    with Cons.prems(1) c have "buf' = overwrite buf1 (?t @ [0])" by (simp add: Let_def)
    then show ?thesis using t b1 by (cases "length ?t + 1 = length buf1") (auto simp: overwrite_def)
  next
    case False
    with Cons.prems(1) c have "miplay_json_copy_string_aliases json keys buf1 = (ok, buf')"
      by (cases ok1) (auto simp: Let_def)
    from Cons.IH [OF this b1(3,2)] b1(1) show ?thesis by simp
  qed
qed

lemma json_text_bound:
  assumes "length field < n" "json_text json names n field = (ok, v)"
  shows "length v < n"
proof -
  obtain buf where b: "miplay_json_copy_string_aliases json (quoted names) (array_of n field) = (ok, buf)" "v = cstr buf"
    using assms(2) by (auto simp: json_text_def split: prod.splits)
  have "array_of n field \<noteq> []" "last (array_of n field) = 0" "length (array_of n field) = n"
    using assms(1) by (auto simp: array_of_def)
  with aliases_last [OF b(1)] have "length buf = n" "last buf = 0" by simp_all
  with assms(1) cstr_last [of buf] show ?thesis by (fastforce simp: b(2))
qed

definition texts_fit :: "media_event \<Rightarrow> bool" where
  "texts_fit e \<longleftrightarrow> length (ev_id e) < 64 \<and> length (ev_audio_id e) < 64 \<and> length (ev_title e) < 128
     \<and> length (ev_artist e) < 128 \<and> length (ev_album e) < 128 \<and> length (ev_cover_url e) < MIPLAY_COVER_SOURCE_MAX"

lemma json_texts_fit: "texts_fit e \<Longrightarrow> texts_fit (snd (json_texts json e))"
  by (auto simp: json_texts_def texts_fit_def Let_def dest: json_text_bound split: prod.splits)

lemma json_numbers_fit: "texts_fit (snd st) \<Longrightarrow> texts_fit (snd (json_numbers json st))"
  by (auto simp: json_numbers_def texts_fit_def Let_def apply_device_state_def split: prod.splits option.splits)

lemma merge_text_fit:
  assumes "texts_fit e"
  shows "texts_fit (merge_text m 64 g ev_id_update x e)" "texts_fit (merge_text m 64 g ev_audio_id_update x e)"
    "texts_fit (merge_text m 128 g ev_title_update x e)" "texts_fit (merge_text m 128 g ev_artist_update x e)"
    "texts_fit (merge_text m 128 g ev_album_update x e)"
    "texts_fit (merge_text m MIPLAY_COVER_SOURCE_MAX g ev_cover_url_update x e)"
  using assms by (simp_all add: merge_text_def texts_fit_def)

lemma merge_int_fit:
  assumes "texts_fit e"
  shows "texts_fit (merge_int m g ev_duration_ms_update x e)" "texts_fit (merge_int m g ev_position_ms_update x e)"
    "texts_fit (merge_int m g ev_status_update x e)" "texts_fit (merge_int m g ev_device_state_update x e)"
    "texts_fit (merge_int m g ev_player_state_update x e)"
  using assms by (simp_all add: merge_int_def texts_fit_def)

lemma merge_fit: "texts_fit e \<Longrightarrow> texts_fit (merge_event nested e)"
  unfolding merge_event_def by (intro merge_text_fit merge_int_fit)

lemma nested_fit: "texts_fit (snd st) \<Longrightarrow> texts_fit (snd (json_nested mem i json cap keys st))"
proof (induction keys arbitrary: i st)
  case Nil
  then show ?case by simp
next
  case (Cons key keys)
  obtain ok e where st: "st = (ok, e)" by fastforce
  with Cons show ?case
    by (auto simp: Let_def merge_fit split: prod.splits bool.splits)
qed

lemma parse_json_fit:
  assumes "texts_fit e"
  shows "texts_fit (snd (miplay_parse_set_media_info_json mem payload e))"
proof -
  have "texts_fit (snd (json_object json e))" for json
    unfolding json_object_def by (intro json_numbers_fit json_texts_fit assms)
  then show ?thesis
    using assms by (simp add: miplay_parse_set_media_info_json_def Let_def nested_fit)
qed

subsection \<open>UTF-8\<close>

lemma or_high: "(x::nat) < 2 ^ k \<Longrightarrow> push_bit k a OR x = a * 2 ^ k + x"
proof -
  assume x: "x < 2 ^ k"
  have "take_bit k x = x" using x by (simp add: take_bit_nat_eq_self_iff)
  then have nb: "\<not> bit x n" if "k \<le> n" for n using that by (metis bit_take_bit_iff not_le)
  have "push_bit k a OR x = push_bit k a + x"
    by (rule disjunctive_add [symmetric]) (auto simp: bit_push_bit_iff_nat nb)
  then show ?thesis by (simp add: push_bit_eq_mult)
qed

lemma mask6: "(x::nat) AND 63 = x mod 64"
  using take_bit_eq_mask [of 6 x] by (simp add: mask_eq_exp_minus_1 take_bit_eq_mod)

text \<open>The bytes of an encoding as numbers.\<close>

lemma unat_drop: "unat (drop_bit k w) = unat w div 2 ^ k" for w :: u32
proof -
  have "unat (drop_bit k w) = drop_bit k (unat w)"
    by (rule bit_eqI) (auto simp: bit_unsigned_iff bit_drop_bit_eq dest: bit_imp_le_length)
  then show ?thesis by (simp only: drop_bit_eq_div)
qed

lemma unat_cont:
  fixes w :: u32
  shows "unat (ucast (0x80 OR (drop_bit k w AND 0x3F)) :: byte) = 128 + (unat w div 2 ^ k) mod 64"
proof -
  have "unat (0x80 OR (drop_bit k w AND 0x3F)) = 128 OR ((unat w div 2 ^ k) AND 63)"
    by (simp only: unsigned_or_eq unsigned_and_eq unat_drop) simp
  also have "\<dots> = 128 + (unat w div 2 ^ k) mod 64"
    using or_high [of "(unat w div 2 ^ k) mod 64" 7 1] by (simp add: mask6 less_trans [of _ 64])
  finally show ?thesis by (simp add: unsigned_ucast_eq take_bit_eq_mod)
qed

lemma unat_lead:
  fixes w :: u32
  assumes "unat w div 2 ^ k < 2 ^ j" "a * 2 ^ j + 2 ^ j \<le> 256" "c = of_nat (a * 2 ^ j)"
  shows "unat (ucast (c OR drop_bit k w) :: byte) = a * 2 ^ j + unat w div 2 ^ k"
proof -
  have "1 \<le> (2 :: nat) ^ j" by simp
  with assms(2) have small: "a * 2 ^ j < 256" by linarith
  then have "unat c = a * 2 ^ j" by (simp only: assms(3) unat_of_nat) simp
  then have c: "unat c = push_bit j a" by (simp add: push_bit_eq_mult)
  have "unat (c OR drop_bit k w) = push_bit j a OR (unat w div 2 ^ k)"
    by (simp only: unsigned_or_eq unat_drop c)
  also have "\<dots> = a * 2 ^ j + unat w div 2 ^ k" by (rule or_high [OF assms(1)])
  finally show ?thesis using assms(1,2) by (simp add: unsigned_ucast_eq take_bit_eq_mod)
qed

fun utf8_val :: "byte list \<Rightarrow> nat option" where
  \<comment> \<open>RFC 3629: the code point of one encoded character\<close>
  "utf8_val [a] = (if a < 0x80 then Some (unat a) else None)"
| "utf8_val [a, b] =
     (if 0xC0 \<le> a \<and> a < 0xE0 \<and> 0x80 \<le> b \<and> b < 0xC0
      then Some ((unat a - 0xC0) * 64 + (unat b - 0x80)) else None)"
| "utf8_val [a, b, c] =
     (if 0xE0 \<le> a \<and> a < 0xF0 \<and> 0x80 \<le> b \<and> b < 0xC0 \<and> 0x80 \<le> c \<and> c < 0xC0
      then Some (((unat a - 0xE0) * 64 + (unat b - 0x80)) * 64 + (unat c - 0x80)) else None)"
| "utf8_val [a, b, c, d] =
     (if 0xF0 \<le> a \<and> a < 0xF8 \<and> 0x80 \<le> b \<and> b < 0xC0 \<and> 0x80 \<le> c \<and> c < 0xC0 \<and> 0x80 \<le> d \<and> d < 0xC0
      then Some ((((unat a - 0xF0) * 64 + (unat b - 0x80)) * 64 + (unat c - 0x80)) * 64 + (unat d - 0x80)) else None)"
| "utf8_val _ = None"

lemma utf8_digits:
  fixes n :: nat
  shows "n div 64 * 64 + n mod 64 = n"
    "(n div 4096 * 64 + n div 64 mod 64) * 64 + n mod 64 = n"
    "((n div 262144 * 64 + n div 4096 mod 64) * 64 + n div 64 mod 64) * 64 + n mod 64 = n"
proof -
  have q: "n div 4096 = n div 64 div 64" "n div 262144 = n div 64 div 64 div 64"
    by (simp_all only: div_mult2_eq [symmetric]) simp_all
  show "n div 64 * 64 + n mod 64 = n" by simp
  then show "(n div 4096 * 64 + n div 64 mod 64) * 64 + n mod 64 = n" unfolding q by simp
  show "((n div 262144 * 64 + n div 4096 mod 64) * 64 + n div 64 mod 64) * 64 + n mod 64 = n" unfolding q by simp
qed

lemma utf8_val_bytes:
  assumes "cp \<le> 0x10FFFF"
  shows "\<exists>bs. utf8_bytes cp = Some bs \<and> utf8_val bs = Some cp \<and> length bs \<le> 4 \<and> (0 < cp \<longrightarrow> 0 \<notin> set bs)"
proof -
  let ?w = "of_nat cp :: u32"
  have w: "unat ?w = cp" using assms by (simp add: unat_of_nat)
  have cont: "unat (ucast (0x80 OR (?w AND 0x3F)) :: byte) = 128 + cp mod 64"
    "unat (ucast (0x80 OR (drop_bit 6 ?w AND 0x3F)) :: byte) = 128 + cp div 64 mod 64"
    "unat (ucast (0x80 OR (drop_bit 12 ?w AND 0x3F)) :: byte) = 128 + cp div 4096 mod 64"
    using unat_cont [of 0 ?w] unat_cont [of 6 ?w] unat_cont [of 12 ?w] by (simp_all add: w)
  note val = word_le_nat_alt word_less_nat_alt
  have nz: "(0 :: byte) \<noteq> b" if "unat b > 0" for b using that by auto
  consider "cp < 0x80" | "0x80 \<le> cp" "cp < 0x800" | "0x800 \<le> cp" "cp < 0x10000" | "0x10000 \<le> cp" by linarith
  then show ?thesis
  proof cases
    case 1
    then have "unat (ucast ?w :: byte) = cp" by (simp add: unsigned_ucast_eq take_bit_eq_mod w)
    with 1 nz [of "ucast ?w"] show ?thesis by (simp add: utf8_bytes_def Let_def val)
  next
    case 2
    have "unat (ucast (0xC0 OR drop_bit 6 ?w) :: byte) = 192 + cp div 64"
      using 2 unat_lead [of ?w 6 5 6 "0xC0"] by (simp add: w)
    moreover have "cp div 64 < 32" using 2 by simp
    ultimately show ?thesis using 2 utf8_digits(1) [of cp] cont(1) nz
      by (simp add: utf8_bytes_def Let_def val)
  next
    case 3
    have "unat (ucast (0xE0 OR drop_bit 12 ?w) :: byte) = 224 + cp div 4096"
      using 3 unat_lead [of ?w 12 4 14 "0xE0"] by (simp add: w)
    moreover have "cp div 4096 < 16" using 3 by simp
    ultimately show ?thesis using 3 utf8_digits(2) [of cp] cont nz
      by (simp add: utf8_bytes_def Let_def val)
  next
    case 4
    have "unat (ucast (0xF0 OR drop_bit 18 ?w) :: byte) = 240 + cp div 262144"
      using 4 assms unat_lead [of ?w 18 3 30 "0xF0"] by (simp add: w)
    moreover have "cp div 262144 < 8" using assms by simp
    ultimately show ?thesis using 4 assms utf8_digits(3) [of cp] cont nz
      by (simp add: utf8_bytes_def Let_def val)
  qed
qed

subsection \<open>String literals\<close>

definition hex4 :: "nat \<Rightarrow> byte list" where
  "hex4 n = [hex_lo ! (n div 4096 mod 16), hex_lo ! (n div 256 mod 16), hex_lo ! (n div 16 mod 16), hex_lo ! (n mod 16)]"

lemma hex_digit_lo: "d < 16 \<Longrightarrow> miplay_json_hex_digit (hex_lo ! d) = Some d"
proof -
  assume "d < 16"
  then have "d \<in> {0, 1, 2, 3, 4, 5, 6, 7, 8, 9, 10, 11, 12, 13, 14, 15}"
    unfolding insert_iff empty_iff by presburger
  then show ?thesis by (elim insertE emptyE) (simp_all add: hex_lo_def str_def miplay_json_hex_digit_def)
qed

lemma json_hex_hex4: "n < 65536 \<Longrightarrow> json_hex 4 0 (hex4 n @ p) = Some n"
proof -
  assume n: "n < 65536"
  have q: "n div 256 = n div 16 div 16" "n div 4096 = n div 16 div 16 div 16"
    by (simp_all only: div_mult2_eq [symmetric]) simp_all
  have "n div 4096 mod 16 = n div 4096" using n by simp
  then have m: "n div 16 div 16 div 16 mod 16 = n div 16 div 16 div 16" unfolding q .
  have "((n div 16 div 16 div 16 * 16 + n div 16 div 16 mod 16) * 16 + n div 16 mod 16) * 16 + n mod 16 = n" by simp
  moreover have "(4 :: nat) = Suc (Suc (Suc (Suc 0)))" by simp
  moreover have "miplay_json_hex_digit (hex_lo ! (n div 16 div 16 div 16)) = Some (n div 16 div 16 div 16)"
    using mod_less_divisor [of 16 "n div 16 div 16 div 16"] unfolding m by (intro hex_digit_lo) simp
  ultimately show ?thesis unfolding hex4_def q m
    by (simp only: json_hex.simps append.simps) (simp add: hex_digit_lo mult.commute)
qed

text \<open>The ways a JSON text can write a piece of a string: a plain byte, a two-character
  escape, or \<open>\uXXXX\<close> (a surrogate pair beyond the BMP).\<close>

datatype json_char = Raw byte | Esc byte | Uni nat

definition json_u :: "nat \<Rightarrow> byte list" where
  "json_u cp =
     (if cp < 0x10000 then 92 # 117 # hex4 cp
      else 92 # 117 # hex4 (0xD800 + (cp - 0x10000) div 1024) @ 92 # 117 # hex4 (0xDC00 + (cp - 0x10000) mod 1024))"

fun json_char_ok :: "json_char \<Rightarrow> bool" where
  "json_char_ok (Raw b) \<longleftrightarrow> b \<noteq> 34 \<and> b \<noteq> 92"
| "json_char_ok (Esc e) \<longleftrightarrow> json_escape_char e \<noteq> None"
| "json_char_ok (Uni cp) \<longleftrightarrow> cp \<le> 0x10FFFF \<and> \<not> (0xD800 \<le> cp \<and> cp \<le> 0xDFFF)"

fun json_char_enc :: "json_char \<Rightarrow> byte list" where
  "json_char_enc (Raw b) = [b]"
| "json_char_enc (Esc e) = [92, e]"
| "json_char_enc (Uni cp) = json_u cp"

fun json_char_val :: "json_char \<Rightarrow> byte list" where
  "json_char_val (Raw b) = [b]"
| "json_char_val (Esc e) = (case json_escape_char e of Some x \<Rightarrow> [x] | None \<Rightarrow> [])"
| "json_char_val (Uni cp) = (case utf8_bytes cp of Some bs \<Rightarrow> bs | None \<Rightarrow> [])"

lemma json_codepoint_u:
  assumes "json_char_ok (Uni cp)"
  shows "\<exists>q. json_u cp = 92 # 117 # q \<and> json_codepoint (q @ r) = Some (cp, r)"
proof (cases "cp < 0x10000")
  case True
  have "drop 4 (hex4 cp @ r) = r" by (simp add: hex4_def)
  with True assms json_hex_hex4 [of cp r] show ?thesis
    by (auto simp: json_u_def json_codepoint_def Let_def)
next
  case False
  define c where "c = cp - 0x10000"
  let ?hi = "0xD800 + c div 1024" and ?lo = "0xDC00 + c mod 1024"
  have c: "c < 0x100000" "cp = 0x10000 + c" using assms False by (auto simp: c_def)
  have hi: "?hi < 65536" "?hi \<le> 0xDBFF" using c(1) by auto
  have lo: "?lo < 65536" "?lo \<le> 0xDFFF" by (simp_all add: less_imp_le_nat)
  let ?q = "hex4 ?hi @ 92 # 117 # hex4 ?lo"
  have d: "drop 4 (?q @ r) = 92 # 117 # hex4 ?lo @ r" "drop 4 (hex4 ?lo @ r) = r" by (simp_all add: hex4_def)
  have "json_codepoint (?q @ r) = Some (0x10000 + (?hi - 0xD800) * 1024 + (?lo - 0xDC00), r)"
    using json_hex_hex4 [OF hi(1), of "92 # 117 # hex4 ?lo @ r"] json_hex_hex4 [OF lo(1), of r] hi(2) lo(2) d
    by (simp add: json_codepoint_def Let_def del: drop_append)
  moreover have "0x10000 + (?hi - 0xD800) * 1024 + (?lo - 0xDC00) = cp" by (simp add: c(2))
  ultimately show ?thesis using False by (simp add: json_u_def c_def)
qed

lemma json_string_literal:
  "list_all json_char_ok cs \<Longrightarrow> length acc + length (concat (map json_char_val cs)) < n \<Longrightarrow>
   json_string n (concat (map json_char_enc cs) @ 34 # r) acc = (True, acc @ concat (map json_char_val cs))"
proof (induction cs arbitrary: acc)
  case Nil
  then show ?case by (simp add: json_string_end)
next
  case (Cons x cs)
  show ?case
  proof (cases x)
    case (Raw b)
    with Cons show ?thesis by (simp add: json_string_raw)
  next
    case (Esc e)
    with Cons.prems(1) obtain y where "json_escape_char e = Some y" by auto
    with Esc Cons show ?thesis by (simp add: json_string_escape)
  next
    case (Uni cp)
    with Cons.prems(1) have ok: "json_char_ok (Uni cp)" by simp
    then obtain q where q: "json_u cp = 92 # 117 # q"
      "json_codepoint (q @ concat (map json_char_enc cs) @ 34 # r) = Some (cp, concat (map json_char_enc cs) @ 34 # r)"
      using json_codepoint_u by blast
    obtain bs where bs: "utf8_bytes cp = Some bs" using ok utf8_val_bytes by fastforce
    have "miplay_json_append_codepoint n acc cp = Some (acc @ bs)"
      using Cons.prems(2) Uni bs by (simp add: miplay_json_append_codepoint_def)
    with Uni Cons q bs show ?thesis by (simp add: json_string_u)
  qed
qed

lemma json_string_overflow:
  "34 \<notin> set v \<Longrightarrow> 92 \<notin> set v \<Longrightarrow> length acc < n \<Longrightarrow> n \<le> length acc + length v \<Longrightarrow>
   json_string n (v @ r) acc = (False, acc @ take (n - 1 - length acc) v)"
proof (induction v arbitrary: acc)
  case Nil
  then show ?case by simp
next
  case (Cons b v)
  show ?case
  proof (cases "n \<le> length acc + 1")
    case True
    with Cons.prems have "n - 1 - length acc = 0" by simp
    with True Cons.prems show ?thesis by (simp add: json_string_raw)
  next
    case False
    then have "n - 1 - length acc = Suc (n - 1 - length (acc @ [b]))" by simp
    with False Cons show ?thesis by (simp add: json_string_raw)
  qed
qed

subsection \<open>Properties\<close>



text \<open>C33: Metadata never overruns the event. For every payload and every pattern of
  failed allocations, parsing SetMediaInfo leaves each text of the event shorter than its
  array, nested objects included, so each stays NUL-terminated.\<close>

theorem set_media_info_texts_fit:
  "texts_fit (snd (miplay_parse_set_media_info_json mem payload miplay_media_event_init))"
  by (rule parse_json_fit) (simp add: texts_fit_def miplay_media_event_init_def MIPLAY_COVER_SOURCE_MAX_def)

text \<open>What a text that is too long leaves behind. The copy fails, so the field is not
  marked as changed, but the buffer then holds the first \<open>out_size - 1\<close> bytes of the value
  as a C string: the destination is not empty.\<close>

lemma copy_string_too_long:
  assumes "miplay_json_find_value json key = Some (34 # v @ r)"
    and "34 \<notin> set v" "92 \<notin> set v" "0 \<notin> set v" and "buf \<noteq> []" "last buf = 0" "length buf \<le> length v"
  shows "\<exists>buf'. miplay_json_copy_string json key buf = (False, buf') \<and> cstr buf' = take (length buf - 1) v"
proof -
  let ?t = "take (length buf - 1) v"
  have "json_string (length buf) (v @ r) [] = (False, ?t)"
    using json_string_overflow [of v "[]" "length buf" r] assms by simp
  with assms(1,5) have c: "miplay_json_copy_string json key buf = (False, overwrite buf ?t)"
    by (simp add: miplay_json_copy_string_def)
  have "drop (length buf - 1) buf = [0]" using assms(5,6)
    by (metis append_butlast_last_id append_eq_conv_conj length_butlast)
  moreover have "length ?t = length buf - 1" using assms(5,7) by (cases buf) auto
  ultimately have o: "overwrite buf ?t = ?t @ [0]" by (simp add: overwrite_def)
  have "0 \<notin> set ?t" using assms(4) by (auto dest: in_set_takeD)
  then have "cstr (?t @ [0]) = ?t" by (rule cstr_nul)
  with c o show ?thesis by auto
qed

end
