(* ===== verification/Identity.thy ===== *)
theory Identity
  imports Streams Session
begin

text \<open>
  Who the receiver is and how the two ends authenticate (\<open>miplay.c\<close>: \<open>b64_encode_3\<close>,
  \<open>hex_to_lower\<close>, \<open>init_device_identity\<close>, \<open>hmac_sha1\<close>, \<open>hmac_sha256\<close>, \<open>derive_session_key\<close>,
  \<open>generate_auth_msg\<close>, \<open>generate_challenge\<close>, \<open>build_device_info_payload\<close>, and the numeric
  device id of \<open>handle_client\<close>). The hash functions are \<open>mbedtls\<close>, outside the repository:
  they are the fields of \<open>hashes\<close>, and \<open>hashes_ok\<close> is what the code relies on, the length
  of their results. Random words are arguments. Numbers have the byte order of the target:
  an IP address is stored with its first byte lowest.
\<close>

record hashes =
  h_md5 :: "byte list \<Rightarrow> byte list"
  h_sha1 :: "byte list \<Rightarrow> byte list"
  h_sha256 :: "byte list \<Rightarrow> byte list"

definition hashes_ok :: "hashes \<Rightarrow> bool" where
  "hashes_ok h \<longleftrightarrow> (\<forall>m. length (h_md5 h m) = 16 \<and> length (h_sha1 h m) = 20 \<and> length (h_sha256 h m) = 32)"

subsection \<open>Base64 and hexadecimal\<close>

definition b64_tab :: "byte list" where
  "b64_tab = str ''ABCDEFGHIJKLMNOPQRSTUVWXYZabcdefghijklmnopqrstuvwxyz0123456789+/''"

definition b64url :: "byte list" where
  "b64url = str ''ABCDEFGHIJKLMNOPQRSTUVWXYZabcdefghijklmnopqrstuvwxyz0123456789-_''"

definition pack3 :: "byte \<Rightarrow> byte \<Rightarrow> byte \<Rightarrow> u32" where
  "pack3 a b c = push_bit 16 (ucast a) OR push_bit 8 (ucast b) OR ucast c"

definition sextet :: "u32 \<Rightarrow> nat \<Rightarrow> nat" where
  "sextet v k = unat (drop_bit k v AND 63)"

definition b64_quad :: "byte list \<Rightarrow> u32 \<Rightarrow> byte list" where
  "b64_quad tab v = [tab ! sextet v 18, tab ! sextet v 12, tab ! sextet v 6, tab ! sextet v 0]"

definition b64_encode_3 :: "byte \<Rightarrow> byte \<Rightarrow> byte \<Rightarrow> byte list" where
  "b64_encode_3 a b c = b64_quad b64_tab (pack3 a b c)"

fun b64_encode :: "byte list \<Rightarrow> byte list" where
  \<comment> \<open>the loop and the two tails at the end of \<open>init_device_identity\<close>\<close>
  "b64_encode (a # b # c # r) = b64_quad b64_tab (pack3 a b c) @ b64_encode r"
| "b64_encode [a, b] = take 3 (b64_quad b64_tab (pack3 a b 0)) @ [61]"
| "b64_encode [a] = take 2 (b64_quad b64_tab (pack3 a 0 0)) @ [61, 61]"
| "b64_encode [] = []"

definition hex_to_lower :: "byte list \<Rightarrow> byte list" where
  "hex_to_lower src = concat (map (hex2 hex_lo) src)"

definition hex_upper :: "byte list \<Rightarrow> byte list" where
  \<comment> \<open>a sequence of \<open>%02X\<close>\<close>
  "hex_upper src = concat (map (hex2 hex_up) src)"

subsection \<open>Device identity\<close>

record identity =
  s_mac :: "byte list"
  s_device_id :: "byte list"
  s_inst_name :: "byte list"
  s_idhash :: "byte list"
  s_appsdata :: "byte list"
  s_mac_b64 :: "byte list"
  s_uuid :: "byte list"
  s_lyra_appdata :: "byte list"

definition short_id :: "byte list \<Rightarrow> byte list" where
  \<comment> \<open>the first three base64url characters of the hash\<close>
  "short_id hash = take 3 (b64_quad b64url (pack3 (hash ! 0) (hash ! 1) (hash ! 2)))"

definition inst_suffix :: "byte list \<Rightarrow> byte list" where
  "inst_suffix hash = map (\<lambda>i.
     let byte_idx = (i * 6) div 8; bit_offset = (i * 6) mod 8;
         val = pack3 (hash ! byte_idx) (if byte_idx + 1 < 32 then hash ! (byte_idx + 1) else 0)
                 (if byte_idx + 2 < 32 then hash ! (byte_idx + 2) else 0)
     in b64url ! sextet val (18 - bit_offset)) [0..<10]"

definition uuid_text :: "byte list \<Rightarrow> byte list" where
  \<comment> \<open>version 4, variant 1, with the dashes\<close>
  "uuid_text md5 =
     (let u = md5[6 := (md5 ! 6 AND 0x0F) OR 0x40, 8 := (md5 ! 8 AND 0x3F) OR 0x80]; h = hex_to_lower u
      in take 8 h @ [45] @ take 4 (drop 8 h) @ [45] @ take 4 (drop 12 h) @ [45] @ take 4 (drop 16 h)
         @ [45] @ drop 20 h)"

definition lyra_appdata :: "byte list \<Rightarrow> byte list" where
  "lyra_appdata mac =
     [0x00, 0x40, 0x03] @ [mac ! 2, mac ! 3, mac ! 4, mac ! 5]
     @ [0x00, 0x05, 0x19, 0x24, 0x10, 0x01, 0x03, 0x0a, 0x03, 0x01, 0xda, 0xae, 0x01, 0x01, 0x80, 0x02]
     @ of_nat (length (str ''ESP-1.85c'')) # str ''ESP-1.85c'' @ [0x25, 0x01, 0x03]"

definition init_device_identity :: "hashes \<Rightarrow> byte list \<Rightarrow> identity" where
  "init_device_identity h mac =
     (let device_id = hex_upper [mac ! 2, mac ! 3, mac ! 4, mac ! 5];
          hash = h_sha256 h device_id;
          sid = short_id hash
      in \<lparr> s_mac = mac, s_device_id = device_id,
           s_inst_name = str ''ESP-1.85c('' @ inst_suffix hash @ str '')'',
           s_idhash = b64_encode_3 (sid ! 0) (sid ! 1) (sid ! 2),
           s_appsdata = str ''gQAEBIMiww=='',
           s_mac_b64 = b64_encode_3 (mac ! 0) (mac ! 1) (mac ! 2) @ b64_encode_3 (mac ! 3) (mac ! 4) (mac ! 5),
           s_uuid = uuid_text (h_md5 h (mac @ str ''miplay-esp32-dlna-uuid'' @ [0])),
           s_lyra_appdata = b64_encode (lyra_appdata mac) \<rparr>)"

subsection \<open>HMAC\<close>

definition hmac_pad :: "(byte list \<Rightarrow> byte list) \<Rightarrow> byte list \<Rightarrow> byte \<Rightarrow> byte list" where
  \<comment> \<open>the key, hashed when longer than a block, zero-padded to 64 bytes, XOR a constant\<close>
  "hmac_pad hash key x =
     (let k = (if 64 < length key then hash key else key)
      in map (\<lambda>b. b XOR x) (k @ replicate (64 - length k) 0))"

definition hmac_sha1 :: "hashes \<Rightarrow> byte list \<Rightarrow> byte list \<Rightarrow> byte list" where
  "hmac_sha1 h key msg =
     (let inner = h_sha1 h (hmac_pad (h_sha1 h) key 0x36 @ msg)
      in h_sha1 h (hmac_pad (h_sha1 h) key 0x5C @ inner))"

definition hmac_sha256 :: "hashes \<Rightarrow> byte list \<Rightarrow> byte list \<Rightarrow> byte list" where
  "hmac_sha256 h key msg =
     (let inner = h_sha256 h (hmac_pad (h_sha256 h) key 0x36 @ msg)
      in h_sha256 h (hmac_pad (h_sha256 h) key 0x5C @ inner))"

subsection \<open>Session keys and challenges\<close>

definition ip_bytes :: "u32 \<Rightarrow> byte list" where
  "ip_bytes ip = [ucast ip, ucast (drop_bit 8 ip), ucast (drop_bit 16 ip), ucast (drop_bit 24 ip)]"

definition endpoint_text :: "u32 \<Rightarrow> u16 \<Rightarrow> byte list" where
  \<comment> \<open>\<open>"%u.%u.%u.%u%u"\<close>\<close>
  "endpoint_text ip port =
     fmt_dec (unat (ip_bytes ip ! 0)) @ [46] @ fmt_dec (unat (ip_bytes ip ! 1)) @ [46]
     @ fmt_dec (unat (ip_bytes ip ! 2)) @ [46] @ fmt_dec (unat (ip_bytes ip ! 3)) @ fmt_dec (unat port)"

definition key_text :: "u32 \<Rightarrow> u16 \<Rightarrow> u32 \<Rightarrow> u16 \<Rightarrow> byte list" where
  \<comment> \<open>what is hashed: own endpoint, then the peer's, digits as letters\<close>
  "key_text peer_ip peer_port local_ip local_port =
     map (\<lambda>b. if is_digit b then 97 + (b - 48) else b)
       (endpoint_text local_ip local_port @ endpoint_text peer_ip peer_port)"

definition derive_session_key :: "hashes \<Rightarrow> u32 \<Rightarrow> u16 \<Rightarrow> u32 \<Rightarrow> u16 \<Rightarrow> ctl \<Rightarrow> ctl" where
  "derive_session_key h peer_ip peer_port local_ip local_port c =
     (let auth_key = hex_to_lower (h_md5 h (key_text peer_ip peer_port local_ip local_port))
      in c \<lparr> s_aes_key := take 16 auth_key, s_encrypt_iv := take 16 auth_key, s_decrypt_iv := take 16 auth_key,
             s_auth_key := take 32 auth_key @ [0], s_has_session_key := True \<rparr>)"

definition generate_auth_msg :: "u32 list \<Rightarrow> ctl \<Rightarrow> ctl" where
  \<comment> \<open>four words from \<open>esp_random\<close>\<close>
  "generate_auth_msg rs c = c \<lparr> s_auth_msg := hex_to_lower (concat (map ip_bytes (take 4 rs))) @ [0] \<rparr>"

definition generate_challenge :: "u32 \<Rightarrow> u32 \<Rightarrow> nat \<Rightarrow> byte list" where
  "generate_challenge hi lo out_max =
     (let r = push_bit 32 (ucast hi) OR ucast lo :: u64; val = unat r mod 10 ^ 16
      in take (out_max - 1) (if val < 10 ^ 15 then str ''1'' @ fmt_dec0 15 val else fmt_dec0 16 val))"

definition numeric_device_id :: "hashes \<Rightarrow> byte list \<Rightarrow> byte list" where
  \<comment> \<open>the payload of frame 0x28 in \<open>handle_client\<close>\<close>
  "numeric_device_id h mac = take 15 (fmt_dec0 14 (unat (be_word (take 8 (h_md5 h (hex_upper mac))) :: u64) mod 10 ^ 14))"

subsection \<open>Device information\<close>

definition info_field :: "byte list \<times> byte list \<Rightarrow> byte list" where
  "info_field = (\<lambda>(key, val). of_nat (length key) # key @ [0x0C] @ be16 (of_nat (length val)) @ val)"

definition device_fields :: "byte list \<Rightarrow> (byte list \<times> byte list) list" where
  "device_fields device_id =
     [(str ''alonePlayCapacity'', str ''0''), (str ''canAlonePlayCtrl'', str ''1''), (str ''canHeadsetCtrl'', str ''0''),
      (str ''canRevCtrl'', str ''1''), (str ''channel'', []), (str ''deviceId'', device_id),
      (str ''deviceType'', str ''2''), (str ''model'', str ''Android TV''), (str ''needAblum'', str ''1''),
      (str ''needLrc'', str ''1''), (str ''needPos'', str ''1''), (str ''romVersion'', []), (str ''support'', str ''audio'')]"

fun info_body :: "nat \<Rightarrow> byte list \<Rightarrow> (byte list \<times> byte list) list \<Rightarrow> byte list option" where
  \<comment> \<open>the loop over the fields, into a buffer of \<open>cap\<close> bytes\<close>
  "info_body cap body [] = Some body"
| "info_body cap body ((key, val) # fs) =
     (if cap < length body + 1 + length key + 1 + 2 + length val then None
      else info_body cap (body @ info_field (key, val)) fs)"

definition build_device_info_payload :: "bool \<Rightarrow> byte list \<Rightarrow> nat \<Rightarrow> byte list option" where
  "build_device_info_payload mem device_id out_max =
     (if \<not> mem then None
      else case info_body 512 [] (device_fields device_id) of
             None \<Rightarrow> None
           | Some body \<Rightarrow> if out_max < 3 + length body then None else Some ([0x00, 0x01, 0x55] @ body))"

subsection \<open>Base64 can be undone\<close>

definition b64_val :: "byte \<Rightarrow> nat" where
  "b64_val c = length (takeWhile (\<lambda>x. x \<noteq> c) b64_tab)"

definition join4 :: "byte \<Rightarrow> byte \<Rightarrow> byte \<Rightarrow> byte \<Rightarrow> nat" where
  "join4 a b c d = ((b64_val a * 64 + b64_val b) * 64 + b64_val c) * 64 + b64_val d"

fun b64_decode :: "byte list \<Rightarrow> byte list" where
  \<comment> \<open>RFC 4648\<close>
  "b64_decode (a # b # c # d # r) =
     (if c = 61 then [of_nat (join4 a b 65 65 div 65536)]
      else if d = 61 then [of_nat (join4 a b c 65 div 65536), of_nat (join4 a b c 65 div 256 mod 256)]
      else [of_nat (join4 a b c d div 65536), of_nat (join4 a b c d div 256 mod 256), of_nat (join4 a b c d mod 256)]
           @ b64_decode r)"
| "b64_decode _ = []"

lemma unat_byte: "unat (b :: byte) < 256"
  using unsigned_less [of b] by simp

lemma unat_pack3: "unat (pack3 a b c) = unat a * 65536 + unat b * 256 + unat c"
proof -
  have "push_bit 16 (unat a) OR (push_bit 8 (unat b) OR unat c) = push_bit 16 (unat a) + (push_bit 8 (unat b) OR unat c)"
  proof (rule disjunctive_add [symmetric])
    fix n
    have "\<not> bit (unat b) (n - 8)" if "16 \<le> n" using that by (auto simp: bit_unsigned_iff dest: bit_imp_le_length)
    moreover have "\<not> bit (unat c) n" if "16 \<le> n" using that by (auto simp: bit_unsigned_iff dest: bit_imp_le_length)
    ultimately show "\<not> bit (push_bit 16 (unat a)) n \<or> \<not> bit (push_bit 8 (unat b) OR unat c) n"
      by (auto simp: bit_push_bit_iff_nat bit_or_iff)
  qed
  moreover have "push_bit 8 (unat b) OR unat c = push_bit 8 (unat b) + unat c"
    by (rule disjunctive_add [symmetric])
      (auto simp: bit_push_bit_iff_nat bit_unsigned_iff dest: bit_imp_le_length)
  moreover have "unat (push_bit 16 (ucast a) :: u32) = push_bit 16 (unat a)"
    "unat (push_bit 8 (ucast b) :: u32) = push_bit 8 (unat b)"
    by (rule bit_eqI; auto simp: bit_unsigned_iff bit_push_bit_iff bit_push_bit_iff_nat bit_ucast_iff dest: bit_imp_le_length)+
  moreover have "unat (ucast c :: u32) = unat c"
    by (rule bit_eqI) (auto simp: bit_unsigned_iff bit_ucast_iff dest: bit_imp_le_length)
  ultimately show ?thesis
    by (simp only: pack3_def unsigned_or_eq or.assoc) (simp add: push_bit_eq_mult)
qed

lemma sextet_eq: "sextet v k = unat v div 2 ^ k mod 64"
proof -
  have "unat (drop_bit k v) = drop_bit k (unat v)"
    by (rule bit_eqI) (auto simp: bit_unsigned_iff bit_drop_bit_eq dest: bit_imp_le_length)
  then have d: "unat (drop_bit k v) = unat v div 2 ^ k" by (simp only: drop_bit_eq_div)
  have "unat (63 :: u32) = mask 6" by (simp add: mask_eq_exp_minus_1)
  then have "sextet v k = take_bit 6 (unat v div 2 ^ k)"
    by (simp only: sextet_def unsigned_and_eq d take_bit_eq_mask)
  then show ?thesis by (simp add: take_bit_eq_mod)
qed

lemma sextet_less [simp]: "sextet v k < 64"
  by (simp add: sextet_eq)

lemma distinct_index: "distinct xs \<Longrightarrow> i < length xs \<Longrightarrow> length (takeWhile (\<lambda>x. x \<noteq> xs ! i) xs) = i"
proof (induction xs arbitrary: i)
  case (Cons x xs)
  then show ?case by (cases i) auto
qed simp

lemma b64_tab_facts: "distinct b64_tab" "length b64_tab = 64" "61 \<notin> set b64_tab" "b64_val 65 = 0"
  by (simp_all add: b64_tab_def str_def b64_val_def)

lemma b64_val_tab [simp]: "i < 64 \<Longrightarrow> b64_val (b64_tab ! i) = i"
  by (simp add: b64_val_def distinct_index b64_tab_facts)

lemma b64_tab_no_pad [simp]: "i < 64 \<Longrightarrow> b64_tab ! i \<noteq> 61"
  using b64_tab_facts nth_mem by metis

lemma join_sextets:
  "v < 2 ^ 24 \<Longrightarrow> ((v div 262144 mod 64 * 64 + v div 4096 mod 64) * 64 + v div 64 mod 64) * 64 + v mod 64 = (v :: nat)"
proof -
  assume v: "v < 2 ^ 24"
  have q: "v div 4096 = v div 64 div 64" "v div 262144 = v div 64 div 64 div 64"
    by (simp_all only: div_mult2_eq [symmetric]) simp_all
  have "v div 64 div 64 div 64 < 64" using v by (simp flip: q)
  then show ?thesis unfolding q by simp
qed

lemma join_quad:
  "join4 (b64_tab ! sextet (pack3 a b c) 18) (b64_tab ! sextet (pack3 a b c) 12)
     (b64_tab ! sextet (pack3 a b c) 6) (b64_tab ! sextet (pack3 a b c) 0) = unat a * 65536 + unat b * 256 + unat c"
proof -
  define v where "v = unat a * 65536 + unat b * 256 + unat c"
  have "v < 2 ^ 24"
    using unat_byte [of a] unat_byte [of b] unat_byte [of c] by (simp add: v_def)
  moreover have "(2 :: nat) ^ 18 = 262144" "(2 :: nat) ^ 12 = 4096" "(2 :: nat) ^ 6 = 64" "(2 :: nat) ^ 0 = 1" by simp_all
  ultimately show ?thesis
    unfolding join4_def b64_val_tab [OF sextet_less]
    unfolding sextet_eq unat_pack3 v_def [symmetric]
    by (simp only: div_by_1 join_sextets)
qed

lemma bytes_of_join:
  "of_nat ((unat a * 65536 + unat b * 256 + unat c) div 65536) = (a :: byte)"
  "of_nat ((unat a * 65536 + unat b * 256 + unat c) div 256 mod 256) = (b :: byte)"
  "of_nat ((unat a * 65536 + unat b * 256 + unat c) mod 256) = (c :: byte)"
proof -
  note u = unat_byte [of a] unat_byte [of b] unat_byte [of c]
  have "(unat a * 65536 + unat b * 256 + unat c) div 65536 = unat a" using u by simp
  then show "of_nat ((unat a * 65536 + unat b * 256 + unat c) div 65536) = a" by simp
  have "(unat a * 65536 + unat b * 256 + unat c) div 256 = unat a * 256 + unat b" using u by simp
  then show "of_nat ((unat a * 65536 + unat b * 256 + unat c) div 256 mod 256) = b" using u by simp
  have "(unat a * 65536 + unat b * 256 + unat c) mod 256 = ((unat a * 256 + unat b) * 256 + unat c) mod 256"
    by (simp add: algebra_simps)
  also have "\<dots> = unat c" using u by (subst mod_mult_self3) simp
  finally show "of_nat ((unat a * 65536 + unat b * 256 + unat c) mod 256) = c" by simp
qed

lemma b64_roundtrip: "b64_decode (b64_encode xs) = xs"
proof (induction xs rule: b64_encode.induct)
  case (1 a b c r)
  then show ?case by (simp add: b64_quad_def join_quad bytes_of_join)
next
  case (2 a b)
  have "sextet (pack3 a b 0) 0 = 0" by (simp add: sextet_eq unat_pack3)
  then have "join4 (b64_tab ! sextet (pack3 a b 0) 18) (b64_tab ! sextet (pack3 a b 0) 12) (b64_tab ! sextet (pack3 a b 0) 6) 65
      = unat a * 65536 + unat b * 256 + unat (0 :: byte)"
    using join_quad [of a b 0] by (simp add: join4_def b64_tab_facts)
  then show ?case using bytes_of_join [of a b 0] by (simp add: b64_quad_def)
next
  case (3 a)
  have "sextet (pack3 a 0 0) 0 = 0" "sextet (pack3 a 0 0) 6 = 0" by (simp_all add: sextet_eq unat_pack3)
  then have "join4 (b64_tab ! sextet (pack3 a 0 0) 18) (b64_tab ! sextet (pack3 a 0 0) 12) 65 65
      = unat a * 65536 + unat (0 :: byte) * 256 + unat (0 :: byte)"
    using join_quad [of a 0 0] by (simp add: join4_def b64_tab_facts)
  then show ?case using bytes_of_join [of a 0 0] by (simp add: b64_quad_def)
next
  case 4
  show ?case by simp
qed


subsection \<open>The device information message can be read\<close>

definition info_dec :: "byte list \<Rightarrow> ((byte list \<times> byte list) \<times> byte list) option" where
  "info_dec bs =
     (case bs of
        [] \<Rightarrow> None
      | n # r \<Rightarrow>
          (let k = unat n; v = drop (k + 3) r; l = unat (rd16 r (k + 1))
           in if length r < k + 3 \<or> r ! k \<noteq> 0x0C \<or> length v < l then None
              else Some ((take k r, take l v), drop l v)))"

definition info_ok :: "byte list \<times> byte list \<Rightarrow> bool" where
  "info_ok f \<longleftrightarrow> length (fst f) < 256 \<and> length (snd f) < 65536"

interpretation infos: codec info_field info_dec info_ok
proof
  fix f :: "byte list \<times> byte list" and x
  obtain key val where f: "f = (key, val)" by fastforce
  show "info_field f \<noteq> []" by (simp add: f info_field_def)
  assume "info_ok f"
  then have "unat (of_nat (length key) :: byte) = length key" "unat (of_nat (length val) :: u16) = length val"
    unfolding unat_of_nat by (simp_all add: f info_ok_def)
  moreover have "rd16 ((key @ [0x0C]) @ be16 (of_nat (length val)) @ val @ x) (length key + 1) = of_nat (length val)"
    by (rule rd16_be16) simp
  ultimately show "info_dec (info_field f @ x) = Some (f, x)"
    by (simp add: f info_field_def info_dec_def nth_append Let_def)
qed

lemma length_info_field: "length (info_field f) = length (fst f) + length (snd f) + 4"
  by (simp add: info_field_def split: prod.split)

lemma info_body_fits:
  "length body + length (concat (map info_field fs)) \<le> cap \<Longrightarrow> info_body cap body fs = Some (body @ concat (map info_field fs))"
proof (induction fs arbitrary: body)
  case (Cons f fs)
  obtain key val where f: "f = (key, val)" by fastforce
  have "length (info_field (key, val)) = length key + length val + 4" by (simp add: length_info_field)
  with Cons.prems Cons.IH [of "body @ info_field (key, val)"] show ?case by (simp add: f)
qed simp

lemma device_fields_length: "length (concat (map info_field (device_fields d))) = 202 + length d"
  by (simp add: device_fields_def length_info_field)

subsection \<open>Keys\<close>

lemma length_hex_to_lower [simp]: "length (hex_to_lower xs) = 2 * length xs"
  by (induction xs) (simp_all add: hex_to_lower_def hex2_def)

lemma nibble: "unat (x AND 15 :: byte) < 16"
proof -
  have "unat (15 :: byte) = mask 4" by (simp add: mask_eq_exp_minus_1)
  then have "unat (x AND 15) = take_bit 4 (unat x)" by (simp only: unsigned_and_eq take_bit_eq_mask)
  then show ?thesis by (simp add: take_bit_eq_mod)
qed

definition is_hex_lo :: "byte \<Rightarrow> bool" where
  "is_hex_lo b \<longleftrightarrow> is_digit b \<or> (97 \<le> b \<and> b \<le> 102)"

lemma hex_to_lower_digits: "list_all is_hex_lo (hex_to_lower xs)"
proof -
  have "list_all is_hex_lo hex_lo" "length hex_lo = 16" by (simp_all add: hex_lo_def str_def is_hex_lo_def is_digit_def)
  then have "is_hex_lo (hex_lo ! i)" if "i < 16" for i using that by (simp add: list_all_length)
  moreover have "unat (drop_bit 4 b) < 16" for b :: byte
    using unat_byte [of b] unat_drop_bit_eq [of 4 b] by (simp only: drop_bit_eq_div) simp
  ultimately show ?thesis by (induction xs) (simp_all add: hex_to_lower_def hex2_def nibble)
qed

lemma length_endpoint: "length (endpoint_text ip port) \<le> 20"
proof -
  have "length (fmt_dec (unat b)) \<le> 3" for b :: byte
    using unat_byte [of b] by (intro length_fmt_dec_le) simp_all
  moreover have "length (fmt_dec (unat port)) \<le> 5"
  proof (intro length_fmt_dec_le)
    have "unat port < 2 ^ LENGTH(16)" by (rule unsigned_less)
    then show "unat port < 10 ^ 5" by simp
  qed simp
  ultimately have "length (fmt_dec (unat (ip_bytes ip ! i))) \<le> 3" "length (fmt_dec (unat port)) \<le> 5" for i by auto
  from this(1) [of 0] this(1) [of 1] this(1) [of 2] this(1) [of 3] this(2) show ?thesis
    by (simp add: endpoint_text_def)
qed

lemma length_key_text: "length (key_text a b c d) \<le> 40"
  using length_endpoint [of c d] length_endpoint [of a b] by (simp add: key_text_def)

lemma key_text_letters: "list_all (\<lambda>b. \<not> is_digit b) (key_text a b c d)"
  by (auto simp: key_text_def list_all_iff is_digit_def word_le_nat_alt unat_word_ariths)


lemma length_hmac [simp]: "hashes_ok h \<Longrightarrow> length (hmac_sha1 h key msg) = 20" "hashes_ok h \<Longrightarrow> length (hmac_sha256 h key msg) = 32"
  by (simp_all add: hmac_sha1_def hmac_sha256_def hashes_ok_def)

lemma length_hmac_pad: "hashes_ok h \<Longrightarrow> length (hmac_pad (h_sha1 h) key x) = 64 \<and> length (hmac_pad (h_sha256 h) key x) = 64"
  by (simp add: hmac_pad_def hashes_ok_def Let_def)

lemma challenge_16: "length (generate_challenge hi lo 20) = 16 \<and> list_all is_digit (generate_challenge hi lo 20) \<and> hd (generate_challenge hi lo 20) \<noteq> 48"
proof -
  define n where "n = unat (push_bit 32 (ucast hi) OR ucast lo :: u64) mod 10 ^ 16"
  have n: "n < 10 ^ 16" by (simp add: n_def)
  show ?thesis
  proof (cases "n < 10 ^ 15")
    case True
    then have "length (fmt_dec0 15 n) = 15" by (rule length_fmt_dec0) simp
    with True show ?thesis
      unfolding generate_challenge_def n_def [symmetric] Let_def
      by (simp add: fmt_dec0_digits wire_simps is_digit_def)
  next
    case False
    with n have l: "length (fmt_dec n) = 16" using length_fmt_dec [of 15 n] by simp
    then have "fmt_dec0 16 n = fmt_dec n" by (simp add: fmt_dec0_def)
    moreover have "hd (fmt_dec n) \<noteq> 48" using False by (intro hd_fmt_dec) auto
    ultimately show ?thesis
      using False l unfolding generate_challenge_def n_def [symmetric] Let_def by (simp add: fmt_dec_digits)
  qed
qed

lemma session_key_facts:
  "hashes_ok h \<Longrightarrow> let t = key_text peer_ip peer_port local_ip local_port;
             d = derive_session_key h peer_ip peer_port local_ip local_port c
         in length t < 64 \<and> list_all (\<lambda>b. \<not> is_digit b) t
            \<and> s_auth_key d = hex_to_lower (h_md5 h t) @ [0] \<and> list_all is_hex_lo (cstr (s_auth_key d))
            \<and> length (s_auth_key d) = 33 \<and> length (s_aes_key d) = AES_BLOCK_LEN
            \<and> s_aes_key d = take 16 (s_auth_key d) \<and> s_encrypt_iv d = s_aes_key d \<and> s_decrypt_iv d = s_aes_key d
            \<and> d = c \<lparr> s_aes_key := s_aes_key d, s_encrypt_iv := s_encrypt_iv d, s_decrypt_iv := s_decrypt_iv d,
                        s_auth_key := s_auth_key d, s_has_session_key := True \<rparr>"
proof -
  assume "hashes_ok h"
  let ?t = "key_text peer_ip peer_port local_ip local_port"
  have h: "length (hex_to_lower (h_md5 h ?t)) = 32" using \<open>hashes_ok h\<close> by (simp add: hashes_ok_def)
  have "0 \<notin> set (hex_to_lower (h_md5 h ?t))"
    using hex_to_lower_digits [of "h_md5 h ?t"] by (auto simp: list_all_iff is_hex_lo_def is_digit_def)
  then have "list_all is_hex_lo (cstr (hex_to_lower (h_md5 h ?t) @ [0]))" by (simp add: cstr_nul hex_to_lower_digits)
  then show ?thesis
    using h length_key_text [of peer_ip peer_port local_ip local_port] key_text_letters [of peer_ip peer_port local_ip local_port]
    by (simp add: derive_session_key_def Let_def AES_BLOCK_LEN_def)
qed

lemma device_info_facts:
  "length d \<le> 310 \<Longrightarrow> 205 + length d \<le> out_max \<Longrightarrow>
   \<exists>body. build_device_info_payload True d out_max = Some ([0x00, 0x01, 0x55] @ body)
           \<and> length body = 202 + length d \<and> dec_all info_dec body = Some (device_fields d)"
proof -
  assume "length d \<le> 310" "205 + length d \<le> out_max"
  moreover from this have "info_body 512 [] (device_fields d) = Some ([] @ concat (map info_field (device_fields d)))"
    by (intro info_body_fits) (simp add: device_fields_length)
  moreover have "list_all info_ok (device_fields d)" using \<open>length d \<le> 310\<close> by (simp add: device_fields_def info_ok_def)
  ultimately show ?thesis
    by (simp add: build_device_info_payload_def device_fields_length infos.dec_all_enc)
qed

subsection \<open>Properties\<close>

text \<open>The challenge of the receiver. For any two random words, \<open>generate_challenge\<close>
  into its 20-byte buffer gives exactly 16 decimal digits, the first one not 0.\<close>

lemma challenge_shape:
  "length (generate_challenge hi lo 20) = 16 \<and> list_all is_digit (generate_challenge hi lo 20)
   \<and> hd (generate_challenge hi lo 20) \<noteq> 48"
  by (rule challenge_16)

text \<open>Session keys. The text that is hashed has no digit left and fits the 64-byte
  buffer of \<open>derive_session_key\<close>; the AES key and both initial vectors are the same 16 bytes,
  the first half of the hexadecimal authentication key, which is kept with its NUL; nothing
  else of the control state changes.\<close>

theorem session_key_spec:
  assumes "hashes_ok h"
  shows "let t = key_text peer_ip peer_port local_ip local_port;
             d = derive_session_key h peer_ip peer_port local_ip local_port c
         in length t < 64 \<and> list_all (\<lambda>b. \<not> is_digit b) t
            \<and> s_auth_key d = hex_to_lower (h_md5 h t) @ [0] \<and> list_all is_hex_lo (cstr (s_auth_key d))
            \<and> length (s_auth_key d) = 33 \<and> length (s_aes_key d) = AES_BLOCK_LEN
            \<and> s_aes_key d = take 16 (s_auth_key d) \<and> s_encrypt_iv d = s_aes_key d \<and> s_decrypt_iv d = s_aes_key d
            \<and> d = c \<lparr> s_aes_key := s_aes_key d, s_encrypt_iv := s_encrypt_iv d, s_decrypt_iv := s_decrypt_iv d,
                        s_auth_key := s_auth_key d, s_has_session_key := True \<rparr>"
  using assms by (rule session_key_facts)

text \<open>Base64. What the encoder of \<open>init_device_identity\<close> writes is decoded to the
  original bytes by RFC 4648, padding included, for data of any length.\<close>

theorem base64_lossless: "b64_decode (b64_encode xs) = xs"
  by (rule b64_roundtrip)

text \<open>The device information message. For any device id that fits the buffers, the
  message is the three constant bytes and a body that decodes to the thirteen fields, in
  order; the constant, 0x0155, is not the length of the body for an 8-character id, 210.\<close>

theorem device_info_decodes:
  assumes "length device_id \<le> 310" and "205 + length device_id \<le> out_max"
  shows "\<exists>body. build_device_info_payload True device_id out_max = Some ([0x00, 0x01, 0x55] @ body)
           \<and> length body = 202 + length device_id \<and> dec_all info_dec body = Some (device_fields device_id)"
  using assms by (rule device_info_facts)

text \<open>Their hypotheses hold on concrete inputs.\<close>

definition sample_hashes :: hashes where
  "sample_hashes = \<lparr> h_md5 = \<lambda>m. replicate 16 0xa5, h_sha1 = \<lambda>m. replicate 20 1, h_sha256 = \<lambda>m. replicate 32 2 \<rparr>"

lemma sample_hashes_ok: "hashes_ok sample_hashes"
  by (simp add: sample_hashes_def hashes_ok_def)

lemma session_key_spec_witness:
  "length (s_aes_key (derive_session_key sample_hashes 0x0101A8C0 8899 0x0201A8C0 60000 ctl_init)) = AES_BLOCK_LEN"
proof -
  from session_key_spec [OF sample_hashes_ok, where peer_ip = "0x0101A8C0" and peer_port = 8899 and local_ip = "0x0201A8C0"
      and local_port = 60000 and c = ctl_init]
  show ?thesis unfolding Let_def by blast
qed

lemma device_info_decodes_witness:
  "\<exists>body. build_device_info_payload True (str ''A1B2C3D4'') 512 = Some ([0x00, 0x01, 0x55] @ body)
      \<and> length body = 210 \<and> dec_all info_dec body = Some (device_fields (str ''A1B2C3D4''))"
  using device_info_decodes [of "str ''A1B2C3D4''" 512] by simp

end
