(* ===== verification/Dns.thy ===== *)
theory Dns
  imports Identity
begin

text \<open>
  Discovery over DNS-SD (\<open>miplay.c\<close>: \<open>dns_push_*\<close>, \<open>build_lan_packet\<close>,
  \<open>build_miplay_lan_response\<close>, the query check of \<open>miplay_lan_task\<close>, \<open>build_mdns_announce\<close>
  and the TXT records of \<open>mdns_announce_task\<close>). A packet under construction is the list of
  the bytes written so far; its length is the offset \<open>o\<close> of the code. The reader at the end
  is the protocol (RFC 1035, names with compression), against which the packets are checked.
\<close>

subsection \<open>Writing\<close>

definition s_service_qname :: "byte list" where
  "s_service_qname = 0x0b # str ''_miplay_lan'' @ 0x04 # str ''_tcp'' @ 0x05 # str ''local'' @ [0x00]"

definition dns_push_label :: "byte list \<Rightarrow> byte list \<Rightarrow> byte list" where
  "dns_push_label p label = (let len = min 63 (length label) in p @ of_nat len # take len label)"

definition dns_push_ptr :: "byte list \<Rightarrow> u16 \<Rightarrow> byte list" where
  "dns_push_ptr p offset = p @ be16 (0xC000 OR (offset AND 0x3FFF))"

definition dns_patch_u16 :: "byte list \<Rightarrow> nat \<Rightarrow> u16 \<Rightarrow> byte list" where
  \<comment> \<open>a length that is filled in once the data is written\<close>
  "dns_patch_u16 p pos v = p[pos := ucast (drop_bit 8 v), pos + 1 := ucast v]"

definition MIPLAY_CONTROL_PORT :: u16 where "MIPLAY_CONTROL_PORT = 8899"
definition MIPLAY_COAP_PORT :: u16 where "MIPLAY_COAP_PORT = 56666"

definition lan_mac_text :: "byte list \<Rightarrow> byte list" where
  "lan_mac_text mac = hex2 hex_up (mac ! 0) @ concat (map (\<lambda>b. 58 # hex2 hex_up b) [mac ! 1, mac ! 2, mac ! 3, mac ! 4, mac ! 5])"

definition lan_txt :: "identity \<Rightarrow> byte list" where
  "lan_txt d =
     (let idhash_lan = take 3 (map (\<lambda>c. if c = 43 then 45 else if c = 47 then 95 else c) (take 4 (s_idhash d)));
          stable_id = unat (rd32 (s_mac d) 2 AND 0x7FFFFFFF);
          appdata_json = take 255 (str ''{\"supportLyra\":true,\"mac\":\"'' @ lan_mac_text (s_mac d)
            @ str ''\",\"ID\":'' @ fmt_dec stable_id @ str '',\"type\":3,\"idhash\":\"'' @ idhash_lan
            @ str ''\",\"extraAbility\":0}'');
          txt_rec = str ''appdata='' @ appdata_json
      in take (min 255 (length txt_rec)) txt_rec)"

definition build_lan_packet :: "identity \<Rightarrow> u32 \<Rightarrow> byte list \<Rightarrow> bool \<Rightarrow> byte list" where
  "build_lan_packet d ip lan_hostname is_unicast =
     (let record_class = 0x8001; ttl = (if is_unicast then 10 else 60) :: u32;
          p = be16 0 @ be16 0x8400 @ be16 0 @ be16 1 @ be16 0 @ be16 3;
          service_off = of_nat (length p);
          p = p @ s_service_qname @ be16 12 @ be16 1 @ be32 ttl;
          p = p @ be16 (of_nat (length (s_inst_name d)) + 3);
          instance_off = of_nat (length p);
          p = dns_push_ptr (dns_push_label p (s_inst_name d)) service_off;
          p = dns_push_ptr p instance_off @ be16 33 @ be16 record_class @ be32 ttl;
          srv_len_pos = length p;
          p = p @ be16 0;
          srv_rdata = length p;
          p = p @ be16 0 @ be16 0 @ be16 MIPLAY_CONTROL_PORT;
          host_off = of_nat (length p);
          p = dns_push_label p lan_hostname @ 0x05 # str ''local'' @ [0x00];
          p = dns_patch_u16 p srv_len_pos (of_nat (length p - srv_rdata));
          p = dns_push_ptr p instance_off @ be16 16 @ be16 record_class @ be32 ttl;
          tl = length (lan_txt d);
          p = p @ be16 (of_nat (tl + 1)) @ of_nat tl # lan_txt d;
          p = dns_push_ptr p host_off @ be16 1 @ be16 record_class @ be32 ttl @ be16 4
      in p @ ip_bytes ip)"

record lan =
  s_lan_hostname :: "byte list"
  s_lan_announce :: "byte list"
  s_lan_response :: "byte list"

definition build_miplay_lan_response :: "identity \<Rightarrow> u32 \<Rightarrow> lan" where
  "build_miplay_lan_response d ip =
     (let h = str ''miplay-'' @ concat (map (hex2 hex_up) [s_mac d ! 3, s_mac d ! 4, s_mac d ! 5])
      in \<lparr> s_lan_hostname = h, s_lan_announce = build_lan_packet d ip h False,
           s_lan_response = build_lan_packet d ip h True \<rparr>)"

definition lan_recv :: "bool \<Rightarrow> lan \<Rightarrow> byte list \<Rightarrow> byte list option" where
  \<comment> \<open>one turn of the loop of \<open>miplay_lan_task\<close>: the datagram, cut to the 512 bytes of
    \<open>rx_buf\<close>, and the reply sent to its source, if any\<close>
  "lan_recv mem l datagram =
     (let rx_buf = take 512 datagram; n = length rx_buf
      in if n < 12 then None
         else if rd16 rx_buf 2 AND 0x8000 \<noteq> 0 \<or> rd16 rx_buf 4 = 0 then None
         else if n < length s_service_qname then None
         else if find_sub s_service_qname rx_buf = None then None
         else if \<not> mem then None
         else Some ((s_lan_response l)[0 := rx_buf ! 0, 1 := rx_buf ! 1]))"

fun txt_items :: "nat \<Rightarrow> byte list \<Rightarrow> (byte list \<times> byte list) list \<Rightarrow> byte list" where
  \<comment> \<open>the loop over the TXT items: \<open>slen\<close> has 8 bits\<close>
  "txt_items p_size p [] = p"
| "txt_items p_size p ((key, val) # ts) =
     (let slen = of_nat (length key + 1 + length val) :: byte
      in if p_size - 64 < length p + 1 + unat slen then p
         else txt_items p_size (p @ slen # key @ 61 # val) ts)"

definition build_mdns_announce ::
  "nat \<Rightarrow> byte list \<Rightarrow> byte list \<Rightarrow> u16 \<Rightarrow> (byte list \<times> byte list) list \<Rightarrow> u32 \<Rightarrow> byte list \<Rightarrow> byte list" where
  "build_mdns_announce p_size svc_qname inst port txt ip device_id =
     (let p = be16 0 @ be16 0x8400 @ be16 0 @ be16 1 @ be16 0 @ be16 3;
          svc_off = of_nat (length p);
          p = p @ svc_qname @ be16 12 @ be16 0x8001 @ be32 120;
          p = p @ be16 (of_nat (length inst + 3));
          inst_off = of_nat (length p);
          p = dns_push_ptr (dns_push_label p inst) svc_off;
          p = dns_push_ptr p inst_off @ be16 33 @ be16 0x8001 @ be32 120;
          srv_len_pos = length p;
          p = p @ be16 0;
          srv_start = length p;
          p = p @ be16 0 @ be16 0 @ be16 port;
          host_off = of_nat (length p);
          p = dns_push_label p device_id @ 0x05 # str ''local'' @ [0x00];
          p = dns_patch_u16 p srv_len_pos (of_nat (length p - srv_start));
          p = dns_push_ptr p inst_off @ be16 16 @ be16 0x8001 @ be32 120;
          txt_rdlen_pos = length p;
          p = p @ be16 0;
          txt_rdlen_start = length p;
          p = txt_items p_size p txt;
          p = dns_patch_u16 p txt_rdlen_pos (of_nat (length p - txt_rdlen_start));
          p = dns_push_ptr p host_off @ be16 1 @ be16 0x8001 @ be32 120 @ be16 4
      in p @ ip_bytes ip)"

definition debug_ip_segment :: "byte \<Rightarrow> byte list" where
  "debug_ip_segment b = map (\<lambda>c. if is_digit c then 35 + (c - 48) else c) (fmt_dec (unat b))"

definition debug_info :: "byte list \<Rightarrow> u32 \<Rightarrow> byte list" where
  "debug_info msg ip =
     (let a = ip_bytes ip
      in take 127 (str ''{msg:'' @ msg @ str '', ifname:STA, v4:'' @ fmt_dec (unat (a ! 0)) @ [46]
           @ debug_ip_segment (a ! 1) @ [46] @ debug_ip_segment (a ! 2) @ [46] @ fmt_dec (unat (a ! 3)) @ str ''}''))"

definition micon_txt :: "identity \<Rightarrow> (byte list \<times> byte list) list" where
  "micon_txt d =
     [(str ''version'', str ''196608''), (str ''apps'', str ''[5]''), (str ''flags'', str ''CgE=''),
      (str ''name'', str ''ESP-1.85c''), (str ''idHash'', s_idhash d), (str ''dev'', str ''2''),
      (str ''sec'', str ''2''), (str ''appsData'', s_appsdata d), (str ''mac'', s_mac_b64 d)]"

definition lyra_txt :: "identity \<Rightarrow> u32 \<Rightarrow> nat \<Rightarrow> (byte list \<times> byte list) list" where
  "lyra_txt d ip ts_ms =
     [(str ''AppData'', s_lyra_appdata d), (str ''MediumType'', str ''8192''), (str ''CH'', str ''0''),
      (str ''DebugInfo'', debug_info (str ''announcement'') ip), (str ''TS'', take 23 (fmt_dec ts_ms))]"

definition lyra_qname :: "byte list" where
  "lyra_qname = 0x0a # str ''_lyra-mdns'' @ 0x04 # str ''_udp'' @ 0x05 # str ''local'' @ [0x00]"

definition micon_qname :: "byte list" where
  "micon_qname = 0x0b # str ''_mi-connect'' @ 0x04 # str ''_udp'' @ 0x05 # str ''local'' @ [0x00]"

definition announce_burst :: "identity \<Rightarrow> u32 \<Rightarrow> nat \<Rightarrow> byte list list" where
  \<comment> \<open>the two packets of one round of \<open>mdns_announce_task\<close>, built in \<open>pkt[768]\<close>\<close>
  "announce_burst d ip ts_ms =
     [build_mdns_announce 768 lyra_qname (s_device_id d) 5353 (lyra_txt d ip ts_ms) ip (s_device_id d),
      build_mdns_announce 768 micon_qname (s_inst_name d) MIPLAY_COAP_PORT (micon_txt d) ip (s_device_id d)]"

subsection \<open>Reading: the protocol\<close>

fun dns_name :: "nat \<Rightarrow> byte list \<Rightarrow> byte list \<Rightarrow> (byte list list \<times> byte list) option" where
  \<comment> \<open>the labels of the name at the head of \<open>bs\<close>, and what follows it; pointers lead into the packet \<open>p\<close>\<close>
  "dns_name 0 p bs = None"
| "dns_name (Suc f) p [] = None"
| "dns_name (Suc f) p (b # bs) =
     (if b = 0 then Some ([], bs)
      else if 0xC0 \<le> b then
        (case bs of [] \<Rightarrow> None
         | l # r \<Rightarrow> map_option (\<lambda>(ls, x). (ls, r)) (dns_name f p (drop (unat (rd16 [b, l] 0 AND 0x3FFF)) p)))
      else if 63 < b \<or> length bs < unat b then None
      else map_option (\<lambda>(ls, x). (take (unat b) bs # ls, x)) (dns_name f p (drop (unat b) bs)))"

datatype rdata = PTR "byte list list" | SRV u16 u16 u16 "byte list list" | TXT "byte list list" | A "byte list" | Other u16 "byte list"

record rr =
  rr_name :: "byte list list"
  rr_class :: u16
  rr_ttl :: u32
  rr_data :: rdata

fun txt_strings :: "byte list \<Rightarrow> byte list list option" where
  "txt_strings [] = Some []"
| "txt_strings (n # bs) =
     (if length bs < unat n then None
      else map_option (Cons (take (unat n) bs)) (txt_strings (drop (unat n) bs)))"

definition dns_rdata :: "byte list \<Rightarrow> u16 \<Rightarrow> byte list \<Rightarrow> rdata option" where
  \<comment> \<open>the data must be used up exactly\<close>
  "dns_rdata p ty rd =
     (if ty = 12 then (case dns_name 16 p rd of Some (ls, []) \<Rightarrow> Some (PTR ls) | _ \<Rightarrow> None)
      else if ty = 33 then
        (if length rd < 6 then None
         else case dns_name 16 p (drop 6 rd) of Some (ls, []) \<Rightarrow> Some (SRV (rd16 rd 0) (rd16 rd 2) (rd16 rd 4) ls) | _ \<Rightarrow> None)
      else if ty = 16 then map_option TXT (txt_strings rd)
      else if ty = 1 then (if length rd = 4 then Some (A rd) else None)
      else Some (Other ty rd))"

definition dns_rr :: "byte list \<Rightarrow> byte list \<Rightarrow> (rr \<times> byte list) option" where
  "dns_rr p bs =
     (case dns_name 16 p bs of
        None \<Rightarrow> None
      | Some (owner, r) \<Rightarrow>
          (let len = unat (rd16 r 8); rd = take len (drop 10 r)
           in if length r < 10 + len then None
              else map_option (\<lambda>x. (\<lparr> rr_name = owner, rr_class = rd16 r 2, rr_ttl = rd32 r 4, rr_data = x \<rparr>, drop (10 + len) r))
                     (dns_rdata p (rd16 r 0) rd)))"

fun dns_rrs :: "nat \<Rightarrow> byte list \<Rightarrow> byte list \<Rightarrow> rr list option" where
  \<comment> \<open>exactly \<open>n\<close> records, and nothing after them\<close>
  "dns_rrs 0 p bs = (if bs = [] then Some [] else None)"
| "dns_rrs (Suc n) p bs = (case dns_rr p bs of None \<Rightarrow> None | Some (x, r) \<Rightarrow> map_option (Cons x) (dns_rrs n p r))"

definition dns_response :: "byte list \<Rightarrow> (u16 \<times> u16 \<times> rr list) option" where
  \<comment> \<open>a response without a question section: id, flags, answer and additional records\<close>
  "dns_response p =
     (if length p < 12 \<or> rd16 p 4 \<noteq> 0 then None
      else map_option (\<lambda>rs. (rd16 p 0, rd16 p 2, rs))
             (dns_rrs (unat (rd16 p 6) + unat (rd16 p 8) + unat (rd16 p 10)) p (drop 12 p)))"


subsection \<open>What the builders write\<close>

definition lbl :: "byte list \<Rightarrow> byte list" where
  "lbl l = of_nat (length l) # l"

definition name_ptr :: "nat \<Rightarrow> byte list" where
  "name_ptr off = be16 (0xC000 OR (of_nat off AND 0x3FFF))"

definition rr_bytes :: "byte list \<Rightarrow> u16 \<Rightarrow> u16 \<Rightarrow> u32 \<Rightarrow> byte list \<Rightarrow> byte list" where
  "rr_bytes nm ty cls ttl rd = nm @ be16 ty @ be16 cls @ be32 ttl @ be16 (of_nat (length rd)) @ rd"

definition dns_message ::
  "u16 \<Rightarrow> byte list list \<Rightarrow> byte list \<Rightarrow> u16 \<Rightarrow> u32 \<Rightarrow> u16 \<Rightarrow> byte list \<Rightarrow> byte list \<Rightarrow> u32 \<Rightarrow> byte list" where
  "dns_message tid svc inst pcls ttl port host txt ip =
     (let sv = concat (map lbl svc) @ [0]; io = 22 + length sv; ho = io + length inst + 21
      in be16 tid @ be16 0x8400 @ be16 0 @ be16 1 @ be16 0 @ be16 3
         @ rr_bytes sv 12 pcls ttl (lbl inst @ name_ptr 12)
         @ rr_bytes (name_ptr io) 33 0x8001 ttl (be16 0 @ be16 0 @ be16 port @ lbl host @ lbl (str ''local'') @ [0])
         @ rr_bytes (name_ptr io) 16 0x8001 ttl txt
         @ rr_bytes (name_ptr ho) 1 0x8001 ttl (ip_bytes ip))"

lemma dns_patch_simps:
  "length a \<le> pos \<Longrightarrow> dns_patch_u16 (a @ q) pos v = a @ dns_patch_u16 q (pos - length a) v"
  "0 < pos \<Longrightarrow> dns_patch_u16 (x # q) pos v = x # dns_patch_u16 q (pos - 1) v"
  "dns_patch_u16 (be16 w @ post) 0 v = be16 v @ post"
  by (auto simp: dns_patch_u16_def list_update_append be16_def Suc_diff_le split: nat.splits)

lemma push_label_lbl: "length l \<le> 63 \<Longrightarrow> dns_push_label p l = p @ lbl l"
  by (simp add: dns_push_label_def lbl_def Let_def)

lemma push_ptr_name: "dns_push_ptr p (of_nat off) = p @ name_ptr off"
  by (simp add: dns_push_ptr_def name_ptr_def)

lemma length_lbl [simp]: "length (lbl l) = length l + 1" "length (name_ptr off) = 2" "length (ip_bytes ip) = 4"
  by (simp_all add: lbl_def name_ptr_def ip_bytes_def)

lemma length_rr_bytes [simp]: "length (rr_bytes nm ty cls ttl rd) = length nm + 10 + length rd"
  by (simp add: rr_bytes_def)

lemma service_qnames:
  "s_service_qname = concat (map lbl [str ''_miplay_lan'', str ''_tcp'', str ''local'']) @ [0]"
  "lyra_qname = concat (map lbl [str ''_lyra-mdns'', str ''_udp'', str ''local'']) @ [0]"
  "micon_qname = concat (map lbl [str ''_mi-connect'', str ''_udp'', str ''local'']) @ [0]"
  by (simp_all add: s_service_qname_def lyra_qname_def micon_qname_def lbl_def)

lemma local_lbl: "0x05 # str ''local'' @ r = lbl (str ''local'') @ r"
  by (simp add: lbl_def)

lemma build_lan_packet_eq:
  assumes "length (s_inst_name d) \<le> 63" and "length host \<le> 63"
  shows "build_lan_packet d ip host u
    = dns_message 0 [str ''_miplay_lan'', str ''_tcp'', str ''local''] (s_inst_name d) 1 (if u then 10 else 60)
        MIPLAY_CONTROL_PORT host (of_nat (length (lan_txt d)) # lan_txt d) ip"
proof -
  let ?sv = "[str ''_miplay_lan'', str ''_tcp'', str ''local'']"
  have "length (concat (map lbl ?sv)) = 23" by simp
  then show ?thesis
    unfolding build_lan_packet_def dns_message_def Let_def service_qnames local_lbl
      push_label_lbl [OF assms(1)] push_label_lbl [OF assms(2)] push_ptr_name
    by (simp add: dns_patch_simps rr_bytes_def add.assoc) (simp add: add.commute)
qed


lemma txt_items_append: "\<exists>q. txt_items n p ts = p @ q"
proof (induction n p ts rule: txt_items.induct)
  case (2 n p key val ts)
  then show ?case by (auto simp: Let_def)
qed simp

definition txt_bytes :: "(byte list \<times> byte list) list \<Rightarrow> byte list" where
  "txt_bytes ts = concat (map (\<lambda>(k, v). lbl (k @ 61 # v)) ts)"

lemma txt_items_fits:
  "list_all (\<lambda>(k, v). length k + 1 + length v \<le> 255) ts \<Longrightarrow> length p + length (txt_bytes ts) \<le> n - 64 \<Longrightarrow>
   txt_items n p ts = p @ txt_bytes ts"
proof (induction ts arbitrary: p)
  case Nil
  then show ?case by (simp add: txt_bytes_def)
next
  case (Cons t ts)
  obtain k v where t: "t = (k, v)" by fastforce
  from Cons.prems have "(length k + 1 + length v) mod 2 ^ LENGTH(8) = length k + 1 + length v" by (simp add: t)
  then have u: "unat (of_nat (length k + 1 + length v) :: byte) = length k + 1 + length v" by (simp only: unat_of_nat)
  have "txt_items n (p @ of_nat (length k + 1 + length v) # k @ 61 # v) ts
      = (p @ of_nat (length k + 1 + length v) # k @ 61 # v) @ txt_bytes ts"
    using Cons.prems by (intro Cons.IH) (auto simp: t txt_bytes_def)
  moreover have "length p + 1 + (length k + 1 + length v) \<le> n - 64" using Cons.prems by (simp add: t txt_bytes_def)
  ultimately show ?case
    using u by (simp add: t txt_bytes_def lbl_def Let_def)
qed

lemma build_mdns_announce_eq:
  assumes "length inst \<le> 63" and "length device_id \<le> 63" and "svc_qname = concat (map lbl svc) @ [0]"
    and "list_all (\<lambda>(k, v). length k + 1 + length v \<le> 255) txt"
    and "63 + length svc_qname + length inst + length device_id + length (txt_bytes txt) \<le> p_size - 64"
  shows "build_mdns_announce p_size svc_qname inst port txt ip device_id
    = dns_message 0 svc inst 0x8001 120 port device_id (txt_bytes txt) ip"
  using assms(5)
  unfolding build_mdns_announce_def dns_message_def Let_def assms(3) local_lbl
    push_label_lbl [OF assms(1)] push_label_lbl [OF assms(2)] push_ptr_name
  by (simp add: txt_items_fits [OF assms(4)] dns_patch_simps rr_bytes_def add.assoc) (simp add: add.commute)


subsection \<open>Reading back what was written\<close>

definition label_ok :: "byte list \<Rightarrow> bool" where
  "label_ok l \<longleftrightarrow> l \<noteq> [] \<and> length l \<le> 63"

lemma name_label: "label_ok l \<Longrightarrow> dns_name (Suc f) p (lbl l @ r) = map_option (\<lambda>(ls, x). (l # ls, x)) (dns_name f p r)"
proof -
  assume ok: "label_ok l"
  then have u: "unat (of_nat (length l) :: byte) = length l" unfolding unat_of_nat label_ok_def by simp
  with ok have "(of_nat (length l) :: byte) \<noteq> 0" by (auto simp: label_ok_def)
  moreover have "\<not> 0xC0 \<le> (of_nat (length l) :: byte)" "\<not> 63 < (of_nat (length l) :: byte)"
    unfolding word_le_nat_alt word_less_nat_alt u using ok by (auto simp: label_ok_def)
  ultimately show ?thesis using u by (simp add: lbl_def)
qed

lemma name_labels:
  "list_all label_ok ls \<Longrightarrow> length ls < f \<Longrightarrow> dns_name f p (concat (map lbl ls) @ 0 # r) = Some (ls, r)"
proof (induction ls arbitrary: f)
  case Nil
  then show ?case by (cases f) auto
next
  case (Cons l ls)
  from Cons.prems obtain g where "f = Suc g" "length ls < g" by (cases f) auto
  with Cons show ?case by (simp add: name_label)
qed

lemma ptr_bits: "off < 2 ^ 14 \<Longrightarrow> unat ((0xC000 OR (of_nat off AND 0x3FFF)) AND 0x3FFF :: u16) = off"
proof -
  assume off: "off < 2 ^ 14"
  have m: "(0x3FFF :: u16) = mask 14" by (simp add: mask_eq_exp_minus_1)
  have "(0xC000 OR (of_nat off AND 0x3FFF)) AND 0x3FFF = (of_nat off AND 0x3FFF :: u16)"
    by (simp add: word_ao_dist and.assoc)
  also have "\<dots> = take_bit 14 (of_nat off)" unfolding m by (simp only: take_bit_eq_mask)
  also have "\<dots> = of_nat off" using off by (simp add: take_bit_of_nat take_bit_nat_eq_self)
  finally show ?thesis using off by (simp add: unat_of_nat)
qed

lemma name_ptr_read:
  "off < 2 ^ 14 \<Longrightarrow> dns_name (Suc f) p (name_ptr off @ r) = map_option (\<lambda>(ls, x). (ls, r)) (dns_name f p (drop off p))"
proof -
  assume off: "off < 2 ^ 14"
  let ?w = "0xC000 OR (of_nat off AND 0x3FFF) :: u16"
  have "bit (0xC000 :: u16) 15" "bit (0xC000 :: u16) 14" by code_simp+
  then have "bit ?w 15" "bit ?w 14" by (simp_all only: bit_or_iff simp_thms)
  moreover have "bit (ucast (drop_bit 8 w) :: byte) 7 = bit w 15" "bit (ucast (drop_bit 8 w) :: byte) 6 = bit w 14" for w :: u16
    by (simp_all add: bit_ucast_iff bit_drop_bit_eq)
  ultimately have "bit (ucast (drop_bit 8 ?w) :: byte) 7" "bit (ucast (drop_bit 8 ?w) :: byte) 6" by blast+
  moreover have "0xC0 \<le> b" if "bit b 7" "bit b 6" for b :: byte
  proof -
    from that have "bit (unat b) 7" "bit (unat b) 6" by (simp_all add: bit_unsigned_iff)
    then have "odd (unat b div 64 div 2)" "odd (unat b div 64)" by (simp_all add: bit_iff_odd flip: div_mult2_eq)
    then have "3 \<le> unat b div 64" by (cases "unat b div 64" rule: nat.exhaust) (auto elim!: oddE)
    then have "192 \<le> unat b" by linarith
    then show ?thesis by (simp add: word_le_nat_alt)
  qed
  ultimately have ge: "0xC0 \<le> (ucast (drop_bit 8 ?w) :: byte)" by blast
  have "rd16 ([] @ be16 ?w @ []) 0 = ?w" by (rule rd16_be16) simp
  then have "rd16 [ucast (drop_bit 8 ?w), ucast ?w] 0 = ?w" by (simp add: be16_def)
  with ge ptr_bits [OF off] show ?thesis
    by (auto simp: name_ptr_def be16_def)
qed

lemma rr_read:
  assumes "\<And>r. dns_name 16 p (nm @ r) = Some (owner, r)" and "length rd < 2 ^ 16" and "dns_rdata p ty rd = Some x"
  shows "dns_rr p (rr_bytes nm ty cls ttl rd @ r) = Some (\<lparr> rr_name = owner, rr_class = cls, rr_ttl = ttl, rr_data = x \<rparr>, r)"
proof -
  let ?l = "of_nat (length rd) :: u16"
  let ?r = "be16 ty @ be16 cls @ be32 ttl @ be16 ?l @ rd @ r"
  have "rd16 ([] @ be16 ty @ be16 cls @ be32 ttl @ be16 ?l @ rd @ r) 0 = ty" by (rule rd16_be16) simp
  moreover have "rd16 (be16 ty @ be16 cls @ be32 ttl @ be16 ?l @ rd @ r) 2 = cls" by (rule rd16_be16) simp
  moreover have "rd32 ((be16 ty @ be16 cls) @ be32 ttl @ be16 ?l @ rd @ r) 4 = ttl" by (rule rd32_be32) simp
  moreover have "rd16 ((be16 ty @ be16 cls @ be32 ttl) @ be16 ?l @ rd @ r) 8 = ?l" by (rule rd16_be16) simp
  moreover have "unat ?l = length rd" unfolding unat_of_nat using assms(2) by simp
  moreover have "drop 10 ?r = rd @ r" by simp
  ultimately show ?thesis
    using assms(3) by (simp add: dns_rr_def rr_bytes_def assms(1) Let_def)
qed


lemma four_Suc: "Suc (Suc (Suc (Suc 0))) = 4"
  by simp

lemma dns_message_read:
  assumes svc: "list_all label_ok svc" "length svc \<le> 8" and inst: "label_ok inst" and host: "label_ok host"
    and tx: "txt_strings txt = Some strs" "length txt < 2 ^ 16"
  shows "dns_response (dns_message tid svc inst pcls ttl port host txt ip) = Some (tid, 0x8400,
    [\<lparr> rr_name = svc, rr_class = pcls, rr_ttl = ttl, rr_data = PTR (inst # svc) \<rparr>,
     \<lparr> rr_name = inst # svc, rr_class = 0x8001, rr_ttl = ttl, rr_data = SRV 0 0 port [host, str ''local''] \<rparr>,
     \<lparr> rr_name = inst # svc, rr_class = 0x8001, rr_ttl = ttl, rr_data = TXT strs \<rparr>,
     \<lparr> rr_name = [host, str ''local''], rr_class = 0x8001, rr_ttl = ttl, rr_data = A (ip_bytes ip) \<rparr>])"
proof -
  define sv where "sv = concat (map lbl svc) @ [0]"
  define io where "io = 22 + length sv"
  define ho where "ho = io + length inst + 21"
  define hostn where "hostn = lbl host @ lbl (str ''local'') @ [0]"
  define p where "p = dns_message tid svc inst pcls ttl port host txt ip"
  let ?r1 = "rr_bytes sv 12 pcls ttl (lbl inst @ name_ptr 12)"
  let ?r2 = "rr_bytes (name_ptr io) 33 0x8001 ttl (be16 0 @ be16 0 @ be16 port @ hostn)"
  let ?r3 = "rr_bytes (name_ptr io) 16 0x8001 ttl txt"
  let ?r4 = "rr_bytes (name_ptr ho) 1 0x8001 ttl (ip_bytes ip)"
  have p: "p = be16 tid @ be16 0x8400 @ be16 0 @ be16 1 @ be16 0 @ be16 3 @ ?r1 @ ?r2 @ ?r3 @ ?r4"
    by (simp add: p_def dns_message_def Let_def sv_def io_def ho_def hostn_def)
  have lsv: "length sv \<le> 513"
  proof -
    have "length (concat (map lbl svc)) \<le> 64 * length svc"
      using svc(1) by (induction svc) (auto simp: label_ok_def)
    with svc(2) show ?thesis by (simp add: sv_def)
  qed
  have linst: "length inst \<le> 63" and lhost: "length host \<le> 63" using inst host by (simp_all add: label_ok_def)
  have io: "io < 2 ^ 14" and ho: "ho < 2 ^ 14" using lsv linst by (simp_all add: io_def ho_def)
  have nsv: "dns_name f p (sv @ r) = Some (svc, r)" if "9 \<le> f" for f r
    using svc that by (simp add: sv_def name_labels)
  have "drop 12 p = sv @ drop (length sv) (?r1 @ ?r2 @ ?r3 @ ?r4)" by (simp add: p rr_bytes_def)
  then have n12: "dns_name (Suc f) p (name_ptr 12 @ r) = Some (svc, r)" if "9 \<le> f" for f r
    using that by (simp add: name_ptr_read nsv)
  have dio: "drop io p = lbl inst @ name_ptr 12 @ ?r2 @ ?r3 @ ?r4"
    by (simp add: p rr_bytes_def io_def)
  have ninst: "dns_name (Suc (Suc f)) p (lbl inst @ name_ptr 12 @ r) = Some (inst # svc, r)" if "9 \<le> f" for f r
    using that by (simp add: name_label [OF inst] n12)
  have nio: "dns_name 16 p (name_ptr io @ r) = Some (inst # svc, r)" for r
    using ninst [of 13] by (simp add: name_ptr_read [OF io, of 15, simplified] dio)
  have nhost: "dns_name f p (hostn @ r) = Some ([host, str ''local''], r)" if "3 \<le> f" for f r
    using that host name_labels [of "[host, str ''local'']" f p r] by (simp add: hostn_def label_ok_def wire_simps)
  have "drop ho p = hostn @ ?r3 @ ?r4"
    by (simp add: p rr_bytes_def io_def ho_def)
  then have nho: "dns_name 16 p (name_ptr ho @ r) = Some ([host, str ''local''], r)" for r
    by (simp add: name_ptr_read [OF ho, of 15, simplified] nhost)
  have d1: "dns_rdata p 12 (lbl inst @ name_ptr 12) = Some (PTR (inst # svc))"
    using ninst [of 14 "[]"] by (simp add: dns_rdata_def)
  have d2: "dns_rdata p 33 (be16 0 @ be16 0 @ be16 port @ hostn) = Some (SRV 0 0 port [host, str ''local''])"
    using nhost [of 16 "[]"] rd16_be16 [of "[]" 0 0] rd16_be16 [of "be16 0" 2 0] rd16_be16 [of "be16 0 @ be16 0" 4 port]
    by (simp add: dns_rdata_def)
  have d3: "dns_rdata p 16 txt = Some (TXT strs)" "dns_rdata p 1 (ip_bytes ip) = Some (A (ip_bytes ip))"
    using tx by (simp_all add: dns_rdata_def)
  let ?x1 = "\<lparr> rr_name = svc, rr_class = pcls, rr_ttl = ttl, rr_data = PTR (inst # svc) \<rparr>"
  let ?x2 = "\<lparr> rr_name = inst # svc, rr_class = 0x8001, rr_ttl = ttl, rr_data = SRV 0 0 port [host, str ''local''] \<rparr>"
  let ?x3 = "\<lparr> rr_name = inst # svc, rr_class = 0x8001, rr_ttl = ttl, rr_data = TXT strs \<rparr>"
  let ?x4 = "\<lparr> rr_name = [host, str ''local''], rr_class = 0x8001, rr_ttl = ttl, rr_data = A (ip_bytes ip) \<rparr>"
  have a1: "dns_rr p (?r1 @ r) = Some (?x1, r)" for r
    by (rule rr_read [OF nsv _ d1]) (use linst in simp_all)
  have a2: "dns_rr p (?r2 @ r) = Some (?x2, r)" for r
    by (rule rr_read [OF nio _ d2]) (use lhost in \<open>simp_all add: hostn_def\<close>)
  have a3: "dns_rr p (?r3 @ r) = Some (?x3, r)" for r
    by (rule rr_read [OF nio tx(2) d3(1)])
  have a4: "dns_rr p (?r4 @ []) = Some (?x4, [])"
    by (rule rr_read [OF nho _ d3(2)]) simp_all
  have "dns_rrs (Suc (Suc (Suc (Suc 0)))) p (?r1 @ ?r2 @ ?r3 @ ?r4 @ []) = Some [?x1, ?x2, ?x3, ?x4]"
    by (simp only: dns_rrs.simps a1 a2 a3 a4 option.case prod.case option.map simp_thms if_True)
  then have q: "dns_rrs 4 p (?r1 @ ?r2 @ ?r3 @ ?r4) = Some [?x1, ?x2, ?x3, ?x4]"
    by (simp only: append_Nil2 four_Suc)
  have "rd16 p 0 = tid" "rd16 p 2 = 0x8400" "rd16 p 4 = 0" "rd16 p 6 = 1" "rd16 p 8 = 0" "rd16 p 10 = 3" "drop 12 p = ?r1 @ ?r2 @ ?r3 @ ?r4"
    using rd16_be16 [of "[]"] rd16_be16 [of "be16 tid"] rd16_be16 [of "be16 tid @ be16 0x8400"] rd16_be16 [of "be16 tid @ be16 0x8400 @ be16 0"]
      rd16_be16 [of "be16 tid @ be16 0x8400 @ be16 0 @ be16 1"] rd16_be16 [of "be16 tid @ be16 0x8400 @ be16 0 @ be16 1 @ be16 0"]
    by (simp_all add: p)
  with q show ?thesis
    by (simp add: dns_response_def p_def [symmetric]) (simp add: p)
qed


subsection \<open>The packets of the receiver\<close>

definition lan_records :: "identity \<Rightarrow> byte list \<Rightarrow> u32 \<Rightarrow> u32 \<Rightarrow> rr list" where
  "lan_records d host ttl ip =
     (let svc = [str ''_miplay_lan'', str ''_tcp'', str ''local'']; inst = s_inst_name d
      in [\<lparr> rr_name = svc, rr_class = 1, rr_ttl = ttl, rr_data = PTR (inst # svc) \<rparr>,
          \<lparr> rr_name = inst # svc, rr_class = 0x8001, rr_ttl = ttl, rr_data = SRV 0 0 8899 [host, str ''local''] \<rparr>,
          \<lparr> rr_name = inst # svc, rr_class = 0x8001, rr_ttl = ttl, rr_data = TXT [lan_txt d] \<rparr>,
          \<lparr> rr_name = [host, str ''local''], rr_class = 0x8001, rr_ttl = ttl, rr_data = A (ip_bytes ip) \<rparr>])"

definition mdns_records ::
  "byte list list \<Rightarrow> byte list \<Rightarrow> u16 \<Rightarrow> (byte list \<times> byte list) list \<Rightarrow> u32 \<Rightarrow> byte list \<Rightarrow> rr list" where
  "mdns_records svc inst port items ip host =
     [\<lparr> rr_name = svc, rr_class = 0x8001, rr_ttl = 120, rr_data = PTR (inst # svc) \<rparr>,
      \<lparr> rr_name = inst # svc, rr_class = 0x8001, rr_ttl = 120, rr_data = SRV 0 0 port [host, str ''local''] \<rparr>,
      \<lparr> rr_name = inst # svc, rr_class = 0x8001, rr_ttl = 120, rr_data = TXT (map (\<lambda>(k, v). k @ 61 # v) items) \<rparr>,
      \<lparr> rr_name = [host, str ''local''], rr_class = 0x8001, rr_ttl = 120, rr_data = A (ip_bytes ip) \<rparr>]"

lemma length_dns_message:
  "length (dns_message tid svc inst pcls ttl port host txt ip)
     = 80 + length (concat (map lbl svc)) + length inst + length host + length txt"
  by (simp add: dns_message_def Let_def)

lemma txt_strings_lbl: "length l \<le> 255 \<Longrightarrow> txt_strings (lbl l @ r) = map_option (Cons l) (txt_strings r)"
proof -
  assume "length l \<le> 255"
  then have "unat (of_nat (length l) :: byte) = length l" unfolding unat_of_nat by simp
  then show ?thesis by (simp add: lbl_def)
qed

lemma txt_strings_bytes:
  "list_all (\<lambda>(k, v). length k + 1 + length v \<le> 255) ts \<Longrightarrow> txt_strings (txt_bytes ts) = Some (map (\<lambda>(k, v). k @ 61 # v) ts)"
  by (induction ts) (auto simp: txt_bytes_def txt_strings_lbl)

lemma length_hex2 [simp]: "length (hex2 tab b) = 2"
  by (simp add: hex2_def)

lemma identity_lengths:
  assumes "hashes_ok h" and "length mac = 6"
  shows "length (s_inst_name (init_device_identity h mac)) = 21" "length (s_device_id (init_device_identity h mac)) = 8"
    "length (s_idhash (init_device_identity h mac)) = 4" "length (s_mac_b64 (init_device_identity h mac)) = 8"
    "length (s_appsdata (init_device_identity h mac)) = 12" "length (s_lyra_appdata (init_device_identity h mac)) = 48"
  by (simp_all add: init_device_identity_def Let_def inst_suffix_def hex_upper_def b64_encode_3_def b64_quad_def
      lyra_appdata_def wire_simps)

lemma length_lan_txt: "length (lan_txt d) \<le> 255"
  unfolding lan_txt_def Let_def length_take by (rule le_trans [OF min.cobounded2 min.cobounded1])

lemma lan_message_read:
  assumes "length (s_inst_name d) = 21" and "length host = 13"
  shows "dns_response (dns_message tid [str ''_miplay_lan'', str ''_tcp'', str ''local''] (s_inst_name d) 1 ttl
      MIPLAY_CONTROL_PORT host (of_nat (length (lan_txt d)) # lan_txt d) ip) = Some (tid, 0x8400, lan_records d host ttl ip)"
proof -
  have "txt_strings (lbl (lan_txt d) @ []) = Some [lan_txt d]"
    by (simp only: txt_strings_lbl [OF length_lan_txt] txt_strings.simps option.map)
  then have "txt_strings (of_nat (length (lan_txt d)) # lan_txt d) = Some [lan_txt d]" by (simp add: lbl_def)
  moreover have "s_inst_name d \<noteq> []" "host \<noteq> []" using assms by auto
  ultimately show ?thesis
    using assms length_lan_txt [of d]
    by (subst dns_message_read) (auto simp: label_ok_def lan_records_def MIPLAY_CONTROL_PORT_def wire_simps Let_def)
qed

lemma mdns_announce_read:
  assumes "label_ok inst" "label_ok host" "svc_qname = concat (map lbl svc) @ [0]" "list_all label_ok svc" "length svc \<le> 8"
    and "list_all (\<lambda>(k, v). length k + 1 + length v \<le> 255) items" "p_size \<le> 2 ^ 16"
    and "63 + length svc_qname + length inst + length host + length (txt_bytes items) \<le> p_size - 64"
  shows "dns_response (build_mdns_announce p_size svc_qname inst port items ip host)
      = Some (0, 0x8400, mdns_records svc inst port items ip host)
    \<and> length (build_mdns_announce p_size svc_qname inst port items ip host) \<le> p_size"
proof -
  have "build_mdns_announce p_size svc_qname inst port items ip host
      = dns_message 0 svc inst 0x8001 120 port host (txt_bytes items) ip"
    using assms by (intro build_mdns_announce_eq) (simp_all add: label_ok_def)
  moreover have "length (txt_bytes items) < 2 ^ 16" using assms(7,8) by simp
  ultimately show ?thesis
    using assms txt_strings_bytes [OF assms(6)]
    by (simp add: dns_message_read length_dns_message mdns_records_def)
qed


lemma lan_packet_read:
  assumes "length (s_inst_name d) = 21" and "length host = 13"
  shows "dns_response (build_lan_packet d ip host u) = Some (0, 0x8400, lan_records d host (if u then 10 else 60) ip)"
    and "length (build_lan_packet d ip host u) \<le> 512"
  using assms length_lan_txt [of d]
  by (simp_all add: build_lan_packet_eq lan_message_read length_dns_message)

lemma s_lan_hostname_length: "length (s_lan_hostname (build_miplay_lan_response d ip)) = 13"
  by (simp add: build_miplay_lan_response_def Let_def)

lemma rd16_take: "rd16 (take n q) i = rd16 q i" if "i + 1 < n"
  using that by (simp add: rd16_def)

lemma be16_rd16: "be16 (rd16 [a, b] 0) = [a, b]"
  using be_bytes_be_word [of "[a, b]", where 'a = 16] rd16_eq [of 0 "[a, b]"] by (simp add: be16_def)

lemma lan_reply_read:
  assumes "length (s_inst_name d) = 21" and "lan_recv mem (build_miplay_lan_response d ip) q = Some r"
  shows "dns_response r = Some (rd16 q 0, 0x8400, lan_records d (s_lan_hostname (build_miplay_lan_response d ip)) 10 ip)"
    and "rd16 r 2 = 0x8400"
proof -
  let ?h = "s_lan_hostname (build_miplay_lan_response d ip)"
  have host: "length ?h = 13" by (rule s_lan_hostname_length)
  define m where "m tid = dns_message tid [str ''_miplay_lan'', str ''_tcp'', str ''local''] (s_inst_name d) 1 10 MIPLAY_CONTROL_PORT
      ?h (of_nat (length (lan_txt d)) # lan_txt d) ip" for tid
  have "s_lan_response (build_miplay_lan_response d ip) = build_lan_packet d ip ?h True"
    by (simp add: build_miplay_lan_response_def Let_def)
  then have "s_lan_response (build_miplay_lan_response d ip) = m 0"
    using assms(1) host by (simp add: build_lan_packet_eq m_def)
  moreover have "(m 0)[0 := q ! 0, 1 := q ! 1] = m (rd16 [q ! 0, q ! 1] 0)"
    by (simp add: m_def dns_message_def Let_def be16_rd16) (simp add: be16_def)
  ultimately have r: "r = m (rd16 q 0)"
    using assms(2) by (auto simp: lan_recv_def Let_def rd16_def split: if_splits)
  then show "dns_response r = Some (rd16 q 0, 0x8400, lan_records d ?h 10 ip)"
    using assms(1) host by (simp add: m_def lan_message_read)
  have "rd16 (be16 (rd16 q 0) @ be16 0x8400 @ t) 2 = 0x8400" for t by (rule rd16_be16) simp
  then show "rd16 r 2 = 0x8400" by (simp add: r m_def dns_message_def Let_def)
qed

lemma response_not_answered: "rd16 q 2 AND 0x8000 \<noteq> 0 \<Longrightarrow> lan_recv mem l q = None"
  by (simp add: lan_recv_def Let_def rd16_take)

lemma dns_response_flags: "dns_response p = Some (i, f, rs) \<Longrightarrow> rd16 p 2 = f"
  by (auto simp: dns_response_def split: if_splits)

lemma length_micon_bytes: "hashes_ok h \<Longrightarrow> length mac = 6 \<Longrightarrow> length (txt_bytes (micon_txt (init_device_identity h mac))) = 109"
  by (simp add: micon_txt_def txt_bytes_def identity_lengths)

lemma length_lyra_bytes: "hashes_ok h \<Longrightarrow> length mac = 6 \<Longrightarrow> length (txt_bytes (lyra_txt (init_device_identity h mac) ip ts)) \<le> 243"
proof -
  have "length (debug_info m ip) \<le> 127" for m unfolding debug_info_def Let_def length_take by (rule min.cobounded2)
  from this [of "str ''announcement''"] show "hashes_ok h \<Longrightarrow> length mac = 6 \<Longrightarrow> ?thesis"
    by (simp add: lyra_txt_def txt_bytes_def identity_lengths)
qed

lemma announce_burst_read:
  assumes "hashes_ok h" and "length mac = 6"
  shows "let d = init_device_identity h mac
    in map dns_response (announce_burst d ip ts_ms) =
         [Some (0, 0x8400, mdns_records [str ''_lyra-mdns'', str ''_udp'', str ''local''] (s_device_id d) 5353 (lyra_txt d ip ts_ms) ip (s_device_id d)),
          Some (0, 0x8400, mdns_records [str ''_mi-connect'', str ''_udp'', str ''local''] (s_inst_name d) 56666 (micon_txt d) ip (s_device_id d))]
       \<and> map (\<lambda>p. length p \<le> 768) (announce_burst d ip ts_ms) = [True, True]"
proof -
  let ?d = "init_device_identity h mac"
  note len = identity_lengths [OF assms] and b = length_micon_bytes [OF assms] length_lyra_bytes [OF assms, of ip ts_ms]
  have "s_device_id ?d \<noteq> []" "s_inst_name ?d \<noteq> []" using len by auto
  then have ok: "label_ok (s_device_id ?d)" "label_ok (s_inst_name ?d)" using len by (simp_all add: label_ok_def)
  have l: "length (debug_info (str ''announcement'') ip) \<le> 127" unfolding debug_info_def Let_def length_take by (rule min.cobounded2)
  have "dns_response (build_mdns_announce 768 lyra_qname (s_device_id ?d) 5353 (lyra_txt ?d ip ts_ms) ip (s_device_id ?d))
      = Some (0, 0x8400, mdns_records [str ''_lyra-mdns'', str ''_udp'', str ''local''] (s_device_id ?d) 5353 (lyra_txt ?d ip ts_ms) ip (s_device_id ?d))
    \<and> length (build_mdns_announce 768 lyra_qname (s_device_id ?d) 5353 (lyra_txt ?d ip ts_ms) ip (s_device_id ?d)) \<le> 768"
    by (rule mdns_announce_read [OF ok(1,1) service_qnames(2)])
      (use len b l in \<open>simp_all add: label_ok_def lyra_txt_def service_qnames wire_simps\<close>)
  moreover have "dns_response (build_mdns_announce 768 micon_qname (s_inst_name ?d) 56666 (micon_txt ?d) ip (s_device_id ?d))
      = Some (0, 0x8400, mdns_records [str ''_mi-connect'', str ''_udp'', str ''local''] (s_inst_name ?d) 56666 (micon_txt ?d) ip (s_device_id ?d))
    \<and> length (build_mdns_announce 768 micon_qname (s_inst_name ?d) 56666 (micon_txt ?d) ip (s_device_id ?d)) \<le> 768"
    by (rule mdns_announce_read [OF ok(2,1) service_qnames(3)])
      (use len b in \<open>simp_all add: label_ok_def micon_txt_def service_qnames wire_simps\<close>)
  ultimately show ?thesis by (simp add: announce_burst_def MIPLAY_COAP_PORT_def Let_def)
qed


text \<open>The room check of the TXT loop sees the length modulo 256, the copies do not.\<close>

lemma txt_items_wrap:
  "length k + 1 + length v = 256 \<Longrightarrow> length p < n - 64 \<Longrightarrow> length (txt_items n p [(k, v)]) = length p + 257"
proof -
  assume "length k + 1 + length v = 256" "length p < n - 64"
  moreover from this have "(of_nat (length k + 1 + length v) :: byte) = 0" by simp
  ultimately show ?thesis by (simp add: Let_def)
qed

subsection \<open>Properties\<close>

text \<open>The LAN packets. For any hardware address and IP address, the announcement and the
  unicast answer fit their 512-byte buffers and are read back by the DNS grammar, to the last
  byte and with every name pointer resolved, as one PTR answer and the SRV, TXT and A records
  of this receiver, with time to live 60 and 10.\<close>

theorem lan_packets_wellformed:
  assumes "hashes_ok h" and "length mac = 6"
  shows "let d = init_device_identity h mac; l = build_miplay_lan_response d ip
    in length (s_lan_announce l) \<le> 512 \<and> length (s_lan_response l) \<le> 512
       \<and> dns_response (s_lan_announce l) = Some (0, 0x8400, lan_records d (s_lan_hostname l) 60 ip)
       \<and> dns_response (s_lan_response l) = Some (0, 0x8400, lan_records d (s_lan_hostname l) 10 ip)"
proof -
  let ?d = "init_device_identity h mac"
  note r = lan_packet_read [OF identity_lengths(1) [OF assms] s_lan_hostname_length [of ?d ip], of ip]
  show ?thesis
    using r [of True] r [of False] by (simp add: Let_def build_miplay_lan_response_def)
qed

text \<open>Answering discovery. A datagram is answered exactly when memory is available and
  its first 512 bytes are a query (QR clear, at least one question) that contains the service
  name; the answer carries the id of the query and the records of the receiver; and an answer
  that loops back is never answered again.\<close>

theorem lan_reply_spec:
  assumes "hashes_ok h" and "length mac = 6"
  shows "let d = init_device_identity h mac; l = build_miplay_lan_response d ip
    in case lan_recv mem l q of
         None \<Rightarrow> \<not> mem \<or> length q < 24 \<or> rd16 q 2 AND 0x8000 \<noteq> 0 \<or> rd16 q 4 = 0 \<or> find_sub s_service_qname (take 512 q) = None
       | Some r \<Rightarrow> mem \<and> find_sub s_service_qname (take 512 q) \<noteq> None \<and> rd16 q 2 AND 0x8000 = 0 \<and> rd16 q 4 \<noteq> 0
           \<and> dns_response r = Some (rd16 q 0, 0x8400, lan_records d (s_lan_hostname l) 10 ip)
           \<and> lan_recv mem' l' r = None"
proof -
  let ?l = "build_miplay_lan_response (init_device_identity h mac) ip"
  have len: "length s_service_qname = 24" by (simp add: s_service_qname_def)
  show ?thesis
  proof (cases "lan_recv mem ?l q")
    case None
    then show ?thesis using len by (auto simp: lan_recv_def Let_def rd16_take split: if_splits)
  next
    case (Some r)
    from lan_reply_read [OF identity_lengths(1) [OF assms] Some]
    have "dns_response r = Some (rd16 q 0, 0x8400, lan_records (init_device_identity h mac) (s_lan_hostname ?l) 10 ip)"
      and "lan_recv mem' l' r = None" by (simp_all add: response_not_answered)
    moreover have "mem \<and> find_sub s_service_qname (take 512 q) \<noteq> None \<and> rd16 q 2 AND 0x8000 = 0 \<and> rd16 q 4 \<noteq> 0"
      using Some by (auto simp: lan_recv_def Let_def rd16_take split: if_splits)
    ultimately show ?thesis using Some by (simp add: Let_def)
  qed
qed

text \<open>C34: The mDNS announcements. For any hardware address, IP address and time, both packets
  of a burst fit the 768-byte buffer and are read back by the DNS grammar as the PTR, SRV, TXT
  and A records of the two services, every TXT item complete.\<close>

theorem mdns_burst_wellformed:
  assumes "hashes_ok h" and "length mac = 6"
  shows "let d = init_device_identity h mac
    in map dns_response (announce_burst d ip ts_ms) =
         [Some (0, 0x8400, mdns_records [str ''_lyra-mdns'', str ''_udp'', str ''local''] (s_device_id d) 5353 (lyra_txt d ip ts_ms) ip (s_device_id d)),
          Some (0, 0x8400, mdns_records [str ''_mi-connect'', str ''_udp'', str ''local''] (s_inst_name d) 56666 (micon_txt d) ip (s_device_id d))]
       \<and> map (\<lambda>p. length p \<le> 768) (announce_burst d ip ts_ms) = [True, True]"
  by (rule announce_burst_read [OF assms])

text \<open>Their hypotheses hold on concrete inputs.\<close>

lemma lan_packets_wellformed_witness:
  "length (s_lan_response (build_miplay_lan_response (init_device_identity sample_hashes [1, 2, 3, 4, 5, 6]) 0x0101A8C0)) \<le> 512"
  using lan_packets_wellformed [OF sample_hashes_ok, of "[1, 2, 3, 4, 5, 6]" "0x0101A8C0"] unfolding Let_def by simp

lemma lan_reply_spec_witness:
  "lan_recv True (build_miplay_lan_response (init_device_identity sample_hashes [1, 2, 3, 4, 5, 6]) 0x0101A8C0)
     ([0xab, 0xcd, 0, 0, 0, 1, 0, 0, 0, 0, 0, 0] @ s_service_qname @ [0, 12, 0, 1]) \<noteq> None"
proof -
  let ?q = "[0xab, 0xcd, 0, 0, 0, 1, 0, 0, 0, 0, 0, 0] @ s_service_qname @ [0, 12, 0, 1]"
  have len: "length s_service_qname = 24" by (simp add: s_service_qname_def)
  have "take (length s_service_qname) (drop 12 (take 512 ?q)) = s_service_qname" by (simp add: len)
  then have "find_sub s_service_qname (take 512 ?q) \<noteq> None" unfolding find_sub_None by (auto intro!: exI [of _ 12])
  then have "\<not> (\<not> True \<or> length ?q < 24 \<or> rd16 ?q 2 AND 0x8000 \<noteq> 0 \<or> rd16 ?q 4 = 0 \<or> find_sub s_service_qname (take 512 ?q) = None)"
    by (simp only: len length_append) (simp add: rd16_def)
  then have neg: "\<not> (\<not> True \<or> length ?q < 24 \<or> rd16 ?q 2 AND 0x8000 \<noteq> 0 \<or> rd16 ?q 4 = 0 \<or> find_sub s_service_qname (take 512 ?q) = None)" .
  show ?thesis
  proof
    assume n: "lan_recv True (build_miplay_lan_response (init_device_identity sample_hashes [1, 2, 3, 4, 5, 6]) 0x0101A8C0) ?q = None"
    from lan_reply_spec [OF sample_hashes_ok, where mac = "[1, 2, 3, 4, 5, 6]" and ip = "0x0101A8C0" and mem = True and q = ?q]
    have "length [1, 2, 3, 4, 5, 6 :: byte] = 6 \<Longrightarrow>
      \<not> True \<or> length ?q < 24 \<or> rd16 ?q 2 AND 0x8000 \<noteq> 0 \<or> rd16 ?q 4 = 0 \<or> find_sub s_service_qname (take 512 ?q) = None"
      unfolding Let_def n option.case .
    moreover have "length [1, 2, 3, 4, 5, 6 :: byte] = 6" by simp
    ultimately show False using neg by blast
  qed
qed

lemma mdns_burst_wellformed_witness:
  "map (\<lambda>p. length p \<le> 768) (announce_burst (init_device_identity sample_hashes [1, 2, 3, 4, 5, 6]) 0x0101A8C0 1700000000000) = [True, True]"
  using mdns_burst_wellformed [OF sample_hashes_ok, of "[1, 2, 3, 4, 5, 6]" "0x0101A8C0" 1700000000000] unfolding Let_def by simp

end
