(* ===== verification/Rtsp.thy ===== *)
theory Rtsp
  imports Identity
begin

text \<open>
  Reading RTSP messages (\<open>miplay.c\<close>: \<open>rtsp_find_header_value\<close> to \<open>rtsp_get_session\<close>).
  The reader keeps a buffer of 2047 usable bytes between calls; it skips interleaved RTP
  frames, drops what cannot start a message, and takes one message with its body. A socket is
  the list of what its next \<open>recv\<close> calls find: data (none means the peer has closed, which
  is found again by every later call) or an error with its \<open>errno\<close>; an exhausted list is the
  receive timeout. \<open>recv\<close> leaves \<open>errno\<close> alone unless it fails.
\<close>

definition RTSP_BUF_SIZE :: nat where "RTSP_BUF_SIZE = 2048"
definition EAGAIN :: nat where "EAGAIN = 11"
definition EMSGSIZE :: nat where "EMSGSIZE = 122"

datatype rx = Data "byte list" | Fail nat

fun sock_recv :: "nat \<Rightarrow> rx list \<Rightarrow> rx \<times> rx list" where
  "sock_recv cap [] = (Fail EAGAIN, [])"
| "sock_recv cap (Fail e # evs) = (Fail e, evs)"
| "sock_recv cap (Data bs # evs) =
     (if bs = [] then (Data [], Data [] # evs)
      else (Data (take cap bs), if length bs \<le> cap then evs else Data (drop cap bs) # evs))"

fun pending :: "rx list \<Rightarrow> nat" where
  "pending [] = 0"
| "pending (Data bs # evs) = Suc (length bs) + pending evs"
| "pending (Fail e # evs) = 1 + pending evs"

definition is_blank :: "byte \<Rightarrow> bool" where "is_blank b \<longleftrightarrow> b = 32 \<or> b = 9"

function header_from :: "byte list \<Rightarrow> byte list \<Rightarrow> byte list option" where
  \<comment> \<open>the loop over the lines; the value runs to the end of the string, as the pointer does\<close>
  "header_from name line =
     (if line = [] then None
      else case find_sub crlf line of
             None \<Rightarrow> None
           | Some e \<Rightarrow>
               if e = 0 then None
               else
                 let colon = dropWhile is_blank (drop (length name) (take e line))
                 in if length name < e \<and> strcaseeq (take (length name) line) name \<and> colon \<noteq> [] \<and> hd colon = 58
                    then Some (dropWhile is_blank (tl colon) @ drop e line)
                    else header_from name (drop (e + 2) line))"
  by pat_completeness auto
termination
  by (relation "measure (\<lambda>(name, line). length line)") auto

declare header_from.simps [simp del]

definition rtsp_find_header_value :: "byte list \<Rightarrow> string \<Rightarrow> byte list option" where
  "rtsp_find_header_value headers name = header_from (str name) (cstr headers)"

definition message_starts :: "byte list list" where
  "message_starts = map str [''RTSP/1.'', ''OPTIONS '', ''GET_PARAMETER '', ''SET_PARAMETER '', ''SETUP '', ''PLAY '',
     ''TEARDOWN '', ''PAUSE '', ''TIME_OFFSET '', ''VIDEO_LATENCY '']"

definition rtsp_is_message_start :: "byte list \<Rightarrow> bool" where
  "rtsp_is_message_start p \<longleftrightarrow> list_ex (\<lambda>m. take (length m) p = m) message_starts"

fun crlf_start :: "byte list \<Rightarrow> nat option" where
  "crlf_start [] = None"
| "crlf_start (a # r) =
     (if a = 13 \<and> r \<noteq> [] \<and> hd r = 10 \<and> rtsp_is_message_start (tl r) then Some 2
      else map_option Suc (crlf_start r))"

definition rtsp_find_message_start :: "byte list \<Rightarrow> nat option" where
  "rtsp_find_message_start buf = (if rtsp_is_message_start buf then Some 0 else crlf_start buf)"

function skip_rtp :: "byte list \<Rightarrow> byte list" where
  "skip_rtp buf =
     (if 4 \<le> length buf \<and> buf ! 0 = 0x24 \<and> 4 + unat (rd16 buf 2) \<le> length buf
      then skip_rtp (drop (4 + unat (rd16 buf 2)) buf) else buf)"
  by pat_completeness auto
termination
  by (relation "measure length") auto

declare skip_rtp.simps [simp del]

definition content_length :: "byte list \<Rightarrow> byte list \<Rightarrow> int" where
  \<comment> \<open>\<open>left\<close> is what the buffer holds after the header block\<close>
  "content_length headers left =
     (case rtsp_find_header_value headers ''Content-Length'' of
        Some cl \<Rightarrow> atoi cl
      | None \<Rightarrow>
          if left = [] \<or> rtsp_is_message_start left then 0
          else case rtsp_find_message_start left of Some n \<Rightarrow> int n | None \<Rightarrow> int (length left))"

datatype rtsp_ret = RMsg "byte list" "byte list" | RClosed | RFail "nat option" \<comment> \<open>\<open>None\<close>: \<open>errno\<close> untouched\<close>

lemma pending_recv:
  "sock_recv cap evs = (Data bs, evs') \<Longrightarrow> bs \<noteq> [] \<Longrightarrow> pending evs' < pending evs \<and> pending evs' + length bs \<le> pending evs"
  by (induction cap evs rule: sock_recv.induct) (auto split: if_splits)

function rtsp_body :: "nat \<Rightarrow> int \<Rightarrow> byte list \<Rightarrow> rx list \<Rightarrow> rtsp_ret option \<times> byte list \<times> rx list" where
  \<comment> \<open>waiting for the body; \<open>None\<close>: go on\<close>
  "rtsp_body hdr_len cl buf evs =
     (if int (length buf - hdr_len) < cl \<and> length buf < RTSP_BUF_SIZE - 1 then
        case sock_recv (RTSP_BUF_SIZE - 1 - length buf) evs of
          (Fail e, evs') \<Rightarrow> (Some (RFail (Some e)), buf, evs')
        | (Data bs, evs') \<Rightarrow> if bs = [] then (Some RClosed, buf, evs') else rtsp_body hdr_len cl (buf @ bs) evs'
      else (None, buf, evs))"
  by pat_completeness auto
termination
proof (relation "measure (\<lambda>(hdr_len, cl, buf, evs). pending evs)", goal_cases)
  case (2 hdr_len cl buf evs x evs' bs)
  then have "sock_recv (RTSP_BUF_SIZE - 1 - length buf) evs = (Data bs, evs')" by simp
  from pending_recv [OF this] 2 show ?case by simp
qed simp

declare rtsp_body.simps [simp del]

definition rtsp_finish :: "nat \<Rightarrow> nat \<Rightarrow> nat \<Rightarrow> byte list \<Rightarrow> rx list \<Rightarrow> rtsp_ret \<times> byte list \<times> rx list" where
  \<comment> \<open>the header block ends at \<open>hdr_len\<close>\<close>
  "rtsp_finish hdr_max body_max hdr_len buf evs =
     (if hdr_max \<le> hdr_len then (RFail (Some EMSGSIZE), buf, evs)
      else
        let headers = take hdr_len buf; cl = content_length headers (drop hdr_len buf)
        in if cl < 0 \<or> RTSP_BUF_SIZE \<le> hdr_len + nat cl then (RFail (Some EMSGSIZE), buf, evs)
           else case rtsp_body hdr_len cl buf evs of
                  (Some r, buf2, evs2) \<Rightarrow> (r, buf2, evs2)
                | (None, buf2, evs2) \<Rightarrow>
                    if int (length buf2 - hdr_len) < cl then (RFail (Some EMSGSIZE), buf2, evs2)
                    else (RMsg headers (take (min (nat cl) (body_max - 1)) (drop hdr_len buf2)),
                          drop (hdr_len + nat cl) buf2, evs2))"

function rtsp_read_msg :: "nat \<Rightarrow> nat \<Rightarrow> byte list \<Rightarrow> rx list \<Rightarrow> rtsp_ret \<times> byte list \<times> rx list" where
  "rtsp_read_msg hdr_max body_max buf0 evs =
     (if RTSP_BUF_SIZE - 1 \<le> length buf0 then (RFail None, buf0, evs)
      else
        let buf = skip_rtp buf0
        in if buf \<noteq> [] \<and> hd buf \<noteq> 0x24 \<and> \<not> rtsp_is_message_start buf \<and> crlf_start buf \<noteq> None
           then rtsp_read_msg hdr_max body_max (drop (the (crlf_start buf)) buf) evs
           else if buf \<noteq> [] \<and> hd buf \<noteq> 0x24 \<and> \<not> rtsp_is_message_start buf \<and> find_sub crlf (cstr buf) \<noteq> None
           then rtsp_read_msg hdr_max body_max [] evs
           else case (if buf \<noteq> [] \<and> hd buf = 0x24 then None else find_sub (crlf @ crlf) (cstr buf)) of
                  Some i \<Rightarrow> rtsp_finish hdr_max body_max (i + 4) buf evs
                | None \<Rightarrow>
                    (case sock_recv (RTSP_BUF_SIZE - 1 - length buf) evs of
                       (Fail e, evs') \<Rightarrow> (RFail (Some e), buf, evs')
                     | (Data bs, evs') \<Rightarrow>
                         if bs = [] then (RClosed, buf, evs')
                         else rtsp_read_msg hdr_max body_max (buf @ bs) evs'))"
  by pat_completeness auto

lemma crlf_start_range: "crlf_start buf = Some n \<Longrightarrow> 0 < n \<and> n < length buf"
proof (induction buf arbitrary: n)
  case (Cons a r)
  have "rtsp_is_message_start (tl r) \<Longrightarrow> tl r \<noteq> []"
    by (auto simp: rtsp_is_message_start_def message_starts_def wire_simps)
  with Cons show ?case by (cases r) (auto split: if_splits)
qed simp

lemma skip_rtp_length: "length (skip_rtp buf) \<le> length buf"
proof (induction buf rule: skip_rtp.induct)
  case (1 buf)
  then show ?case by (subst skip_rtp.simps) auto
qed

termination rtsp_read_msg
proof (relation "measures [\<lambda>(hdr_max, body_max, buf, evs). pending evs, \<lambda>(hdr_max, body_max, buf, evs). length buf]", goal_cases)
  case 1
  show ?case by simp
next
  case (2 hdr_max body_max buf0 evs buf)
  then obtain n where n: "crlf_start buf = Some n" by blast
  with crlf_start_range [OF n] skip_rtp_length [of buf0] 2(2) have "length (drop n buf) < length buf0" by simp linarith
  with n show ?case by simp
next
  case (3 hdr_max body_max buf0 evs buf)
  with skip_rtp_length [of buf0] have "buf0 \<noteq> []" by auto
  then show ?case by simp
next
  case (4 hdr_max body_max buf0 evs buf x evs' bs)
  then have "sock_recv (RTSP_BUF_SIZE - 1 - length buf) evs = (Data bs, evs')" by simp
  from pending_recv [OF this] 4 show ?case by simp
qed

declare rtsp_read_msg.simps [simp del]

definition rtsp_get_cseq :: "byte list \<Rightarrow> int" where
  "rtsp_get_cseq headers = (case rtsp_find_header_value headers ''CSeq'' of None \<Rightarrow> 0 | Some p \<Rightarrow> atoi p)"

definition rtsp_get_session :: "byte list \<Rightarrow> nat \<Rightarrow> byte list" where
  "rtsp_get_session headers mx =
     (case rtsp_find_header_value headers ''Session'' of
        None \<Rightarrow> []
      | Some p \<Rightarrow> take (mx - 1) (takeWhile (\<lambda>c. c \<noteq> 13 \<and> c \<noteq> 59) p))"


subsection \<open>Progress\<close>

lemma sock_recv_progress:
  "sock_recv cap evs = (x, evs') \<Longrightarrow> 0 < cap \<Longrightarrow>
   (case x of Fail e \<Rightarrow> evs = [] \<and> evs' = [] \<or> pending evs' < pending evs
    | Data bs \<Rightarrow> (if bs = [] then evs' = evs else 2 * pending evs' + length bs < 2 * pending evs))"
  by (induction cap evs rule: sock_recv.induct) (auto split: if_splits)

lemma body_progress:
  "rtsp_body hl cl buf evs = (r, buf', evs') \<Longrightarrow>
   2 * pending evs' + length buf' \<le> 2 * pending evs + length buf \<and> length buf \<le> length buf'
   \<and> (r = Some (RFail (Some EAGAIN)) \<longrightarrow> evs \<noteq> [] \<longrightarrow> 2 * pending evs' + length buf' < 2 * pending evs + length buf)
   \<and> (r = Some (RFail (Some EAGAIN)) \<or> r = Some RClosed \<or> r = None \<or> (\<exists>e. r = Some (RFail (Some e)) \<and> e \<noteq> EAGAIN))"
proof (induction hl cl buf evs rule: rtsp_body.induct)
  case (1 hl cl buf evs)
  show ?case
  proof (cases "int (length buf - hl) < cl \<and> length buf < RTSP_BUF_SIZE - 1")
    case False
    with "1.prems" show ?thesis by (auto simp: rtsp_body.simps [of hl cl buf evs])
  next
    case True
    obtain x evs1 where x: "sock_recv (RTSP_BUF_SIZE - 1 - length buf) evs = (x, evs1)" by fastforce
    have "0 < RTSP_BUF_SIZE - 1 - length buf" using True by linarith
    note p = sock_recv_progress [OF x this]
    show ?thesis
    proof (cases x)
      case (Fail e)
      with True x "1.prems" have "r = Some (RFail (Some e))" "buf' = buf" "evs' = evs1"
        by (auto simp: rtsp_body.simps [of hl cl buf evs])
      with p True Fail show ?thesis by auto
    next
      case (Data bs)
      show ?thesis
      proof (cases "bs = []")
        case True
        with Data x \<open>int (length buf - hl) < cl \<and> _\<close> "1.prems" have r: "r = Some RClosed" "buf' = buf" "evs' = evs1"
          by (auto simp: rtsp_body.simps [of hl cl buf evs])
        from p Data True have "evs1 = evs" by simp
        with r show ?thesis by auto
      next
        case False
        with Data x True "1.prems" have "rtsp_body hl cl (buf @ bs) evs1 = (r, buf', evs')"
          by (auto simp: rtsp_body.simps [of hl cl buf evs])
        from "1.IH" [OF True x [symmetric] Data False this] p Data False True show ?thesis by fastforce
      qed
    qed
  qed
qed


lemma finish_progress:
  "rtsp_finish hm bm hl buf evs = (r, buf', evs') \<Longrightarrow> hl \<le> length buf \<Longrightarrow> 0 < hl \<Longrightarrow>
   2 * pending evs' + length buf' \<le> 2 * pending evs + length buf
   \<and> ((\<exists>h b. r = RMsg h b) \<or> (r = RFail (Some EAGAIN) \<and> evs \<noteq> []) \<longrightarrow> 2 * pending evs' + length buf' < 2 * pending evs + length buf)"
proof -
  assume f: "rtsp_finish hm bm hl buf evs = (r, buf', evs')" and hl: "hl \<le> length buf" "0 < hl"
  have ne: "EMSGSIZE \<noteq> EAGAIN" by (simp add: EMSGSIZE_def EAGAIN_def)
  let ?cl = "content_length (take hl buf) (drop hl buf)"
  show ?thesis
  proof (cases "hm \<le> hl \<or> ?cl < 0 \<or> RTSP_BUF_SIZE \<le> hl + nat ?cl")
    case True
    with f ne show ?thesis by (auto simp: rtsp_finish_def Let_def split: if_splits)
  next
    case False
    obtain q buf2 evs2 where b: "rtsp_body hl ?cl buf evs = (q, buf2, evs2)" by (metis prod_cases3)
    note p = body_progress [OF b]
    show ?thesis
    proof (cases q)
      case (Some r')
      with b f False have "r = r'" "buf' = buf2" "evs' = evs2" by (auto simp: rtsp_finish_def Let_def)
      with p Some show ?thesis by auto
    next
      case None
      show ?thesis
      proof (cases "int (length buf2 - hl) < ?cl")
        case True
        with None b f False have "r = RFail (Some EMSGSIZE)" "buf' = buf2" "evs' = evs2" by (auto simp: rtsp_finish_def Let_def)
        with p ne show ?thesis by auto
      next
        case g: False
        with None b f False have e: "buf' = drop (hl + nat ?cl) buf2" "evs' = evs2" by (auto simp: rtsp_finish_def Let_def)
        have "0 < length buf2" using hl p by linarith
        with e hl p show ?thesis by auto
      qed
    qed
  qed
qed

text \<open>The cases of a turn of the reader.\<close>

definition junk :: "byte list \<Rightarrow> bool" where
  "junk buf \<longleftrightarrow> buf \<noteq> [] \<and> hd buf \<noteq> 0x24 \<and> \<not> rtsp_is_message_start buf"

definition msg_end :: "byte list \<Rightarrow> nat option" where
  "msg_end buf = (if buf \<noteq> [] \<and> hd buf = 0x24 then None else find_sub (crlf @ crlf) (cstr buf))"

lemma read_msg_full: "RTSP_BUF_SIZE - 1 \<le> length buf0 \<Longrightarrow> rtsp_read_msg hm bm buf0 evs = (RFail None, buf0, evs)"
  by (simp add: rtsp_read_msg.simps)

lemma read_msg_skip:
  "length buf0 < RTSP_BUF_SIZE - 1 \<Longrightarrow> junk (skip_rtp buf0) \<Longrightarrow> crlf_start (skip_rtp buf0) = Some n \<Longrightarrow>
   rtsp_read_msg hm bm buf0 evs = rtsp_read_msg hm bm (drop n (skip_rtp buf0)) evs"
  by (subst rtsp_read_msg.simps) (simp add: junk_def Let_def)

lemma read_msg_drop:
  "length buf0 < RTSP_BUF_SIZE - 1 \<Longrightarrow> junk (skip_rtp buf0) \<Longrightarrow> crlf_start (skip_rtp buf0) = None \<Longrightarrow>
   find_sub crlf (cstr (skip_rtp buf0)) \<noteq> None \<Longrightarrow>
   rtsp_read_msg hm bm buf0 evs = rtsp_read_msg hm bm [] evs"
  by (subst rtsp_read_msg.simps) (simp add: junk_def Let_def)

lemma read_msg_go:
  "length buf0 < RTSP_BUF_SIZE - 1 \<Longrightarrow>
   junk (skip_rtp buf0) \<longrightarrow> crlf_start (skip_rtp buf0) = None \<and> find_sub crlf (cstr (skip_rtp buf0)) = None \<Longrightarrow>
   rtsp_read_msg hm bm buf0 evs =
     (let buf = skip_rtp buf0
      in case msg_end buf of
           Some i \<Rightarrow> rtsp_finish hm bm (i + 4) buf evs
         | None \<Rightarrow>
             (case sock_recv (RTSP_BUF_SIZE - 1 - length buf) evs of
                (Fail e, evs') \<Rightarrow> (RFail (Some e), buf, evs')
              | (Data bs, evs') \<Rightarrow>
                  if bs = [] then (RClosed, buf, evs')
                  else rtsp_read_msg hm bm (buf @ bs) evs'))"
  by (subst rtsp_read_msg.simps) (auto simp: junk_def msg_end_def Let_def)

lemma msg_end_le: "msg_end buf = Some i \<Longrightarrow> i + 4 \<le> length buf"
proof -
  assume "msg_end buf = Some i"
  then have "find_sub (crlf @ crlf) (cstr buf) = Some i" by (simp add: msg_end_def split: if_splits)
  from find_sub_Some [OF this] have "i + 4 \<le> length (cstr buf)" by (simp add: crlf_def)
  also have "length (cstr buf) \<le> length buf" by (simp add: cstr_def length_takeWhile_le)
  finally show ?thesis .
qed

text \<open>Induction over the turns of one call, with the cases above.\<close>

lemma crlf_start_shrinks: "crlf_start (skip_rtp buf0) = Some n \<Longrightarrow> length (drop n (skip_rtp buf0)) < length buf0"
  using crlf_start_range [of "skip_rtp buf0" n] skip_rtp_length [of buf0] by simp linarith

lemma read_order:
  assumes "\<And>buf evs. (\<And>b es. pending es < pending evs \<or> es = evs \<and> length b < length buf \<Longrightarrow> P b es) \<Longrightarrow> P buf evs"
  shows "P (buf :: byte list) evs"
proof (induction "pending evs" arbitrary: buf evs rule: less_induct)
  case (less evs)
  note outer = less
  show ?case
  proof (induction "length buf" arbitrary: buf rule: less_induct)
    case (less buf)
    show ?case by (rule assms) (use outer less in blast)
  qed
qed

lemma read_msg_induct [case_names full skip drop go]:
  assumes "\<And>buf0 evs. RTSP_BUF_SIZE - 1 \<le> length buf0 \<Longrightarrow> P buf0 evs"
    and "\<And>buf0 evs n. length buf0 < RTSP_BUF_SIZE - 1 \<Longrightarrow> junk (skip_rtp buf0) \<Longrightarrow> crlf_start (skip_rtp buf0) = Some n \<Longrightarrow>
      P (drop n (skip_rtp buf0)) evs \<Longrightarrow> P buf0 evs"
    and "\<And>buf0 evs. length buf0 < RTSP_BUF_SIZE - 1 \<Longrightarrow> junk (skip_rtp buf0) \<Longrightarrow> crlf_start (skip_rtp buf0) = None \<Longrightarrow>
      find_sub crlf (cstr (skip_rtp buf0)) \<noteq> None \<Longrightarrow> P [] evs \<Longrightarrow> P buf0 evs"
    and "\<And>buf0 evs. length buf0 < RTSP_BUF_SIZE - 1 \<Longrightarrow>
      junk (skip_rtp buf0) \<longrightarrow> crlf_start (skip_rtp buf0) = None \<and> find_sub crlf (cstr (skip_rtp buf0)) = None \<Longrightarrow>
      (\<And>bs evs'. msg_end (skip_rtp buf0) = None \<Longrightarrow>
         sock_recv (RTSP_BUF_SIZE - 1 - length (skip_rtp buf0)) evs = (Data bs, evs') \<Longrightarrow> bs \<noteq> [] \<Longrightarrow>
         P (skip_rtp buf0 @ bs) evs') \<Longrightarrow> P buf0 evs"
  shows "P buf0 evs"
proof (induction buf0 evs rule: read_order)
  case (1 buf0 evs)
  note sk = skip_rtp_length [of buf0]
  show ?case
  proof (cases "RTSP_BUF_SIZE - 1 \<le> length buf0")
    case True
    then show ?thesis by (rule assms(1))
  next
    case False
    show ?thesis
    proof (cases "junk (skip_rtp buf0) \<and> crlf_start (skip_rtp buf0) \<noteq> None")
      case True
      then obtain n where n: "crlf_start (skip_rtp buf0) = Some n" by blast
      have "P (drop n (skip_rtp buf0)) evs"
        by (rule "1.IH") (simp add: crlf_start_shrinks [OF n] del: length_drop)
      with False True n show ?thesis by - (rule assms(2), auto)
    next
      case nskip: False
      show ?thesis
      proof (cases "junk (skip_rtp buf0) \<and> find_sub crlf (cstr (skip_rtp buf0)) \<noteq> None")
        case True
        then have "buf0 \<noteq> []" using sk by (auto simp: junk_def)
        then have "P [] evs" by (intro "1.IH") simp
        with False nskip True show ?thesis by - (rule assms(3), auto)
      next
        case ndrop: False
        show ?thesis
        proof (rule assms(4))
          fix bs evs'
          assume "sock_recv (RTSP_BUF_SIZE - 1 - length (skip_rtp buf0)) evs = (Data bs, evs')" "bs \<noteq> []"
          from pending_recv [OF this] show "P (skip_rtp buf0 @ bs) evs'" by (intro "1.IH") simp
        qed (use False nskip ndrop in auto)
      qed
    qed
  qed
qed

lemma read_msg_progress:
  "rtsp_read_msg hm bm buf0 evs = (r, buf', evs') \<Longrightarrow>
   2 * pending evs' + length buf' \<le> 2 * pending evs + length buf0
   \<and> ((\<exists>h b. r = RMsg h b) \<or> (r = RFail (Some EAGAIN) \<and> evs \<noteq> []) \<longrightarrow> 2 * pending evs' + length buf' < 2 * pending evs + length buf0)"
proof (induction buf0 evs rule: read_msg_induct)
  case (full buf0 evs)
  then show ?case by (auto simp: read_msg_full)
next
  case (skip buf0 evs n)
  have "rtsp_read_msg hm bm (drop n (skip_rtp buf0)) evs = (r, buf', evs')"
    using skip.prems by (simp only: read_msg_skip [OF skip(1-3)])
  from skip.IH [OF this] crlf_start_shrinks [OF skip(3)] show ?case by linarith
next
  case (drop buf0 evs)
  have "rtsp_read_msg hm bm [] evs = (r, buf', evs')"
    using drop.prems by (simp only: read_msg_drop [OF drop(1-4)])
  from drop.IH [OF this] show ?case by auto
next
  case (go buf0 evs)
  let ?buf = "skip_rtp buf0"
  note sk = skip_rtp_length [of buf0] and eq = read_msg_go [OF go(1,2), of hm bm, unfolded Let_def]
  show ?case
  proof (cases "msg_end ?buf")
    case (Some i)
    with go.prems have "rtsp_finish hm bm (i + 4) ?buf evs = (r, buf', evs')" by (simp add: eq)
    with finish_progress [OF this] msg_end_le [OF Some] sk show ?thesis by fastforce
  next
    case None
    obtain x evs1 where x: "sock_recv (RTSP_BUF_SIZE - 1 - length ?buf) evs = (x, evs1)" by fastforce
    have "0 < RTSP_BUF_SIZE - 1 - length ?buf" using go(1) sk by linarith
    note p = sock_recv_progress [OF x this]
    show ?thesis
    proof (cases x)
      case (Fail e)
      with x None go.prems have "r = RFail (Some e)" "buf' = ?buf" "evs' = evs1" by (auto simp: eq)
      with p Fail sk show ?thesis by auto
    next
      case (Data bs)
      show ?thesis
      proof (cases "bs = []")
        case True
        with Data x None go.prems have "r = RClosed" "buf' = ?buf" "evs' = evs1" by (auto simp: eq)
        with p Data True sk show ?thesis by auto
      next
        case False
        with Data x None go.prems have q: "rtsp_read_msg hm bm (?buf @ bs) evs1 = (r, buf', evs')" by (auto simp: eq)
        from go.IH [OF None x [unfolded Data] False q] p Data False sk show ?thesis by auto
      qed
    qed
  qed
qed


subsection \<open>The loop of the caller\<close>

text \<open>What \<open>miplay_rtsp_run\<close> does around the reader: a timeout is not an error, the call is
  made again and the partial message is still there. When nothing more will arrive the loop
  is left.\<close>

function rtsp_reads :: "byte list \<Rightarrow> rx list \<Rightarrow> (byte list \<times> byte list) list \<times> byte list \<times> rx list" where
  "rtsp_reads buf evs =
     (case rtsp_read_msg RTSP_BUF_SIZE RTSP_BUF_SIZE buf evs of
        (RMsg h b, buf', evs') \<Rightarrow> (let (ms, r) = rtsp_reads buf' evs' in ((h, b) # ms, r))
      | (RFail (Some e), buf', evs') \<Rightarrow> if e = EAGAIN \<and> evs \<noteq> [] then rtsp_reads buf' evs' else ([], buf', evs')
      | (RFail None, buf', evs') \<Rightarrow> ([], buf', evs')
      | (RClosed, buf', evs') \<Rightarrow> ([], buf', evs'))"
  by pat_completeness auto
termination
proof (relation "measure (\<lambda>(buf, evs). 2 * pending evs + length buf)", goal_cases)
  case (2 buf evs x y h b buf' evs')
  then have "rtsp_read_msg RTSP_BUF_SIZE RTSP_BUF_SIZE buf evs = (RMsg h b, buf', evs')" by simp
  from read_msg_progress [OF this] show ?case by simp
next
  case (3 buf evs x y o' e buf' evs')
  then have "rtsp_read_msg RTSP_BUF_SIZE RTSP_BUF_SIZE buf evs = (RFail (Some EAGAIN), buf', evs')" by simp
  from read_msg_progress [OF this] 3 show ?case by auto
qed simp

declare rtsp_reads.simps [simp del]

subsection \<open>Streams of messages\<close>

datatype item = Msg "byte list" "byte list" | Rtp byte "byte list"

fun item_bytes :: "item \<Rightarrow> byte list" where
  "item_bytes (Msg h b) = h @ b"
| "item_bytes (Rtp ch p) = 0x24 # ch # be16 (of_nat (length p)) @ p"

definition header_ok :: "byte list \<Rightarrow> bool" where
  \<comment> \<open>a start line the receiver knows, no NUL, and the empty line at the end only\<close>
  "header_ok h \<longleftrightarrow> rtsp_is_message_start h \<and> 0 \<notin> set h \<and> 4 \<le> length h \<and> find_sub (crlf @ crlf) h = Some (length h - 4)"

fun item_ok :: "item \<Rightarrow> bool" where
  "item_ok (Msg h b) \<longleftrightarrow> header_ok h \<and> map_option atoi (rtsp_find_header_value h ''Content-Length'') = Some (int (length b))"
| "item_ok (Rtp ch p) \<longleftrightarrow> length p < 65536"

definition items_bytes :: "item list \<Rightarrow> byte list" where
  "items_bytes is = concat (map item_bytes is)"

fun messages :: "item list \<Rightarrow> (byte list \<times> byte list) list" where
  "messages [] = []"
| "messages (Msg h b # is) = (h, b) # messages is"
| "messages (Rtp ch p # is) = messages is"

fun data :: "rx list \<Rightarrow> byte list" where
  "data [] = []"
| "data (Data bs # evs) = bs @ data evs"
| "data (Fail e # evs) = data evs"

fun rx_ok :: "rx \<Rightarrow> bool" where
  \<comment> \<open>segments and timeouts\<close>
  "rx_ok (Data bs) \<longleftrightarrow> bs \<noteq> []"
| "rx_ok (Fail e) \<longleftrightarrow> e = EAGAIN"

lemma items_bytes_simps [simp]: "items_bytes [] = []" "items_bytes (i # is) = item_bytes i @ items_bytes is"
  by (simp_all add: items_bytes_def)

lemma recv_data:
  "sock_recv cap evs = (x, evs') \<Longrightarrow> 0 < cap \<Longrightarrow> list_all rx_ok evs \<Longrightarrow>
   list_all rx_ok evs' \<and> (case x of Fail e \<Rightarrow> e = EAGAIN \<and> data evs' = data evs | Data bs \<Rightarrow> bs \<noteq> [] \<and> data evs = bs @ data evs')"
  by (induction cap evs rule: sock_recv.induct) (auto split: if_splits)

lemma message_start_facts:
  assumes "rtsp_is_message_start h"
  obtains m where "m \<in> set message_starts" "take (length m) h = m" "m \<noteq> []" "13 \<notin> set m" "hd m \<noteq> 0x24" "hd h = hd m" "h \<noteq> []"
proof -
  from assms obtain m where m: "m \<in> set message_starts" "take (length m) h = m"
    by (auto simp: rtsp_is_message_start_def list_ex_iff)
  have "list_all (\<lambda>m. m \<noteq> [] \<and> 13 \<notin> set m \<and> hd m \<noteq> 0x24) message_starts"
    by (simp add: message_starts_def wire_simps)
  with m(1) have "m \<noteq> []" "13 \<notin> set m" "hd m \<noteq> 0x24" by (auto simp: list_all_iff)
  moreover from m(2) \<open>m \<noteq> []\<close> have "h \<noteq> []" by auto
  moreover from m(2) \<open>m \<noteq> []\<close> have "hd h = hd m" by (metis hd_take length_greater_0_conv)
  ultimately show ?thesis using that m by blast
qed

lemma no_cr: "13 \<notin> set buf \<Longrightarrow> crlf_start buf = None \<and> find_sub crlf (cstr buf) = None"
proof
  show "13 \<notin> set buf \<Longrightarrow> crlf_start buf = None" by (induction buf) auto
  assume no: "13 \<notin> set buf"
  show "find_sub crlf (cstr buf) = None"
  proof (cases "find_sub crlf (cstr buf)")
    case (Some i)
    from find_sub_Some [OF this] have "13 \<in> set (take 2 (drop i (cstr buf)))" by (simp add: crlf_def numeral_2_eq_2)
    then have "13 \<in> set buf" by (auto simp: cstr_def dest!: in_set_takeD in_set_dropD set_takeWhileD)
    with no show ?thesis by simp
  qed
qed

lemma partial_start:
  assumes "rtsp_is_message_start h" and "buf @ x = h @ y" and "length buf < length h"
  shows "junk buf \<longrightarrow> crlf_start buf = None \<and> find_sub crlf (cstr buf) = None"
proof
  assume j: "junk buf"
  obtain m where m: "m \<in> set message_starts" "take (length m) h = m" "13 \<notin> set m"
    using message_start_facts [OF assms(1)] by metis
  have b: "buf = take (length buf) h" using assms(2,3)
    by (metis append_eq_append_conv_if less_imp_le_nat take_all_iff append_eq_conv_conj)
  have "length buf < length m"
  proof (rule ccontr)
    assume "\<not> length buf < length m"
    then have "take (length m) buf = m" using m(2) b by (metis linorder_not_less min.absorb2 min.commute take_take)
    with m(1) have "rtsp_is_message_start buf" by (auto simp: rtsp_is_message_start_def list_ex_iff)
    with j show False by (simp add: junk_def)
  qed
  then have "buf = take (length buf) m" using b m(2) by (metis less_imp_le_nat min.absorb1 take_take)
  then have "13 \<notin> set buf" using m(3) by (metis in_set_takeD)
  then show "crlf_start buf = None \<and> find_sub crlf (cstr buf) = None" by (rule no_cr)
qed

lemma msg_end_partial:
  assumes "header_ok h" and "buf @ x = h @ y" and "length buf < length h"
  shows "msg_end buf = None"
proof -
  from assms(1) have h: "0 \<notin> set h" "find_sub (crlf @ crlf) h = Some (length h - 4)" by (simp_all add: header_ok_def)
  obtain z where z: "h = buf @ z" using assms(2,3) by (metis append_eq_append_conv2 le_add1 length_append not_less)
  then have "cstr buf = buf" using h(1) by (auto simp: cstr_def takeWhile_eq_all_conv)
  moreover have "z \<noteq> []" "4 \<le> length h" using z assms(1,3) by (auto simp: header_ok_def)
  then have "length buf < length h - 4 + length (crlf @ crlf)" using z by (cases z) (auto simp: crlf_def)
  from find_sub_cut [OF h(2) [unfolded z] this [unfolded z]] have "find_sub (crlf @ crlf) buf = None" .
  ultimately show ?thesis by (simp add: msg_end_def)
qed

lemma msg_end_full: "header_ok h \<Longrightarrow> msg_end (h @ x) = Some (length h - 4)"
proof -
  assume "header_ok h"
  then have h: "rtsp_is_message_start h" "0 \<notin> set h" "find_sub (crlf @ crlf) h = Some (length h - 4)"
    by (simp_all add: header_ok_def)
  then have "h \<noteq> []" "hd h \<noteq> 0x24" using message_start_facts [OF h(1)] by metis+
  moreover have "cstr (h @ x) = h @ cstr x" using h(2) by (auto simp: cstr_def intro!: takeWhile_append2)
  ultimately show ?thesis using find_sub_append [OF h(3)] by (simp add: msg_end_def)
qed


lemma skip_rtp_items:
  assumes "list_all item_ok is" and "buf @ d = items_bytes is"
  shows "\<exists>is'. list_all item_ok is' \<and> messages is' = messages is \<and> skip_rtp buf @ d = items_bytes is'
    \<and> (skip_rtp buf = [] \<or> hd (skip_rtp buf) = 0x24 \<and> (\<exists>ch p t. is' = Rtp ch p # t \<and> length (skip_rtp buf) < 4 + length p)
       \<or> (\<exists>h b t. is' = Msg h b # t \<and> hd (skip_rtp buf) \<noteq> 0x24))"
  using assms
proof (induction "is" arbitrary: buf)
  case Nil
  then have "skip_rtp buf = []" by (simp add: skip_rtp.simps)
  with Nil show ?case by (intro exI [of _ "[]"]) auto
next
  case (Cons i t)
  show ?case
  proof (cases i)
    case (Msg h b)
    have "rtsp_is_message_start h" using Cons.prems(1) by (simp add: Msg header_ok_def)
    then have h: "h \<noteq> []" "hd h \<noteq> 0x24" using message_start_facts by metis+
    have "buf = [] \<or> hd buf \<noteq> 0x24"
    proof (cases buf)
      case (Cons x xs)
      with \<open>buf @ d = _\<close> have "x = hd h" using h(1) by (cases h) (auto simp: Msg)
      with Cons h show ?thesis by simp
    qed simp
    then have "skip_rtp buf = buf" by (subst skip_rtp.simps) (cases buf, auto)
    with \<open>buf = [] \<or> _\<close> Cons.prems show ?thesis by (intro exI [of _ "i # t"]) (auto simp: Msg)
  next
    case (Rtp ch p)
    let ?f = "0x24 # ch # be16 (of_nat (length p)) @ p"
    have "length p < 2 ^ LENGTH(16)" using Cons.prems(1) by (simp add: Rtp)
    then have u: "unat (of_nat (length p) :: u16) = length p" by (simp only: unat_of_nat mod_less)
    have eq: "buf @ d = ?f @ items_bytes t" using Cons.prems(2) by (simp add: Rtp)
    have rd: "rd16 ([0x24, ch] @ be16 (of_nat (length p)) @ y) 2 = of_nat (length p)" for y by (rule rd16_be16) simp
    show ?thesis
    proof (cases "4 + length p \<le> length buf")
      case True
      then have n: "length ?f \<le> length buf" by simp
      have "take (length ?f) buf = take (length ?f) (buf @ d)" using n by simp
      also have "\<dots> = ?f" unfolding eq by simp
      finally have b1: "buf = ?f @ drop (length ?f) buf" by (metis append_take_drop_id)
      have "drop (length ?f) buf @ d = drop (length ?f) (buf @ d)" using n by simp
      also have "\<dots> = items_bytes t" unfolding eq by simp
      finally have "drop (length ?f) buf @ d = items_bytes t" .
      with b1 obtain r where b: "buf = ?f @ r" and r: "r @ d = items_bytes t" by blast
      have "drop (4 + length p) (f @ r) = r" if "length f = 4 + length p" for f using that by simp
      from this [of ?f] have "drop (4 + length p) buf = r" unfolding b by simp
      then have "skip_rtp buf = skip_rtp r" using rd [of "p @ r"] u by (subst skip_rtp.simps) (simp add: b)
      with Cons.IH [OF _ r] Cons.prems(1) show ?thesis by (simp add: Rtp)
    next
      case False
      have "skip_rtp buf = buf"
      proof (cases "4 \<le> length buf")
        case True
        then obtain y where y: "buf = [0x24, ch] @ be16 (of_nat (length p)) @ y"
          using eq by (auto simp: append_eq_append_conv2 be16_def Suc_le_length_iff eval_nat_numeral)
        with False rd [of y] u show ?thesis by (subst skip_rtp.simps) simp
      qed (subst skip_rtp.simps; simp)
      moreover have "buf = [] \<or> hd buf = 0x24" using eq by (cases buf) auto
      ultimately show ?thesis using False Cons.prems by (intro exI [of _ "i # t"]) (auto simp: Rtp)
    qed
  qed
qed

lemma body_reads:
  assumes "buf = h @ x" and "x @ data evs = b @ s" and "length (h @ b @ s) < RTSP_BUF_SIZE - 1" and "list_all rx_ok evs"
  shows "\<exists>r buf' evs'. rtsp_body (length h) (int (length b)) buf evs = (r, buf', evs') \<and> list_all rx_ok evs'
    \<and> (\<exists>x'. buf' = h @ x' \<and> x' @ data evs' = b @ s \<and>
         (r = None \<and> length b \<le> length x' \<or> r = Some (RFail (Some EAGAIN)) \<and> length x' < length b))"
  using assms
proof (induction "length h" "int (length b)" buf evs arbitrary: x rule: rtsp_body.induct)
  case (1 buf evs)
  have len: "length buf < RTSP_BUF_SIZE - 1"
  proof -
    have "length buf + length (data evs) = length h + length (x @ data evs)" using "1.prems"(1) by simp
    also have "\<dots> = length (h @ b @ s)" using "1.prems"(2) by simp
    finally show ?thesis using "1.prems"(3) by linarith
  qed
  show ?case
  proof (cases "length x < length b")
    case False
    then have "rtsp_body (length h) (int (length b)) buf evs = (None, buf, evs)"
      by (subst rtsp_body.simps) (simp add: "1.prems"(1))
    with False "1.prems" show ?thesis by auto
  next
    case True
    then have c: "int (length buf - length h) < int (length b) \<and> length buf < RTSP_BUF_SIZE - 1"
      using len by (simp add: "1.prems"(1))
    obtain y evs1 where y: "sock_recv (RTSP_BUF_SIZE - 1 - length buf) evs = (y, evs1)" by fastforce
    have "0 < RTSP_BUF_SIZE - 1 - length buf" using len by linarith
    note d = recv_data [OF y this "1.prems"(4)]
    show ?thesis
    proof (cases y)
      case (Fail e)
      with c y d have "rtsp_body (length h) (int (length b)) buf evs = (Some (RFail (Some EAGAIN)), buf, evs1)"
        by (subst rtsp_body.simps) simp
      with d Fail True "1.prems" show ?thesis by auto
    next
      case (Data bs)
      with d have bs: "bs \<noteq> []" "data evs = bs @ data evs1" "list_all rx_ok evs1" by simp_all
      have "rtsp_body (length h) (int (length b)) buf evs = rtsp_body (length h) (int (length b)) (buf @ bs) evs1"
        using c y Data bs(1) by (subst rtsp_body.simps) simp
      moreover have "\<exists>r buf' evs'. rtsp_body (length h) (int (length b)) (buf @ bs) evs1 = (r, buf', evs') \<and> list_all rx_ok evs'
        \<and> (\<exists>x'. buf' = h @ x' \<and> x' @ data evs' = b @ s \<and>
             (r = None \<and> length b \<le> length x' \<or> r = Some (RFail (Some EAGAIN)) \<and> length x' < length b))"
      proof (rule "1.hyps" [OF c y [symmetric] Data bs(1) _ _ "1.prems"(3) bs(3)])
        show "buf @ bs = h @ (x @ bs)" "(x @ bs) @ data evs1 = b @ s" using "1.prems" bs by auto
      qed
      ultimately show ?thesis by simp
    qed
  qed
qed


lemma finish_reads:
  assumes ok: "item_ok (Msg h b)" and x: "x @ data evs = b @ s" and len: "length (h @ b @ s) < RTSP_BUF_SIZE - 1" and evs: "list_all rx_ok evs"
  shows "\<exists>r buf' evs'. rtsp_finish RTSP_BUF_SIZE RTSP_BUF_SIZE (length h) (h @ x) evs = (r, buf', evs') \<and> list_all rx_ok evs'
    \<and> (r = RMsg h b \<and> buf' @ data evs' = s
       \<or> r = RFail (Some EAGAIN) \<and> buf' @ data evs' = h @ b @ s \<and> data evs' \<noteq> [])"
proof -
  obtain r buf' evs' x' where body: "rtsp_body (length h) (int (length b)) (h @ x) evs = (r, buf', evs')" and ok': "list_all rx_ok evs'"
    and b': "buf' = h @ x'" "x' @ data evs' = b @ s"
    and r: "r = None \<and> length b \<le> length x' \<or> r = Some (RFail (Some EAGAIN)) \<and> length x' < length b"
    using body_reads [OF refl x len evs] by blast
  have cl: "content_length h x = int (length b)" using ok by (auto simp: content_length_def)
  have fits: "length h < RTSP_BUF_SIZE" "length h + length b < RTSP_BUF_SIZE" "length b \<le> RTSP_BUF_SIZE - 1" using len by simp_all
  from r show ?thesis
  proof
    assume n: "r = None \<and> length b \<le> length x'"
    then have t: "take (length b) x' = b" "drop (length b) x' @ data evs' = s"
      using b'(2) by (metis append_eq_append_conv_if append_eq_conv_conj length_take min.absorb2 take_all_iff append_take_drop_id same_append_eq append.assoc)+
    from n have "rtsp_finish RTSP_BUF_SIZE RTSP_BUF_SIZE (length h) (h @ x) evs = (RMsg h b, drop (length b) x', evs')"
      using fits t(1) body b'(1) by (simp add: rtsp_finish_def Let_def cl)
    with t(2) ok' show ?thesis by blast
  next
    assume f: "r = Some (RFail (Some EAGAIN)) \<and> length x' < length b"
    then have "rtsp_finish RTSP_BUF_SIZE RTSP_BUF_SIZE (length h) (h @ x) evs = (RFail (Some EAGAIN), h @ x', evs')"
      using fits body b'(1) by (simp add: rtsp_finish_def Let_def cl)
    moreover have "data evs' \<noteq> []" using b'(2) f by (metis append_Nil2 length_append linorder_not_less le_add1)
    ultimately show ?thesis using b' ok' by auto
  qed
qed

lemma start_append: "rtsp_is_message_start h \<Longrightarrow> rtsp_is_message_start (h @ y)"
proof -
  assume "rtsp_is_message_start h"
  then obtain m where m: "m \<in> set message_starts" "take (length m) h = m"
    using message_start_facts by metis
  then have "length m \<le> length h" by (metis length_take min.cobounded1)
  with m(2) have "take (length m) (h @ y) = m" by simp
  with m(1) show ?thesis by (auto simp: rtsp_is_message_start_def list_ex_iff)
qed

lemma prefix_cases:
  assumes "buf @ d = h @ y" and "\<not> length buf < length h"
  obtains x where "buf = h @ x" "x @ d = y"
  using assms by (auto simp: append_eq_append_conv2)

lemma items_no_junk:
  assumes "list_all item_ok is" and "buf @ d = items_bytes is"
    and "buf = [] \<or> hd buf = 0x24 \<or> (\<exists>h b t. is = Msg h b # t \<and> hd buf \<noteq> 0x24)"
  shows "junk buf \<longrightarrow> crlf_start buf = None \<and> find_sub crlf (cstr buf) = None"
proof
  assume j: "junk buf"
  with assms(3) obtain h b t where m: "is = Msg h b # t" by (auto simp: junk_def)
  have start: "rtsp_is_message_start h" using assms(1) m by (simp add: header_ok_def)
  have eq: "buf @ d = h @ (b @ items_bytes t)" using assms(2) m by simp
  show "crlf_start buf = None \<and> find_sub crlf (cstr buf) = None"
  proof (cases "length buf < length h")
    case True
    with partial_start [OF start eq True] j show ?thesis by blast
  next
    case False
    with eq obtain x where "buf = h @ x" by (rule prefix_cases)
    with start_append [OF start] j show ?thesis by (simp add: junk_def)
  qed
qed

lemma read_items:
  assumes "list_all item_ok is" and "buf @ data evs = items_bytes is" and "length (items_bytes is) < RTSP_BUF_SIZE - 1" and "list_all rx_ok evs"
  shows "\<exists>r buf' evs' is'. rtsp_read_msg RTSP_BUF_SIZE RTSP_BUF_SIZE buf evs = (r, buf', evs') \<and> list_all rx_ok evs'
    \<and> list_all item_ok is' \<and> buf' @ data evs' = items_bytes is' \<and> length (items_bytes is') < RTSP_BUF_SIZE - 1
    \<and> ((\<exists>h b. r = RMsg h b \<and> messages is = (h, b) # messages is')
       \<or> r = RFail (Some EAGAIN) \<and> messages is' = messages is \<and> (data evs' = [] \<longrightarrow> messages is = [] \<and> buf' = []))"
  using assms
proof (induction buf evs arbitrary: "is" rule: read_msg_induct)
  case (full buf evs)
  then have "length buf + length (data evs) < RTSP_BUF_SIZE - 1" by (metis length_append)
  with full(1) show ?case by linarith
next
  case (skip buf0 evs n)
  obtain is1 where "list_all item_ok is1" "skip_rtp buf0 @ data evs = items_bytes is1"
    "skip_rtp buf0 = [] \<or> hd (skip_rtp buf0) = 0x24 \<or> (\<exists>h b t. is1 = Msg h b # t \<and> hd (skip_rtp buf0) \<noteq> 0x24)"
    using skip_rtp_items [OF skip.prems(1,2)] by blast
  from items_no_junk [OF this] skip(2,3) show ?case by simp
next
  case (drop buf0 evs)
  obtain is1 where "list_all item_ok is1" "skip_rtp buf0 @ data evs = items_bytes is1"
    "skip_rtp buf0 = [] \<or> hd (skip_rtp buf0) = 0x24 \<or> (\<exists>h b t. is1 = Msg h b # t \<and> hd (skip_rtp buf0) \<noteq> 0x24)"
    using skip_rtp_items [OF drop.prems(1,2)] by blast
  from items_no_junk [OF this] drop(2,4) show ?case by simp
next
  case (go buf0 evs)
  let ?buf = "skip_rtp buf0"
  obtain is1 where i1: "list_all item_ok is1" "messages is1 = messages is" "?buf @ data evs = items_bytes is1"
    and c: "?buf = [] \<or> hd ?buf = 0x24 \<and> (\<exists>ch p t. is1 = Rtp ch p # t \<and> length ?buf < 4 + length p)
       \<or> (\<exists>h b t. is1 = Msg h b # t \<and> hd ?buf \<noteq> 0x24)"
    using skip_rtp_items [OF go.prems(1,2)] by blast
  have "length buf0 + length (data evs) < RTSP_BUF_SIZE - 1" using go.prems(2,3) by (metis length_append)
  then have len: "length (items_bytes is1) < RTSP_BUF_SIZE - 1"
    using skip_rtp_length [of buf0] by (simp flip: i1(3))
  note eq = read_msg_go [OF go(1,2), of RTSP_BUF_SIZE RTSP_BUF_SIZE, unfolded Let_def]
  show ?case
  proof (cases "msg_end ?buf")
    case (Some i)
    then have ne: "?buf \<noteq> []" "hd ?buf \<noteq> 0x24" by (auto simp: msg_end_def cstr_def crlf_def split: if_splits)
    with c obtain h b t where m: "is1 = Msg h b # t" by auto
    have hok: "header_ok h" using i1(1) m by simp
    have e: "?buf @ data evs = h @ (b @ items_bytes t)" using i1(3) m by simp
    have "\<not> length ?buf < length h" using msg_end_partial [OF hok e] Some by auto
    with e obtain x where x: "?buf = h @ x" "x @ data evs = b @ items_bytes t" by (rule prefix_cases)
    with msg_end_full [OF hok, of x] Some hok have "i + 4 = length h" by (auto simp: header_ok_def)
    with finish_reads [of h b x evs "items_bytes t"] i1(1) m x len go.prems(4) Some
    obtain r buf' evs' where f: "rtsp_read_msg RTSP_BUF_SIZE RTSP_BUF_SIZE buf0 evs = (r, buf', evs')" "list_all rx_ok evs'"
      and r: "r = RMsg h b \<and> buf' @ data evs' = items_bytes t
       \<or> r = RFail (Some EAGAIN) \<and> buf' @ data evs' = h @ b @ items_bytes t \<and> data evs' \<noteq> []"
      by (auto simp: eq)
    from r show ?thesis
    proof
      assume "r = RMsg h b \<and> buf' @ data evs' = items_bytes t"
      with f i1 m len show ?thesis by (intro exI [of _ r] exI [of _ buf'] exI [of _ evs'] exI [of _ t]) auto
    next
      assume "r = RFail (Some EAGAIN) \<and> buf' @ data evs' = h @ b @ items_bytes t \<and> data evs' \<noteq> []"
      with f i1 m len show ?thesis by (intro exI [of _ r] exI [of _ buf'] exI [of _ evs'] exI [of _ is1]) auto
    qed
  next
    case None
    obtain x evs1 where x: "sock_recv (RTSP_BUF_SIZE - 1 - length ?buf) evs = (x, evs1)" by fastforce
    have "0 < RTSP_BUF_SIZE - 1 - length ?buf" using go(1) skip_rtp_length [of buf0] by linarith
    note d = recv_data [OF x this go.prems(4)]
    show ?thesis
    proof (cases x)
      case (Fail e)
      with d have f: "e = EAGAIN" "data evs1 = data evs" "list_all rx_ok evs1" by simp_all
      have "messages is1 = [] \<and> ?buf = []" if "data evs = []"
      proof -
        have b: "?buf = items_bytes is1" using i1(3) that by simp
        have "is1 = []"
        proof (cases is1)
          case (Cons i t)
          show ?thesis
          proof (cases i)
            case (Msg h b')
            with Cons i1(1) b have "msg_end ?buf \<noteq> None" by (simp add: msg_end_full)
            with None show ?thesis by simp
          next
            case (Rtp ch p)
            with Cons b c show ?thesis by auto
          qed
        qed simp
        with b show ?thesis by simp
      qed
      with x Fail f None i1 len show ?thesis
        by (intro exI [of _ "RFail (Some EAGAIN)"] exI [of _ ?buf] exI [of _ evs1] exI [of _ is1]) (auto simp: eq)
    next
      case (Data bs)
      with d have bs: "bs \<noteq> []" "data evs = bs @ data evs1" "list_all rx_ok evs1" by simp_all
      have "(?buf @ bs) @ data evs1 = items_bytes is1" using i1(3) bs(2) by simp
      from go.IH [OF None x [unfolded Data] bs(1) i1(1) this len bs(3)] x Data bs(1) None i1(2) show ?thesis
        by (simp add: eq)
    qed
  qed
qed


lemma finish_idle: "rtsp_finish hm bm hl buf [] = (r, buf', evs') \<Longrightarrow> evs' = []"
proof -
  have "snd (snd (rtsp_body hl cl buf [])) = []" for cl by (subst rtsp_body.simps) simp
  then show "rtsp_finish hm bm hl buf [] = (r, buf', evs') \<Longrightarrow> evs' = []"
    by (auto simp: rtsp_finish_def Let_def split: if_splits option.splits prod.splits) (metis snd_conv)+
qed

lemma read_msg_idle: "rtsp_read_msg hm bm buf [] = (r, buf', evs') \<Longrightarrow> evs' = []"
proof (induction buf "[] :: rx list" rule: read_msg_induct)
  case (full buf0)
  then show ?case by (simp add: read_msg_full)
next
  case (skip buf0 n)
  then show ?case by (simp add: read_msg_skip)
next
  case (drop buf0)
  then show ?case by (simp add: read_msg_drop)
next
  case (go buf0)
  note eq = read_msg_go [OF go(1,2), of hm bm, unfolded Let_def]
  show ?case
  proof (cases "msg_end (skip_rtp buf0)")
    case None
    with go.prems show ?thesis by (simp add: eq)
  next
    case (Some i)
    with go.prems have "rtsp_finish hm bm (i + 4) (skip_rtp buf0) [] = (r, buf', evs')" by (simp add: eq)
    then show ?thesis by (rule finish_idle)
  qed
qed

lemma reads_items:
  assumes "list_all item_ok is" and "buf @ data evs = items_bytes is" and "length (items_bytes is) < RTSP_BUF_SIZE - 1" and "list_all rx_ok evs"
  shows "rtsp_reads buf evs = (messages is, [], [])"
  using assms
proof (induction buf evs arbitrary: "is" rule: rtsp_reads.induct)
  case (1 buf evs)
  obtain r buf' evs' is' where r: "rtsp_read_msg RTSP_BUF_SIZE RTSP_BUF_SIZE buf evs = (r, buf', evs')"
    and ok: "list_all rx_ok evs'" "list_all item_ok is'" "buf' @ data evs' = items_bytes is'" "length (items_bytes is') < RTSP_BUF_SIZE - 1"
    and c: "(\<exists>h b. r = RMsg h b \<and> messages is = (h, b) # messages is')
       \<or> r = RFail (Some EAGAIN) \<and> messages is' = messages is \<and> (data evs' = [] \<longrightarrow> messages is = [] \<and> buf' = [])"
    using read_items [OF "1.prems"] by metis
  show ?case
  proof (cases "\<exists>h b. r = RMsg h b")
    case True
    then obtain h b where h: "r = RMsg h b" by blast
    with c have m: "messages is = (h, b) # messages is'" by auto
    from "1.IH"(1) [OF r [symmetric] h refl ok(2,3,4,1)] m r h show ?thesis by (simp add: rtsp_reads.simps [of buf evs])
  next
    case False
    with c have f: "r = RFail (Some EAGAIN)" "messages is' = messages is" "data evs' = [] \<longrightarrow> messages is = [] \<and> buf' = []" by auto
    show ?thesis
    proof (cases "evs = []")
      case True
      from read_msg_idle [OF r [unfolded True]] f True r show ?thesis by (simp add: rtsp_reads.simps [of buf "[]"])
    next
      case False
      from "1.IH"(2) [OF r [symmetric] f(1) refl refl _ ok(2,3,4,1)] False f r show ?thesis by (simp add: rtsp_reads.simps [of buf evs])
    qed
  qed
qed


subsection \<open>Where the reader depends on the segments\<close>

lemma read_first_segment:
  assumes "bs \<noteq> []"
  shows "rtsp_read_msg hm bm [] (Data bs # evs) =
    rtsp_read_msg hm bm (take (RTSP_BUF_SIZE - 1) bs)
      (if length bs \<le> RTSP_BUF_SIZE - 1 then evs else Data (drop (RTSP_BUF_SIZE - 1) bs) # evs)"
proof -
  have "skip_rtp [] = []" by (simp add: skip_rtp.simps)
  moreover have "msg_end [] = None" by (simp add: msg_end_def cstr_def crlf_def)
  ultimately show ?thesis
    using assms by (subst read_msg_go) (auto simp: junk_def RTSP_BUF_SIZE_def)
qed

lemma guessed_body:
  assumes h: "header_ok h" and nocl: "rtsp_find_header_value h ''Content-Length'' = None"
    and t: "t \<noteq> []" "13 \<notin> set t" "\<not> rtsp_is_message_start t" and len: "length (h @ t) < RTSP_BUF_SIZE - 1"
  shows "rtsp_read_msg RTSP_BUF_SIZE RTSP_BUF_SIZE [] (Data (h @ t) # evs) = (RMsg h t, [], evs)"
proof -
  have start: "rtsp_is_message_start h" using h by (simp add: header_ok_def)
  then have ne: "h \<noteq> []" "hd h \<noteq> 0x24" using message_start_facts by metis+
  then have sk: "skip_rtp (h @ t) = h @ t" by (subst skip_rtp.simps) (cases h, auto)
  have nj: "\<not> junk (h @ t)" using start_append [OF start] by (simp add: junk_def)
  have "4 \<le> length h" using h by (simp add: header_ok_def)
  then have me: "msg_end (h @ t) = Some (length h - 4)" "length h - 4 + 4 = length h" using msg_end_full [OF h] by simp_all
  have "rtsp_find_message_start t = None" using t no_cr [OF t(2)] by (simp add: rtsp_find_message_start_def)
  then have cl: "content_length h t = int (length t)" using nocl t by (simp add: content_length_def)
  have "rtsp_body (length h) (int (length t)) (h @ t) evs = (None, h @ t, evs)" by (subst rtsp_body.simps) simp
  then have "rtsp_finish RTSP_BUF_SIZE RTSP_BUF_SIZE (length h) (h @ t) evs = (RMsg h t, [], evs)"
    using len by (simp add: rtsp_finish_def Let_def cl)
  then have "rtsp_read_msg RTSP_BUF_SIZE RTSP_BUF_SIZE (h @ t) evs = (RMsg h t, [], evs)"
    using len nj sk me by (subst read_msg_go) (auto simp: Let_def)
  moreover have tk: "take (RTSP_BUF_SIZE - 1) (h @ t) = h @ t" "h @ t \<noteq> []" using len t by auto
  moreover have "length (h @ t) \<le> RTSP_BUF_SIZE - 1" using len by linarith
  ultimately show ?thesis unfolding read_first_segment [OF tk(2)] tk(1) by (simp only: if_True)
qed

lemma full_segment:
  assumes "RTSP_BUF_SIZE - 1 \<le> length s"
  shows "rtsp_read_msg hm bm [] (Data s # evs) =
      (RFail None, take (RTSP_BUF_SIZE - 1) s, if length s = RTSP_BUF_SIZE - 1 then evs else Data (drop (RTSP_BUF_SIZE - 1) s) # evs)"
    and "rtsp_read_msg hm bm (take (RTSP_BUF_SIZE - 1) s) evs' = (RFail None, take (RTSP_BUF_SIZE - 1) s, evs')"
proof -
  have "s \<noteq> []" using assms by (auto simp: RTSP_BUF_SIZE_def)
  show f: "rtsp_read_msg hm bm (take (RTSP_BUF_SIZE - 1) s) e = (RFail None, take (RTSP_BUF_SIZE - 1) s, e)" for e
    using assms by (intro read_msg_full) simp
  show "rtsp_read_msg hm bm [] (Data s # evs) =
      (RFail None, take (RTSP_BUF_SIZE - 1) s, if length s = RTSP_BUF_SIZE - 1 then evs else Data (drop (RTSP_BUF_SIZE - 1) s) # evs)"
    unfolding read_first_segment [OF \<open>s \<noteq> []\<close>] f using assms by simp
qed

subsection \<open>Properties\<close>


text \<open>The bound of the reader is sharp. A segment of 2047 bytes or more, whatever
  complete messages it holds, fills the buffer: the call fails without setting \<open>errno\<close>, and
  every later call fails the same way without reading the socket.\<close>

theorem rtsp_full_buffer_blocks:
  assumes "RTSP_BUF_SIZE - 1 \<le> length s"
  shows "case rtsp_read_msg RTSP_BUF_SIZE RTSP_BUF_SIZE [] (Data s # evs) of (r, buf, evs') \<Rightarrow>
    r = RFail None \<and> buf = take (RTSP_BUF_SIZE - 1) s
    \<and> rtsp_read_msg RTSP_BUF_SIZE RTSP_BUF_SIZE buf evs'' = (RFail None, buf, evs'')"
  using full_segment [OF assms] by auto

text \<open>A body that is guessed. When a message without Content-Length shares its segment
  with the first bytes of the next message, and these do not yet spell a method, they are
  delivered as the body and are lost for the next message.\<close>

theorem rtsp_guessed_body_swallows:
  assumes "header_ok h" and "rtsp_find_header_value h ''Content-Length'' = None"
    and "m \<in> set message_starts" and "0 < k" "k < length m" and "\<not> rtsp_is_message_start (take k m)"
    and "length h + k < RTSP_BUF_SIZE - 1"
  shows "rtsp_read_msg RTSP_BUF_SIZE RTSP_BUF_SIZE [] (Data (h @ take k m) # evs) = (RMsg h (take k m), [], evs)"
proof (rule guessed_body [OF assms(1,2) _ _ assms(6)])
  have "list_all (\<lambda>m. 13 \<notin> set m) message_starts" by (simp add: message_starts_def wire_simps)
  then show "13 \<notin> set (take k m)" using assms(3) by (auto simp: list_all_iff dest: in_set_takeD)
qed (use assms in auto)

text \<open>Their hypotheses hold on concrete inputs.\<close>

definition sample_options :: "byte list" where
  "sample_options = str ''OPTIONS * RTSP/1.0'' @ crlf @ str ''CSeq: 1'' @ crlf @ crlf"

definition sample_set :: "byte list" where
  "sample_set = str ''SET_PARAMETER * RTSP/1.0'' @ crlf @ str ''content-length: 3'' @ crlf @ crlf"

lemma sample_headers: "header_ok sample_options" "header_ok sample_set"
  "rtsp_find_header_value sample_options ''Content-Length'' = None"
  "map_option atoi (rtsp_find_header_value sample_set ''Content-Length'') = Some 3"
  by code_simp+


lemma sample_flood: "RTSP_BUF_SIZE - 1 \<le> length (concat (replicate 70 sample_options))"
proof -
  have "length sample_options = 31" by (simp add: sample_options_def crlf_def)
  then show ?thesis by (simp add: length_concat sum_list_replicate RTSP_BUF_SIZE_def)
qed

lemma rtsp_full_buffer_blocks_witness:
  "case rtsp_read_msg RTSP_BUF_SIZE RTSP_BUF_SIZE [] [Data (concat (replicate 70 sample_options))] of (r, buf, evs') \<Rightarrow>
    r = RFail None \<and> buf = take (RTSP_BUF_SIZE - 1) (concat (replicate 70 sample_options))
    \<and> rtsp_read_msg RTSP_BUF_SIZE RTSP_BUF_SIZE buf [Fail EAGAIN] = (RFail None, buf, [Fail EAGAIN])"
  by (rule rtsp_full_buffer_blocks [OF sample_flood])

lemma rtsp_guessed_body_swallows_witness:
  "rtsp_read_msg RTSP_BUF_SIZE RTSP_BUF_SIZE [] [Data (sample_options @ take 3 (str ''SETUP ''))]
     = (RMsg sample_options (take 3 (str ''SETUP '')), [], [])"
proof (rule rtsp_guessed_body_swallows)
  show "\<not> rtsp_is_message_start (take 3 (str ''SETUP ''))" by code_simp
qed (simp_all add: sample_headers message_starts_def, simp add: sample_options_def crlf_def RTSP_BUF_SIZE_def)

end
