(* ===== verification/Dialogue.thy ===== *)
theory Dialogue
  imports Rtsp "HOL-Library.Sublist"
begin

text \<open>
  The RTSP dialogue with the phone (\<open>miplay.c\<close>: \<open>rtsp_send_req\<close> to
  \<open>rtsp_send_options_resp\<close>, \<open>miplay_rtsp_run\<close>, \<open>miplay_start_rtsp_session\<close>,
  \<open>miplay_try_restart_rtsp\<close>). The receiver connects to the phone and then answers requests,
  while it sends requests of its own on the same connection: OPTIONS, SETUP and PLAY. The
  local variables of \<open>miplay_rtsp_run\<close> and the data sockets are the record \<open>dialog\<close>; what one
  turn of a loop asks of the system (random words, sockets, allocations, tasks) is the record
  \<open>rtsp_env\<close>. What the code does to the outside is a list of \<open>out\<close>. The C \<open>int\<close> of the own
  sequence number is an \<open>int\<close>; it grows by one per message at most.
\<close>

subsection \<open>Texts\<close>

definition sent_text :: "nat \<Rightarrow> byte list \<Rightarrow> byte list option" where
  \<comment> \<open>\<open>len = snprintf (buf, cap, ...); send (sock, buf, len, 0)\<close>: \<open>None\<close> when the text was cut,
     the call then sends what lies behind the array\<close>
  "sent_text cap t = (if length t < cap then Some t else None)"

definition USER_AGENT :: "byte list" where
  "USER_AGENT = str ''User-Agent: stagefright/1.1 (Linux;Android 4.1)''"

definition rtsp_lines :: "byte list list \<Rightarrow> byte list" where
  "rtsp_lines ls = concat (map (\<lambda>l. l @ crlf) ls)"

definition cseq_line :: "int \<Rightarrow> byte list" where
  "cseq_line c = str ''CSeq: '' @ fmt_int c"

definition rtsp_send_req :: "string \<Rightarrow> byte list \<Rightarrow> byte list \<Rightarrow> int \<Rightarrow> byte list option" where
  "rtsp_send_req method url extra c =
     sent_text 384 (rtsp_lines [str method @ 32 # url @ str '' RTSP/1.0'', USER_AGENT, cseq_line c] @ extra @ crlf)"

definition rtsp_send_resp :: "int \<Rightarrow> byte list option \<Rightarrow> byte list option" where
  "rtsp_send_resp c body =
     sent_text 640
       (rtsp_lines [str ''RTSP/1.0 200 OK'', USER_AGENT, cseq_line c]
        @ (case body of
             Some b \<Rightarrow> str ''Content-Length: '' @ fmt_dec (length b) @ crlf @ crlf @ b
           | None \<Rightarrow> crlf))"

definition options_text :: "int \<Rightarrow> byte list \<Rightarrow> byte list" where
  "options_text c auth_ack =
     rtsp_lines ([str ''RTSP/1.0 200 OK'', USER_AGENT, cseq_line c,
         str ''Public: org.wfa.wfd1.0, GET_PARAMETER, SET_PARAMETER'']
       @ (if auth_ack \<noteq> []
          then [str ''authKeyType:2'', str ''authAlgorithmVal:4'', str ''authMsgAck:'' @ auth_ack] else [])
       @ [[]])"

definition rtsp_send_options_resp :: "int \<Rightarrow> byte list \<Rightarrow> byte list option" where
  "rtsp_send_options_resp c auth_ack = sent_text 384 (options_text c auth_ack)"

definition capabilities :: "byte list" where
  "capabilities = rtsp_lines (map str
     [''wfd_audio_codecs_v2: 15 3 3'', ''wfd_video_formats: none'', ''wfd_video_enctype: none'',
      ''wfd_video_gamuttype: none'', ''wfd_video_bitrate: none'', ''wfd_current_video_info: none'',
      ''wfd_client_rtp_ports: RTP/AVP/TCP;interleaved mode=play'', ''miplay_support_image: none'',
      ''wfd_standby_resume_capability: supported'', ''wfd_content_SP_protection: 4 1 256 3 1 1 0 0'',
      ''wfd_support_secure_win:enable'', ''device_info: -1 -1 -1 -1 -1 -1 -1''])"

subsection \<open>State\<close>

record dialog =
  d_session_id :: "byte list"
  d_pres_url :: "byte list"
  d_cseq :: int
  d_sent_options :: bool
  d_rtsp_state :: nat \<comment> \<open>0 handshake, 1 SETUP sent, 2 playing\<close>
  d_cseq_of_options :: int
  d_cseq_of_getparam :: int
  d_cseq_of_setup :: int
  d_cseq_of_play :: int
  d_image_sock :: int
  d_multi_sock :: int
  d_image_port :: u16
  d_multi_port :: u16

definition dialog_init :: dialog where
  \<comment> \<open>the locals of \<open>miplay_rtsp_run\<close> and the socket globals as every run leaves them\<close>
  "dialog_init = \<lparr> d_session_id = [], d_pres_url = str ''rtsp://localhost/wfd1.0/streamid=0'', d_cseq = 1,
     d_sent_options = False, d_rtsp_state = 0, d_cseq_of_options = 0, d_cseq_of_getparam = 0,
     d_cseq_of_setup = 0, d_cseq_of_play = 0, d_image_sock = -1, d_multi_sock = -1,
     d_image_port = 0, d_multi_port = 0 \<rparr>"

record rtsp_env =
  v_rand :: "u32 list" \<comment> \<open>four words of \<open>esp_random\<close>\<close>
  v_stale :: "byte list" \<comment> \<open>what the header buffer holds behind the terminating NUL\<close>
  v_sock1 :: int
  v_sock2 :: int
  v_conn1 :: bool
  v_conn2 :: bool
  v_port1 :: u16
  v_port2 :: u16
  v_alloc :: bool
  v_task :: bool
  v_errno :: "nat option" \<comment> \<open>the \<open>errno\<close> a failing call of the handler leaves\<close>

datatype out = Send "byte list option" | Open int | Close int | Drain int | Media int

subsection \<open>The handlers\<close>

definition rtsp_is_resp :: "byte list \<Rightarrow> bool" where
  "rtsp_is_resp headers \<longleftrightarrow> take 9 headers = str ''RTSP/1.0 ''"

definition rtsp_method :: "byte list \<Rightarrow> byte list" where
  \<comment> \<open>\<open>sscanf (headers, "%31s", method)\<close> into a zeroed array\<close>
  "rtsp_method headers = take 31 (takeWhile (\<lambda>c. \<not> is_space c) (dropWhile is_space headers))"

definition has_sub :: "byte list \<Rightarrow> string \<Rightarrow> bool" where
  "has_sub s pat \<longleftrightarrow> find_sub (str pat) s \<noteq> None"

definition rtsp_on_response :: "byte list \<Rightarrow> dialog \<Rightarrow> dialog \<times> out list" where
  "rtsp_on_response headers d =
     (let peer_cseq = rtsp_get_cseq headers; ok = has_sub headers ''200''
      in if peer_cseq = d_cseq_of_options d \<and> ok then (d, [])
         else if peer_cseq = d_cseq_of_getparam d \<and> ok then (d, [])
         else if peer_cseq = d_cseq_of_setup d \<and> ok then
           (let session_id = rtsp_get_session headers 32;
                play_extra = copy_text 64 (str ''Session: '' @ session_id @ crlf)
            in (d \<lparr> d_session_id := session_id, d_cseq_of_setup := 0, d_cseq_of_play := d_cseq d, d_cseq := d_cseq d + 1 \<rparr>,
                [Send (rtsp_send_req ''PLAY'' (d_pres_url d) play_extra (d_cseq d))]))
         else if peer_cseq = d_cseq_of_play d \<and> ok then (d \<lparr> d_rtsp_state := 2 \<rparr>, [])
         else (d, []))"

definition rtsp_auth_ack :: "hashes \<Rightarrow> byte list option \<Rightarrow> byte list \<Rightarrow> byte list \<Rightarrow> byte list" where
  \<comment> \<open>\<open>mirror_key\<close> is \<open>None\<close> when no key was set; 16 bytes are read at the value, past the end
     of a shorter one\<close>
  "rtsp_auth_ack h mirror_key stale headers =
     (case (rtsp_find_header_value headers ''authMsg'', mirror_key) of
        (Some p, Some key) \<Rightarrow> hex_to_lower (hmac_sha256 h (take 16 key) (take 16 (p @ 0 # stale)))
      | _ \<Rightarrow> [])"

definition rtsp_on_options :: "hashes \<Rightarrow> byte list option \<Rightarrow> rtsp_env \<Rightarrow> byte list \<Rightarrow> dialog \<Rightarrow> dialog \<times> out list" where
  "rtsp_on_options h mirror_key v headers d =
     (let resp = Send (sent_text 512 (options_text (rtsp_get_cseq headers) (rtsp_auth_ack h mirror_key (v_stale v) headers)))
      in if d_sent_options d then (d, [resp])
         else
           let rtsp_chal = hex_to_lower (concat (map ip_bytes (take 4 (v_rand v))));
               extra = copy_text 128 (rtsp_lines [str ''Require: org.wfa.wfd1.0'',
                         str ''lib_version: audio-display-release2.1 2.1.5071614'', str ''authMsg:'' @ rtsp_chal])
           in (d \<lparr> d_cseq_of_options := d_cseq d, d_cseq := d_cseq d + 1, d_sent_options := True \<rparr>,
               [resp, Send (rtsp_send_req ''OPTIONS'' (str ''*'') extra (d_cseq d))]))"

definition rtsp_on_rtp_ports :: "byte list \<Rightarrow> dialog \<Rightarrow> dialog \<times> out list" where
  "rtsp_on_rtp_ports headers d =
     (if rtsp_get_cseq headers = d_cseq_of_getparam d then (d \<lparr> d_cseq_of_getparam := 0 \<rparr>, [])
      else (d, [Send (rtsp_send_resp (rtsp_get_cseq headers) (Some capabilities))]))"

definition data_sockets :: "rtsp_env \<Rightarrow> dialog \<Rightarrow> dialog \<times> out list" where
  \<comment> \<open>the image socket is handed to \<open>image_drain_task\<close> or closed; both are closed when a
     connection fails\<close>
  "data_sockets v d =
     (if 0 \<le> d_image_sock d then (d, [])
      else
        let img = v_sock1 v; multi = v_sock2 v;
            opened = map Open (filter (\<lambda>s. 0 \<le> s) [img, multi])
        in if 0 \<le> img \<and> 0 \<le> multi then
             if v_conn1 v \<and> v_conn2 v then
               (d \<lparr> d_image_sock := -1, d_multi_sock := multi, d_image_port := v_port1 v, d_multi_port := v_port2 v \<rparr>,
                opened @ [if v_alloc v \<and> v_task v then Drain img else Close img])
             else (d \<lparr> d_image_sock := -1, d_multi_sock := -1 \<rparr>, opened @ [Close img, Close multi])
           else (d \<lparr> d_image_sock := img, d_multi_sock := multi \<rparr>, opened))"

definition asks_capabilities :: "byte list \<Rightarrow> bool" where
  "asks_capabilities body \<longleftrightarrow> list_ex (has_sub (cstr body))
     [''wfd_audio_codecs'', ''wfd_client_rtp_ports'', ''session_enable'', ''wfd_support_secure_win'']"

definition rtsp_on_get_parameter :: "rtsp_env \<Rightarrow> byte list \<Rightarrow> byte list \<Rightarrow> dialog \<Rightarrow> dialog \<times> out list" where
  "rtsp_on_get_parameter v headers body d =
     (if asks_capabilities body then
        (let (d1, outs) = data_sockets v d
         in (d1, outs @ [Send (rtsp_send_resp (rtsp_get_cseq headers) (Some capabilities))]))
      else (d, [Send (rtsp_send_resp (rtsp_get_cseq headers) None)]))"

definition presentation_url :: "byte list \<Rightarrow> byte list option" where
  "presentation_url body =
     (case find_sub (str ''wfd_presentation_URL:'') (cstr body) of
        None \<Rightarrow> None
      | Some i \<Rightarrow>
          Some (take (160 - 1) (takeWhile (\<lambda>c. c \<noteq> 32 \<and> c \<noteq> 13 \<and> c \<noteq> 10)
            (dropWhile (\<lambda>c. c = 32) (drop (i + 21) (cstr body))))))"

definition setup_extra :: "u16 \<Rightarrow> u16 \<Rightarrow> byte list" where
  "setup_extra image_port multi_port =
     copy_text 128 (rtsp_lines (str ''Transport: RTP/AVP/TCP;interleaved=0-1'' #
       (if 0 < image_port \<and> 0 < multi_port
        then [str ''MultiPort: image_port='' @ fmt_dec (unat image_port) @ str '';multi_port='' @ fmt_dec (unat multi_port)]
        else [])))"

definition rtsp_on_set_parameter :: "byte list \<Rightarrow> byte list \<Rightarrow> dialog \<Rightarrow> dialog \<times> out list" where
  "rtsp_on_set_parameter headers body d =
     (let d1 = (case presentation_url body of Some u \<Rightarrow> d \<lparr> d_pres_url := u \<rparr> | None \<Rightarrow> d);
          resp = Send (rtsp_send_resp (rtsp_get_cseq headers) None)
      in if has_sub (cstr body) ''wfd_trigger_method: SETUP'' then
           (d1 \<lparr> d_cseq_of_setup := d_cseq d1, d_cseq := d_cseq d1 + 1, d_rtsp_state := 1 \<rparr>,
            [resp, Send (rtsp_send_req ''SETUP'' (d_pres_url d1) (setup_extra (d_image_port d1) (d_multi_port d1)) (d_cseq d1))])
         else (d1, [resp]))"

definition rtsp_handle ::
  "hashes \<Rightarrow> byte list option \<Rightarrow> rtsp_env \<Rightarrow> byte list \<Rightarrow> byte list \<Rightarrow> dialog \<Rightarrow> (dialog \<times> out list) \<times> bool" where
  \<comment> \<open>the body of the handshake loop; the flag is its \<open>break\<close>\<close>
  "rtsp_handle h mirror_key v headers body d =
     (let method = rtsp_method headers; resp = [Send (rtsp_send_resp (rtsp_get_cseq headers) None)]
      in if rtsp_is_resp headers then (rtsp_on_response headers d, False)
         else if method = str ''OPTIONS'' then (rtsp_on_options h mirror_key v headers d, False)
         else if method = str ''rtp_ports'' then (rtsp_on_rtp_ports headers d, False)
         else if method = str ''GET_PARAMETER'' then (rtsp_on_get_parameter v headers body d, False)
         else if method = str ''SET_PARAMETER'' then (rtsp_on_set_parameter headers body d, False)
         else if method = str ''PLAY'' then ((d \<lparr> d_rtsp_state := 2 \<rparr>, resp), False)
         else if method = str ''TEARDOWN'' then ((d, resp), True)
         else ((d, resp), False))"

subsection \<open>The loops of \<open>miplay_rtsp_run\<close>\<close>

record rconn =
  rc_dialog :: dialog
  rc_buf :: "byte list" \<comment> \<open>\<open>s_rtsp_buf\<close>\<close>
  rc_evs :: "rx list"
  rc_errno :: nat

definition set_errno :: "nat option \<Rightarrow> rconn \<Rightarrow> rconn" where
  "set_errno e c = c \<lparr> rc_errno := (case e of Some n \<Rightarrow> n | None \<Rightarrow> rc_errno c) \<rparr>"

datatype got = Got "byte list" "byte list" | Again | Gone

definition rtsp_wait :: "bool \<Rightarrow> rconn \<Rightarrow> got \<times> rconn" where
  \<comment> \<open>a read and the decision on its failure; \<open>errno\<close> is looked at after an end of stream
     too when \<open>fin_too\<close> (the second loop)\<close>
  "rtsp_wait fin_too c =
     (case rtsp_read_msg RTSP_BUF_SIZE RTSP_BUF_SIZE (rc_buf c) (rc_evs c) of
        (RMsg h b, buf, evs) \<Rightarrow> (Got h b, c \<lparr> rc_buf := buf, rc_evs := evs \<rparr>)
      | (RClosed, buf, evs) \<Rightarrow>
          (if fin_too \<and> rc_errno c = EAGAIN then Again else Gone, c \<lparr> rc_buf := buf, rc_evs := evs \<rparr>)
      | (RFail e, buf, evs) \<Rightarrow>
          (let c1 = set_errno e (c \<lparr> rc_buf := buf, rc_evs := evs \<rparr>)
           in (if rc_errno c1 = EAGAIN then Again else Gone, c1)))"

fun rtsp_handshake :: "hashes \<Rightarrow> byte list option \<Rightarrow> rtsp_env list \<Rightarrow> rconn \<Rightarrow> rconn \<times> out list" where
  \<comment> \<open>one element per turn; the list ends when \<open>s_running\<close> or the generation stops the loop\<close>
  "rtsp_handshake h mirror_key [] c = (c, [])"
| "rtsp_handshake h mirror_key (v # vs) c =
     (if 2 \<le> d_rtsp_state (rc_dialog c) then (c, [])
      else case rtsp_wait False c of
             (Gone, c1) \<Rightarrow> (c1, [])
           | (Again, c1) \<Rightarrow> rtsp_handshake h mirror_key vs c1
           | (Got headers body, c1) \<Rightarrow>
               let r = rtsp_handle h mirror_key v headers body (rc_dialog c1);
                   c2 = set_errno (v_errno v) (c1 \<lparr> rc_dialog := fst (fst r) \<rparr>)
               in if snd r then (c2, snd (fst r))
                  else let (c3, outs) = rtsp_handshake h mirror_key vs c2 in (c3, snd (fst r) @ outs))"

fun rtsp_keepalive :: "nat option list \<Rightarrow> rconn \<Rightarrow> rconn \<times> out list \<times> bool" where
  \<comment> \<open>the flag: TEARDOWN cleared \<open>s_running\<close>; the list holds the \<open>errno\<close> of each turn's \<open>send\<close>\<close>
  "rtsp_keepalive [] c = (c, [], False)"
| "rtsp_keepalive (e # es) c =
     (case rtsp_wait True c of
        (Gone, c1) \<Rightarrow> (c1, [], False)
      | (Again, c1) \<Rightarrow> rtsp_keepalive es c1
      | (Got headers body, c1) \<Rightarrow>
          if rtsp_is_resp headers then rtsp_keepalive es c1
          else
            let resp = Send (rtsp_send_resp (rtsp_get_cseq headers) None); c2 = set_errno e c1
            in if rtsp_method headers = str ''TEARDOWN'' then (c2, [resp], True)
               else let (c3, outs, stop) = rtsp_keepalive es c2 in (c3, resp # outs, stop))"

fun rtsp_connect :: "nat \<Rightarrow> (int \<times> bool) list \<Rightarrow> int \<times> out list" where
  \<comment> \<open>the attempts left, and what \<open>socket\<close> and \<open>connect\<close> answer to each\<close>
  "rtsp_connect 0 answers = (-1, [])"
| "rtsp_connect (Suc n) [] = (-1, [])"
| "rtsp_connect (Suc n) ((s, connected) # answers) =
     (if s < 0 then (s, [])
      else if connected then (s, [Open s])
      else let (r, outs) = rtsp_connect n answers in (r, Open s # Close s # outs))"

record run_env =
  u_answers :: "(int \<times> bool) list"
  u_bufs :: bool \<comment> \<open>both message buffers were allocated\<close>
  u_evs :: "rx list"
  u_errno :: nat
  u_turns :: "rtsp_env list"
  u_media :: bool \<comment> \<open>the argument was allocated and the media task created\<close>
  u_keepalive :: "nat option list"

definition rtsp_fresh :: "dialog \<Rightarrow> rx list \<Rightarrow> nat \<Rightarrow> rconn" where
  \<comment> \<open>the start of the handshake: only the socket globals are kept from before\<close>
  "rtsp_fresh g evs e =
     \<lparr> rc_dialog = dialog_init \<lparr> d_image_sock := d_image_sock g, d_multi_sock := d_multi_sock g,
         d_image_port := d_image_port g, d_multi_port := d_multi_port g \<rparr>,
       rc_buf = [], rc_evs = evs, rc_errno = e \<rparr>"

definition rtsp_close :: "int \<Rightarrow> out list" where
  "rtsp_close s = (if 0 \<le> s then [Close s] else [])"

definition rtsp_cleanup :: "int \<Rightarrow> dialog \<Rightarrow> dialog \<times> out list" where
  \<comment> \<open>the sockets at the label \<open>rtsp_cleanup\<close>\<close>
  "rtsp_cleanup rtsp_sock d =
     (d \<lparr> d_image_sock := (if 0 \<le> d_image_sock d then -1 else d_image_sock d),
          d_multi_sock := (if 0 \<le> d_multi_sock d then -1 else d_multi_sock d),
          d_image_port := 0, d_multi_port := 0 \<rparr>,
      rtsp_close rtsp_sock @ rtsp_close (d_image_sock d) @ rtsp_close (d_multi_sock d))"

definition rtsp_launch :: "bool \<Rightarrow> int \<Rightarrow> dialog \<Rightarrow> dialog \<times> out list" where
  "rtsp_launch media_ok rtsp_sock d =
     (let media_sock = (if 0 \<le> d_multi_sock d then d_multi_sock d else rtsp_sock)
      in if 2 \<le> d_rtsp_state d \<and> media_ok
         then (d \<lparr> d_image_sock := -1, d_multi_sock := -1 \<rparr>, [Media media_sock]) else (d, []))"

definition miplay_rtsp_run :: "hashes \<Rightarrow> byte list option \<Rightarrow> run_env \<Rightarrow> dialog \<Rightarrow> dialog \<times> out list \<times> bool" where
  \<comment> \<open>from the socket globals in \<open>g\<close>; the last component tells that \<open>s_running\<close> was cleared\<close>
  "miplay_rtsp_run h mirror_key u g =
     (let (rtsp_sock, o1) = rtsp_connect 3 (u_answers u)
      in if rtsp_sock < 0 then (let (d, o2) = rtsp_cleanup rtsp_sock g in (d, o1 @ o2, False))
         else if \<not> u_bufs u then (let (d, o2) = rtsp_cleanup (-1) g in (d, o1 @ [Close rtsp_sock] @ o2, False))
         else
           let (c1, o2) = rtsp_handshake h mirror_key (u_turns u) (rtsp_fresh g (u_evs u) (u_errno u));
               (d2, o3) = rtsp_launch (u_media u) rtsp_sock (rc_dialog c1);
               (c3, o4, stop) = (if 2 \<le> d_rtsp_state d2 then rtsp_keepalive (u_keepalive u) (c1 \<lparr> rc_dialog := d2 \<rparr>)
                                 else (c1 \<lparr> rc_dialog := d2 \<rparr>, [], False));
               (d4, o5) = rtsp_cleanup rtsp_sock (rc_dialog c3)
           in (d4, o1 @ o2 @ o3 @ o4 @ o5, stop))"

subsection \<open>Starting and restarting\<close>

text \<open>The state the RTSP task shares with the control sessions. \<open>k_task\<close>: \<open>s_rtsp_task\<close> is not
  NULL; \<open>k_stream_key\<close> is \<open>None\<close> without \<open>s_has_stream_key\<close>.\<close>

record link =
  k_ctl :: ctl
  k_host_saved :: "byte list"
  k_port_saved :: int
  k_restart_pending :: bool
  k_task :: bool
  k_stream_key :: "byte list option"

record rtsp_arg =
  a_host :: "byte list"
  a_port :: int
  a_client_sock :: int
  a_generation :: u32
  a_stream_key :: "byte list option"

definition miplay_start_rtsp_session ::
  "int \<Rightarrow> byte list option \<Rightarrow> int \<Rightarrow> byte list option \<Rightarrow> bool \<Rightarrow> bool \<Rightarrow> bool \<Rightarrow> link \<Rightarrow> bool \<times> link \<times> rtsp_arg option" where
  "miplay_start_rtsp_session client_sock host port stream_key force alloc_ok task_ok k =
     (if host = None \<or> the host = [] \<or> port \<le> 0 \<or> client_sock < 0 then (False, k, None)
      else if \<not> force \<and> s_media_session_opened (k_ctl k) \<and> k_task k then (False, k, None)
      else
        let gen = s_media_generation (k_ctl k) + 1;
            k1 = k \<lparr> k_host_saved := copy_text 64 (the host), k_port_saved := port, k_restart_pending := False,
                     k_ctl := (k_ctl k) \<lparr> s_media_generation := gen, s_media_paused := False, s_media_session_opened := True \<rparr> \<rparr>
        in if \<not> alloc_ok \<or> \<not> task_ok then (False, k1, None)
           else (True, k1 \<lparr> k_task := True \<rparr>,
                 Some \<lparr> a_host = copy_text 64 (the host), a_port = port, a_client_sock = client_sock,
                        a_generation = gen, a_stream_key = stream_key \<rparr>))"

definition miplay_try_restart_rtsp :: "int \<Rightarrow> bool \<Rightarrow> bool \<Rightarrow> link \<Rightarrow> bool \<times> link \<times> rtsp_arg option" where
  "miplay_try_restart_rtsp client_sock alloc_ok task_ok k =
     (if k_port_saved k \<le> 0 \<or> k_host_saved k = [] then (False, k, None)
      else if s_media_session_opened (k_ctl k) \<and> k_task k then (False, k, None)
      else miplay_start_rtsp_session client_sock (Some (k_host_saved k)) (k_port_saved k) (k_stream_key k) False alloc_ok task_ok k)"

definition rtsp_run_end :: "int \<Rightarrow> u32 \<Rightarrow> link \<Rightarrow> link" where
  \<comment> \<open>the end of \<open>miplay_rtsp_run\<close>\<close>
  "rtsp_run_end client_sock generation k =
     (let c = miplay_mark_media_session_closed client_sock generation (k_ctl k)
      in k \<lparr> k_ctl := c,
             k_restart_pending := (k_restart_pending k
               \<or> (s_connected c \<and> s_active_client_sock c = client_sock \<and> s_media_generation c = generation
                  \<and> k_host_saved k \<noteq> [] \<and> 0 < k_port_saved k)) \<rparr>)"

definition miplay_rtsp_task_wrapper :: "rtsp_arg \<Rightarrow> link \<Rightarrow> link" where
  \<comment> \<open>what the task leaves in the shared state when its run is over\<close>
  "miplay_rtsp_task_wrapper a k = (rtsp_run_end (a_client_sock a) (a_generation a) k) \<lparr> k_task := False \<rparr>"


subsection \<open>The texts are read back\<close>

lemma find_crlf: "13 \<notin> set l \<Longrightarrow> find_sub crlf (l @ crlf @ r) = Some (length l)"
proof (induction l)
  case Nil
  then show ?case by (simp add: crlf_def)
next
  case (Cons a l)
  then show ?case by (auto simp: crlf_def)
qed

lemma cstr_append: "0 \<notin> set l \<Longrightarrow> cstr (l @ r) = l @ cstr r"
  by (induction l) (auto simp: cstr_def)

lemma header_from_skip:
  assumes "l \<noteq> []" and "13 \<notin> set l" and "\<not> strcaseeq (take (length name) l) name"
  shows "header_from name (l @ crlf @ r) = header_from name r"
proof -
  have d: "drop (length l + 2) (l @ crlf @ r) = r" by (simp add: crlf_def)
  have t: "take (length l) (l @ crlf @ r) = l" by simp
  have m: "\<not> (length name < length l \<and> strcaseeq (take (length name) (l @ crlf @ r)) name \<and> P)" for P
    using assms(3) by auto
  from assms(1) show ?thesis
    unfolding header_from.simps [of name "l @ crlf @ r"] find_crlf [OF assms(2)] option.case d t Let_def
    by (simp only: m if_False append_is_Nil_conv length_0_conv simp_thms)
qed

lemma header_from_hit:
  assumes "name \<noteq> []" and "13 \<notin> set name" and "13 \<notin> set w" and "w \<noteq> []" and "\<not> is_blank (hd w)"
  shows "header_from name ((name @ 58 # 32 # w) @ crlf @ r) = Some (w @ crlf @ r)"
proof -
  have f: "find_sub crlf ((name @ 58 # 32 # w) @ crlf @ r) = Some (length (name @ 58 # 32 # w))"
    using assms by (intro find_crlf) auto
  have w: "dropWhile is_blank (32 # w) = w" using assms(4,5) by (cases w) (auto simp: is_blank_def)
  have c: "dropWhile is_blank (58 # 32 # w) = 58 # 32 # w" by (simp add: is_blank_def)
  show ?thesis
    unfolding header_from.simps [of name "(name @ 58 # 32 # w) @ crlf @ r"] f
    using w c by (simp add: strcaseeq_def Let_def)
qed

lemma fmt_dec_bytes: "x \<in> set (fmt_dec n) \<Longrightarrow> is_digit x"
  using fmt_dec_digits [of n] by (simp add: list_all_iff)

lemma digit_facts: "is_digit x \<Longrightarrow> x \<noteq> 13 \<and> x \<noteq> 0 \<and> x \<noteq> 10 \<and> x \<noteq> 45 \<and> x \<noteq> 43 \<and> \<not> is_blank x \<and> \<not> is_space x"
  by (auto simp: is_digit_def is_blank_def is_space_def word_le_nat_alt)

lemma fmt_int_facts: "13 \<notin> set (fmt_int i)" "0 \<notin> set (fmt_int i)" "fmt_int i \<noteq> []" "\<not> is_blank (hd (fmt_int i))"
proof -
  have d: "x \<in> set (fmt_dec n) \<Longrightarrow> x \<noteq> 13 \<and> x \<noteq> 0 \<and> \<not> is_blank x" for x n
    using digit_facts [OF fmt_dec_bytes] by blast
  show "13 \<notin> set (fmt_int i)" "0 \<notin> set (fmt_int i)" using d by (auto simp: fmt_int_def)
  show "fmt_int i \<noteq> []" by (simp add: fmt_int_def)
  have "\<not> is_blank (hd (fmt_dec n))" for n using d [of "hd (fmt_dec n)" n] by simp
  then show "\<not> is_blank (hd (fmt_int i))" by (simp add: fmt_int_def is_blank_def)
qed

lemma scan_dec_fmt:
  "scan_dec (fmt_dec n @ 13 # r) = (False, n, length (fmt_dec n))"
  "scan_dec (45 # fmt_dec n @ 13 # r) = (True, n, Suc (length (fmt_dec n)))"
proof -
  have hd: "is_digit (hd (fmt_dec n))" using fmt_dec_bytes [of "hd (fmt_dec n)" n] by simp
  have tw: "takeWhile is_digit (fmt_dec n @ 13 # r) = fmt_dec n"
    using fmt_dec_digits [of n] by (subst takeWhile_append2) (auto simp: list_all_iff is_digit_def word_le_nat_alt)
  obtain a s where as: "fmt_dec n = a # s" by (cases "fmt_dec n") auto
  have sp: "takeWhile is_space (fmt_dec n @ 13 # r) = []" and a: "a \<noteq> 45" "a \<noteq> 43"
    using hd digit_facts by (auto simp: as)
  show "scan_dec (fmt_dec n @ 13 # r) = (False, n, length (fmt_dec n))"
    unfolding scan_dec_def sp using a tw by (simp add: as Let_def) (metis as dec_val_fmt_dec)
  have "takeWhile is_space (45 # fmt_dec n @ 13 # r) = []" by (simp add: is_space_def)
  then show "scan_dec (45 # fmt_dec n @ 13 # r) = (True, n, Suc (length (fmt_dec n)))"
    unfolding scan_dec_def using tw by (simp add: Let_def)
qed

lemma atoi_fmt_int: "- (2 ^ 31) \<le> i \<Longrightarrow> i < 2 ^ 31 \<Longrightarrow> atoi (fmt_int i @ 13 # r) = i"
  by (simp add: atoi_def fmt_int_def scan_dec_fmt)

lemma agent_facts: "13 \<notin> set USER_AGENT" "0 \<notin> set USER_AGENT" "USER_AGENT \<noteq> []" "\<not> strcaseeq (take 4 USER_AGENT) (str ''CSeq'')"
  "length USER_AGENT = 47"
  by code_simp+

lemma cseq_read:
  assumes "l \<noteq> []" and "13 \<notin> set l" and "0 \<notin> set l" and "\<not> strcaseeq (take 4 l) (str ''CSeq'')"
    and "- (2 ^ 31) \<le> c" and "c < 2 ^ 31"
  shows "rtsp_get_cseq (rtsp_lines [l, USER_AGENT, cseq_line c] @ r) = c"
proof -
  have nz: "0 \<notin> set (rtsp_lines [l, USER_AGENT, cseq_line c])"
    using assms fmt_int_facts [of c] agent_facts by (auto simp: rtsp_lines_def crlf_def cseq_line_def wire_simps)
  have eq: "cseq_line c = str ''CSeq'' @ 58 # 32 # fmt_int c" by (simp add: cseq_line_def wire_simps)
  have name: "str ''CSeq'' \<noteq> []" "13 \<notin> set (str ''CSeq'')" by (simp_all add: wire_simps)
  have skip: "header_from (str ''CSeq'') (w @ crlf @ q) = header_from (str ''CSeq'') q"
    if "w \<noteq> []" "13 \<notin> set w" "\<not> strcaseeq (take 4 w) (str ''CSeq'')" for w q
    using that by (intro header_from_skip) (simp_all add: numeral_eq_Suc)
  have "header_from (str ''CSeq'') (rtsp_lines [l, USER_AGENT, cseq_line c] @ cstr r) = Some (fmt_int c @ crlf @ cstr r)"
    using assms agent_facts header_from_hit [OF name fmt_int_facts(1,3,4), of c "cstr r"]
    by (simp add: rtsp_lines_def skip eq)
  then show ?thesis
    using atoi_fmt_int [OF assms(5,6)] by (simp add: rtsp_get_cseq_def rtsp_find_header_value_def cstr_append [OF nz] crlf_def)
qed

fun sends :: "out list \<Rightarrow> byte list option list" where
  "sends [] = []"
| "sends (Send t # os) = t # sends os"
| "sends (Open s # os) = sends os"
| "sends (Close s # os) = sends os"
| "sends (Drain s # os) = sends os"
| "sends (Media s # os) = sends os"

lemma sends_append [simp]: "sends (a @ b) = sends a @ sends b"
  by (induction a rule: sends.induct) auto

definition said :: "out list \<Rightarrow> (bool \<times> int) option list" where
  \<comment> \<open>of each text sent: is it a response, and which CSeq does the reader find in it\<close>
  "said outs = map (map_option (\<lambda>t. (rtsp_is_resp t, rtsp_get_cseq t))) (sends outs)"

lemma said_simps [simp]:
  "said [] = []" "said (a @ b) = said a @ said b"
  "said (Send t # os) = map_option (\<lambda>t. (rtsp_is_resp t, rtsp_get_cseq t)) t # said os"
  "said (Open s # os) = said os" "said (Close s # os) = said os" "said (Drain s # os) = said os" "said (Media s # os) = said os"
  by (simp_all add: said_def)

definition url_ok :: "byte list \<Rightarrow> bool" where
  "url_ok u \<longleftrightarrow> 0 \<notin> set u \<and> 13 \<notin> set u \<and> length u < 160"

lemma length_rtsp_lines: "length (rtsp_lines ls) = sum_list (map (\<lambda>l. length l + 2) ls)"
  by (induction ls) (simp_all add: rtsp_lines_def)

lemma length_cseq_line: "- (2 ^ 31) \<le> c \<Longrightarrow> c < 2 ^ 31 \<Longrightarrow> length (cseq_line c) \<le> 17"
  using length_fmt_int [of c] by (simp add: cseq_line_def)

lemma method_facts:
  assumes "m \<in> {''OPTIONS'', ''SETUP'', ''PLAY''}"
  shows "13 \<notin> set (str m)" "0 \<notin> set (str m)" "str m \<noteq> []" "length (str m) \<le> 7"
    "\<not> strcaseeq (take 4 (str m @ 32 # u)) (str ''CSeq'')" "take 9 (str m @ 32 # u) \<noteq> str ''RTSP/1.0 ''"
  using assms by (auto simp: wire_simps strcaseeq_def to_lower_def)

lemma req_sent:
  assumes m: "m \<in> {''OPTIONS'', ''SETUP'', ''PLAY''}" and u: "url_ok u" and x: "length extra < 128"
    and c: "0 \<le> c" "c < 2 ^ 31"
  obtains t where "rtsp_send_req m u extra c = Some t" "\<not> rtsp_is_resp t" "rtsp_get_cseq t = c" "take (length m) t = str m"
proof
  note mf = method_facts [OF m]
  let ?l = "str m @ 32 # u @ str '' RTSP/1.0''"
  let ?t = "rtsp_lines [?l, USER_AGENT, cseq_line c] @ extra @ crlf"
  have v: "13 \<notin> set (str '' RTSP/1.0'')" "0 \<notin> set (str '' RTSP/1.0'')" by (simp_all add: wire_simps)
  have "length ?t < 384"
    using mf(4) u x c length_cseq_line [of c] agent_facts(5) unfolding url_ok_def
    by (simp add: length_rtsp_lines)
  then show "rtsp_send_req m u extra c = Some ?t" by (simp add: rtsp_send_req_def sent_text_def)
  show "rtsp_get_cseq ?t = c"
    using mf u v c by (intro cseq_read) (auto simp: url_ok_def)
  have "?t = (str m @ 32 # u @ str '' RTSP/1.0'') @ rtsp_lines [[], USER_AGENT, cseq_line c] @ extra @ crlf"
    by (simp add: rtsp_lines_def)
  then show "\<not> rtsp_is_resp ?t" "take (length m) ?t = str m"
    using mf(6) by (simp_all add: rtsp_is_resp_def)
qed

lemma ok_line_facts: "13 \<notin> set (str ''RTSP/1.0 200 OK'')" "0 \<notin> set (str ''RTSP/1.0 200 OK'')"
  "\<not> strcaseeq (take 4 (str ''RTSP/1.0 200 OK'')) (str ''CSeq'')"
  "take 9 (str ''RTSP/1.0 200 OK'' @ r) = str ''RTSP/1.0 ''" "str ''RTSP/1.0 200 OK'' \<noteq> []"
  by (simp_all add: wire_simps strcaseeq_def to_lower_def)

lemma response_read:
  assumes "- (2 ^ 31) \<le> c" "c < 2 ^ 31"
  shows "rtsp_get_cseq (rtsp_lines [str ''RTSP/1.0 200 OK'', USER_AGENT, cseq_line c] @ r) = c"
    and "rtsp_is_resp (rtsp_lines [str ''RTSP/1.0 200 OK'', USER_AGENT, cseq_line c] @ r)"
proof -
  show "rtsp_get_cseq (rtsp_lines [str ''RTSP/1.0 200 OK'', USER_AGENT, cseq_line c] @ r) = c"
    using ok_line_facts assms by (intro cseq_read) auto
  show "rtsp_is_resp (rtsp_lines [str ''RTSP/1.0 200 OK'', USER_AGENT, cseq_line c] @ r)"
    using ok_line_facts(4) [of "rtsp_lines [[], USER_AGENT, cseq_line c] @ r"] by (simp add: rtsp_is_resp_def rtsp_lines_def)
qed

lemma length_capabilities: "length capabilities = 400"
  by code_simp

lemma resp_said [simp]:
  assumes "- (2 ^ 31) \<le> c" "c < 2 ^ 31" and "b = None \<or> b = Some capabilities"
  shows "map_option (\<lambda>t. (rtsp_is_resp t, rtsp_get_cseq t)) (rtsp_send_resp c b) = Some (True, c)"
proof -
  have d: "length (fmt_dec 400) \<le> 3" by (rule length_fmt_dec_le) simp_all
  have "length (rtsp_lines [str ''RTSP/1.0 200 OK'', USER_AGENT, cseq_line c]
        @ (case b of Some b \<Rightarrow> str ''Content-Length: '' @ fmt_dec (length b) @ crlf @ crlf @ b | None \<Rightarrow> crlf)) < 640"
    using assms length_cseq_line [of c] agent_facts(5) d by (auto simp: length_rtsp_lines length_capabilities)
  then show ?thesis
    using assms response_read [OF assms(1,2)] by (simp add: rtsp_send_resp_def sent_text_def)
qed

lemma options_text_split:
  "\<exists>r. options_text c a = rtsp_lines [str ''RTSP/1.0 200 OK'', USER_AGENT, cseq_line c] @ r"
  by (simp add: options_text_def rtsp_lines_def)

lemma options_said [simp]:
  assumes "- (2 ^ 31) \<le> c" "c < 2 ^ 31" and "length a \<le> 64"
  shows "map_option (\<lambda>t. (rtsp_is_resp t, rtsp_get_cseq t)) (sent_text 512 (options_text c a)) = Some (True, c)"
proof -
  have "length (options_text c a) < 512"
    using assms length_cseq_line [of c] agent_facts(5) by (simp add: options_text_def length_rtsp_lines)
  moreover from options_text_split obtain r where "options_text c a = rtsp_lines [str ''RTSP/1.0 200 OK'', USER_AGENT, cseq_line c] @ r"
    by blast
  ultimately show ?thesis using response_read [OF assms(1,2)] by (simp add: sent_text_def)
qed


subsection \<open>One message\<close>

definition needs_answer :: "byte list \<Rightarrow> bool" where
  "needs_answer headers \<longleftrightarrow> \<not> rtsp_is_resp headers
     \<and> \<not> (rtsp_method headers = str ''rtp_ports'' \<and> rtsp_get_cseq headers = 0)"

definition played :: "out list \<Rightarrow> int \<Rightarrow> bool" where
  \<comment> \<open>a PLAY of ours with this CSeq was sent\<close>
  "played log k \<longleftrightarrow> (\<exists>t. Some t \<in> set (sends log) \<and> take 4 t = str ''PLAY'' \<and> rtsp_get_cseq t = k)"

definition starts_play :: "out list \<Rightarrow> byte list \<Rightarrow> bool" where
  "starts_play log headers \<longleftrightarrow>
     \<not> rtsp_is_resp headers \<and> rtsp_method headers = str ''PLAY''
     \<or> rtsp_is_resp headers \<and> has_sub headers ''200'' \<and> played log (rtsp_get_cseq headers)"

definition dialog_ok :: "out list \<Rightarrow> dialog \<Rightarrow> bool" where
  "dialog_ok log d \<longleftrightarrow> url_ok (d_pres_url d) \<and> 1 \<le> d_cseq d \<and> d_cseq_of_getparam d = 0
     \<and> (d_cseq_of_play d = 0 \<or> played log (d_cseq_of_play d)) \<and> d_rtsp_state d \<le> 2"

definition step_ok :: "out list \<Rightarrow> byte list \<Rightarrow> dialog \<Rightarrow> dialog \<times> out list \<Rightarrow> bool" where
  "step_ok log headers d r \<longleftrightarrow> (case r of (d', outs) \<Rightarrow>
     said outs = (if needs_answer headers then [Some (True, rtsp_get_cseq headers)] else [])
               @ (if d_cseq d' = d_cseq d then [] else [Some (False, d_cseq d)])
     \<and> (d_cseq d' = d_cseq d \<or> d_cseq d' = d_cseq d + 1)
     \<and> dialog_ok (log @ outs) d'
     \<and> (d_rtsp_state d' = 2 \<longrightarrow> d_rtsp_state d = 2 \<or> starts_play log headers))"

lemma played_append [intro]: "played log k \<Longrightarrow> played (log @ outs) k"
  by (auto simp: played_def)

lemma cseq_range: "- (2 ^ 31) \<le> rtsp_get_cseq headers" "rtsp_get_cseq headers < 2 ^ 31"
  using atoi_range by (auto simp: rtsp_get_cseq_def split: option.splits)

lemma req_said:
  assumes "m \<in> {''OPTIONS'', ''SETUP'', ''PLAY''}" "url_ok u" "length extra < 128" "0 \<le> c" "c < 2 ^ 31"
  shows "map_option (\<lambda>t. (rtsp_is_resp t, rtsp_get_cseq t)) (rtsp_send_req m u extra c) = Some (False, c)"
  by (rule req_sent [OF assms]) auto

lemma play_said: "url_ok u \<Longrightarrow> length extra < 128 \<Longrightarrow> 0 \<le> c \<Longrightarrow> c < 2 ^ 31 \<Longrightarrow> played [Send (rtsp_send_req ''PLAY'' u extra c)] c"
  by (rule req_sent [of "''PLAY''" u extra c]) (auto simp: played_def numeral_eq_Suc)

lemma response_ok:
  assumes d: "dialog_ok log d" "d_cseq d < 2 ^ 31" and r: "rtsp_is_resp headers"
  shows "step_ok log headers d (rtsp_on_response headers d)"
proof -
  have na: "\<not> needs_answer headers" using r by (simp add: needs_answer_def)
  let ?x = "copy_text 64 (str ''Session: '' @ rtsp_get_session headers 32 @ crlf)"
  have x: "length ?x < 128" using length_copy_text [of 64] by (rule order.strict_trans2) simp_all
  have "url_ok (d_pres_url d)" "0 \<le> d_cseq d" using d by (simp_all add: dialog_ok_def)
  note s = req_said [OF _ this(1) x this(2) d(2), of "''PLAY''"] and p = play_said [OF this(1) x this(2) d(2)]
  have "played (log @ [Send (rtsp_send_req ''PLAY'' (d_pres_url d) ?x (d_cseq d))]) (d_cseq d)"
    using p by (auto simp: played_def)
  then show ?thesis
    using d na s r unfolding step_ok_def rtsp_on_response_def Let_def dialog_ok_def
    by (auto simp: starts_play_def)
qed

lemma options_ok:
  assumes h: "hashes_ok h" and d: "dialog_ok log d" "d_cseq d < 2 ^ 31" and na: "needs_answer headers"
  shows "step_ok log headers d (rtsp_on_options h mirror_key v headers d)"
proof -
  have a: "length (rtsp_auth_ack h mirror_key (v_stale v) headers) \<le> 64"
    using h by (simp add: rtsp_auth_ack_def split: option.splits)
  have u: "url_ok (str ''*'')" by (simp add: url_ok_def wire_simps)
  have x: "length (copy_text 128 e) < 128" for e by simp
  have c: "0 \<le> d_cseq d" using d by (simp add: dialog_ok_def)
  have s: "map_option (\<lambda>t. (rtsp_is_resp t, rtsp_get_cseq t)) (rtsp_send_req ''OPTIONS'' (str ''*'') (copy_text 128 e) (d_cseq d))
      = Some (False, d_cseq d)" for e
    by (rule req_said [OF _ u x c d(2)]) simp
  show ?thesis
    using d na s a cseq_range unfolding step_ok_def rtsp_on_options_def Let_def dialog_ok_def
    by auto
qed

lemma data_sockets_frame:
  "data_sockets v d = (d', outs) \<Longrightarrow> said outs = [] \<and> d_pres_url d' = d_pres_url d \<and> d_cseq d' = d_cseq d
    \<and> d_cseq_of_getparam d' = d_cseq_of_getparam d \<and> d_cseq_of_play d' = d_cseq_of_play d \<and> d_rtsp_state d' = d_rtsp_state d"
  by (auto simp: data_sockets_def Let_def split: if_splits)

lemma get_parameter_ok:
  assumes "dialog_ok log d" and "needs_answer headers"
  shows "step_ok log headers d (rtsp_on_get_parameter v headers body d)"
proof -
  obtain d1 o1 where s: "data_sockets v d = (d1, o1)" by fastforce
  show ?thesis
    using assms data_sockets_frame [OF s] cseq_range s
    unfolding step_ok_def rtsp_on_get_parameter_def dialog_ok_def by auto
qed

lemma presentation_url_ok: "presentation_url body = Some u \<Longrightarrow> url_ok u"
proof -
  assume "presentation_url body = Some u"
  then obtain i where u: "u = take (160 - 1) (takeWhile (\<lambda>c. c \<noteq> 32 \<and> c \<noteq> 13 \<and> c \<noteq> 10)
        (dropWhile (\<lambda>c. c = 32) (drop i (cstr body))))" by (auto simp: presentation_url_def split: option.splits)
  have "0 \<notin> set (cstr body)" by (auto simp: cstr_def dest: set_takeWhileD)
  then show ?thesis
    unfolding u url_ok_def
    by (auto dest!: in_set_takeD set_takeWhileD dest: set_dropWhileD in_set_dropD)
qed

lemma set_parameter_ok:
  assumes d: "dialog_ok log d" "d_cseq d < 2 ^ 31" and na: "needs_answer headers"
  shows "step_ok log headers d (rtsp_on_set_parameter headers body d)"
proof -
  define d1 where "d1 = (case presentation_url body of Some u \<Rightarrow> d \<lparr> d_pres_url := u \<rparr> | None \<Rightarrow> d)"
  have ok: "dialog_ok log d1" "d_cseq d1 = d_cseq d" "d_rtsp_state d1 = d_rtsp_state d"
    using d presentation_url_ok by (auto simp: d1_def dialog_ok_def split: option.splits)
  have x: "length (setup_extra a b) < 128" for a b by (simp add: setup_extra_def)
  have "url_ok (d_pres_url d1)" "0 \<le> d_cseq d" using ok d by (simp_all add: dialog_ok_def)
  note s = req_said [OF _ this(1) x this(2) d(2), of "''SETUP''"]
  show ?thesis
    using ok na s cseq_range unfolding step_ok_def rtsp_on_set_parameter_def Let_def d1_def [symmetric] dialog_ok_def
    by auto
qed

lemma handle_ok:
  assumes h: "hashes_ok h" and d: "dialog_ok log d" "d_cseq d < 2 ^ 31"
  shows "step_ok log headers d (fst (rtsp_handle h mirror_key v headers body d))"
proof -
  have neq: "str ''OPTIONS'' \<noteq> str ''rtp_ports''" "str ''GET_PARAMETER'' \<noteq> str ''rtp_ports''"
    "str ''SET_PARAMETER'' \<noteq> str ''rtp_ports''" "str ''PLAY'' \<noteq> str ''rtp_ports''" "str ''TEARDOWN'' \<noteq> str ''rtp_ports''"
    by (simp_all add: wire_simps)
  note handlers = response_ok [OF d] options_ok [OF h d] get_parameter_ok [OF d(1)] set_parameter_ok [OF d]
  have plain: "step_ok log headers d (d, [Send (rtsp_send_resp (rtsp_get_cseq headers) None)])" if "needs_answer headers"
    using that d cseq_range by (auto simp: step_ok_def dialog_ok_def)
  have ports: "step_ok log headers d (rtsp_on_rtp_ports headers d)"
    if "\<not> rtsp_is_resp headers" "rtsp_method headers = str ''rtp_ports''"
    using that d cseq_range unfolding rtsp_on_rtp_ports_def step_ok_def dialog_ok_def needs_answer_def by auto
  have play: "step_ok log headers d (d \<lparr> d_rtsp_state := 2 \<rparr>, [Send (rtsp_send_resp (rtsp_get_cseq headers) None)])"
    if "\<not> rtsp_is_resp headers" "rtsp_method headers = str ''PLAY''"
    using that d cseq_range neq by (auto simp: step_ok_def dialog_ok_def needs_answer_def starts_play_def)
  have "needs_answer headers" if "\<not> rtsp_is_resp headers" "rtsp_method headers \<noteq> str ''rtp_ports''"
    using that by (simp add: needs_answer_def)
  then show ?thesis
    using handlers plain ports play neq unfolding rtsp_handle_def Let_def by (simp split: if_split)
qed

subsection \<open>A whole handshake\<close>

text \<open>The messages a handshake takes, with the turn that takes them, and the handshake as a
  function of them.\<close>

fun rtsp_heard :: "hashes \<Rightarrow> byte list option \<Rightarrow> rtsp_env list \<Rightarrow> rconn \<Rightarrow> (rtsp_env \<times> byte list \<times> byte list) list" where
  "rtsp_heard h mirror_key [] c = []"
| "rtsp_heard h mirror_key (v # vs) c =
     (if 2 \<le> d_rtsp_state (rc_dialog c) then []
      else case rtsp_wait False c of
             (Gone, c1) \<Rightarrow> []
           | (Again, c1) \<Rightarrow> rtsp_heard h mirror_key vs c1
           | (Got headers body, c1) \<Rightarrow>
               let r = rtsp_handle h mirror_key v headers body (rc_dialog c1)
               in (v, headers, body) #
                  (if snd r then [] else rtsp_heard h mirror_key vs (set_errno (v_errno v) (c1 \<lparr> rc_dialog := fst (fst r) \<rparr>))))"

fun rtsp_dialogue :: "hashes \<Rightarrow> byte list option \<Rightarrow> (rtsp_env \<times> byte list \<times> byte list) list \<Rightarrow> dialog \<Rightarrow> dialog \<times> out list" where
  "rtsp_dialogue h mirror_key [] d = (d, [])"
| "rtsp_dialogue h mirror_key ((v, headers, body) # ms) d =
     (let r = fst (rtsp_handle h mirror_key v headers body d); r' = rtsp_dialogue h mirror_key ms (fst r)
      in (fst r', snd r @ snd r'))"

lemma wait_dialog: "rtsp_wait f c = (g, c1) \<Longrightarrow> rc_dialog c1 = rc_dialog c"
  by (auto simp: rtsp_wait_def set_errno_def Let_def split: prod.splits rtsp_ret.splits if_splits)

lemma handshake_dialogue:
  "rtsp_dialogue h mirror_key (rtsp_heard h mirror_key vs c) (rc_dialog c)
     = (rc_dialog (fst (rtsp_handshake h mirror_key vs c)), snd (rtsp_handshake h mirror_key vs c))"
proof (induction vs arbitrary: c)
  case Nil
  then show ?case by simp
next
  case (Cons v vs)
  obtain g c1 where w: "rtsp_wait False c = (g, c1)" by fastforce
  show ?case
  proof (cases g)
    case (Got headers body)
    define r where "r = rtsp_handle h mirror_key v headers body (rc_dialog c)"
    define c2 where "c2 = set_errno (v_errno v) (c1 \<lparr> rc_dialog := fst (fst r) \<rparr>)"
    have d: "rc_dialog c2 = fst (fst r)" by (simp add: c2_def set_errno_def)
    show ?thesis
      using Got w Cons.IH [of c2] wait_dialog [OF w]
      by (simp add: Let_def r_def [symmetric] c2_def [symmetric] d split: prod.splits)
  next
    case Again
    with w Cons.IH [of c1] wait_dialog [OF w] show ?thesis by simp
  next
    case Gone
    with w wait_dialog [OF w] show ?thesis by simp
  qed
qed

lemma heard_length: "length (rtsp_heard h mirror_key vs c) \<le> length vs"
proof (induction vs arbitrary: c)
  case (Cons v vs)
  obtain g c1 where "rtsp_wait False c = (g, c1)" by fastforce
  then show ?case using Cons.IH by (cases g) (auto simp: Let_def le_SucI)
qed simp

text \<open>The messages are those of the reading loop, as long as the handshake listens.\<close>

lemma wait_stuck:
  "rtsp_read_msg RTSP_BUF_SIZE RTSP_BUF_SIZE buf evs = (RFail None, buf', evs') \<Longrightarrow> RTSP_BUF_SIZE - 1 \<le> length buf'"
proof (induction buf evs rule: read_msg_induct)
  case (full buf0 evs)
  then show ?case by (simp add: read_msg_full)
next
  case (skip buf0 evs n)
  then show ?case by (simp only: read_msg_skip [OF skip(1-3)])
next
  case (drop buf0 evs)
  then show ?case by (simp only: read_msg_drop [OF drop(1-4)])
next
  case (go buf0 evs)
  note eq = read_msg_go [OF go(1,2), of RTSP_BUF_SIZE RTSP_BUF_SIZE, unfolded Let_def]
  have b: "rtsp_body hl cl b e = (Some r, x, y) \<Longrightarrow> r \<noteq> RFail None" for hl cl b e r x y
    using body_progress [of hl cl b e "Some r" x y] by auto
  show ?case
  proof (cases "msg_end (skip_rtp buf0)")
    case None
    with go show ?thesis by (auto simp: eq split: prod.splits rx.splits if_splits)
  next
    case (Some i)
    with go.prems have "rtsp_finish RTSP_BUF_SIZE RTSP_BUF_SIZE (i + 4) (skip_rtp buf0) evs = (RFail None, buf', evs')"
      by (simp add: eq)
    then show ?thesis by (auto simp: rtsp_finish_def Let_def dest: b split: prod.splits option.splits if_splits)
  qed
qed

lemma reads_unfold:
  "rtsp_read_msg RTSP_BUF_SIZE RTSP_BUF_SIZE buf evs = (r, buf', evs') \<Longrightarrow>
   fst (rtsp_reads buf evs) =
     (case r of RMsg h b \<Rightarrow> (h, b) # fst (rtsp_reads buf' evs')
      | RFail (Some e) \<Rightarrow> if e = EAGAIN \<and> evs \<noteq> [] then fst (rtsp_reads buf' evs') else []
      | RFail None \<Rightarrow> [] | RClosed \<Rightarrow> [])"
  by (subst rtsp_reads.simps) (auto split: rtsp_ret.splits option.splits prod.splits)

lemma skip_rtp_idem: "skip_rtp (skip_rtp buf) = skip_rtp buf"
proof (induction buf rule: skip_rtp.induct)
  case (1 buf)
  show ?case
  proof (cases "4 \<le> length buf \<and> buf ! 0 = 0x24 \<and> 4 + unat (rd16 buf 2) \<le> length buf")
    case True
    then have "skip_rtp buf = skip_rtp (drop (4 + unat (rd16 buf 2)) buf)" by (subst skip_rtp.simps) simp
    with 1 True show ?thesis by simp
  next
    case False
    then have "skip_rtp buf = buf" unfolding skip_rtp.simps [of buf] by (simp only: if_False)
    then show ?thesis by simp
  qed
qed

lemma body_idle: "rtsp_body hl cl b [] = (Some r, b', e') \<Longrightarrow> r = RFail (Some EAGAIN) \<and> b' = b \<and> e' = []"
  by (subst (asm) rtsp_body.simps) (auto split: if_splits)

lemma read_msg_stable:
  "rtsp_read_msg RTSP_BUF_SIZE RTSP_BUF_SIZE buf [] = (RFail (Some EAGAIN), buf', evs') \<Longrightarrow>
   rtsp_read_msg RTSP_BUF_SIZE RTSP_BUF_SIZE buf' [] = (RFail (Some EAGAIN), buf', [])"
proof (induction buf "[] :: rx list" rule: read_msg_induct)
  case (full buf0)
  then show ?case by (simp add: read_msg_full)
next
  case (skip buf0 n)
  then show ?case by (simp add: read_msg_skip)
next
  case (drop buf0)
  then show ?case by (simp add: read_msg_drop)
next
  case (go buf0)
  have ne: "EMSGSIZE \<noteq> EAGAIN" by (simp add: EMSGSIZE_def EAGAIN_def)
  note eq = read_msg_go [OF go(1,2), of RTSP_BUF_SIZE RTSP_BUF_SIZE, unfolded Let_def]
  have b: "buf' = skip_rtp buf0"
  proof (cases "msg_end (skip_rtp buf0)")
    case None
    with go.prems show ?thesis by (simp add: eq)
  next
    case (Some i)
    with go.prems have "rtsp_finish RTSP_BUF_SIZE RTSP_BUF_SIZE (i + 4) (skip_rtp buf0) [] = (RFail (Some EAGAIN), buf', evs')"
      by (simp add: eq)
    then show ?thesis using ne by (auto simp: rtsp_finish_def Let_def dest: body_idle split: prod.splits option.splits if_splits)
  qed
  have "length (skip_rtp buf0) < RTSP_BUF_SIZE - 1" using go(1) skip_rtp_length [of buf0] by simp
  note eq' = read_msg_go [OF this, unfolded skip_rtp_idem, OF go(2), of RTSP_BUF_SIZE RTSP_BUF_SIZE "[]", unfolded Let_def]
  have "rtsp_read_msg RTSP_BUF_SIZE RTSP_BUF_SIZE (skip_rtp buf0) [] = rtsp_read_msg RTSP_BUF_SIZE RTSP_BUF_SIZE buf0 []"
    unfolding eq eq' ..
  with go.prems b read_msg_idle [OF go.prems] show ?case by simp
qed

lemma reads_stuck: "RTSP_BUF_SIZE - 1 \<le> length buf \<Longrightarrow> fst (rtsp_reads buf evs) = []"
  by (subst rtsp_reads.simps) (simp add: read_msg_full)

lemma heard_prefix: "prefix (map snd (rtsp_heard h mirror_key vs c)) (fst (rtsp_reads (rc_buf c) (rc_evs c)))"
proof (induction vs arbitrary: c)
  case Nil
  then show ?case by simp
next
  case (Cons v vs)
  obtain r buf evs where r: "rtsp_read_msg RTSP_BUF_SIZE RTSP_BUF_SIZE (rc_buf c) (rc_evs c) = (r, buf, evs)" by (metis prod_cases3)
  note u = reads_unfold [OF r]
  show ?case
  proof (cases r)
    case (RMsg hd bd)
    have "rc_buf (set_errno x (y \<lparr> rc_dialog := z \<rparr>)) = rc_buf y" "rc_evs (set_errno x (y \<lparr> rc_dialog := z \<rparr>)) = rc_evs y" for x y z
      by (simp_all add: set_errno_def)
    with Cons.IH [of "set_errno (v_errno v) (c \<lparr> rc_buf := buf, rc_evs := evs, rc_dialog := fst (fst (rtsp_handle h mirror_key v hd bd (rc_dialog c))) \<rparr>)"]
    show ?thesis using RMsg r u by (auto simp: rtsp_wait_def Let_def)
  next
    case RClosed
    with r show ?thesis by (simp add: rtsp_wait_def)
  next
    case (RFail e)
    define c1 where "c1 = set_errno e (c \<lparr> rc_buf := buf, rc_evs := evs \<rparr>)"
    have c1: "rc_buf c1 = buf" "rc_evs c1 = evs" by (simp_all add: c1_def set_errno_def)
    have again: "prefix (map snd (rtsp_heard h mirror_key vs c1)) (fst (rtsp_reads (rc_buf c) (rc_evs c)))"
      if a: "rc_errno c1 = EAGAIN"
    proof (cases e)
      case None
      with RFail wait_stuck r reads_stuck [of buf evs] have "fst (rtsp_reads buf evs) = []" by blast
      with Cons.IH [of c1] c1 show ?thesis by simp
    next
      case (Some n)
      with a have n: "n = EAGAIN" by (simp add: c1_def set_errno_def)
      show ?thesis
      proof (cases "rc_evs c = []")
        case False
        with u RFail Some n Cons.IH [of c1] c1 show ?thesis by simp
      next
        case True
        with r RFail Some n have "rtsp_read_msg RTSP_BUF_SIZE RTSP_BUF_SIZE buf [] = (RFail (Some EAGAIN), buf, [])" "evs = []"
          using read_msg_stable read_msg_idle by auto
        from reads_unfold [OF this(1)] this(2) Cons.IH [of c1] c1 show ?thesis by simp
      qed
    qed
    with RFail r show ?thesis by (simp add: rtsp_wait_def Let_def c1_def [symmetric])
  qed
qed

subsection \<open>Corner cases\<close>

text \<open>After the peer has closed, a keepalive turn that finds an old \<open>EAGAIN\<close> in \<open>errno\<close>
  changes nothing and goes on: the loop spins.\<close>

lemma keepalive_spins:
  assumes "rc_buf c = []" and "rc_evs c = Data [] # evs" and "rc_errno c = EAGAIN"
  shows "rtsp_keepalive es c = (c, [], False)"
proof -
  have "skip_rtp [] = []" by (simp add: skip_rtp.simps)
  moreover have "msg_end [] = None" by (simp add: msg_end_def cstr_def crlf_def)
  ultimately have "rtsp_read_msg RTSP_BUF_SIZE RTSP_BUF_SIZE [] (Data [] # evs) = (RClosed, [], Data [] # evs)"
    by (subst read_msg_go) (auto simp: junk_def RTSP_BUF_SIZE_def)
  moreover have "c \<lparr> rc_buf := [], rc_evs := Data [] # evs \<rparr> = c" using assms by simp
  ultimately have w: "rtsp_wait True c = (Again, c)" using assms by (simp add: rtsp_wait_def)
  show ?thesis by (induction es) (simp_all add: w)
qed

text \<open>A second capability request opens both data sockets again: the image socket was handed
  over, and the first multi socket is forgotten without being closed.\<close>

lemma data_sockets_again:
  assumes "d_image_sock d < 0" and "0 \<le> v_sock1 v" "0 \<le> v_sock2 v" "v_conn1 v" "v_conn2 v"
    and "0 \<le> v_sock1 w" "0 \<le> v_sock2 w" "v_conn1 w" "v_conn2 w" and "v_sock2 v \<notin> {v_sock1 w, v_sock2 w, v_sock1 v}"
  shows "d_multi_sock (fst (data_sockets w (fst (data_sockets v d)))) = v_sock2 w
    \<and> Close (v_sock2 v) \<notin> set (snd (data_sockets v d) @ snd (data_sockets w (fst (data_sockets v d))))"
  using assms by (simp add: data_sockets_def Let_def)

text \<open>A run whose generation has been superseded leaves the shared state alone, but its task
  clears the handle, and a restart is then let through beside the newer task.\<close>

lemma superseded_run_end: "s_media_generation (k_ctl k) \<noteq> g \<Longrightarrow> rtsp_run_end fd g k = k"
  by (simp add: rtsp_run_end_def miplay_mark_media_session_closed_def)

lemma restart_beside_newer_task:
  assumes "s_media_generation (k_ctl k) \<noteq> a_generation a" and "0 < k_port_saved k" "k_host_saved k \<noteq> []" "0 \<le> fd"
  shows "fst (miplay_try_restart_rtsp fd True True (miplay_rtsp_task_wrapper a k))"
  using assms by (simp add: miplay_rtsp_task_wrapper_def superseded_run_end miplay_try_restart_rtsp_def
      miplay_start_rtsp_session_def Let_def)

subsection \<open>Properties\<close>

lemma dialogue_ok:
  assumes "hashes_ok h" and "dialog_ok log d" and "d_cseq d + int (length ms) < 2 ^ 31"
    and "rtsp_dialogue h mirror_key ms d = (d', outs)"
  shows "dialog_ok (log @ outs) d' \<and> d_cseq d \<le> d_cseq d' \<and> None \<notin> set (said outs)
    \<and> map snd (filter (\<lambda>x. \<not> fst x) (map the (said outs))) = [d_cseq d..d_cseq d' - 1]
    \<and> map snd (filter fst (map the (said outs))) = map (\<lambda>m. rtsp_get_cseq (fst (snd m))) (filter (\<lambda>m. needs_answer (fst (snd m))) ms)"
  using assms
proof (induction ms arbitrary: log d outs)
  case Nil
  then show ?case by simp
next
  case (Cons m ms)
  obtain v hd bd where m: "m = (v, hd, bd)" by (cases m) auto
  define r where "r = fst (rtsp_handle h mirror_key v hd bd d)"
  obtain d1 o1 where d1: "r = (d1, o1)" by fastforce
  obtain d2 o2 where "rtsp_dialogue h mirror_key ms d1 = (d2, o2)" by fastforce
  then have d2: "rtsp_dialogue h mirror_key ms d1 = (d', o2)" and o: "outs = o1 @ o2" using Cons.prems(4) m d1 by (simp_all add: r_def [symmetric] Let_def)
  have "d_cseq d < 2 ^ 31" using Cons.prems(3) by simp
  from handle_ok [OF Cons.prems(1,2) this, of hd mirror_key v bd]
  have s: "said o1 = (if needs_answer hd then [Some (True, rtsp_get_cseq hd)] else [])
               @ (if d_cseq d1 = d_cseq d then [] else [Some (False, d_cseq d)])"
     "d_cseq d1 = d_cseq d \<or> d_cseq d1 = d_cseq d + 1" "dialog_ok (log @ o1) d1"
    by (simp_all add: step_ok_def r_def [symmetric] d1)
  have "d_cseq d1 + int (length ms) < 2 ^ 31" using Cons.prems(3) s(2) by auto
  from Cons.IH [OF Cons.prems(1) s(3) this d2] s m o show ?case
    by (cases "d_cseq d1 = d_cseq d") (simp_all add: upto_rec1)
qed

lemma fresh_ok: "dialog_ok [] (rc_dialog (rtsp_fresh g evs e))" "d_cseq (rc_dialog (rtsp_fresh g evs e)) = 1"
  "d_rtsp_state (rc_dialog (rtsp_fresh g evs e)) = 0"
  by (simp_all add: dialog_ok_def rtsp_fresh_def dialog_init_def url_ok_def wire_simps)

lemma said_texts:
  assumes "None \<notin> set (said outs)"
  shows "None \<notin> set (sends outs)"
    and "map rtsp_get_cseq (filter P (map the (sends outs))) =
      map snd (filter fst (map (\<lambda>t. (P t, rtsp_get_cseq t)) (map the (sends outs))))"
    and "map the (said outs) = map (\<lambda>t. (rtsp_is_resp t, rtsp_get_cseq t)) (map the (sends outs))"
proof -
  have "x \<noteq> None" if "x \<in> set (sends outs)" for x
    using assms that by (force simp: said_def)
  then show "None \<notin> set (sends outs)" "map the (said outs) = map (\<lambda>t. (rtsp_is_resp t, rtsp_get_cseq t)) (map the (sends outs))"
    by (auto simp: said_def option.map_sel)
  show "map rtsp_get_cseq (filter P (map the (sends outs))) =
      map snd (filter fst (map (\<lambda>t. (P t, rtsp_get_cseq t)) (map the (sends outs))))"
    by (simp add: filter_map o_def)
qed

definition responses :: "out list \<Rightarrow> byte list list" where
  "responses outs = filter rtsp_is_resp (map the (sends outs))"

definition requests :: "out list \<Rightarrow> byte list list" where
  "requests outs = filter (\<lambda>t. \<not> rtsp_is_resp t) (map the (sends outs))"

lemma handshake_play:
  assumes "hashes_ok h" and "dialog_ok log (rc_dialog c)" and "d_cseq (rc_dialog c) + int (length vs) < 2 ^ 31"
    and "d_rtsp_state (rc_dialog c) \<noteq> 2" and "rtsp_handshake h mirror_key vs c = (c', outs)" and "d_rtsp_state (rc_dialog c') = 2"
  shows "\<exists>ms v headers body. rtsp_heard h mirror_key vs c = ms @ [(v, headers, body)] \<and> starts_play (log @ outs) headers"
  using assms
proof (induction vs arbitrary: c log outs)
  case Nil
  then show ?case by simp
next
  case (Cons v vs)
  obtain g c1 where w: "rtsp_wait False c = (g, c1)" by fastforce
  note wd = wait_dialog [OF w]
  have lt: "\<not> 2 \<le> d_rtsp_state (rc_dialog c)" using Cons.prems(2,4) by (simp add: dialog_ok_def)
  show ?case
  proof (cases g)
    case Gone
    with Cons.prems w wd lt show ?thesis by auto
  next
    case Again
    with Cons.prems(5) w lt have "rtsp_handshake h mirror_key vs c1 = (c', outs)" by simp
    from Cons.IH [OF Cons.prems(1) _ _ _ this Cons.prems(6)] Cons.prems(2-4) wd Again w lt show ?thesis by simp
  next
    case (Got headers body)
    define r where "r = rtsp_handle h mirror_key v headers body (rc_dialog c)"
    define c2 where "c2 = set_errno (v_errno v) (c1 \<lparr> rc_dialog := fst (fst r) \<rparr>)"
    have d: "rc_dialog c2 = fst (fst r)" by (simp add: c2_def set_errno_def)
    have "d_cseq (rc_dialog c) < 2 ^ 31" using Cons.prems(3) by simp
    from handle_ok [OF Cons.prems(1,2) this, of headers mirror_key v body]
    have s: "d_cseq (rc_dialog c2) \<le> d_cseq (rc_dialog c) + 1" "dialog_ok (log @ snd (fst r)) (rc_dialog c2)"
      "d_rtsp_state (rc_dialog c2) = 2 \<Longrightarrow> starts_play log headers"
      using Cons.prems(4) by (auto simp: step_ok_def r_def [symmetric] d split: prod.splits)
    have heard: "rtsp_heard h mirror_key (v # vs) c = (v, headers, body) # (if snd r then [] else rtsp_heard h mirror_key vs c2)"
      using w Got lt by (simp add: wd Let_def r_def [symmetric] c2_def [symmetric])
    obtain c3 o3 where c3: "rtsp_handshake h mirror_key vs c2 = (c3, o3)" by fastforce
    have "rtsp_handshake h mirror_key (v # vs) c = (if snd r then (c2, snd (fst r)) else (c3, snd (fst r) @ o3))"
      using w Got lt c3 by (simp add: wd Let_def r_def [symmetric] c2_def [symmetric])
    with Cons.prems(5) have run: "(c', outs) = (if snd r then (c2, snd (fst r)) else (c3, snd (fst r) @ o3))" by simp
    have mono: "starts_play log headers \<Longrightarrow> starts_play (log @ o') headers" for o'
      by (auto simp: starts_play_def)
    show ?thesis
    proof (cases "d_rtsp_state (rc_dialog c2) = 2")
      case True
      then have "rtsp_heard h mirror_key vs c2 = []" by (cases vs) simp_all
      then have "rtsp_heard h mirror_key (v # vs) c = [] @ [(v, headers, body)]" using heard by simp
      with s(3) [OF True] mono show ?thesis by blast
    next
      case False
      with Cons.prems(6) run have ns: "\<not> snd r" "c' = c3" "outs = snd (fst r) @ o3" by (auto split: if_splits)
      have "d_cseq (rc_dialog c2) + int (length vs) < 2 ^ 31" using s(1) Cons.prems(3) by simp
      from Cons.IH [OF Cons.prems(1) s(2) this False c3 [folded ns(2)] Cons.prems(6)]
      obtain ms v' hd' bd' where l: "rtsp_heard h mirror_key vs c2 = ms @ [(v', hd', bd')]"
        and p: "starts_play ((log @ snd (fst r)) @ o3) hd'" by blast
      have "rtsp_heard h mirror_key (v # vs) c = ((v, headers, body) # ms) @ [(v', hd', bd')]" using heard ns(1) l by simp
      moreover have "starts_play (log @ outs) hd'" using p ns(3) by simp
      ultimately show ?thesis by blast
    qed
  qed
qed

text \<open>C7: The handshake on any bytes of the phone, in any segmentation, in any environment.
  The messages it takes are those of the reader, in order; every text it sends fits the array
  it is printed into; read back, its own requests are numbered 1, 2, 3 and so on, and its
  responses answer exactly the requests of the phone, each once, in order and with its CSeq
  (\<open>rtp_ports\<close> without a CSeq is taken for an answer).\<close>

theorem rtsp_dialogue_answers:
  assumes "hashes_ok h" and "length vs < 2 ^ 31 - 1"
  shows "case rtsp_handshake h mirror_key vs (rtsp_fresh g evs e) of (c, outs) \<Rightarrow>
    let heard = map snd (rtsp_heard h mirror_key vs (rtsp_fresh g evs e))
    in prefix heard (fst (rtsp_reads [] evs))
       \<and> None \<notin> set (sends outs)
       \<and> map rtsp_get_cseq (requests outs) = [1..d_cseq (rc_dialog c) - 1]
       \<and> map rtsp_get_cseq (responses outs) = map rtsp_get_cseq (filter needs_answer (map fst heard))"
proof -
  let ?c = "rtsp_fresh g evs e"
  obtain c outs where r: "rtsp_handshake h mirror_key vs ?c = (c, outs)" by fastforce
  have "d_cseq (rc_dialog ?c) + int (length (rtsp_heard h mirror_key vs ?c)) < 2 ^ 31"
    using heard_length [of h mirror_key vs ?c] assms(2) by (simp add: fresh_ok)
  from dialogue_ok [OF assms(1) fresh_ok(1) this handshake_dialogue, unfolded r]
  have ok: "None \<notin> set (said outs)"
      "map snd (filter (\<lambda>x. \<not> fst x) (map the (said outs))) = [1..d_cseq (rc_dialog c) - 1]"
      "map snd (filter fst (map the (said outs))) = map (\<lambda>m. rtsp_get_cseq (fst (snd m)))
         (filter (\<lambda>m. needs_answer (fst (snd m))) (rtsp_heard h mirror_key vs ?c))"
    by (simp_all add: fresh_ok)
  have "prefix (map snd (rtsp_heard h mirror_key vs ?c)) (fst (rtsp_reads [] evs))"
    using heard_prefix [of h mirror_key vs ?c] by (simp add: rtsp_fresh_def)
  with ok said_texts [OF ok(1)] r show ?thesis
    by (simp add: requests_def responses_def filter_map o_def)
qed

text \<open>C23: Playback starts only on a PLAY of the phone, or on a response with 200 to a PLAY
  request that was really sent; nothing is taken from the phone after it.\<close>

theorem rtsp_playback_safety:
  assumes "hashes_ok h" and "length vs < 2 ^ 31 - 1"
    and "rtsp_handshake h mirror_key vs (rtsp_fresh g evs e) = (c, outs)" and "d_rtsp_state (rc_dialog c) = 2"
  shows "\<exists>ms v headers body. rtsp_heard h mirror_key vs (rtsp_fresh g evs e) = ms @ [(v, headers, body)]
    \<and> (\<not> rtsp_is_resp headers \<and> rtsp_method headers = str ''PLAY''
       \<or> rtsp_is_resp headers \<and> has_sub headers ''200'' \<and> played outs (rtsp_get_cseq headers))"
  using handshake_play [OF assms(1) fresh_ok(1), of g evs e vs mirror_key c outs] assms(2-4)
  by (simp add: fresh_ok starts_play_def)

text \<open>Their hypotheses hold on concrete inputs.\<close>

definition sample_turn :: rtsp_env where
  "sample_turn = \<lparr> v_rand = [1, 2, 3, 4], v_stale = [], v_sock1 = 5, v_sock2 = 6, v_conn1 = True, v_conn2 = True,
     v_port1 = 40000, v_port2 = 40001, v_alloc = True, v_task = True, v_errno = None \<rparr>"

definition sample_play :: "byte list" where
  "sample_play = rtsp_lines (map str [''PLAY * RTSP/1.0'', ''CSeq: 2'', ''''])"

lemma sample_run:
  "d_rtsp_state (rc_dialog (fst (rtsp_handshake sample_hashes None [sample_turn] (rtsp_fresh dialog_init [Data sample_play] 0)))) = 2"
  by code_simp

lemma rtsp_dialogue_answers_witness:
  "map rtsp_get_cseq (responses (snd (rtsp_handshake sample_hashes None [sample_turn]
     (rtsp_fresh dialog_init [Data sample_play] 0)))) = [2]"
proof -
  let ?c = "rtsp_fresh dialog_init [Data sample_play] 0"
  have l: "length [sample_turn] < 2 ^ 31 - 1" by simp
  have h: "map snd (rtsp_heard sample_hashes None [sample_turn] ?c) = [(sample_play, [])]"
    by code_simp
  have f: "map rtsp_get_cseq (filter needs_answer (map fst [(sample_play, [])])) = [2]" by code_simp
  obtain c outs where r: "rtsp_handshake sample_hashes None [sample_turn] ?c = (c, outs)" by fastforce
  from rtsp_dialogue_answers [OF sample_hashes_ok l, of None dialog_init "[Data sample_play]" 0]
  show ?thesis unfolding r Let_def h prod.case snd_conv f by blast
qed

lemma rtsp_playback_safety_witness:
  "rtsp_heard sample_hashes None [sample_turn] (rtsp_fresh dialog_init [Data sample_play] 0) \<noteq> []"
proof -
  have "length [sample_turn] < 2 ^ 31 - 1" by simp
  from rtsp_playback_safety [OF sample_hashes_ok this surjective_pairing sample_run]
  obtain ms m where "rtsp_heard sample_hashes None [sample_turn] (rtsp_fresh dialog_init [Data sample_play] 0) = ms @ [m]" by blast
  then show ?thesis by (simp only: snoc_eq_iff_butlast not_False_eq_True simp_thms)
qed

end
