(* ===== verification/Ts.thy ===== *)
theory Ts
  imports Rtsp
begin

text \<open>
  The media connection (\<open>miplay.c\<close>: \<open>pes_extract_iv\<close>, \<open>is_adts\<close>, \<open>decrypt_ts_media\<close>,
  \<open>media_receive_task\<close>). The phone sends MPEG transport stream packets in RTP in interleaved
  frames. The task cuts the frames, strips the RTP header, decrypts the start of each audio
  PES in place and hands the bytes to the ring buffer of the decoder. \<open>mbedtls_aes_crypt_cbc\<close>
  is CBC, chained through the IV, around the block cipher \<open>D\<close>, a parameter. A C \<open>int\<close> is an
  \<open>int\<close>; none leaves the range of 32 bits here.
\<close>

definition TS_PKT_SIZE :: nat where "TS_PKT_SIZE = 188"
definition TS_SYNC_BYTE :: byte where "TS_SYNC_BYTE = 0x47"
definition TARGET_PID :: nat where "TARGET_PID = 0x1100"
definition ENCRYPT_PREFIX :: int where "ENCRYPT_PREFIX = 256"

subsection \<open>Decryption of the audio PES\<close>

definition pes_extract_iv :: "byte list \<Rightarrow> byte list option" where
  "pes_extract_iv pes =
     (if length pes < 9 then None
      else if pes ! 7 AND 0x01 = 0 then None
      else
        let cursor = 9 + unat (pes ! 8)
        in if length pes < cursor + 17 then None
           else if pes ! cursor AND 0x80 = 0 then None
           else Some (take 16 (drop (cursor + 1) pes)))"

definition is_adts :: "byte list \<Rightarrow> bool" where
  "is_adts p \<longleftrightarrow> 7 \<le> length p \<and> p ! 0 = 0xFF \<and> p ! 1 AND 0xF6 = 0xF0"

record pes_dec_state =
  st_iv :: "byte list"
  st_remaining :: int
  st_pes_pay_off :: int

definition pes_dec_init :: pes_dec_state where
  "pes_dec_init = \<lparr> st_iv = replicate 16 0, st_remaining = 0, st_pes_pay_off = 0 \<rparr>"

definition ts_payload_off :: "byte list \<Rightarrow> nat option" where
  \<comment> \<open>where the payload of an audio packet starts; \<open>None\<close> is a \<open>continue\<close>\<close>
  "ts_payload_off pkt =
     (let pid = unat (pkt ! 1 AND 0x1F) * 256 + unat (pkt ! 2);
          afc = drop_bit 4 (pkt ! 3) AND 0x03;
          pay_off = (if afc = 3 then 5 + unat (pkt ! 4) else 4)
      in if pkt ! 0 \<noteq> TS_SYNC_BYTE then None
         else if pid \<noteq> TARGET_PID then None
         else if afc = 0 \<or> afc = 2 then None
         else if TS_PKT_SIZE \<le> pay_off then None
         else Some pay_off)"

definition ts_pusi :: "byte list \<Rightarrow> bool" where
  "ts_pusi pkt \<longleftrightarrow> pkt ! 1 AND 0x40 \<noteq> 0"

definition pes_start :: "byte list \<Rightarrow> pes_dec_state \<Rightarrow> bool \<times> pes_dec_state" where
  \<comment> \<open>a packet that starts a PES; the flag is false on a \<open>continue\<close>\<close>
  "pes_start pes st =
     (if length pes < 9 \<or> take 4 pes \<noteq> [0, 0, 1, 0xC0] then (False, st \<lparr> st_remaining := 0 \<rparr>)
      else
        let pes_len = uint (rd16 pes 4);
            hdr_len = min (9 + uint (pes ! 8)) (int (length pes))
        in (True,
            case pes_extract_iv pes of
              Some iv \<Rightarrow> st \<lparr> st_iv := iv, st_pes_pay_off := hdr_len,
                st_remaining := min ENCRYPT_PREFIX (if 0 < pes_len then pes_len - hdr_len + 6 else ENCRYPT_PREFIX) \<rparr>
            | None \<Rightarrow> st \<lparr> st_remaining := 0, st_pes_pay_off := hdr_len \<rparr>))"

definition pes_decrypt :: "block_fun \<Rightarrow> byte list \<Rightarrow> nat \<Rightarrow> nat \<Rightarrow> pes_dec_state \<Rightarrow> byte list \<Rightarrow> pes_dec_state \<times> byte list" where
  \<comment> \<open>\<open>off\<close>: the payload in the packet; \<open>start\<close>: what to decrypt in the payload\<close>
  "pes_decrypt D stream_key off start st pkt =
     (let avail = int (length pkt - off) - int start
      in if st_remaining st \<le> 0 then (st, pkt)
         else if avail \<le> 0 then (st \<lparr> st_remaining := 0 \<rparr>, pkt)
         else
           let n = (let n = min avail (st_remaining st) in n - n mod int AES_BLOCK_LEN);
               (plain, iv) = cbc_dec (D stream_key) (st_iv st) (take (nat n) (drop (off + start) pkt))
           in if 0 < n
              then (st \<lparr> st_iv := iv, st_remaining := max 0 (st_remaining st - n) \<rparr>,
                    take (off + start) pkt @ plain @ drop (off + start + nat n) pkt)
              else (st, pkt))"

definition ts_packet :: "block_fun \<Rightarrow> byte list \<Rightarrow> pes_dec_state \<Rightarrow> byte list \<Rightarrow> pes_dec_state \<times> byte list" where
  "ts_packet D stream_key st pkt =
     (case ts_payload_off pkt of
        None \<Rightarrow> (st, pkt)
      | Some off \<Rightarrow>
          if ts_pusi pkt then
            (case pes_start (drop off pkt) st of
               (False, st1) \<Rightarrow> (st1, pkt)
             | (True, st1) \<Rightarrow> pes_decrypt D stream_key off (nat (st_pes_pay_off st1)) st1 pkt)
          else pes_decrypt D stream_key off 0 st pkt)"

function ts_packets :: "block_fun \<Rightarrow> byte list \<Rightarrow> pes_dec_state \<Rightarrow> byte list \<Rightarrow> byte list" where
  "ts_packets D stream_key st ts_buf =
     (if length ts_buf < TS_PKT_SIZE then ts_buf
      else let (st', pkt) = ts_packet D stream_key st (take TS_PKT_SIZE ts_buf)
           in pkt @ ts_packets D stream_key st' (drop TS_PKT_SIZE ts_buf))"
  by pat_completeness auto
termination
  by (relation "measure (\<lambda>(D, k, st, ts_buf). length ts_buf)") (auto simp: TS_PKT_SIZE_def)

declare ts_packets.simps [simp del]

definition decrypt_ts_media :: "block_fun \<Rightarrow> byte list \<Rightarrow> byte list \<Rightarrow> byte list" where
  "decrypt_ts_media D stream_key ts_buf = ts_packets D stream_key pes_dec_init ts_buf"

subsection \<open>The receive task\<close>

definition rtp_payload :: "byte list \<Rightarrow> byte list" where
  \<comment> \<open>the whole buffer when there is no RTP version 2 header or nothing is left\<close>
  "rtp_payload rtp_buf =
     (if rtp_buf ! 0 AND 0xC0 = 0x80 then
        let fixed = 12 + unat (rtp_buf ! 0 AND 0x0F) * 4;
            hdr_len = (if rtp_buf ! 0 AND 0x10 \<noteq> 0 \<and> fixed + 4 \<le> length rtp_buf
                       then fixed + 4 + unat (rd16 rtp_buf (fixed + 2)) * 4 else fixed);
            stop_at = int (length rtp_buf) - (if rtp_buf ! 0 AND 0x20 \<noteq> 0 then uint (last rtp_buf) else 0)
        in if int hdr_len < stop_at then take (nat stop_at - hdr_len) (drop hdr_len rtp_buf) else rtp_buf
      else rtp_buf)"

function recv_exact :: "nat \<Rightarrow> byte list \<Rightarrow> rx list \<Rightarrow> byte list option \<times> rx list" where
  \<comment> \<open>the inner loops; an exhausted list is the stop of the session during a timeout\<close>
  "recv_exact n acc evs =
     (if n \<le> length acc then (Some acc, evs)
      else case sock_recv (n - length acc) evs of
             (Data bs, evs') \<Rightarrow> if bs = [] then (None, evs') else recv_exact n (acc @ bs) evs'
           | (Fail e, evs') \<Rightarrow> if e = EAGAIN \<and> evs \<noteq> [] then recv_exact n acc evs' else (None, evs'))"
  by pat_completeness auto
termination
proof (relation "measure (\<lambda>(n, acc, evs). pending evs)", goal_cases)
  case (2 n acc evs x evs' bs)
  then have "sock_recv (n - length acc) evs = (Data bs, evs')" by simp
  from pending_recv [OF this] 2 show ?case by simp
next
  case (3 n acc evs x evs' e)
  then have "sock_recv (n - length acc) evs = (Fail e, evs')" by simp
  from sock_recv_progress [OF this] 3 show ?case by auto
qed simp

declare recv_exact.simps [simp del]

datatype media_out = Ring "byte list" | Dropped "byte list" | Playing

record media_turn =
  mt_paused :: bool \<comment> \<open>\<open>s_media_paused\<close> at the start of the turn\<close>
  mt_ring :: bool \<comment> \<open>the ring buffer takes the bytes\<close>

definition media_packet :: "block_fun \<Rightarrow> byte list option \<Rightarrow> media_turn \<Rightarrow> bool \<Rightarrow> byte list \<Rightarrow> bool \<times> media_out list" where
  \<comment> \<open>from the stripping of the header on; the flag is \<open>playing_reported\<close>\<close>
  "media_packet D stream_key t reported rtp_buf =
     (let ts = (case stream_key of None \<Rightarrow> rtp_payload rtp_buf | Some k \<Rightarrow> decrypt_ts_media D k (rtp_payload rtp_buf))
      in if ts = [] then (reported, [])
         else (reported \<or> \<not> mt_paused t,
               (if mt_paused t then [] else if mt_ring t then [Ring ts] else [Dropped ts])
               @ (if \<not> reported \<and> \<not> mt_paused t then [Playing] else [])))"

definition media_header :: "rx list \<Rightarrow> byte list option option \<times> rx list" where
  \<comment> \<open>\<open>None\<close>: leave the loop, \<open>Some None\<close>: \<open>continue\<close>\<close>
  "media_header evs =
     (case recv_exact 4 [] evs of
        (None, evs1) \<Rightarrow> (None, evs1)
      | (Some hdr, evs1) \<Rightarrow>
          if hdr ! 0 = 0x24 then (Some (Some hdr), evs1)
          else case sock_recv 1 evs1 of
                 (Data bs, evs2) \<Rightarrow>
                   if bs = [] then (None, evs2)
                   else if hd (tl hdr @ bs) = 0x24 then (Some (Some (tl hdr @ bs)), evs2)
                   else (Some None, evs2)
               | (Fail e, evs2) \<Rightarrow> (None, evs2))"

fun media_loop :: "block_fun \<Rightarrow> byte list option \<Rightarrow> media_turn list \<Rightarrow> bool \<Rightarrow> rx list \<Rightarrow> bool \<times> media_out list \<times> rx list" where
  \<comment> \<open>one element per turn; the list ends when \<open>s_running\<close> or the generation stops the loop\<close>
  "media_loop D stream_key [] reported evs = (reported, [], evs)"
| "media_loop D stream_key (t # ts) reported evs =
     (case media_header evs of
        (None, evs1) \<Rightarrow> (reported, [], evs1)
      | (Some None, evs1) \<Rightarrow> media_loop D stream_key ts reported evs1
      | (Some (Some hdr), evs1) \<Rightarrow>
          let rtp_len = unat (rd16 hdr 2)
          in if rtp_len < 12 \<or> 4096 < rtp_len then media_loop D stream_key ts reported evs1
             else case recv_exact rtp_len [] evs1 of
                    (None, evs2) \<Rightarrow> (reported, [], evs2)
                  | (Some rtp_buf, evs2) \<Rightarrow>
                      let (reported', outs) = media_packet D stream_key t reported rtp_buf;
                          (r, outs', evs3) = media_loop D stream_key ts reported' evs2
                      in (r, outs @ outs', evs3))"

definition media_cleanup :: "int \<Rightarrow> u32 \<Rightarrow> ctl \<Rightarrow> ctl \<times> bool" where
  \<comment> \<open>the end of the task: the session flags, and whether the stop callback is called\<close>
  "media_cleanup client_sock generation c =
     (if s_media_generation c = generation then (miplay_mark_media_session_closed client_sock generation c, True)
      else (c, False))"

subsection \<open>RTP packets\<close>

datatype rtp = Rtp_packet byte "byte list" "byte list" "(byte list \<times> byte list) option" "byte list" nat

fun rtp_ok :: "rtp \<Rightarrow> bool" where
  \<comment> \<open>first byte, the other 11 fixed bytes, contributing sources, extension, payload, padding\<close>
  "rtp_ok (Rtp_packet b0 f csrc ext p pad) \<longleftrightarrow>
     b0 AND 0xC0 = 0x80 \<and> length f = 11 \<and> length csrc = 4 * unat (b0 AND 0x0F)
     \<and> (b0 AND 0x10 \<noteq> 0 \<longleftrightarrow> ext \<noteq> None)
     \<and> (case ext of None \<Rightarrow> True | Some (prof, w) \<Rightarrow> length prof = 2 \<and> 4 dvd length w \<and> length w div 4 < 2 ^ 16)
     \<and> (b0 AND 0x20 \<noteq> 0 \<longleftrightarrow> 0 < pad) \<and> pad < 256 \<and> p \<noteq> []"

fun rtp_bytes :: "rtp \<Rightarrow> byte list" where
  "rtp_bytes (Rtp_packet b0 f csrc ext p pad) =
     b0 # f @ csrc @ (case ext of None \<Rightarrow> [] | Some (prof, w) \<Rightarrow> prof @ be16 (of_nat (length w div 4)) @ w)
     @ p @ (if pad = 0 then [] else replicate (pad - 1) 0 @ [of_nat pad])"

fun rtp_data :: "rtp \<Rightarrow> byte list" where
  "rtp_data (Rtp_packet b0 f csrc ext p pad) = p"

lemma uint_of_nat_byte: "n < 256 \<Longrightarrow> uint (of_nat n :: byte) = int n"
  by (simp add: uint_nat unat_of_nat)

lemma rtp_payload_bytes: "rtp_ok r \<Longrightarrow> rtp_payload (rtp_bytes r) = rtp_data r"
proof (cases r)
  case (Rtp_packet b0 f csrc ext p pad)
  assume "rtp_ok r"
  note ok = this [unfolded Rtp_packet, simplified]
  define x where "x = (case ext of None \<Rightarrow> [] | Some (prof, w) \<Rightarrow> prof @ be16 (of_nat (length w div 4)) @ w)"
  define t where "t = (if pad = 0 then [] else replicate (pad - 1) (0::byte) @ [of_nat pad])"
  define buf where "buf = b0 # f @ csrc @ x @ p @ t"
  have bytes: "rtp_bytes r = buf" by (simp add: Rtp_packet x_def t_def buf_def)
  have head: "12 + unat (b0 AND 0x0F) * 4 = length (b0 # f @ csrc)" using ok by simp
  have b0: "buf ! 0 = b0" by (simp add: buf_def)
  have len: "length t = pad" by (simp add: t_def)
  have hdr: "(if b0 AND 0x10 \<noteq> 0 \<and> length (b0 # f @ csrc) + 4 \<le> length buf
      then length (b0 # f @ csrc) + 4 + unat (rd16 buf (length (b0 # f @ csrc) + 2)) * 4 else length (b0 # f @ csrc))
      = length (b0 # f @ csrc @ x)"
  proof (cases ext)
    case None
    with ok show ?thesis by (simp add: x_def)
  next
    case (Some e)
    obtain prof w where e: "e = (prof, w)" by (cases e)
    with Some ok have w: "length prof = 2" "4 dvd length w" "length w div 4 < 2 ^ 16" "b0 AND 0x10 \<noteq> 0" by auto
    have xs: "x = prof @ be16 (of_nat (length w div 4)) @ w" by (simp add: x_def Some e)
    have "buf = (b0 # f @ csrc @ prof) @ be16 (of_nat (length w div 4)) @ (w @ p @ t)" by (simp add: buf_def xs)
    then have "rd16 buf (length (b0 # f @ csrc) + 2) = of_nat (length w div 4)"
      using w(1) by (simp only: rd16_be16 length_append length_Cons add.assoc add_Suc)
    moreover have "unat (of_nat (length w div 4) :: u16) = length w div 4"
      unfolding unat_of_nat using w(3) by (intro mod_less) simp
    moreover have "length w div 4 * 4 = length w" using w(2) by simp
    moreover have "length (b0 # f @ csrc) + 4 \<le> length buf" using w(1) by (simp add: buf_def xs)
    moreover have "length x = 4 + length w" using w(1) by (simp add: xs)
    ultimately show ?thesis using w(4) by simp
  qed
  have padlen: "(if b0 AND 0x20 \<noteq> 0 then uint (last buf) else 0) = int pad"
    using ok uint_of_nat_byte [of pad] by (auto simp: buf_def t_def)
  have pos: "0 < length p" using ok by simp
  have total: "int (length buf) - int pad = int (length (b0 # f @ csrc @ x @ p))" using len by (simp add: buf_def)
  have "take (nat (int (length (b0 # f @ csrc @ x @ p))) - length (b0 # f @ csrc @ x)) (drop (length (b0 # f @ csrc @ x)) buf) = p"
    by (simp add: buf_def)
  then have "rtp_payload buf = p"
    unfolding rtp_payload_def b0 Let_def head hdr padlen total using ok pos by simp
  then show ?thesis unfolding bytes by (simp add: Rtp_packet)
qed

lemma recv_exact_data:
  assumes "list_all rx_ok evs" and "length acc \<le> n" and "n \<le> length (acc @ data evs)"
  shows "\<exists>evs'. recv_exact n acc evs = (Some (take n (acc @ data evs)), evs') \<and> list_all rx_ok evs' \<and> data evs' = drop n (acc @ data evs)"
  using assms
proof (induction n acc evs rule: recv_exact.induct)
  case (1 n acc evs)
  show ?case
  proof (cases "n \<le> length acc")
    case True
    with 1 have "n = length acc" by simp
    with "1.prems"(1) show ?thesis by (simp add: recv_exact.simps [of "length acc" acc evs])
  next
    case False
    obtain x evs1 where x: "sock_recv (n - length acc) evs = (x, evs1)" by fastforce
    have c: "0 < n - length acc" using False by simp
    note d = recv_data [OF x c "1.prems"(1)]
    show ?thesis
    proof (cases x)
      case (Data bs)
      have le: "length bs \<le> n - length acc" using x Data by (induction "n - length acc" evs rule: sock_recv.induct) (auto split: if_splits)
      have bs: "bs \<noteq> []" "data evs = bs @ data evs1" "list_all rx_ok evs1" using d Data by simp_all
      have "length (acc @ bs) \<le> n" "n \<le> length ((acc @ bs) @ data evs1)" using le False "1.prems" bs by auto
      from "1.IH"(1) [OF False x [symmetric] Data bs(1) bs(3) this] bs show ?thesis
        using x Data False by (simp add: recv_exact.simps [of n acc evs])
    next
      case (Fail e)
      have e: "e = EAGAIN" "data evs1 = data evs" "list_all rx_ok evs1" using d Fail by simp_all
      have "evs \<noteq> []" using "1.prems"(3) False by auto
      with "1.IH"(2) [OF False x [symmetric] Fail _ e(3) "1.prems"(2)] e "1.prems"(3) show ?thesis
        using x Fail False by (simp add: recv_exact.simps [of n acc evs])
    qed
  qed
qed

definition cipher_len :: "block_fun \<Rightarrow> byte list \<Rightarrow> bool" where
  \<comment> \<open>the block cipher answers with blocks\<close>
  "cipher_len D key \<longleftrightarrow> (\<forall>b. length b = AES_BLOCK_LEN \<longrightarrow> length (D key b) = AES_BLOCK_LEN)"

lemma cbc_dec_length:
  "cipher_len D key \<Longrightarrow> length iv = AES_BLOCK_LEN \<Longrightarrow> length ct mod AES_BLOCK_LEN = 0 \<Longrightarrow> cbc_dec (D key) iv ct = (ps, iv') \<Longrightarrow>
   length ps = length ct \<and> length iv' = AES_BLOCK_LEN"
proof (induction "length ct" arbitrary: ct iv ps iv' rule: less_induct)
  case less
  show ?case
  proof (cases "length ct < AES_BLOCK_LEN")
    case True
    with less.prems show ?thesis by (auto simp: cbc_dec.simps [of "D key" iv])
  next
    case False
    let ?c = "take AES_BLOCK_LEN ct"
    obtain qs iv2 where q: "cbc_dec (D key) ?c (drop AES_BLOCK_LEN ct) = (qs, iv2)" by fastforce
    have c: "length ?c = AES_BLOCK_LEN" using False by simp
    have "length (drop AES_BLOCK_LEN ct) mod AES_BLOCK_LEN = 0"
      using less.prems(3) False by (simp add: mod_if [of "length ct"] not_less)
    from less.hyps [OF _ less.prems(1) c this q] False
    have "length qs = length (drop AES_BLOCK_LEN ct)" "length iv2 = AES_BLOCK_LEN" by (simp_all add: AES_BLOCK_LEN_def)
    moreover have "length (D key ?c) = AES_BLOCK_LEN" using less.prems(1) c by (simp add: cipher_len_def)
    ultimately show ?thesis using less.prems False q by (auto simp: cbc_dec.simps [of "D key" iv] Let_def)
  qed
qed

lemma extract_iv_length: "pes_extract_iv pes = Some iv \<Longrightarrow> length iv = AES_BLOCK_LEN"
  by (auto simp: pes_extract_iv_def Let_def AES_BLOCK_LEN_def split: if_splits)

lemma pes_decrypt_frame:
  assumes "cipher_len D key" and "length (st_iv st) = AES_BLOCK_LEN" and "off \<le> length pkt"
    and "pes_decrypt D key off start st pkt = (st', pkt')"
  shows "length pkt' = length pkt \<and> length (st_iv st') = AES_BLOCK_LEN \<and> take (off + start) pkt' = take (off + start) pkt"
proof -
  define n where "n = min (int (length pkt - off) - int start) (st_remaining st)
    - min (int (length pkt - off) - int start) (st_remaining st) mod int AES_BLOCK_LEN"
  obtain plain iv where c: "cbc_dec (D key) (st_iv st) (take (nat n) (drop (off + start) pkt)) = (plain, iv)" by fastforce
  have eq: "pes_decrypt D key off start st pkt =
      (if st_remaining st \<le> 0 then (st, pkt)
       else if int (length pkt - off) - int start \<le> 0 then (st \<lparr> st_remaining := 0 \<rparr>, pkt)
       else if 0 < n then (st \<lparr> st_iv := iv, st_remaining := max 0 (st_remaining st - n) \<rparr>,
         take (off + start) pkt @ plain @ drop (off + start + nat n) pkt)
       else (st, pkt))"
    unfolding pes_decrypt_def Let_def n_def [symmetric] c prod.case ..
  have le: "n \<le> int (length pkt - off) - int start" if "0 < min (int (length pkt - off) - int start) (st_remaining st)"
    using that by (simp add: n_def AES_BLOCK_LEN_def)
  have "int AES_BLOCK_LEN dvd n" by (simp add: n_def)
  then have m: "nat n mod AES_BLOCK_LEN = 0" by (auto simp: AES_BLOCK_LEN_def dvd_def nat_mult_distrib)
  show ?thesis
  proof (cases "st_remaining st \<le> 0 \<or> int (length pkt - off) - int start \<le> 0 \<or> n \<le> 0")
    case True
    with assms(2,4) show ?thesis by (auto simp: eq split: if_splits)
  next
    case False
    then have n: "0 < n" "n \<le> int (length pkt - off) - int start" using le by auto
    then have "nat n + start \<le> length pkt - off" by linarith
    then have fits: "off + start + nat n \<le> length pkt" using assms(3) by linarith
    then have "length (take (nat n) (drop (off + start) pkt)) = nat n" by simp
    with cbc_dec_length [OF assms(1,2) _ c] m have l: "length plain = nat n" "length iv = AES_BLOCK_LEN" by simp_all
    have "pes_decrypt D key off start st pkt = (st \<lparr> st_iv := iv, st_remaining := max 0 (st_remaining st - n) \<rparr>,
        take (off + start) pkt @ plain @ drop (off + start + nat n) pkt)"
      using False n unfolding eq by simp
    with assms(4) l fits show ?thesis by auto
  qed
qed

lemma pes_start_iv: "pes_start pes st = (b, st') \<Longrightarrow> length (st_iv st) = AES_BLOCK_LEN \<Longrightarrow> length (st_iv st') = AES_BLOCK_LEN"
  by (auto simp: pes_start_def Let_def extract_iv_length split: if_splits option.splits)

lemma ts_packet_frame:
  assumes "cipher_len D key" and "length (st_iv st) = AES_BLOCK_LEN" and "length pkt = TS_PKT_SIZE"
    and "ts_packet D key st pkt = (st', pkt')"
  shows "length pkt' = TS_PKT_SIZE \<and> length (st_iv st') = AES_BLOCK_LEN
    \<and> take 4 pkt' = take 4 pkt \<and> (ts_payload_off pkt = None \<longrightarrow> pkt' = pkt)"
proof (cases "ts_payload_off pkt")
  case None
  with assms show ?thesis by (simp add: ts_packet_def)
next
  case (Some off)
  then have off: "4 \<le> off" "off \<le> length pkt"
    using assms(3) by (auto simp: ts_payload_off_def Let_def split: if_splits)
  have cut: "take 4 a = take 4 b" if "take (off + k) a = take (off + k) b" for k and a b :: "byte list"
  proof -
    have "take 4 c = take 4 (take (off + k) c)" for c :: "byte list" using off(1) by (simp add: min_def)
    with that show ?thesis by metis
  qed
  have *: "length pkt' = TS_PKT_SIZE \<and> length (st_iv st') = AES_BLOCK_LEN \<and> take 4 pkt' = take 4 pkt"
    if "pes_decrypt D key off k s pkt = (st', pkt')" "length (st_iv s) = AES_BLOCK_LEN" for k s
  proof -
    note f = pes_decrypt_frame [OF assms(1) that(2) off(2) that(1)]
    then have "take 4 pkt' = take 4 pkt" by (intro cut [of k]) simp
    with f assms(3) show ?thesis by simp
  qed
  show ?thesis
  proof (cases "ts_pusi pkt")
    case False
    with Some assms * [of 0 st] show ?thesis by (simp add: ts_packet_def)
  next
    case True
    obtain b st1 where s: "pes_start (drop off pkt) st = (b, st1)" by fastforce
    from pes_start_iv [OF s assms(2)] have "length (st_iv st1) = AES_BLOCK_LEN" .
    with Some True s assms(3,4) * [of "nat (st_pes_pay_off st1)" st1] show ?thesis
      by (cases b) (auto simp: ts_packet_def)
  qed
qed

lemma ts_packets_length: "cipher_len D key \<Longrightarrow> length (st_iv st) = AES_BLOCK_LEN \<Longrightarrow> length (ts_packets D key st buf) = length buf"
proof (induction "length buf" arbitrary: buf st rule: less_induct)
  case less
  show ?case
  proof (cases "length buf < TS_PKT_SIZE")
    case True
    then show ?thesis by (simp add: ts_packets.simps [of D key st])
  next
    case False
    obtain st' pkt where p: "ts_packet D key st (take TS_PKT_SIZE buf) = (st', pkt)" by fastforce
    have "length (take TS_PKT_SIZE buf) = TS_PKT_SIZE" using False by simp
    note f = ts_packet_frame [OF less.prems this p]
    have "length (drop TS_PKT_SIZE buf) < length buf" using False by (simp add: TS_PKT_SIZE_def)
    from less.hyps [OF this less.prems(1), of st'] f False
    show ?thesis by (simp add: ts_packets.simps [of D key st] p)
  qed
qed

lemma decrypt_ts_length: "cipher_len D key \<Longrightarrow> length (decrypt_ts_media D key buf) = length buf"
  by (simp add: decrypt_ts_media_def ts_packets_length pes_dec_init_def AES_BLOCK_LEN_def)

subsection \<open>One PES start\<close>

lemma extract_iv_eq:
  assumes "length hdr = 9 + unat (hdr ! 8)"
  shows "pes_extract_iv (hdr @ es) =
    (if hdr ! 7 AND 1 \<noteq> 0 \<and> 17 \<le> length es \<and> es ! 0 AND 0x80 \<noteq> 0 then Some (take 16 (drop 1 es)) else None)"
proof -
  have "(hdr @ es) ! 7 = hdr ! 7" "(hdr @ es) ! 8 = hdr ! 8" using assms by (simp_all add: nth_append)
  moreover have "(hdr @ es) ! (9 + unat (hdr ! 8)) = es ! 0" "drop (9 + unat (hdr ! 8) + 1) (hdr @ es) = drop 1 es"
    unfolding assms [symmetric] by (simp_all add: nth_append)
  ultimately show ?thesis using assms by (auto simp: pes_extract_iv_def Let_def)
qed

definition pes_protected :: "byte list \<Rightarrow> byte list \<Rightarrow> nat" where
  \<comment> \<open>how many bytes behind the header are decrypted: whole blocks of the first 256 bytes of
     the PES, as far as they are in this packet\<close>
  "pes_protected hdr es =
     (let l = uint (rd16 hdr 4); m = min (int (length es)) (min 256 (if 0 < l then l - int (length hdr) + 6 else 256))
      in if 0 < m then 16 * (nat m div 16) else 0)"

lemma pes_start_packet:
  assumes pkt: "pkt = pre @ hdr @ es" "length pkt = TS_PKT_SIZE" "ts_payload_off pkt = Some (length pre)" "ts_pusi pkt"
    and hdr: "take 4 hdr = [0, 0, 1, 0xC0]" "length hdr = 9 + unat (hdr ! 8)"
  shows "snd (ts_packet D key st pkt) =
    (if hdr ! 7 AND 1 \<noteq> 0 \<and> 17 \<le> length es \<and> es ! 0 AND 0x80 \<noteq> 0
     then pre @ hdr @ fst (cbc_dec (D key) (take 16 (drop 1 es)) (take (pes_protected hdr es) es)) @ drop (pes_protected hdr es) es
     else pkt)"
proof -
  define l where "l = uint (rd16 hdr 4)"
  have l: "uint (rd16 (hdr @ es) 4) = l" using rd16_append [of 4 hdr es] hdr by (simp add: l_def)
  have h8: "(hdr @ es) ! 8 = hdr ! 8" using hdr by (simp add: nth_append)
  have start: "take 4 (hdr @ es) = [0, 0, 1, 0xC0]" using hdr by simp
  have hl: "min (9 + uint ((hdr @ es) ! 8)) (int (length (hdr @ es))) = int (length hdr)"
  proof -
    have "9 + uint (hdr ! 8) = int (length hdr)" unfolding hdr(2) by simp
    then show ?thesis unfolding h8 by simp
  qed
  have ge: "\<not> (length (hdr @ es) < 9 \<or> take 4 (hdr @ es) \<noteq> [0, 0, 1, 0xC0])" unfolding start using hdr(2) by simp
  have d: "drop (length pre) pkt = hdr @ es" using pkt(1) by simp
  have s: "pes_start (hdr @ es) st = (True,
            case pes_extract_iv (hdr @ es) of
              Some iv \<Rightarrow> st \<lparr> st_iv := iv, st_pes_pay_off := int (length hdr),
                st_remaining := min ENCRYPT_PREFIX (if 0 < l then l - int (length hdr) + 6 else ENCRYPT_PREFIX) \<rparr>
            | None \<Rightarrow> st \<lparr> st_remaining := 0, st_pes_pay_off := int (length hdr) \<rparr>)"
    unfolding pes_start_def using ge by (simp only: if_False Let_def l hl)
  show ?thesis
  proof (cases "hdr ! 7 AND 1 \<noteq> 0 \<and> 17 \<le> length es \<and> es ! 0 AND 0x80 \<noteq> 0")
    case False
    then have "pes_extract_iv (hdr @ es) = None" unfolding extract_iv_eq [OF hdr(2)] by (simp only: if_False)
    with s have "ts_packet D key st pkt = pes_decrypt D key (length pre) (length hdr) (st \<lparr> st_remaining := 0, st_pes_pay_off := int (length hdr) \<rparr>) pkt"
      using pkt by (simp add: ts_packet_def d)
    also have "\<dots> = (st \<lparr> st_remaining := 0, st_pes_pay_off := int (length hdr) \<rparr>, pkt)" by (simp add: pes_decrypt_def Let_def)
    finally show ?thesis using False by (simp only: snd_conv if_False)
  next
    case True
    let ?iv = "take 16 (drop 1 es)"
    define m where "m = min (int (length es)) (min 256 (if 0 < l then l - int (length hdr) + 6 else 256))"
    define r where "r = min ENCRYPT_PREFIX (if 0 < l then l - int (length hdr) + 6 else ENCRYPT_PREFIX)"
    define st1 where "st1 = st \<lparr> st_iv := ?iv, st_pes_pay_off := int (length hdr), st_remaining := r \<rparr>"
    have p: "pes_protected hdr es = (if 0 < m then 16 * (nat m div 16) else 0)"
      unfolding pes_protected_def Let_def m_def l_def ..
    have "pes_extract_iv (hdr @ es) = Some ?iv" unfolding extract_iv_eq [OF hdr(2)] using True by (simp only: if_True simp_thms)
    with s have t: "ts_packet D key st pkt = pes_decrypt D key (length pre) (length hdr) st1 pkt"
      using pkt by (simp add: ts_packet_def d st1_def r_def)
    have av: "int (length pkt - length pre) - int (length hdr) = int (length es)" using pkt(1) by simp
    have m: "m = min (int (length es)) (st_remaining st1)" by (simp add: m_def st1_def r_def ENCRYPT_PREFIX_def)
    have es: "0 < length es" using True by auto
    have id: "cbc_dec (D key) ?iv [] = ([], ?iv)" by (subst cbc_dec.simps) (simp add: AES_BLOCK_LEN_def)
    have blk: "m - m mod int AES_BLOCK_LEN = 16 * (m div 16)" by (simp add: AES_BLOCK_LEN_def minus_mod_eq_mult_div)
    show ?thesis
    proof (cases "0 < m")
      case False
      then have "st_remaining st1 \<le> 0" using m es by linarith
      then have "snd (ts_packet D key st pkt) = pkt" unfolding t pes_decrypt_def by simp
      then show ?thesis using True False p id pkt(1) by simp
    next
      case pos: True
      then have rem: "\<not> st_remaining st1 \<le> 0" using m by linarith
      have nat: "nat (m - m mod int AES_BLOCK_LEN) = 16 * (nat m div 16)"
      proof -
      have "nat (16 * (m div 16)) = nat 16 * nat (m div 16)" using pos by (intro nat_mult_distrib) simp
      also have "nat (m div 16) = nat m div nat 16" using pos by (intro nat_div_distrib) simp
      finally show ?thesis unfolding blk by simp
    qed
      obtain plain iv' where c: "cbc_dec (D key) ?iv (take (16 * (nat m div 16)) es) = (plain, iv')" by fastforce
      have off: "drop (length pre + length hdr) pkt = es" "take (length pre + length hdr) pkt = pre @ hdr"
        "drop (length pre + length hdr + k) pkt = drop k es" for k
        using pkt(1) by simp_all
      have iv: "st_iv st1 = ?iv" by (simp add: st1_def)
      have "snd (pes_decrypt D key (length pre) (length hdr) st1 pkt) =
          (if 0 < m - m mod int AES_BLOCK_LEN then pre @ hdr @ plain @ drop (16 * (nat m div 16)) es else pkt)"
        unfolding pes_decrypt_def Let_def av m [symmetric] off iv nat c using rem es by simp
      moreover have "0 < m - m mod int AES_BLOCK_LEN \<or> 16 * (nat m div 16) = 0"
      proof (cases "m < 16")
        case True
        with pos show ?thesis by simp
      next
        case False
        then have "0 < m div 16" by (simp add: pos_imp_zdiv_pos_iff)
        then show ?thesis unfolding blk by simp
      qed
      ultimately have "snd (ts_packet D key st pkt) = pre @ hdr @ plain @ drop (16 * (nat m div 16)) es"
        unfolding t using c id pkt(1) by (auto split: if_splits)
      then show ?thesis using True pos p c by simp
    qed
  qed
qed

subsection \<open>A stream of frames\<close>

definition media_bytes :: "block_fun \<Rightarrow> byte list option \<Rightarrow> rtp \<Rightarrow> byte list" where
  "media_bytes D key r = (case key of None \<Rightarrow> rtp_data r | Some k \<Rightarrow> decrypt_ts_media D k (rtp_data r))"

fun rings :: "media_out list \<Rightarrow> byte list list" where
  "rings [] = []"
| "rings (Ring b # os) = b # rings os"
| "rings (Dropped b # os) = rings os"
| "rings (Playing # os) = rings os"

lemma rings_append [simp]: "rings (a @ b) = rings a @ rings b"
  by (induction a rule: rings.induct) auto

definition frame_bytes :: "byte \<times> rtp \<Rightarrow> byte list" where
  "frame_bytes f = item_bytes (Rtp (fst f) (rtp_bytes (snd f)))"

lemma rtp_length: "rtp_ok r \<Longrightarrow> 12 \<le> length (rtp_bytes r)"
  by (cases r) auto

lemma media_header_frame:
  assumes "list_all rx_ok evs" and "data evs = item_bytes (Rtp ch p) @ s" and "length p \<le> 4096"
  obtains hdr evs1 evs2 where "media_header evs = (Some (Some hdr), evs1)" "unat (rd16 hdr 2) = length p"
    "recv_exact (length p) [] evs1 = (Some p, evs2)" "list_all rx_ok evs2" "data evs2 = s"
proof -
  let ?h = "0x24 # ch # be16 (of_nat (length p))"
  have "4 \<le> length ([] @ data evs)" using assms(2) by simp
  from recv_exact_data [OF assms(1) _ this]
  obtain evs1 where r: "recv_exact 4 [] evs = (Some (take 4 (data evs)), evs1)" "list_all rx_ok evs1" "data evs1 = drop 4 (data evs)"
    by auto
  have h: "take 4 (data evs) = ?h" "drop 4 (data evs) = p @ s" using assms(2) by (simp_all add: numeral_eq_Suc)
  have len: "unat (rd16 ?h 2) = length p"
  proof -
    have "rd16 ([0x24, ch] @ be16 (of_nat (length p)) @ []) 2 = of_nat (length p)" by (rule rd16_be16) simp
    then show ?thesis using assms(3) by (simp add: unat_of_nat)
  qed
  from recv_exact_data [OF r(2), of "[]" "length p"] r(3) h(2)
  obtain evs2 where b: "recv_exact (length p) [] evs1 = (Some p, evs2)" "list_all rx_ok evs2" "data evs2 = s" by auto
  have "media_header evs = (Some (Some ?h), evs1)" using r(1) h(1) by (simp add: media_header_def)
  from this len b show thesis by (rule that)
qed

definition key_len :: "block_fun \<Rightarrow> byte list option \<Rightarrow> bool" where
  "key_len D key \<longleftrightarrow> (case key of None \<Rightarrow> True | Some k \<Rightarrow> cipher_len D k)"

lemma media_bytes_ne: "rtp_ok r \<Longrightarrow> key_len D key \<Longrightarrow> media_bytes D key r \<noteq> []"
proof -
  assume r: "rtp_ok r" and k: "key_len D key"
  have "length (media_bytes D key r) = length (rtp_data r)"
    using k by (auto simp: media_bytes_def key_len_def decrypt_ts_length split: option.splits)
  moreover have "rtp_data r \<noteq> []" using r by (cases r) auto
  ultimately show ?thesis by auto
qed

lemma media_packet_rings:
  assumes "rtp_ok r" and "key_len D key" and "media_packet D key t rep (rtp_bytes r) = (rep', outs)"
  shows "rings outs = (if \<not> mt_paused t \<and> mt_ring t then [media_bytes D key r] else [])"
proof -
  have "(case key of None \<Rightarrow> rtp_payload (rtp_bytes r) | Some k \<Rightarrow> decrypt_ts_media D k (rtp_payload (rtp_bytes r))) = media_bytes D key r"
    using assms(1) by (simp add: media_bytes_def rtp_payload_bytes split: option.split)
  with assms(3) media_bytes_ne [OF assms(1,2)] show ?thesis by (auto simp: media_packet_def Let_def)
qed

lemma media_loop_frames:
  assumes "key_len D key" and "list_all (\<lambda>f. rtp_ok (snd f) \<and> length (rtp_bytes (snd f)) \<le> 4096) fs"
    and "length ts = length fs" and "list_all rx_ok evs" and "data evs = concat (map frame_bytes fs) @ s"
  shows "case media_loop D key ts rep evs of (rep', outs, evs') \<Rightarrow>
    rings outs = map (\<lambda>(t, f). media_bytes D key (snd f)) (filter (\<lambda>(t, f). \<not> mt_paused t \<and> mt_ring t) (zip ts fs)) \<and> data evs' = s"
  using assms(2-5)
proof (induction ts arbitrary: fs rep evs)
  case Nil
  then show ?case by simp
next
  case (Cons t ts)
  then obtain f fs' where fs: "fs = f # fs'" by (cases fs) auto
  with Cons.prems have f: "rtp_ok (snd f)" "length (rtp_bytes (snd f)) \<le> 4096"
    and d: "data evs = item_bytes (Rtp (fst f) (rtp_bytes (snd f))) @ concat (map frame_bytes fs') @ s"
    by (simp_all add: frame_bytes_def [of f])
  obtain hdr evs1 evs2 where h: "media_header evs = (Some (Some hdr), evs1)" "unat (rd16 hdr 2) = length (rtp_bytes (snd f))"
    "recv_exact (length (rtp_bytes (snd f))) [] evs1 = (Some (rtp_bytes (snd f)), evs2)" "list_all rx_ok evs2"
    "data evs2 = concat (map frame_bytes fs') @ s"
    by (rule media_header_frame [OF Cons.prems(3) d f(2)])
  obtain rep1 o1 where p: "media_packet D key t rep (rtp_bytes (snd f)) = (rep1, o1)" by fastforce
  obtain rep2 o2 evs3 where l: "media_loop D key ts rep1 evs2 = (rep2, o2, evs3)" by (metis prod_cases3)
  have "media_loop D key (t # ts) rep evs = (rep2, o1 @ o2, evs3)"
    using h p l rtp_length [OF f(1)] f(2) by (simp add: Let_def)
  with Cons.IH [of fs' evs2 rep1] Cons.prems(1,2) h(4,5) fs l media_packet_rings [OF f(1) assms(1) p] show ?case
    by simp
qed

subsection \<open>Properties\<close>

text \<open>What \<open>decrypt_ts_media\<close> does to a packet that starts an audio PES. When the
  extension flag is set and the first byte behind the PES header has its top bit set, the
  next 16 bytes behind it are the IV, and the whole blocks of the first 256 bytes of the PES
  behind the header, these 17 included, are replaced by their CBC decryption; otherwise the
  packet is left alone. The private data inside the header is never read.\<close>

theorem pes_start_spec:
  assumes "pkt = pre @ hdr @ es" and "length pkt = TS_PKT_SIZE" and "ts_payload_off pkt = Some (length pre)" and "ts_pusi pkt"
    and "take 4 hdr = [0, 0, 1, 0xC0]" and "length hdr = 9 + unat (hdr ! 8)"
  shows "snd (ts_packet D key st pkt) =
    (if hdr ! 7 AND 1 \<noteq> 0 \<and> 17 \<le> length es \<and> es ! 0 AND 0x80 \<noteq> 0
     then pre @ hdr @ fst (cbc_dec (D key) (take 16 (drop 1 es)) (take (pes_protected hdr es) es)) @ drop (pes_protected hdr es) es
     else pkt)"
  using assms by (rule pes_start_packet)

text \<open>C9: The media connection is lossless and keeps the order. Well-formed RTP packets (with
  contributing sources, an extension or padding) in interleaved frames of at most 4096 bytes,
  cut into TCP segments in any way with any timeouts between, put exactly their payloads,
  decrypted under the key of the session, into the ring buffer; the packets of a pause are
  read and dropped, as are those the ring buffer has no room for.\<close>

theorem media_stream_lossless:
  assumes "key_len D key" and "list_all (\<lambda>f. rtp_ok (snd f) \<and> length (rtp_bytes (snd f)) \<le> 4096) fs"
    and "length ts = length fs" and "list_all rx_ok evs" and "data evs = concat (map frame_bytes fs) @ s"
  shows "case media_loop D key ts False evs of (reported, outs, evs') \<Rightarrow>
    rings outs = map (\<lambda>(t, f). media_bytes D key (snd f)) (filter (\<lambda>(t, f). \<not> mt_paused t \<and> mt_ring t) (zip ts fs)) \<and> data evs' = s"
  using assms by (rule media_loop_frames)

text \<open>Their hypotheses hold on concrete inputs.\<close>

definition sample_pes :: "byte list" where
  "sample_pes = [0, 0, 1, 0xC0, 0, 0, 0x80, 1, 0]"

lemma pes_start_spec_witness:
  "snd (ts_packet (\<lambda>k b. b) [] pes_dec_init ([0x47, 0x51, 0, 0x10] @ sample_pes @ replicate 175 0x80))
     \<noteq> [0x47, 0x51, 0, 0x10] @ sample_pes @ replicate 175 0x80"
proof -
  let ?es = "replicate 175 0x80 :: byte list"
  let ?pkt = "[0x47, 0x51, 0, 0x10] @ sample_pes @ ?es"
  have p: "pes_protected sample_pes ?es = 160"
    by (simp add: pes_protected_def sample_pes_def rd16_def)
  have f: "ts_payload_off ?pkt = Some (length [0x47, 0x51, 0, 0x10 :: byte])" "ts_pusi ?pkt"
    by (simp_all add: ts_payload_off_def ts_pusi_def sample_pes_def TS_SYNC_BYTE_def TARGET_PID_def TS_PKT_SIZE_def)
  have e: "sample_pes ! 7 AND 1 \<noteq> 0 \<and> 17 \<le> length ?es \<and> ?es ! 0 AND 0x80 \<noteq> 0" by (simp add: sample_pes_def)
  have "hd (fst (cbc_dec (\<lambda>b. b) (take 16 (drop 1 ?es)) (take 160 ?es))) = 0"
    by (subst cbc_dec.simps) (simp add: AES_BLOCK_LEN_def xor_block_def Let_def numeral_eq_Suc split: prod.splits)
  moreover have "fst (cbc_dec (\<lambda>b. b) (take 16 (drop 1 ?es)) (take 160 ?es)) \<noteq> []"
    by (subst cbc_dec.simps) (simp add: AES_BLOCK_LEN_def xor_block_def Let_def numeral_eq_Suc split: prod.splits)
  ultimately have n: "fst (cbc_dec (\<lambda>b. b) (take 16 (drop 1 ?es)) (take 160 ?es)) @ drop 160 ?es \<noteq> ?es"
    by (auto dest!: arg_cong [where f = hd])
  have "snd (ts_packet (\<lambda>k b. b) [] pes_dec_init ?pkt)
      = [0x47, 0x51, 0, 0x10] @ sample_pes @ fst (cbc_dec (\<lambda>b. b) (take 16 (drop 1 ?es)) (take 160 ?es)) @ drop 160 ?es"
    by (subst pes_start_spec [OF refl _ f]) (use e p in \<open>simp_all add: TS_PKT_SIZE_def sample_pes_def\<close>)
  with n show ?thesis by simp
qed

definition sample_rtp :: rtp where
  "sample_rtp = Rtp_packet 0x80 (replicate 11 1) [] None [7, 8, 9] 0"

lemma media_stream_lossless_witness:
  "rings (fst (snd (media_loop (\<lambda>k b. b) None [\<lparr> mt_paused = False, mt_ring = True \<rparr>, \<lparr> mt_paused = True, mt_ring = True \<rparr>] False
     [Data (take 5 (frame_bytes (0, sample_rtp))), Fail EAGAIN, Data (drop 5 (frame_bytes (0, sample_rtp))),
      Data (frame_bytes (0, sample_rtp))]))) = [[7, 8, 9]]"
proof -
  have "rtp_ok sample_rtp" "length (rtp_bytes sample_rtp) \<le> 4096" by (simp_all add: sample_rtp_def)
  moreover have "take 5 (frame_bytes (0, sample_rtp)) \<noteq> []" "drop 5 (frame_bytes (0, sample_rtp)) \<noteq> []" "frame_bytes (0, sample_rtp) \<noteq> []"
    by (simp_all add: frame_bytes_def sample_rtp_def)
  ultimately show ?thesis
    using media_stream_lossless [of "\<lambda>k b. b" None "[(0, sample_rtp), (0, sample_rtp)]"
        "[\<lparr> mt_paused = False, mt_ring = True \<rparr>, \<lparr> mt_paused = True, mt_ring = True \<rparr>]"
        "[Data (take 5 (frame_bytes (0, sample_rtp))), Fail EAGAIN, Data (drop 5 (frame_bytes (0, sample_rtp))),
          Data (frame_bytes (0, sample_rtp))]" "[]"]
    by (simp add: key_len_def media_bytes_def sample_rtp_def split: prod.splits)
qed

end
