(* ===== verification/Client.thy ===== *)
theory Client
  imports Json Dialogue
begin

text \<open>
  A control connection (\<open>miplay.c\<close>: \<open>handle_client\<close>): what the receiver does with each
  frame its receive loop (\<open>client_recv\<close>) delivers. A frame copies the slot of the connection
  into the working set, is decrypted when it is a SafetyData container, dispatched, and the
  working set is copied back; the session mutex is held throughout, so a frame is one step.

  \<open>rcv\<close> is the state all connections share, \<open>conn\<close> the local variables of the task, \<open>chan\<close>
  its constants, and \<open>cenv\<close> what the system answers during a frame. \<open>q_behind\<close> is what lies in
  memory behind the payload: some commands search the payload as a C string. The received
  event is initialised by every command that uses it.
\<close>

definition CMD_OPEN_DEVICE :: u16 where "CMD_OPEN_DEVICE = 0x0000"
definition CMD_PAUSE :: u16 where "CMD_PAUSE = 0x0004"
definition CMD_RESUME :: u16 where "CMD_RESUME = 0x0006"
definition CMD_SET_VOLUME :: u16 where "CMD_SET_VOLUME = 0x000C"
definition CMD_GET_VOLUME :: u16 where "CMD_GET_VOLUME = 0x000E"
definition CMD_GET_MEDIA_INFO_ACK :: u16 where "CMD_GET_MEDIA_INFO_ACK = 0x0015"
definition CMD_GET_STATE :: u16 where "CMD_GET_STATE = 0x001C"
definition CMD_HEARTBEAT :: u16 where "CMD_HEARTBEAT = 0x001A"
definition CMD_HEARTBEAT_ACK :: u16 where "CMD_HEARTBEAT_ACK = 0x001B"
definition CMD_GET_DEVICE_INFO :: u16 where "CMD_GET_DEVICE_INFO = 0x001E"
definition CMD_GET_DEVICE_INFO_ACK :: u16 where "CMD_GET_DEVICE_INFO_ACK = 0x001F"
definition CMD_SAFETY_CHALLENGE :: u16 where "CMD_SAFETY_CHALLENGE = 0x0028"
definition CMD_SAFETY_ACK :: u16 where "CMD_SAFETY_ACK = 0x0029"
definition CMD_NOTIFY :: u16 where "CMD_NOTIFY = 0x0022"
definition CMD_GET_MIRROR_MODE :: u16 where "CMD_GET_MIRROR_MODE = 0x0034"
definition CMD_GET_MIRROR_MODE_ACK :: u16 where "CMD_GET_MIRROR_MODE_ACK = 0x0035"
definition CMD_NATIVE_VERSION :: u16 where "CMD_NATIVE_VERSION = 0x0036"
definition CMD_NATIVE_VERSION_ACK :: u16 where "CMD_NATIVE_VERSION_ACK = 0x0037"
definition CMD_SET_PLAY_SOURCE :: u16 where "CMD_SET_PLAY_SOURCE = 0x0040"
definition CMD_SET_POSITION :: u16 where "CMD_SET_POSITION = 0x0056"
definition CMD_SET_MEDIA_INFO :: u16 where "CMD_SET_MEDIA_INFO = 0x0012"
definition CMD_SET_MEDIA_INFO_ACK :: u16 where "CMD_SET_MEDIA_INFO_ACK = 0x0013"
definition CMD_SET_MEDIA_STATE :: u16 where "CMD_SET_MEDIA_STATE = 0x005E"
definition CMD_SET_MEDIA_STATE_ACK :: u16 where "CMD_SET_MEDIA_STATE_ACK = 0x005F"
definition CMD_SET_LOCAL_DEV_INFO :: u16 where "CMD_SET_LOCAL_DEV_INFO = 0x0058"
definition CMD_SET_LOCAL_DEV_ACK :: u16 where "CMD_SET_LOCAL_DEV_ACK = 0x0059"
definition CMD_SAFETY_INFO :: u16 where "CMD_SAFETY_INFO = 0x1400"
definition CMD_SAFETY_INFO_ACK :: u16 where "CMD_SAFETY_INFO_ACK = 0x1401"
definition CMD_SAFETY_AUTH :: u16 where "CMD_SAFETY_AUTH = 0x1402"
definition CMD_SAFETY_AUTH_ACK :: u16 where "CMD_SAFETY_AUTH_ACK = 0x1403"

definition RECEIVER_VERSION :: "byte list" where "RECEIVER_VERSION = str ''2.1.5071614''"

subsection \<open>State\<close>

record rcv =
  x_link :: link \<comment> \<open>with the session table and \<open>s_stream_key\<close>\<close>
  x_net :: net
  x_media :: media
  x_stream_iv :: "byte list"
  x_mirror_key :: "byte list option" \<comment> \<open>\<open>s_mirror_auth_key\<close>, once it is set\<close>
  x_volume :: u32
  x_saved :: "u32 list" \<comment> \<open>volumes written to NVS\<close>
  x_vol_log :: "u32 list" \<comment> \<open>calls of the volume callback\<close>
  x_conn_log :: "bool list" \<comment> \<open>calls of the connection callback\<close>
  x_tasks :: "rtsp_arg list" \<comment> \<open>RTSP tasks started\<close>

record conn =
  auth_challenge_sent :: bool
  pending_ack_valid :: bool
  pending_ack_hex :: "byte list"
  pending_ack_seq :: u16
  socket_closed :: bool \<comment> \<open>\<open>close\<close> after a failed verification\<close>

definition conn_init :: conn where
  "conn_init = \<lparr> auth_challenge_sent = False, pending_ack_valid = False, pending_ack_hex = [],
     pending_ack_seq = 0, socket_closed = False \<rparr>"

record chan =
  ch_fd :: int
  ch_slot :: nat
  ch_peer_ip :: u32
  ch_device_id :: "byte list"

record cenv =
  q_env :: env
  q_hash :: hashes
  q_mem :: "nat \<Rightarrow> bool"
  q_now :: int
  q_behind :: "byte list"
  q_nvs :: bool
  q_vol_cb :: bool
  q_conn_cb :: bool
  q_task :: bool

definition x_ctl :: "rcv \<Rightarrow> ctl" where "x_ctl x = k_ctl (x_link x)"

definition set_ctl :: "ctl \<Rightarrow> rcv \<Rightarrow> rcv" where
  "set_ctl c x = x \<lparr> x_link := (x_link x) \<lparr> k_ctl := c \<rparr> \<rparr>"

definition on_wire :: "(ctl \<times> net \<Rightarrow> 'a \<times> (ctl \<times> net)) \<Rightarrow> rcv \<Rightarrow> 'a \<times> rcv" where
  "on_wire f x = (case f (x_ctl x, x_net x) of (r, (c, n)) \<Rightarrow> (r, (set_ctl c x) \<lparr> x_net := n \<rparr>))"

definition send_plain :: "cenv \<Rightarrow> chan \<Rightarrow> u16 \<Rightarrow> u16 \<Rightarrow> byte list \<Rightarrow> rcv \<Rightarrow> rcv" where
  "send_plain q ch cmd sq payload x = x \<lparr> x_net := snd (miplay_send_cmd (q_env q) (ch_fd ch) cmd sq payload (x_net x)) \<rparr>"

definition send_enc :: "cenv \<Rightarrow> chan \<Rightarrow> u16 \<Rightarrow> u16 \<Rightarrow> byte list \<Rightarrow> rcv \<Rightarrow> int \<times> rcv" where
  "send_enc q ch cmd sq payload x = on_wire (send_encrypted_cmd (q_env q) (ch_fd ch) cmd sq payload) x"

definition ack_enc :: "cenv \<Rightarrow> chan \<Rightarrow> u16 \<Rightarrow> u16 \<Rightarrow> byte list \<Rightarrow> rcv \<Rightarrow> rcv" where
  "ack_enc q ch cmd sq payload x = snd (send_enc q ch cmd sq payload x)"

definition ack_either :: "cenv \<Rightarrow> chan \<Rightarrow> u16 \<Rightarrow> u16 \<Rightarrow> byte list \<Rightarrow> rcv \<Rightarrow> rcv" where
  \<comment> \<open>encrypted once there is a session key\<close>
  "ack_either q ch cmd sq payload x =
     (if s_has_session_key (x_ctl x) then ack_enc q ch cmd sq payload x else send_plain q ch cmd sq payload x)"

definition emit :: "media_event \<Rightarrow> rcv \<Rightarrow> rcv" where
  "emit e x = x \<lparr> x_media := miplay_emit_media_event e (x_media x) \<rparr>"

definition emit_if :: "bool \<times> media_event \<Rightarrow> rcv \<Rightarrow> rcv" where
  "emit_if p x = (if fst p then emit (snd p) x else x)"

definition playback_control :: "media_event \<Rightarrow> rcv \<Rightarrow> rcv" where
  "playback_control e x =
     (case miplay_apply_playback_control e (x_ctl x, x_media x) of (c, m) \<Rightarrow> (set_ctl c x) \<lparr> x_media := m \<rparr>)"

definition wire_state_bytes :: "rcv \<Rightarrow> byte list" where
  "wire_state_bytes x =
     0 # be32 (if 0 \<le> s_media_device_state (x_media x) then word_of_int (s_media_device_state (x_media x)) else 0)"

definition notify_empty :: "cenv \<Rightarrow> chan \<Rightarrow> rcv \<Rightarrow> rcv" where
  "notify_empty q ch x =
     snd (on_wire (miplay_notify_empty_media_info_ex (q_env q) (ch_fd ch) (Some (ch_slot ch))) x)"

definition notify_unless_sent :: "cenv \<Rightarrow> chan \<Rightarrow> rcv \<Rightarrow> rcv" where
  "notify_unless_sent q ch x =
     (if ss_media_info_notify_sent (s_sessions (x_ctl x) ! ch_slot ch) then x else notify_empty q ch x)"

definition send_capabilities :: "cenv \<Rightarrow> chan \<Rightarrow> rcv \<Rightarrow> rcv" where
  \<comment> \<open>the notifications 5, 6 and 7: mode, empty mediaInfoEx, state\<close>
  "send_capabilities q ch x =
     (let x1 = send_plain q ch CMD_NOTIFY 5 (4 # str ''mode'' @ [3, 2]) x;
          x2 = (case miplay_build_media_info_ex 64 of
                  Some mi \<Rightarrow> if mi = [] then x1 else send_plain q ch CMD_NOTIFY 6 mi x1
                | None \<Rightarrow> x1)
      in send_plain q ch CMD_NOTIFY 7 (5 # str ''state'' @ [3, 0]) x2)"

definition miplay_save_volume :: "bool \<Rightarrow> u32 \<Rightarrow> rcv \<Rightarrow> rcv" where
  \<comment> \<open>the argument is allocated and the task runs; its NVS write succeeds\<close>
  "miplay_save_volume ok vol x = (if ok then x \<lparr> x_saved := x_saved x @ [vol] \<rparr> else x)"

subsection \<open>The Alone commands\<close>

definition handle_alone :: "cenv \<Rightarrow> chan \<Rightarrow> u16 \<Rightarrow> u16 \<Rightarrow> byte list \<Rightarrow> rcv \<Rightarrow> rcv" where
  "handle_alone q ch cmd sq payload x =
     (let sub_cmd = ucast cmd :: byte
      in if sub_cmd = 0x14 then
           (let p = miplay_parse_media_state_payload (q_mem q) payload miplay_media_event_init;
                x1 = (if fst p then emit (snd p) (playback_control (snd p) x) else x)
            in ack_enc q ch (cmd + 1) sq [] x1)
         else if sub_cmd = 0x16 then ack_enc q ch (cmd + 1) sq (wire_state_bytes x) x
         else if sub_cmd = 0x18 then
           (let p1 = miplay_parse_set_media_info_json (q_mem q) payload miplay_media_event_init;
                p = (if fst p1 then p1 else miplay_parse_notify_payload (q_mem q 9) payload (length payload) miplay_media_event_init)
            in ack_enc q ch (cmd + 1) sq [] (emit_if p x))
         else x)"

subsection \<open>OPEN\<close>

definition rtsp_target :: "byte list \<Rightarrow> byte list \<times> int" where
  \<comment> \<open>host and port of \<open>wfd://host:port?...\<close>, given behind the scheme\<close>
  "rtsp_target u =
     (case (index_of 58 u, index_of 63 u) of
        (Some c, q) \<Rightarrow>
          if q = None \<or> c < the q
          then if 0 < c \<and> c < 64 then (take c u, atoi (drop (c + 1) u)) else ([], 0)
          else if 0 < the q \<and> the q < 64 then (take (the q) u, 8554) else ([], 0)
      | (None, Some q) \<Rightarrow> if 0 < q \<and> q < 64 then (take q u, 8554) else ([], 0)
      | (None, None) \<Rightarrow> ([], 0))"

definition handle_open :: "cenv \<Rightarrow> chan \<Rightarrow> u16 \<Rightarrow> bool \<Rightarrow> byte list \<Rightarrow> rcv \<Rightarrow> rcv \<times> bool" where
  \<comment> \<open>the flag: the RTSP dialogue ran inline and the task ends; the run is then over\<close>
  "handle_open q ch sq was_encrypted payload x =
     (if \<not> was_encrypted \<or> payload = [] then (x, False)
      else case find_sub (str ''wfd://'') payload of
             None \<Rightarrow> (x, False)
           | Some i \<Rightarrow>
               let wfd_url = cstr (take 159 (drop i payload));
                   (rtsp_host, rtsp_port) = rtsp_target (drop 6 wfd_url);
                   x1 = ack_enc q ch (CMD_OPEN_DEVICE + 1) sq [0, 0, 0, 0, 0] x;
                   x2 = set_ctl ((x_ctl x1) \<lparr> s_media_session_opened := True, s_active_client_sock := ch_fd ch,
                                  s_active_peer_ip := ch_peer_ip ch \<rparr>) x1;
                   open_key = k_stream_key (x_link x2);
                   x3 = notify_unless_sent q ch x2
               in if rtsp_port \<le> 0 then (x3, False)
                  else case miplay_start_rtsp_session (ch_fd ch) (Some rtsp_host) rtsp_port open_key True (q_task q) (q_task q) (x_link x3) of
                         (True, k, a) \<Rightarrow> (x3 \<lparr> x_link := k, x_tasks := x_tasks x3 @ (case a of Some a \<Rightarrow> [a] | None \<Rightarrow> []) \<rparr>, False)
                       | (False, k, _) \<Rightarrow>
                           (x3 \<lparr> x_link := rtsp_run_end (ch_fd ch) (s_media_generation (k_ctl k)) k \<rparr>, True))"

subsection \<open>The Safety handshake\<close>

definition json_pair :: "string \<Rightarrow> byte list \<Rightarrow> byte list" where
  "json_pair k v = [9, 34] @ str k @ [34, 58, 32, 34] @ v @ [34]"

fun json_members :: "byte list list \<Rightarrow> byte list" where
  "json_members [] = []"
| "json_members [m] = m"
| "json_members (m # ms) = m @ [44, 10] @ json_members ms"

definition json_doc :: "(string \<times> byte list) list \<Rightarrow> byte list" where
  "json_doc kvs = [123, 10] @ json_members (map (\<lambda>(k, v). json_pair k v) kvs) @ [32, 10, 125, 32, 10]"

definition selection_json :: "byte list" where
  "selection_json = json_doc [(''aesIvType'', str ''2''), (''aesKeyType'', str ''1''), (''authAlgorithmType'', str ''4''),
     (''authKeyType'', str ''1''), (''integrityType'', str ''1''), (''result'', str ''0'')]"

definition handle_safety_info :: "cenv \<Rightarrow> chan \<Rightarrow> u16 \<Rightarrow> conn \<times> rcv \<Rightarrow> conn \<times> rcv" where
  \<comment> \<open>the texts fit their buffers: \<open>s_auth_msg\<close> has 32 characters at most\<close>
  "handle_safety_info q ch sq = (\<lambda>(cn, x).
     let x1 = x \<lparr> x_net := snd (send_plain_envelope (q_env q) (ch_fd ch) CMD_SAFETY_INFO_ACK sq selection_json (x_net x)) \<rparr>
     in if auth_challenge_sent cn then (cn, x1)
        else
          let (r, x2) = on_wire (send_encrypted_envelope (q_env q) (ch_fd ch) CMD_SAFETY_AUTH 0 False
                          (json_doc [(''authMsg'', cstr (s_auth_msg (x_ctl x1)))])) x1
          in (if 0 < r then cn \<lparr> auth_challenge_sent := True \<rparr> else cn, x2))"

definition json_quoted_at :: "nat \<Rightarrow> nat \<Rightarrow> byte list \<Rightarrow> byte list" where
  \<comment> \<open>the string behind the colon at \<open>pos\<close> of the memory; empty when it is missing or longer
     than \<open>mx\<close>\<close>
  "json_quoted_at mx pos raw =
     (let am = dropWhile (\<lambda>c. c = 58 \<or> c = 32 \<or> c = 9) (drop pos raw)
      in if am = [] \<or> hd am \<noteq> 34 then []
         else case index_of 34 (cstr (tl am)) of
                Some n \<Rightarrow> if n \<le> mx then take n (tl am) else []
              | None \<Rightarrow> [])"

definition handle_safety_auth :: "cenv \<Rightarrow> u16 \<Rightarrow> bool \<Rightarrow> byte list \<Rightarrow> conn \<times> rcv \<Rightarrow> conn \<times> rcv" where
  "handle_safety_auth q sq decrypted plain = (\<lambda>(cn, x).
     if \<not> decrypted then (cn, x)
     else
       let peer_auth_msg = (case find_sub ([34] @ str ''authMsg'' @ [34]) plain of
             None \<Rightarrow> [] | Some i \<Rightarrow> json_quoted_at 32 (i + 9) (plain @ q_behind q));
           ack_hash = hmac_sha256 (q_hash q) (take 32 (s_auth_key (x_ctl x))) peer_auth_msg
       in (cn \<lparr> pending_ack_hex := hex_to_lower ack_hash, pending_ack_seq := sq, pending_ack_valid := True \<rparr>, x))"

definition expected_ack :: "hashes \<Rightarrow> ctl \<Rightarrow> byte list" where
  "expected_ack h c = hex_to_lower (hmac_sha256 h (take 32 (s_auth_key c)) (cstr (s_auth_msg c)))"

definition peer_ack :: "byte list \<Rightarrow> byte list \<Rightarrow> byte list option" where
  \<comment> \<open>\<open>None\<close>: not an envelope, the frame is ignored. The key has 12 characters, 13 are
     skipped.\<close>
  "peer_ack plain behind =
     (let raw = plain @ behind; tag_len = unat (raw ! 0)
      in if tag_len \<noteq> 3 \<or> length plain < 1 + tag_len + 4 + 1 then None
         else if length plain - 6 - tag_len < unat (raw ! (5 + tag_len)) then None
         else let json = drop (6 + tag_len) raw
              in case find_sub ([34] @ str ''authMsgAck'' @ [34]) (cstr json) of
                   None \<Rightarrow> Some []
                 | Some i \<Rightarrow> Some (json_quoted_at 64 (i + 13) json))"

definition handle_safety_auth_ack :: "cenv \<Rightarrow> chan \<Rightarrow> bool \<Rightarrow> byte list \<Rightarrow> conn \<times> rcv \<Rightarrow> conn \<times> rcv" where
  "handle_safety_auth_ack q ch decrypted plain = (\<lambda>(cn, x).
     if \<not> decrypted then (cn, x)
     else case peer_ack plain (q_behind q) of
            None \<Rightarrow> (cn, x)
          | Some ack \<Rightarrow>
              if ack \<noteq> expected_ack (q_hash q) (x_ctl x) then (cn \<lparr> socket_closed := True \<rparr>, x)
              else
                let x1 = (if pending_ack_valid cn
                          then snd (on_wire (send_encrypted_envelope (q_env q) (ch_fd ch) CMD_SAFETY_AUTH_ACK
                                 (pending_ack_seq cn) True
                                 (json_doc [(''authMsgAck'', pending_ack_hex cn), (''result'', str ''0'')])) x)
                          else x);
                    was_connected = s_connected (x_ctl x1);
                    x2 = set_ctl ((x_ctl x1) \<lparr> s_connected := True, s_active_client_sock := ch_fd ch,
                                   s_active_peer_ip := ch_peer_ip ch \<rparr>) x1;
                    x3 = notify_unless_sent q ch x2;
                    x4 = set_ctl (miplay_session_save (Some (ch_slot ch)) (x_ctl x3)) x3
                in (cn \<lparr> pending_ack_valid := False \<rparr>,
                    if \<not> was_connected \<and> q_conn_cb q then x4 \<lparr> x_conn_log := x_conn_log x4 @ [True] \<rparr> else x4))"

subsection \<open>Settings and queries\<close>

definition handle_device_info :: "cenv \<Rightarrow> chan \<Rightarrow> u16 \<Rightarrow> rcv \<Rightarrow> rcv" where
  "handle_device_info q ch sq x =
     (case build_device_info_payload (q_mem q 10) (ch_device_id ch) 1024 of
        Some info \<Rightarrow> if q_mem q 11 then ack_either q ch CMD_GET_DEVICE_INFO_ACK sq info x else x
      | None \<Rightarrow> x)"

definition handle_local_device_info :: "cenv \<Rightarrow> chan \<Rightarrow> u16 \<Rightarrow> byte list \<Rightarrow> rcv \<Rightarrow> rcv" where
  "handle_local_device_info q ch sq payload x =
     (let x1 = (if find_sub ([34] @ str ''canAlonePlayCtrl'' @ [34]) payload \<noteq> None \<and> find_sub [34, 49, 34] payload \<noteq> None
                then send_capabilities q ch x else x)
      in ack_either q ch CMD_SET_LOCAL_DEV_ACK sq [] x1)"

definition handle_set_play_source :: "cenv \<Rightarrow> chan \<Rightarrow> u16 \<Rightarrow> byte list \<Rightarrow> rcv \<Rightarrow> rcv" where
  "handle_set_play_source q ch sq payload x =
     (let x1 = emit_if (miplay_parse_set_media_info_json (q_mem q) payload miplay_media_event_init) x;
          (r, x2) = send_enc q ch (CMD_SET_PLAY_SOURCE + 1) sq [] x1
      in if 0 < r then set_ctl ((x_ctl x2) \<lparr> s_play_source_registered := True \<rparr>) x2 else x2)"

definition volume_bytes :: "u32 \<Rightarrow> byte list" where
  "volume_bytes v = 0 # be32 v"

definition handle_set_volume :: "cenv \<Rightarrow> chan \<Rightarrow> u16 \<Rightarrow> byte list \<Rightarrow> rcv \<Rightarrow> rcv" where
  "handle_set_volume q ch sq payload x =
     (let vol = rd32 payload 0;
          x1 = (if 4 \<le> length payload \<and> vol \<le> 100 then
                  let x0 = miplay_save_volume (q_nvs q) vol (x \<lparr> x_volume := vol \<rparr>)
                  in if q_vol_cb q then x0 \<lparr> x_vol_log := x_vol_log x0 @ [vol] \<rparr> else x0
                else x);
          x2 = ack_enc q ch (CMD_SET_VOLUME + 1) sq (volume_bytes (x_volume x1)) x1
      in snd (on_wire (send_encrypted_cmd_auto_seq (q_env q) (ch_fd ch) CMD_NOTIFY
                (6 # str ''volume'' @ [7, 0, 0, 0, ucast (x_volume x2)])) x2))"

definition restart_rtsp :: "cenv \<Rightarrow> chan \<Rightarrow> rcv \<Rightarrow> rcv" where
  "restart_rtsp q ch x =
     (case miplay_try_restart_rtsp (ch_fd ch) (q_task q) (q_task q) (x_link x) of
        (_, k, a) \<Rightarrow> x \<lparr> x_link := k, x_tasks := x_tasks x @ (case a of Some a \<Rightarrow> [a] | None \<Rightarrow> []) \<rparr>)"

definition control_event :: "u32 \<Rightarrow> int \<Rightarrow> int \<Rightarrow> media_event" where
  "control_event ch pos ps = (miplay_media_event_reset_control miplay_media_event_init)
     \<lparr> ev_changed := ch, ev_position_ms := pos, ev_player_state := ps \<rparr>"

definition apply_event :: "media_event \<Rightarrow> rcv \<Rightarrow> rcv" where
  "apply_event e x = (if ev_changed e \<noteq> 0 then emit e (playback_control e x) else x)"

definition handle_pause :: "cenv \<Rightarrow> chan \<Rightarrow> u16 \<Rightarrow> rcv \<Rightarrow> rcv" where
  "handle_pause q ch sq x =
     (let x1 = set_ctl (miplay_set_audio_paused True (x_ctl x)) x;
          e = control_event MIPLAY_MEDIA_CHANGED_PLAYER_STATE 0 MIPLAY_PLAYER_STATE_PAUSED
      in ack_enc q ch (CMD_PAUSE + 1) sq [] (apply_event e x1))"

definition handle_resume :: "cenv \<Rightarrow> chan \<Rightarrow> u16 \<Rightarrow> rcv \<Rightarrow> rcv" where
  "handle_resume q ch sq x =
     (let x1 = set_ctl (miplay_set_audio_paused False (x_ctl x)) x;
          e = control_event MIPLAY_MEDIA_CHANGED_PLAYER_STATE 0 MIPLAY_PLAYER_STATE_PLAYING;
          x2 = (if k_restart_pending (x_link x1) then restart_rtsp q ch x1 else x1)
      in ack_enc q ch (CMD_RESUME + 1) sq [] (apply_event e x2))"

definition handle_set_position :: "cenv \<Rightarrow> chan \<Rightarrow> u16 \<Rightarrow> byte list \<Rightarrow> rcv \<Rightarrow> rcv" where
  "handle_set_position q ch sq payload x =
     (let last_ms = s_position_hint_last_ms (x_media x);
          long = 8 \<le> length payload;
          (e, m) = (if long then miplay_project_state_from_position (q_now q) (s_media_generation (x_ctl x))
                        (control_event MIPLAY_MEDIA_CHANGED_POSITION (sint (opack_u64_be payload 0)) MIPLAY_PLAYER_STATE_UNKNOWN) (x_media x)
                    else (control_event 0 0 MIPLAY_PLAYER_STATE_UNKNOWN, x_media x));
          x1 = apply_event e (x \<lparr> x_media := m \<rparr>);
          x2 = ack_enc q ch (CMD_SET_POSITION + 1) sq [] x1
      in x2 \<lparr> x_media := snd (miplay_maybe_query_media_info_on_rewind (q_now q) (ch_fd ch)
                                (if long then last_ms else -1) (ev_position_ms e) (x_media x2)) \<rparr>)"

definition mirror_value :: "string \<Rightarrow> byte list \<Rightarrow> byte list option" where
  \<comment> \<open>16 bytes behind the colon, blanks and quotes that follow the name in the C string\<close>
  "mirror_value name raw =
     (case find_sub ([34] @ str name @ [34]) (cstr raw) of
        None \<Rightarrow> None
      | Some i \<Rightarrow>
          (case index_of 58 (drop i (cstr raw)) of
             None \<Rightarrow> None
           | Some j \<Rightarrow> Some (take 16 (dropWhile (\<lambda>c. c = 32 \<or> c = 34) (drop (i + j + 1) raw)))))"

definition handle_set_mirror_key :: "cenv \<Rightarrow> chan \<Rightarrow> u16 \<Rightarrow> byte list \<Rightarrow> rcv \<Rightarrow> rcv" where
  "handle_set_mirror_key q ch sq payload x =
     (let raw = payload @ q_behind q;
          x1 = (case (mirror_value ''streamKey'' raw, mirror_value ''streamIV'' raw) of
                  (Some sk, Some siv) \<Rightarrow> x \<lparr> x_link := (x_link x) \<lparr> k_stream_key := Some sk \<rparr>, x_stream_iv := siv \<rparr>
                | _ \<Rightarrow> x);
          x2 = (case mirror_value ''authKey'' raw of Some ak \<Rightarrow> x1 \<lparr> x_mirror_key := Some ak \<rparr> | None \<Rightarrow> x1)
      in ack_enc q ch 0x006D sq [0] x2)"

definition handle_media_info_ack :: "cenv \<Rightarrow> byte list \<Rightarrow> rcv \<Rightarrow> rcv" where
  "handle_media_info_ack q payload x =
     (let p = (case miplay_parse_media_info_ex (q_mem q 9) payload (length payload) of
                 Some e \<Rightarrow> (True, e)
               | None \<Rightarrow>
                   let p1 = miplay_parse_set_media_info_json (q_mem q) payload miplay_media_event_init
                   in if fst p1 then p1
                      else miplay_parse_notify_payload (q_mem q 9) payload (length payload) miplay_media_event_init);
          x1 = emit_if p x
      in set_ctl ((x_ctl x1) \<lparr> s_reverse_control_ready := True \<rparr>) x1)"

definition handle_set_media_info :: "cenv \<Rightarrow> chan \<Rightarrow> u16 \<Rightarrow> byte list \<Rightarrow> rcv \<Rightarrow> rcv" where
  \<comment> \<open>a stopped state beside a title is taken off the event\<close>
  "handle_set_media_info q ch sq payload x =
     (let (parsed, e0) = miplay_parse_set_media_info_json (q_mem q) payload miplay_media_event_init;
          e1 = (if ev_cover_url e0 \<noteq> [] then e0 \<lparr> ev_changed := ev_changed e0 OR MIPLAY_MEDIA_CHANGED_COVER_URL \<rparr> else e0);
          e2 = (if ev_title e1 \<noteq> [] \<and> has_bit (ev_changed e1) MIPLAY_MEDIA_CHANGED_PLAYER_STATE
                   \<and> ev_player_state e1 = MIPLAY_PLAYER_STATE_STOPPED
                then e1 \<lparr> ev_changed := ev_changed e1 AND NOT (MIPLAY_MEDIA_CHANGED_PLAYER_STATE
                       OR MIPLAY_MEDIA_CHANGED_DEVICE_STATE OR MIPLAY_MEDIA_CHANGED_STATUS) \<rparr> else e1);
          x1 = (if parsed \<and> ev_changed e2 \<noteq> 0 then emit e2 x else x)
      in restart_rtsp q ch (ack_enc q ch CMD_SET_MEDIA_INFO_ACK sq [] x1))"

definition handle_set_media_state :: "cenv \<Rightarrow> chan \<Rightarrow> u16 \<Rightarrow> byte list \<Rightarrow> rcv \<Rightarrow> rcv" where
  "handle_set_media_state q ch sq payload x =
     (let p = miplay_parse_media_state_payload (q_mem q) payload miplay_media_event_init
      in ack_enc q ch CMD_SET_MEDIA_STATE_ACK sq [] (if fst p then emit (snd p) (playback_control (snd p) x) else x))"

subsection \<open>A frame\<close>

definition handle_cmd :: "cenv \<Rightarrow> chan \<Rightarrow> u16 \<Rightarrow> u16 \<Rightarrow> bool \<Rightarrow> byte list \<Rightarrow> conn \<times> rcv \<Rightarrow> (conn \<times> rcv) \<times> bool" where
  \<comment> \<open>the two switches; a command whose high byte is 0x04 belongs to the first one\<close>
  "handle_cmd q ch cmd sq was_encrypted payload = (\<lambda>(cn, x).
     let quiet = (\<lambda>x'. ((cn, x'), False)); outer = ucast (drop_bit 8 cmd) :: byte
     in if outer = 0x04 then quiet (handle_alone q ch cmd sq payload x)
        else if cmd = CMD_NOTIFY
        then quiet (emit_if (miplay_parse_notify_payload (q_mem q 9) payload (length payload) miplay_media_event_init) x)
        else if cmd = CMD_NATIVE_VERSION then quiet (send_plain q ch CMD_NATIVE_VERSION_ACK sq (RECEIVER_VERSION @ [0]) x)
        else if cmd = CMD_SAFETY_ACK then quiet (send_capabilities q ch x)
        else if cmd = CMD_OPEN_DEVICE then (let (x', quit) = handle_open q ch sq was_encrypted payload x in ((cn, x'), quit))
        else if cmd = CMD_HEARTBEAT then quiet (ack_either q ch CMD_HEARTBEAT_ACK sq [] x)
        else if cmd = CMD_SAFETY_INFO then (handle_safety_info q ch sq (cn, x), False)
        else if cmd = CMD_SAFETY_INFO_ACK then quiet x
        else if cmd = CMD_SAFETY_AUTH then (handle_safety_auth q sq was_encrypted payload (cn, x), False)
        else if cmd = CMD_SAFETY_AUTH_ACK then (handle_safety_auth_ack q ch was_encrypted payload (cn, x), False)
        else if cmd = CMD_GET_DEVICE_INFO then quiet (handle_device_info q ch sq x)
        else if cmd = CMD_SET_LOCAL_DEV_INFO then quiet (handle_local_device_info q ch sq payload x)
        else if cmd = CMD_GET_MIRROR_MODE then quiet (ack_either q ch CMD_GET_MIRROR_MODE_ACK sq [0, 0, 0, 0, 1] x)
        else if cmd = CMD_GET_VOLUME then quiet (ack_enc q ch (CMD_GET_VOLUME + 1) sq (volume_bytes (x_volume x)) x)
        else if cmd = CMD_GET_STATE then quiet (ack_enc q ch (CMD_GET_STATE + 1) sq (wire_state_bytes x) x)
        else if cmd = CMD_GET_MEDIA_INFO_ACK then quiet (handle_media_info_ack q payload x)
        else if cmd = CMD_GET_MEDIA_INFO then quiet (notify_empty q ch x)
        else if cmd = CMD_SET_PLAY_SOURCE then quiet (handle_set_play_source q ch sq payload x)
        else if cmd = CMD_SET_VOLUME then quiet (handle_set_volume q ch sq payload x)
        else if cmd = CMD_PAUSE then quiet (handle_pause q ch sq x)
        else if cmd = CMD_RESUME then quiet (handle_resume q ch sq x)
        else if cmd = CMD_SET_POSITION then quiet (handle_set_position q ch sq payload x)
        else if cmd = 0x006C then quiet (handle_set_mirror_key q ch sq payload x)
        else if cmd = CMD_SET_MEDIA_INFO then quiet (handle_set_media_info q ch sq payload x)
        else if cmd = CMD_SET_MEDIA_STATE then quiet (handle_set_media_state q ch sq payload x)
        else quiet x)"

definition unified_decrypt :: "cenv \<Rightarrow> byte list \<Rightarrow> ctl \<Rightarrow> (bool \<times> byte list) \<times> ctl" where
  \<comment> \<open>whether the payload was decrypted, the payload to use, and the receive IV\<close>
  "unified_decrypt q payload c =
     (if s_has_session_key c \<and> 9 \<le> length payload \<and> take 4 payload = [0x00, 0x07, 0x01, 0xE0] \<and> q_mem q 12 then
        (case safety_decrypt (env_D (q_env q)) (q_mem q 14) (q_mem q 13) payload (s_aes_key c) (s_decrypt_iv c) (length payload) of
           (Some plain, iv) \<Rightarrow> ((True, plain), c \<lparr> s_decrypt_iv := iv \<rparr>)
         | (None, iv) \<Rightarrow> ((False, payload), c \<lparr> s_decrypt_iv := iv \<rparr>))
      else ((False, payload), c))"

definition handle_frame :: "cenv \<Rightarrow> chan \<Rightarrow> frame \<Rightarrow> conn \<times> rcv \<Rightarrow> (conn \<times> rcv) \<times> bool" where
  "handle_frame q ch f = (\<lambda>(cn, x).
     let ((was_encrypted, payload), c1) = unified_decrypt q (f_payload f) (miplay_session_load (Some (ch_slot ch)) (x_ctl x));
         ((cn2, x2), quit) = handle_cmd q ch (f_cmd f) (f_seq f) was_encrypted payload (cn, set_ctl c1 x)
     in ((cn2, set_ctl (miplay_session_save (Some (ch_slot ch)) (x_ctl x2)) x2), quit))"

fun handle_frames :: "(cenv \<times> frame) list \<Rightarrow> chan \<Rightarrow> conn \<times> rcv \<Rightarrow> (conn \<times> rcv) \<times> bool" where
  \<comment> \<open>the frames of a connection until its task ends\<close>
  "handle_frames [] ch st = (st, False)"
| "handle_frames ((q, f) # fs) ch st =
     (let (st', quit) = handle_frame q ch f st in if quit then (st', True) else handle_frames fs ch st')"

definition client_start :: "cenv \<Rightarrow> chan \<Rightarrow> u32 list \<Rightarrow> byte list \<Rightarrow> u16 \<Rightarrow> u32 \<Rightarrow> u16 \<Rightarrow> rcv \<Rightarrow> rcv" where
  \<comment> \<open>the connection becomes the control route; keys are derived from the endpoints and the
     numeric device id is sent\<close>
  "client_start q ch rs mac peer_port local_ip local_port x =
     (let c1 = miplay_session_load (Some (ch_slot ch)) (x_ctl x);
          c2 = miplay_session_save (Some (ch_slot ch)) (c1 \<lparr> s_notify_seq := 8, s_reverse_control_ready := False,
                 s_play_source_registered := False, s_media_session_opened := False,
                 s_active_client_sock := ch_fd ch, s_active_peer_ip := ch_peer_ip ch \<rparr>);
          c3 = miplay_session_load (Some (ch_slot ch)) c2;
          c4 = generate_auth_msg rs (derive_session_key (q_hash q) (ch_peer_ip ch) peer_port local_ip local_port c3);
          x5 = send_plain q ch CMD_SAFETY_CHALLENGE 4 (numeric_device_id (q_hash q) mac) (set_ctl c4 x)
      in set_ctl (miplay_session_save (Some (ch_slot ch)) (x_ctl x5)) x5)"

subsection \<open>What a frame may change of the control state\<close>

definition ctl_keys :: "ctl \<Rightarrow> byte list \<times> byte list \<times> byte list \<times> bool" where
  "ctl_keys c = (s_aes_key c, s_auth_key c, s_auth_msg c, s_has_session_key c)"

definition session_keys :: "session \<Rightarrow> byte list \<times> byte list \<times> byte list \<times> bool" where
  "session_keys s = (ss_aes_key s, ss_auth_key s, ss_auth_msg s, ss_has_session_key s)"

definition session_id :: "session \<Rightarrow> bool \<times> int \<times> u32 \<times> u16" where
  "session_id s = (ss_in_use s, ss_sock s, ss_peer_ip s, ss_peer_port s)"

definition slot_step :: "chan \<Rightarrow> ctl \<Rightarrow> ctl \<Rightarrow> bool" where
  \<comment> \<open>no key, no connection flag and no other slot\<close>
  "slot_step ch c d \<longleftrightarrow> ctl_keys d = ctl_keys c \<and> s_connected d = s_connected c \<and> s_session_count d = s_session_count c
     \<and> (\<exists>s. session_keys s = session_keys (s_sessions c ! ch_slot ch) \<and> session_id s = session_id (s_sessions c ! ch_slot ch)
          \<and> s_sessions d = (s_sessions c)[ch_slot ch := s])"

definition chan_ok :: "chan \<Rightarrow> ctl \<Rightarrow> bool" where
  \<comment> \<open>the connection owns its slot\<close>
  "chan_ok ch c \<longleftrightarrow> ch_slot ch < length (s_sessions c) \<and> miplay_session_find_locked (ch_fd ch) c = Some (ch_slot ch)"

lemma slot_stepI:
  "ctl_keys d = ctl_keys c \<Longrightarrow> s_connected d = s_connected c \<Longrightarrow> s_session_count d = s_session_count c \<Longrightarrow>
   s_sessions d = (s_sessions c)[ch_slot ch := t] \<Longrightarrow> session_keys t = session_keys (s_sessions c ! ch_slot ch) \<Longrightarrow>
   session_id t = session_id (s_sessions c ! ch_slot ch) \<Longrightarrow> slot_step ch c d"
  by (auto simp: slot_step_def)

lemma slot_step_same:
  "ctl_keys d = ctl_keys c \<Longrightarrow> s_connected d = s_connected c \<Longrightarrow> s_session_count d = s_session_count c \<Longrightarrow>
   s_sessions d = s_sessions c \<Longrightarrow> slot_step ch c d"
  unfolding slot_step_def by (metis list_update_id)

lemma slot_step_refl [simp]: "slot_step ch c c"
  by (rule slot_step_same) simp_all

lemma slot_step_trans:
  assumes "chan_ok ch b" and "slot_step ch b c" and "slot_step ch c d"
  shows "slot_step ch b d"
  using assms by (auto simp: slot_step_def chan_ok_def)

lemma chan_ok_step: "chan_ok ch c \<Longrightarrow> slot_step ch c d \<Longrightarrow> chan_ok ch d"
proof -
  assume c: "chan_ok ch c" and d: "slot_step ch c d"
  then obtain s where s: "session_id s = session_id (s_sessions c ! ch_slot ch)" "s_sessions d = (s_sessions c)[ch_slot ch := s]"
    by (auto simp: slot_step_def)
  have "find_slot (owns (ch_fd ch)) (s_sessions d) = find_slot (owns (ch_fd ch)) (s_sessions c)"
    unfolding s(2) using c s(1) by (intro find_slot_update) (auto simp: chan_ok_def session_id_def owns_def)
  with c s(2) show ?thesis by (simp add: chan_ok_def find_locked_eq)
qed

lemma next_seq_step: "miplay_next_notify_seq_locked c = (sq, c') \<Longrightarrow> slot_step ch c c'"
  by (rule slot_step_same) (auto simp: miplay_next_notify_seq_locked_def Let_def ctl_keys_def)

lemma seal_step: "seal env p (c, n) = (o', (c', n')) \<Longrightarrow> slot_step ch c c'"
  by (rule slot_step_same) (auto simp: seal_def ctl_keys_def split: option.splits)

lemma send_locked_step: "send_encrypted_cmd_locked env fd cmd sq p (c, n) = (r, (c', n')) \<Longrightarrow> slot_step ch c c'"
  by (auto simp: send_encrypted_cmd_locked_def Let_def split: if_splits option.splits prod.splits dest: seal_step)

lemma send_envelope_step: "send_encrypted_envelope env fd cmd sq a p (c, n) = (r, (c', n')) \<Longrightarrow> slot_step ch c c'"
  by (auto simp: send_encrypted_envelope_def Let_def split: if_splits option.splits prod.splits dest: seal_step)

lemma auto_seq_step:
  assumes "chan_ok ch c" and "send_encrypted_cmd_auto_seq env fd cmd p (c, n) = (r, (c', n'))"
  shows "slot_step ch c c'"
  using assms(2) slot_step_trans [OF assms(1)] next_seq_step send_locked_step
  by (auto simp: send_encrypted_cmd_auto_seq_def split: prod.splits) blast

lemma notify_empty_step:
  assumes c: "chan_ok ch c" and "miplay_notify_empty_media_info_ex env fd (Some (ch_slot ch)) (c, n) = (r, (c', n'))"
  shows "slot_step ch c c'"
proof (cases "miplay_build_media_info_ex 64")
  case None
  with assms show ?thesis by (simp add: miplay_notify_empty_media_info_ex_def)
next
  case (Some mi)
  obtain r1 sq c1 n1 where a: "send_encrypted_cmd_auto_seq env fd 0x0022 mi (c, n) = ((r1, sq), (c1, n1))" by (metis prod.exhaust)
  note s = auto_seq_step [OF c a]
  note ok = chan_ok_step [OF c s]
  define t where "t = (s_sessions c1 ! ch_slot ch) \<lparr> ss_media_info_notify_sent := True \<rparr>"
  have "slot_step ch c1 (c1 \<lparr> s_sessions := (s_sessions c1)[ch_slot ch := t], s_reverse_control_ready := True \<rparr>)"
    by (rule slot_stepI [where t = t]) (simp_all add: ctl_keys_def t_def session_keys_def session_id_def)
  with assms(2) Some a s slot_step_trans [OF c s] show ?thesis
    by (auto simp: miplay_notify_empty_media_info_ex_def t_def split: if_splits)
qed

lemma mark_closed_step:
  assumes "chan_ok ch c"
  shows "slot_step ch c (miplay_mark_media_session_closed (ch_fd ch) g c)"
proof -
  have f: "miplay_session_find_locked (ch_fd ch) c = Some (ch_slot ch)" using assms by (simp add: chan_ok_def)
  show ?thesis
  proof (cases "s_media_generation c = g")
    case True
    with f show ?thesis
      by (intro slot_stepI [where t = "(s_sessions c ! ch_slot ch) \<lparr> ss_media_session_opened := False \<rparr>"])
        (simp_all add: miplay_mark_media_session_closed_def Let_def ctl_keys_def session_keys_def session_id_def)
  qed (simp add: miplay_mark_media_session_closed_def)
qed

subsection \<open>What a frame keeps of the receiver\<close>

definition task_ok :: "rtsp_arg \<Rightarrow> bool" where
  "task_ok a \<longleftrightarrow> a_host a \<noteq> [] \<and> length (a_host a) < 64 \<and> 0 < a_port a"

definition rcv_ok :: "rcv \<Rightarrow> bool" where
  "rcv_ok x \<longleftrightarrow> media_ok (x_media x) \<and> x_volume x \<le> 100 \<and> list_all (\<lambda>v. v \<le> 100) (x_saved x @ x_vol_log x)
     \<and> list_all task_ok (x_tasks x) \<and> length (k_host_saved (x_link x)) < 64"

definition stays :: "chan \<Rightarrow> rcv \<Rightarrow> rcv \<Rightarrow> bool" where
  "stays ch x y \<longleftrightarrow> (chan_ok ch (x_ctl x) \<longrightarrow> slot_step ch (x_ctl x) (x_ctl y)) \<and> (rcv_ok x \<longrightarrow> rcv_ok y)"

lemma stays_refl [simp]: "stays ch x x"
  by (simp add: stays_def)

lemma stays_trans [trans]: "stays ch x y \<Longrightarrow> stays ch y z \<Longrightarrow> stays ch x z"
  unfolding stays_def by (metis chan_ok_step slot_step_trans)

lemma x_ctl_simps [simp]: "x_ctl (set_ctl c x) = c" "x_ctl (x \<lparr> x_net := n \<rparr>) = x_ctl x" "x_ctl (x \<lparr> x_media := m \<rparr>) = x_ctl x"
  "x_ctl (x \<lparr> x_volume := v \<rparr>) = x_ctl x" "x_ctl (x \<lparr> x_saved := l \<rparr>) = x_ctl x" "x_ctl (x \<lparr> x_vol_log := l \<rparr>) = x_ctl x"
  "x_ctl (x \<lparr> x_conn_log := b \<rparr>) = x_ctl x" "x_ctl (x \<lparr> x_stream_iv := iv \<rparr>) = x_ctl x" "x_ctl (x \<lparr> x_mirror_key := k \<rparr>) = x_ctl x"
  "x_ctl (x \<lparr> x_link := l', x_tasks := t \<rparr>) = k_ctl l'" "x_ctl (x \<lparr> x_link := l' \<rparr>) = k_ctl l'"
  by (simp_all add: x_ctl_def set_ctl_def)

lemma rcv_ok_ctl [simp]: "rcv_ok (set_ctl c x) = rcv_ok x"
  by (simp add: rcv_ok_def set_ctl_def)

lemma rcv_ok_fields [simp]: "rcv_ok (x \<lparr> x_net := n \<rparr>) = rcv_ok x" "rcv_ok (x \<lparr> x_conn_log := b \<rparr>) = rcv_ok x"
  "rcv_ok (x \<lparr> x_stream_iv := iv \<rparr>) = rcv_ok x" "rcv_ok (x \<lparr> x_mirror_key := k \<rparr>) = rcv_ok x"
  by (simp_all add: rcv_ok_def)

lemma stays_ctl: "(chan_ok ch (x_ctl x) \<Longrightarrow> slot_step ch (x_ctl x) c) \<Longrightarrow> stays ch x (set_ctl c x)"
  by (simp add: stays_def)

lemma stays_wire:
  assumes "\<And>c n r c' n'. chan_ok ch c \<Longrightarrow> f (c, n) = (r, (c', n')) \<Longrightarrow> slot_step ch c c'"
  shows "stays ch x (snd (on_wire f x))"
proof -
  obtain r c n where f: "f (x_ctl x, x_net x) = (r, (c, n))" by (metis prod.exhaust)
  with assms [OF _ f] show ?thesis by (simp add: stays_def on_wire_def)
qed

lemma stays_send [simp]: "stays ch x (send_plain q ch cmd sq p x)" "stays ch x (ack_enc q ch cmd sq p x)"
  "stays ch x (snd (send_enc q ch cmd sq p x))" "stays ch x (ack_either q ch cmd sq p x)"
proof -
  show p: "stays ch x (send_plain q ch cmd sq p x)" by (simp add: send_plain_def stays_def)
  show e: "stays ch x (snd (send_enc q ch cmd sq p x))"
    unfolding send_enc_def by (rule stays_wire) (auto simp: send_encrypted_cmd_def dest: send_locked_step)
  then show a: "stays ch x (ack_enc q ch cmd sq p x)" by (simp add: ack_enc_def)
  with p show "stays ch x (ack_either q ch cmd sq p x)" by (simp add: ack_either_def)
qed

lemma stays_then: "stays ch x y \<Longrightarrow> stays ch x (send_plain q ch cmd sq p y)" "stays ch x y \<Longrightarrow> stays ch x (ack_enc q ch cmd sq p y)"
  "stays ch x y \<Longrightarrow> stays ch x (ack_either q ch cmd sq p y)" "stays ch x y \<Longrightarrow> stays ch x (snd (send_enc q ch cmd sq p y))"
  by (auto intro: stays_trans stays_send)

lemma stays_emit [simp]: "stays ch x (emit e x)"
  by (simp add: stays_def emit_def rcv_ok_def emit_media_ok)

lemma stays_emit_if [simp]: "stays ch x (emit_if p x)"
  by (simp add: emit_if_def)

lemma playback_media_ok: "media_ok m \<Longrightarrow> miplay_apply_playback_control e (c, m) = (c', m') \<Longrightarrow> media_ok m'"
  by (auto simp: miplay_apply_playback_control_def miplay_reset_position_state_hint_def media_ok_def split: if_splits)

lemma playback_step: "miplay_apply_playback_control e (c, m) = (c', m') \<Longrightarrow> slot_step ch c c'"
  by (rule slot_step_same) (auto simp: miplay_apply_playback_control_def miplay_set_audio_paused_def ctl_keys_def split: if_splits)

lemma stays_playback [simp]: "stays ch x (playback_control e x)"
proof -
  obtain c m where p: "miplay_apply_playback_control e (x_ctl x, x_media x) = (c, m)" by fastforce
  from playback_step [OF p] playback_media_ok [OF _ p] show ?thesis
    by (simp add: playback_control_def p stays_def) (auto simp: rcv_ok_def set_ctl_def)
qed

lemma stays_emit_playback [simp]: "stays ch x (emit e (playback_control e' x))"
  by (rule stays_trans [OF stays_playback stays_emit])

lemma stays_apply_event [simp]: "stays ch x (apply_event e x)"
  by (simp add: apply_event_def)

lemma stays_notify_empty [simp]: "stays ch x (notify_empty q ch x)" "stays ch x (notify_unless_sent q ch x)"
proof -
  show n: "stays ch x (notify_empty q ch x)"
    unfolding notify_empty_def by (rule stays_wire) (rule notify_empty_step)
  then show "stays ch x (notify_unless_sent q ch x)" by (simp add: notify_unless_sent_def)
qed

lemma stays_capabilities [simp]: "stays ch x (send_capabilities q ch x)"
  by (auto simp: send_capabilities_def Let_def intro!: stays_then split: option.split)

lemma start_link:
  assumes "miplay_start_rtsp_session fd (Some host) port key force a t k = (r, k', arg)"
  shows "slot_step ch (k_ctl k) (k_ctl k') \<and> (length (k_host_saved k) < 64 \<longrightarrow> length (k_host_saved k') < 64)
    \<and> (\<forall>b. arg = Some b \<longrightarrow> task_ok b)"
proof -
  have ne: "host \<noteq> [] \<Longrightarrow> copy_text 64 host \<noteq> []" by (simp add: copy_text_def)
  have "ctl_keys (k_ctl k') = ctl_keys (k_ctl k) \<and> s_connected (k_ctl k') = s_connected (k_ctl k)
      \<and> s_session_count (k_ctl k') = s_session_count (k_ctl k) \<and> s_sessions (k_ctl k') = s_sessions (k_ctl k)"
    using assms by (auto simp: miplay_start_rtsp_session_def Let_def ctl_keys_def split: if_splits)
  then have "slot_step ch (k_ctl k) (k_ctl k')" by (intro slot_step_same) simp_all
  with assms ne show ?thesis by (auto simp: miplay_start_rtsp_session_def Let_def task_ok_def split: if_splits)
qed

lemma restart_link:
  assumes "miplay_try_restart_rtsp fd a t k = (r, k', arg)"
  shows "slot_step ch (k_ctl k) (k_ctl k') \<and> (length (k_host_saved k) < 64 \<longrightarrow> length (k_host_saved k') < 64)
    \<and> (\<forall>b. arg = Some b \<longrightarrow> task_ok b)"
  using assms start_link by (auto simp: miplay_try_restart_rtsp_def split: if_splits)

lemma stays_restart [simp]: "stays ch x (restart_rtsp q ch x)"
proof -
  obtain r k a where p: "miplay_try_restart_rtsp (ch_fd ch) (q_task q) (q_task q) (x_link x) = (r, k, a)" by (metis prod.exhaust)
  from restart_link [OF p, of ch] show ?thesis
    by (simp add: restart_rtsp_def p stays_def x_ctl_def) (auto simp: rcv_ok_def split: option.splits)
qed

lemma stays_alone [simp]: "stays ch x (handle_alone q ch cmd sq p x)"
  by (auto simp: handle_alone_def Let_def intro: stays_then)

lemma stays_open: "handle_open q ch sq e p x = (y, quit) \<Longrightarrow> stays ch x y"
proof -
  assume o: "handle_open q ch sq e p x = (y, quit)"
  show ?thesis
  proof (cases "\<not> e \<or> p = [] \<or> find_sub (str ''wfd://'') p = None")
    case True
    with o show ?thesis by (auto simp: handle_open_def split: if_splits)
  next
    case False
    then obtain i where i: "find_sub (str ''wfd://'') p = Some i" "e" "p \<noteq> []" by auto
    obtain host port where t: "rtsp_target (drop 6 (cstr (take 159 (drop i p)))) = (host, port)" by fastforce
    define x1 where "x1 = ack_enc q ch (CMD_OPEN_DEVICE + 1) sq [0, 0, 0, 0, 0] x"
    define x2 where "x2 = set_ctl ((x_ctl x1) \<lparr> s_media_session_opened := True, s_active_client_sock := ch_fd ch,
        s_active_peer_ip := ch_peer_ip ch \<rparr>) x1"
    define x3 where "x3 = notify_unless_sent q ch x2"
    have "stays ch x x1" by (simp add: x1_def)
    also have "stays ch x1 x2" unfolding x2_def by (intro stays_ctl slot_step_same) (simp_all add: ctl_keys_def)
    also have "stays ch x2 x3" by (simp add: x3_def)
    finally have s3: "stays ch x x3" .
    have o': "(y, quit) = (if port \<le> 0 then (x3, False)
        else case miplay_start_rtsp_session (ch_fd ch) (Some host) port (k_stream_key (x_link x2)) True (q_task q) (q_task q) (x_link x3) of
               (True, k, a) \<Rightarrow> (x3 \<lparr> x_link := k, x_tasks := x_tasks x3 @ (case a of Some a \<Rightarrow> [a] | None \<Rightarrow> []) \<rparr>, False)
             | (False, k, _) \<Rightarrow> (x3 \<lparr> x_link := rtsp_run_end (ch_fd ch) (s_media_generation (k_ctl k)) k \<rparr>, True))"
      unfolding o [symmetric] handle_open_def Let_def i(1) option.case t prod.case x1_def x2_def x3_def
      using i(2,3) by (simp only: simp_thms if_False)
    show ?thesis
    proof (cases "port \<le> 0")
      case True
      with o' s3 show ?thesis by simp
    next
      case False
      obtain r k a where st: "miplay_start_rtsp_session (ch_fd ch) (Some host) port (k_stream_key (x_link x2)) True (q_task q) (q_task q) (x_link x3) = (r, k, a)"
        by (metis prod.exhaust)
      note l = start_link [OF st, of ch]
      show ?thesis
      proof (cases r)
        case True
        with o' False st have "y = x3 \<lparr> x_link := k, x_tasks := x_tasks x3 @ (case a of Some a \<Rightarrow> [a] | None \<Rightarrow> []) \<rparr>" by simp
        moreover from this l have "stays ch x3 y" by (simp add: stays_def x_ctl_def) (auto simp: rcv_ok_def split: option.splits)
        ultimately show ?thesis using s3 stays_trans by blast
      next
        case r: False
        define k' where "k' = rtsp_run_end (ch_fd ch) (s_media_generation (k_ctl k)) k"
        have y: "y = x3 \<lparr> x_link := k' \<rparr>" using o' False st r by (simp add: k'_def)
        have c: "k_ctl k' = miplay_mark_media_session_closed (ch_fd ch) (s_media_generation (k_ctl k)) (k_ctl k)"
          by (simp add: k'_def rtsp_run_end_def Let_def)
        have "slot_step ch (x_ctl x3) (k_ctl k')" if "chan_ok ch (x_ctl x3)"
        proof -
          have s: "slot_step ch (x_ctl x3) (k_ctl k)" using l by (simp add: x_ctl_def)
          have "slot_step ch (k_ctl k) (k_ctl k')" unfolding c by (rule mark_closed_step) (rule chan_ok_step [OF that s])
          with that s show ?thesis by (rule slot_step_trans)
        qed
        moreover have "k_host_saved k' = k_host_saved k" by (simp add: k'_def rtsp_run_end_def Let_def)
        ultimately have "stays ch x3 y" unfolding y using l by (auto simp: stays_def rcv_ok_def)
        with s3 show ?thesis using stays_trans by blast
      qed
    qed
  qed
qed

lemma stays_safety_info: "handle_safety_info q ch sq (cn, x) = (cn', y) \<Longrightarrow> stays ch x y"
proof -
  assume h: "handle_safety_info q ch sq (cn, x) = (cn', y)"
  define x1 where "x1 = x \<lparr> x_net := snd (send_plain_envelope (q_env q) (ch_fd ch) CMD_SAFETY_INFO_ACK sq selection_json (x_net x)) \<rparr>"
  have s1: "stays ch x x1" by (simp add: stays_def x1_def)
  obtain r x2 where w: "on_wire (send_encrypted_envelope (q_env q) (ch_fd ch) CMD_SAFETY_AUTH 0 False
      (json_doc [(''authMsg'', cstr (s_auth_msg (x_ctl x1)))])) x1 = (r, x2)" by fastforce
  have "stays ch x1 (snd (on_wire (send_encrypted_envelope (q_env q) (ch_fd ch) CMD_SAFETY_AUTH 0 False
      (json_doc [(''authMsg'', cstr (s_auth_msg (x_ctl x1)))])) x1))"
    by (rule stays_wire) (rule send_envelope_step)
  then have "stays ch x x2" using s1 w stays_trans by simp
  moreover have "y = x1 \<or> y = x2"
    using h unfolding handle_safety_info_def prod.case x1_def [symmetric] Let_def w by (simp split: if_splits)
  ultimately show ?thesis using s1 by blast
qed

lemma stays_device_info [simp]: "stays ch x (handle_device_info q ch sq x)"
  by (simp add: handle_device_info_def split: option.split)

lemma stays_local_info [simp]: "stays ch x (handle_local_device_info q ch sq p x)"
  by (auto simp: handle_local_device_info_def Let_def intro: stays_then)

lemma stays_play_source [simp]: "stays ch x (handle_set_play_source q ch sq p x)"
proof -
  let ?x1 = "emit_if (miplay_parse_set_media_info_json (q_mem q) p miplay_media_event_init) x"
  obtain r x2 where e: "send_enc q ch (CMD_SET_PLAY_SOURCE + 1) sq [] ?x1 = (r, x2)" by fastforce
  have "stays ch x ?x1" by simp
  also have "stays ch ?x1 x2" using stays_send(3) [of ch ?x1 q] e by (metis snd_conv)
  finally have s: "stays ch x x2" .
  have "stays ch x2 (set_ctl ((x_ctl x2) \<lparr> s_play_source_registered := True \<rparr>) x2)"
    by (intro stays_ctl slot_step_same) (simp_all add: ctl_keys_def)
  with s stays_trans show ?thesis by (auto simp: handle_set_play_source_def Let_def e)
qed

lemma stays_auto_seq: "stays ch x (snd (on_wire (send_encrypted_cmd_auto_seq (q_env q) (ch_fd ch) cmd p) x))"
  by (rule stays_wire) (rule auto_seq_step)

lemma stays_set_volume [simp]: "stays ch x (handle_set_volume q ch sq p x)"
proof -
  define x1 where "x1 = (if 4 \<le> length p \<and> rd32 p 0 \<le> 100 then
                  let x0 = miplay_save_volume (q_nvs q) (rd32 p 0) (x \<lparr> x_volume := rd32 p 0 \<rparr>)
                  in if q_vol_cb q then x0 \<lparr> x_vol_log := x_vol_log x0 @ [rd32 p 0] \<rparr> else x0
                else x)"
  have "stays ch x x1"
    by (auto simp: x1_def stays_def rcv_ok_def miplay_save_volume_def Let_def x_ctl_def)
  then show ?thesis
    unfolding handle_set_volume_def Let_def x1_def [unfolded Let_def, symmetric]
    by (intro stays_trans [OF _ stays_auto_seq] stays_then)
qed

lemma stays_paused [simp]: "stays ch x (set_ctl (miplay_set_audio_paused b (x_ctl x)) x)"
  by (intro stays_ctl slot_step_same) (simp_all add: ctl_keys_def miplay_set_audio_paused_def)

lemma stays_pause [simp]: "stays ch x (handle_pause q ch sq x)"
  unfolding handle_pause_def Let_def by (intro stays_then stays_trans [OF stays_paused stays_apply_event])

lemma stays_resume [simp]: "stays ch x (handle_resume q ch sq x)"
proof -
  let ?x1 = "set_ctl (miplay_set_audio_paused False (x_ctl x)) x"
  have "stays ch x (if k_restart_pending (x_link ?x1) then restart_rtsp q ch ?x1 else ?x1)"
    using stays_trans [OF stays_paused stays_restart] by simp
  then show ?thesis unfolding handle_resume_def Let_def by (intro stays_then stays_trans [OF _ stays_apply_event])
qed

lemma reset_hint_ok: "media_ok m \<Longrightarrow> media_ok (miplay_reset_position_state_hint g m)"
  by (simp add: media_ok_def miplay_reset_position_state_hint_def)

lemma infer_media_ok: "media_ok m \<Longrightarrow> infer_state now p m = (s, m') \<Longrightarrow> media_ok m'"
  by (auto simp: infer_state_def Let_def media_ok_def split: if_splits)

lemma project_media_ok: "media_ok m \<Longrightarrow> miplay_project_state_from_position now g e m = (e', m') \<Longrightarrow> media_ok m'"
proof -
  assume m: "media_ok m" and p: "miplay_project_state_from_position now g e m = (e', m')"
  define m1 where "m1 = (if s_position_hint_generation m \<noteq> g then miplay_reset_position_state_hint g m else m)"
  define pos where "pos = (if ev_position_ms e < 0 then 0 else ev_position_ms e)"
  obtain s m2 where i: "infer_state now pos m1 = (s, m2)" by fastforce
  have "media_ok m1" using m by (simp add: m1_def reset_hint_ok)
  from infer_media_ok [OF this i] have m3: "media_ok (m2 \<lparr> s_position_hint_last_ms := pos, s_position_hint_last_rx_us := now \<rparr>)"
    by (simp add: media_ok_def pos_def)
  have "m' = m \<or> m' = m2 \<lparr> s_position_hint_last_ms := pos, s_position_hint_last_rx_us := now \<rparr>"
    using p unfolding miplay_project_state_from_position_def Let_def m1_def [symmetric] pos_def [symmetric] i by (simp split: if_splits)
  with m m3 show ?thesis by auto
qed

lemma rewind_media_ok: "media_ok m \<Longrightarrow> media_ok (snd (miplay_maybe_query_media_info_on_rewind now fd l p m))"
  by (auto simp: miplay_maybe_query_media_info_on_rewind_def media_ok_def)

lemma stays_media: "(media_ok (x_media x) \<Longrightarrow> media_ok m) \<Longrightarrow> stays ch x (x \<lparr> x_media := m \<rparr>)"
  by (simp add: stays_def rcv_ok_def)

lemma stays_set_position [simp]: "stays ch x (handle_set_position q ch sq p x)"
proof -
  define em where "em = (if 8 \<le> length p then miplay_project_state_from_position (q_now q) (s_media_generation (x_ctl x))
        (control_event MIPLAY_MEDIA_CHANGED_POSITION (sint (opack_u64_be p 0)) MIPLAY_PLAYER_STATE_UNKNOWN) (x_media x)
      else (control_event 0 0 MIPLAY_PLAYER_STATE_UNKNOWN, x_media x))"
  obtain e m where em: "em = (e, m)" by fastforce
  have m: "media_ok (x_media x) \<Longrightarrow> media_ok m"
    using em project_media_ok by (auto simp: em_def split: if_splits)
  define x2 where "x2 = ack_enc q ch (CMD_SET_POSITION + 1) sq [] (apply_event e (x \<lparr> x_media := m \<rparr>))"
  have "stays ch x x2" unfolding x2_def by (intro stays_then stays_trans [OF stays_media stays_apply_event] m)
  also have "stays ch x2 (x2 \<lparr> x_media := snd (miplay_maybe_query_media_info_on_rewind a b c d (x_media x2)) \<rparr>)" for a b c d
    by (intro stays_media rewind_media_ok)
  finally show ?thesis
    unfolding handle_set_position_def Let_def em_def [symmetric] em prod.case x2_def [symmetric] .
qed

lemma stays_mirror_key [simp]: "stays ch x (handle_set_mirror_key q ch sq p x)"
proof -
  have a: "stays ch x (case (u, w) of (Some sk, Some siv) \<Rightarrow> x \<lparr> x_link := (x_link x) \<lparr> k_stream_key := Some sk \<rparr>, x_stream_iv := siv \<rparr> | _ \<Rightarrow> x)"
    for u w by (auto simp: stays_def rcv_ok_def x_ctl_def split: option.split)
  have b: "stays ch y (case v of Some ak \<Rightarrow> y \<lparr> x_mirror_key := Some ak \<rparr> | None \<Rightarrow> y)" for y v
    by (auto simp: stays_def split: option.split)
  show ?thesis unfolding handle_set_mirror_key_def Let_def by (intro stays_then stays_trans [OF a b])
qed

lemma stays_media_info_ack [simp]: "stays ch x (handle_media_info_ack q p x)"
proof -
  have "stays ch x (set_ctl ((x_ctl (emit_if e x)) \<lparr> s_reverse_control_ready := True \<rparr>) (emit_if e x))" for e
    by (rule stays_trans [OF stays_emit_if [where p = e]]) (intro stays_ctl slot_step_same, simp_all add: ctl_keys_def)
  then show ?thesis unfolding handle_media_info_ack_def Let_def .
qed

lemma stays_set_media_info [simp]: "stays ch x (handle_set_media_info q ch sq p x)"
  unfolding handle_set_media_info_def Let_def
  by (auto split: prod.split intro!: stays_trans [OF _ stays_restart] stays_then)

lemma stays_set_media_state [simp]: "stays ch x (handle_set_media_state q ch sq p x)"
  by (auto simp: handle_set_media_state_def Let_def intro: stays_then)

subsection \<open>One frame\<close>

lemma stays_cmd:
  assumes "handle_cmd q ch cmd sq e p (cn, x) = ((cn', y), quit)" and "cmd \<noteq> CMD_SAFETY_AUTH_ACK \<or> ucast (drop_bit 8 cmd) = (0x04 :: byte)"
  shows "stays ch x y"
proof -
  have auth: "handle_safety_auth q sq e p (cn, x) = (cn', y) \<Longrightarrow> stays ch x y"
    by (auto simp: handle_safety_auth_def Let_def split: if_splits)
  show ?thesis
    using assms auth unfolding handle_cmd_def prod.case Let_def
    by (simp split: if_splits prod.splits) (auto dest: stays_open stays_safety_info)
qed

definition loaded :: "chan \<Rightarrow> ctl \<Rightarrow> bool" where
  "loaded ch c \<longleftrightarrow> chan_ok ch c \<and> ctl_keys c = session_keys (s_sessions c ! ch_slot ch)"

lemma load_loaded:
  assumes "chan_ok ch c"
  shows "loaded ch (miplay_session_load (Some (ch_slot ch)) c)"
    "s_sessions (miplay_session_load (Some (ch_slot ch)) c) = s_sessions c"
    "s_connected (miplay_session_load (Some (ch_slot ch)) c) = s_connected c"
    "s_session_count (miplay_session_load (Some (ch_slot ch)) c) = s_session_count c"
  using assms by (simp_all add: loaded_def miplay_session_load_def load_fields_def chan_ok_def ctl_keys_def session_keys_def find_locked_eq)

lemma loaded_step: "loaded ch c \<Longrightarrow> slot_step ch c d \<Longrightarrow> loaded ch d"
  using chan_ok_step [of ch c d] by (auto simp: loaded_def slot_step_def chan_ok_def)

lemma save_step: "loaded ch c \<Longrightarrow> slot_step ch c (miplay_session_save (Some (ch_slot ch)) c)"
  by (rule slot_stepI [where t = "save_fields c (s_sessions c ! ch_slot ch)"])
    (simp_all add: loaded_def miplay_session_save_def save_fields_def ctl_keys_def session_keys_def session_id_def)

definition connect_step :: "chan \<Rightarrow> ctl \<Rightarrow> ctl \<Rightarrow> bool" where
  \<comment> \<open>a step that may also raise the connection flag\<close>
  "connect_step ch c d \<longleftrightarrow> (\<exists>b. slot_step ch (c \<lparr> s_connected := b \<rparr>) d \<and> (s_connected c \<longrightarrow> b))"

lemma chan_ok_connected [simp]: "chan_ok ch (c \<lparr> s_connected := b \<rparr>) = chan_ok ch c" "loaded ch (c \<lparr> s_connected := b \<rparr>) = loaded ch c"
  by (simp_all add: chan_ok_def loaded_def find_locked_eq ctl_keys_def)

lemma slot_step_flag:
  "chan_ok ch c \<Longrightarrow> slot_step ch c d \<Longrightarrow> slot_step ch (c \<lparr> s_connected := b \<rparr>) (d \<lparr> s_connected := b, s_active_client_sock := s, s_active_peer_ip := i \<rparr>)"
  by (auto simp: slot_step_def ctl_keys_def)

lemma auth_ack_step:
  assumes l: "loaded ch (x_ctl x)" and h: "handle_safety_auth_ack q ch e p (cn, x) = (cn', y)"
  shows "(rcv_ok x \<longrightarrow> rcv_ok y) \<and>
    (if e \<and> peer_ack p (q_behind q) = Some (expected_ack (q_hash q) (x_ctl x))
     then slot_step ch ((x_ctl x) \<lparr> s_connected := True \<rparr>) (x_ctl y) else y = x)"
proof (cases "e \<and> peer_ack p (q_behind q) = Some (expected_ack (q_hash q) (x_ctl x))")
  case False
  with h have "y = x" by (auto simp: handle_safety_auth_ack_def split: if_splits option.splits)
  with False show ?thesis by auto
next
  case True
  define x1 where "x1 = (if pending_ack_valid cn
      then snd (on_wire (send_encrypted_envelope (q_env q) (ch_fd ch) CMD_SAFETY_AUTH_ACK (pending_ack_seq cn) True
             (json_doc [(''authMsgAck'', pending_ack_hex cn), (''result'', str ''0'')])) x)
      else x)"
  define x2 where "x2 = set_ctl ((x_ctl x1) \<lparr> s_connected := True, s_active_client_sock := ch_fd ch, s_active_peer_ip := ch_peer_ip ch \<rparr>) x1"
  define x3 where "x3 = notify_unless_sent q ch x2"
  define x4 where "x4 = set_ctl (miplay_session_save (Some (ch_slot ch)) (x_ctl x3)) x3"
  let ?c = "(x_ctl x) \<lparr> s_connected := True \<rparr>"
  have ok: "chan_ok ch (x_ctl x)" using l by (simp add: loaded_def)
  have s1: "stays ch x x1"
    unfolding x1_def by (simp add: stays_wire send_envelope_step)
  then have "slot_step ch ?c (x_ctl x2)"
    using ok slot_step_flag [OF ok] by (simp add: stays_def x2_def)
  moreover have s3: "stays ch x2 x3" by (simp add: x3_def)
  ultimately have c3: "slot_step ch ?c (x_ctl x3)"
    using ok chan_ok_step [of ch ?c "x_ctl x2"] slot_step_trans [of ch ?c] by (auto simp: stays_def)
  have "loaded ch (x_ctl x3)" by (rule loaded_step [OF _ c3]) (simp add: l)
  then have c4: "slot_step ch ?c (x_ctl x4)"
    using slot_step_trans [OF _ c3 save_step] ok by (simp add: x4_def)
  have y: "y = (if \<not> s_connected (x_ctl x1) \<and> q_conn_cb q then x4 \<lparr> x_conn_log := x_conn_log x4 @ [True] \<rparr> else x4)"
    using h True unfolding handle_safety_auth_ack_def prod.case x1_def [symmetric] Let_def x2_def [symmetric] x3_def [symmetric] x4_def [symmetric]
    by simp
  have "rcv_ok x \<longrightarrow> rcv_ok y" unfolding y using s1 s3 by (simp add: stays_def x4_def x2_def)
  moreover have "x_ctl y = x_ctl x4" unfolding y by simp
  ultimately show ?thesis using True c4 by simp
qed

definition table_step :: "chan \<Rightarrow> ctl \<Rightarrow> ctl \<Rightarrow> bool" where
  "table_step ch c d \<longleftrightarrow> s_session_count d = s_session_count c
     \<and> (\<exists>s. session_keys s = session_keys (s_sessions c ! ch_slot ch) \<and> session_id s = session_id (s_sessions c ! ch_slot ch)
          \<and> s_sessions d = (s_sessions c)[ch_slot ch := s])"

definition proves :: "cenv \<Rightarrow> frame \<Rightarrow> session \<Rightarrow> bool" where
  \<comment> \<open>the frame holds, encrypted under the key of the session, the HMAC of our challenge under
     its authentication key\<close>
  "proves q f s \<longleftrightarrow> f_cmd f = CMD_SAFETY_AUTH_ACK \<and> ss_has_session_key s
     \<and> 9 \<le> length (f_payload f) \<and> take 4 (f_payload f) = [0x00, 0x07, 0x01, 0xE0] \<and> q_mem q 12
     \<and> (\<exists>plain. fst (safety_decrypt (env_D (q_env q)) (q_mem q 14) (q_mem q 13) (f_payload f) (ss_aes_key s) (ss_decrypt_iv s)
                  (length (f_payload f))) = Some plain
          \<and> peer_ack plain (q_behind q)
              = Some (hex_to_lower (hmac_sha256 (q_hash q) (take 32 (ss_auth_key s)) (cstr (ss_auth_msg s)))))"

lemma frame_step_ok:
  assumes c: "chan_ok ch (x_ctl x)" and h: "handle_frame q ch f (cn, x) = ((cn', y), quit)"
  shows "table_step ch (x_ctl x) (x_ctl y) \<and> (rcv_ok x \<longrightarrow> rcv_ok y)
    \<and> (s_connected (x_ctl y) \<longleftrightarrow> s_connected (x_ctl x) \<or> proves q f (s_sessions (x_ctl x) ! ch_slot ch))"
proof -
  define c0 where "c0 = miplay_session_load (Some (ch_slot ch)) (x_ctl x)"
  obtain e p c1 where d: "unified_decrypt q (f_payload f) c0 = ((e, p), c1)" by (metis prod.exhaust)
  define x1 where "x1 = set_ctl c1 x"
  obtain cn2 x2 quit2 where k: "handle_cmd q ch (f_cmd f) (f_seq f) e p (cn, x1) = ((cn2, x2), quit2)" by (metis prod.exhaust)
  have y: "y = set_ctl (miplay_session_save (Some (ch_slot ch)) (x_ctl x2)) x2"
    using h by (simp add: handle_frame_def c0_def [symmetric] d x1_def [symmetric] k Let_def)
  note l0 = load_loaded [OF c, folded c0_def]
  have "slot_step ch c0 c1"
    using d by (intro slot_step_same) (auto simp: unified_decrypt_def ctl_keys_def split: if_splits prod.splits option.splits)
  note l1 = loaded_step [OF l0(1) this] and s1 = this
  have ok1: "rcv_ok x1 = rcv_ok x" by (simp add: x1_def)
  have x1: "x_ctl x1 = c1" by (simp add: x1_def)
  define ack where "ack \<longleftrightarrow> f_cmd f = CMD_SAFETY_AUTH_ACK \<and> e \<and> peer_ack p (q_behind q) = Some (expected_ack (q_hash q) c1)"
  define b where "b \<longleftrightarrow> s_connected c1 \<or> ack"
  have same: "c1 \<lparr> s_connected := s_connected c1 \<rparr> = c1" by simp
  have b: "(rcv_ok x1 \<longrightarrow> rcv_ok x2) \<and> slot_step ch (c1 \<lparr> s_connected := b \<rparr>) (x_ctl x2)"
  proof (cases "f_cmd f = CMD_SAFETY_AUTH_ACK")
    case False
    then have "f_cmd f \<noteq> CMD_SAFETY_AUTH_ACK \<or> ucast (drop_bit 8 (f_cmd f)) = (0x04 :: byte)" by simp
    from stays_cmd [OF k this] l1 have "(rcv_ok x1 \<longrightarrow> rcv_ok x2) \<and> slot_step ch c1 (x_ctl x2)"
      by (simp add: stays_def x1 loaded_def)
    with False same show ?thesis by (simp add: b_def ack_def)
  next
    case True
    then have "handle_safety_auth_ack q ch e p (cn, x1) = (cn2, x2)"
      using k by (simp add: handle_cmd_def CMD_SAFETY_AUTH_ACK_def CMD_NOTIFY_def CMD_NATIVE_VERSION_def CMD_SAFETY_ACK_def CMD_OPEN_DEVICE_def
          CMD_HEARTBEAT_def CMD_SAFETY_INFO_def CMD_SAFETY_INFO_ACK_def CMD_SAFETY_AUTH_def Let_def)
    from auth_ack_step [OF l1 [folded x1] this] True same show ?thesis
      by (cases ack) (auto simp: x1 b_def ack_def)
  qed
  have "loaded ch (x_ctl x2)" by (rule loaded_step [OF _ conjunct2 [OF b]]) (simp add: l1)
  note s2 = save_step [OF this]
  have s3: "slot_step ch (c1 \<lparr> s_connected := b \<rparr>) (x_ctl y)"
    using slot_step_trans [OF _ conjunct2 [OF b] s2] l1 by (simp add: y loaded_def)
  have con: "s_connected (x_ctl y) = b" using s3 by (simp add: slot_step_def)
  have "slot_step ch (c0 \<lparr> s_connected := b \<rparr>) (c1 \<lparr> s_connected := b \<rparr>)" using s1 by (auto simp: slot_step_def ctl_keys_def)
  from slot_step_trans [OF _ this s3] l0(1) have "slot_step ch (c0 \<lparr> s_connected := b \<rparr>) (x_ctl y)" by (simp add: loaded_def)
  then have t: "table_step ch (x_ctl x) (x_ctl y)" using l0 by (simp add: slot_step_def table_step_def)
  have "ack \<longleftrightarrow> proves q f (s_sessions (x_ctl x) ! ch_slot ch)"
  proof -
    let ?s = "s_sessions (x_ctl x) ! ch_slot ch"
    have "s_aes_key c0 = ss_aes_key ?s" "s_decrypt_iv c0 = ss_decrypt_iv ?s" "s_has_session_key c0 = ss_has_session_key ?s"
      by (simp_all add: c0_def miplay_session_load_def load_fields_def)
    moreover have "s_auth_key c1 = ss_auth_key ?s" "s_auth_msg c1 = ss_auth_msg ?s"
      using s1 l0 by (simp_all add: slot_step_def loaded_def ctl_keys_def session_keys_def)
    ultimately show ?thesis
      using d unfolding ack_def proves_def expected_ack_def unified_decrypt_def
      by (auto split: if_splits prod.splits option.splits)
  qed
  moreover have "s_connected c1 = s_connected (x_ctl x)" using s1 l0(3) by (simp add: slot_step_def)
  ultimately show ?thesis using b con t ok1 y by (simp add: b_def)
qed

subsection \<open>Frames of several connections\<close>

fun serve_frames :: "(chan \<times> cenv \<times> frame) list \<Rightarrow> (int \<Rightarrow> conn) \<Rightarrow> rcv \<Rightarrow> rcv" where
  \<comment> \<open>in the order in which the tasks take the mutex; a task that has ended sends no more\<close>
  "serve_frames [] cns x = x"
| "serve_frames ((ch, q, f) # fs) cns x =
     (let ((cn, y), quit) = handle_frame q ch f (cns (ch_fd ch), x) in serve_frames fs (cns (ch_fd ch := cn)) y)"

definition slot_view :: "session \<Rightarrow> (byte list \<times> byte list \<times> byte list \<times> bool) \<times> (bool \<times> int \<times> u32 \<times> u16)" where
  "slot_view s = (session_keys s, session_id s)"

lemma table_step_view:
  assumes "chan_ok ch c" and "table_step ch c d"
  shows "map slot_view (s_sessions d) = map slot_view (s_sessions c) \<and> s_session_count d = s_session_count c
    \<and> (j \<noteq> ch_slot ch \<longrightarrow> s_sessions d ! j = s_sessions c ! j)"
proof -
  obtain s where s: "slot_view s = slot_view (s_sessions c ! ch_slot ch)" "s_sessions d = (s_sessions c)[ch_slot ch := s]"
    "s_session_count d = s_session_count c"
    using assms(2) by (auto simp: table_step_def slot_view_def)
  have "map slot_view (s_sessions d) = (map slot_view (s_sessions c))[ch_slot ch := map slot_view (s_sessions c) ! ch_slot ch]"
    using assms(1) s by (simp add: map_update chan_ok_def)
  with s show ?thesis by simp
qed

lemma view_slots:
  assumes "map slot_view ss = map slot_view ts"
  shows "same_slots ss ts"
proof -
  have v: "map (\<lambda>s. (ss_in_use s, ss_sock s)) rs = map (\<lambda>(k, (u, so, i)). (u, so)) (map slot_view rs)" for rs
    by (simp add: slot_view_def session_id_def)
  show ?thesis unfolding same_slots_def v [of ss] v [of ts] assms ..
qed

lemma chan_ok_view:
  assumes "map slot_view (s_sessions d) = map slot_view (s_sessions c)" and "chan_ok ch c"
  shows "chan_ok ch d"
  using assms(2) same_slots_owns [OF view_slots [OF assms(1)]] map_eq_imp_length_eq [OF assms(1)]
  by (simp add: chan_ok_def find_locked_eq)

lemma view_table_ok:
  "map slot_view (s_sessions d) = map slot_view (s_sessions c) \<Longrightarrow> s_session_count d = s_session_count c \<Longrightarrow>
   table_ok c \<Longrightarrow> table_ok d"
  by (rule table_ok_same) (simp_all add: view_slots)

lemma serve_ok:
  assumes "list_all (\<lambda>(ch, q, f). chan_ok ch (x_ctl x)) fs"
  shows "map slot_view (s_sessions (x_ctl (serve_frames fs cns x))) = map slot_view (s_sessions (x_ctl x))
    \<and> s_session_count (x_ctl (serve_frames fs cns x)) = s_session_count (x_ctl x)
    \<and> (rcv_ok x \<longrightarrow> rcv_ok (serve_frames fs cns x))
    \<and> (list_all (\<lambda>(ch, q, f). j \<noteq> ch_slot ch) fs \<longrightarrow> s_sessions (x_ctl (serve_frames fs cns x)) ! j = s_sessions (x_ctl x) ! j)"
  using assms
proof (induction fs arbitrary: cns x)
  case Nil
  then show ?case by simp
next
  case (Cons m fs)
  obtain ch q f where m: "m = (ch, q, f)" by (cases m)
  with Cons.prems have c: "chan_ok ch (x_ctl x)" by simp
  obtain cn y quit where h: "handle_frame q ch f (cns (ch_fd ch), x) = ((cn, y), quit)" by (metis prod.exhaust)
  from frame_step_ok [OF c h] have t: "table_step ch (x_ctl x) (x_ctl y)" and r: "rcv_ok x \<longrightarrow> rcv_ok y" by auto
  note v = table_step_view [OF c t, of j]
  have "list_all (\<lambda>(ch, q, f). chan_ok ch (x_ctl y)) fs"
    using Cons.prems m v chan_ok_view by (auto simp: list_all_iff split: prod.splits)
  note ih = Cons.IH [OF this, of "cns(ch_fd ch := cn)"]
  define z where "z = serve_frames fs (cns(ch_fd ch := cn)) y"
  have z: "serve_frames (m # fs) cns x = z" by (simp add: m h Let_def z_def)
  show ?case unfolding z using ih [folded z_def] v r by (auto simp: m)
qed

lemma serve_connected:
  assumes "list_all (\<lambda>(ch, q, f). chan_ok ch (x_ctl x)) fs" and "\<not> s_connected (x_ctl x)" and "s_connected (x_ctl (serve_frames fs cns x))"
  shows "\<exists>ch q f s. (ch, q, f) \<in> set fs \<and> session_keys s = session_keys (s_sessions (x_ctl x) ! ch_slot ch) \<and> proves q f s"
  using assms
proof (induction fs arbitrary: cns x)
  case Nil
  then show ?case by simp
next
  case (Cons m fs)
  obtain ch q f where m: "m = (ch, q, f)" by (cases m)
  with Cons.prems have c: "chan_ok ch (x_ctl x)" by simp
  obtain cn y quit where h: "handle_frame q ch f (cns (ch_fd ch), x) = ((cn, y), quit)" by (metis prod.exhaust)
  from frame_step_ok [OF c h] have t: "table_step ch (x_ctl x) (x_ctl y)"
    and p: "s_connected (x_ctl y) \<longleftrightarrow> s_connected (x_ctl x) \<or> proves q f (s_sessions (x_ctl x) ! ch_slot ch)" by auto
  show ?case
  proof (cases "s_connected (x_ctl y)")
    case True
    with p Cons.prems(2) m show ?thesis by auto
  next
    case False
    note v = table_step_view [OF c t]
    have ok: "list_all (\<lambda>(ch, q, f). chan_ok ch (x_ctl y)) fs"
      using Cons.prems m v chan_ok_view by (auto simp: list_all_iff split: prod.splits)
    have "s_connected (x_ctl (serve_frames fs (cns(ch_fd ch := cn)) y))" using Cons.prems(3) h m by (simp add: Let_def)
    from Cons.IH [OF ok False this] obtain ch' q' f' s where
      s: "(ch', q', f') \<in> set fs" "session_keys s = session_keys (s_sessions (x_ctl y) ! ch_slot ch')" "proves q' f' s" by blast
    have i: "ch_slot ch' < length (s_sessions (x_ctl y))" using ok s(1) by (auto simp: list_all_iff chan_ok_def)
    then have "slot_view (s_sessions (x_ctl y) ! ch_slot ch') = slot_view (s_sessions (x_ctl x) ! ch_slot ch')"
      using v by (metis length_map nth_map)
    with s m show ?thesis by (auto simp: slot_view_def)
  qed
qed

subsection \<open>Properties\<close>

text \<open>C1: Nobody is connected without the proof. Whatever frames the control connections
  send, in any interleaving and any environment, the receiver turns to \<open>s_connected\<close> only by
  a SafetyAuthAck that decrypts under the session key of its connection to the HMAC-SHA256 of
  the challenge of that connection under its authentication key; no frame changes these keys.\<close>

theorem connected_needs_proof:
  assumes "list_all (\<lambda>(ch, q, f). chan_ok ch (x_ctl x)) fs" and "\<not> s_connected (x_ctl x)" and "s_connected (x_ctl (serve_frames fs cns x))"
  shows "\<exists>ch q f s. (ch, q, f) \<in> set fs \<and> session_keys s = session_keys (s_sessions (x_ctl x) ! ch_slot ch) \<and> proves q f s"
  using assms by (rule serve_connected)

text \<open>C21: The invariant of the receiver. Whatever the control connections send, the session
  table keeps its invariant, its sockets, peers and keys; a slot whose connection sent nothing
  is left as it was, with its IVs and sequence number; every text of the media snapshot fits
  its array, the volume and every volume stored or reported is 100 at most, and every RTSP
  task is started with a host of 1 to 63 characters and a positive port.\<close>

theorem frames_keep_receiver_ok:
  assumes "list_all (\<lambda>(ch, q, f). chan_ok ch (x_ctl x)) fs" and "rcv_ok x" and "table_ok (x_ctl x)"
    and "list_all (\<lambda>(ch, q, f). j \<noteq> ch_slot ch) fs" and "y = serve_frames fs cns x"
  shows "rcv_ok y \<and> table_ok (x_ctl y) \<and> map slot_view (s_sessions (x_ctl y)) = map slot_view (s_sessions (x_ctl x))
    \<and> s_sessions (x_ctl y) ! j = s_sessions (x_ctl x) ! j"
  using serve_ok [OF assms(1), of cns j] assms(2-5) view_table_ok [of "x_ctl y" "x_ctl x"] by simp

text \<open>Their hypotheses hold on concrete inputs.\<close>

definition sample_cenv :: cenv where
  "sample_cenv = \<lparr> q_env = sample_env, q_hash = sample_hashes, q_mem = (\<lambda>k. True), q_now = 0, q_behind = [0],
     q_nvs = True, q_vol_cb = True, q_conn_cb = True, q_task = True \<rparr>"

definition sample_chan :: chan where
  "sample_chan = \<lparr> ch_fd = 4, ch_slot = 0, ch_peer_ip = 1, ch_device_id = [] \<rparr>"

definition sample_session :: session where
  "sample_session = zero_session \<lparr> ss_in_use := True, ss_sock := 4, ss_aes_key := replicate 16 7, ss_notify_seq := 8,
     ss_has_session_key := True, ss_auth_key := replicate 32 65 @ [0], ss_auth_msg := replicate 32 66 @ [0] \<rparr>"

definition sample_rcv :: rcv where
  "sample_rcv = \<lparr> x_link = \<lparr> k_ctl = ctl_init \<lparr> s_sessions := [sample_session, zero_session, zero_session], s_session_count := 1 \<rparr>,
       k_host_saved = [], k_port_saved = 0, k_restart_pending = False, k_task = False, k_stream_key = None \<rparr>,
     x_net = \<lparr> calls = 0, tx_log = [] \<rparr>, x_media = media_init, x_stream_iv = [], x_mirror_key = None,
     x_volume = 50, x_saved = [], x_vol_log = [], x_conn_log = [], x_tasks = [] \<rparr>"

definition sample_ack :: "byte list" where
  "sample_ack = [3] @ str ''ack'' @ [30, 0, 0, 0, 104]
     @ json_doc [(''authMsgAck'', hex_to_lower (replicate 32 2)), (''result'', str ''0'')]"

lemma sample_ack_ok: "peer_ack sample_ack [0] = Some (hex_to_lower (replicate 32 2))" "length sample_ack = 113"
  by code_simp+

lemma sample_chan_ok: "chan_ok sample_chan (x_ctl sample_rcv)"
  by (simp add: chan_ok_def sample_chan_def sample_rcv_def x_ctl_def find_locked_eq owns_def sample_session_def)

lemma sample_sealed:
  assumes "length key = AES_BLOCK_LEN" and "length iv = AES_BLOCK_LEN"
  shows "\<exists>sd iv'. safety_decrypt xor_cipher True True sd key iv (length sd) = (Some sample_ack, iv')
     \<and> take 4 sd = [0x00, 0x07, 0x01, 0xE0] \<and> length sd = 137"
proof -
  have "\<exists>f iv'. safety_encrypt xor_cipher True True sample_ack key iv 200 = Some (f, iv')"
    by (simp add: safety_encrypt_defined safety_consts sample_ack_ok)
  then obtain f iv' where f: "safety_encrypt xor_cipher True True sample_ack key iv 200 = Some (f, iv')" by blast
  note ok = xor_cipher_ok [OF assms(1)] assms(2)
  have len: "length f = 137" using safety_encrypt_frame(1) [OF f ok] by (simp add: safety_consts sample_ack_ok)
  have "safety_decrypt xor_cipher True True f key iv (length f) = (Some sample_ack, iv')"
    by (rule safety_decrypt_encrypt [OF f ok]) (simp_all add: len sample_ack_ok)
  with len safety_encrypt_frame(2) [OF f ok] show ?thesis by blast
qed

lemma connected_needs_proof_witness:
  "\<exists>sd s. session_keys s = session_keys sample_session
     \<and> proves sample_cenv \<lparr> f_cmd = CMD_SAFETY_AUTH_ACK, f_seq = 1, f_payload = sd \<rparr> s"
proof -
  obtain sd iv where sd: "safety_decrypt xor_cipher True True sd (replicate 16 7) (replicate 16 0) (length sd) = (Some sample_ack, iv)"
    "take 4 sd = [0x00, 0x07, 0x01, 0xE0]" "length sd = 137"
    using sample_sealed [of "replicate 16 7" "replicate 16 0"] by (auto simp: AES_BLOCK_LEN_def)
  let ?f = "\<lparr> f_cmd = CMD_SAFETY_AUTH_ACK, f_seq = 1, f_payload = sd \<rparr>"
  have slot: "s_sessions (x_ctl sample_rcv) ! 0 = sample_session" by (simp add: sample_rcv_def x_ctl_def)
  have "proves sample_cenv ?f sample_session"
    using sd sample_ack_ok by (simp add: proves_def sample_cenv_def sample_session_def zero_session_def sample_env_def
        hmac_sha256_def sample_hashes_def)
  obtain cn y quit where h: "handle_frame sample_cenv sample_chan ?f (conn_init, sample_rcv) = ((cn, y), quit)" by (metis prod.exhaust)
  have "s_connected (x_ctl y)"
    using frame_step_ok [OF sample_chan_ok h] \<open>proves sample_cenv ?f sample_session\<close> slot by (simp add: sample_chan_def)
  then have "s_connected (x_ctl (serve_frames [(sample_chan, sample_cenv, ?f)] (\<lambda>fd. conn_init) sample_rcv))"
    by (simp add: h Let_def)
  moreover have "\<not> s_connected (x_ctl sample_rcv)" by (simp add: sample_rcv_def x_ctl_def ctl_init_def)
  moreover have "list_all (\<lambda>(ch, q, f). chan_ok ch (x_ctl sample_rcv)) [(sample_chan, sample_cenv, ?f)]"
    using sample_chan_ok by simp
  ultimately show ?thesis
    using connected_needs_proof [of sample_rcv "[(sample_chan, sample_cenv, ?f)]" "\<lambda>fd. conn_init"] slot
    by (auto simp: sample_chan_def)
qed

lemma frames_keep_receiver_ok_witness:
  "rcv_ok (serve_frames [(sample_chan, sample_cenv, \<lparr> f_cmd = CMD_SET_VOLUME, f_seq = 1, f_payload = [0, 0, 0, 200] \<rparr>)] (\<lambda>fd. conn_init) sample_rcv)"
proof -
  have "rcv_ok sample_rcv" by (simp add: rcv_ok_def sample_rcv_def media_init_ok)
  moreover have "table_ok (x_ctl sample_rcv)"
    by (simp add: table_ok_def sample_rcv_def x_ctl_def MIPLAY_MAX_CONTROL_SESSIONS_def sample_session_def zero_session_def)
  ultimately show ?thesis
    using frames_keep_receiver_ok [of sample_rcv "[(sample_chan, sample_cenv, \<lparr> f_cmd = CMD_SET_VOLUME, f_seq = 1, f_payload = [0, 0, 0, 200] \<rparr>)]"
        1 _ "\<lambda>fd. conn_init"] sample_chan_ok by (simp add: sample_chan_def)
qed

end
