(* ===== verification/Receiver.thy ===== *)
theory Receiver
  imports Client
begin

text \<open>
  The receiver as a whole (\<open>miplay.c\<close>: \<open>miplay_load_volume\<close>, \<open>miplay_tcp_task\<close>,
  \<open>miplay_client_task\<close>, \<open>miplay_send_receiver_control\<close>, the public functions, \<open>miplay_init\<close>
  and \<open>miplay_stop\<close>): its listener, the control tasks it starts, and the local controls.

  \<open>node\<close> adds to the shared state the running control tasks, by slot, and \<open>s_running\<close>.
  \<open>receiver_step\<close> lets any task take its next step at any time: every operation on the
  shared state runs under the session mutex, so an interleaving of tasks is a sequence of
  these steps. A new connection gets a descriptor that no slot of the table holds.
\<close>

subsection \<open>Volume and position\<close>

definition miplay_load_volume :: "u32 option \<Rightarrow> u32" where
  \<comment> \<open>the value stored in NVS, if there is one\<close>
  "miplay_load_volume stored = (let vol = (case stored of Some v \<Rightarrow> v | None \<Rightarrow> 50) in if 100 < vol then 100 else vol)"

definition miplay_set_volume :: "bool \<Rightarrow> u32 \<Rightarrow> rcv \<Rightarrow> rcv" where
  "miplay_set_volume nvs percent x =
     (let p = (if 100 < percent then 100 else percent) in miplay_save_volume nvs p (x \<lparr> x_volume := p \<rparr>))"

definition miplay_get_volume :: "rcv \<Rightarrow> u32" where "miplay_get_volume x = x_volume x"

definition miplay_get_position_ms :: "rcv \<Rightarrow> u64" where "miplay_get_position_ms x = s_media_position (x_media x)"

definition miplay_is_connected :: "rcv \<Rightarrow> bool" where "miplay_is_connected x = s_connected (x_ctl x)"

subsection \<open>Local controls\<close>

definition key_body :: "string \<Rightarrow> byte list" where
  "key_body key = of_nat (length key) # str key @ [0x00, 0x01]"

definition seek_body :: "int \<Rightarrow> byte list" where
  "seek_body value = 8 # str ''key-seek'' @ [0x09] @ be_bytes 8 (word_of_int (if value < 0 then 0 else value) :: u64)"

definition control_percent :: "int \<Rightarrow> u32" where
  "control_percent value = (let p = (if value < 0 then 0 else word_of_int value) in if 100 < p then 100 else p)"

definition volume_body :: "u32 \<Rightarrow> byte list" where
  "volume_body percent = 6 # str ''volume'' @ [0x07] @ be32 percent"

definition dispatched_event :: "bool \<Rightarrow> media_event" where
  "dispatched_event is_pause = miplay_media_event_init
     \<lparr> ev_status := (if is_pause then 3 else 2), ev_device_state := (if is_pause then 3 else 2),
       ev_player_state := (if is_pause then MIPLAY_PLAYER_STATE_PAUSED else MIPLAY_PLAYER_STATE_PLAYING),
       ev_changed := MIPLAY_MEDIA_CHANGED_STATUS OR MIPLAY_MEDIA_CHANGED_DEVICE_STATE OR MIPLAY_MEDIA_CHANGED_PLAYER_STATE \<rparr>"

definition control_body :: "string \<Rightarrow> int \<Rightarrow> byte list option" where
  \<comment> \<open>the payload of the notification; \<open>None\<close>: the action is rejected\<close>
  "control_body action value =
     (if action = ''pause'' then Some (key_body ''key-pause'')
      else if action = ''resume'' \<or> action = ''play'' then Some (key_body ''key-resume'')
      else if action = ''seek'' then Some (seek_body value)
      else if action = ''volume'' then Some (volume_body (control_percent value))
      else if action = ''next'' then Some (key_body ''key-next'')
      else if action = ''prev'' then Some (key_body ''key-prev'')
      else None)"

definition set_paused :: "string \<Rightarrow> ctl \<Rightarrow> ctl" where
  "set_paused action c =
     (if action = ''pause'' then miplay_set_audio_paused True c
      else if action = ''resume'' \<or> action = ''play'' then miplay_set_audio_paused False c else c)"

definition miplay_send_receiver_control :: "cenv \<Rightarrow> string \<Rightarrow> int \<Rightarrow> rcv \<Rightarrow> rcv" where
  "miplay_send_receiver_control q action value x =
     (let x1 = set_ctl (set_paused action (x_ctl x)) x;
          session = miplay_session_active_locked (x_ctl x1);
          x2 = set_ctl (miplay_session_load session (x_ctl x1)) x1
      in case session of
           None \<Rightarrow> x2
         | Some i \<Rightarrow>
             let s = s_sessions (x_ctl x2) ! i
             in if \<not> (0 \<le> ss_sock s \<and> ss_in_use s \<and> ss_media_session_opened s \<and> s_has_session_key (x_ctl x2)) then x2
                else case control_body action value of
                       None \<Rightarrow> x2
                     | Some body \<Rightarrow>
                         let x3 = (if action = ''volume''
                                   then miplay_save_volume (q_nvs q) (control_percent value) (x2 \<lparr> x_volume := control_percent value \<rparr>)
                                   else x2);
                             ((ret, sq), x4) = on_wire (send_encrypted_cmd_auto_seq (q_env q) (ss_sock s) CMD_NOTIFY body) x3;
                             is_pause = (action = ''pause'');
                             x5 = (if 0 < ret \<and> (is_pause \<or> action = ''resume'' \<or> action = ''play'')
                                   then emit (dispatched_event is_pause) x4 else x4)
                         in set_ctl (miplay_session_save (Some i) (x_ctl x5)) x5)"

subsection \<open>Connections\<close>

record task =
  t_chan :: chan
  t_conn :: "conn option" \<comment> \<open>\<open>None\<close> until the task has begun\<close>

record node =
  n_rcv :: rcv
  n_tasks :: "nat \<Rightarrow> task option"
  n_running :: bool

definition tcp_accept :: "int \<Rightarrow> u32 \<Rightarrow> u16 \<Rightarrow> bool \<Rightarrow> rcv \<Rightarrow> nat option \<times> rcv" where
  \<comment> \<open>a connection accepted by \<open>miplay_tcp_task\<close>: its slot when a task was started for it,
     otherwise the socket is closed\<close>
  "tcp_accept fd ip port started x =
     (case miplay_session_alloc fd ip port (x_ctl x) of
        (None, c) \<Rightarrow> (None, set_ctl c x)
      | (Some i, c) \<Rightarrow>
          if started then (Some i, set_ctl (c \<lparr> s_sessions := (s_sessions c)[i := (s_sessions c ! i) \<lparr> ss_task := True \<rparr>] \<rparr>) x)
          else (None, set_ctl (miplay_session_release (Some i) c) x))"

definition client_end :: "bool \<Rightarrow> nat \<Rightarrow> rcv \<Rightarrow> rcv" where
  \<comment> \<open>\<open>disconnect_cleanup\<close> with its callback, then the rest of \<open>miplay_client_task\<close>\<close>
  "client_end conn_cb i x =
     (let (c, gone) = disconnect_cleanup i (x_ctl x);
          x1 = set_ctl (miplay_session_release (Some i) c) x
      in if gone \<and> conn_cb then x1 \<lparr> x_conn_log := x_conn_log x1 @ [False] \<rparr> else x1)"

definition ESP_OK :: int where "ESP_OK = 0"
definition ESP_FAIL :: int where "ESP_FAIL = -1"
definition ESP_ERR_NO_MEM :: int where "ESP_ERR_NO_MEM = 0x101"

definition reset_ctl :: "ctl \<Rightarrow> ctl" where
  "reset_ctl c = c \<lparr> s_sessions := replicate MIPLAY_MAX_CONTROL_SESSIONS zero_session, s_session_count := 0,
     s_connected := False, s_media_paused := False, s_reverse_control_ready := False,
     s_play_source_registered := False, s_media_session_opened := False,
     s_active_client_sock := -1, s_active_peer_ip := 0 \<rparr>"

definition miplay_init :: "bool \<Rightarrow> u32 option \<Rightarrow> int \<Rightarrow> bool \<Rightarrow> node \<Rightarrow> int \<times> node" where
  \<comment> \<open>the mutexes are there, what NVS holds, the result of \<open>register_mdns_services\<close>, the
     listener task is created; the other tasks are optional\<close>
  "miplay_init mux_ok stored mdns_err tcp_ok n =
     (if n_running n then (ESP_OK, n)
      else if \<not> mux_ok then (ESP_ERR_NO_MEM, n)
      else
        let x = set_ctl (reset_ctl (x_ctl (n_rcv n))) (n_rcv n);
            x1 = x \<lparr> x_media := miplay_reset_media_state (s_media_generation (x_ctl x)) (x_media x) \<rparr>;
            n1 = n \<lparr> n_rcv := x1 \<lparr> x_volume := miplay_load_volume stored \<rparr> \<rparr>
        in if mdns_err \<noteq> ESP_OK then (mdns_err, n1)
           else if \<not> tcp_ok then (ESP_FAIL, n1)
           else (ESP_OK, n1 \<lparr> n_running := True \<rparr>))"

definition miplay_stop :: "node \<Rightarrow> node" where
  "miplay_stop n =
     (if \<not> n_running n then n
      else n \<lparr> n_running := False, n_rcv := set_ctl ((x_ctl (n_rcv n)) \<lparr> s_media_paused := True \<rparr>) (n_rcv n) \<rparr>)"

subsection \<open>Steps\<close>

inductive receiver_step :: "node \<Rightarrow> node \<Rightarrow> bool" where
  Accept: "receiver_step n (n \<lparr> n_rcv := y, n_tasks := (case r of None \<Rightarrow> n_tasks n
      | Some i \<Rightarrow> (n_tasks n)(i \<mapsto> \<lparr> t_chan = \<lparr> ch_fd = fd, ch_slot = i, ch_peer_ip = ip, ch_device_id = did \<rparr>, t_conn = None \<rparr>)) \<rparr>)"
    if "n_running n" and "miplay_session_find_locked fd (x_ctl (n_rcv n)) = None"
      and "tcp_accept fd ip port started (n_rcv n) = (r, y)"
| Start: "receiver_step n (n \<lparr> n_rcv := client_start q (t_chan t) rs mac pport lip lport (n_rcv n),
      n_tasks := (n_tasks n)(i \<mapsto> t \<lparr> t_conn := Some conn_init \<rparr>) \<rparr>)"
    if "n_tasks n i = Some t" and "t_conn t = None"
| Frame: "receiver_step n (n \<lparr> n_rcv := y, n_tasks := (n_tasks n)(i \<mapsto> t \<lparr> t_conn := Some cn' \<rparr>) \<rparr>)"
    if "n_tasks n i = Some t" and "t_conn t = Some cn" and "handle_frame q (t_chan t) f (cn, n_rcv n) = ((cn', y), False)"
| Inline: "receiver_step n (n \<lparr> n_rcv := client_end cb i y, n_tasks := (n_tasks n)(i := None) \<rparr>)"
    if "n_tasks n i = Some t" and "t_conn t = Some cn" and "handle_frame q (t_chan t) f (cn, n_rcv n) = ((cn', y), True)"
| End: "receiver_step n (n \<lparr> n_rcv := client_end cb i (n_rcv n), n_tasks := (n_tasks n)(i := None) \<rparr>)"
    if "n_tasks n i = Some t"
| Rtsp_end: "receiver_step n (n \<lparr> n_rcv := (n_rcv n) \<lparr> x_link := miplay_rtsp_task_wrapper a (x_link (n_rcv n)) \<rparr> \<rparr>)"
| Control: "receiver_step n (n \<lparr> n_rcv := miplay_send_receiver_control q action value (n_rcv n) \<rparr>)"
| Volume: "receiver_step n (n \<lparr> n_rcv := miplay_set_volume nvs percent (n_rcv n) \<rparr>)"
| Stop: "receiver_step n (miplay_stop n)"
| Init: "receiver_step n m" if "n_tasks n = Map.empty" and "miplay_init mux_ok stored mdns_err tcp_ok n = (r, m)"

definition rcv_zero :: rcv where
  \<comment> \<open>the static initialisers\<close>
  "rcv_zero = \<lparr> x_link = \<lparr> k_ctl = ctl_init, k_host_saved = [], k_port_saved = 0, k_restart_pending = False,
       k_task = False, k_stream_key = None \<rparr>,
     x_net = \<lparr> calls = 0, tx_log = [] \<rparr>, x_media = media_init, x_stream_iv = [], x_mirror_key = None,
     x_volume = 50, x_saved = [], x_vol_log = [], x_conn_log = [], x_tasks = [] \<rparr>"

definition node_zero :: node where
  "node_zero = \<lparr> n_rcv = rcv_zero, n_tasks = Map.empty, n_running = False \<rparr>"

inductive reachable :: "node \<Rightarrow> bool" where
  reach_zero: "reachable node_zero"
| reach_step: "reachable n \<Longrightarrow> receiver_step n m \<Longrightarrow> reachable m"

subsection \<open>The invariant\<close>

definition keyed :: "ctl \<Rightarrow> bool" where
  \<comment> \<open>some connection has its session key\<close>
  "keyed c \<longleftrightarrow> (\<exists>s\<in>set (s_sessions c). ss_in_use s \<and> ss_has_session_key s)"

definition keeps :: "ctl \<Rightarrow> ctl \<Rightarrow> bool" where
  \<comment> \<open>no slot changes hands or keys, and nobody becomes connected\<close>
  "keeps c d \<longleftrightarrow> map slot_view (s_sessions d) = map slot_view (s_sessions c) \<and> s_session_count d = s_session_count c
     \<and> (s_connected d \<longrightarrow> s_connected c)"

definition node_ok :: "node \<Rightarrow> bool" where
  "node_ok n \<longleftrightarrow> rcv_ok (n_rcv n) \<and> table_ok (x_ctl (n_rcv n))
     \<and> (\<forall>i t. n_tasks n i = Some t \<longrightarrow> ch_slot (t_chan t) = i \<and> miplay_session_find_locked (ch_fd (t_chan t)) (x_ctl (n_rcv n)) = Some i)
     \<and> (\<forall>fd i. miplay_session_find_locked fd (x_ctl (n_rcv n)) = Some i \<longrightarrow> n_tasks n i \<noteq> None)
     \<and> (s_connected (x_ctl (n_rcv n)) \<longrightarrow> keyed (x_ctl (n_rcv n)))"

lemma keeps_refl [simp]: "keeps c c"
  by (simp add: keeps_def)

lemma keeps_same: "s_sessions d = s_sessions c \<Longrightarrow> s_session_count d = s_session_count c \<Longrightarrow>
    s_connected d = s_connected c \<Longrightarrow> keeps c d"
  by (simp add: keeps_def)

lemma view_keyed: "map slot_view (s_sessions d) = map slot_view (s_sessions c) \<Longrightarrow> keyed d = keyed c"
proof -
  assume v: "map slot_view (s_sessions d) = map slot_view (s_sessions c)"
  have k: "keyed e \<longleftrightarrow> (\<exists>x\<in>set (map slot_view (s_sessions e)). fst (snd x) \<and> snd (snd (snd (fst x))))" for e
    by (simp add: keyed_def slot_view_def session_id_def session_keys_def)
  show ?thesis unfolding k v ..
qed

lemma view_find:
  assumes "map slot_view (s_sessions d) = map slot_view (s_sessions c)"
  shows "miplay_session_find_locked fd d = miplay_session_find_locked fd c"
  unfolding find_locked_eq by (rule same_slots_owns [OF view_slots [OF assms]])

lemma find_used:
  assumes "table_ok c" and "i < length (s_sessions c)" and "ss_in_use (s_sessions c ! i)"
  shows "miplay_session_find_locked (ss_sock (s_sessions c ! i)) c = Some i"
proof -
  have d: "distinct (map ss_sock (filter ss_in_use (s_sessions c)))" using assms(1) by (simp add: table_ok_def)
  have "\<not> owns (ss_sock (s_sessions c ! i)) (s_sessions c ! j)" if "j < i" for j
  proof -
    have "s_sessions c ! j \<in> set (take i (s_sessions c))" using that assms(2) by (force simp: in_set_conv_nth)
    moreover have "ss_sock s \<noteq> ss_sock (s_sessions c ! i)" if "s \<in> set (take i (s_sessions c))" and "ss_in_use s" for s
    proof -
      have "distinct (map ss_sock (filter ss_in_use (take i (s_sessions c))) @ ss_sock (s_sessions c ! i)
          # map ss_sock (filter ss_in_use (drop (Suc i) (s_sessions c))))"
        using d unfolding filter_at [OF assms(2), of ss_in_use] using assms(3) by (simp del: distinct_append distinct.simps)
      moreover have "ss_sock s \<in> set (map ss_sock (filter ss_in_use (take i (s_sessions c))))" using that by simp
      ultimately show ?thesis by (metis append_Cons disjoint_insert(1) distinct_append list.simps(15))
    qed
    ultimately show ?thesis by (auto simp: owns_def)
  qed
  with assms show ?thesis unfolding find_locked_eq by (intro find_slot_eq) (auto simp: owns_def)
qed

lemma find_in_use: "miplay_session_find_locked fd c = Some i \<Longrightarrow> i < length (s_sessions c) \<and> ss_in_use (s_sessions c ! i) \<and> ss_sock (s_sessions c ! i) = fd"
  by (auto simp: find_locked_eq owns_def dest: find_slot_Some)

lemma node_ok_keeps:
  assumes "node_ok n" and "keeps (x_ctl (n_rcv n)) (x_ctl y)" and "rcv_ok y"
    and "\<And>i. map_option t_chan (ts i) = map_option t_chan (n_tasks n i)"
  shows "node_ok (n \<lparr> n_rcv := y, n_tasks := ts \<rparr>)"
proof -
  have v: "map slot_view (s_sessions (x_ctl y)) = map slot_view (s_sessions (x_ctl (n_rcv n)))" using assms(2) by (simp add: keeps_def)
  have t: "ts i = None \<longleftrightarrow> n_tasks n i = None" "ts i = Some t \<Longrightarrow> \<exists>u. n_tasks n i = Some u \<and> t_chan u = t_chan t" for i t
    using assms(4) [of i] by (cases "ts i"; cases "n_tasks n i"; auto)+
  have "table_ok (x_ctl y)"
    using assms(1,2) by (intro view_table_ok [OF v]) (simp_all add: node_ok_def keeps_def)
  moreover have "ch_slot (t_chan t) = i \<and> miplay_session_find_locked (ch_fd (t_chan t)) (x_ctl (n_rcv n)) = Some i" if "ts i = Some t" for i t
  proof -
    from t(2) [OF that] obtain u where "n_tasks n i = Some u" "t_chan u = t_chan t" by blast
    moreover from this(1) assms(1) have "ch_slot (t_chan u) = i \<and> miplay_session_find_locked (ch_fd (t_chan u)) (x_ctl (n_rcv n)) = Some i"
      unfolding node_ok_def by blast
    ultimately show ?thesis by simp
  qed
  ultimately show ?thesis using assms(1-3)
    by (simp add: node_ok_def keeps_def view_find [OF v] view_keyed [OF v] t(1))
qed

lemma node_ok_rcv:
  "node_ok n \<Longrightarrow> keeps (x_ctl (n_rcv n)) (x_ctl y) \<Longrightarrow> rcv_ok y \<Longrightarrow> node_ok (n \<lparr> n_rcv := y \<rparr>)"
  using node_ok_keeps [of n y "n_tasks n"] by simp

lemma node_ok_running [simp]: "node_ok (n \<lparr> n_running := b \<rparr>) = node_ok n"
  by (simp add: node_ok_def)

subsection \<open>Local operations\<close>

lemma save_volume_ok [simp]: "x_ctl (miplay_save_volume ok v x) = x_ctl x"
  "rcv_ok (miplay_save_volume ok v x) \<longleftrightarrow> rcv_ok x \<and> (ok \<longrightarrow> v \<le> 100)"
  by (auto simp: miplay_save_volume_def rcv_ok_def x_ctl_def)

lemma rcv_ok_volume: "rcv_ok x \<Longrightarrow> v \<le> 100 \<Longrightarrow> rcv_ok (x \<lparr> x_volume := v \<rparr>)"
  by (simp add: rcv_ok_def)

lemma set_volume_ok: "rcv_ok x \<Longrightarrow> rcv_ok (miplay_set_volume nvs p x)" "x_ctl (miplay_set_volume nvs p x) = x_ctl x"
  by (auto simp: miplay_set_volume_def Let_def intro!: rcv_ok_volume)

lemma control_percent_le [simp]: "control_percent v \<le> 100"
  by (simp add: control_percent_def Let_def not_less)

lemma load_volume_le [simp]: "miplay_load_volume v \<le> 100"
  by (auto simp: miplay_load_volume_def Let_def split: option.split)

lemma paused_fields [simp]: "s_sessions (set_paused a c) = s_sessions c" "s_session_count (set_paused a c) = s_session_count c"
  "s_connected (set_paused a c) = s_connected c"
  by (simp_all add: set_paused_def miplay_set_audio_paused_def)

lemma control_ok:
  assumes t: "table_ok (x_ctl x)" and r: "rcv_ok x"
  shows "keeps (x_ctl x) (x_ctl (miplay_send_receiver_control q action value x)) \<and> rcv_ok (miplay_send_receiver_control q action value x)"
proof -
  define x1 where "x1 = set_ctl (set_paused action (x_ctl x)) x"
  define x2 where "x2 = set_ctl (miplay_session_load (miplay_session_active_locked (x_ctl x1)) (x_ctl x1)) x1"
  have r2: "rcv_ok x2" using r by (simp add: x1_def x2_def)
  have k2: "keeps (x_ctl x) (x_ctl x2)" by (rule keeps_same) (simp_all add: x1_def x2_def)
  show ?thesis
  proof (cases "miplay_session_active_locked (x_ctl x1)")
    case None
    then have "miplay_send_receiver_control q action value x = x2"
      by (simp add: miplay_send_receiver_control_def x1_def [symmetric] x2_def Let_def)
    with r2 k2 show ?thesis by simp
  next
    case (Some i)
    define s where "s = s_sessions (x_ctl x2) ! i"
    show ?thesis
    proof (cases "(0 \<le> ss_sock s \<and> ss_in_use s \<and> ss_media_session_opened s \<and> s_has_session_key (x_ctl x2)) \<and> control_body action value \<noteq> None")
      case False
      then have "miplay_send_receiver_control q action value x = x2"
        by (auto simp: miplay_send_receiver_control_def x1_def [symmetric] x2_def Some s_def Let_def split: option.split)
      with r2 k2 show ?thesis by simp
    next
      case True
      then obtain body where body: "control_body action value = Some body" by blast
      define x3 where "x3 = (if action = ''volume''
        then miplay_save_volume (q_nvs q) (control_percent value) (x2 \<lparr> x_volume := control_percent value \<rparr>) else x2)"
      obtain ret sq x4 where w: "on_wire (send_encrypted_cmd_auto_seq (q_env q) (ss_sock s) CMD_NOTIFY body) x3 = ((ret, sq), x4)"
        by (metis prod.exhaust)
      define x5 where "x5 = (if 0 < ret \<and> (action = ''pause'' \<or> action = ''resume'' \<or> action = ''play'')
        then emit (dispatched_event (action = ''pause'')) x4 else x4)"
      have eq: "miplay_send_receiver_control q action value x = set_ctl (miplay_session_save (Some i) (x_ctl x5)) x5"
        using True unfolding miplay_send_receiver_control_def x1_def [symmetric] Let_def Some option.case x2_def [unfolded Some, symmetric]
          s_def [symmetric] body x3_def [symmetric] w prod.case x5_def [symmetric] by simp
      define ch where "ch = \<lparr> ch_fd = ss_sock s, ch_slot = i, ch_peer_ip = 0, ch_device_id = [] \<rparr>"
      have t1: "table_ok (x_ctl x1)" using t by (rule table_ok_same) (simp_all add: x1_def)
      have i: "i < length (s_sessions (x_ctl x1))" using active_route_spec' [of "x_ctl x1"] Some by simp
      have "chan_ok ch (x_ctl x1)"
        using find_used [OF t1 i] i True by (simp add: chan_ok_def ch_def s_def x2_def)
      from load_loaded(1) [OF this] Some have l2: "loaded ch (x_ctl x2)" by (simp add: x2_def ch_def)
      have c3: "x_ctl x3 = x_ctl x2" and r3: "rcv_ok x3" using r2 by (simp_all add: x3_def rcv_ok_volume)
      have s4: "stays ch x3 x4"
        using stays_wire [of ch "send_encrypted_cmd_auto_seq (q_env q) (ss_sock s) CMD_NOTIFY body" x3] w
        by (simp add: auto_seq_step ch_def)
      then have "stays ch x3 x5" by (auto simp: x5_def intro: stays_trans)
      with l2 c3 r3 have s5: "slot_step ch (x_ctl x2) (x_ctl x5)" and r5: "rcv_ok x5" by (simp_all add: stays_def loaded_def)
      from loaded_step [OF l2 s5] have l5: "loaded ch (x_ctl x5)" .
      note s6 = save_step [OF l5]
      have "slot_step ch (x_ctl x2) (miplay_session_save (Some i) (x_ctl x5))"
        using slot_step_trans [OF _ s5 s6] l2 by (simp add: loaded_def ch_def)
      then have ts: "table_step ch (x_ctl x2) (miplay_session_save (Some i) (x_ctl x5))"
        and con: "s_connected (miplay_session_save (Some i) (x_ctl x5)) = s_connected (x_ctl x2)"
        by (auto simp: slot_step_def table_step_def)
      from table_step_view [OF _ ts] l2 con have "keeps (x_ctl x2) (miplay_session_save (Some i) (x_ctl x5))"
        by (simp add: keeps_def loaded_def)
      with k2 r5 show ?thesis by (simp add: eq keeps_def)
    qed
  qed
qed

subsection \<open>Connections\<close>

lemma alloc_cases:
  assumes "miplay_session_alloc fd ip port c = (r, d)"
  shows "(r = None \<and> d = c) \<or> (\<exists>i. r = Some i \<and> i < length (s_sessions c) \<and> \<not> ss_in_use (s_sessions c ! i)
    \<and> s_connected d = s_connected c
    \<and> s_sessions d = (s_sessions c)[i := zero_session \<lparr> ss_in_use := True, ss_sock := fd, ss_peer_ip := ip, ss_peer_port := port, ss_notify_seq := 8 \<rparr>])"
proof (cases "find_slot (\<lambda>s. \<not> ss_in_use s) (s_sessions c)")
  case None
  with assms show ?thesis by (simp add: miplay_session_alloc_def)
next
  case (Some i)
  with assms have "r = Some i" "s_connected d = s_connected c"
    "s_sessions d = (s_sessions c)[i := zero_session \<lparr> ss_in_use := True, ss_sock := fd, ss_peer_ip := ip, ss_peer_port := port, ss_notify_seq := 8 \<rparr>]"
    by (auto simp: miplay_session_alloc_def)
  with find_slot_Some [OF Some] show ?thesis by simp
qed

lemma node_task: "node_ok n \<Longrightarrow> n_tasks n i = Some t \<Longrightarrow>
    ch_slot (t_chan t) = i \<and> miplay_session_find_locked (ch_fd (t_chan t)) (x_ctl (n_rcv n)) = Some i"
  unfolding node_ok_def by blast

lemma keyed_update:
  "keyed c \<Longrightarrow> i < length (s_sessions c) \<Longrightarrow> \<not> (ss_in_use (s_sessions c ! i) \<and> ss_has_session_key (s_sessions c ! i)) \<or> ss_in_use s \<and> ss_has_session_key s \<Longrightarrow>
   s_sessions d = (s_sessions c)[i := s] \<Longrightarrow> keyed d"
proof -
  assume k: "keyed c" and i: "i < length (s_sessions c)" and d: "s_sessions d = (s_sessions c)[i := s]"
    and s: "\<not> (ss_in_use (s_sessions c ! i) \<and> ss_has_session_key (s_sessions c ! i)) \<or> ss_in_use s \<and> ss_has_session_key s"
  from k obtain j where j: "j < length (s_sessions c)" "ss_in_use (s_sessions c ! j)" "ss_has_session_key (s_sessions c ! j)"
    by (auto simp: keyed_def in_set_conv_nth)
  show ?thesis
  proof (cases "j = i")
    case True
    with i j s have "ss_in_use s \<and> ss_has_session_key s" by simp
    then show ?thesis using set_update_memI [OF i, of s] by (auto simp: keyed_def d)
  next
    case False
    then have "s_sessions c ! j \<in> set (s_sessions d)" using j by (force simp: d in_set_conv_nth nth_list_update)
    with j show ?thesis by (auto simp: keyed_def)
  qed
qed

lemma node_ok_accept:
  assumes ok: "node_ok n" and fd: "miplay_session_find_locked fd (x_ctl (n_rcv n)) = None"
    and acc: "tcp_accept fd ip port started (n_rcv n) = (r, y)"
  shows "node_ok (n \<lparr> n_rcv := y, n_tasks := (case r of None \<Rightarrow> n_tasks n
      | Some i \<Rightarrow> (n_tasks n)(i \<mapsto> \<lparr> t_chan = \<lparr> ch_fd = fd, ch_slot = i, ch_peer_ip = ip, ch_device_id = did \<rparr>, t_conn = None \<rparr>)) \<rparr>)"
proof -
  let ?c = "x_ctl (n_rcv n)"
  have t: "table_ok ?c" and rok: "rcv_ok (n_rcv n)" using ok by (simp_all add: node_ok_def)
  obtain o' d where a: "miplay_session_alloc fd ip port ?c = (o', d)" by fastforce
  show ?thesis
  proof (cases o')
    case None
    with alloc_cases [OF a] acc a have "r = None" "y = set_ctl ?c (n_rcv n)" by (simp_all add: tcp_accept_def)
    with ok show ?thesis using node_ok_rcv [OF ok, of y] by (simp add: rok)
  next
    case (Some i)
    from alloc_cases [OF a] Some have i: "i < length (s_sessions ?c)" "\<not> ss_in_use (s_sessions ?c ! i)" "s_connected d = s_connected ?c"
      and d: "s_sessions d = (s_sessions ?c)[i := zero_session \<lparr> ss_in_use := True, ss_sock := fd, ss_peer_ip := ip, ss_peer_port := port, ss_notify_seq := 8 \<rparr>]"
      by auto
    have td: "table_ok d" using alloc_table_ok [OF t fd, of ip port] a by simp
    have "s_session_count ?c < MIPLAY_MAX_CONTROL_SESSIONS"
      using no_free_slot [OF t] a Some by (auto simp: miplay_session_alloc_def split: option.splits)
    from alloc_free_slot [OF t fd this, of ip port] a Some have f: "miplay_session_find_locked fd d = Some i"
      "k \<noteq> fd \<Longrightarrow> miplay_session_find_locked k d = miplay_session_find_locked k ?c" for k by auto
    have kd: "keyed ?c \<Longrightarrow> keyed d" using keyed_update [OF _ i(1) _ d] i(2) by blast
    show ?thesis
    proof (cases started)
      case True
      define e where "e = d \<lparr> s_sessions := (s_sessions d)[i := (s_sessions d ! i) \<lparr> ss_task := True \<rparr>] \<rparr>"
      have y: "r = Some i" "y = set_ctl e (n_rcv n)" using acc a Some True by (simp_all add: tcp_accept_def e_def)
      have v: "map slot_view (s_sessions e) = map slot_view (s_sessions d)"
        using i(1) by (simp add: e_def d map_update slot_view_def session_keys_def session_id_def)
      have te: "table_ok e" by (rule view_table_ok [OF v _ td]) (simp add: e_def)
      have fresh: "n_tasks n i = None"
      proof (rule ccontr)
        assume "n_tasks n i \<noteq> None"
        then obtain u where "n_tasks n i = Some u" by blast
        from node_task [OF ok this] have "ss_in_use (s_sessions ?c ! i)" using find_in_use by blast
        with i(2) show False by simp
      qed
      have "n_tasks n k = Some u \<Longrightarrow> ch_fd (t_chan u) \<noteq> fd" for k u using node_task [OF ok, of k u] fd by auto
      note other = this
      have fe: "miplay_session_find_locked k e = (if k = fd then Some i else miplay_session_find_locked k ?c)" for k
        using f by (simp add: view_find [OF v])
      have ce: "s_connected e \<longrightarrow> keyed e"
      proof -
        have "s_connected e = s_connected d" by (simp add: e_def)
        with ok kd i(3) show ?thesis by (simp add: view_keyed [OF v] node_ok_def)
      qed
      show ?thesis using ok rok te ce fd fresh other unfolding node_ok_def
        by (simp add: y fe)
    next
      case False
      have y: "r = None" "y = set_ctl (miplay_session_release (Some i) d) (n_rcv n)" using acc a Some False by (simp_all add: tcp_accept_def)
      let ?e = "miplay_session_release (Some i) d"
      have te: "table_ok ?e" using td i(1) d by (intro release_table_ok) simp_all
      have fe: "miplay_session_find_locked k ?e = miplay_session_find_locked k ?c" for k
        using find_release [OF td f(1)] f(2) fd by (cases "k = fd") simp_all
      have se: "s_sessions ?e = (s_sessions ?c)[i := (s_sessions d ! i) \<lparr> ss_in_use := False, ss_task := False \<rparr>]"
        using i(1) d by (simp add: miplay_session_release_def)
      have "keyed ?c \<Longrightarrow> keyed ?e" using keyed_update [OF _ i(1) _ se] i(2) by blast
      moreover have "s_connected ?e = s_connected ?c" using i(3) by (simp add: miplay_session_release_def)
      ultimately show ?thesis using ok rok te by (auto simp: node_ok_def y fe)
    qed
  qed
qed

lemma client_start_ok:
  assumes "chan_ok ch (x_ctl x)" and y_def: "y = client_start q ch rs mac pport lip lport x"
  shows "rcv_ok y = rcv_ok x" and "s_connected (x_ctl y) = s_connected (x_ctl x)" and "s_session_count (x_ctl y) = s_session_count (x_ctl x)"
    and "\<exists>s. session_id s = session_id (s_sessions (x_ctl x) ! ch_slot ch) \<and> ss_has_session_key s
       \<and> s_sessions (x_ctl y) = (s_sessions (x_ctl x))[ch_slot ch := s]"
proof -
  let ?i = "ch_slot ch"
  have i: "?i < length (s_sessions (x_ctl x))" using assms by (simp add: chan_ok_def)
  show "rcv_ok y = rcv_ok x" by (simp add: y_def client_start_def Let_def send_plain_def)
  show "s_connected (x_ctl y) = s_connected (x_ctl x)" "s_session_count (x_ctl y) = s_session_count (x_ctl x)"
    by (simp_all add: y_def client_start_def Let_def send_plain_def miplay_session_save_def derive_session_key_def generate_auth_msg_def)
  define c1 where "c1 = (miplay_session_load (Some ?i) (x_ctl x)) \<lparr> s_notify_seq := 8, s_reverse_control_ready := False,
    s_play_source_registered := False, s_media_session_opened := False, s_active_client_sock := ch_fd ch, s_active_peer_ip := ch_peer_ip ch \<rparr>"
  define s1 where "s1 = save_fields c1 (s_sessions (x_ctl x) ! ?i)"
  define c2 where "c2 = miplay_session_save (Some ?i) c1"
  define c4 where "c4 = generate_auth_msg rs (derive_session_key (q_hash q) (ch_peer_ip ch) pport lip lport (miplay_session_load (Some ?i) c2))"
  have s1: "s_sessions c2 = (s_sessions (x_ctl x))[?i := s1]" by (simp add: c2_def s1_def c1_def miplay_session_save_def)
  have c4: "s_sessions c4 = s_sessions c2" "s_has_session_key c4" by (simp_all add: c4_def generate_auth_msg_def derive_session_key_def Let_def)
  have "x_ctl y = miplay_session_save (Some ?i) c4"
    unfolding y_def client_start_def Let_def c1_def [symmetric] c2_def [symmetric] c4_def [symmetric] by (simp add: send_plain_def)
  then have "s_sessions (x_ctl y) = (s_sessions (x_ctl x))[?i := save_fields c4 s1]"
    using i by (simp add: miplay_session_save_def c4 s1)
  moreover have "session_id (save_fields c4 s1) = session_id (s_sessions (x_ctl x) ! ?i)" "ss_has_session_key (save_fields c4 s1)"
    using c4 by (simp_all add: save_fields_def session_id_def s1_def)
  ultimately show "\<exists>s. session_id s = session_id (s_sessions (x_ctl x) ! ch_slot ch) \<and> ss_has_session_key s
       \<and> s_sessions (x_ctl y) = (s_sessions (x_ctl x))[?i := s]" by blast
qed

lemma client_end_ok:
  assumes "table_ok (x_ctl x)" and f: "miplay_session_find_locked fd (x_ctl x) = Some i" and c: "s_connected (x_ctl x) \<longrightarrow> keyed (x_ctl x)"
  shows "table_ok (x_ctl (client_end cb i x))"
    and "miplay_session_find_locked k (x_ctl (client_end cb i x)) = (if k = fd then None else miplay_session_find_locked k (x_ctl x))"
    and "s_connected (x_ctl (client_end cb i x)) \<longrightarrow> keyed (x_ctl (client_end cb i x))"
    and "rcv_ok (client_end cb i x) = rcv_ok x"
proof -
  obtain d gone where d: "disconnect_cleanup i (x_ctl x) = (d, gone)" by fastforce
  have i: "i < length (s_sessions (x_ctl x))" using f by (rule find_length)
  have e: "x_ctl (client_end cb i x) = miplay_session_release (Some i) d" by (simp add: client_end_def d Let_def)
  have td: "table_ok d" and fd: "miplay_session_find_locked k d = miplay_session_find_locked k (x_ctl x)" for k
    using cleanup_table_ok [OF assms(1) i] cleanup_find [OF i] d by simp_all
  have ld: "i < length (s_sessions d)" using fd [of fd] f by (auto dest: find_length)
  show "table_ok (x_ctl (client_end cb i x))" unfolding e using td ld by (rule release_table_ok)
  show "miplay_session_find_locked k (x_ctl (client_end cb i x)) = (if k = fd then None else miplay_session_find_locked k (x_ctl x))"
    using find_release [OF td, of fd i] fd f by (simp add: e)
  show "rcv_ok (client_end cb i x) = rcv_ok x" by (simp add: client_end_def d Let_def)
  note s = cleanup_spec [OF i d]
  show "s_connected (x_ctl (client_end cb i x)) \<longrightarrow> keyed (x_ctl (client_end cb i x))"
  proof (cases gone)
    case True
    with s show ?thesis by (simp add: e miplay_session_release_def)
  next
    case False
    with s have "keyed d" by (auto simp: keyed_def)
    moreover have "\<not> ss_has_session_key (s_sessions d ! i)" using s i by simp
    moreover have "s_sessions (miplay_session_release (Some i) d) = (if ss_in_use (s_sessions d ! i)
        then (s_sessions d)[i := (s_sessions d ! i) \<lparr> ss_in_use := False, ss_task := False \<rparr>] else s_sessions d)"
      by (simp add: miplay_session_release_def)
    ultimately have "keyed (miplay_session_release (Some i) d)"
      using keyed_update [OF _ ld, of "(s_sessions d ! i) \<lparr> ss_in_use := False, ss_task := False \<rparr>" "miplay_session_release (Some i) d"]
      by (cases "ss_in_use (s_sessions d ! i)") (auto simp: keyed_def)
    then show ?thesis by (simp add: e)
  qed
qed

lemma task_chan_ok: "node_ok n \<Longrightarrow> n_tasks n i = Some t \<Longrightarrow> chan_ok (t_chan t) (x_ctl (n_rcv n)) \<and> ch_slot (t_chan t) = i"
  using node_task [of n i t] find_length unfolding chan_ok_def by blast

lemma node_ok_end:
  assumes ok: "node_ok (n \<lparr> n_rcv := x \<rparr>)" and t: "n_tasks n i = Some t"
  shows "node_ok (n \<lparr> n_rcv := client_end cb i x, n_tasks := (n_tasks n)(i := None) \<rparr>)"
proof -
  have f: "miplay_session_find_locked (ch_fd (t_chan t)) (x_ctl x) = Some i" using node_task [OF ok] t by simp
  have p: "table_ok (x_ctl x)" "s_connected (x_ctl x) \<longrightarrow> keyed (x_ctl x)" "rcv_ok x" using ok by (simp_all add: node_ok_def)
  note e = client_end_ok [OF p(1) f p(2)]
  have other: "ch_fd (t_chan u) \<noteq> ch_fd (t_chan t)" if "n_tasks n k = Some u" "k \<noteq> i" for k u
    using node_task [OF ok, of k u] f that by auto
  have same: "miplay_session_find_locked fd (x_ctl x) = Some i \<Longrightarrow> fd = ch_fd (t_chan t)" for fd
    using find_in_use f by blast
  show ?thesis
    using ok e p other same unfolding node_ok_def by (auto split: if_splits)
qed

lemma node_ok_frame:
  assumes ok: "node_ok n" and t: "n_tasks n i = Some t" and h: "handle_frame q (t_chan t) f (cn, n_rcv n) = ((cn', y), quit)"
  shows "node_ok (n \<lparr> n_rcv := y \<rparr>)"
proof -
  let ?c = "x_ctl (n_rcv n)" and ?ch = "t_chan t"
  have ch: "ch_slot ?ch = i" and f: "miplay_session_find_locked (ch_fd ?ch) ?c = Some i" using node_task [OF ok t] by simp_all
  have c: "chan_ok ?ch ?c" using ch f by (simp add: chan_ok_def find_length)
  from frame_step_ok [OF c h] have s: "table_step ?ch ?c (x_ctl y)" "rcv_ok (n_rcv n) \<longrightarrow> rcv_ok y"
    "s_connected (x_ctl y) \<longleftrightarrow> s_connected ?c \<or> proves q f (s_sessions ?c ! i)" by (simp_all add: ch)
  from table_step_view [OF c s(1)] have v: "map slot_view (s_sessions (x_ctl y)) = map slot_view (s_sessions ?c)"
    and n: "s_session_count (x_ctl y) = s_session_count ?c" by blast+
  have "keyed ?c" if "proves q f (s_sessions ?c ! i)"
    using that find_in_use [OF f] nth_mem unfolding keyed_def proves_def by blast
  with s(3) ok have k: "s_connected (x_ctl y) \<longrightarrow> keyed (x_ctl y)" by (auto simp: node_ok_def view_keyed [OF v])
  have "table_ok (x_ctl y)" using ok by (intro view_table_ok [OF v n]) (simp add: node_ok_def)
  with ok k s(2) show ?thesis by (simp add: node_ok_def view_find [OF v])
qed

lemma node_ok_served:
  "node_ok n \<Longrightarrow> n_tasks n i = Some t \<Longrightarrow> handle_frame q (t_chan t) f (cn, n_rcv n) = ((cn', y), quit) \<Longrightarrow>
   node_ok (n \<lparr> n_rcv := y, n_tasks := (n_tasks n)(i \<mapsto> t \<lparr> t_conn := Some cn' \<rparr>) \<rparr>)"
  using node_ok_frame [of n i t q f cn cn' y quit] by (auto simp: node_ok_def)

lemma node_ok_inline:
  "node_ok n \<Longrightarrow> n_tasks n i = Some t \<Longrightarrow> handle_frame q (t_chan t) f (cn, n_rcv n) = ((cn', y), quit) \<Longrightarrow>
   node_ok (n \<lparr> n_rcv := client_end cb i y, n_tasks := (n_tasks n)(i := None) \<rparr>)"
  by (rule node_ok_end [OF node_ok_frame])

lemma node_ok_start:
  assumes ok: "node_ok n" and t: "n_tasks n i = Some t" and y: "y = client_start q (t_chan t) rs mac pport lip lport (n_rcv n)"
  shows "node_ok (n \<lparr> n_rcv := y, n_tasks := (n_tasks n)(i \<mapsto> t \<lparr> t_conn := Some conn_init \<rparr>) \<rparr>)"
proof -
  let ?c = "x_ctl (n_rcv n)" and ?ch = "t_chan t"
  have ch: "ch_slot ?ch = i" and f: "miplay_session_find_locked (ch_fd ?ch) ?c = Some i" using node_task [OF ok t] by simp_all
  have c: "chan_ok ?ch ?c" using ch f by (simp add: chan_ok_def find_length)
  note s = client_start_ok [OF c y]
  from s(4) obtain u where u: "session_id u = session_id (s_sessions ?c ! i)" "ss_has_session_key u" "s_sessions (x_ctl y) = (s_sessions ?c)[i := u]"
    by (auto simp: ch)
  have i: "i < length (s_sessions ?c)" using f by (rule find_length)
  have same: "same_slots (s_sessions (x_ctl y)) (s_sessions ?c)"
    unfolding u(3) using i u(1) by (intro same_slots_update) (simp_all add: session_id_def)
  have fy: "miplay_session_find_locked k (x_ctl y) = miplay_session_find_locked k ?c" for k
    unfolding find_locked_eq by (rule same_slots_owns [OF same])
  have "ss_in_use u" using u(1) find_in_use [OF f] by (simp add: session_id_def)
  then have "keyed (x_ctl y)" using u i set_update_memI [of i "s_sessions ?c" u] by (auto simp: keyed_def)
  moreover have "table_ok (x_ctl y)" by (rule table_ok_same [OF _ same s(3)]) (use ok in \<open>simp add: node_ok_def\<close>)
  ultimately show ?thesis using ok s(1) t by (auto simp: node_ok_def fy)
qed

lemma rtsp_end_keeps:
  assumes "table_ok (k_ctl k)"
  shows "keeps (k_ctl k) (k_ctl (miplay_rtsp_task_wrapper a k)) \<and> k_host_saved (miplay_rtsp_task_wrapper a k) = k_host_saved k"
proof -
  let ?d = "miplay_mark_media_session_closed (a_client_sock a) (a_generation a) (k_ctl k)"
  have "map slot_view (s_sessions ?d) = map slot_view (s_sessions (k_ctl k))"
    by (auto simp: miplay_mark_media_session_closed_def Let_def map_update slot_view_def session_keys_def session_id_def
        list_update_same_conv dest: find_length split: option.splits)
  then have "keeps (k_ctl k) ?d"
    by (simp add: keeps_def) (simp add: miplay_mark_media_session_closed_def Let_def split: option.splits)
  then show ?thesis by (simp add: miplay_rtsp_task_wrapper_def rtsp_run_end_def Let_def)
qed

lemma node_ok_init:
  assumes "node_ok n" and "n_tasks n = Map.empty" and "miplay_init mux_ok stored mdns_err tcp_ok n = (r, m)"
  shows "node_ok m"
proof (cases "n_running n \<or> \<not> mux_ok")
  case True
  with assms show ?thesis by (auto simp: miplay_init_def split: if_splits)
next
  case False
  define x1 where "x1 = (set_ctl (reset_ctl (x_ctl (n_rcv n))) (n_rcv n))
    \<lparr> x_media := miplay_reset_media_state (s_media_generation (reset_ctl (x_ctl (n_rcv n)))) (x_media (n_rcv n)), x_volume := miplay_load_volume stored \<rparr>"
  have m: "\<exists>b. m = n \<lparr> n_rcv := x1, n_running := b \<rparr>"
    using False assms(3) by (cases n) (auto simp: miplay_init_def Let_def x1_def set_ctl_def split: if_splits)
  have c: "x_ctl x1 = reset_ctl (x_ctl (n_rcv n))" by (simp add: x1_def x_ctl_def set_ctl_def)
  have "rcv_ok x1" using assms(1)
    by (simp add: x1_def node_ok_def rcv_ok_def set_ctl_def) (auto simp: miplay_reset_media_state_def miplay_reset_position_state_hint_def media_ok_def)
  moreover have "table_ok (x_ctl x1)" by (simp add: c reset_ctl_def table_ok_def zero_session_def)
  moreover have "miplay_session_find_locked fd (x_ctl x1) = None" for fd
    by (auto simp: c reset_ctl_def find_locked_eq find_slot_None owns_def zero_session_def)
  ultimately show ?thesis using m assms(2) by (auto simp: node_ok_def c reset_ctl_def)
qed

lemma node_ok_rtsp_end:
  assumes "node_ok n"
  shows "node_ok (n \<lparr> n_rcv := (n_rcv n) \<lparr> x_link := miplay_rtsp_task_wrapper a (x_link (n_rcv n)) \<rparr> \<rparr>)"
proof -
  have "rcv_ok (n_rcv n)" "table_ok (k_ctl (x_link (n_rcv n)))" using assms by (simp_all add: node_ok_def x_ctl_def)
  with rtsp_end_keeps [of "x_link (n_rcv n)" a] show ?thesis
    by (intro node_ok_rcv [OF assms]) (simp_all add: x_ctl_def rcv_ok_def)
qed

lemma node_ok_control: "node_ok n \<Longrightarrow> node_ok (n \<lparr> n_rcv := miplay_send_receiver_control q action value (n_rcv n) \<rparr>)"
  using control_ok [of "n_rcv n"] by (intro node_ok_rcv) (simp_all add: node_ok_def)

lemma node_ok_volume: "node_ok n \<Longrightarrow> node_ok (n \<lparr> n_rcv := miplay_set_volume nvs percent (n_rcv n) \<rparr>)"
  by (intro node_ok_rcv) (simp_all add: set_volume_ok node_ok_def)

lemma node_ok_stop: "node_ok n \<Longrightarrow> node_ok (miplay_stop n)"
proof -
  assume ok: "node_ok n"
  then have "node_ok (n \<lparr> n_rcv := set_ctl ((x_ctl (n_rcv n)) \<lparr> s_media_paused := True \<rparr>) (n_rcv n) \<rparr>)"
    by (intro node_ok_rcv [OF ok] keeps_same) (simp_all add: node_ok_def)
  with ok show ?thesis by (auto simp: miplay_stop_def node_ok_def)
qed

lemma node_ok_step: "receiver_step n m \<Longrightarrow> node_ok n \<Longrightarrow> node_ok m"
proof (induction rule: receiver_step.induct)
  case Accept
  then show ?case by - (rule node_ok_accept; assumption)
next
  case Start
  then show ?case by - (rule node_ok_start [OF _ _ refl]; assumption)
next
  case Frame
  then show ?case by - (rule node_ok_served; assumption)
next
  case Inline
  then show ?case by - (rule node_ok_inline; assumption)
next
  case (End n i t cb)
  then show ?case by - (rule node_ok_end [where t = t], simp_all)
next
  case Init
  then show ?case by - (rule node_ok_init; assumption)
qed (simp_all add: node_ok_rtsp_end node_ok_control node_ok_volume node_ok_stop)

lemma client_end_connected: "s_connected (x_ctl (client_end cb i x)) \<Longrightarrow> s_connected (x_ctl x)"
  by (auto simp: client_end_def disconnect_cleanup_def Let_def wipe_session_def miplay_session_save_def miplay_session_release_def
      split: option.splits if_splits)

subsection \<open>Corner cases\<close>

text \<open>A connection that derived its key but proved nothing keeps the receiver connected when the
  phone that proved itself leaves.\<close>

lemma connected_outlives_proof:
  assumes "j < length (s_sessions (x_ctl x))" and "ss_in_use (s_sessions (x_ctl x) ! j)" and "ss_has_session_key (s_sessions (x_ctl x) ! j)"
    and "i < length (s_sessions (x_ctl x))" and "i \<noteq> j"
  shows "s_connected (x_ctl (client_end cb i x)) = s_connected (x_ctl x)"
proof -
  obtain d gone where d: "disconnect_cleanup i (x_ctl x) = (d, gone)" by fastforce
  have j: "s_sessions d ! j = s_sessions (x_ctl x) ! j" "j < length (s_sessions d)"
    using cleanup_spec [OF assms(4) d] assms by (simp_all add: nth_list_update)
  with cleanup_spec [OF assms(4) d] assms(2,3) have "\<not> gone" using nth_mem [of j "s_sessions d"] by auto
  then have "s_connected d = s_connected (x_ctl x)"
    using d by (auto simp: disconnect_cleanup_def Let_def wipe_session_def miplay_session_save_def split: option.splits if_splits)
  then show ?thesis by (simp add: client_end_def d Let_def miplay_session_release_def)
qed

text \<open>After a failed verification the socket is closed while its slot is still in use: when the
  next connection gets the same descriptor, two slots hold it.\<close>

lemma descriptor_reused:
  assumes "table_ok c" and "miplay_session_find_locked fd c = Some i" and "miplay_session_alloc fd ip port c = (Some j, d)"
  shows "\<not> table_ok d"
proof
  assume t: "table_ok d"
  from alloc_cases [OF assms(3)] have j: "j < length (s_sessions c)" "\<not> ss_in_use (s_sessions c ! j)"
    "s_sessions d = (s_sessions c)[j := zero_session \<lparr> ss_in_use := True, ss_sock := fd, ss_peer_ip := ip, ss_peer_port := port, ss_notify_seq := 8 \<rparr>]"
    by auto
  note i = find_in_use [OF assms(2)]
  have ne: "i \<noteq> j" using i j by auto
  have "miplay_session_find_locked fd d = Some i" using find_used [OF t, of i] i j ne by simp
  moreover have "miplay_session_find_locked fd d = Some j" using find_used [OF t, of j] j by simp
  ultimately show False using ne by simp
qed

text \<open>\<open>miplay_stop\<close> does not wait for the control tasks: an \<open>miplay_init\<close> that follows before they
  notice wipes the table under them.\<close>

lemma restart_under_task:
  assumes "node_ok n" and "n_tasks n i \<noteq> None" and "\<not> n_running n" and "miplay_init True stored ESP_OK True n = (r, m)"
  shows "\<not> node_ok m \<and> n_running m"
proof -
  obtain t where t: "n_tasks m i = Some t" using assms by (auto simp: miplay_init_def Let_def)
  have "x_ctl (n_rcv m) = reset_ctl (x_ctl (n_rcv n))" using assms(3,4) by (auto simp: miplay_init_def Let_def x_ctl_def set_ctl_def)
  then have "miplay_session_find_locked (ch_fd (t_chan t)) (x_ctl (n_rcv m)) = None"
    by (auto simp: reset_ctl_def find_locked_eq find_slot_None owns_def zero_session_def)
  with t node_task [of m i t] have "\<not> node_ok m" by auto
  then show ?thesis using assms(3,4) by (auto simp: miplay_init_def Let_def)
qed

subsection \<open>Properties\<close>

lemma node_zero_ok: "node_ok node_zero"
proof -
  have "miplay_session_find_locked fd ctl_init = None" for fd
    by (auto simp: find_locked_eq find_slot_None owns_def ctl_init_def zero_session_def)
  moreover have "rcv_ok rcv_zero" by (simp add: rcv_ok_def rcv_zero_def media_init_ok)
  moreover have "table_ok ctl_init" by (simp add: table_ok_def ctl_init_def zero_session_def)
  ultimately show ?thesis by (simp add: node_ok_def node_zero_def rcv_zero_def x_ctl_def) (simp add: ctl_init_def)
qed

lemma reachable_ok: "reachable n \<Longrightarrow> node_ok n"
  by (induction rule: reachable.induct) (auto intro: node_zero_ok node_ok_step)

lemma node_tasks_slots:
  assumes "node_ok n"
  shows "dom (n_tasks n) = {i. i < length (s_sessions (x_ctl (n_rcv n))) \<and> ss_in_use (s_sessions (x_ctl (n_rcv n)) ! i)}"
proof (rule set_eqI)
  fix i
  have t: "table_ok (x_ctl (n_rcv n))" using assms by (simp add: node_ok_def)
  show "i \<in> dom (n_tasks n) \<longleftrightarrow> i \<in> {i. i < length (s_sessions (x_ctl (n_rcv n))) \<and> ss_in_use (s_sessions (x_ctl (n_rcv n)) ! i)}"
    using node_task [OF assms, of i] find_in_use find_used [OF t, of i] assms unfolding node_ok_def by (auto simp: dom_def) blast+
qed

lemma filter_slots: "card {i. i < length ss \<and> P (ss ! i)} = length (filter P ss)"
  by (simp add: length_filter_conv_card)

lemma connecting_step:
  assumes "receiver_step n m" and "node_ok n" and "\<not> s_connected (x_ctl (n_rcv n))" and "s_connected (x_ctl (n_rcv m))"
  shows "\<exists>i t q f. n_tasks n i = Some t \<and> t_conn t \<noteq> None \<and> proves q f (s_sessions (x_ctl (n_rcv n)) ! i)"
  using assms
proof (induction rule: receiver_step.induct)
  case (Accept n fd ip port started r y did)
  then show ?case by (auto simp: tcp_accept_def miplay_session_release_def dest!: alloc_cases split: option.splits prod.splits if_splits)
next
  case (Start n i t q rs mac pport lip lport)
  then have "chan_ok (t_chan t) (x_ctl (n_rcv n))" using task_chan_ok [of n i t] by simp
  from client_start_ok(2) [OF this refl] Start show ?case by simp
next
  case (Frame n i t cn q f cn' y)
  then have c: "chan_ok (t_chan t) (x_ctl (n_rcv n))" "ch_slot (t_chan t) = i" using task_chan_ok [of n i t] by simp_all
  from frame_step_ok [OF c(1) Frame.hyps(3)] Frame c(2) show ?case by auto
next
  case (Inline n i t cn q f cn' y cb)
  then have c: "chan_ok (t_chan t) (x_ctl (n_rcv n))" "ch_slot (t_chan t) = i" using task_chan_ok [of n i t] by simp_all
  from client_end_connected Inline have "s_connected (x_ctl y)" by auto
  with frame_step_ok [OF c(1) Inline.hyps(3)] Inline c(2) show ?case by auto
next
  case (End n i t cb)
  then show ?case using client_end_connected by auto
next
  case (Rtsp_end n a)
  then show ?case using rtsp_end_keeps [of "x_link (n_rcv n)" a] by (simp add: node_ok_def x_ctl_def keeps_def)
next
  case (Control n q action val)
  then show ?case using control_ok [of "n_rcv n" q action val] by (simp add: node_ok_def keeps_def)
next
  case (Volume n nvs percent)
  then show ?case by (simp add: set_volume_ok)
next
  case (Stop n)
  then show ?case by (auto simp: miplay_stop_def split: if_splits)
next
  case (Init n mux_ok stored mdns_err tcp_ok r m)
  then show ?case by (auto simp: miplay_init_def Let_def x_ctl_def set_ctl_def reset_ctl_def split: if_splits)
qed


definition sample_start :: node where
  "sample_start = snd (miplay_init True (Some 30) ESP_OK True node_zero)"

definition sample_task :: task where
  "sample_task = \<lparr> t_chan = sample_chan, t_conn = None \<rparr>"

definition sample_accepted :: node where
  "sample_accepted = sample_start \<lparr> n_rcv := snd (tcp_accept 4 1 60000 True (n_rcv sample_start)), n_tasks := [0 \<mapsto> sample_task] \<rparr>"

definition sample_started :: node where
  "sample_started = sample_accepted \<lparr> n_rcv := client_start sample_cenv sample_chan [1, 2, 3, 4] [1, 2, 3, 4, 5, 6] 60000 2 8899 (n_rcv sample_accepted),
     n_tasks := [0 \<mapsto> sample_task \<lparr> t_conn := Some conn_init \<rparr>] \<rparr>"

lemma sample_reachable: "reachable sample_accepted" "reachable sample_started"
proof -
  have "miplay_init True (Some 30) ESP_OK True node_zero = (ESP_OK, sample_start)"
    by (simp add: sample_start_def miplay_init_def node_zero_def Let_def)
  from reach_step [OF reach_zero Init [OF _ this]] have s: "reachable sample_start" by (simp add: node_zero_def)
  have run: "n_running sample_start" "n_tasks sample_start = Map.empty" "s_sessions (x_ctl (n_rcv sample_start)) = [zero_session, zero_session, zero_session]"
    by (simp_all add: sample_start_def miplay_init_def node_zero_def Let_def rcv_zero_def set_ctl_def x_ctl_def reset_ctl_def MIPLAY_MAX_CONTROL_SESSIONS_def eval_nat_numeral)
  have "miplay_session_find_locked 4 (x_ctl (n_rcv sample_start)) = None" by (simp add: find_locked_eq run owns_def zero_session_def)
  moreover have "tcp_accept 4 1 60000 True (n_rcv sample_start) = (Some 0, snd (tcp_accept 4 1 60000 True (n_rcv sample_start)))"
    by (simp add: tcp_accept_def miplay_session_alloc_def run zero_session_def)
  ultimately show a: "reachable sample_accepted"
    using reach_step [OF s Accept [OF run(1), of 4 1 60000 True "Some 0" _ "[]"]] by (simp add: sample_accepted_def sample_task_def sample_chan_def run)
  have "n_tasks sample_accepted 0 = Some sample_task" by (simp add: sample_accepted_def)
  from reach_step [OF a Start [OF this, of sample_cenv "[1, 2, 3, 4]" "[1, 2, 3, 4, 5, 6]" 60000 2 8899]]
  show "reachable sample_started" by (simp add: sample_started_def sample_task_def sample_accepted_def)
qed


text \<open>C3: Of all the steps of the receiver only one connects it: a frame that a running control
  task handles and that holds, encrypted under the key of its connection, the HMAC of the
  challenge of that connection.\<close>

theorem only_proof_connects:
  assumes "reachable n" and "receiver_step n m" and "\<not> miplay_is_connected (n_rcv n)" and "miplay_is_connected (n_rcv m)"
  shows "\<exists>i t q f. n_tasks n i = Some t \<and> t_conn t \<noteq> None \<and> proves q f (s_sessions (x_ctl (n_rcv n)) ! i)"
  using connecting_step [OF assms(2) reachable_ok [OF assms(1)]] assms(3,4) by (simp add: miplay_is_connected_def)

lemma sample_keys:
  fixes c :: ctl and s :: session
  defines "c \<equiv> x_ctl (n_rcv sample_started)" and "s \<equiv> s_sessions (x_ctl (n_rcv sample_started)) ! 0"
  shows "length (ss_aes_key s) = AES_BLOCK_LEN \<and> length (ss_decrypt_iv s) = AES_BLOCK_LEN \<and> ss_has_session_key s \<and> \<not> s_connected c"
proof -
  have len: "0 < length (s_sessions (x_ctl (n_rcv sample_accepted)))" and con: "\<not> s_connected (x_ctl (n_rcv sample_accepted))"
    using reachable_ok [OF sample_reachable(1)]
    by (simp_all add: node_ok_def table_ok_def MIPLAY_MAX_CONTROL_SESSIONS_def)
      (simp add: sample_accepted_def sample_start_def tcp_accept_def miplay_session_alloc_def miplay_init_def node_zero_def Let_def
        rcv_zero_def set_ctl_def x_ctl_def reset_ctl_def ctl_init_def split: option.split)
  have md5: "h_md5 (q_hash sample_cenv) = (\<lambda>m. replicate 16 0xa5)" by (simp add: sample_cenv_def sample_hashes_def)
  have "s_connected c = s_connected (x_ctl (n_rcv sample_accepted))"
    by (simp add: c_def sample_started_def client_start_def Let_def send_plain_def miplay_session_save_def derive_session_key_def generate_auth_msg_def)
  then show ?thesis using len con
    by (simp add: s_def sample_started_def client_start_def Let_def send_plain_def sample_chan_def miplay_session_save_def
        save_fields_def derive_session_key_def generate_auth_msg_def md5 length_hex_to_lower AES_BLOCK_LEN_def)
qed

lemma only_proof_connects_witness:
  "\<exists>q f. proves q f (s_sessions (x_ctl (n_rcv sample_started)) ! 0)"
proof -
  define s where "s = s_sessions (x_ctl (n_rcv sample_started)) ! 0"
  note k = sample_keys [folded s_def]
  obtain sd iv where sd: "safety_decrypt xor_cipher True True sd (ss_aes_key s) (ss_decrypt_iv s) (length sd) = (Some sample_ack, iv)"
    "take 4 sd = [0x00, 0x07, 0x01, 0xE0]" "length sd = 137" using sample_sealed k by blast
  define f where "f = \<lparr> f_cmd = CMD_SAFETY_AUTH_ACK, f_seq = 1, f_payload = sd \<rparr>"
  have p: "proves sample_cenv f s"
    using sd sample_ack_ok k by (simp add: proves_def f_def sample_cenv_def sample_env_def hmac_sha256_def sample_hashes_def)
  have t: "n_tasks sample_started 0 = Some (sample_task \<lparr> t_conn := Some conn_init \<rparr>)" by (simp add: sample_started_def)
  obtain cn y quit where h: "handle_frame sample_cenv sample_chan f (conn_init, n_rcv sample_started) = ((cn, y), quit)" by (metis prod.exhaust)
  have c: "chan_ok sample_chan (x_ctl (n_rcv sample_started))"
    using task_chan_ok [OF reachable_ok [OF sample_reachable(2)] t] by (simp add: sample_task_def)
  have y: "s_connected (x_ctl y)" using frame_step_ok [OF c h] p by (simp add: sample_chan_def s_def)
  have quit: "\<not> quit"
    using h by (auto simp: handle_frame_def handle_cmd_def f_def CMD_SAFETY_AUTH_ACK_def CMD_NOTIFY_def CMD_NATIVE_VERSION_def
        CMD_SAFETY_ACK_def CMD_OPEN_DEVICE_def CMD_HEARTBEAT_def CMD_SAFETY_INFO_def CMD_SAFETY_INFO_ACK_def CMD_SAFETY_AUTH_def Let_def
        split: prod.splits)
  have "receiver_step sample_started (sample_started \<lparr> n_rcv := y,
      n_tasks := (n_tasks sample_started)(0 \<mapsto> (sample_task \<lparr> t_conn := Some conn_init \<rparr>) \<lparr> t_conn := Some cn \<rparr>) \<rparr>)"
    using h quit by (intro Frame [OF t]) (simp_all add: sample_task_def)
  from only_proof_connects [OF sample_reachable(2) this] y k
  obtain i t q f where "n_tasks sample_started i = Some t" "proves q f (s_sessions (x_ctl (n_rcv sample_started)) ! i)"
    by (auto simp: miplay_is_connected_def)
  moreover from this(1) have "i = 0" by (simp add: sample_started_def split: if_splits)
  ultimately show ?thesis by blast
qed

end
