(* ===== verification/Airkan.thy ===== *)
theory Airkan
  imports Receiver
begin

text \<open>
  The airkan remote control (\<open>miplay.c\<close>: \<open>airkan_send_json\<close> to \<open>airkan_rc_client_task\<close>). The
  phone asks a small HTTP server for the version and the authorisation, then sends its keys
  over a TCP connection of its own: 3 header bytes (type, length), then the message.

  A reply is \<open>None\<close> when \<open>send\<close> would read behind the reply buffer. The variables that all
  remote connections share, the receiver and the calls of the display are in \<open>remote\<close>; a turn of
  the receive loop is given what \<open>select\<close>, the socket and the clock answer and what other tasks
  did to \<open>remote\<close> before it. The result of sending the version is not looked at.
\<close>

definition AIRKAN_REPORT_VERSION :: u32 where "AIRKAN_REPORT_VERSION = 0x01000008"
definition AIRKAN_RC_BUF_SZ :: nat where "AIRKAN_RC_BUF_SZ = 256"
definition s_airkan_ports :: "nat list" where "s_airkan_ports = [6095, 6091, 6090, 6092]"

subsection \<open>The HTTP part\<close>

definition http_ok :: "byte list \<Rightarrow> byte list" where
  "http_ok json = str ''HTTP/1.1 200 OK'' @ crlf @ str ''Content-Type: application/json; charset=utf-8'' @ crlf
     @ str ''Content-Length: '' @ fmt_int (int (length json)) @ crlf @ str ''Connection: close'' @ crlf @ crlf @ json"

definition airkan_send_json :: "byte list \<Rightarrow> byte list option" where
  "airkan_send_json json = (if length (http_ok json) < 512 then Some (http_ok json) else None)"

function airkan_query_from :: "byte list \<Rightarrow> byte list \<Rightarrow> nat \<Rightarrow> byte list option" where
  \<comment> \<open>\<open>p = query + k\<close>; no caller asks for an empty name\<close>
  "airkan_query_from query name k =
     (if name = [] then None
      else case find_sub name (drop k query) of
             None \<Rightarrow> None
           | Some i \<Rightarrow>
               if (k + i = 0 \<or> query ! (k + i - 1) = 63 \<or> query ! (k + i - 1) = 38)
                  \<and> take 1 (drop (k + i + length name) query) = [61]
               then Some (takeWhile (\<lambda>c. c \<noteq> 38 \<and> c \<noteq> 32 \<and> c \<noteq> 13 \<and> c \<noteq> 10) (drop (k + i + length name + 1) query))
               else airkan_query_from query name (k + i + length name))"
  by pat_completeness auto
termination
  by (relation "measure (\<lambda>(query, name, k). length query - k)") (auto dest!: find_sub_Some simp flip: length_greater_0_conv)

declare airkan_query_from.simps [simp del]

definition airkan_query_value :: "byte list \<Rightarrow> byte list \<Rightarrow> nat \<Rightarrow> byte list option" where
  "airkan_query_value query name out_sz = map_option (take (out_sz - 1)) (airkan_query_from query name 0)"

definition airkan_tv_id :: "byte list \<Rightarrow> byte list" where
  "airkan_tv_id mac = take 39 (str ''esp32tv'' @ hex_to_lower mac)"

definition airkan_path :: "byte list \<Rightarrow> byte list" where
  \<comment> \<open>the first line of what was received\<close>
  "airkan_path rx =
     (let len = (case index_of 10 (cstr rx) of Some i \<Rightarrow> i | None \<Rightarrow> length rx);
          line = take (if 384 \<le> len then 383 else len) rx
      in cstr (rev (dropWhile (\<lambda>c. c = 13 \<or> c = 32) (rev line))))"

definition has_text :: "string \<Rightarrow> byte list \<Rightarrow> bool" where
  "has_text s path \<longleftrightarrow> find_sub (str s) path \<noteq> None"

definition version_json :: "byte list" where
  "version_json = dq ''{`status`:0,`msg`:`ok`,`data`:{`version`:'' @ fmt_int (sint AIRKAN_REPORT_VERSION) @ dq ''}}''"

definition auth_json :: "byte list \<Rightarrow> byte list \<Rightarrow> byte list \<Rightarrow> byte list" where
  "auth_json dev_id tv_id ver_code = dq ''{`code`:60000,`msg`:`ok`,`resp_data`:{`device_id`:`'' @ dev_id
     @ dq ''`,`tv_id`:`'' @ tv_id @ dq ''`,`public_key`:``,`verify_code_additional`:``,`versionCode`:`'' @ ver_code @ dq ''`}}''"

definition complete_json :: "byte list \<Rightarrow> byte list" where
  "complete_json tv_id = dq ''{`code`:60000,`msg`:`ok`,`resp_data`:{`tv_id`:`'' @ tv_id @ dq ''`}}''"

definition not_found :: "byte list" where
  "not_found = str ''HTTP/1.1 404 Not Found'' @ crlf @ str ''Content-Length: 0'' @ crlf @ str ''Connection: close'' @ crlf @ crlf"

definition auth_params :: "byte list \<Rightarrow> byte list \<times> byte list" where
  "auth_params path =
     ((case airkan_query_value path (str ''device_id'') 64 of Some v \<Rightarrow> v | None \<Rightarrow> []),
      (case airkan_query_value path (str ''version_code'') 16 of Some v \<Rightarrow> v | None \<Rightarrow> str ''1''))"

definition airkan_http :: "byte list \<Rightarrow> byte list \<Rightarrow> byte list option" where
  \<comment> \<open>the reply of \<open>airkan_probe_task\<close> on port 6095; \<open>json\<close> has 384 bytes\<close>
  "airkan_http mac rx =
     (let path = airkan_path rx; json = take 383
      in if has_text ''/getInfo'' path \<and> has_text ''getVersion'' path then airkan_send_json (json version_json)
         else if has_text ''/requestAuth'' path then
           (let (dev_id, ver_code) = auth_params path in airkan_send_json (json (auth_json dev_id (airkan_tv_id mac) ver_code)))
         else if has_text ''/cancelAuth'' path then airkan_send_json (dq ''{`code`:60000,`msg`:`ok`}'')
         else if has_text ''/completeAuth'' path then airkan_send_json (json (complete_json (airkan_tv_id mac)))
         else Some not_found)"

datatype probe = Rc_task | Reply "byte list option" | Hang_up

definition airkan_probe_conn :: "byte list \<Rightarrow> nat \<Rightarrow> byte list \<Rightarrow> bool \<Rightarrow> probe" where
  \<comment> \<open>an accepted connection: the local port, what one \<open>recv\<close> of 767 bytes gives, and whether
     a task can be created\<close>
  "airkan_probe_conn mac lport rx ok =
     (if lport \<noteq> 6095 then (if ok then Rc_task else Hang_up)
      else if rx = [] then Hang_up else Reply (airkan_http mac (take 767 rx)))"

subsection \<open>Keys\<close>

datatype ui_call = Volume_popup u32 | Reset_idle | Enter_standby | Exit_standby

record remote =
  r_rcv :: rcv
  ok_is_playing :: bool
  ok_last_ms :: int
  ui_log :: "ui_call list"

record renv =
  e_cenv :: cenv
  e_now_ms :: int
  e_standby :: bool \<comment> \<open>\<open>lvgl_port_ui_is_standby\<close>\<close>

function tlv_scan :: "byte list \<Rightarrow> int \<Rightarrow> nat \<Rightarrow> int \<times> int \<Rightarrow> int \<times> int" where
  \<comment> \<open>the action and the key code, in the message \<open>m\<close> from offset \<open>off\<close> up to \<open>bound\<close>\<close>
  "tlv_scan m bound off (action, key_code) =
     (if off + 5 \<le> length m \<and> int off < bound then
        let sc = m ! off; v = sint (rd32 m (off + 1))
        in tlv_scan m bound (off + (if sc = 7 \<or> sc = 8 then 9 else 5))
             (if sc = 2 then v else action, if sc = 3 then v else key_code)
      else (action, key_code))"
  by pat_completeness auto
termination
  by (relation "measure (\<lambda>(m, bound, off, r). length m + 5 - off)") auto

declare tlv_scan.simps [simp del]

definition control :: "renv \<Rightarrow> string \<Rightarrow> int \<Rightarrow> remote \<Rightarrow> remote" where
  "control e action value s = s \<lparr> r_rcv := miplay_send_receiver_control (e_cenv e) action value (r_rcv s) \<rparr>"

definition ui :: "ui_call \<Rightarrow> remote \<Rightarrow> remote" where
  "ui c s = s \<lparr> ui_log := ui_log s @ [c] \<rparr>"

definition volume_key :: "renv \<Rightarrow> u32 \<Rightarrow> remote \<Rightarrow> remote" where
  "volume_key e v s =
     (let s1 = s \<lparr> r_rcv := miplay_set_volume (q_nvs (e_cenv e)) v (r_rcv s) \<rparr>
      in ui (Volume_popup (miplay_get_volume (r_rcv s1))) s1)"

definition ok_key :: "renv \<Rightarrow> remote \<Rightarrow> remote" where
  "ok_key e s =
     (let s1 = (if 0 \<le> ok_last_ms s \<and> e_now_ms e - ok_last_ms s < 300 then s
                else control e (if ok_is_playing s then ''pause'' else ''play'') 0 (s \<lparr> ok_is_playing := \<not> ok_is_playing s \<rparr>))
      in s1 \<lparr> ok_last_ms := e_now_ms e \<rparr>)"

definition press_key :: "renv \<Rightarrow> int \<Rightarrow> remote \<Rightarrow> remote" where
  \<comment> \<open>the switch and what follows it\<close>
  "press_key e key_code s =
     (let vol = miplay_get_volume (r_rcv s); pos = miplay_get_position_ms (r_rcv s);
          s1 = (if key_code = 24 then volume_key e (vol + 5) s
                else if key_code = 25 then volume_key e (if 5 < vol then vol - 5 else 0) s
                else if key_code = 21 then control e ''seek'' (if 15000 < pos then sint (pos - 15000) else 0) s
                else if key_code = 22 then control e ''seek'' (sint (pos + 15000)) s
                else s);
          s2 = ui Reset_idle s1
      in if key_code = 19 then control e ''next'' 0 s2
         else if key_code = 20 then control e ''prev'' 0 s2
         else if key_code = 23 \<or> key_code = 66 then ok_key e s2
         else if key_code = 26 then ui (if e_standby e then Exit_standby else Enter_standby) s2
         else s2)"

subsection \<open>The remote connection\<close>

record rcst =
  version_done :: bool
  rbuf :: "byte list"
  last_beat :: int
  rc_sent :: "byte list list" \<comment> \<open>handed to \<open>send\<close>\<close>
  rc_remote :: remote

definition version_response :: "byte list" where
  "version_response = [0x05, 0x00, 0x06, 0x02, 0x01] @ be32 AIRKAN_REPORT_VERSION"

definition rc_message :: "renv \<Rightarrow> byte list \<Rightarrow> rcst \<Rightarrow> rcst" where
  "rc_message e m s =
     (if m ! 0 = 5 \<and> \<not> version_done s then s \<lparr> rc_sent := rc_sent s @ [version_response], version_done := True \<rparr>
      else if m ! 0 = 2 then s
      else if m ! 0 = 4 \<and> 10 \<le> length m then
        (let code = m ! 3; data_len = rd16 m 8;
             (action, key_code) = tlv_scan m (10 + int (unat data_len)) 10 (-1, -1)
         in if code = 1 \<and> 0 \<le> key_code \<and> action = 0 then s \<lparr> rc_remote := press_key e key_code (rc_remote s) \<rparr> else s)
      else s)"

definition rc_step :: "byte list \<Rightarrow> byte list verdict" where
  \<comment> \<open>the inner loop takes a message, waits, or gives up the whole buffer\<close>
  "rc_step buf =
     (if length buf < 3 then More
      else let need = 3 + unat (rd16 buf 1)
           in if AIRKAN_RC_BUF_SZ < need then Skip (length buf)
              else if length buf < need then More
              else Take need (take need buf))"

record rturn =
  rt_others :: "remote \<Rightarrow> remote" \<comment> \<open>what other tasks did before this turn\<close>
  rt_env :: renv
  rt_beat_ok :: bool
  rt_sel :: int
  rt_take :: nat \<comment> \<open>how many of the pending bytes \<open>recv\<close> finds\<close>

definition rc_receive :: "rturn \<Rightarrow> byte list \<Rightarrow> rcst \<Rightarrow> (byte list list \<times> byte list \<times> rcst) option" where
  \<comment> \<open>\<open>recv\<close> and the inner loop: the messages handled, the bytes still pending, and the
     state; \<open>None\<close> when nothing is received\<close>
  "rc_receive t waiting s =
     (let buf = (if AIRKAN_RC_BUF_SZ \<le> length (rbuf s) then [] else rbuf s);
          n = min (rt_take t) (min (AIRKAN_RC_BUF_SZ - length buf) (length waiting))
      in if n = 0 then None
         else case drain rc_step (buf @ take n waiting) of
                None \<Rightarrow> None
              | Some (ms, rest) \<Rightarrow> Some (ms, drop n waiting, (fold (rc_message (rt_env t)) ms s) \<lparr> rbuf := rest \<rparr>))"

fun rc_loop :: "rturn list \<Rightarrow> byte list \<Rightarrow> rcst \<Rightarrow> byte list list \<times> byte list \<times> rcst" where
  \<comment> \<open>the messages handled, the bytes still pending, and the state\<close>
  "rc_loop [] waiting s = ([], waiting, s)"
| "rc_loop (t # ts) waiting s =
     (let s0 = s \<lparr> rc_remote := rt_others t (rc_remote s) \<rparr>;
          now = e_now_ms (rt_env t); due = 4000 \<le> now - last_beat s0
      in if due \<and> \<not> rt_beat_ok t then ([], waiting, s0)
         else
           let s1 = (if due then s0 \<lparr> rc_sent := rc_sent s0 @ [[0x02, 0x00, 0x00]], last_beat := now \<rparr> else s0)
           in if rt_sel t < 0 then ([], waiting, s1)
              else if rt_sel t = 0 then rc_loop ts waiting s1
              else case rc_receive t waiting s1 of
                     None \<Rightarrow> ([], waiting, s1)
                   | Some (ms, waiting', s2) \<Rightarrow>
                       let (ms', r) = rc_loop ts waiting' s2 in (ms @ ms', r))"

definition rc_init :: "int \<Rightarrow> remote \<Rightarrow> rcst" where
  "rc_init now r = \<lparr> version_done = False, rbuf = [], last_beat = now, rc_sent = [], rc_remote = r \<rparr>"

subsection \<open>Requests and replies\<close>

lemma length_dq [simp]: "length (dq s) = length s"
  by (simp add: dq_def)

lemma length_http_ok: "length json \<le> 383 \<Longrightarrow> length (http_ok json) < 512"
  using length_fmt_int [of "int (length json)"] by (simp add: http_ok_def)

lemma send_json: "length json \<le> 383 \<Longrightarrow> airkan_send_json json = Some (http_ok json)"
  by (simp add: airkan_send_json_def length_http_ok)

lemma tv_id_length: "length mac = 6 \<Longrightarrow> airkan_tv_id mac = str ''esp32tv'' @ hex_to_lower mac \<and> length (airkan_tv_id mac) = 19"
  by (simp add: airkan_tv_id_def length_hex_to_lower)

lemma query_value_length: "airkan_query_value q name n = Some v \<Longrightarrow> length v \<le> n - 1"
  by (auto simp: airkan_query_value_def)

lemma auth_params_length: "auth_params path = (d, v) \<Longrightarrow> length d \<le> 63 \<and> length v \<le> 15"
  using query_value_length [of path "str ''device_id''" 64] query_value_length [of path "str ''version_code''" 16]
  by (auto simp: auth_params_def split: option.splits)

lemma json_lengths:
  "length version_json \<le> 383" "length mac = 6 \<Longrightarrow> length (complete_json (airkan_tv_id mac)) \<le> 383"
  "length mac = 6 \<Longrightarrow> length d \<le> 63 \<Longrightarrow> length v \<le> 15 \<Longrightarrow> length (auth_json d (airkan_tv_id mac) v) \<le> 383"
  using length_fmt_int [of "sint AIRKAN_REPORT_VERSION"] tv_id_length [of mac]
  by (simp_all add: version_json_def complete_json_def auth_json_def AIRKAN_REPORT_VERSION_def)

definition airkan_answer :: "byte list \<Rightarrow> byte list \<Rightarrow> byte list" where
  \<comment> \<open>the reply to a first line, with no array in the way\<close>
  "airkan_answer mac path =
     (if has_text ''/getInfo'' path \<and> has_text ''getVersion'' path then http_ok version_json
      else if has_text ''/requestAuth'' path then
        http_ok (auth_json (fst (auth_params path)) (str ''esp32tv'' @ hex_to_lower mac) (snd (auth_params path)))
      else if has_text ''/cancelAuth'' path then http_ok (dq ''{`code`:60000,`msg`:`ok`}'')
      else if has_text ''/completeAuth'' path then http_ok (complete_json (str ''esp32tv'' @ hex_to_lower mac))
      else not_found)"

lemma http_answer:
  assumes "length mac = 6"
  shows "airkan_http mac rx = Some (airkan_answer mac (airkan_path rx)) \<and> length (airkan_answer mac (airkan_path rx)) < 512"
proof -
  note tv = tv_id_length [OF assms]
  obtain d v where p: "auth_params (airkan_path rx) = (d, v)" by fastforce
  note l = json_lengths(1) json_lengths(2) [OF assms] json_lengths(3) [OF assms] auth_params_length [OF p]
  have "length not_found < 512" "length (dq ''{`code`:60000,`msg`:`ok`}'') \<le> 383" by (simp_all add: not_found_def)
  with l tv p show ?thesis
    by (simp add: airkan_http_def airkan_answer_def Let_def send_json length_http_ok)
qed

definition hex_digits :: "byte list \<Rightarrow> bool" where
  "hex_digits s \<longleftrightarrow> list_all (\<lambda>c. c \<in> set (str ''0123456789abcdefABCDEF'')) s"

lemma hex_digits_not: "hex_digits s \<Longrightarrow> c \<notin> set (str ''0123456789abcdefABCDEF'') \<Longrightarrow> c \<notin> set s"
  by (auto simp: hex_digits_def list_all_iff)

definition auth_line :: "byte list \<Rightarrow> byte list \<Rightarrow> byte list" where
  "auth_line d v = str ''GET /requestAuth?device_id='' @ d @ str ''&version_code='' @ v @ str '' HTTP/1.1''"

lemma auth_line_texts:
  assumes "hex_digits d" and "hex_digits v"
  shows "\<not> has_text ''/getInfo'' (auth_line d v)" and "has_text ''/requestAuth'' (auth_line d v)"
    and "auth_params (auth_line d v) = (take 63 d, take 15 v)"
proof -
  have no: "c \<notin> set d \<and> c \<notin> set v" if "c \<notin> set (str ''0123456789abcdefABCDEF'')" for c
    using that hex_digits_not assms by blast
  have n: "47 \<notin> set d" "47 \<notin> set v" "118 \<notin> set d" "118 \<notin> set v" "38 \<notin> set d" "32 \<notin> set v" "32 \<notin> set d" "13 \<notin> set d" "13 \<notin> set v" "10 \<notin> set d" "10 \<notin> set v" "38 \<notin> set v"
    using no by (simp_all add: str_simps)
  show "\<not> has_text ''/getInfo'' (auth_line d v)"
    by (simp add: has_text_def auth_line_def str_simps find_sub_cons find_sub_skip n del: find_sub.simps(2))
  show "has_text ''/requestAuth'' (auth_line d v)"
    by (simp add: has_text_def auth_line_def str_simps find_sub_cons del: find_sub.simps(2))
  have d: "airkan_query_from (auth_line d v) (str ''device_id'') 0 = Some d"
    using n by (subst airkan_query_from.simps)
      (simp add: auth_line_def str_simps find_sub_cons del: find_sub.simps(2), intro takeWhile_stop, auto)
  have k: "find_sub (str ''version_code'') (auth_line d v) = Some (length d + 28)"
    by (simp add: auth_line_def str_simps find_sub_cons find_sub_skip n del: find_sub.simps(2))
  have q: "auth_line d v ! (27 + length d) = 38" "take 1 (drop (40 + length d) (auth_line d v)) = [61]"
    "drop (41 + length d) (auth_line d v) = v @ str '' HTTP/1.1''"
    unfolding auth_line_def by (simp_all add: nth_append) (simp_all add: str_simps)
  have "airkan_query_from (auth_line d v) (str ''version_code'') 0 = Some v"
  proof -
    have "takeWhile (\<lambda>c. c \<noteq> 38 \<and> c \<noteq> 32 \<and> c \<noteq> 13 \<and> c \<noteq> 10) (v @ str '' HTTP/1.1'') = v"
      using n by (simp add: str_simps) (intro takeWhile_stop, auto)
    moreover have "str ''version_code'' \<noteq> []" by (simp add: str_simps)
    ultimately show ?thesis by (subst airkan_query_from.simps) (simp add: k q del: One_nat_def)
  qed
  with d show "auth_params (auth_line d v) = (take 63 d, take 15 v)" by (simp add: auth_params_def airkan_query_value_def)
qed

lemma auth_line_path:
  assumes "hex_digits d" and "hex_digits v" and "length d + length v < 300"
  shows "airkan_path (auth_line d v @ [13, 10] @ r) = auth_line d v"
proof -
  let ?l = "auth_line d v @ [13]"
  have no: "c \<notin> set d \<and> c \<notin> set v" if "c \<notin> set (str ''0123456789abcdefABCDEF'')" for c
    using that hex_digits_not assms(1,2) by blast
  have n: "0 \<notin> set d" "0 \<notin> set v" "10 \<notin> set d" "10 \<notin> set v" using no by (simp_all add: str_simps)
  then have z: "0 \<notin> set ?l" "10 \<notin> set ?l" by (simp_all add: auth_line_def str_simps)
  have "cstr (?l @ 10 # r) = ?l @ 10 # cstr r" unfolding cstr_append [OF z(1)] by (simp add: cstr_def)
  then have i: "index_of 10 (cstr (?l @ 10 # r)) = Some (length ?l)" using index_of_at [OF z(2)] by simp
  have len: "length ?l < 384" using assms(3) by (simp add: auth_line_def)
  have "take (length ?l) (?l @ 10 # r) = ?l" by simp
  then have "airkan_path (?l @ 10 # r) = cstr (rev (dropWhile (\<lambda>c. c = 13 \<or> c = 32) (rev ?l)))"
    using len unfolding airkan_path_def i by (simp only: option.case Let_def not_le if_False [symmetric] if_not_P not_less)
  moreover have "rev (dropWhile (\<lambda>c. c = 13 \<or> c = 32) (rev ?l)) = auth_line d v" by (simp add: auth_line_def str_simps)
  moreover have "cstr (auth_line d v) = auth_line d v" using z(1) cstr_append [of "auth_line d v" "[]"] by (simp add: cstr_def)
  ultimately show ?thesis by simp
qed

lemma auth_answer:
  assumes "hex_digits d" and "hex_digits v" and "length d \<le> 63" and "length v \<le> 15"
  shows "airkan_answer mac (airkan_path (auth_line d v @ [13, 10] @ r)) = http_ok (auth_json d (str ''esp32tv'' @ hex_to_lower mac) v)"
proof -
  have "airkan_path (auth_line d v @ [13, 10] @ r) = auth_line d v" using assms by (intro auth_line_path) simp_all
  with auth_line_texts [OF assms(1,2)] assms(3,4) show ?thesis by (simp add: airkan_answer_def)
qed

subsection \<open>Messages\<close>

interpretation rc: drain_laws rc_step
  by unfold_locales (auto simp: rc_step_def Let_def split: if_splits)

definition rc_wellformed :: "byte list \<Rightarrow> bool" where
  \<comment> \<open>a message of at most 256 bytes with its length in its header\<close>
  "rc_wellformed m \<longleftrightarrow> 3 \<le> length m \<and> length m \<le> AIRKAN_RC_BUF_SZ \<and> length m = 3 + unat (rd16 m 1)"

lemma rc_step_whole:
  assumes "rc_wellformed m"
  shows "rc_step (m @ r) = Take (length m) m"
proof -
  have "rd16 (m @ r) 1 = rd16 m 1" using assms by (intro rd16_append) (simp add: rc_wellformed_def)
  with assms show ?thesis by (auto simp: rc_step_def rc_wellformed_def Let_def)
qed

lemma rc_step_part:
  assumes "rc_wellformed m" and "length p < length m" and "p = take (length p) m"
  shows "rc_step p = More"
proof (cases "length p < 3")
  case False
  then have "rd16 (p @ drop (length p) m) 1 = rd16 p 1" by (intro rd16_append) simp
  then have "rd16 p 1 = rd16 m 1" using assms(3) by (metis append_take_drop_id)
  with False assms show ?thesis by (auto simp: rc_step_def rc_wellformed_def Let_def)
qed (simp add: rc_step_def)

lemma drain_messages:
  assumes "list_all rc_wellformed ms" and "a @ b = concat ms"
  shows "\<exists>k. k \<le> length ms \<and> drain rc_step a = Some (take k ms, drop (length (concat (take k ms))) a) \<and> length (concat (take k ms)) \<le> length a
    \<and> (k < length ms \<longrightarrow> length a < length (concat (take (Suc k) ms)))"
  using assms
proof (induction ms arbitrary: a)
  case Nil
  then show ?case by (simp add: drain_More rc_step_def)
next
  case (Cons m ms)
  have m: "rc_wellformed m" using Cons.prems(1) by simp
  show ?case
  proof (cases "length a < length m")
    case True
    then have "a = take (length a) m" using Cons.prems(2) by (metis append_eq_append_conv_if concat.simps(2) less_imp_le_nat)
    from rc_step_part [OF m True this] True show ?thesis by (intro exI [of _ 0]) (simp add: drain_More)
  next
    case False
    then obtain a' where a: "a = m @ a'" using Cons.prems(2) by (metis append_eq_append_conv_if concat.simps(2) append_take_drop_id not_less)
    with Cons.prems have "list_all rc_wellformed ms" "a' @ b = concat ms" by simp_all
    from Cons.IH [OF this] obtain k where k: "k \<le> length ms" "drain rc_step a' = Some (take k ms, drop (length (concat (take k ms))) a')"
      "length (concat (take k ms)) \<le> length a'" "k < length ms \<longrightarrow> length a' < length (concat (take (Suc k) ms))" by blast
    with rc_step_whole [OF m, of a'] show ?thesis
      by (intro exI [of _ "Suc k"]) (simp add: a drain_Take)
  qed
qed

lemma message_frame [simp]: "rbuf (rc_message e m s) = rbuf s"
  by (simp add: rc_message_def split: prod.split)

lemma messages_frame [simp]: "rbuf (fold (rc_message e) ms s) = rbuf s"
  by (induction ms arbitrary: s) simp_all

definition rc_waits :: "byte list list \<Rightarrow> byte list \<Rightarrow> bool" where
  \<comment> \<open>the buffer holds less than the first message\<close>
  "rc_waits ms buf \<longleftrightarrow> (case ms of [] \<Rightarrow> buf = [] | m # _ \<Rightarrow> length buf < length m)"

lemma rc_receive_ok:
  assumes ms: "list_all rc_wellformed ms" and eq: "rbuf s @ p = concat ms" and w: "rc_waits ms (rbuf s)"
    and r: "rc_receive t p s = Some (hs, p', s')"
  shows "\<exists>k. k \<le> length ms \<and> hs = take k ms \<and> rbuf s' @ p' = concat (drop k ms) \<and> rc_waits (drop k ms) (rbuf s')"
proof -
  have small: "length (rbuf s) < AIRKAN_RC_BUF_SZ"
    using ms w by (cases ms) (auto simp: rc_waits_def rc_wellformed_def AIRKAN_RC_BUF_SZ_def)
  define n where "n = min (rt_take t) (min (AIRKAN_RC_BUF_SZ - length (rbuf s)) (length p))"
  have e: "(rbuf s @ take n p) @ drop n p = concat ms" using eq by simp
  from drain_messages [OF ms e] obtain k where k: "k \<le> length ms"
    "drain rc_step (rbuf s @ take n p) = Some (take k ms, drop (length (concat (take k ms))) (rbuf s @ take n p))"
    "length (concat (take k ms)) \<le> length (rbuf s @ take n p)"
    "k < length ms \<longrightarrow> length (rbuf s @ take n p) < length (concat (take (Suc k) ms))" by blast
  have h: "hs = take k ms" "p' = drop n p" "rbuf s' = drop (length (concat (take k ms))) (rbuf s @ take n p)"
    using r small k(2) by (auto simp: rc_receive_def Let_def n_def [symmetric] split: if_splits)
  have "concat ms = concat (take k ms) @ concat (drop k ms)" by (metis append_take_drop_id concat_append)
  then have d: "rbuf s' @ p' = concat (drop k ms)"
    using e k(3) unfolding h by (metis append_eq_conv_conj drop_append diff_is_0_eq' drop_0)
  have "rc_waits (drop k ms) (rbuf s')"
  proof (cases "k < length ms")
    case True
    then have "drop k ms = ms ! k # drop (Suc k) ms" "take (Suc k) ms = take k ms @ [ms ! k]"
      by (simp_all add: Cons_nth_drop_Suc take_Suc_conv_app_nth)
    with k(3,4) True show ?thesis by (simp add: rc_waits_def h)
  next
    case False
    with d show ?thesis by (simp add: rc_waits_def)
  qed
  with k(1) h(1) d show ?thesis by blast
qed

lemma rc_loop_ok:
  assumes "list_all rc_wellformed ms" and "rbuf s @ p = concat ms" and "rc_waits ms (rbuf s)" and "rc_loop ts p s = (hs, p', s')"
  shows "\<exists>k. k \<le> length ms \<and> hs = take k ms \<and> rbuf s' @ p' = concat (drop k ms) \<and> rc_waits (drop k ms) (rbuf s')"
  using assms
proof (induction ts arbitrary: ms p s hs)
  case Nil
  then show ?case by (intro exI [of _ 0]) simp
next
  case (Cons t ts)
  define s0 where "s0 = s \<lparr> rc_remote := rt_others t (rc_remote s) \<rparr>"
  define due where "due \<longleftrightarrow> 4000 \<le> e_now_ms (rt_env t) - last_beat s0"
  define s1 where "s1 = (if due then s0 \<lparr> rc_sent := rc_sent s0 @ [[0x02, 0x00, 0x00]], last_beat := e_now_ms (rt_env t) \<rparr> else s0)"
  have b: "rbuf s1 = rbuf s" "rbuf s0 = rbuf s" by (simp_all add: s1_def s0_def)
  note run = Cons.prems(4) [unfolded rc_loop.simps s0_def [symmetric] Let_def due_def [symmetric] s1_def [symmetric]]
  have stop: ?case if "(hs, p', s') = ([], p, u)" and "rbuf u = rbuf s" for u
    using that Cons.prems(2,3) by (intro exI [of _ 0]) simp
  consider "due \<and> \<not> rt_beat_ok t \<or> rt_sel t < 0 \<or> (rt_sel t \<noteq> 0 \<and> rc_receive t p s1 = None)"
    | "rt_sel t = 0" "\<not> (due \<and> \<not> rt_beat_ok t)"
    | ms1 p1 s2 where "rt_sel t > 0" "\<not> (due \<and> \<not> rt_beat_ok t)" "rc_receive t p s1 = Some (ms1, p1, s2)"
    by (metis linorder_neqE_linordered_idom option.exhaust prod_cases3)
  then show ?case
  proof cases
    case 1
    with run stop [of s0] stop [of s1] b show ?thesis by (auto split: if_splits)
  next
    case 2
    with run Cons.IH [OF Cons.prems(1), of s1 p hs] Cons.prems(2,3) b show ?thesis by simp
  next
    case (3 ms1 p1 s2)
    obtain hs2 where l: "rc_loop ts p1 s2 = (hs2, p', s')" and hs: "hs = ms1 @ hs2"
      using run 3 by (auto split: prod.splits)
    from rc_receive_ok [OF Cons.prems(1) _ _ 3(3)] Cons.prems(2,3) b obtain k where
      k: "k \<le> length ms" "ms1 = take k ms" "rbuf s2 @ p1 = concat (drop k ms)" "rc_waits (drop k ms) (rbuf s2)" by auto
    have "list_all rc_wellformed (drop k ms)" using Cons.prems(1) by (auto simp: list_all_iff dest: in_set_dropD)
    from Cons.IH [OF this k(3,4) l] obtain j where
      j: "j \<le> length (drop k ms)" "hs2 = take j (drop k ms)" "rbuf s' @ p' = concat (drop j (drop k ms))" "rc_waits (drop j (drop k ms)) (rbuf s')"
      by blast
    have "hs = take (k + j) ms" by (simp only: hs k(2) j(2) take_add)
    moreover have "k + j \<le> length ms" "drop (k + j) ms = drop j (drop k ms)"
      using j(1) k(1) by (simp_all add: add.commute [of k j])
    ultimately show ?thesis using j(3,4) by (intro exI [of _ "k + j"]) simp
  qed
qed

subsection \<open>Keys\<close>

definition key_frame :: "u32 \<Rightarrow> u32 \<Rightarrow> byte list" where
  \<comment> \<open>a key going down, as the phone sends it\<close>
  "key_frame seq_id key = [4, 0, 17, 1] @ be32 seq_id @ [0, 10] @ [2] @ be32 0 @ [3] @ be32 key"

lemma key_frame_wellformed: "rc_wellformed (key_frame i k)"
  by (simp add: rc_wellformed_def key_frame_def rd16_def AIRKAN_RC_BUF_SZ_def)

lemma key_message:
  assumes "0 \<le> sint key"
  shows "rc_message e (key_frame i key) s = s \<lparr> rc_remote := press_key e (sint key) (rc_remote s) \<rparr>"
proof -
  let ?m = "key_frame i key"
  have len: "length ?m = 20" by (simp add: key_frame_def)
  have fields: "?m ! 0 = 4" "?m ! 3 = 1" "?m ! 10 = 2" "?m ! 15 = 3" "rd16 ?m 8 = 10"
    by (simp_all add: key_frame_def be32_eq rd16_def nth_append)
  have "rd32 (([4, 0, 17, 1] @ be32 i @ [0, 10] @ [2]) @ be32 0 @ [3] @ be32 key) 11 = 0" by (rule rd32_be32) simp
  moreover have "rd32 (([4, 0, 17, 1] @ be32 i @ [0, 10] @ [2] @ be32 0 @ [3]) @ be32 key @ []) 16 = key" by (rule rd32_be32) simp
  ultimately have k: "rd32 ?m 11 = 0" "rd32 ?m 16 = key" by (simp_all add: key_frame_def)
  have "tlv_scan ?m 20 10 (-1, -1) = (0, sint key)"
    by (subst tlv_scan.simps, simp add: len fields, subst tlv_scan.simps, simp add: len fields k, subst tlv_scan.simps, simp add: len)
  with assms show ?thesis by (simp add: rc_message_def fields len)
qed

fun ok_accepted :: "int \<Rightarrow> renv list \<Rightarrow> renv list" where
  \<comment> \<open>the presses that come first or at least 300 ms after the press before them\<close>
  "ok_accepted prev [] = []"
| "ok_accepted prev (e # es) = (if 0 \<le> prev \<and> e_now_ms e - prev < 300 then [] else [e]) @ ok_accepted (e_now_ms e) es"

definition ok_actions :: "bool \<Rightarrow> nat \<Rightarrow> string list" where
  \<comment> \<open>alternately pause and play\<close>
  "ok_actions playing n = map (\<lambda>i. if even i = playing then ''pause'' else ''play'') [0..<n]"

lemma ok_actions_Suc: "ok_actions p (Suc n) = (if p then ''pause'' else ''play'') # ok_actions (\<not> p) n"
  unfolding ok_actions_def by (subst map_upt_Suc) auto

definition send_all :: "(renv \<times> string) list \<Rightarrow> rcv \<Rightarrow> rcv" where
  "send_all = fold (\<lambda>(e, a). miplay_send_receiver_control (e_cenv e) a 0)"

lemma ok_presses:
  assumes "key = 23 \<or> key = 66"
  shows "let r = rc_remote s; acc = ok_accepted (ok_last_ms r) (map fst es);
       r' = rc_remote (fold (\<lambda>(e, i). rc_message e (key_frame i key)) es s)
     in r_rcv r' = send_all (zip acc (ok_actions (ok_is_playing r) (length acc))) (r_rcv r)
        \<and> ok_is_playing r' = (ok_is_playing r = even (length acc))"
proof (induction es arbitrary: s)
  case Nil
  then show ?case by (simp add: ok_actions_def send_all_def)
next
  case (Cons p es)
  obtain e i where p: "p = (e, i)" by fastforce
  define r where "r = rc_remote s"
  define r1 where "r1 = press_key e (sint key) r"
  have r1: "rc_message e (key_frame i key) s = s \<lparr> rc_remote := r1 \<rparr>"
    unfolding r1_def r_def using assms by (intro key_message) auto
  have ok: "r1 = ok_key e (ui Reset_idle r)" using assms unfolding r1_def press_key_def Let_def by (elim disjE) simp_all
  have f: "fold (\<lambda>(e, i). rc_message e (key_frame i key)) (p # es) s = fold (\<lambda>(e, i). rc_message e (key_frame i key)) es (s \<lparr> rc_remote := r1 \<rparr>)"
    by (simp add: p r1)
  have last: "ok_last_ms r1 = e_now_ms e" by (simp add: ok ok_key_def Let_def)
  note ih = Cons.IH [of "s \<lparr> rc_remote := r1 \<rparr>", simplified, unfolded Let_def last]
  show ?case
  proof (cases "0 \<le> ok_last_ms r \<and> e_now_ms e - ok_last_ms r < 300")
    case True
    then have "r_rcv r1 = r_rcv r" "ok_is_playing r1 = ok_is_playing r" by (simp_all add: ok ok_key_def ui_def Let_def)
    with ih True show ?thesis unfolding f by (simp add: Let_def p r_def)
  next
    case False
    then have "r_rcv r1 = miplay_send_receiver_control (e_cenv e) (if ok_is_playing r then ''pause'' else ''play'') 0 (r_rcv r)"
      "ok_is_playing r1 = (\<not> ok_is_playing r)" by (auto simp: ok ok_key_def ui_def Let_def control_def)
    with ih False show ?thesis unfolding f by (simp add: Let_def p r_def ok_actions_Suc send_all_def)
  qed
qed

lemma reach_control: "reachable n \<Longrightarrow> reachable (n \<lparr> n_rcv := miplay_send_receiver_control q a v (n_rcv n) \<rparr>)"
  by (rule reach_step [OF _ Control])

lemma reach_volume: "reachable n \<Longrightarrow> reachable (n \<lparr> n_rcv := miplay_set_volume nvs p (n_rcv n) \<rparr>)"
  by (rule reach_step [OF _ Volume])

definition reaches :: "node \<Rightarrow> rcv \<Rightarrow> bool" where "reaches n x \<longleftrightarrow> reachable (n \<lparr> n_rcv := x \<rparr>)"

lemma reaches_local: "reaches n x \<Longrightarrow> reaches n (miplay_send_receiver_control q a v x)" "reaches n x \<Longrightarrow> reaches n (miplay_set_volume nvs p x)"
  using reach_control [of "n \<lparr> n_rcv := x \<rparr>" q a v] reach_volume [of "n \<lparr> n_rcv := x \<rparr>" nvs p] by (simp_all add: reaches_def)

lemma reaches_keys: "reaches n (r_rcv s) \<Longrightarrow> reaches n (r_rcv (control e a v s))" "reaches n (r_rcv s) \<Longrightarrow> reaches n (r_rcv (ui c s))"
  "reaches n (r_rcv s) \<Longrightarrow> reaches n (r_rcv (volume_key e w s))" "reaches n (r_rcv s) \<Longrightarrow> reaches n (r_rcv (ok_key e s))"
  by (auto simp: control_def ui_def volume_key_def ok_key_def Let_def intro: reaches_local)

lemma reaches_press: "reaches n (r_rcv s) \<Longrightarrow> reaches n (r_rcv (press_key e k s))"
  by (auto simp: press_key_def Let_def intro!: reaches_keys)

lemma reaches_message: "reaches n (r_rcv (rc_remote s)) \<Longrightarrow> reaches n (r_rcv (rc_remote (rc_message e m s)))"
  by (auto simp: rc_message_def Let_def intro: reaches_press split: prod.splits)

subsection \<open>Properties\<close>

text \<open>The remote control's HTTP replies. Whatever was received, the reply is the whole answer to
  the first line, never cut by the 384 bytes of the JSON buffer, and \<open>send\<close> stays inside the
  512 bytes of the reply; an authorisation request with hexadecimal parameters is answered
  with exactly its own device id, version code and the id of the receiver.\<close>

theorem airkan_http_complete:
  assumes "length mac = 6" and "hex_digits d" and "hex_digits v" and "length d \<le> 63" and "length v \<le> 15"
  shows "airkan_http mac rx = Some (airkan_answer mac (airkan_path rx)) \<and> length (airkan_answer mac (airkan_path rx)) < 512
    \<and> airkan_http mac (auth_line d v @ [13, 10] @ headers) = Some (http_ok (auth_json d (str ''esp32tv'' @ hex_to_lower mac) v))"
  using http_answer [OF assms(1)] auth_answer [OF assms(2-5)] by simp

lemma airkan_http_complete_witness:
  "airkan_http [1, 2, 3, 4, 5, 0xAB] (auth_line (str ''a1b2'') (str ''1'') @ [13, 10] @ str ''Host: tv'')
     = Some (http_ok (auth_json (str ''a1b2'') (str ''esp32tv0102030405ab'') (str ''1'')))"
proof -
  have h: "hex_digits (str ''a1b2'')" "hex_digits (str ''1'')" by (simp_all add: hex_digits_def str_simps)
  have "hex_to_lower [1, 2, 3, 4, 5, 0xAB] = str ''0102030405ab''" by code_simp
  moreover have "airkan_http [1, 2, 3, 4, 5, 0xAB] (auth_line (str ''a1b2'') (str ''1'') @ [13, 10] @ str ''Host: tv'')
     = Some (http_ok (auth_json (str ''a1b2'') (str ''esp32tv'' @ hex_to_lower [1, 2, 3, 4, 5, 0xAB]) (str ''1'')))"
    using airkan_http_complete [OF _ h, of "[1, 2, 3, 4, 5, 0xAB]" "[]"] by simp
  ultimately show ?thesis by (simp add: str_append [of "''esp32tv''", symmetric])
qed

text \<open>The remote control's TCP connection is lossless. However the stream of messages of at
  most 256 bytes is cut into segments, and whatever the clock, \<open>select\<close> and other tasks do in
  between, the messages handled are the first messages sent, in order, the bytes not handled
  yet are those in the buffer and in the socket, and the buffer holds no whole message.\<close>

theorem rc_stream_lossless:
  assumes "list_all rc_wellformed ms" and "rc_loop ts (concat ms) (rc_init now r) = (hs, unread, s)"
  shows "\<exists>k. hs = take k ms \<and> rbuf s @ unread = concat (drop k ms) \<and> rc_waits (drop k ms) (rbuf s)"
proof -
  have "rc_waits ms []" using assms(1) by (cases ms) (auto simp: rc_waits_def rc_wellformed_def)
  with rc_loop_ok [OF assms(1) _ _ assms(2)] show ?thesis by (auto simp: rc_init_def)
qed

definition sample_remote :: remote where
  "sample_remote = \<lparr> r_rcv = sample_rcv, ok_is_playing = True, ok_last_ms = -1, ui_log = [] \<rparr>"

definition sample_renv :: "int \<Rightarrow> renv" where
  "sample_renv now = \<lparr> e_cenv = sample_cenv, e_now_ms = now, e_standby = False \<rparr>"

lemma rc_stream_lossless_witness:
  "\<exists>ts hs unread s. rc_loop ts (concat [key_frame 1 66, [2, 0, 0]]) (rc_init 0 sample_remote) = (hs, unread, s)
     \<and> hs = [key_frame 1 66] \<and> rbuf s @ unread = [2, 0, 0]"
proof -
  define ts where "ts = map (\<lambda>k. \<lparr> rt_others = (\<lambda>x. x), rt_env = sample_renv 5, rt_beat_ok = True, rt_sel = 1, rt_take = k \<rparr>) [4, 17]"
  have ms: "list_all rc_wellformed [key_frame 1 66, [2, 0, 0]]"
  proof -
    have "rc_wellformed [2, 0, 0]" by (simp add: rc_wellformed_def rd16_def AIRKAN_RC_BUF_SZ_def)
    then show ?thesis by (simp add: key_frame_wellformed)
  qed
  obtain hs unread s where run: "rc_loop ts (concat [key_frame 1 66, [2, 0, 0]]) (rc_init 0 sample_remote) = (hs, unread, s)"
    by (metis prod.exhaust)
  have f: "key_frame 1 66 = [4, 0, 17, 1, 0, 0, 0, 1, 0, 10, 2, 0, 0, 0, 0, 3, 0, 0, 0, 66]" by code_simp
  have "length hs = 1"
    using run unfolding f
    by (auto simp: ts_def rc_init_def sample_renv_def rc_receive_def AIRKAN_RC_BUF_SZ_def drain_More drain_Take rc_step_def rd16_def Let_def
        split: prod.splits)
  moreover obtain k where "hs = take k [key_frame 1 66, [2, 0, 0]]" "rbuf s @ unread = concat (drop k [key_frame 1 66, [2, 0, 0]])"
    using rc_stream_lossless [OF ms run] by blast
  ultimately have "hs = [key_frame 1 66] \<and> rbuf s @ unread = [2, 0, 0]"
    by (cases k; cases "k - 1") (auto simp: take_Cons' drop_Cons' split: if_splits)
  with run show ?thesis by blast
qed

text \<open>The OK key. Over any sequence of presses, of either key code, at any times, the presses that
  come within 300 ms of the press before them are dropped, the others send pause and play
  in turn, starting with what the flag says, and nothing else happens to the receiver.\<close>

theorem ok_key_alternates:
  assumes "key = 23 \<or> key = 66" and "acc = ok_accepted (ok_last_ms (rc_remote s)) (map fst es)"
    and "s' = fold (\<lambda>(e, i). rc_message e (key_frame i key)) es s"
  shows "r_rcv (rc_remote s') = send_all (zip acc (ok_actions (ok_is_playing (rc_remote s)) (length acc))) (r_rcv (rc_remote s))
    \<and> ok_is_playing (rc_remote s') = (ok_is_playing (rc_remote s) = even (length acc))"
  using ok_presses [OF assms(1), of s es] assms(2,3) by (simp add: Let_def)

lemma ok_key_alternates_witness:
  "ok_is_playing (rc_remote (fold (\<lambda>(e, i). rc_message e (key_frame i 66))
     [(sample_renv 1000, 1), (sample_renv 1200, 2), (sample_renv 1600, 3)] (rc_init 0 sample_remote)))"
  using ok_key_alternates [of 66, OF _ refl refl, of "[(sample_renv 1000, 1), (sample_renv 1200, 2), (sample_renv 1600, 3)]" "rc_init 0 sample_remote"]
  by (simp add: rc_init_def sample_remote_def sample_renv_def)

text \<open>Whatever message the remote control sends, well formed or not, it takes a reachable receiver to
  a reachable receiver: the invariants of the whole receiver hold after it.\<close>

theorem rc_message_reachable:
  assumes "reachable n" and "n_rcv n = r_rcv (rc_remote s)"
  shows "reachable (n \<lparr> n_rcv := r_rcv (rc_remote (rc_message e m s)) \<rparr>)"
  using reaches_message [of n s e m] assms by (simp add: reaches_def) (metis node.surjective node.update_convs(1))

lemma rc_message_reachable_witness:
  "reachable (sample_started \<lparr> n_rcv := r_rcv (rc_remote (rc_message (sample_renv 0) (key_frame 1 24)
     (rc_init 0 (sample_remote \<lparr> r_rcv := n_rcv sample_started \<rparr>)))) \<rparr>)"
  by (rule rc_message_reachable) (simp_all add: sample_reachable rc_init_def)

end
