(* ===== verification/Jsmn.thy ===== *)
theory Jsmn
  imports Cstring
begin

text \<open>
  The JSON tokenizer that the lyrics downloader uses (\<open>jsmn.c\<close>), and the searches over its
  tokens (\<open>lyrics_fetch.c\<close>: \<open>json_find_key\<close> to \<open>json_get_int\<close>, \<open>jsmn_container_end\<close>).
  \<open>js\<close> is the text before its NUL and \<open>len\<close> its length. The token array is the list of the
  tokens handed out so far, of at most \<open>n\<close> tokens; \<open>toknext\<close> is its length. Every caller
  passes an array, so the counting mode (\<open>tokens == NULL\<close>) is not modelled. An index of -1
  (\<open>toksuper\<close>) is \<open>None\<close>.
\<close>

datatype jsmntype_t = JSMN_PRIMITIVE | JSMN_OBJECT | JSMN_ARRAY | JSMN_STRING
datatype jsmnerr_t = JSMN_ERROR_NOMEM | JSMN_ERROR_INVAL | JSMN_ERROR_PART

record jsmntok_t =
  tk_type :: jsmntype_t
  tk_start :: int
  tk_end :: int
  tk_size :: nat

record jsmn_parser =
  jp_pos :: nat
  toksuper :: "nat option"
  tokens :: "jsmntok_t list"

definition jsmn_init :: jsmn_parser where
  "jsmn_init = \<lparr> jp_pos = 0, toksuper = None, tokens = [] \<rparr>"

definition jsmn_fill_token :: "jsmntype_t \<Rightarrow> nat \<Rightarrow> nat \<Rightarrow> jsmntok_t" where
  "jsmn_fill_token t s e = \<lparr> tk_type = t, tk_start = int s, tk_end = int e, tk_size = 0 \<rparr>"

definition jsmn_alloc_token :: "nat \<Rightarrow> jsmntok_t \<Rightarrow> jsmn_parser \<Rightarrow> jsmn_parser option" where
  \<comment> \<open>the next token, with what the caller fills in\<close>
  "jsmn_alloc_token n t ps = (if n \<le> length (tokens ps) then None else Some (ps \<lparr> tokens := tokens ps @ [t] \<rparr>))"

subsection \<open>Primitives and strings\<close>

definition prim_stop :: "byte \<Rightarrow> bool" where
  "prim_stop c \<longleftrightarrow> c = 58 \<or> c = 9 \<or> c = 13 \<or> c = 10 \<or> c = 32 \<or> c = 44 \<or> c = 93 \<or> c = 125"

fun prim_len :: "byte list \<Rightarrow> nat option" where
  "prim_len [] = Some 0"
| "prim_len (c # cs) = (if prim_stop c then Some 0 else if c < 32 \<or> 127 \<le> c then None else map_option Suc (prim_len cs))"

definition jsmn_parse_primitive :: "nat \<Rightarrow> byte list \<Rightarrow> jsmn_parser \<Rightarrow> jsmnerr_t option \<times> jsmn_parser" where
  "jsmn_parse_primitive n js ps =
     (case prim_len (drop (jp_pos ps) js) of
        None \<Rightarrow> (Some JSMN_ERROR_INVAL, ps)
      | Some k \<Rightarrow>
          (case jsmn_alloc_token n (jsmn_fill_token JSMN_PRIMITIVE (jp_pos ps) (jp_pos ps + k)) ps of
             None \<Rightarrow> (Some JSMN_ERROR_NOMEM, ps)
           | Some ps1 \<Rightarrow> (None, ps1 \<lparr> jp_pos := jp_pos ps + k - 1 \<rparr>)))"

definition hex_char :: "byte \<Rightarrow> bool" where
  "hex_char c \<longleftrightarrow> (48 \<le> c \<and> c \<le> 57) \<or> (65 \<le> c \<and> c \<le> 70) \<or> (97 \<le> c \<and> c \<le> 102)"

fun hex_run :: "nat \<Rightarrow> byte list \<Rightarrow> nat option" where
  \<comment> \<open>the digits behind \<open>\u\<close>; fewer than four at the end of the text pass\<close>
  "hex_run 0 cs = Some 0"
| "hex_run (Suc k) [] = Some 0"
| "hex_run (Suc k) (c # cs) = (if hex_char c then map_option Suc (hex_run k cs) else None)"

definition simple_escape :: "byte \<Rightarrow> bool" where
  "simple_escape d \<longleftrightarrow> d = 34 \<or> d = 47 \<or> d = 92 \<or> d = 98 \<or> d = 102 \<or> d = 114 \<or> d = 110 \<or> d = 116"

function str_scan :: "byte list \<Rightarrow> jsmnerr_t + nat" where
  \<comment> \<open>from behind the opening quote to the closing one\<close>
  "str_scan [] = Inl JSMN_ERROR_PART"
| "str_scan (c # cs) =
     (if c = 34 then Inr 0
      else if c = 92 \<and> cs \<noteq> [] then
        (if simple_escape (hd cs) then map_sum id (\<lambda>k. 2 + k) (str_scan (tl cs))
         else if hd cs = 117 then
           (case hex_run 4 (tl cs) of
              None \<Rightarrow> Inl JSMN_ERROR_INVAL
            | Some h \<Rightarrow> map_sum id (\<lambda>k. 2 + h + k) (str_scan (drop h (tl cs))))
         else Inl JSMN_ERROR_INVAL)
      else map_sum id Suc (str_scan cs))"
  by pat_completeness auto
termination by (relation "measure length") auto

definition jsmn_parse_string :: "nat \<Rightarrow> byte list \<Rightarrow> jsmn_parser \<Rightarrow> jsmnerr_t option \<times> jsmn_parser" where
  "jsmn_parse_string n js ps =
     (case str_scan (drop (Suc (jp_pos ps)) js) of
        Inl e \<Rightarrow> (Some e, ps)
      | Inr k \<Rightarrow>
          (case jsmn_alloc_token n (jsmn_fill_token JSMN_STRING (Suc (jp_pos ps)) (Suc (jp_pos ps) + k)) ps of
             None \<Rightarrow> (Some JSMN_ERROR_NOMEM, ps)
           | Some ps1 \<Rightarrow> (None, ps1 \<lparr> jp_pos := Suc (jp_pos ps) + k \<rparr>)))"

subsection \<open>The parser\<close>

definition is_container :: "jsmntok_t \<Rightarrow> bool" where
  "is_container t \<longleftrightarrow> tk_type t = JSMN_OBJECT \<or> tk_type t = JSMN_ARRAY"

definition is_open :: "jsmntok_t \<Rightarrow> bool" where
  "is_open t \<longleftrightarrow> tk_start t \<noteq> -1 \<and> tk_end t = -1"

fun last_tok :: "(jsmntok_t \<Rightarrow> bool) \<Rightarrow> jsmntok_t list \<Rightarrow> nat \<Rightarrow> nat option" where
  \<comment> \<open>the loops \<open>for (i = ... - 1; i >= 0; i--)\<close>\<close>
  "last_tok P ts 0 = None"
| "last_tok P ts (Suc i) = (if P (ts ! i) then Some i else last_tok P ts i)"

definition add_child :: "nat option \<Rightarrow> jsmntok_t list \<Rightarrow> jsmntok_t list" where
  "add_child s ts = (case s of None \<Rightarrow> ts | Some i \<Rightarrow> ts[i := (ts ! i) \<lparr> tk_size := Suc (tk_size (ts ! i)) \<rparr>])"

definition open_bracket :: "nat \<Rightarrow> byte \<Rightarrow> jsmn_parser \<Rightarrow> jsmnerr_t option \<times> jsmn_parser" where
  "open_bracket n c ps =
     (if n \<le> length (tokens ps) then (Some JSMN_ERROR_NOMEM, ps)
      else (None, ps \<lparr> tokens := add_child (toksuper ps) (tokens ps)
               @ [\<lparr> tk_type = (if c = 123 then JSMN_OBJECT else JSMN_ARRAY), tk_start = int (jp_pos ps), tk_end = -1, tk_size = 0 \<rparr>],
             toksuper := Some (length (tokens ps)) \<rparr>))"

definition close_bracket :: "byte \<Rightarrow> jsmn_parser \<Rightarrow> jsmnerr_t option \<times> jsmn_parser" where
  "close_bracket c ps =
     (let ts = tokens ps; t = (if c = 125 then JSMN_OBJECT else JSMN_ARRAY) in
      case last_tok is_open ts (length ts) of
        None \<Rightarrow> (Some JSMN_ERROR_INVAL, ps)
      | Some i \<Rightarrow>
          if tk_type (ts ! i) \<noteq> t then (Some JSMN_ERROR_INVAL, ps)
          else (let ts1 = ts[i := (ts ! i) \<lparr> tk_end := int (jp_pos ps) + 1 \<rparr>]
                in (None, ps \<lparr> tokens := ts1, toksuper := last_tok is_open ts1 (Suc i) \<rparr>)))"

definition comma :: "jsmn_parser \<Rightarrow> jsmn_parser" where
  "comma ps =
     (case toksuper ps of
        None \<Rightarrow> ps
      | Some s \<Rightarrow>
          if is_container (tokens ps ! s) then ps
          else (case last_tok (\<lambda>t. is_container t \<and> is_open t) (tokens ps) (length (tokens ps)) of
                  None \<Rightarrow> ps
                | Some i \<Rightarrow> ps \<lparr> toksuper := Some i \<rparr>))"

definition child_of_super :: "jsmnerr_t option \<times> jsmn_parser \<Rightarrow> jsmnerr_t option \<times> nat \<times> jsmn_parser" where
  "child_of_super r = (case r of (Some e, ps) \<Rightarrow> (Some e, 0, ps)
     | (None, ps) \<Rightarrow> (None, 1, ps \<lparr> tokens := add_child (toksuper ps) (tokens ps) \<rparr>))"

definition jsmn_char :: "nat \<Rightarrow> byte list \<Rightarrow> jsmn_parser \<Rightarrow> jsmnerr_t option \<times> nat \<times> jsmn_parser" where
  \<comment> \<open>the \<open>switch\<close>: an error, or how much \<open>count\<close> grows\<close>
  "jsmn_char n js ps =
     (let c = js ! jp_pos ps in
      if c = 123 \<or> c = 91 then (case open_bracket n c ps of (e, ps1) \<Rightarrow> (e, 1, ps1))
      else if c = 125 \<or> c = 93 then (case close_bracket c ps of (e, ps1) \<Rightarrow> (e, 0, ps1))
      else if c = 34 then child_of_super (jsmn_parse_string n js ps)
      else if c = 9 \<or> c = 13 \<or> c = 10 \<or> c = 32 then (None, 0, ps)
      else if c = 58 then (None, 0, ps \<lparr> toksuper := (if tokens ps = [] then None else Some (length (tokens ps) - 1)) \<rparr>)
      else if c = 44 then (None, 0, comma ps)
      else child_of_super (jsmn_parse_primitive n js ps))"

lemma prim_len_pos: "prim_len (c # cs) = Some k \<Longrightarrow> \<not> prim_stop c \<Longrightarrow> 0 < k"
  by (auto split: if_splits)

lemma jsmn_char_progress:
  assumes "jp_pos ps < length js" and "jsmn_char n js ps = (None, k, ps1)"
  shows "jp_pos ps \<le> jp_pos ps1"
proof -
  have d: "drop (jp_pos ps) js = js ! jp_pos ps # drop (Suc (jp_pos ps)) js"
    using assms(1) by (rule Cons_nth_drop_Suc [symmetric])
  have "jp_pos ps \<le> jp_pos ps2" if "jsmn_parse_primitive n js ps = (None, ps2)" "\<not> prim_stop (js ! jp_pos ps)" for ps2
    using that prim_len_pos [of "js ! jp_pos ps" "drop (Suc (jp_pos ps)) js"]
    by (auto simp: jsmn_parse_primitive_def d jsmn_alloc_token_def split: option.splits if_splits simp del: prim_len.simps)
  then show ?thesis
    using assms(2)
    by (auto simp: jsmn_char_def Let_def open_bracket_def close_bracket_def child_of_super_def jsmn_parse_string_def
      jsmn_alloc_token_def comma_def prim_stop_def split: if_splits prod.splits option.splits sum.splits)
qed

function jsmn_loop :: "nat \<Rightarrow> byte list \<Rightarrow> nat \<Rightarrow> jsmn_parser \<Rightarrow> (jsmnerr_t + nat) \<times> jsmn_parser" where
  "jsmn_loop n js count ps =
     (if length js \<le> jp_pos ps then (Inr count, ps)
      else case jsmn_char n js ps of
             (Some e, k, ps1) \<Rightarrow> (Inl e, ps1)
           | (None, k, ps1) \<Rightarrow> jsmn_loop n js (count + k) (ps1 \<lparr> jp_pos := Suc (jp_pos ps1) \<rparr>))"
  by pat_completeness auto
termination
  by (relation "measure (\<lambda>(n, js, count, ps). length js - jp_pos ps)")
    (auto dest!: jsmn_char_progress [OF _ sym] simp: not_le intro!: diff_less_mono2)

declare jsmn_loop.simps [simp del]

definition jsmn_parse :: "nat \<Rightarrow> byte list \<Rightarrow> jsmn_parser \<Rightarrow> (jsmnerr_t + nat) \<times> jsmn_parser" where
  "jsmn_parse n js ps =
     (case jsmn_loop n js (length (tokens ps)) ps of
        (Inl e, ps1) \<Rightarrow> (Inl e, ps1)
      | (Inr count, ps1) \<Rightarrow>
          (if last_tok is_open (tokens ps1) (length (tokens ps1)) \<noteq> None then Inl JSMN_ERROR_PART else Inr count, ps1))"

subsection \<open>JSON texts and their tokens\<close>

text \<open>The specification: JSON values with their white space, how they are written, and the
  tokens that \<open>jsmn\<close> promises: each value in the order of the text with its bounds, an array
  with the number of its elements, an object with the number of its keys, a key with 1.\<close>

datatype json = JPrim "byte list" | JText "byte list" | JPad "byte list" json "byte list"
  | JArr "byte list" "json list" | JObj "byte list" "(byte list \<times> byte list \<times> byte list \<times> json) list"

fun render :: "json \<Rightarrow> byte list" and renders :: "json list \<Rightarrow> byte list"
  and rmems :: "(byte list \<times> byte list \<times> byte list \<times> json) list \<Rightarrow> byte list" where
  "render (JPrim s) = s"
| "render (JText s) = 34 # s @ [34]"
| "render (JPad a v b) = a @ render v @ b"
| "render (JArr w vs) = 91 # w @ renders vs @ [93]"
| "render (JObj w ms) = 123 # w @ rmems ms @ [125]"
| "renders [] = []"
| "renders (v # vs) = render v @ (if vs = [] then [] else 44 # renders vs)"
| "rmems [] = []"
| "rmems ((a, k, b, v) # ms) = a @ 34 # k @ 34 # b @ 58 # render v @ (if ms = [] then [] else 44 # rmems ms)"

definition closed_tok :: "jsmntype_t \<Rightarrow> nat \<Rightarrow> nat \<Rightarrow> nat \<Rightarrow> jsmntok_t" where
  "closed_tok t s e n = \<lparr> tk_type = t, tk_start = int s, tk_end = int e, tk_size = n \<rparr>"

fun toks :: "nat \<Rightarrow> json \<Rightarrow> jsmntok_t list" and tokss :: "nat \<Rightarrow> json list \<Rightarrow> jsmntok_t list"
  and mtoks :: "nat \<Rightarrow> (byte list \<times> byte list \<times> byte list \<times> json) list \<Rightarrow> jsmntok_t list" where
  "toks p (JPrim s) = [closed_tok JSMN_PRIMITIVE p (p + length s) 0]"
| "toks p (JText s) = [closed_tok JSMN_STRING (Suc p) (Suc p + length s) 0]"
| "toks p (JPad a v b) = toks (p + length a) v"
| "toks p (JArr w vs) = closed_tok JSMN_ARRAY p (p + length (render (JArr w vs))) (length vs) # tokss (Suc p + length w) vs"
| "toks p (JObj w ms) = closed_tok JSMN_OBJECT p (p + length (render (JObj w ms))) (length ms) # mtoks (Suc p + length w) ms"
| "tokss p [] = []"
| "tokss p (v # vs) = toks p v @ tokss (p + length (render v) + 1) vs"
| "mtoks p [] = []"
| "mtoks p ((a, k, b, v) # ms) =
     closed_tok JSMN_STRING (p + length a + 1) (p + length a + 1 + length k) 1
     # toks (p + length a + length k + length b + 3) v
     @ mtoks (p + length a + length k + length b + 4 + length (render v)) ms"

definition white :: "byte list \<Rightarrow> bool" where
  "white w \<longleftrightarrow> list_all (\<lambda>c. c = 9 \<or> c = 10 \<or> c = 13 \<or> c = 32) w"

function text_ok :: "byte list \<Rightarrow> bool" where
  "text_ok [] = True"
| "text_ok (c # cs) =
     (if c = 34 then False
      else if c = 92 then cs \<noteq> [] \<and> (if simple_escape (hd cs) then text_ok (tl cs)
        else hd cs = 117 \<and> 4 \<le> length (tl cs) \<and> list_all hex_char (take 4 (tl cs)) \<and> text_ok (drop 4 (tl cs)))
      else text_ok cs)"
  by pat_completeness auto
termination by (relation "measure length") auto

definition prim_ok :: "byte list \<Rightarrow> bool" where
  "prim_ok s \<longleftrightarrow> s \<noteq> [] \<and> hd s \<notin> {34, 91, 123} \<and> list_all (\<lambda>c. \<not> prim_stop c \<and> 32 \<le> c \<and> c < 127) s"

fun json_ok :: "json \<Rightarrow> bool" and jsons_ok :: "json list \<Rightarrow> bool"
  and mems_ok :: "(byte list \<times> byte list \<times> byte list \<times> json) list \<Rightarrow> bool" where
  "json_ok (JPrim s) = prim_ok s"
| "json_ok (JText s) = text_ok s"
| "json_ok (JPad a v b) = (white a \<and> json_ok v \<and> white b)"
| "json_ok (JArr w vs) = (white w \<and> jsons_ok vs)"
| "json_ok (JObj w ms) = (white w \<and> mems_ok ms)"
| "jsons_ok [] = True"
| "jsons_ok (v # vs) = (json_ok v \<and> jsons_ok vs)"
| "mems_ok [] = True"
| "mems_ok ((a, k, b, v) # ms) = (white a \<and> text_ok k \<and> white b \<and> json_ok v \<and> mems_ok ms)"

fun boxed :: "json \<Rightarrow> bool" where
  "boxed (JPrim s) = False"
| "boxed (JText s) = False"
| "boxed (JPad a v b) = boxed v"
| "boxed (JArr w vs) = True"
| "boxed (JObj w ms) = True"

subsection \<open>Single tokens\<close>

lemma prim_len_run:
  assumes "list_all (\<lambda>c. \<not> prim_stop c \<and> 32 \<le> c \<and> c < 127) s" and "r = [] \<or> prim_stop (hd r)"
  shows "prim_len (s @ r) = Some (length s)"
proof -
  have "prim_len r = Some 0" using assms(2) by (cases r) auto
  with assms(1) show ?thesis by (induction s) (auto simp: not_le dest: leD)
qed

lemma hex_run_all: "list_all hex_char (take k cs) \<Longrightarrow> k \<le> length cs \<Longrightarrow> hex_run k (cs @ r) = Some k"
  by (induction k cs rule: hex_run.induct) auto

lemma str_scan_text: "text_ok s \<Longrightarrow> str_scan (s @ 34 # r) = Inr (length s)"
proof (induction s rule: text_ok.induct)
  case 1
  show ?case by simp
next
  case (2 c cs)
  show ?case
  proof (cases "c = 92")
    case False
    with 2 show ?thesis by (auto split: if_splits)
  next
    case True
    with "2.prems" obtain d ds where cs: "cs = d # ds" by (cases cs) auto
    show ?thesis
    proof (cases "simple_escape d")
      case True
      with \<open>c = 92\<close> "2.prems" have "text_ok ds" by (simp add: cs)
      with "2.IH"(1) \<open>c = 92\<close> True have "str_scan (ds @ 34 # r) = Inr (length ds)" by (simp add: cs)
      with \<open>c = 92\<close> True show ?thesis by (simp add: cs)
    next
      case False
      with \<open>c = 92\<close> "2.prems" have h: "d = 117" "4 \<le> length ds" "list_all hex_char (take 4 ds)" "text_ok (drop 4 ds)"
        by (auto simp: cs)
      with "2.IH"(2) \<open>c = 92\<close> False have "str_scan (drop 4 ds @ 34 # r) = Inr (length (drop 4 ds))" by (simp add: cs)
      moreover have "hex_run 4 (ds @ 34 # r) = Some 4" using h by (intro hex_run_all)
      ultimately show ?thesis using \<open>c = 92\<close> False h by (simp add: cs)
    qed
  qed
qed

lemma last_tok_Some: "last_tok P ts i = Some m \<longleftrightarrow> m < i \<and> P (ts ! m) \<and> (\<forall>j. m < j \<and> j < i \<longrightarrow> \<not> P (ts ! j))"
  by (induction i) (auto simp: less_Suc_eq)

lemma last_tok_None: "last_tok P ts i = None \<longleftrightarrow> (\<forall>j<i. \<not> P (ts ! j))"
  by (induction i) (auto simp: less_Suc_eq)

lemma last_tok_cong: "(\<And>j. j < i \<Longrightarrow> P (ts ! j) = Q (us ! j)) \<Longrightarrow> last_tok P ts i = last_tok Q us i"
  by (induction i) auto

definition last_open :: "jsmntok_t list \<Rightarrow> nat option" where
  "last_open ts = last_tok is_open ts (length ts)"

lemma last_tok_append_same: "last_tok P (ts @ us) (length ts) = last_tok P ts (length ts)"
  by (rule last_tok_cong) (simp add: nth_append)

lemma last_open_append [simp]:
  "list_all (\<lambda>t. \<not> is_open t) us \<Longrightarrow> last_open (ts @ us) = last_open ts"
proof (induction us rule: rev_induct)
  case Nil
  then show ?case by simp
next
  case (snoc u us)
  then have "last_open (ts @ us @ [u]) = last_tok is_open (ts @ us @ [u]) (length (ts @ us))"
    by (simp add: last_open_def nth_append)
  also have "\<dots> = last_open (ts @ us)" using last_tok_append_same [of is_open "ts @ us" "[u]"] by (simp add: last_open_def)
  finally show ?case using snoc by simp
qed

lemma last_open_snoc: "is_open t \<Longrightarrow> last_open (ts @ [t]) = Some (length ts)"
  by (simp add: last_open_def)

lemma length_add_child [simp]: "length (add_child s ts) = length ts"
  by (cases s) (simp_all add: add_child_def)

lemma is_open_size [simp]: "is_open (t \<lparr> tk_size := n \<rparr>) = is_open t"
  by (simp add: is_open_def)

lemma is_container_size [simp]: "is_container (t \<lparr> tk_size := n \<rparr>) = is_container t"
  by (simp add: is_container_def)

definition sized :: "nat \<Rightarrow> nat \<Rightarrow> jsmntok_t list \<Rightarrow> jsmntok_t list" where
  \<comment> \<open>\<open>k\<close> more children for token \<open>m\<close>\<close>
  "sized m k ts = ts[m := (ts ! m) \<lparr> tk_size := tk_size (ts ! m) + k \<rparr>]"

lemma sized_simps [simp]:
  "length (sized m k ts) = length ts"
  "m < length ts \<Longrightarrow> sized m j (sized m k ts) = sized m (k + j) ts"
  "m < length ts \<Longrightarrow> sized m k (ts @ us) = sized m k ts @ us"
  "sized m 0 ts = ts"
  by (simp_all add: sized_def nth_append list_update_append add.assoc)

lemma sized_nth: "m < length ts \<Longrightarrow> is_open (sized m k ts ! j) = is_open (ts ! j)"
  "m < length ts \<Longrightarrow> is_container (sized m k ts ! j) = is_container (ts ! j)"
  "m < length ts \<Longrightarrow> tk_type (sized m k ts ! j) = tk_type (ts ! j)"
  "m < length ts \<Longrightarrow> tk_start (sized m k ts ! j) = tk_start (ts ! j)"
  by (cases "j = m"; simp add: sized_def)+

lemma add_child_sized: "add_child (Some m) ts = sized m 1 ts"
  by (simp add: add_child_def sized_def)

lemma last_open_sized [simp]: "m < length ts \<Longrightarrow> last_open (sized m k ts) = last_open ts"
  unfolding last_open_def by (simp, rule last_tok_cong) (simp add: sized_nth)

lemma last_open_add_child [simp]: "(\<And>i. s = Some i \<Longrightarrow> i < length ts) \<Longrightarrow> last_open (add_child s ts) = last_open ts"
  by (cases s) (simp_all add: add_child_sized add_child_def [of None])

text \<open>The number returned is the number of tokens handed out, which the callers use as the length
  of the array.\<close>

lemma jsmn_char_count:
  assumes "jsmn_char n js ps = (None, k, ps1)"
  shows "length (tokens ps1) = length (tokens ps) + k"
  using assms
  by (auto simp: jsmn_char_def Let_def open_bracket_def close_bracket_def child_of_super_def jsmn_parse_string_def
    jsmn_parse_primitive_def jsmn_alloc_token_def comma_def split: if_splits prod.splits option.splits sum.splits)

lemma jsmn_loop_count:
  "jsmn_loop n js cnt ps = (Inr m, ps1) \<Longrightarrow> m + length (tokens ps) = cnt + length (tokens ps1)"
proof (induction n js cnt ps rule: jsmn_loop.induct)
  case (1 n js cnt ps)
  show ?case
  proof (cases "length js \<le> jp_pos ps")
    case True
    with "1.prems" show ?thesis by (subst (asm) jsmn_loop.simps) simp
  next
    case False
    obtain e k ps2 where c: "jsmn_char n js ps = (e, k, ps2)" by (metis prod_cases3)
    with False "1.prems" have e: "e = None" by (subst (asm) jsmn_loop.simps) (auto split: option.splits)
    with False c "1.prems" have "jsmn_loop n js (cnt + k) (ps2 \<lparr> jp_pos := Suc (jp_pos ps2) \<rparr>) = (Inr m, ps1)"
      by (subst (asm) jsmn_loop.simps) simp
    from "1.IH" [OF False c [symmetric] e refl this] jsmn_char_count [OF c [unfolded e]] show ?thesis by simp
  qed
qed

lemma jsmn_parse_count: "jsmn_parse n js ps = (Inr num, ps1) \<Longrightarrow> num = length (tokens ps1)"
  using jsmn_loop_count by (fastforce simp: jsmn_parse_def split: prod.splits sum.splits if_splits)

subsection \<open>What the parser does with each piece of a text\<close>

abbreviation st :: "nat \<Rightarrow> nat option \<Rightarrow> jsmntok_t list \<Rightarrow> jsmn_parser" where
  "st p s ts \<equiv> \<lparr> jp_pos = p, toksuper = s, tokens = ts \<rparr>"

definition super_ok :: "nat option \<Rightarrow> jsmntok_t list \<Rightarrow> bool" where
  "super_ok s ts \<longleftrightarrow> (case s of None \<Rightarrow> True | Some i \<Rightarrow> i < length ts)"

lemma super_ok_simps [simp]: "super_ok None ts" "super_ok (Some i) ts = (i < length ts)"
  by (simp_all add: super_ok_def)

lemma add_child_append [simp]: "super_ok s ts \<Longrightarrow> add_child s (ts @ us) = add_child s ts @ us"
  by (cases s) (auto simp: add_child_def nth_append list_update_append)

lemma at_pos: "drop p js = c # r \<Longrightarrow> p < length js \<and> js ! p = c \<and> drop (Suc p) js = r"
proof -
  assume d: "drop p js = c # r"
  then have "p < length js" by (cases "p < length js") auto
  moreover from this d have "js ! p = c" "drop (Suc p) js = r" by (auto simp: Cons_nth_drop_Suc [symmetric])
  ultimately show ?thesis by simp
qed

lemma drop_plus: "drop p js = w @ r \<Longrightarrow> drop (p + length w) js = r"
  by (metis append_eq_conv_conj drop_drop add.commute)

lemma loop_char:
  assumes "jp_pos ps < length js" and "jsmn_char n js ps = (None, k, ps1)"
  shows "jsmn_loop n js cnt ps = jsmn_loop n js (cnt + k) (ps1 \<lparr> jp_pos := Suc (jp_pos ps1) \<rparr>)"
  using assms by (subst jsmn_loop.simps) simp

lemma loop_white:
  "drop p js = w @ r \<Longrightarrow> white w \<Longrightarrow> jsmn_loop n js cnt (st p s ts) = jsmn_loop n js cnt (st (p + length w) s ts)"
proof (induction w arbitrary: p)
  case Nil
  then show ?case by simp
next
  case (Cons c w)
  note a = at_pos [OF Cons.prems(1) [unfolded append_Cons]]
  have "jsmn_char n js (st p s ts) = (None, 0, st p s ts)"
    using a Cons.prems(2) by (auto simp: jsmn_char_def white_def)
  from loop_char [OF _ this] a have "jsmn_loop n js cnt (st p s ts) = jsmn_loop n js cnt (st (Suc p) s ts)" by simp
  also have "\<dots> = jsmn_loop n js cnt (st (Suc p + length w) s ts)"
    using Cons.prems(2) a by (intro Cons.IH) (auto simp: white_def)
  finally show ?case by simp
qed

lemma loop_text:
  assumes "drop p js = 34 # t @ 34 # r" and "text_ok t" and "length ts < n" and "super_ok s ts"
  shows "jsmn_loop n js cnt (st p s ts) = jsmn_loop n js (cnt + 1)
      (st (p + length t + 2) s (add_child s ts @ [closed_tok JSMN_STRING (Suc p) (Suc p + length t) 0]))"
proof -
  note a = at_pos [OF assms(1)]
  have "jsmn_parse_string n js (st p s ts) = (None, st (Suc p + length t) s (ts @ [closed_tok JSMN_STRING (Suc p) (Suc p + length t) 0]))"
    using assms a by (simp add: jsmn_parse_string_def str_scan_text jsmn_alloc_token_def jsmn_fill_token_def closed_tok_def)
  then have "jsmn_char n js (st p s ts) = (None, 1, st (Suc p + length t) s (add_child s ts @ [closed_tok JSMN_STRING (Suc p) (Suc p + length t) 0]))"
    using a assms(4) by (simp add: jsmn_char_def child_of_super_def)
  from loop_char [OF _ this] a show ?thesis by simp
qed

lemma loop_prim:
  assumes "drop p js = t @ r" and "prim_ok t" and "r = [] \<or> prim_stop (hd r)" and "length ts < n" and "super_ok s ts"
  shows "jsmn_loop n js cnt (st p s ts) = jsmn_loop n js (cnt + 1)
      (st (p + length t) s (add_child s ts @ [closed_tok JSMN_PRIMITIVE p (p + length t) 0]))"
proof -
  obtain c t' where t: "t = c # t'" using assms(2) by (cases t) (auto simp: prim_ok_def)
  note a = at_pos [OF assms(1) [unfolded t append_Cons]]
  have "prim_len (t @ r) = Some (length t)" using assms(2,3) by (intro prim_len_run) (auto simp: prim_ok_def)
  then have "jsmn_parse_primitive n js (st p s ts) = (None, st (p + length t - 1) s (ts @ [closed_tok JSMN_PRIMITIVE p (p + length t) 0]))"
    using assms by (simp add: jsmn_parse_primitive_def jsmn_alloc_token_def jsmn_fill_token_def closed_tok_def)
  moreover have "\<not> prim_stop c" "c \<notin> {34, 91, 123}" using assms(2) by (auto simp: t prim_ok_def)
  ultimately have "jsmn_char n js (st p s ts) = (None, 1, st (p + length t - 1) s (add_child s ts @ [closed_tok JSMN_PRIMITIVE p (p + length t) 0]))"
    using a assms(5) by (simp add: jsmn_char_def child_of_super_def prim_stop_def)
  from loop_char [OF _ this] a show ?thesis by (simp add: t)
qed

definition open_token :: "byte \<Rightarrow> nat \<Rightarrow> nat \<Rightarrow> jsmntok_t" where
  "open_token c p k = \<lparr> tk_type = (if c = 123 then JSMN_OBJECT else JSMN_ARRAY), tk_start = int p, tk_end = -1, tk_size = k \<rparr>"

lemma open_token_simps [simp]: "is_open (open_token c p k)" "is_container (open_token c p k)"
  "open_token c p k \<lparr> tk_size := j \<rparr> = open_token c p j" "tk_size (open_token c p k) = k"
  "tk_type (open_token c p k) = (if c = 123 then JSMN_OBJECT else JSMN_ARRAY)"
  by (simp_all add: open_token_def is_open_def is_container_def)

lemma closed_tok_simps [simp]: "\<not> is_open (closed_tok t p q k)" "tk_type (closed_tok t p q k) = t"
  "tk_start (closed_tok t p q k) = int p" "tk_end (closed_tok t p q k) = int q" "tk_size (closed_tok t p q k) = k"
  by (simp_all add: closed_tok_def is_open_def)

lemma loop_open:
  assumes "drop p js = c # r" and "c = 123 \<or> c = 91" and "length ts < n"
  shows "jsmn_loop n js cnt (st p s ts) = jsmn_loop n js (cnt + 1)
      (st (Suc p) (Some (length ts)) (add_child s ts @ [open_token c p 0]))"
proof -
  note a = at_pos [OF assms(1)]
  have "jsmn_char n js (st p s ts) = (None, 1, st p (Some (length ts)) (add_child s ts @ [open_token c p 0]))"
    using a assms(2,3) by (auto simp: jsmn_char_def open_bracket_def open_token_def)
  from loop_char [OF _ this] a show ?thesis by simp
qed

lemma loop_close:
  assumes "drop p js = c # r" and c: "c = 125 \<and> b = 123 \<or> c = 93 \<and> b = 91"
    and "list_all (\<lambda>t. \<not> is_open t) us" and k: "kt = (if b = 123 then JSMN_OBJECT else JSMN_ARRAY)"
  shows "jsmn_loop n js cnt (st p s (ts @ open_token b q k # us)) = jsmn_loop n js cnt
      (st (Suc p) (last_open ts) (ts @ closed_tok kt q (Suc p) k # us))"
proof -
  note a = at_pos [OF assms(1)]
  let ?ts = "ts @ open_token b q k # us" and ?us = "ts @ closed_tok kt q (Suc p) k # us"
  have "last_open ?ts = Some (length ts)"
    using last_open_append [OF assms(3), of "ts @ [open_token b q k]"] by (simp add: last_open_snoc)
  then have "last_tok is_open ?ts (Suc (length ts + length us)) = Some (length ts)" by (simp add: last_open_def)
  moreover have "last_tok is_open ?us (Suc (length ts)) = last_open ts"
    using last_tok_append_same [of is_open ts "closed_tok kt q (Suc p) k # us"] by (simp add: last_open_def nth_append)
  moreover have "(open_token b q k) \<lparr> tk_end := int p + 1 \<rparr> = closed_tok kt q (Suc p) k"
    by (simp add: open_token_def closed_tok_def k)
  ultimately have "jsmn_char n js (st p s ?ts) = (None, 0, st p (last_open ts) ?us)"
    using a c by (auto simp: jsmn_char_def close_bracket_def nth_append list_update_append)
  from loop_char [OF _ this] a show ?thesis by simp
qed

lemma loop_comma:
  assumes "drop p js = 44 # r" and m: "last_open ts = Some m" and "is_container (ts ! m)"
    and "s = Some m \<or> (\<exists>i. s = Some i \<and> \<not> is_container (ts ! i))"
  shows "jsmn_loop n js cnt (st p s ts) = jsmn_loop n js cnt (st (Suc p) (Some m) ts)"
proof -
  note a = at_pos [OF assms(1)]
  have "last_tok (\<lambda>t. is_container t \<and> is_open t) ts (length ts) = Some m"
    using m assms(3) by (auto simp: last_open_def last_tok_Some)
  then have "jsmn_char n js (st p s ts) = (None, 0, st p (Some m) ts)"
    using a assms(3,4) by (auto simp: jsmn_char_def comma_def)
  from loop_char [OF _ this] a show ?thesis by simp
qed

lemma loop_colon:
  assumes "drop p js = 58 # r" and "ts \<noteq> []"
  shows "jsmn_loop n js cnt (st p s ts) = jsmn_loop n js cnt (st (Suc p) (Some (length ts - 1)) ts)"
proof -
  note a = at_pos [OF assms(1)]
  have "jsmn_char n js (st p s ts) = (None, 0, st p (Some (length ts - 1)) ts)"
    using a assms(2) by (simp add: jsmn_char_def)
  from loop_char [OF _ this] a show ?thesis by simp
qed

subsection \<open>Whole values\<close>

lemma toks_closed:
  "list_all (\<lambda>t. \<not> is_open t) (toks p v)" "list_all (\<lambda>t. \<not> is_open t) (tokss p vs)" "list_all (\<lambda>t. \<not> is_open t) (mtoks p ms)"
  by (induction p v and p vs and p ms rule: toks_tokss_mtoks.induct) auto

lemma white_stop: "white w \<Longrightarrow> r = [] \<or> prim_stop (hd r) \<Longrightarrow> w @ r = [] \<or> prim_stop (hd (w @ r))"
  by (cases w) (auto simp: white_def prim_stop_def)

lemma prim_stop_simps [simp]: "prim_stop 44" "prim_stop 93" "prim_stop 125" "prim_stop 58"
  by (simp_all add: prim_stop_def)

definition value_run :: "nat \<Rightarrow> byte list \<Rightarrow> nat \<Rightarrow> json \<Rightarrow> bool" where
  "value_run n js p v \<longleftrightarrow> (\<forall>r cnt s ts. drop p js = render v @ r \<longrightarrow> json_ok v \<longrightarrow> r = [] \<or> prim_stop (hd r) \<longrightarrow>
     length ts + length (toks p v) \<le> n \<longrightarrow> super_ok s ts \<longrightarrow>
     jsmn_loop n js cnt (st p s ts) = jsmn_loop n js (cnt + length (toks p v))
       (st (p + length (render v)) (if boxed v then last_open ts else s) (add_child s ts @ toks p v)))"

definition values_run :: "nat \<Rightarrow> byte list \<Rightarrow> nat \<Rightarrow> json list \<Rightarrow> bool" where
  "values_run n js p vs \<longleftrightarrow> (\<forall>r cnt m ts. drop p js = renders vs @ r \<longrightarrow> jsons_ok vs \<longrightarrow> r \<noteq> [] \<and> prim_stop (hd r) \<longrightarrow>
     length ts + length (tokss p vs) \<le> n \<longrightarrow> m < length ts \<longrightarrow> last_open ts = Some m \<longrightarrow> is_container (ts ! m) \<longrightarrow>
     jsmn_loop n js cnt (st p (Some m) ts) = jsmn_loop n js (cnt + length (tokss p vs))
       (st (p + length (renders vs)) (Some m) (sized m (length vs) ts @ tokss p vs)))"

definition members_run :: "nat \<Rightarrow> byte list \<Rightarrow> nat \<Rightarrow> (byte list \<times> byte list \<times> byte list \<times> json) list \<Rightarrow> bool" where
  "members_run n js p ms \<longleftrightarrow> (\<forall>r cnt m ts. drop p js = rmems ms @ r \<longrightarrow> mems_ok ms \<longrightarrow> r \<noteq> [] \<and> prim_stop (hd r) \<longrightarrow>
     length ts + length (mtoks p ms) \<le> n \<longrightarrow> m < length ts \<longrightarrow> last_open ts = Some m \<longrightarrow> is_container (ts ! m) \<longrightarrow>
     (\<exists>s'. jsmn_loop n js cnt (st p (Some m) ts) = jsmn_loop n js (cnt + length (mtoks p ms))
       (st (p + length (rmems ms)) s' (sized m (length ms) ts @ mtoks p ms))))"

lemma values_step:
  assumes v: "value_run n js p v" and vs: "values_run n js (p + length (render v) + 1) vs"
  shows "values_run n js p (v # vs)"
  unfolding values_run_def
proof (intro allI impI)
  fix r cnt m ts
  assume d: "drop p js = renders (v # vs) @ r" and ok: "jsons_ok (v # vs)" and r: "r \<noteq> [] \<and> prim_stop (hd r)"
    and n: "length ts + length (tokss p (v # vs)) \<le> n" and m: "m < length ts" "last_open ts = Some m" "is_container (ts ! m)"
  let ?q = "p + length (render v)" and ?ts = "sized m 1 ts @ toks p v"
  let ?r = "(if vs = [] then [] else 44 # renders vs) @ r"
  have d0: "drop p js = render v @ ?r" using d by simp
  have "jsmn_loop n js cnt (st p (Some m) ts) = jsmn_loop n js (cnt + length (toks p v)) (st ?q (Some m) ?ts)"
    using v [unfolded value_run_def, rule_format, OF d0, of ts "Some m"] ok r n m by (auto simp: add_child_sized)
  also have "\<dots> = jsmn_loop n js (cnt + length (tokss p (v # vs)))
       (st (p + length (renders (v # vs))) (Some m) (sized m (length (v # vs)) ts @ tokss p (v # vs)))"
  proof (cases "vs = []")
    case True
    then show ?thesis by simp
  next
    case False
    have dq: "drop ?q js = 44 # renders vs @ r" using drop_plus [OF d0] False by simp
    have lo: "last_open ?ts = Some m" "is_container (?ts ! m)" "m < length ?ts"
      using m by (simp_all add: toks_closed nth_append sized_nth)
    have "jsmn_loop n js (cnt + length (toks p v)) (st ?q (Some m) ?ts) = jsmn_loop n js (cnt + length (toks p v)) (st (Suc ?q) (Some m) ?ts)"
      using lo by (intro loop_comma [OF dq]) auto
    also have "\<dots> = jsmn_loop n js (cnt + length (toks p v) + length (tokss (?q + 1) vs))
        (st (Suc ?q + length (renders vs)) (Some m) (sized m (length vs) ?ts @ tokss (?q + 1) vs))"
      using vs [unfolded values_run_def, rule_format, of r ?ts m "cnt + length (toks p v)"] at_pos [OF dq] ok r n lo by simp
    finally show ?thesis using False m by (simp add: add.assoc)
  qed
  finally show "jsmn_loop n js cnt (st p (Some m) ts) = jsmn_loop n js (cnt + length (tokss p (v # vs)))
       (st (p + length (renders (v # vs))) (Some m) (sized m (length (v # vs)) ts @ tokss p (v # vs)))" .
qed

lemma member_run:
  assumes v: "value_run n js (p + length a + length k + length b + 3) v"
    and d: "drop p js = a @ 34 # k @ 34 # b @ 58 # render v @ r" and ok: "mems_ok [(a, k, b, v)]" and r: "r \<noteq> [] \<and> prim_stop (hd r)"
    and n: "length ts + length (mtoks p [(a, k, b, v)]) \<le> n" and m: "m < length ts" "last_open ts = Some m"
  shows "jsmn_loop n js cnt (st p (Some m) ts) = jsmn_loop n js (cnt + length (mtoks p [(a, k, b, v)]))
    (st (p + length a + length k + length b + 3 + length (render v)) (if boxed v then Some m else Some (length ts))
      (sized m 1 ts @ mtoks p [(a, k, b, v)]))"
    and "drop (p + length a + length k + length b + 3 + length (render v)) js = r"
proof -
  let ?key = "\<lambda>c. closed_tok JSMN_STRING (p + length a + 1) (p + length a + 1 + length k) c"
  let ?q = "p + length a" and ?q2 = "p + length a + length k + 2" and ?q3 = "p + length a + length k + 2 + length b"
  have q3: "p + length a + length k + length b + 3 = ?q3 + 1" by simp
  note v' = v [unfolded q3]
  have n': "length (sized m 1 ts @ [?key 0]) + length (toks (?q3 + 1) v) \<le> n" using n by (simp add: q3)
  have o: "white a" "text_ok k" "white b" "json_ok v" using ok by auto
  have d1: "drop ?q js = 34 # k @ 34 # b @ 58 # render v @ r" using drop_plus [OF d] .
  have d2: "drop ?q2 js = b @ 58 # render v @ r"
    using drop_plus [of ?q js "34 # k @ [34]"] d1 by (simp add: algebra_simps)
  have d3: "drop ?q3 js = 58 # render v @ r" using drop_plus [OF d2] by simp
  have d4: "drop (?q3 + 1) js = render v @ r" using at_pos [OF d3] by simp
  have "p + length a + length k + length b + 3 + length (render v) = ?q3 + 1 + length (render v)" by simp
  then show "drop (p + length a + length k + length b + 3 + length (render v)) js = r" using drop_plus [OF d4] by (simp only:)
  have "jsmn_loop n js cnt (st p (Some m) ts) = jsmn_loop n js cnt (st ?q (Some m) ts)" by (rule loop_white [OF d o(1)])
  also have "\<dots> = jsmn_loop n js (cnt + 1) (st ?q2 (Some m) (sized m 1 ts @ [?key 0]))"
    using loop_text [OF d1 o(2), of ts n "Some m" cnt] n m by (simp add: add_child_sized)
  also have "\<dots> = jsmn_loop n js (cnt + 1) (st ?q3 (Some m) (sized m 1 ts @ [?key 0]))" by (rule loop_white [OF d2 o(3)])
  also have "\<dots> = jsmn_loop n js (cnt + 1) (st (?q3 + 1) (Some (length ts)) (sized m 1 ts @ [?key 0]))"
    using loop_colon [OF d3] by simp
  also have "\<dots> = jsmn_loop n js (cnt + 1 + length (toks (?q3 + 1) v)) (st (?q3 + 1 + length (render v))
      (if boxed v then last_open (sized m 1 ts @ [?key 0]) else Some (length ts))
      (add_child (Some (length ts)) (sized m 1 ts @ [?key 0]) @ toks (?q3 + 1) v))"
    using v' [unfolded value_run_def, rule_format, of r "sized m 1 ts @ [?key 0]" "Some (length ts)" "cnt + 1"] d4 o(4) r n'
    by (simp only: super_ok_simps) simp
  also have "add_child (Some (length ts)) (sized m 1 ts @ [?key 0]) = sized m 1 ts @ [?key 1]"
    by (simp add: add_child_def nth_append list_update_append closed_tok_def)
  finally show "jsmn_loop n js cnt (st p (Some m) ts) = jsmn_loop n js (cnt + length (mtoks p [(a, k, b, v)]))
    (st (p + length a + length k + length b + 3 + length (render v)) (if boxed v then Some m else Some (length ts))
      (sized m 1 ts @ mtoks p [(a, k, b, v)]))"
    unfolding mtoks.simps q3 using m by simp
qed

lemma members_step:
  assumes v: "value_run n js (p + length a + length k + length b + 3) v"
    and ms: "members_run n js (p + length a + length k + length b + 4 + length (render v)) ms"
  shows "members_run n js p ((a, k, b, v) # ms)"
  unfolding members_run_def
proof (intro allI impI)
  fix r cnt m ts
  assume d: "drop p js = rmems ((a, k, b, v) # ms) @ r" and ok: "mems_ok ((a, k, b, v) # ms)" and r: "r \<noteq> [] \<and> prim_stop (hd r)"
    and n: "length ts + length (mtoks p ((a, k, b, v) # ms)) \<le> n" and m: "m < length ts" "last_open ts = Some m" "is_container (ts ! m)"
  let ?q = "p + length a + length k + length b + 3 + length (render v)"
  let ?ts = "sized m 1 ts @ mtoks p [(a, k, b, v)]" and ?s = "if boxed v then Some m else Some (length ts)"
  let ?r = "(if ms = [] then [] else 44 # rmems ms) @ r"
  have d0: "drop p js = a @ 34 # k @ 34 # b @ 58 # render v @ ?r" using d by simp
  have one: "mems_ok [(a, k, b, v)]" "?r \<noteq> [] \<and> prim_stop (hd ?r)" "length ts + length (mtoks p [(a, k, b, v)]) \<le> n"
    using ok r n by auto
  note run = member_run [OF v d0 one m(1,2)]
  have m2: "m < length ?ts" "last_open ?ts = Some m" "is_container (?ts ! m)"
    using m by (simp_all add: nth_append sized_nth toks_closed)
  show "\<exists>s'. jsmn_loop n js cnt (st p (Some m) ts) = jsmn_loop n js (cnt + length (mtoks p ((a, k, b, v) # ms)))
       (st (p + length (rmems ((a, k, b, v) # ms))) s' (sized m (length ((a, k, b, v) # ms)) ts @ mtoks p ((a, k, b, v) # ms)))"
  proof (cases "ms = []")
    case True
    show ?thesis
      unfolding run(1) by (rule exI [of _ ?s]) (simp add: True algebra_simps eval_nat_numeral)
  next
    case False
    have dq: "drop ?q js = 44 # rmems ms @ r" using run(2) False by simp
    have "\<not> is_container (?ts ! length ts)" by (simp add: nth_append is_container_def)
    then have "?s = Some m \<or> (\<exists>i. ?s = Some i \<and> \<not> is_container (?ts ! i))" by auto
    then have "jsmn_loop n js (cnt + length (mtoks p [(a, k, b, v)])) (st ?q ?s ?ts)
        = jsmn_loop n js (cnt + length (mtoks p [(a, k, b, v)])) (st (Suc ?q) (Some m) ?ts)"
      by (intro loop_comma [OF dq] m2)
    moreover obtain s' where "jsmn_loop n js (cnt + length (mtoks p [(a, k, b, v)])) (st (Suc ?q) (Some m) ?ts)
        = jsmn_loop n js (cnt + length (mtoks p [(a, k, b, v)]) + length (mtoks (?q + 1) ms))
            (st (Suc ?q + length (rmems ms)) s' (sized m (length ms) ?ts @ mtoks (?q + 1) ms))"
      using ms [unfolded members_run_def, rule_format, of r ?ts m "cnt + length (mtoks p [(a, k, b, v)])"] at_pos [OF dq] ok r n m2
      by (auto simp: algebra_simps eval_nat_numeral)
    ultimately show ?thesis
      unfolding run(1) using False m(1) by (intro exI [of _ s']) (simp add: algebra_simps eval_nat_numeral)
  qed
qed

lemma box_run:
  assumes d: "drop p js = oc # w @ body @ c # r" and c: "c = 125 \<and> oc = 123 \<or> c = 93 \<and> oc = 91" and w: "white w"
    and n: "length ts < n" and s: "super_ok s ts" and us: "list_all (\<lambda>t. \<not> is_open t) us"
    and kt: "kt = (if oc = 123 then JSMN_OBJECT else JSMN_ARRAY)"
    and body: "\<And>cnt ts1. drop (Suc p + length w) js = body @ c # r \<Longrightarrow> ts1 = add_child s ts @ [open_token oc p 0] \<Longrightarrow>
      \<exists>s'. jsmn_loop n js cnt (st (Suc p + length w) (Some (length ts)) ts1)
        = jsmn_loop n js (cnt + length us) (st (Suc p + length w + length body) s' (sized (length ts) k ts1 @ us))"
  shows "jsmn_loop n js cnt (st p s ts) = jsmn_loop n js (cnt + 1 + length us)
     (st (p + length w + length body + 2) (last_open ts) (add_child s ts @ closed_tok kt p (p + length w + length body + 2) k # us))"
proof -
  let ?ts1 = "add_child s ts @ [open_token oc p 0]" and ?q = "Suc p + length w"
  have d1: "drop (Suc p) js = w @ body @ c # r" using at_pos [OF d] by simp
  have d2: "drop ?q js = body @ c # r" using drop_plus [OF d1] by simp
  have d3: "drop (?q + length body) js = c # r" using drop_plus [OF d2] by simp
  have "jsmn_loop n js cnt (st p s ts) = jsmn_loop n js (cnt + 1) (st (Suc p) (Some (length ts)) ?ts1)"
    using c n by (intro loop_open [OF d]) auto
  also have "\<dots> = jsmn_loop n js (cnt + 1) (st ?q (Some (length ts)) ?ts1)" by (rule loop_white [OF d1 w])
  also obtain s' where "\<dots> = jsmn_loop n js (cnt + 1 + length us) (st (?q + length body) s' (sized (length ts) k ?ts1 @ us))"
    using body [OF d2 refl, of "cnt + 1"] by auto
  also have "sized (length ts) k ?ts1 @ us = add_child s ts @ open_token oc p k # us"
    by (simp add: sized_def nth_append list_update_append)
  also have "jsmn_loop n js (cnt + 1 + length us) (st (?q + length body) s' (add_child s ts @ open_token oc p k # us))
      = jsmn_loop n js (cnt + 1 + length us) (st (Suc (?q + length body)) (last_open (add_child s ts))
          (add_child s ts @ closed_tok kt p (Suc (?q + length body)) k # us))"
    by (rule loop_close [OF d3 c us kt])
  also have "last_open (add_child s ts) = last_open ts" using s by (cases s) (auto simp: add_child_def [of None] add_child_sized)
  finally show ?thesis by (simp add: algebra_simps eval_nat_numeral)
qed

lemma length_render_box: "length (render (JArr w vs)) = length w + length (renders vs) + 2"
  "length (render (JObj w ms)) = length w + length (rmems ms) + 2"
  by simp_all

lemma runs:
  "value_run n js p v" "values_run n js p vs" "members_run n js p ms"
proof (induction p v and p vs and p ms rule: toks_tokss_mtoks.induct)
  case (1 p s)
  show ?case using loop_prim [of p js s] by (auto simp: value_run_def)
next
  case (2 p s)
  show ?case using loop_text [of p js s] by (auto simp: value_run_def)
next
  case (3 p a v b)
  show ?case
    unfolding value_run_def
  proof (intro allI impI)
    fix r cnt s ts
    assume d: "drop p js = render (JPad a v b) @ r" and ok: "json_ok (JPad a v b)" and r: "r = [] \<or> prim_stop (hd r)"
      and n: "length ts + length (toks p (JPad a v b)) \<le> n" and s: "super_ok s ts"
    have d1: "drop p js = a @ render v @ b @ r" using d by simp
    note d2 = drop_plus [OF d1] and w = white_stop [of b r]
    have "jsmn_loop n js cnt (st p s ts) = jsmn_loop n js cnt (st (p + length a) s ts)" using ok by (intro loop_white [OF d1]) simp
    also have "\<dots> = jsmn_loop n js (cnt + length (toks (p + length a) v)) (st (p + length a + length (render v))
        (if boxed v then last_open ts else s) (add_child s ts @ toks (p + length a) v))"
      using 3 [unfolded value_run_def, rule_format, OF d2, of ts s cnt] ok r n s w by simp
    also have "\<dots> = jsmn_loop n js (cnt + length (toks (p + length a) v)) (st (p + length a + length (render v) + length b)
        (if boxed v then last_open ts else s) (add_child s ts @ toks (p + length a) v))"
      using ok by (intro loop_white [OF drop_plus [OF d2]]) simp
    finally show "jsmn_loop n js cnt (st p s ts) = jsmn_loop n js (cnt + length (toks p (JPad a v b)))
        (st (p + length (render (JPad a v b))) (if boxed (JPad a v b) then last_open ts else s) (add_child s ts @ toks p (JPad a v b)))"
      by (simp add: add.assoc)
  qed
next
  case (4 p w vs)
  show ?case
    unfolding value_run_def
  proof (intro allI impI)
    fix r cnt s ts
    assume d: "drop p js = render (JArr w vs) @ r" and ok: "json_ok (JArr w vs)"
      and n: "length ts + length (toks p (JArr w vs)) \<le> n" and s: "super_ok s ts"
    have "jsmn_loop n js cnt (st p s ts) = jsmn_loop n js (cnt + 1 + length (tokss (Suc p + length w) vs))
       (st (p + length w + length (renders vs) + 2) (last_open ts)
         (add_child s ts @ closed_tok JSMN_ARRAY p (p + length w + length (renders vs) + 2) (length vs) # tokss (Suc p + length w) vs))"
    proof (rule box_run [where oc = 91 and c = 93 and r = r])
      fix cnt ts1
      assume b: "drop (Suc p + length w) js = renders vs @ 93 # r" and t: "ts1 = add_child s ts @ [open_token 91 p 0]"
      then show "\<exists>s'. jsmn_loop n js cnt (st (Suc p + length w) (Some (length ts)) ts1)
          = jsmn_loop n js (cnt + length (tokss (Suc p + length w) vs)) (st (Suc p + length w + length (renders vs)) s'
              (sized (length ts) (length vs) ts1 @ tokss (Suc p + length w) vs))"
        using 4 [unfolded values_run_def, rule_format, OF b, of ts1 "length ts" cnt] ok n
        by (auto simp: nth_append last_open_snoc)
    qed (use d ok n s toks_closed in auto)
    then show "jsmn_loop n js cnt (st p s ts) = jsmn_loop n js (cnt + length (toks p (JArr w vs)))
        (st (p + length (render (JArr w vs))) (if boxed (JArr w vs) then last_open ts else s) (add_child s ts @ toks p (JArr w vs)))"
      by (simp only: toks.simps length_render_box boxed.simps if_True) (simp add: algebra_simps)
  qed
next
  case (5 p w ms)
  show ?case
    unfolding value_run_def
  proof (intro allI impI)
    fix r cnt s ts
    assume d: "drop p js = render (JObj w ms) @ r" and ok: "json_ok (JObj w ms)"
      and n: "length ts + length (toks p (JObj w ms)) \<le> n" and s: "super_ok s ts"
    have "jsmn_loop n js cnt (st p s ts) = jsmn_loop n js (cnt + 1 + length (mtoks (Suc p + length w) ms))
       (st (p + length w + length (rmems ms) + 2) (last_open ts)
         (add_child s ts @ closed_tok JSMN_OBJECT p (p + length w + length (rmems ms) + 2) (length ms) # mtoks (Suc p + length w) ms))"
    proof (rule box_run [where oc = 123 and c = 125 and r = r])
      fix cnt ts1
      assume b: "drop (Suc p + length w) js = rmems ms @ 125 # r" and t: "ts1 = add_child s ts @ [open_token 123 p 0]"
      then show "\<exists>s'. jsmn_loop n js cnt (st (Suc p + length w) (Some (length ts)) ts1)
          = jsmn_loop n js (cnt + length (mtoks (Suc p + length w) ms)) (st (Suc p + length w + length (rmems ms)) s'
              (sized (length ts) (length ms) ts1 @ mtoks (Suc p + length w) ms))"
        using 5 [unfolded members_run_def, rule_format, OF b, of ts1 "length ts" cnt] ok n
        by (auto simp: nth_append last_open_snoc)
    qed (use d ok n s toks_closed in auto)
    then show "jsmn_loop n js cnt (st p s ts) = jsmn_loop n js (cnt + length (toks p (JObj w ms)))
        (st (p + length (render (JObj w ms))) (if boxed (JObj w ms) then last_open ts else s) (add_child s ts @ toks p (JObj w ms)))"
      by (simp only: toks.simps length_render_box boxed.simps if_True) (simp add: algebra_simps)
  qed
next
  case (6 p)
  show ?case by (simp add: values_run_def)
next
  case (7 p v vs)
  then show ?case by (rule values_step)
next
  case (8 p)
  show ?case by (auto simp: members_run_def)
next
  case (9 p a k b v ms)
  then show ?case by (rule members_step)
qed

lemma jsmn_parse_ok:
  assumes "json_ok v" and "length (toks 0 v) \<le> n"
  shows "\<exists>ps. jsmn_parse n (render v) jsmn_init = (Inr (length (toks 0 v)), ps) \<and> tokens ps = toks 0 v"
proof -
  have vr: "value_run n (render v) 0 v" by (rule runs(1))
  have "jsmn_loop n (render v) 0 (st 0 None []) = jsmn_loop n (render v) (length (toks 0 v))
      (st (length (render v)) None (toks 0 v))"
    using vr [unfolded value_run_def, rule_format, of "[]" "[]" None 0] assms
    by (simp add: last_open_def add_child_def split: if_splits)
  also have "\<dots> = (Inr (length (toks 0 v)), st (length (render v)) None (toks 0 v))"
    by (subst jsmn_loop.simps) simp
  finally have "jsmn_loop n (render v) 0 jsmn_init = \<dots>" by (simp add: jsmn_init_def)
  moreover have "last_tok is_open (toks 0 v) (length (toks 0 v)) = None"
    using toks_closed(1) [of 0 v] by (auto simp: last_tok_None list_all_length)
  ultimately show ?thesis by (simp add: jsmn_parse_def jsmn_init_def)
qed

subsection \<open>Searching the tokens\<close>

definition tok_at :: "(nat \<Rightarrow> jsmntok_t) \<Rightarrow> jsmntok_t list \<Rightarrow> nat \<Rightarrow> jsmntok_t" where
  \<comment> \<open>the entry of the array; \<open>g\<close> is what it holds behind the tokens\<close>
  "tok_at g ts i = (if i < length ts then ts ! i else g i)"

definition tok_text :: "byte list \<Rightarrow> jsmntok_t \<Rightarrow> byte list" where
  "tok_text js t = take (nat (tk_end t - tk_start t)) (drop (nat (tk_start t)) js)"

definition tok_is :: "byte list \<Rightarrow> byte list \<Rightarrow> jsmntok_t \<Rightarrow> bool" where
  "tok_is js key t \<longleftrightarrow> tk_type t = JSMN_STRING \<and> tk_end t - tk_start t = int (length key)
     \<and> take (length key) (drop (nat (tk_start t)) js) = key"

fun skip_left :: "jsmntok_t list \<Rightarrow> nat \<Rightarrow> nat" where
  \<comment> \<open>what is left of \<open>skip\<close> after the inner loop of \<open>json_find_key\<close>\<close>
  "skip_left [] k = k"
| "skip_left (t # ts) k = (if k = 0 then 0 else skip_left ts (k + (if is_container t then tk_size t else 0) - 1))"

function json_find_key :: "byte list \<Rightarrow> jsmntok_t list \<Rightarrow> nat \<Rightarrow> byte list \<Rightarrow> nat option" where
  "json_find_key js ts i key =
     (if length ts \<le> i then None
      else if tok_is js key (ts ! i) then Some (i + 1)
      else json_find_key js ts (Suc (i + (if is_container (ts ! i) then skip_left (drop (Suc i) ts) (tk_size (ts ! i)) else 0))) key)"
  by pat_completeness auto
termination by (relation "measure (\<lambda>(js, ts, i, key). length ts - i)") auto

declare json_find_key.simps [simp del]

function container_children :: "jsmntok_t list \<Rightarrow> nat \<Rightarrow> nat \<Rightarrow> nat" where
  \<comment> \<open>the loop of \<open>jsmn_container_end\<close>: \<open>idx + width\<close> and the turns left\<close>
  "container_children ts pos k =
     (if k = 0 \<or> length ts \<le> pos then pos
      else container_children ts
        (if is_container (ts ! pos) then container_children ts (Suc pos) (tk_size (ts ! pos)) else Suc pos) (k - 1))"
  by pat_completeness auto

termination
proof (relation "inv_image (less_than <*lex*> less_than) (\<lambda>(ts, pos, k). (length ts - pos, k))", goal_cases)
  case 1
  show ?case by (intro wf_inv_image wf_lex_prod wf_less_than)
next
  case (2 ts pos k)
  then show ?case by auto
next
  case (3 ts pos k)
  have ge: "container_children_dom (ts, pos, k) \<Longrightarrow> pos \<le> container_children ts pos k" for ts pos k
  proof (induction ts pos k rule: container_children.pinduct)
    case (1 ts pos k)
    show ?case
    proof (cases "k = 0 \<or> length ts \<le> pos")
      case True
      then show ?thesis by (simp add: container_children.psimps [OF 1(1)])
    next
      case False
      note a = "1.IH"(1) [OF False] and b = "1.IH"(2) [OF False]
      show ?thesis
      proof (cases "is_container (ts ! pos)")
        case True
        with a b False show ?thesis by (simp add: container_children.psimps [OF 1(1)])
      next
        case F: False
        with b False show ?thesis by (simp add: container_children.psimps [OF 1(1)])
      qed
    qed
  qed
  define z where "z = (if is_container (ts ! pos) then container_children ts (Suc pos) (tk_size (ts ! pos)) else Suc pos)"
  have "pos \<le> z" using ge [of ts "Suc pos" "tk_size (ts ! pos)"] 3 by (auto simp: z_def)
  then have "length ts - z < length ts - pos \<or> length ts - z = length ts - pos" by linarith
  moreover have "k - 1 < k" using 3 by simp
  ultimately show ?case unfolding z_def [symmetric] by simp
qed

declare container_children.simps [simp del]

lemma container_children_le: "pos \<le> container_children ts pos k"
proof (induction ts pos k rule: container_children.induct)
  case (1 ts pos k)
  then show ?case by (subst container_children.simps) (fastforce split: if_splits)
qed

definition jsmn_container_end :: "jsmntok_t list \<Rightarrow> nat \<Rightarrow> nat" where
  "jsmn_container_end ts idx =
     (if length ts \<le> idx then idx
      else if \<not> is_container (ts ! idx) then idx + 1
      else container_children ts (idx + 1) (tk_size (ts ! idx)))"

lemma jsmn_container_end_gt: "idx < length ts \<Longrightarrow> idx < jsmn_container_end ts idx"
  using container_children_le [of "Suc idx" ts "tk_size (ts ! idx)"] by (simp add: jsmn_container_end_def)

lemma jsmn_container_end_rec:
  "container_children ts pos k =
     (if k = 0 \<or> length ts \<le> pos then pos else container_children ts (jsmn_container_end ts pos) (k - 1))"
  by (subst container_children.simps) (simp add: jsmn_container_end_def)

function key_loop :: "byte list \<Rightarrow> jsmntok_t list \<Rightarrow> nat \<Rightarrow> byte list \<Rightarrow> nat \<Rightarrow> nat option" where
  "key_loop js ts e key i =
     (if e \<le> i \<or> length ts \<le> i then None
      else if tok_is js key (ts ! i) then Some (i + 1)
      else key_loop js ts e key
        (if i + 1 < e \<and> i + 1 < length ts
         then (if is_container (ts ! (i + 1)) then jsmn_container_end ts (i + 1) else i + 2)
         else i + 1))"
  by pat_completeness auto
termination
proof (relation "measure (\<lambda>(js, ts, e, key, i). length ts - i)", goal_cases)
  case (2 js ts e key i)
  then show ?case using jsmn_container_end_gt [of "i + 1" ts] by (auto intro!: diff_less_mono2)
qed simp

declare key_loop.simps [simp del]

definition json_find_key_in_object :: "byte list \<Rightarrow> jsmntok_t list \<Rightarrow> nat \<Rightarrow> byte list \<Rightarrow> nat option" where
  "json_find_key_in_object js ts idx key =
     (if length ts \<le> idx \<or> tk_type (ts ! idx) \<noteq> JSMN_OBJECT then None
      else key_loop js ts (jsmn_container_end ts idx) key (idx + 1))"

definition json_get_string :: "byte list \<Rightarrow> jsmntok_t \<Rightarrow> nat \<Rightarrow> byte list" where
  "json_get_string js t out_size = take (out_size - 1) (tok_text js t)"

definition strtoul :: "byte list \<Rightarrow> u32" where
  "strtoul s = (case scan_dec s of (neg, n, used) \<Rightarrow> if 2 ^ 32 \<le> n then - 1 else if neg then - of_nat n else of_nat n)"

definition json_get_int :: "byte list \<Rightarrow> jsmntok_t \<Rightarrow> u32" where
  "json_get_int js t = strtoul (take 23 (tok_text js t))"

subsection \<open>What the searches find in a JSON text\<close>

fun flat :: "jsmntok_t list \<Rightarrow> bool" where
  \<comment> \<open>no container makes \<open>json_find_key\<close> skip anything\<close>
  "flat [] = True"
| "flat (t # ts) \<longleftrightarrow> (is_container t \<longrightarrow> skip_left ts (tk_size t) = 0) \<and> flat ts"

lemma skip_left_0 [simp]: "skip_left ts 0 = 0"
  by (cases ts) auto

lemma is_container_closed [simp]: "is_container (closed_tok t p q k) \<longleftrightarrow> t = JSMN_OBJECT \<or> t = JSMN_ARRAY"
  by (simp add: is_container_def)

lemma skip_left_toks:
  "\<exists>k\<le>j - 1. skip_left (toks p v @ u) j = skip_left u k"
  "\<exists>k\<le>j - length vs. skip_left (tokss p vs @ u) j = skip_left u k"
  "\<exists>k\<le>j - length ms. skip_left (mtoks p ms @ u) j = skip_left u k"
proof (induction p v and p vs and p ms arbitrary: j u and j u and j u rule: toks_tokss_mtoks.induct)
  case (1 p s)
  then show ?case by (cases "j = 0") auto
next
  case (2 p s)
  then show ?case by (cases "j = 0") auto
next
  case (3 p a v b)
  then show ?case by simp
next
  case (4 p w vs)
  show ?case
  proof (cases "j = 0")
    case False
    then show ?thesis using 4 [of "j + length vs - 1" u] by simp
  qed auto
next
  case (5 p w ms)
  show ?case
  proof (cases "j = 0")
    case False
    then show ?thesis using 5 [of "j + length ms - 1" u] by simp
  qed auto
next
  case (6 p)
  show ?case by auto
next
  case (7 p v vs)
  obtain k1 where "k1 \<le> j - 1" and 1: "skip_left (toks p v @ tokss (p + length (render v) + 1) vs @ u) j = skip_left (tokss (p + length (render v) + 1) vs @ u) k1"
    using 7(1) by blast
  moreover obtain k2 where "k2 \<le> k1 - length vs" and 2: "skip_left (tokss (p + length (render v) + 1) vs @ u) k1 = skip_left u k2"
    using 7(2) by blast
  ultimately show ?case by (intro exI [of _ k2]) auto
next
  case (8 p)
  show ?case by auto
next
  case (9 p a k b v ms)
  let ?q = "p + length a + length k + length b + 3" and ?r = "p + length a + length k + length b + 4 + length (render v)"
  show ?case
  proof (cases "j = 0")
    case False
    obtain k1 where "k1 \<le> (j - 1) - 1" and 1: "skip_left (toks ?q v @ mtoks ?r ms @ u) (j - 1) = skip_left (mtoks ?r ms @ u) k1"
      using 9(1) by blast
    moreover obtain k2 where "k2 \<le> k1 - length ms" and 2: "skip_left (mtoks ?r ms @ u) k1 = skip_left u k2"
      using 9(2) by blast
    ultimately show ?thesis using False by (intro exI [of _ k2]) auto
  qed auto
qed

lemma flat_toks:
  "flat u \<Longrightarrow> flat (toks p v @ u)" "flat u \<Longrightarrow> flat (tokss p vs @ u)" "flat u \<Longrightarrow> flat (mtoks p ms @ u)"
proof (induction p v and p vs and p ms arbitrary: u and u and u rule: toks_tokss_mtoks.induct)
  case (4 p w vs)
  then show ?case using skip_left_toks(2) [of "length vs" vs "Suc p + length w" u] by auto
next
  case (5 p w ms)
  then show ?case using skip_left_toks(3) [of "length ms" ms "Suc p + length w" u] by auto
qed auto

lemma flat_nth: "flat ts \<Longrightarrow> i < length ts \<Longrightarrow> is_container (ts ! i) \<Longrightarrow> skip_left (drop (Suc i) ts) (tk_size (ts ! i)) = 0"
  by (induction ts arbitrary: i) (auto simp: nth_Cons split: nat.splits)

definition first_key :: "byte list \<Rightarrow> jsmntok_t list \<Rightarrow> nat \<Rightarrow> byte list \<Rightarrow> nat option" where
  \<comment> \<open>behind the first string that equals \<open>key\<close>, whatever its place in the tree\<close>
  "first_key js ts i key = map_option Suc (find (\<lambda>j. tok_is js key (ts ! j)) [i..<length ts])"

lemma find_key_linear: "flat ts \<Longrightarrow> json_find_key js ts i key = first_key js ts i key"
proof (induction "length ts - i" arbitrary: i)
  case 0
  then show ?case by (subst json_find_key.simps) (simp add: first_key_def)
next
  case (Suc n)
  then have i: "i < length ts" by simp
  with Suc have "json_find_key js ts (Suc i) key = first_key js ts (Suc i) key" by simp
  moreover have "first_key js ts i key = (if tok_is js key (ts ! i) then Some (i + 1) else first_key js ts (Suc i) key)"
    using i by (simp add: first_key_def upt_conv_Cons)
  ultimately show ?case
    using i flat_nth [OF Suc.prems i] by (subst json_find_key.simps) auto
qed

definition tok_view :: "byte list \<Rightarrow> jsmntok_t \<Rightarrow> jsmntype_t \<times> nat \<times> byte list" where
  "tok_view js t = (tk_type t, tk_size t, tok_text js t)"

fun view :: "json \<Rightarrow> (jsmntype_t \<times> nat \<times> byte list) list" and views :: "json list \<Rightarrow> (jsmntype_t \<times> nat \<times> byte list) list"
  and mviews :: "(byte list \<times> byte list \<times> byte list \<times> json) list \<Rightarrow> (jsmntype_t \<times> nat \<times> byte list) list" where
  "view (JPrim s) = [(JSMN_PRIMITIVE, 0, s)]"
| "view (JText s) = [(JSMN_STRING, 0, s)]"
| "view (JPad a v b) = view v"
| "view (JArr w vs) = (JSMN_ARRAY, length vs, render (JArr w vs)) # views vs"
| "view (JObj w ms) = (JSMN_OBJECT, length ms, render (JObj w ms)) # mviews ms"
| "views [] = []"
| "views (v # vs) = view v @ views vs"
| "mviews [] = []"
| "mviews ((a, k, b, v) # ms) = (JSMN_STRING, 1, k) # view v @ mviews ms"

lemma tok_view_closed: "drop p js = s @ r \<Longrightarrow> q = p + length s \<Longrightarrow> tok_view js (closed_tok t p q n) = (t, n, s)"
  by (simp add: tok_view_def tok_text_def)

lemma toks_view:
  "drop p js = render v @ r \<Longrightarrow> map (tok_view js) (toks p v) = view v"
  "drop p js = renders vs @ r \<Longrightarrow> map (tok_view js) (tokss p vs) = views vs"
  "drop p js = rmems ms @ r \<Longrightarrow> map (tok_view js) (mtoks p ms) = mviews ms"
proof (induction p v and p vs and p ms arbitrary: r and r and r rule: toks_tokss_mtoks.induct)
  case (1 p s)
  then show ?case by (simp add: tok_view_closed)
next
  case (2 p s)
  then have "drop (Suc p) js = s @ 34 # r" using at_pos [of p js 34 "s @ 34 # r"] by simp
  then show ?case by (simp add: tok_view_closed)
next
  case (3 p a v b)
  then show ?case using drop_plus [of p js a "render v @ b @ r"] by simp
next
  case (4 p w vs)
  then have "drop (Suc p) js = w @ renders vs @ 93 # r" using at_pos [of p js 91] by simp
  from drop_plus [OF this] 4(1) have "map (tok_view js) (tokss (Suc p + length w) vs) = views vs" by simp
  moreover have "tok_view js (closed_tok JSMN_ARRAY p (p + length (render (JArr w vs))) (length vs)) = (JSMN_ARRAY, length vs, render (JArr w vs))"
    by (rule tok_view_closed [OF 4(2) refl])
  ultimately show ?case by (simp only: toks.simps view.simps list.map)
next
  case (5 p w ms)
  then have "drop (Suc p) js = w @ rmems ms @ 125 # r" using at_pos [of p js 123] by simp
  from drop_plus [OF this] 5(1) have "map (tok_view js) (mtoks (Suc p + length w) ms) = mviews ms" by simp
  moreover have "tok_view js (closed_tok JSMN_OBJECT p (p + length (render (JObj w ms))) (length ms)) = (JSMN_OBJECT, length ms, render (JObj w ms))"
    by (rule tok_view_closed [OF 5(2) refl])
  ultimately show ?case by (simp only: toks.simps view.simps list.map)
next
  case (6 p)
  show ?case by simp
next
  case (7 p v vs)
  have "drop p js = render v @ (if vs = [] then [] else 44 # renders vs) @ r" using 7(3) by simp
  note d = this drop_plus [OF this]
  show ?case
  proof (cases "vs = []")
    case True
    with 7(1) [OF d(1)] show ?thesis by simp
  next
    case False
    with d(2) at_pos [of "p + length (render v)" js 44 "renders vs @ r"] 7(2) 7(1) [OF d(1)] show ?thesis by simp
  qed
next
  case (8 p)
  show ?case by simp
next
  case (9 p a k b v ms)
  let ?r = "(if ms = [] then [] else 44 # rmems ms) @ r"
  have "drop p js = (a @ [34]) @ k @ 34 # b @ 58 # render v @ ?r" using 9(3) by simp
  from drop_plus [OF this] have d1: "drop (p + length a + 1) js = k @ 34 # b @ 58 # render v @ ?r" by simp
  have "drop p js = (a @ 34 # k @ 34 # b @ [58]) @ render v @ ?r" using 9(3) by simp
  from drop_plus [OF this] have d2: "drop (p + length a + length k + length b + 3) js = render v @ ?r"
    by (simp add: eval_nat_numeral algebra_simps)
  have k: "tok_view js (closed_tok JSMN_STRING (p + length a + 1) (p + length a + 1 + length k) 1) = (JSMN_STRING, 1, k)"
    by (rule tok_view_closed [OF d1 refl])
  have m: "map (tok_view js) (mtoks (p + length a + length k + length b + 4 + length (render v)) ms) = mviews ms"
  proof (cases "ms = []")
    case False
    with drop_plus [OF d2] at_pos [of "p + length a + length k + length b + 3 + length (render v)" js 44 "rmems ms @ r"]
    have "drop (p + length a + length k + length b + 4 + length (render v)) js = rmems ms @ r"
      by (simp add: eval_nat_numeral algebra_simps)
    then show ?thesis by (rule 9(2))
  qed simp
  show ?case using k m 9(1) [OF d2] by (simp only: mtoks.simps mviews.simps list.map map_append)
qed

text \<open>C24: A JSON text with at most \<open>n\<close> tokens, with white space anywhere, is accepted, and the
  tokens are those of the specification \<open>view\<close>: every value in the order of the text with its
  type, its own text, and the number of its elements (arrays), keys (objects) or values (keys).\<close>

theorem jsmn_parse_complete:
  assumes "json_ok v" and "length (view v) \<le> n"
  shows "\<exists>ps. jsmn_parse n (render v) jsmn_init = (Inr (length (view v)), ps)
    \<and> map (tok_view (render v)) (tokens ps) = view v"
proof -
  have m: "map (tok_view (render v)) (toks 0 v) = view v" using toks_view(1) [of 0 "render v" v "[]"] by simp
  then have "length (toks 0 v) = length (view v)" by (metis length_map)
  with m jsmn_parse_ok [OF assms(1), of n] assms(2) show ?thesis by fastforce
qed

definition small_json :: json where
  \<comment> \<open>\<open>{"a": [1, true], "b" :{}}\<close>\<close>
  "small_json = JObj [] [([], [97], [], JPad [32] (JArr [] [JPrim [49], JPad [32] (JPrim (str ''true'')) []]) []),
     ([32], [98], [32], JObj [] [])]"

lemma small_json_ok: "json_ok small_json" "length (view small_json) = 7"
  by (simp_all add: small_json_def white_def prim_ok_def prim_stop_def str_simps)

lemma jsmn_parse_complete_witness:
  "\<exists>ps. jsmn_parse 8 (render small_json) jsmn_init = (Inr 7, ps) \<and> map (tok_view (render small_json)) (tokens ps) = view small_json"
  using jsmn_parse_complete [of small_json 8] by (simp add: small_json_ok)

end
