(* ===== verification/SongSearch.thy ===== *)
theory SongSearch
  imports Jsmn
begin

text \<open>
  Finding a song and its lyrics on the web (\<open>lyrics_fetch.c\<close>: \<open>url_encode\<close> to
  \<open>http_request\<close>, \<open>strip_title_suffix\<close> to \<open>search_song\<close>). \<open>esp_http_client\<close> is outside the
  repository: a request is answered by an \<open>exchange\<close>, the data events it makes, with what
  \<open>realloc\<close> says in each, and how it ends. Texts are C strings.
\<close>

subsection \<open>Requests\<close>

definition url_plain :: "byte \<Rightarrow> bool" where
  "url_plain c \<longleftrightarrow> (65 \<le> c \<and> c \<le> 90) \<or> (97 \<le> c \<and> c \<le> 122) \<or> (48 \<le> c \<and> c \<le> 57) \<or> c = 45 \<or> c = 95 \<or> c = 46 \<or> c = 126"

definition url_char :: "byte \<Rightarrow> byte list" where
  "url_char c = (if url_plain c then [c] else if c = 32 then [43] else 37 # hex2 hex_up c)"

fun url_encode_loop :: "nat \<Rightarrow> byte list \<Rightarrow> byte list \<Rightarrow> byte list" where
  "url_encode_loop dst_size [] dst = dst"
| "url_encode_loop dst_size (c # cs) dst =
     (if int (length dst) < int dst_size - 3 then url_encode_loop dst_size cs (dst @ url_char c) else dst)"

definition url_encode :: "byte list \<Rightarrow> nat \<Rightarrow> byte list" where
  "url_encode src dst_size = url_encode_loop dst_size src []"

record resp_ctx_t =
  rc_buf :: "byte list"
  rc_cap :: int

function grown :: "int \<Rightarrow> int \<Rightarrow> int" where
  \<comment> \<open>\<open>while (new_cap < need) new_cap *= 2\<close>, from a positive capacity\<close>
  "grown need c = (if 0 < c \<and> c < need then grown need (2 * c) else c)"
  by pat_completeness auto
termination by (relation "measure (\<lambda>(need, c). nat (need - c))") auto

declare grown.simps [simp del]

definition http_event_handler :: "bool \<Rightarrow> byte list \<Rightarrow> resp_ctx_t \<Rightarrow> resp_ctx_t" where
  \<comment> \<open>\<open>HTTP_EVENT_ON_DATA\<close>; the other events do nothing. \<open>len\<close> is the length of \<open>rc_buf\<close>.\<close>
  "http_event_handler realloc_ok d c =
     (let need = int (length (rc_buf c)) + int (length d) + 1 in
      if rc_cap c < need then
        (if realloc_ok then c \<lparr> rc_buf := rc_buf c @ d, rc_cap := grown need (rc_cap c) \<rparr> else c)
      else c \<lparr> rc_buf := rc_buf c @ d \<rparr>)"

record exchange =
  malloc_ok :: bool
  client_ok :: bool
  chunks :: "(bool \<times> byte list) list"
  perform_ok :: bool
  status :: int

definition http_body :: "nat \<Rightarrow> exchange \<Rightarrow> resp_ctx_t" where
  "http_body buf_size x = foldl (\<lambda>c (ok, d). http_event_handler ok d c) \<lparr> rc_buf = [], rc_cap = int buf_size \<rparr> (chunks x)"

definition http_request_ex :: "nat \<Rightarrow> exchange \<Rightarrow> byte list option" where
  \<comment> \<open>the response as the C string that the callers see\<close>
  "http_request_ex buf_size x =
     (if \<not> malloc_ok x \<or> \<not> client_ok x \<or> \<not> perform_ok x \<or> status x \<noteq> 200 then None
      else let c = http_body buf_size x in if rc_buf c = [] then None else Some (cstr (rc_buf c)))"

subsection \<open>Titles\<close>

fun drop_blanks :: "byte list \<Rightarrow> byte list" where
  \<comment> \<open>on the reversed text\<close>
  "drop_blanks [] = []"
| "drop_blanks (c # cs) = (if c = 32 then drop_blanks cs else c # cs)"

definition strip_title_suffix :: "byte list \<Rightarrow> nat \<Rightarrow> byte list" where
  \<comment> \<open>the comparison with the full-width parenthesis, a constant above 255, is never true\<close>
  "strip_title_suffix s out_size = rev (drop_blanks (rev (takeWhile (\<lambda>c. c \<noteq> 40) (take (out_size - 1) s))))"

definition ascii_lower :: "byte list \<Rightarrow> nat \<Rightarrow> byte list" where
  "ascii_lower s out_size = map to_lower (take (out_size - 1) s)"

definition clean_title :: "byte list \<Rightarrow> byte list" where
  "clean_title title = (let c = strip_title_suffix title 128 in if c = [] then take 127 title else c)"

definition search_keyword :: "byte list \<Rightarrow> byte list \<Rightarrow> byte list" where
  "search_keyword title artist = take 127 (clean_title title @ 32 # artist)"

subsection \<open>The best candidate\<close>

definition song_score :: "byte list \<Rightarrow> byte list \<Rightarrow> int" where
  "song_score name title =
     (let cand = ascii_lower name 64; target = ascii_lower title 64 in
      if cand = [] \<or> target = [] then 0
      else if cand = target then 100
      else if take (length target) cand = target then 60 + int (length target * 40 div length cand)
      else if find_sub target cand \<noteq> None then 40 else 0)"

definition song_key :: "byte list \<Rightarrow> jsmntok_t list \<Rightarrow> nat \<Rightarrow> u32 \<times> byte list \<Rightarrow> u32 \<times> byte list" where
  \<comment> \<open>one turn of the scan of a song, at a key\<close>
  "song_key js ts scan r =
     (let v = ts ! (scan + 1); more = scan + 1 < length ts;
          id1 = (if tok_is js (str ''id'') (ts ! scan) \<and> more then
                   (if tk_type v = JSMN_PRIMITIVE then json_get_int js v
                    else if tk_type v = JSMN_STRING then strtoul (json_get_string js v 32) else fst r)
                 else fst r);
          name1 = (if tok_is js (str ''name'') (ts ! scan) \<and> more \<and> tk_type v = JSMN_STRING
                   then json_get_string js v 64 else snd r)
      in (id1, name1))"

function past :: "jsmntok_t list \<Rightarrow> nat \<Rightarrow> int \<Rightarrow> nat \<Rightarrow> nat" where
  \<comment> \<open>the loops that skip the tokens before a character position\<close>
  "past ts e q i = (if i < e \<and> i < length ts \<and> tk_start (ts ! i) < q then past ts e q (i + 1) else i)"
  by pat_completeness auto
termination by (relation "measure (\<lambda>(ts, e, q, i). length ts - i)") auto

declare past.simps [simp del]

lemma past_ge: "i \<le> past ts e q i"
  by (induction ts e q i rule: past.induct) (subst past.simps, auto)

function scan_song :: "byte list \<Rightarrow> (nat \<Rightarrow> jsmntok_t) \<Rightarrow> jsmntok_t list \<Rightarrow> nat \<Rightarrow> nat \<Rightarrow> u32 \<times> byte list \<Rightarrow> u32 \<times> byte list" where
  "scan_song js g ts e scan r =
     (if e \<le> scan \<or> length ts \<le> scan then r
      else scan_song js g ts e (past ts e (tk_end (tok_at g ts (scan + 1))) (scan + 2)) (song_key js ts scan r))"
  by pat_completeness auto
termination
proof (relation "measure (\<lambda>(js, g, ts, e, scan, r). length ts - scan)", goal_cases)
  case (2 js g ts e scan r)
  then show ?case using past_ge [of "scan + 2" ts e "tk_end (tok_at g ts (scan + 1))"] by auto
qed simp

declare scan_song.simps [simp del]

definition better :: "byte list \<Rightarrow> u32 \<times> byte list \<Rightarrow> u32 \<times> int \<Rightarrow> u32 \<times> int" where
  "better title song best =
     (if fst song = 0 then best
      else let score = song_score (snd song) title in
           if fst best = 0 \<or> snd best < score then (fst song, score) else best)"

fun song_loop :: "byte list \<Rightarrow> (nat \<Rightarrow> jsmntok_t) \<Rightarrow> jsmntok_t list \<Rightarrow> byte list \<Rightarrow> nat \<Rightarrow> nat \<Rightarrow> u32 \<times> int \<Rightarrow> u32 \<times> int" where
  \<comment> \<open>the first argument after the title is the number of turns left\<close>
  "song_loop js g ts title 0 pos best = best"
| "song_loop js g ts title (Suc k) pos best =
     (if length ts \<le> pos then best
      else if tk_type (ts ! pos) \<noteq> JSMN_OBJECT then song_loop js g ts title k (pos + 1) best
      else let e = past ts (length ts) (tk_end (ts ! pos)) (pos + 1)
           in song_loop js g ts title k e (better title (scan_song js g ts e (pos + 1) (0, [])) best))"

definition search_parse_best :: "bool \<Rightarrow> (nat \<Rightarrow> jsmntok_t) \<Rightarrow> byte list \<Rightarrow> byte list \<Rightarrow> u32" where
  "search_parse_best alloc_ok g resp title =
     (if \<not> alloc_ok then 0
      else case jsmn_parse 4096 resp jsmn_init of
             (Inl e, ps) \<Rightarrow> 0
           | (Inr num, ps) \<Rightarrow>
               (let ts = tokens ps in
                case json_find_key resp ts 0 (str ''result'') of
                  None \<Rightarrow> 0
                | Some ri \<Rightarrow>
                    if tk_type (tok_at g ts ri) \<noteq> JSMN_OBJECT then 0
                    else case json_find_key_in_object resp ts ri (str ''songs'') of
                           None \<Rightarrow> 0
                         | Some si \<Rightarrow>
                             if tk_type (tok_at g ts si) \<noteq> JSMN_ARRAY \<or> tk_size (tok_at g ts si) < 1 then 0
                             else let pos = (if si + 1 < length ts \<and> tk_type (ts ! (si + 1)) = JSMN_ARRAY then si + 2 else si + 1)
                                  in fst (song_loop resp g ts title (tk_size (tok_at g ts si)) pos (0, -1))))"

subsection \<open>The best candidate, on JSON values\<close>

fun core :: "json \<Rightarrow> json" where
  "core (JPad a v b) = core v"
| "core v = v"

fun lead :: "json \<Rightarrow> nat" where
  "lead (JPad a v b) = length a + lead v"
| "lead v = 0"

lemma toks_core: "toks p v = toks (p + lead v) (core v)"
  by (induction v arbitrary: p) (simp_all add: add.assoc)

lemma drop_core: "drop p js = render v @ r \<Longrightarrow> \<exists>r'. drop (p + lead v) js = render (core v) @ r'"
proof (induction v arbitrary: p r)
  case (JPad a v b)
  then have "drop (p + length a) js = render v @ b @ r" using drop_plus [of p js a] by simp
  from JPad.IH [OF this] show ?case by (simp add: add.assoc)
qed auto

lemma core_ok: "json_ok v \<Longrightarrow> json_ok (core v)"
  by (induction v) auto

lemma core_core [simp]: "core (core v) = core v"
  by (induction v) auto

lemma core_not_pad [simp]: "core v \<noteq> JPad a u b"
  by (induction v) auto

lemma length_core: "lead v + length (render (core v)) \<le> length (render v)"
  by (induction v) auto

lemma toks_bounds:
  "json_ok v \<Longrightarrow> list_all (\<lambda>t. int p \<le> tk_start t \<and> tk_start t < int (p + length (render v))) (toks p v)"
  "jsons_ok vs \<Longrightarrow> list_all (\<lambda>t. int p \<le> tk_start t \<and> tk_start t < int (p + length (renders vs))) (tokss p vs)"
  "mems_ok ms \<Longrightarrow> list_all (\<lambda>t. int p \<le> tk_start t \<and> tk_start t < int (p + length (rmems ms))) (mtoks p ms)"
proof (induction p v and p vs and p ms rule: toks_tokss_mtoks.induct)
  case (1 p s)
  then show ?case by (auto simp: prim_ok_def)
next
  case (7 p v vs)
  then show ?case by (auto elim!: list.pred_mono_strong)
next
  case (9 p a k b v ms)
  then show ?case by (auto elim!: list.pred_mono_strong)
qed (auto elim!: list.pred_mono_strong)

lemma toks_ne [simp]: "toks p v \<noteq> []"
  by (induction v arbitrary: p) auto

lemma past_eq:
  assumes "i \<le> m" and "\<And>j. i \<le> j \<Longrightarrow> j < m \<Longrightarrow> j < e \<and> j < length ts \<and> tk_start (ts ! j) < q"
    and "e \<le> m \<or> length ts \<le> m \<or> q \<le> tk_start (ts ! m)"
  shows "past ts e q i = m"
  using assms
proof (induction ts e q i rule: past.induct)
  case (1 ts e q i)
  show ?case
  proof (cases "i = m")
    case True
    then show ?thesis using "1.prems"(3) by (subst past.simps) auto
  next
    case False
    then have "i < m" using "1.prems"(1) by simp
    then have "i < e \<and> i < length ts \<and> tk_start (ts ! i) < q" using "1.prems"(2) by simp
    with "1.IH" [OF this] "1.prems" \<open>i < m\<close> show ?thesis by (subst past.simps) simp
  qed
qed

lemma past_list:
  assumes ts: "ts = pre @ xs @ post" and i: "i = length pre" and e: "length pre + length xs \<le> e"
    and xs: "list_all (\<lambda>t. tk_start t < q) xs" and post: "e = length pre + length xs \<or> post = [] \<or> q \<le> tk_start (hd post)"
  shows "past ts e q i = length pre + length xs"
proof (rule past_eq)
  fix j assume "i \<le> j" "j < length pre + length xs"
  then show "j < e \<and> j < length ts \<and> tk_start (ts ! j) < q"
    using xs i e by (auto simp: ts nth_append list_all_length)
next
  show "e \<le> length pre + length xs \<or> length ts \<le> length pre + length xs \<or> q \<le> tk_start (ts ! (length pre + length xs))"
    using post by (cases post) (auto simp: ts nth_append)
qed (use i in auto)

lemma tok_is_closed:
  assumes "drop p js = s @ r"
  shows "tok_is js key (closed_tok t p (p + length s) n) \<longleftrightarrow> t = JSMN_STRING \<and> s = key"
  using assms by (auto simp: tok_is_def)

definition song_member :: "byte list \<Rightarrow> json \<Rightarrow> u32 \<times> byte list \<Rightarrow> u32 \<times> byte list" where
  "song_member k v r =
     ((if k = str ''id'' then (case core v of JPrim s \<Rightarrow> strtoul (take 23 s) | JText s \<Rightarrow> strtoul (take 31 s) | _ \<Rightarrow> fst r) else fst r),
      (if k = str ''name'' then (case core v of JText s \<Rightarrow> take 63 s | _ \<Rightarrow> snd r) else snd r))"

fun song_fields :: "(byte list \<times> byte list \<times> byte list \<times> json) list \<Rightarrow> u32 \<times> byte list \<Rightarrow> u32 \<times> byte list" where
  "song_fields [] r = r"
| "song_fields ((a, k, b, v) # ms) r = song_fields ms (song_member k v r)"

lemma value_token:
  assumes "drop p js = render v @ r" and "json_ok v"
  obtains t ts' where "toks p v = t # ts'" "list_all (\<lambda>u. tk_start u < tk_end t) ts'" "tk_end t \<le> int (p + length (render v))"
    "tk_type t = (case core v of JPrim s \<Rightarrow> JSMN_PRIMITIVE | JText s \<Rightarrow> JSMN_STRING | JArr w vs \<Rightarrow> JSMN_ARRAY | _ \<Rightarrow> JSMN_OBJECT)"
    "case core v of JPrim s \<Rightarrow> tok_text js t = s | JText s \<Rightarrow> tok_text js t = s | _ \<Rightarrow> True"
proof -
  let ?q = "p + lead v"
  obtain r' where d: "drop ?q js = render (core v) @ r'" using drop_core [OF assms(1)] by blast
  have ok: "json_ok (core v)" using core_ok [OF assms(2)] .
  have le: "?q + length (render (core v)) \<le> p + length (render v)" using length_core [of v] by simp
  have tx: "tok_text js (closed_tok ty q' (q' + length s) n) = s" if "drop q' js = s @ x" for ty q' s n x
    using tok_view_closed [OF that refl] by (simp add: tok_view_def)
  show thesis
  proof (cases "core v")
    case (JPrim s)
    with d le tx [of ?q s r'] show thesis by (intro that [of "closed_tok JSMN_PRIMITIVE ?q (?q + length s) 0" "[]"]) (auto simp: toks_core [of p v])
  next
    case (JText s)
    with d have "drop (Suc ?q) js = s @ 34 # r'" using at_pos [of ?q js 34 "s @ 34 # r'"] by simp
    with JText le tx [of "Suc ?q" s] show thesis
      by (intro that [of "closed_tok JSMN_STRING (Suc ?q) (Suc ?q + length s) 0" "[]"]) (auto simp: toks_core [of p v])
  next
    case (JPad a u b)
    then show thesis by simp
  next
    case (JArr w vs)
    with ok have "list_all (\<lambda>t. int (Suc ?q + length w) \<le> tk_start t \<and> tk_start t < int (Suc ?q + length w + length (renders vs))) (tokss (Suc ?q + length w) vs)"
      by (intro toks_bounds(2)) simp
    then have b: "list_all (\<lambda>u. tk_start u < int (?q + length (render (core v)))) (tokss (Suc ?q + length w) vs)"
      by (rule list.pred_mono_strong) (simp add: JArr)
    show thesis using le b JArr
      by (intro that [of "closed_tok JSMN_ARRAY ?q (?q + length (render (core v))) (length vs)" "tokss (Suc ?q + length w) vs"])
        (auto simp: toks_core [of p v])
  next
    case (JObj w ms)
    with ok have "list_all (\<lambda>t. int (Suc ?q + length w) \<le> tk_start t \<and> tk_start t < int (Suc ?q + length w + length (rmems ms))) (mtoks (Suc ?q + length w) ms)"
      by (intro toks_bounds(3)) simp
    then have b: "list_all (\<lambda>u. tk_start u < int (?q + length (render (core v)))) (mtoks (Suc ?q + length w) ms)"
      by (rule list.pred_mono_strong) (simp add: JObj)
    show thesis using le b JObj
      by (intro that [of "closed_tok JSMN_OBJECT ?q (?q + length (render (core v))) (length ms)" "mtoks (Suc ?q + length w) ms"])
        (auto simp: toks_core [of p v])
  qed
qed

lemma drop_tl: "drop p js = a @ b @ r \<Longrightarrow> q = p + length a \<Longrightarrow> drop q js = b @ r"
  using drop_plus [of p js a "b @ r"] by simp

lemma song_key_eq:
  assumes i: "i = length pre" and ts: "ts = pre @ closed_tok JSMN_STRING kp (kp + length k) n # toks vp v @ post"
    and k: "drop kp js = k @ r1" and v: "drop vp js = render v @ r2" and ok: "json_ok v"
  shows "song_key js ts i r = song_member k v r"
proof -
  obtain t ts' where t: "toks vp v = t # ts'"
    and ty: "tk_type t = (case core v of JPrim s \<Rightarrow> JSMN_PRIMITIVE | JText s \<Rightarrow> JSMN_STRING | JArr w vs \<Rightarrow> JSMN_ARRAY | _ \<Rightarrow> JSMN_OBJECT)"
    and tx: "case core v of JPrim s \<Rightarrow> tok_text js t = s | JText s \<Rightarrow> tok_text js t = s | _ \<Rightarrow> True"
    by (rule value_token [OF v ok]) blast
  have "ts ! i = closed_tok JSMN_STRING kp (kp + length k) n" "ts ! (i + 1) = t" "i + 1 < length ts"
    by (simp_all add: ts i t nth_append)
  moreover have "tok_is js key (closed_tok JSMN_STRING kp (kp + length k) n) \<longleftrightarrow> k = key" for key
    using tok_is_closed [OF k] by simp
  ultimately show ?thesis
    using ty tx by (cases "core v") (auto simp: song_key_def song_member_def Let_def json_get_int_def json_get_string_def)
qed

lemma scan_members:
  assumes "drop p js = rmems ms @ r" and "mems_ok ms"
    and "ts = pre @ mtoks p ms @ post" and "i = length pre" and "e = length pre + length (mtoks p ms)"
  shows "scan_song js g ts e i f = song_fields ms f"
  using assms
proof (induction ms arbitrary: p pre i f)
  case Nil
  then show ?case by (subst scan_song.simps) simp
next
  case (Cons m ms)
  obtain a k b v where m: "m = (a, k, b, v)" by (metis prod_cases4)
  let ?kp = "p + length a + 1" and ?vp = "p + length a + length k + length b + 3"
    and ?np = "p + length a + length k + length b + 4 + length (render v)"
  let ?key = "closed_tok JSMN_STRING ?kp (?kp + length k) 1"
  let ?r = "(if ms = [] then [] else 44 # rmems ms) @ r"
  have ok: "json_ok v" "mems_ok ms" using Cons.prems(2) by (auto simp: m)
  have d: "drop p js = (a @ [34]) @ k @ (34 # b @ [58] @ render v @ ?r)" using Cons.prems(1) by (simp add: m)
  have dk: "drop ?kp js = k @ (34 # b @ [58] @ render v @ ?r)" using d by (rule drop_tl) simp
  have dv: "drop ?vp js = render v @ ?r"
    by (rule drop_tl [of ?kp js "k @ 34 # b @ [58]"]) (use dk in simp_all)
  have ts: "ts = pre @ ?key # toks ?vp v @ mtoks ?np ms @ post" using Cons.prems(3) by (simp add: m)
  obtain t ts' where t: "toks ?vp v = t # ts'" "list_all (\<lambda>u. tk_start u < tk_end t) ts'" "tk_end t \<le> int (?vp + length (render v))"
    by (rule value_token [OF dv ok(1)]) blast
  have e: "e = i + 1 + length (toks ?vp v) + length (mtoks ?np ms)" using Cons.prems(4,5) by (simp add: m)
  have at: "tok_at g ts (i + 1) = t" using Cons.prems(4) by (simp add: tok_at_def ts t nth_append)
  have next_start: "mtoks ?np ms @ post = [] \<or> e = i + 1 + length (toks ?vp v) \<or> tk_end t \<le> tk_start (hd (mtoks ?np ms @ post))"
  proof (cases "mtoks ?np ms")
    case (Cons u us)
    with toks_bounds(3) [OF ok(2), of ?np] have "int ?np \<le> tk_start u" by simp
    with t(3) Cons show ?thesis by simp
  qed (simp add: e)
  have past: "past ts e (tk_end t) (i + 2) = i + 1 + length (toks ?vp v)"
  proof -
    have "past ts e (tk_end t) (i + 2) = length (pre @ [?key, t]) + length ts'"
      using Cons.prems(4) next_start t(2) by (intro past_list [where post = "mtoks ?np ms @ post"]) (auto simp: ts t e)
    then show ?thesis using Cons.prems(4) by (simp add: t)
  qed
  have key: "song_key js ts i f = song_member k v f"
    by (rule song_key_eq [OF Cons.prems(4) _ dk dv ok(1)]) (use ts in simp)
  have "\<not> (e \<le> i \<or> length ts \<le> i)" using Cons.prems(4) by (simp add: e ts)
  then have "scan_song js g ts e i f = scan_song js g ts e (i + 1 + length (toks ?vp v)) (song_member k v f)"
    by (subst scan_song.simps) (simp only: at past key if_False)
  also have "\<dots> = song_fields ms (song_member k v f)"
  proof (cases "ms = []")
    case True
    then show ?thesis by (subst scan_song.simps) (simp add: e)
  next
    case False
    have "drop ?np js = rmems ms @ r"
      by (rule drop_tl [of ?vp js "render v @ [44]"]) (use dv False in simp_all)
    then show ?thesis
      using Cons.prems(4) by (intro Cons.IH [where pre = "pre @ ?key # toks ?vp v"]) (use ok ts e in auto)
  qed
  finally show ?case by (simp add: m)
qed

definition song_of :: "json \<Rightarrow> u32 \<times> byte list" where
  "song_of v = (case core v of JObj w ms \<Rightarrow> song_fields ms (0, []) | _ \<Rightarrow> (0, []))"

definition is_song :: "json \<Rightarrow> bool" where
  "is_song v \<longleftrightarrow> (case core v of JObj w ms \<Rightarrow> True | _ \<Rightarrow> False)"

lemma song_loop_values:
  assumes "drop p js = renders vs @ r" and "jsons_ok vs" and "list_all is_song vs"
    and "ts = pre @ tokss p vs @ post" and "i = length pre" and "post = [] \<or> int (p + length (renders vs)) \<le> tk_start (hd post)"
  shows "song_loop js g ts title (length vs) i best = foldl (\<lambda>x v. better title (song_of v) x) best vs"
  using assms
proof (induction vs arbitrary: p pre i best)
  case Nil
  then show ?case by simp
next
  case (Cons v vs)
  let ?q = "p + lead v" and ?np = "p + length (render v) + 1"
  let ?r = "(if vs = [] then [] else 44 # renders vs) @ r"
  have ok: "json_ok v" "jsons_ok vs" using Cons.prems(2) by auto
  obtain w ms where cv: "core v = JObj w ms" using Cons.prems(3) by (auto simp: is_song_def split: json.splits)
  have d0: "drop p js = render v @ ?r" using Cons.prems(1) by simp
  obtain r' where d: "drop ?q js = render (JObj w ms) @ r'" using drop_core [OF d0] by (auto simp: cv)
  let ?obj = "closed_tok JSMN_OBJECT ?q (?q + length (render (JObj w ms))) (length ms)"
  let ?mt = "mtoks (Suc ?q + length w) ms"
  have tv: "toks p v = ?obj # ?mt" by (simp add: toks_core [of p v] cv)
  have ts: "ts = pre @ ?obj # ?mt @ tokss ?np vs @ post" using Cons.prems(4) by (simp add: tv)
  have mok: "mems_ok ms" using core_ok [OF ok(1)] by (simp add: cv)
  have end_: "?q + length (render (JObj w ms)) \<le> p + length (render v)" using length_core [of v] by (simp add: cv)
  have nxt: "tokss ?np vs @ post = [] \<or> int (?q + length (render (JObj w ms))) \<le> tk_start (hd (tokss ?np vs @ post))"
  proof (cases "tokss ?np vs")
    case Nil
    then have "vs = []" by (cases vs) auto
    with Cons.prems(6) end_ Nil show ?thesis by auto
  next
    case C: (Cons u us)
    with toks_bounds(2) [OF ok(2), of ?np] have "int ?np \<le> tk_start u" by simp
    with end_ C show ?thesis by auto
  qed
  have mb: "list_all (\<lambda>u. tk_start u < int (?q + length (render (JObj w ms)))) ?mt"
    using toks_bounds(3) [OF mok, of "Suc ?q + length w"] by (rule list.pred_mono_strong) simp
  have past: "past ts (length ts) (int (?q + length (render (JObj w ms)))) (i + 1) = i + 1 + length ?mt"
  proof -
    have "past ts (length ts) (int (?q + length (render (JObj w ms)))) (i + 1) = length (pre @ [?obj]) + length ?mt"
      using Cons.prems(5) nxt mb by (intro past_list [where post = "tokss ?np vs @ post"]) (simp_all add: ts)
    then show ?thesis using Cons.prems(5) by simp
  qed
  have dm: "drop (Suc ?q + length w) js = rmems ms @ 125 # r'"
    by (rule drop_tl [of ?q js "123 # w"]) (use d in simp_all)
  have scan: "scan_song js g ts (i + 1 + length ?mt) (i + 1) (0, []) = song_of v"
    using Cons.prems(5) by (simp only: song_of_def cv json.case, intro scan_members [OF dm mok, where pre = "pre @ [?obj]"]) (auto simp: ts)
  have obj: "ts ! i = ?obj" "i < length ts" using Cons.prems(5) by (simp_all add: ts nth_append)
  have "song_loop js g ts title (length (v # vs)) i best
      = song_loop js g ts title (length vs) (i + 1 + length ?mt) (better title (song_of v) best)"
    using obj(2) by (simp only: song_loop.simps list.size add_Suc_right add_0_right not_le [symmetric] if_False obj(1) closed_tok_simps past scan Let_def) auto
  also have "\<dots> = foldl (\<lambda>x v. better title (song_of v) x) (better title (song_of v) best) vs"
  proof (cases "vs = []")
    case False
    have "drop ?np js = renders vs @ r"
      by (rule drop_tl [of p js "render v @ [44]"]) (use d0 False in simp_all)
    then show ?thesis
      using Cons.prems(3,5,6) False by (intro Cons.IH [where pre = "pre @ ?obj # ?mt"]) (use ok ts in auto)
  qed simp
  finally show ?case by simp
qed

definition best_song :: "('a \<Rightarrow> int) \<Rightarrow> 'a list \<Rightarrow> 'a" where
  \<comment> \<open>the first element whose score no other exceeds\<close>
  "best_song f cs = hd (filter (\<lambda>c. list_all (\<lambda>d. f d \<le> f c) cs) cs)"

definition pick :: "byte list \<Rightarrow> (u32 \<times> byte list) list \<Rightarrow> u32" where
  \<comment> \<open>the specification: the best of the songs that have an id\<close>
  "pick title songs =
     (let cs = filter (\<lambda>c. fst c \<noteq> 0) songs
      in if cs = [] then 0 else fst (best_song (\<lambda>c. song_score (snd c) title) cs))"

lemma song_score_nonneg: "0 \<le> song_score n t"
  by (simp add: song_score_def Let_def)

lemma best_song_first: "list_all (\<lambda>d. f d \<le> f c) cs \<Longrightarrow> best_song f (c # cs) = c"
  by (simp add: best_song_def)

lemma best_song_later:
  assumes "\<not> list_all (\<lambda>d. f d \<le> x) cs" and "f c \<le> x"
  shows "best_song f (c # cs) = best_song f cs"
proof -
  obtain d where d: "d \<in> set cs" "x < f d" using assms(1) by (auto simp: list_all_iff not_le)
  have "f c \<le> f y" if "list_all (\<lambda>d. f d \<le> f y) cs" for y
    using that d assms(2) by (force simp: list_all_iff)
  then have "filter (\<lambda>y. f c \<le> f y \<and> list_all (\<lambda>d. f d \<le> f y) cs) cs = filter (\<lambda>y. list_all (\<lambda>d. f d \<le> f y) cs) cs"
    by (intro filter_cong) auto
  moreover have "\<not> list_all (\<lambda>d. f d \<le> f c) cs" using assms d by (force simp: list_all_iff)
  ultimately show ?thesis by (simp add: best_song_def)
qed

lemma better_best:
  assumes "fst b \<noteq> 0"
  shows "fst (foldl (\<lambda>x c. better title c x) b cs) =
     (let ds = filter (\<lambda>c. fst c \<noteq> 0) cs; f = \<lambda>c. song_score (snd c) title in
      if list_all (\<lambda>d. f d \<le> snd b) ds then fst b else fst (best_song f ds))"
  using assms
proof (induction cs arbitrary: b)
  case Nil
  then show ?case by simp
next
  case (Cons c cs)
  define f where "f = (\<lambda>c :: u32 \<times> byte list. song_score (snd c) title)"
  define ds where "ds = filter (\<lambda>c :: u32 \<times> byte list. fst c \<noteq> 0) cs"
  have IH: "fst x \<noteq> 0 \<Longrightarrow> fst (foldl (\<lambda>x c. better title c x) x cs)
      = (if list_all (\<lambda>d. f d \<le> snd x) ds then fst x else fst (best_song f ds))" for x
    using Cons.IH [of x] by (simp add: f_def ds_def Let_def)
  have bt: "better title c x = (if fst c = 0 then x else if fst x = 0 \<or> snd x < f c then (fst c, f c) else x)" for x
    by (simp add: better_def f_def Let_def)
  have goal: "fst (foldl (\<lambda>x c. better title c x) (better title c b) cs)
      = (if list_all (\<lambda>d. f d \<le> snd b) (if fst c = 0 then ds else c # ds) then fst b
         else fst (best_song f (if fst c = 0 then ds else c # ds)))"
  proof (cases "fst c = 0")
    case True
    then show ?thesis using IH [OF Cons.prems] by (simp add: bt)
  next
    case False
    show ?thesis
    proof (cases "snd b < f c")
      case True
      with False IH [of "(fst c, f c)"] show ?thesis
        using best_song_first [of f c ds] best_song_later [of f "f c" ds c] by (simp add: bt)
    next
      case F: False
      with False IH [OF Cons.prems] Cons.prems show ?thesis
        using best_song_later [of f "snd b" ds c] by (simp add: bt)
    qed
  qed
  have fx: "song_score (snd d) title = f d" for d :: "u32 \<times> byte list" by (simp add: f_def)
  from goal show ?case by (cases "fst c = 0") (simp_all add: Let_def fx ds_def)
qed

lemma foldl_pick: "fst (foldl (\<lambda>x c. better title c x) (0, -1) cs) = pick title cs"
proof (induction cs)
  case Nil
  show ?case by (simp add: pick_def)
next
  case (Cons c cs)
  define f where "f = (\<lambda>c :: u32 \<times> byte list. song_score (snd c) title)"
  define ds where "ds = filter (\<lambda>c :: u32 \<times> byte list. fst c \<noteq> 0) cs"
  show ?case
  proof (cases "fst c = 0")
    case True
    with Cons show ?thesis by (simp add: better_def pick_def)
  next
    case False
    then have "better title c (0, -1) = (fst c, f c)" by (simp add: better_def f_def)
    then have "fst (foldl (\<lambda>x c. better title c x) (0, -1) (c # cs)) = (if list_all (\<lambda>d. f d \<le> f c) ds then fst c else fst (best_song f ds))"
      using better_best [of "(fst c, f c)" title cs] False by (simp add: f_def ds_def Let_def)
    also have "\<dots> = fst (best_song f (c # ds))" using best_song_first [of f c ds] best_song_later [of f "f c" ds c] by auto
    also have "\<dots> = pick title (c # cs)" using False by (simp add: pick_def f_def ds_def)
    finally show ?thesis .
  qed
qed

text \<open>An object whose first key is \<open>k\<close>: its token, the token of the key, then those of the value.\<close>

lemma first_member:
  assumes c: "core v = JObj w ((a, k, b, u) # m)" and d: "drop p js = render v @ r" and ok: "json_ok v"
  obtains q e kp up post r' where
    "toks p v = closed_tok JSMN_OBJECT q e (Suc (length m)) # closed_tok JSMN_STRING kp (kp + length k) 1 # toks up u @ post"
    "drop up js = render u @ r'" "json_ok u" "up + length (render u) \<le> p + length (render v)"
    "list_all (\<lambda>t. int (up + length (render u)) \<le> tk_start t) post" "\<And>key. tok_is js key (closed_tok JSMN_STRING kp (kp + length k) 1) \<longleftrightarrow> k = key"
    "m = [(a2, k2, b2, v2)] \<longrightarrow> (\<exists>kp2. post = closed_tok JSMN_STRING kp2 (kp2 + length k2) 1 # toks (kp2 + length k2 + 1 + length b2 + 1) v2)"
proof -
  define q where "q = p + lead v"
  obtain r1 where dq: "drop q js = render (core v) @ r1" using drop_core [OF d] by (auto simp: q_def)
  let ?r = "(if m = [] then [] else 44 # rmems m) @ 125 # r1"
  let ?kp = "Suc q + length w + length a + 1" and ?up = "Suc q + length w + length a + length k + length b + 3"
  let ?post = "mtoks (Suc q + length w + length a + length k + length b + 4 + length (render u)) m"
  have dk: "drop ?kp js = k @ 34 # b @ 58 # render u @ ?r"
    by (rule drop_tl [of q js "123 # w @ a @ [34]"]) (use dq in \<open>simp_all add: c\<close>)
  have du: "drop ?up js = render u @ ?r"
    by (rule drop_tl [of q js "123 # w @ a @ 34 # k @ 34 # b @ [58]"]) (use dq in \<open>simp_all add: c\<close>)
  have cok: "json_ok u" "mems_ok m" using core_ok [OF ok] by (simp_all add: c)
  have t: "toks p v = closed_tok JSMN_OBJECT q (q + length (render (core v))) (Suc (length m))
      # closed_tok JSMN_STRING ?kp (?kp + length k) 1 # toks ?up u @ ?post"
    using toks_core [of p v, folded q_def] by (simp only: c) simp
  have "list_all (\<lambda>t. int (?up + length (render u)) \<le> tk_start t) ?post"
    using toks_bounds(3) [OF cok(2)] by (rule list.pred_mono_strong) simp
  moreover have "?up + length (render u) \<le> p + length (render v)" using length_core [of v] by (simp add: c q_def)
  moreover have "\<exists>kp2. ?post = closed_tok JSMN_STRING kp2 (kp2 + length k2) 1 # toks (kp2 + length k2 + 1 + length b2 + 1) v2"
    if "m = [(a2, k2, b2, v2)]"
    by (rule exI [of _ "Suc q + length w + length a + length k + length b + 4 + length (render u) + length a2 + 1"])
      (simp add: that eval_nat_numeral algebra_simps)
  ultimately show thesis using that [OF t du cok(1)] tok_is_closed [OF dk] by simp
qed

lemma upt_two: "2 \<le> n \<Longrightarrow> [0..<n] = 0 # 1 # [2..<n]"
proof -
  assume "2 \<le> n"
  then have l: "0 < n" "1 < n" by linarith+
  show ?thesis using upt_conv_Cons [OF l(1)] upt_conv_Cons [OF l(2)] by (simp only: One_nat_def numeral_2_eq_2)
qed

lemma result_found:
  assumes "toks 0 v = closed_tok JSMN_OBJECT q e n # t1 # ts" and "tok_is js key t1"
  shows "json_find_key js (toks 0 v) 0 key = Some 2"
proof -
  have "flat (toks 0 v)" using flat_toks(1) [of "[]" 0 v] by simp
  moreover have "[0..<length (toks 0 v)] = 0 # 1 # [2..<length (toks 0 v)]" by (rule upt_two) (simp add: assms(1))
  moreover have "tok_is js key (toks 0 v ! 1)" "\<not> tok_is js key (toks 0 v ! 0)"
    using assms by (simp_all add: tok_is_def [of _ _ "closed_tok JSMN_OBJECT q e n"])
  ultimately show ?thesis by (simp add: find_key_linear first_key_def)
qed

lemma jsmn_parse_toks:
  assumes "json_ok v" and "length (view v) \<le> n"
  shows "\<exists>ps. jsmn_parse n (render v) jsmn_init = (Inr (length (toks 0 v)), ps) \<and> tokens ps = toks 0 v"
proof -
  have "length (toks 0 v) = length (view v)" using toks_view(1) [of 0 "render v" v "[]"] by (metis append_Nil2 drop0 length_map)
  with jsmn_parse_ok [OF assms(1), of n] assms(2) show ?thesis by simp
qed

definition search_reply :: "json \<Rightarrow> json list \<Rightarrow> bool" where
  \<comment> \<open>\<open>{"result": {"songs": [songs], ...}, ...}\<close>, every song an object\<close>
  "search_reply v songs \<longleftrightarrow> json_ok v \<and> length (view v) \<le> 4096 \<and> songs \<noteq> [] \<and> list_all is_song songs \<and>
     (\<exists>w0 a1 b1 v1 m1 w1 a2 b2 v2 m2 w2. core v = JObj w0 ((a1, str ''result'', b1, v1) # m1)
        \<and> core v1 = JObj w1 ((a2, str ''songs'', b2, v2) # m2) \<and> core v2 = JArr w2 songs)"

lemma songs_loop:
  assumes "core v = JArr w songs" and "drop p js = render v @ r" and "json_ok v" and "list_all is_song songs" and "songs \<noteq> []"
    and "ts = pre @ toks p v @ post" and "list_all (\<lambda>t. int (p + length (render v)) \<le> tk_start t) post" and "i = length pre"
  shows "fst (song_loop js g ts title (length songs) (i + 1) (0, -1)) = pick title (map song_of songs)
    \<and> (\<exists>q e. ts ! i = closed_tok JSMN_ARRAY q e (length songs)) \<and> tk_type (ts ! (i + 1)) = JSMN_OBJECT"
proof -
  define q where "q = p + lead v"
  obtain r1 where dq: "drop q js = render (core v) @ r1" using drop_core [OF assms(2)] by (auto simp: q_def)
  have d: "drop (Suc q + length w) js = renders songs @ 93 # r1"
    by (rule drop_tl [of q js "91 # w"]) (use dq in \<open>simp_all add: assms(1)\<close>)
  let ?arr = "closed_tok JSMN_ARRAY q (q + length (render (JArr w songs))) (length songs)"
  have t: "toks p v = ?arr # tokss (Suc q + length w) songs" using toks_core [of p v, folded q_def] by (simp only: assms(1)) simp
  have ok: "jsons_ok songs" using core_ok [OF assms(3)] by (simp add: assms(1))
  have "post = [] \<or> int (Suc q + length w + length (renders songs)) \<le> tk_start (hd post)"
    using assms(7) length_core [of v] by (cases post) (auto simp: assms(1) q_def)
  then have "song_loop js g ts title (length songs) (i + 1) (0, -1) = foldl (\<lambda>x v. better title (song_of v) x) (0, -1) songs"
    using assms(6,8) by (intro song_loop_values [OF d ok assms(4), where pre = "pre @ [?arr]"]) (simp_all add: t)
  then have "fst (song_loop js g ts title (length songs) (i + 1) (0, -1)) = pick title (map song_of songs)"
    using foldl_pick [of title "map song_of songs"] by (simp add: foldl_map)
  moreover have "ts ! i = ?arr" using assms(6,8) by (simp add: t nth_append)
  moreover have "tk_type (ts ! (i + 1)) = JSMN_OBJECT"
  proof -
    obtain s ss where s: "songs = s # ss" using assms(5) by (cases songs) auto
    then obtain w ms where "core s = JObj w ms" using assms(4) by (auto simp: is_song_def split: json.splits)
    then show ?thesis using assms(6,8) by (simp add: t s toks_core [of _ s] nth_append)
  qed
  ultimately show ?thesis by blast
qed


definition sample_song :: "byte list \<Rightarrow> string \<Rightarrow> json" where
  "sample_song i n = JObj [] [([], str ''album'', [], JObj [] [([], str ''id'', [], JPrim [57])]),
     ([], str ''id'', [], JPrim i), ([], str ''name'', [], JText (str n))]"

definition sample_songs :: "json list" where
  "sample_songs = [sample_song [49, 49] ''Birdcage'', JPad [32] (sample_song [52, 50] ''Cage (Live)'') [], sample_song [55] ''cages'']"

definition sample_reply :: json where
  "sample_reply = JObj [] [([], str ''result'', [], JObj [] [([], str ''songs'', [], JArr [] sample_songs)]),
     ([32], str ''code'', [], JPrim [50, 48, 48])]"

lemma search_reply_sample: "search_reply sample_reply sample_songs"
proof -
  have "json_ok sample_reply" "length (view sample_reply) \<le> 4096" "sample_songs \<noteq> []" "list_all is_song sample_songs"
    by (simp_all add: sample_reply_def sample_songs_def sample_song_def str_simps white_def prim_ok_def prim_stop_def is_song_def)
  then show ?thesis by (auto simp: search_reply_def sample_reply_def)
qed

lemma sample_fields: "map song_of sample_songs = [(11, str ''Birdcage''), (42, str ''Cage (Live)''), (7, str ''cages'')]"
  by (simp add: sample_songs_def sample_song_def song_of_def song_member_def str_simps strtoul_def scan_dec_def is_space_def is_digit_def dec_val_def)

lemma sample_scores: "song_score (str ''Birdcage'') (str ''cage'') = 40" "song_score (str ''Cage (Live)'') (str ''cage'') = 74"
  "song_score (str ''cages'') (str ''cage'') = 92"
  by (simp_all add: song_score_def Let_def ascii_lower_def to_lower_def str_simps)


text \<open>When the object of \<open>result\<close> has two keys and \<open>songs\<close> is the second, behind a number,
  text or literal, the search answers 0 whatever the songs are: the number of tokens of an object
  is computed as if its keys had no values, and the scan stops before it reaches the second key.\<close>

theorem songs_key_missed:
  assumes "core v = JObj w0 ((a1, str ''result'', b1, v1) # m1)" and "core v1 = JObj w1 [(a2, k, b2, u), (a3, str ''songs'', b3, songs)]"
    and "k \<noteq> str ''songs''" and "\<not> boxed u" and "json_ok v" and "length (view v) \<le> 4096"
  shows "search_parse_best True g (render v) title = 0"
proof -
  let ?js = "render v"
  define ts where "ts = toks 0 v"
  have d: "drop 0 ?js = render v @ []" by simp
  obtain q e kp p1 post1 r1 where t: "toks 0 v = closed_tok JSMN_OBJECT q e (Suc (length m1)) # closed_tok JSMN_STRING kp (kp + length (str ''result'')) 1 # toks p1 v1 @ post1"
    and d1: "drop p1 ?js = render v1 @ r1" "json_ok v1"
    and k1: "tok_is ?js (str ''result'') (closed_tok JSMN_STRING kp (kp + length (str ''result'')) 1)"
    by (rule first_member [OF assms(1) d assms(5)]) blast
  obtain q' e' kp' p2 post2 where t1: "toks p1 v1 = closed_tok JSMN_OBJECT q' e' (Suc (length [(a3, str ''songs'', b3, songs)])) # closed_tok JSMN_STRING kp' (kp' + length k) 1 # toks p2 u @ post2"
    and k2: "\<And>key. tok_is ?js key (closed_tok JSMN_STRING kp' (kp' + length k) 1) \<longleftrightarrow> k = key"
    by (rule first_member [OF assms(2) d1]) blast
  obtain x where x: "toks p2 u = [x]" "\<not> is_container x"
    using assms(4) by (induction u arbitrary: p2) (auto simp: is_container_def)
  have ts: "ts ! 2 = closed_tok JSMN_OBJECT q' e' 2" "ts ! 3 = closed_tok JSMN_STRING kp' (kp' + length k) 1" "ts ! 4 = x" and len: "4 < length ts"
    by (simp_all add: ts_def t t1 x(1) numeral_2_eq_2)
  have "jsmn_container_end ts 2 = container_children ts 3 2" using len ts by (simp add: jsmn_container_end_def)
  also have "\<dots> = container_children ts 4 1"
    using len ts by (subst container_children.simps) (simp add: is_container_def [of "ts ! 3"])
  also have "\<dots> = 5" using len ts x by (subst container_children.simps, subst container_children.simps) simp
  finally have e: "jsmn_container_end ts 2 = 5" .
  have f1: "json_find_key ?js ts 0 (str ''result'') = Some 2" unfolding ts_def by (rule result_found [OF t k1])
  have "key_loop ?js ts 5 (str ''songs'') 3 = key_loop ?js ts 5 (str ''songs'') 5"
    using len ts k2 x(2) assms(3) by (subst key_loop.simps) simp
  also have "\<dots> = None" by (subst key_loop.simps) simp
  finally have f2: "json_find_key_in_object ?js ts 2 (str ''songs'') = None"
    using len ts e by (simp add: json_find_key_in_object_def)
  obtain ps where "jsmn_parse 4096 ?js jsmn_init = (Inr (length (toks 0 v)), ps)" "tokens ps = ts"
    using jsmn_parse_toks [OF assms(5,6)] by (auto simp: ts_def)
  then show ?thesis by (simp add: search_parse_best_def Let_def f1 f2)
qed

lemma songs_key_missed_witness:
  "search_parse_best True (\<lambda>i. closed_tok JSMN_OBJECT 0 0 0) (render (JObj [] [([], str ''result'', [], JObj [] [([], str ''songCount'', [], JPrim [49]),
     ([], str ''songs'', [], JArr [] [sample_song [55] ''cages''])])])) (str ''cage'') = 0"
  by (rule songs_key_missed [where ?w0.0 = "[]" and ?w1.0 = "[]" and ?a1.0 = "[]" and ?b1.0 = "[]" and ?m1.0 = "[]" and ?a2.0 = "[]" and ?b2.0 = "[]"
      and ?a3.0 = "[]" and ?b3.0 = "[]" and u = "JPrim [49]" and k = "str ''songCount''" and songs = "JArr [] [sample_song [55] ''cages'']"
      and ?v1.0 = "JObj [] [([], str ''songCount'', [], JPrim [49]), ([], str ''songs'', [], JArr [] [sample_song [55] ''cages''])]"])
    (simp_all add: sample_song_def str_simps white_def prim_ok_def prim_stop_def)

subsection \<open>What is sent and what is received\<close>

definition unhex :: "byte \<Rightarrow> byte" where
  "unhex c = (if c \<le> 57 then c - 48 else c - 55)"

fun url_decode :: "byte list \<Rightarrow> byte list" where
  \<comment> \<open>the specification: how a server reads a form value\<close>
  "url_decode [] = []"
| "url_decode (c # cs) =
     (if c = 43 then 32 # url_decode cs
      else if c = 37 then (case cs of a # b # ds \<Rightarrow> (push_bit 4 (unhex a) OR unhex b) # url_decode ds | _ \<Rightarrow> [])
      else c # url_decode cs)"

lemma hex_digit_value:
  assumes "n < 16"
  shows "unhex (hex_up ! n) = of_nat n"
proof -
  have len: "length hex_up = 16" by (simp add: hex_up_def str_simps)
  have "map unhex hex_up = map of_nat [0..<16]" by (simp add: hex_up_def str_simps unhex_def upt_rec)
  then have "map unhex hex_up ! n = map of_nat [0..<16] ! n" by simp
  with assms len show ?thesis by simp
qed

lemma hex_nibbles: "c \<le> 15 \<Longrightarrow> unhex (hex_up ! unat (c :: byte)) = c"
  by (subst hex_digit_value) (simp_all add: word_le_nat_alt)

lemma hex_byte: "push_bit 4 (unhex (hex_up ! unat (drop_bit 4 c AND 15))) OR unhex (hex_up ! unat (c AND 15)) = (c :: byte)"
proof -
  have m: "x AND 15 = take_bit 4 x" for x :: byte by (simp add: take_bit_eq_mask mask_eq_decr_exp)
  have "drop_bit 4 c AND 15 \<le> 15" "c AND 15 \<le> 15" by (simp_all add: word_and_le1)
  then have "push_bit 4 (unhex (hex_up ! unat (drop_bit 4 c AND 15))) OR unhex (hex_up ! unat (c AND 15))
      = push_bit 4 (take_bit 4 (drop_bit 4 c)) OR take_bit 4 c" by (simp only: hex_nibbles m)
  also have "\<dots> = c" by (rule bit_word_eqI) (auto simp: bit_simps not_less)
  finally show ?thesis .
qed

lemma url_decode_char: "url_decode (url_char c @ r) = c # url_decode r"
proof -
  consider "url_plain c" | "\<not> url_plain c" "c = 32" | "\<not> url_plain c" "c \<noteq> 32" by blast
  then show ?thesis
  proof cases
    case 1
    then have "c \<noteq> 43" "c \<noteq> 37" by (auto simp: url_plain_def)
    with 1 show ?thesis by (simp add: url_char_def)
  qed (simp_all add: url_char_def hex2_def hex_byte)
qed

lemma url_decode_chars: "url_decode (concat (map url_char s)) = s"
  by (induction s) (simp_all add: url_decode_char)

lemma length_url_char: "length (url_char c) \<le> 3"
  by (simp add: url_char_def hex2_def)

lemma url_encode_loop_take:
  "\<exists>k\<le>length s. url_encode_loop n s d = d @ concat (map url_char (take k s))
     \<and> (k < length s \<longrightarrow> int n - 3 \<le> int (length (url_encode_loop n s d)))
     \<and> (length d < n \<longrightarrow> length (url_encode_loop n s d) < n)"
proof (induction s arbitrary: d)
  case Nil
  show ?case by simp
next
  case (Cons c s)
  show ?case
  proof (cases "int (length d) < int n - 3")
    case True
    from Cons.IH [of "d @ url_char c"] obtain k where "k \<le> length s"
      "url_encode_loop n s (d @ url_char c) = (d @ url_char c) @ concat (map url_char (take k s))"
      "k < length s \<longrightarrow> int n - 3 \<le> int (length (url_encode_loop n s (d @ url_char c)))"
      "length (d @ url_char c) < n \<longrightarrow> length (url_encode_loop n s (d @ url_char c)) < n" by blast
    with True length_url_char [of c] show ?thesis by (intro exI [of _ "Suc k"]) auto
  next
    case False
    then show ?thesis by (intro exI [of _ 0]) auto
  qed
qed

text \<open>URL encoding fits its buffer, and a server decodes the first characters of the text from
  it, all of them unless the buffer is full up to its last three bytes: no escape is cut.\<close>

theorem url_encode_decodes:
  assumes "0 < n"
  shows "length (url_encode s n) < n
    \<and> (\<exists>k\<le>length s. url_decode (url_encode s n) = take k s \<and> (k < length s \<longrightarrow> n \<le> length (url_encode s n) + 3))"
proof -
  from url_encode_loop_take [of s n "[]", folded url_encode_def]
  obtain k where k: "k \<le> length s" "url_encode s n = [] @ concat (map url_char (take k s))"
    "k < length s \<longrightarrow> int n - 3 \<le> int (length (url_encode s n))" "length ([] :: byte list) < n \<longrightarrow> length (url_encode s n) < n"
    by (elim exE conjE)
  have "url_decode (url_encode s n) = take k s" unfolding k(2) append_Nil by (rule url_decode_chars)
  moreover have "k < length s \<longrightarrow> n \<le> length (url_encode s n) + 3" using k(3) by linarith
  ultimately show ?thesis using k(1,4) assms by auto
qed

lemma url_encode_decodes_witness:
  "length (url_encode (str ''a b&c'') 9) < 9 \<and> url_decode (url_encode (str ''a b&c'') 9) = take 4 (str ''a b&c'')"
proof -
  have "url_encode (str ''a b&c'') 9 = str ''a+b%26''"
    by (simp add: url_encode_def url_char_def url_plain_def hex2_def hex_up_def str_simps)
  then have "length (url_encode (str ''a b&c'') 9) = 6" by simp
  moreover have "\<exists>k. url_decode (url_encode (str ''a b&c'') 9) = take k (str ''a b&c'')"
    using url_encode_decodes [of 9 "str ''a b&c''"] by auto
  moreover have "url_decode (str ''a+b%26'') = take 4 (str ''a b&c'')" by (simp add: str_simps unhex_def)
  ultimately show ?thesis using \<open>url_encode (str ''a b&c'') 9 = str ''a+b%26''\<close> by simp
qed

lemma grown_ge: "0 < c \<Longrightarrow> need \<le> grown need c \<and> c \<le> grown need c"
proof (induction need c rule: grown.induct)
  case (1 need c)
  show ?case
  proof (cases "c < need")
    case True
    with 1 have "need \<le> grown need (2 * c) \<and> 2 * c \<le> grown need (2 * c)" by simp
    with True 1 show ?thesis by (subst (1 2) grown.simps) simp
  next
    case False
    then show ?thesis by (subst (1 2) grown.simps) simp
  qed
qed

lemma http_event_fits:
  assumes "0 < rc_cap c" and "int (length (rc_buf c)) < rc_cap c"
  shows "0 < rc_cap (http_event_handler ok d c) \<and> int (length (rc_buf (http_event_handler ok d c))) < rc_cap (http_event_handler ok d c)"
  using assms grown_ge [of "rc_cap c" "int (length (rc_buf c)) + int (length d) + 1"]
  by (auto simp: http_event_handler_def Let_def)

definition handle_event :: "resp_ctx_t \<Rightarrow> bool \<times> byte list \<Rightarrow> resp_ctx_t" where
  "handle_event c e = (case e of (ok, d) \<Rightarrow> http_event_handler ok d c)"

lemma http_body_eq: "http_body n x = foldl handle_event \<lparr> rc_buf = [], rc_cap = int n \<rparr> (chunks x)"
  by (simp add: http_body_def handle_event_def [abs_def])

lemma http_events:
  assumes "0 < rc_cap c" and "int (length (rc_buf c)) < rc_cap c"
  shows "int (length (rc_buf (foldl handle_event c es))) < rc_cap (foldl handle_event c es)
    \<and> (list_all fst es \<longrightarrow> rc_buf (foldl handle_event c es) = rc_buf c @ concat (map snd es))"
  using assms
proof (induction es arbitrary: c)
  case Nil
  then show ?case by simp
next
  case (Cons e es)
  obtain ok d where e: "e = (ok, d)" by fastforce
  have "rc_buf (handle_event c (True, d)) = rc_buf c @ d" by (simp add: handle_event_def http_event_handler_def Let_def)
  with Cons.IH [of "handle_event c e"] http_event_fits [OF Cons.prems, of ok d] show ?case by (auto simp: e handle_event_def)
qed

text \<open>The response buffer always has room for its NUL, and when memory suffices a request with
  status 200 returns the whole body, however it arrives and however large it is.\<close>

theorem http_response_whole:
  assumes "0 < n"
  shows "int (length (rc_buf (http_body n x))) < rc_cap (http_body n x)
    \<and> (malloc_ok x \<and> client_ok x \<and> perform_ok x \<and> status x = 200 \<and> list_all fst (chunks x) \<and> concat (map snd (chunks x)) \<noteq> []
       \<longrightarrow> http_request_ex n x = Some (cstr (concat (map snd (chunks x)))))"
  using http_events [of "\<lparr> rc_buf = [], rc_cap = int n \<rparr>" "chunks x"] assms
  by (auto simp: http_body_eq http_request_ex_def Let_def)

lemma http_response_whole_witness:
  "http_request_ex 2 \<lparr> malloc_ok = True, client_ok = True, chunks = [(True, [123, 49]), (True, [50]), (True, [125])], perform_ok = True, status = 200 \<rparr>
     = Some [123, 49, 50, 125]"
  using http_response_whole [of 2 "\<lparr> malloc_ok = True, client_ok = True, chunks = [(True, [123, 49]), (True, [50]), (True, [125])],
    perform_ok = True, status = 200 \<rparr>"] by (simp add: cstr_def)

end
