(* ===== verification/Lrc.thy ===== *)
theory Lrc
  imports Cstring
begin

text \<open>
  The text formats of lyrics (\<open>lyrics_fetch.c\<close>: \<open>lyric_char_bytes\<close>, \<open>lyric_is_sung_char\<close>,
  \<open>json_unescape\<close>, \<open>parse_lrc\<close>, \<open>count_lrc_timestamps\<close> to \<open>normalize_lyric_payload\<close>,
  \<open>kuwo_lrclist_to_lrc\<close>). A pointer into a C string is the rest of the string from there on. A
  loop that steps over UTF-8 characters answers \<open>None\<close> when it steps over the terminating NUL.
  Numbers that \<open>sscanf\<close> cannot represent saturate, as they do in the library of the target.
\<close>

definition LYRIC_MAX_LINES :: nat where "LYRIC_MAX_LINES = 128"
definition LYRIC_TEXT_LEN :: nat where "LYRIC_TEXT_LEN = 64"

subsection \<open>Characters\<close>

definition lyric_char_bytes :: "byte \<Rightarrow> nat \<times> bool" where
  "lyric_char_bytes c =
     (if 0xE0 \<le> c then (3, True) else if 0xC0 \<le> c then (2, True)
      else (1, c \<notin> set (str '' ,.!?;:-'' @ [39, 34])))"

definition c_at :: "byte list \<Rightarrow> nat \<Rightarrow> byte" where
  "c_at p i = (if i < length p then p ! i else 0)"

definition lyric_is_sung_char :: "byte list \<Rightarrow> nat \<times> bool" where
  "lyric_is_sung_char p =
     (let (bytes, sung) = lyric_char_bytes (c_at p 0);
          wide = c_at p 0 = 0xEF \<and> c_at p 1 = 0xBC \<and> 0x81 \<le> c_at p 2 \<and> c_at p 2 \<le> 0xBF;
          cjk = c_at p 0 = 0xE3 \<and> c_at p 1 = 0x80 \<and> 0x80 \<le> c_at p 2 \<and> c_at p 2 \<le> 0x9F;
          dots = c_at p 0 = 0xE2 \<and> c_at p 1 = 0x80 \<and> (c_at p 2 = 0xA6 \<or> c_at p 2 = 0x94)
      in (bytes, sung \<and> \<not> (bytes = 3 \<and> (wide \<or> cjk \<or> dots))))"

lemma lyric_bytes_pos: "0 < fst (lyric_is_sung_char p)"
  by (simp add: lyric_is_sung_char_def lyric_char_bytes_def Let_def)

subsection \<open>LRC\<close>

type_synonym lyric_line_t = "int \<times> byte list"

definition is_newline :: "byte \<Rightarrow> bool" where
  "is_newline c \<longleftrightarrow> c = 10 \<or> c = 13"

definition meta_keys :: "byte list list" where
  \<comment> \<open>the credits that are not lyrics, in UTF-8\<close>
  "meta_keys =
   [
    [0xE4, 0xBD, 0x9C, 0xE8, 0xAF, 0x8D], [0xE4, 0xBD, 0x9C, 0xE6, 0x9B, 0xB2], [0xE7, 0xBC, 0x96, 0xE6, 0x9B, 0xB2],
    [0xE5, 0x88, 0xB6, 0xE4, 0xBD, 0x9C, 0xE4, 0xBA, 0xBA], [0xE7, 0x9B, 0x91, 0xE5, 0x88, 0xB6],
    [0xE5, 0xBD, 0x95, 0xE9, 0x9F, 0xB3], [0xE6, 0xB7, 0xB7, 0xE9, 0x9F, 0xB3], [0xE6, 0xAF, 0x8D, 0xE5, 0xB8, 0xA6],
    [0xE5, 0x90, 0x89, 0xE4, 0xBB, 0x96], str ''Bass'', [0xE6, 0x9E, 0xB6, 0xE5, 0xAD, 0x90, 0xE9, 0xBC, 0x93],
    [0xE5, 0xA4, 0xA7, 0xE6, 0x8F, 0x90, 0xE7, 0x90, 0xB4], [0xE5, 0xB0, 0x8F, 0xE6, 0x8F, 0x90, 0xE7, 0x90, 0xB4],
    [0xE7, 0xAE, 0xA1, 0xE5, 0xBC, 0xA6], [0xE5, 0xB7, 0xA5, 0xE7, 0xA8, 0x8B, 0xE5, 0xB8, 0x88],
    [0xE5, 0x87, 0xBA, 0xE5, 0x93, 0x81], [0xE5, 0x8F, 0x91, 0xE8, 0xA1, 0x8C], [0xE5, 0x85, 0xAC, 0xE5, 0x8F, 0xB8],
    str ''solo'', str ''Studio'', [0xE8, 0xAF, 0x8D, 0xE6, 0x9B, 0xB2], [0xE8, 0xAF, 0x8D, 0xEF, 0xBC, 0x9A],
    [0xE6, 0x9B, 0xB2, 0xEF, 0xBC, 0x9A], str ''Lyrics'', str ''lyrics'', str ''Composer'', str ''Arranger'',
    str ''Producer'', str ''Written'', [0xE6, 0xB7, 0xB7, 0xE7, 0xBC, 0xA9], [0xE5, 0x92, 0x8C, 0xE5, 0xA3, 0xB0],
    str ''OP:'', str ''SP:'', [0x4F, 0x50, 0xEF, 0xBC, 0x9A], [0x53, 0x50, 0xEF, 0xBC, 0x9A],
    [0xE6, 0x9D, 0xA5, 0xE6, 0xBA, 0x90], [0xE7, 0xBF, 0xBB, 0xE8, 0xAF, 0x91], [0xE8, 0xAF, 0x91, 0xE9, 0x85, 0x8D],
    [0xE6, 0x94, 0xB9, 0xE7, 0xBC, 0x96]   ]"

definition is_meta :: "byte list \<Rightarrow> bool" where
  "is_meta text \<longleftrightarrow> list_ex (\<lambda>k. find_sub k text \<noteq> None) meta_keys \<or> 58 \<in> set text \<or> length text \<le> 2"

definition lrc_time :: "int list \<Rightarrow> int" where
  "lrc_time vs =
     (let mm = vs ! 0; ss = vs ! 1; ms = (if 3 \<le> length vs then vs ! 2 else 0)
      in s32 (mm * 60000 + ss * 1000 + (if ms < 100 then ms * 10 else ms)))"

definition skip_line :: "byte list \<Rightarrow> byte list" where
  \<comment> \<open>behind the next \<open>'\n'\<close>, or the end\<close>
  "skip_line p = drop 1 (dropWhile (\<lambda>c. c \<noteq> 10) p)"

lemma skip_line_less: "p \<noteq> [] \<Longrightarrow> length (skip_line p) < length p"
proof -
  assume "p \<noteq> []"
  then have "0 < length p" by simp
  moreover have "length (skip_line p) \<le> length p - 1"
    using length_dropWhile_le [of "\<lambda>c. c \<noteq> 10" p] by (simp add: skip_line_def diff_le_mono)
  ultimately show ?thesis by linarith
qed

definition line_text :: "byte list \<Rightarrow> byte list" where
  "line_text t = takeWhile (\<lambda>c. \<not> is_newline c) (take (LYRIC_TEXT_LEN - 1) t)"

lemma index_of_less: "index_of b p = Some i \<Longrightarrow> i < length p"
  by (auto simp: index_of_def Let_def split: if_splits)

function lrc_loop :: "byte list \<Rightarrow> lyric_line_t list \<Rightarrow> lyric_line_t list" where
  "lrc_loop p out =
     (if p = [] \<or> LYRIC_MAX_LINES \<le> length out then out
      else if is_newline (hd p) then lrc_loop (tl p) out
      else
        let vs = sscanf [Lit 91, Num, Lit 58, Num, Lit 46, Num] p in
        if hd p = 91 \<and> 2 \<le> length vs then
          (case index_of 93 p of
             None \<Rightarrow> lrc_loop (tl p) out
           | Some i \<Rightarrow>
               let t = drop (i + 1) p; text = line_text t
               in lrc_loop (dropWhile is_newline (drop (length text) t))
                    (if text \<noteq> [] \<and> \<not> is_meta text then out @ [(lrc_time vs, text)] else out))
        else lrc_loop (skip_line p) out)"
  by pat_completeness auto
termination
proof (relation "measure (\<lambda>(p, out). length p)", goal_cases)
  case (4 p out vs i t tx)
  have "length (dropWhile is_newline (drop (length tx) t)) \<le> length t"
    using length_dropWhile_le [of is_newline "drop (length tx) t"] by simp
  moreover have "length t < length p" using index_of_less [of 93 p i] 4 by simp
  ultimately show ?case by simp
next
  case (5 p out vs)
  then show ?case using skip_line_less [of p] by simp
qed auto

declare lrc_loop.simps [simp del]

definition parse_lrc :: "byte list \<Rightarrow> lyric_line_t list" where
  \<comment> \<open>\<open>count\<close> is the length, and \<open>loaded\<close> says that it is not 0\<close>
  "parse_lrc s = lrc_loop s []"

fun count_lrc_timestamps :: "byte list \<Rightarrow> nat" where
  "count_lrc_timestamps [] = 0"
| "count_lrc_timestamps (c # cs) =
     (if c = 91 \<and> length (sscanf [Lit 91, Num, Lit 58, Num] (c # cs)) = 2 then 1 else 0) + count_lrc_timestamps cs"

definition no_lyric_marks :: "byte list list" where
  "no_lyric_marks = [[0xE7, 0xBA, 0xAF, 0xE9, 0x9F, 0xB3, 0xE4, 0xB9, 0x90], [0xE6, 0x9A, 0x82, 0xE6, 0x97, 0xA0],
     [0xE6, 0xB2, 0xA1, 0xE6, 0x9C, 0x89, 0xE5, 0xA1, 0xAB, 0xE8, 0xAF, 0x8D], str ''nolyric'']"

definition lrc_usable :: "byte list \<Rightarrow> bool" where
  "lrc_usable lrc =
     (let stamps = count_lrc_timestamps lrc in
      2 \<le> stamps \<and> \<not> (stamps < 5 \<and> list_ex (\<lambda>m. find_sub m lrc \<noteq> None) no_lyric_marks))"

subsection \<open>JSON strings\<close>

fun json_unescape :: "byte list \<Rightarrow> byte list" where
  "json_unescape [] = []"
| "json_unescape [c] = [c]"
| "json_unescape (c # d # cs) =
     (if c = 92 \<and> d = 110 then 10 # json_unescape cs
      else if c = 92 \<and> d = 114 then 13 # json_unescape cs
      else c # json_unescape (d # cs))"

definition unescaped :: "byte \<Rightarrow> byte" where
  "unescaped d = (if d = 110 then 10 else if d = 114 then 13 else if d = 116 then 9 else d)"

function string_loop :: "(nat \<Rightarrow> bool) \<Rightarrow> byte list \<Rightarrow> byte list \<Rightarrow> nat \<Rightarrow> byte list option" where
  \<comment> \<open>\<open>mem cap\<close>: a buffer of \<open>cap\<close> bytes can be had\<close>
  "string_loop mem p out cap =
     (if p = [] \<or> hd p = 34 then Some out
      else
        let (ch, r) = (if hd p = 92 \<and> tl p \<noteq> [] then (unescaped (hd (tl p)), tl (tl p)) else (hd p, tl p)) in
        if cap \<le> length out + 1
        then (if mem (2 * cap) then string_loop mem r (out @ [ch]) (2 * cap) else None)
        else string_loop mem r (out @ [ch]) cap)"
  by pat_completeness auto
termination by (relation "measure (\<lambda>(mem, p, out, cap). length p)") (auto split: if_splits)

declare string_loop.simps [simp del]

definition json_extract_string_alloc :: "(nat \<Rightarrow> bool) \<Rightarrow> byte list \<Rightarrow> string \<Rightarrow> byte list option" where
  "json_extract_string_alloc mem json key =
     (case find_sub (34 # str key @ [34]) json of
        None \<Rightarrow> None
      | Some i \<Rightarrow>
          (case index_of 58 (drop (i + length key + 2) json) of
             None \<Rightarrow> None
           | Some j \<Rightarrow>
               let p = dropWhile (\<lambda>c. c = 32 \<or> c = 9 \<or> c = 13 \<or> c = 10) (drop (i + length key + 2 + j + 1) json) in
               if p = [] \<or> hd p \<noteq> 34 then None
               else if mem 256 then string_loop mem (tl p) [] 256 else None))"

definition json_extract_quoted :: "(nat \<Rightarrow> bool) \<Rightarrow> byte list \<Rightarrow> string \<Rightarrow> nat \<Rightarrow> byte list \<Rightarrow> byte list" where
  \<comment> \<open>the text in \<open>out\<close> afterwards; the function is true unless it is empty\<close>
  "json_extract_quoted mem json key out_size out =
     (case json_extract_string_alloc mem json key of None \<Rightarrow> out | Some v \<Rightarrow> take (out_size - 1) v)"

definition base64_decode_alloc :: "(byte list \<Rightarrow> byte list option) \<Rightarrow> bool \<Rightarrow> byte list \<Rightarrow> byte list option" where
  \<comment> \<open>\<open>b64\<close> is \<open>mbedtls_base64_decode\<close>\<close>
  "base64_decode_alloc b64 alloc_ok src =
     (if src = [] then None
      else case b64 src of None \<Rightarrow> None | Some d \<Rightarrow> if d = [] \<or> \<not> alloc_ok then None else Some (cstr d))"

definition normalize_lyric_payload :: "(byte list \<Rightarrow> byte list option) \<Rightarrow> bool \<Rightarrow> byte list option \<Rightarrow> byte list option" where
  "normalize_lyric_payload b64 alloc_ok lyric =
     (case lyric of None \<Rightarrow> None
      | Some l \<Rightarrow> if lrc_usable l then Some l else base64_decode_alloc b64 alloc_ok l)"

subsection \<open>The list of Kuwo\<close>

definition HTTP_LYRIC_BUF :: nat where "HTTP_LYRIC_BUF = 32768"

fun kuwo_line :: "nat \<Rightarrow> byte list \<Rightarrow> byte list \<times> byte list" where
  \<comment> \<open>the text with \<open>room\<close> bytes left, and where \<open>lp\<close> stops\<close>
  "kuwo_line 0 lp = ([], lp)"
| "kuwo_line (Suc room) [] = ([], [])"
| "kuwo_line (Suc room) (c # cs) =
     (if c = 34 then ([], c # cs)
      else if c = 92 \<and> cs \<noteq> [] then
        (if hd cs = 110 \<or> hd cs = 114 then ([], tl cs)
         else (case kuwo_line room (tl cs) of (l, r) \<Rightarrow> (hd cs # l, r)))
      else (case kuwo_line room cs of (l, r) \<Rightarrow> (c # l, r)))"

definition stamp :: "int \<Rightarrow> byte list" where
  \<comment> \<open>\<open>[%02d:%02d.%02d]\<close> of a time that is not negative\<close>
  "stamp ms = 91 # fmt_dec0 2 (nat (ms div 60000)) @ 58 # fmt_dec0 2 (nat (ms mod 60000 div 1000))
     @ 46 # fmt_dec0 2 (nat (ms mod 1000 div 10)) @ [93]"

lemma kuwo_line_shorter: "length (snd (kuwo_line n lp)) \<le> length lp"
proof (induction n lp rule: kuwo_line.induct)
  case (3 room c cs)
  have "length (tl cs) \<le> length cs" by simp
  with 3 show ?case by (auto split: prod.splits)
qed simp_all

definition kuwo_append :: "byte list \<Rightarrow> int \<Rightarrow> byte list \<Rightarrow> byte list \<times> bool" where
  \<comment> \<open>\<open>snprintf\<close> of a line behind \<open>out\<close>, and whether the loop goes on\<close>
  "kuwo_append out total_ms line =
     (let s = stamp total_ms @ line @ [10]; room = HTTP_LYRIC_BUF - length out in
      if room \<le> length s then (out @ take (room - 1) s, False)
      else (out @ s, 64 \<le> room - length s))"

function kuwo_loop :: "(byte list \<Rightarrow> int) \<Rightarrow> byte list \<Rightarrow> byte list \<Rightarrow> byte list" where
  \<comment> \<open>\<open>ms\<close> is \<open>(int) (strtof (time_s) * 1000 + 0.5)\<close>\<close>
  "kuwo_loop ms p out =
     (case find_sub (dq ''`time`'') p of None \<Rightarrow> out
      | Some i \<Rightarrow> (case index_of 58 (drop i p) of None \<Rightarrow> out
          | Some j \<Rightarrow>
              let p1 = dropWhile (\<lambda>c. c = 32 \<or> c = 34) (drop (i + j + 1) p);
                  time_s = take 15 (takeWhile (\<lambda>c. c \<noteq> 34 \<and> c \<noteq> 44 \<and> c \<noteq> 125) p1);
                  p2 = drop (length time_s) p1
              in (case find_sub (dq ''`lineLyric`'') p2 of None \<Rightarrow> out
                  | Some k \<Rightarrow> (case index_of 58 (drop k p2) of None \<Rightarrow> out
                      | Some l \<Rightarrow>
                          let lp = dropWhile (\<lambda>c. c = 32) (drop (k + l + 1) p2) in
                          if lp = [] \<or> hd lp \<noteq> 34 then kuwo_loop ms lp out
                          else
                            let line = kuwo_line (LYRIC_TEXT_LEN - 1) (tl lp);
                                r = kuwo_append out (max 0 (ms time_s)) (fst line)
                            in if snd r then kuwo_loop ms (snd line) (fst r) else fst r))))"
  by pat_completeness auto
termination
proof -
  have d: "length (dropWhile P (drop n xs)) \<le> length xs - n" for P n and xs :: "byte list"
    using length_dropWhile_le [of P "drop n xs"] by simp
  have le: "length lp \<le> length p - (i + j + 1)"
    if "lp = dropWhile (\<lambda>c. c = 32) (drop (k + l + 1) p2)" "p2 = drop n (dropWhile (\<lambda>c. c = 32 \<or> c = 34) (drop (i + j + 1) p))"
    for lp p2 p :: "byte list" and i j k l n
    using d [of "\<lambda>c. c = 32" "k + l + 1" p2] d [of "\<lambda>c. c = 32 \<or> c = 34" "i + j + 1" p] by (simp add: that)
  have ix: "0 < length p" if "index_of 58 (drop i p) = Some j" for i j p
    using index_of_less [OF that] by (cases p) simp_all
  show ?thesis
  proof (relation "measure (\<lambda>(ms, p, out). length p)", goal_cases)
    case (2 ms p out i j p1 time_s p2 k l lp)
    have "length lp \<le> length p - (i + j + 1)" by (rule le [OF 2(8)]) (simp only: 2(5) 2(3))
    with ix [OF 2(2)] have "length lp < length p" by linarith
    then show ?case by simp
  next
    case (3 ms p out i j p1 time_s p2 k l lp line r)
    have "length lp \<le> length p - (i + j + 1)" by (rule le [OF 3(8)]) (simp only: 3(5) 3(3))
    moreover have "length (snd line) \<le> length (tl lp)" unfolding 3(10) by (rule kuwo_line_shorter)
    moreover have "length (tl lp) \<le> length lp" by simp
    ultimately have "length (snd line) < length p" using ix [OF 3(2)] by linarith
    then show ?case by simp
  qed simp
qed

declare kuwo_loop.simps [simp del]

definition kuwo_lrclist_to_lrc :: "(byte list \<Rightarrow> int) \<Rightarrow> bool \<Rightarrow> byte list \<Rightarrow> byte list option" where
  "kuwo_lrclist_to_lrc ms alloc_ok resp =
     (case find_sub (dq ''`lrclist`'') resp of None \<Rightarrow> None
      | Some i \<Rightarrow> if \<not> alloc_ok then None
          else let out = kuwo_loop ms (drop i resp) [] in if out = [] then None else Some out)"

subsection \<open>What the formats give back\<close>

definition lrc_line :: "lyric_line_t \<Rightarrow> byte list" where
  \<comment> \<open>a line of an LRC file, in hundredths of a second\<close>
  "lrc_line l = stamp (fst l) @ snd l @ [10]"

definition lrc_line_ok :: "lyric_line_t \<Rightarrow> bool" where
  \<comment> \<open>a time below 9 hours, a text of 3 to 63 bytes on one line that is no credit\<close>
  "lrc_line_ok l \<longleftrightarrow> 0 \<le> fst l \<and> fst l < 32400000 \<and> length (snd l) < LYRIC_TEXT_LEN
     \<and> list_all (\<lambda>c. \<not> is_newline c) (snd l) \<and> \<not> is_meta (snd l)"

lemma stamp_scan:
  assumes "0 \<le> t" and "t < 32400000"
  shows "sscanf [Lit 91, Num, Lit 58, Num, Lit 46, Num] (stamp t @ r) = [t div 60000, t mod 60000 div 1000, t mod 1000 div 10]"
proof -
  have b: "nat (t div 60000) < 2 ^ 31" "nat (t mod 60000 div 1000) < 2 ^ 31" "nat (t mod 1000 div 10) < 2 ^ 31"
    using assms by (auto simp: nat_less_iff)
  have n: "0 \<le> t div 60000" "0 \<le> t mod 60000 div 1000" "0 \<le> t mod 1000 div 10" using assms by simp_all
  show ?thesis
    by (simp add: stamp_def sscanf_fmt [OF b(1)] sscanf_fmt [OF b(2)] sscanf_fmt [OF b(3)] n sscanf.simps(2) del: sscanf.simps(3))
qed

lemma stamp_time:
  assumes "0 \<le> t" and "t < 32400000"
  shows "lrc_time [t div 60000, t mod 60000 div 1000, t mod 1000 div 10] = t div 10 * 10"
proof -
  have "t mod 1000 div 10 < 100" "0 \<le> t mod 1000 div 10" by simp_all
  moreover have "t div 60000 * 60000 + t mod 60000 div 1000 * 1000 + t mod 1000 div 10 * 10 = t div 10 * 10"
  proof -
    have "t mod 60000 mod 1000 = t mod 1000" "t mod 1000 mod 10 = t mod 10" by (simp_all add: mod_mod_cancel)
    then show ?thesis
      using div_mult_mod_eq [of t 60000] div_mult_mod_eq [of "t mod 60000" 1000] div_mult_mod_eq [of "t mod 1000" 10] div_mult_mod_eq [of t 10]
      by linarith
  qed
  moreover have "s32 (t div 10 * 10) = t div 10 * 10" using assms by (intro s32_small) auto
  ultimately show ?thesis by (simp add: lrc_time_def)
qed

lemma stamp_bracket: "index_of 93 (stamp t @ r) = Some (length (stamp t) - 1)"
proof -
  have d: "93 \<notin> set (fmt_dec0 2 n)" for n
    using fmt_dec0_digits [of 2 n] by (auto simp: list_all_iff is_digit_def)
  define a where "a = 91 # fmt_dec0 2 (nat (t div 60000)) @ 58 # fmt_dec0 2 (nat (t mod 60000 div 1000)) @ 46 # fmt_dec0 2 (nat (t mod 1000 div 10))"
  have "stamp t = a @ [93]" by (simp add: a_def stamp_def)
  moreover have "93 \<notin> set a" using d by (simp add: a_def)
  ultimately show ?thesis using index_of_at [of 93 a r] by simp
qed

lemma line_text_line:
  assumes "length x < LYRIC_TEXT_LEN" and "list_all (\<lambda>c. \<not> is_newline c) x"
  shows "line_text (x @ 10 # r) = x"
proof -
  have "take (LYRIC_TEXT_LEN - 1) (x @ 10 # r) = x @ take (LYRIC_TEXT_LEN - 1 - length x) (10 # r)"
    using assms(1) by simp
  moreover have "takeWhile (\<lambda>c. \<not> is_newline c) (x @ take n (10 # r)) = x" for n
    using assms(2) by (cases n) (auto simp: list_all_iff is_newline_def takeWhile_append2)
  ultimately show ?thesis by (simp add: line_text_def)
qed

lemma stamp_ne: "stamp t @ r \<noteq> []" "hd (stamp t @ r) = 91"
  by (simp_all add: stamp_def)

lemma lrc_loop_line:
  assumes "lrc_line_ok l" and "length out < LYRIC_MAX_LINES" and "r = [] \<or> hd r = 91"
  shows "lrc_loop (lrc_line l @ r) out = lrc_loop r (out @ [(fst l div 10 * 10, snd l)])"
proof -
  define t x where "t = fst l" and "x = snd l"
  have ok: "0 \<le> t" "t < 32400000" "length x < LYRIC_TEXT_LEN" "list_all (\<lambda>c. \<not> is_newline c) x" "\<not> is_meta x"
    using assms(1) by (simp_all add: lrc_line_ok_def t_def x_def)
  define p where "p = stamp t @ x @ 10 # r"
  have vs: "sscanf [Lit 91, Num, Lit 58, Num, Lit 46, Num] p = [t div 60000, t mod 60000 div 1000, t mod 1000 div 10]"
    unfolding p_def by (rule stamp_scan [OF ok(1,2)])
  have i: "index_of 93 p = Some (length (stamp t) - 1)" unfolding p_def by (rule stamp_bracket)
  have p: "p \<noteq> []" "hd p = 91" unfolding p_def by (rule stamp_ne)+
  have "0 < length (stamp t)" by (simp add: stamp_def)
  then have d: "drop (length (stamp t) - 1 + 1) p = x @ 10 # r" by (simp add: p_def)
  have tx: "line_text (x @ 10 # r) = x" by (rule line_text_line [OF ok(3,4)])
  have r: "dropWhile is_newline r = r" using assms(3) by (cases r) (auto simp: is_newline_def)
  have "x \<noteq> []" using ok(5) by (auto simp: is_meta_def)
  then have "lrc_loop p out = lrc_loop r (out @ [(t div 10 * 10, x)])"
    using assms(2) p stamp_time [OF ok(1,2)] ok(5)
    by (subst lrc_loop.simps)
      (simp only: vs i d tx r Let_def option.case append_eq_conv_conj drop_append, simp add: r is_newline_def)
  then show ?thesis by (simp add: lrc_line_def p_def t_def x_def)
qed

lemma lrc_loop_lines:
  assumes "list_all lrc_line_ok ls" and "length out \<le> LYRIC_MAX_LINES"
  shows "lrc_loop (concat (map lrc_line ls)) out = take LYRIC_MAX_LINES (out @ map (\<lambda>l. (fst l div 10 * 10, snd l)) ls)"
  using assms
proof (induction ls arbitrary: out)
  case Nil
  then show ?case by (subst lrc_loop.simps) simp
next
  case (Cons l ls)
  show ?case
  proof (cases "length out < LYRIC_MAX_LINES")
    case True
    have "concat (map lrc_line ls) = [] \<or> hd (concat (map lrc_line ls)) = 91"
      by (cases ls) (simp_all add: lrc_line_def stamp_ne(2))
    with True Cons.prems have "lrc_loop (concat (map lrc_line (l # ls))) out = lrc_loop (concat (map lrc_line ls)) (out @ [(fst l div 10 * 10, snd l)])"
      using lrc_loop_line [of l out "concat (map lrc_line ls)"] by simp
    also have "\<dots> = take LYRIC_MAX_LINES (out @ map (\<lambda>l. (fst l div 10 * 10, snd l)) (l # ls))"
      using Cons Suc_diff_Suc [OF True, symmetric] by simp
    finally show ?thesis .
  next
    case False
    with Cons.prems show ?thesis by (subst lrc_loop.simps) simp
  qed
qed

text \<open>The lines of an LRC file are read back: their texts unchanged, their times to the
  hundredth of a second, in order, up to the 128 lines there is room for.\<close>

theorem lrc_roundtrip:
  assumes "list_all lrc_line_ok ls"
  shows "parse_lrc (concat (map lrc_line ls)) = take 128 (map (\<lambda>l. (fst l div 10 * 10, snd l)) ls)"
  using lrc_loop_lines [OF assms, of "[]"] by (simp add: parse_lrc_def LYRIC_MAX_LINES_def)

lemma lrc_roundtrip_witness:
  "parse_lrc (str ''[00:12.34]Hello'' @ [10] @ str ''[01:02.05]from the other side'' @ [10])
     = [(12340, str ''Hello''), (62050, str ''from the other side'')]"
proof -
  let ?ls = "[(12345, str ''Hello''), (62050, str ''from the other side'')]"
  have "list_all lrc_line_ok ?ls"
    by (simp add: lrc_line_ok_def LYRIC_TEXT_LEN_def is_newline_def is_meta_def meta_keys_def str_simps)
  from lrc_roundtrip [OF this] show ?thesis
    by (simp add: lrc_line_def stamp_def fmt_dec0_def fmt_dec.simps digit_def str_simps)
qed

text \<open>A stamp in thousandths is not read as such when the fraction starts with a zero.\<close>

lemma lrc_thousandths: "parse_lrc (str ''[00:01.050]one'') = [(1500, str ''one'')]"
proof -
  have "sscanf [Lit 91, Num, Lit 58, Num, Lit 46, Num] (str ''[00:01.050]one'') = [0, 1, 50]"
    by (simp add: str_simps scan_int_def scan_dec_def is_space_def is_digit_def dec_val_def)
  moreover have "index_of 93 (str ''[00:01.050]one'') = Some 10" by (simp add: index_of_def str_simps)
  moreover have "line_text (str ''one'') = str ''one''" by (simp add: line_text_def LYRIC_TEXT_LEN_def is_newline_def str_simps)
  moreover have "\<not> is_meta (str ''one'')" by (simp add: is_meta_def meta_keys_def str_simps)
  moreover have "lrc_time [0, 1, 50] = 1500" by (simp add: lrc_time_def s32_small)
  ultimately show ?thesis
    unfolding parse_lrc_def
    by (subst lrc_loop.simps) (simp add: LYRIC_MAX_LINES_def is_newline_def str_simps lrc_loop.simps)
qed

end
