(* ===== verification/Karaoke.thy ===== *)
theory Karaoke
  imports Lrc
begin

text \<open>
  Which word is sung (\<open>lyrics_fetch.c\<close>: \<open>generate_pseudo_klyric\<close>, \<open>parse_klyric\<close>,
  \<open>reset_klyric\<close>, the mapping of \<open>apply_lrc\<close>, \<open>lyrics_get_current_line\<close>,
  \<open>lyrics_get_karaoke_progress\<close>, \<open>lyrics_get_karaoke_byte_idx\<close>). The static arrays are lists of
  their full length. \<open>float\<close> arithmetic is a parameter, \<open>share\<close>: what \<open>(int)\<close> makes of a part
  (a full weight, a half, or 0.3) of the time per unit of weight.
\<close>

definition KLYRIC_MAX_WORDS :: nat where "KLYRIC_MAX_WORDS = 1536"

record klyric =
  k_start :: "int list"
  k_end :: "int list"
  k_count :: nat
  k_line_first :: "nat list"
  k_line_time :: "int list"
  k_line_count :: nat
  k_map :: "int list"

definition reset_klyric :: "klyric \<Rightarrow> klyric" where
  "reset_klyric k = k \<lparr> k_count := 0, k_line_count := 0, k_map := replicate LYRIC_MAX_LINES (-1) \<rparr>"

definition add_word :: "int \<Rightarrow> int \<Rightarrow> klyric \<Rightarrow> klyric" where
  "add_word s e k = k \<lparr> k_start := (k_start k)[k_count k := s], k_end := (k_end k)[k_count k := e], k_count := k_count k + 1 \<rparr>"

definition add_line :: "int \<Rightarrow> klyric \<Rightarrow> klyric" where
  "add_line t k = k \<lparr> k_line_first := (k_line_first k)[k_line_count k := k_count k],
     k_line_time := (k_line_time k)[k_line_count k := t], k_line_count := k_line_count k + 1 \<rparr>"

subsection \<open>Words with times of their own\<close>

record words =
  w_yrc :: bool
  w_time :: int
  w_k :: klyric

definition yrc_word :: "int \<Rightarrow> int \<Rightarrow> int \<Rightarrow> words \<Rightarrow> words" where
  \<comment> \<open>three numbers: the start is absolute\<close>
  "yrc_word line_start a b w =
     (let e = s32 (a + b); e1 = (if b \<le> 0 \<and> \<not> a < e then s32 (a + 1) else e)
      in w \<lparr> w_yrc := True, w_time := (if w_yrc w then w_time w else line_start), w_k := add_word a e1 (w_k w) \<rparr>)"

definition klyric_word :: "int \<Rightarrow> int \<Rightarrow> words \<Rightarrow> words" where
  \<comment> \<open>two numbers: the start is relative to the end of the word before\<close>
  "klyric_word a b w =
     (if w_yrc w then w
      else let t = s32 (w_time w + a); e = s32 (t + b);
               b1 = (if b \<le> 0 then (if t < e then s32 (e - t) else 1) else b)
           in w \<lparr> w_time := s32 (t + b1), w_k := add_word t (s32 (t + b1)) (w_k w) \<rparr>)"

definition next_word :: "byte list \<Rightarrow> byte list" where
  \<comment> \<open>from behind the \<open>)\<close> to the next word or the end of the line\<close>
  "next_word rp = dropWhile (\<lambda>c. c \<noteq> 40 \<and> \<not> is_newline c) rp"

function klyric_words :: "int \<Rightarrow> byte list \<Rightarrow> words \<Rightarrow> words" where
  "klyric_words line_start rp w =
     (if rp = [] \<or> is_newline (hd rp) \<or> KLYRIC_MAX_WORDS \<le> k_count (w_k w) then w
      else if hd rp \<noteq> 40 then klyric_words line_start (tl rp) w
      else
        let vs = sscanf [Lit 40, Num, Lit 44, Num, Lit 44, Num, Lit 41] rp;
            two = sscanf [Lit 40, Num, Lit 44, Num, Lit 41] rp in
        if length vs = 3 then
          (case index_of 41 rp of
             None \<Rightarrow> yrc_word line_start (vs ! 0) (vs ! 1) w
           | Some i \<Rightarrow> klyric_words line_start (next_word (drop (i + 1) rp)) (yrc_word line_start (vs ! 0) (vs ! 1) w))
        else if 2 \<le> length two then
          (case index_of 41 rp of
             None \<Rightarrow> klyric_word (two ! 0) (two ! 1) w
           | Some i \<Rightarrow> klyric_words line_start (next_word (drop (i + 1) rp)) (klyric_word (two ! 0) (two ! 1) w))
        else klyric_words line_start (tl rp) w)"
  by pat_completeness auto
termination
proof (relation "measure (\<lambda>(l, rp, w). length rp)", goal_cases)
  case (3 l rp w vs two i)
  have "length (next_word (drop (i + 1) rp)) \<le> length (drop (i + 1) rp)" unfolding next_word_def by (rule length_dropWhile_le)
  with index_of_less [OF 3(6)] have "length (next_word (drop (i + 1) rp)) < length rp" by simp
  then show ?case by simp
next
  case (4 l rp w vs two i)
  have "length (next_word (drop (i + 1) rp)) \<le> length (drop (i + 1) rp)" unfolding next_word_def by (rule length_dropWhile_le)
  with index_of_less [OF 4(7)] have "length (next_word (drop (i + 1) rp)) < length rp" by simp
  then show ?case by simp
qed auto

declare klyric_words.simps [simp del]

function klyric_loop :: "byte list \<Rightarrow> words \<Rightarrow> words" where
  "klyric_loop p w =
     (if p = [] \<or> KLYRIC_MAX_WORDS \<le> k_count (w_k w) \<or> LYRIC_MAX_LINES \<le> k_line_count (w_k w) then w
      else if is_newline (hd p) then klyric_loop (tl p) w
      else
        let vs = sscanf [Lit 91, Num, Lit 44, Num, Lit 93] p in
        if hd p = 91 \<and> 2 \<le> length vs then
          (let w1 = w \<lparr> w_k := add_line (vs ! 0) (w_k w) \<rparr> in
           case index_of 93 p of
             None \<Rightarrow> klyric_loop (tl p) w1
           | Some i \<Rightarrow> klyric_loop (skip_line p) (klyric_words (vs ! 0) (drop (i + 1) p) (w1 \<lparr> w_time := vs ! 0 \<rparr>)))
        else klyric_loop (skip_line p) w)"
  by pat_completeness auto
termination
  by (relation "measure (\<lambda>(p, w). length p)") (auto simp: skip_line_less)

declare klyric_loop.simps [simp del]

definition parse_klyric :: "byte list \<Rightarrow> klyric \<Rightarrow> klyric" where
  "parse_klyric s k = w_k (klyric_loop s \<lparr> w_yrc = False, w_time = 0, w_k = k \<lparr> k_count := 0, k_line_count := 0 \<rparr> \<rparr>)"

subsection \<open>Words by estimate\<close>

datatype part = Full | Half | Pause

definition sung_weight_step :: "byte list \<Rightarrow> nat" where
  \<comment> \<open>in halves\<close>
  "sung_weight_step p = (case lyric_is_sung_char p of (bytes, sung) \<Rightarrow> if sung then (if 2 \<le> bytes then 2 else 1) else 0)"

function sung_weight :: "byte list \<Rightarrow> nat option" where
  "sung_weight p =
     (if p = [] then Some 0
      else if length p < fst (lyric_is_sung_char p) then None
      else map_option (\<lambda>n. n + sung_weight_step p) (sung_weight (drop (fst (lyric_is_sung_char p)) p)))"
  by pat_completeness auto
termination by (relation "measure length") (use lyric_bytes_pos in auto)

function count_chars :: "byte list \<Rightarrow> nat option" where
  \<comment> \<open>the estimate for the last line counts every character\<close>
  "count_chars p =
     (if p = [] then Some 0
      else if length p < fst (lyric_char_bytes (hd p)) then None
      else map_option Suc (count_chars (drop (fst (lyric_char_bytes (hd p))) p)))"
  by pat_completeness auto
termination by (relation "measure length") (auto simp: lyric_char_bytes_def)

function pseudo_words :: "(part \<Rightarrow> int) \<Rightarrow> byte list \<Rightarrow> int \<Rightarrow> klyric \<Rightarrow> klyric option" where
  \<comment> \<open>\<open>dur part\<close> is the time of the part in this line\<close>
  "pseudo_words dur p t k =
     (if p = [] \<or> KLYRIC_MAX_WORDS - 1 \<le> k_count k then Some k
      else if length p < fst (lyric_is_sung_char p) then None
      else
        if \<not> snd (lyric_is_sung_char p)
        then pseudo_words dur (drop (fst (lyric_is_sung_char p)) p) (s32 (t + min 300 (max 30 (dur Pause)))) k
        else let d = max 50 (dur (if 2 \<le> fst (lyric_is_sung_char p) then Full else Half))
             in pseudo_words dur (drop (fst (lyric_is_sung_char p)) p) (s32 (t + d)) (add_word t (s32 (t + d)) k))"
  by pat_completeness auto
termination
  by (relation "measure (\<lambda>(dur, p, t, k). length p)") (use lyric_bytes_pos in auto)

declare sung_weight.simps [simp del] count_chars.simps [simp del] pseudo_words.simps [simp del]

definition line_end :: "lyric_line_t list \<Rightarrow> nat \<Rightarrow> int option" where
  "line_end ls i =
     (if i + 1 < length ls then Some (fst (ls ! (i + 1)))
      else map_option (\<lambda>n. s32 (fst (ls ! i) + min 8000 (max 2000 (int n * 320)))) (count_chars (snd (ls ! i))))"

definition pseudo_line :: "(int \<Rightarrow> nat \<Rightarrow> part \<Rightarrow> int) \<Rightarrow> lyric_line_t list \<Rightarrow> nat \<Rightarrow> klyric \<Rightarrow> klyric option" where
  "pseudo_line share ls i k =
     (let start = fst (ls ! i); tx = snd (ls ! i) in
      case (line_end ls i, sung_weight tx) of
        (Some e, Some n) \<Rightarrow>
          (let dur = s32 (e - start); dur1 = (if dur \<le> 0 then 3000 else dur)
           in pseudo_words (share dur1 (max 2 n)) tx start (add_line start k))
      | _ \<Rightarrow> None)"

function pseudo_lines :: "(int \<Rightarrow> nat \<Rightarrow> part \<Rightarrow> int) \<Rightarrow> lyric_line_t list \<Rightarrow> nat \<Rightarrow> klyric \<Rightarrow> klyric option" where
  \<comment> \<open>the first word is number 0; \<open>k_count\<close> and \<open>k_line_count\<close> stand for \<open>word_idx\<close> and \<open>line_idx\<close>\<close>
  "pseudo_lines share ls i k =
     (if length ls \<le> i \<or> KLYRIC_MAX_WORDS - 1 \<le> k_count k \<or> LYRIC_MAX_LINES \<le> k_line_count k then Some k
      else if snd (ls ! i) = [] then pseudo_lines share ls (i + 1) k
      else case pseudo_line share ls i k of None \<Rightarrow> None | Some k1 \<Rightarrow> pseudo_lines share ls (i + 1) k1)"
  by pat_completeness auto
termination by (relation "measure (\<lambda>(share, ls, i, k). length ls - i)") auto

declare pseudo_lines.simps [simp del]

definition generate_pseudo_klyric :: "(int \<Rightarrow> nat \<Rightarrow> part \<Rightarrow> int) \<Rightarrow> lyric_line_t list \<Rightarrow> klyric \<Rightarrow> klyric option" where
  "generate_pseudo_klyric share ls k =
     (if 0 < k_count k \<or> length ls < 2 then Some k
      else pseudo_lines share ls 0 (k \<lparr> k_count := 0, k_line_count := 0 \<rparr>))"

subsection \<open>From lines to lines with words\<close>

definition dist :: "int \<Rightarrow> int \<Rightarrow> int" where
  \<comment> \<open>\<open>abs (a - b)\<close>\<close>
  "dist a b = s32 \<bar>s32 (a - b)\<bar>"

function nearer :: "klyric \<Rightarrow> int \<Rightarrow> nat \<Rightarrow> nat" where
  "nearer k t ki =
     (if ki + 1 < k_line_count k \<and> dist (k_line_time k ! (ki + 1)) t < dist (k_line_time k ! ki) t
      then nearer k t (ki + 1) else ki)"
  by pat_completeness auto
termination by (relation "measure (\<lambda>(k, t, ki). k_line_count k - ki)") auto

declare nearer.simps [simp del]

fun best_before :: "klyric \<Rightarrow> int \<Rightarrow> nat \<Rightarrow> nat \<times> int \<Rightarrow> nat \<times> int" where
  \<comment> \<open>\<open>for (kj = ki - 1; kj >= 0; kj--)\<close>\<close>
  "best_before k t 0 b = b"
| "best_before k t (Suc kj) b =
     (let d = dist (k_line_time k ! kj) t in best_before k t kj (if d < snd b then (kj, d) else b))"

definition line_for :: "klyric \<Rightarrow> int \<Rightarrow> nat \<Rightarrow> nat" where
  "line_for k t ki0 =
     (let ki = nearer k t ki0 in
      if 0 < ki \<and> 100 < dist (k_line_time k ! ki) t
      then (let b = best_before k t ki (ki, dist (k_line_time k ! ki) t) in if snd b \<le> 100 then fst b else ki)
      else ki)"

fun map_lines :: "klyric \<Rightarrow> lyric_line_t list \<Rightarrow> nat \<Rightarrow> nat \<Rightarrow> int list \<Rightarrow> int list" where
  "map_lines k [] li ki m = m"
| "map_lines k (l # ls) li ki m =
     (let ki1 = line_for k (fst l) ki in
      map_lines k ls (li + 1) ki1
        (if ki1 < k_line_count k \<and> dist (k_line_time k ! ki1) (fst l) \<le> 100 then m[li := int ki1] else m))"

definition map_klyric :: "lyric_line_t list \<Rightarrow> klyric \<Rightarrow> klyric" where
  "map_klyric ls k =
     (let m = replicate LYRIC_MAX_LINES (-1)
      in k \<lparr> k_map := (if 0 < k_line_count k \<and> ls \<noteq> [] then map_lines k ls 0 0 m else m) \<rparr>)"

subsection \<open>What the display asks\<close>

definition lyrics_get_current_line :: "lyric_line_t list \<Rightarrow> int \<Rightarrow> int" where
  "lyrics_get_current_line ls pos =
     foldl (\<lambda>r i. if fst (ls ! i) \<le> pos then int i else r) (-1) [0..<length ls]"

definition word_range :: "klyric \<Rightarrow> nat \<Rightarrow> nat \<times> nat" where
  \<comment> \<open>\<open>first\<close> and \<open>last\<close> (exclusive) of a line\<close>
  "word_range k kline =
     (k_line_first k ! kline, if kline + 1 < k_line_count k then k_line_first k ! (kline + 1) else k_count k)"

function first_unsung :: "int list \<Rightarrow> int \<Rightarrow> int \<Rightarrow> int \<Rightarrow> int \<Rightarrow> int" where
  \<comment> \<open>the binary search\<close>
  "first_unsung ends pos lo hi found =
     (if hi < lo then found
      else let mid = (lo + hi) div 2 in
           if ends ! nat mid \<le> pos then first_unsung ends pos (mid + 1) hi found
           else first_unsung ends pos lo (mid - 1) mid)"
  by pat_completeness auto
termination by (relation "measure (\<lambda>(ends, pos, lo, hi, found). nat (hi - lo + 1))") auto

declare first_unsung.simps [simp del]

definition tdiv :: "int \<Rightarrow> int \<Rightarrow> int" where
  \<comment> \<open>division in C, by a positive number\<close>
  "tdiv a b = (if 0 \<le> a then a div b else - (- a div b))"

definition word_progress :: "klyric \<Rightarrow> int \<Rightarrow> nat \<Rightarrow> int \<Rightarrow> int \<Rightarrow> int" where
  "word_progress k pos first n found =
     (if found < 0 then 100
      else
        let idx = found - int first; s = k_start k ! nat found; dur = s32 (k_end k ! nat found - s) in
        if pos < s then (if 0 < idx then idx * 100 div n else 0)
        else if dur \<le> 0 then (idx + 1) * 100 div n
        else let sub = min 100 (tdiv (s32 ((pos - s) * 100)) dur) in tdiv (idx * 100 + sub) n)"

definition lyrics_get_karaoke_progress :: "klyric \<Rightarrow> int \<Rightarrow> int \<Rightarrow> int" where
  "lyrics_get_karaoke_progress k line_start pos =
     (if k_line_count k = 0 \<or> k_count k = 0 then -1
      else
        let kline = foldl (\<lambda>r i. if k_line_time k ! i \<le> s32 (line_start + 50) then int i else r) (-1) [0..<k_line_count k] in
        if kline < 0 \<or> 100 < dist (k_line_time k ! nat kline) line_start then -1
        else
          let (a, e) = word_range k (nat kline); n = int e - int a in
          if n = 0 then -1
          else max 0 (min 100 (word_progress k pos a n (first_unsung (k_end k) pos (int a) (int e - 1) (-1)))))"

definition sung_words :: "klyric \<Rightarrow> int \<Rightarrow> nat \<Rightarrow> nat \<Rightarrow> nat" where
  \<comment> \<open>the loop stops at the first word that lies ahead\<close>
  "sung_words k pos a e = length (takeWhile (\<lambda>i. k_start k ! i \<le> pos) [a..<e])"

function total_sung :: "byte list \<Rightarrow> nat option" where
  "total_sung p =
     (if p = [] then Some 0
      else if length p < fst (lyric_is_sung_char p) then None
      else map_option (\<lambda>n. n + (if snd (lyric_is_sung_char p) then 1 else 0)) (total_sung (drop (fst (lyric_is_sung_char p)) p)))"
  by pat_completeness auto
termination by (relation "measure length") (use lyric_bytes_pos in auto)

function after_chars :: "nat \<Rightarrow> byte list \<Rightarrow> byte list option" where
  "after_chars target p =
     (if p = [] \<or> target = 0 then Some p
      else if length p < fst (lyric_is_sung_char p) then None
      else after_chars (if snd (lyric_is_sung_char p) then target - 1 else target) (drop (fst (lyric_is_sung_char p)) p))"
  by pat_completeness auto
termination by (relation "measure (\<lambda>(target, p). length p)") (use lyric_bytes_pos in auto)

declare total_sung.simps [simp del] after_chars.simps [simp del]

definition lyrics_get_karaoke_byte_idx :: "klyric \<Rightarrow> int \<Rightarrow> byte list \<Rightarrow> int \<Rightarrow> int option" where
  \<comment> \<open>\<open>None\<close>: the text was read past its end\<close>
  "lyrics_get_karaoke_byte_idx k line_idx tx pos =
     (if tx = [] \<or> line_idx < 0 \<or> k_line_count k = 0 \<or> k_count k = 0 \<or> int LYRIC_MAX_LINES \<le> line_idx then Some (-1)
      else
        let kline = k_map k ! nat line_idx in
        if kline < 0 \<or> int (k_line_count k) \<le> kline then Some (-1)
        else
          let (a, e) = word_range k (nat kline) in
          if e = a then Some (-1)
          else case total_sung tx of
                 None \<Rightarrow> None
               | Some all \<Rightarrow>
                   map_option (\<lambda>p. int (length tx) - int (length p)) (after_chars (min all (sung_words k pos a e)) tx))"

subsection \<open>The arrays stay consistent\<close>

definition klyric_ok :: "klyric \<Rightarrow> bool" where
  "klyric_ok k \<longleftrightarrow> length (k_start k) = KLYRIC_MAX_WORDS \<and> length (k_end k) = KLYRIC_MAX_WORDS
     \<and> length (k_line_first k) = LYRIC_MAX_LINES \<and> length (k_line_time k) = LYRIC_MAX_LINES \<and> length (k_map k) = LYRIC_MAX_LINES
     \<and> k_count k \<le> KLYRIC_MAX_WORDS \<and> k_line_count k \<le> LYRIC_MAX_LINES
     \<and> sorted (take (k_line_count k) (k_line_first k)) \<and> list_all (\<lambda>f. f \<le> k_count k) (take (k_line_count k) (k_line_first k))"

lemma klyric_ok_reset [intro]: "klyric_ok k \<Longrightarrow> klyric_ok (reset_klyric k)"
  by (simp add: klyric_ok_def reset_klyric_def)

lemma klyric_ok_start [intro]: "klyric_ok k \<Longrightarrow> klyric_ok (k \<lparr> k_count := 0, k_line_count := 0 \<rparr>)"
  by (simp add: klyric_ok_def)

lemma klyric_ok_word [intro]: "klyric_ok k \<Longrightarrow> k_count k < KLYRIC_MAX_WORDS \<Longrightarrow> klyric_ok (add_word s e k)"
  by (auto simp: klyric_ok_def add_word_def list_all_iff)

lemma klyric_ok_line [intro]: "klyric_ok k \<Longrightarrow> k_line_count k < LYRIC_MAX_LINES \<Longrightarrow> klyric_ok (add_line t k)"
  by (auto simp: klyric_ok_def add_line_def take_Suc_conv_app_nth sorted_append list_all_iff)

lemma count_add [simp]: "k_count (add_word s e k) = k_count k + 1" "k_count (add_line t k) = k_count k"
  "k_line_count (add_word s e k) = k_line_count k" "k_line_count (add_line t k) = k_line_count k + 1"
  "k_line_time (add_word s e k) = k_line_time k" "k_line_first (add_word s e k) = k_line_first k"
  "k_start (add_line t k) = k_start k" "k_end (add_line t k) = k_end k"
  by (simp_all add: add_word_def add_line_def)

lemma klyric_ok_words:
  assumes "klyric_ok (w_k w)"
  shows "klyric_ok (w_k (klyric_words l rp w))"
  using assms
proof (induction l rp w rule: klyric_words.induct)
  case (1 l rp w)
  show ?case
  proof (cases "rp = [] \<or> is_newline (hd rp) \<or> KLYRIC_MAX_WORDS \<le> k_count (w_k w)")
    case True
    with "1.prems" show ?thesis by (subst klyric_words.simps) simp
  next
    case False
    then have "klyric_ok (w_k (yrc_word l a b w))" "klyric_ok (w_k (klyric_word a b w))" for a b
      using "1.prems" by (auto simp: yrc_word_def klyric_word_def Let_def)
    with 1 False show ?thesis
      by (subst klyric_words.simps) (simp only: if_False Let_def split: if_split option.split, blast)
  qed
qed

lemma klyric_ok_loop:
  assumes "klyric_ok (w_k w)"
  shows "klyric_ok (w_k (klyric_loop p w))"
  using assms
proof (induction p w rule: klyric_loop.induct)
  case (1 p w)
  show ?case
  proof (cases "p = [] \<or> KLYRIC_MAX_WORDS \<le> k_count (w_k w) \<or> LYRIC_MAX_LINES \<le> k_line_count (w_k w)")
    case True
    with "1.prems" show ?thesis by (subst klyric_loop.simps) simp
  next
    case False
    then have "klyric_ok (add_line t (w_k w))" for t using "1.prems" by auto
    with 1 False show ?thesis
      by (subst klyric_loop.simps) (auto simp: Let_def klyric_ok_words split: option.split)
  qed
qed

lemma klyric_ok_parse: "klyric_ok k \<Longrightarrow> klyric_ok (parse_klyric s k)"
  unfolding parse_klyric_def by (intro klyric_ok_loop) auto

lemma klyric_ok_pseudo_words:
  "pseudo_words dur p t k = Some k' \<Longrightarrow> klyric_ok k \<Longrightarrow> klyric_ok k'"
proof (induction dur p t k rule: pseudo_words.induct)
  case (1 dur p t k)
  show ?case
  proof (cases "p = [] \<or> KLYRIC_MAX_WORDS - 1 \<le> k_count k \<or> length p < fst (lyric_is_sung_char p)")
    case True
    with "1.prems" show ?thesis by (subst (asm) pseudo_words.simps) (auto split: if_splits)
  next
    case False
    then have ok: "klyric_ok (add_word s e k)" for s e using "1.prems"(2) by auto
    have go: "\<not> (p = [] \<or> KLYRIC_MAX_WORDS - 1 \<le> k_count k)" "\<not> length p < fst (lyric_is_sung_char p)" using False by auto
    show ?thesis
    proof (cases "snd (lyric_is_sung_char p)")
      case True
      have "\<not> \<not> snd (lyric_is_sung_char p)" using True by simp
      from "1.IH"(2) [OF go this refl _ ok] "1.prems"(1) go True show ?thesis
        by (subst (asm) (2) pseudo_words.simps) (simp add: Let_def)
    next
      case F: False
      from "1.IH"(1) [OF go F _ "1.prems"(2)] "1.prems"(1) go F show ?thesis
        by (subst (asm) (2) pseudo_words.simps) (simp add: Let_def)
    qed
  qed
qed

lemma klyric_ok_pseudo_line:
  "pseudo_line share ls i k = Some k' \<Longrightarrow> klyric_ok k \<Longrightarrow> k_line_count k < LYRIC_MAX_LINES \<Longrightarrow> klyric_ok k'"
  by (auto simp: pseudo_line_def Let_def split: option.splits intro: klyric_ok_pseudo_words)

lemma klyric_ok_pseudo_lines: "pseudo_lines share ls i k = Some k' \<Longrightarrow> klyric_ok k \<Longrightarrow> klyric_ok k'"
proof (induction share ls i k rule: pseudo_lines.induct)
  case (1 share ls i k)
  show ?case
  proof (cases "length ls \<le> i \<or> KLYRIC_MAX_WORDS - 1 \<le> k_count k \<or> LYRIC_MAX_LINES \<le> k_line_count k")
    case True
    with "1.prems" show ?thesis by (subst (asm) pseudo_lines.simps) simp
  next
    case False
    have eq: "pseudo_lines share ls i k = (if snd (ls ! i) = [] then pseudo_lines share ls (i + 1) k
        else case pseudo_line share ls i k of None \<Rightarrow> None | Some k1 \<Rightarrow> pseudo_lines share ls (i + 1) k1)"
      using False by (subst pseudo_lines.simps) simp
    show ?thesis
    proof (cases "snd (ls ! i) = []")
      case True
      with 1 False eq show ?thesis by simp
    next
      case ne: False
      with eq "1.prems"(1) obtain k1 where k1: "pseudo_line share ls i k = Some k1" "pseudo_lines share ls (i + 1) k1 = Some k'"
        by (auto split: option.splits)
      have "klyric_ok k1" using klyric_ok_pseudo_line [OF k1(1) "1.prems"(2)] False by simp
      with "1.IH"(2) [OF False ne k1] show ?thesis .
    qed
  qed
qed

lemma klyric_ok_pseudo: "generate_pseudo_klyric share ls k = Some k' \<Longrightarrow> klyric_ok k \<Longrightarrow> klyric_ok k'"
  by (auto simp: generate_pseudo_klyric_def split: if_splits intro: klyric_ok_pseudo_lines)

subsection \<open>Estimated words follow the characters\<close>

definition word_ok :: "klyric \<Rightarrow> nat \<Rightarrow> bool" where
  \<comment> \<open>a positive time below 3 hours\<close>
  "word_ok k i \<longleftrightarrow> 0 \<le> k_start k ! i \<and> k_start k ! i < k_end k ! i \<and> k_end k ! i \<le> 2 ^ 30 \<and> k_end k ! i - k_start k ! i \<le> 10000000"

definition in_order :: "klyric \<Rightarrow> nat \<Rightarrow> nat \<Rightarrow> bool" where
  \<comment> \<open>the words \<open>a\<close> to \<open>e - 1\<close> follow one another\<close>
  "in_order k a e \<longleftrightarrow> list_all (word_ok k) [a..<e] \<and> list_all (\<lambda>i. k_end k ! i \<le> k_start k ! (i + 1)) [a..<e - 1]"

definition same_lines :: "klyric \<Rightarrow> klyric \<Rightarrow> bool" where
  "same_lines k k' \<longleftrightarrow> k_line_first k' = k_line_first k \<and> k_line_time k' = k_line_time k \<and> k_line_count k' = k_line_count k \<and> k_map k' = k_map k"

definition same_words :: "klyric \<Rightarrow> klyric \<Rightarrow> nat \<Rightarrow> bool" where
  "same_words k k' n \<longleftrightarrow> take n (k_start k') = take n (k_start k) \<and> take n (k_end k') = take n (k_end k)"

lemma s32_id: "0 \<le> i \<Longrightarrow> i \<le> 2 ^ 30 \<Longrightarrow> s32 i = i"
  by (rule s32_small) simp_all

lemma same_words_nth: "same_words k k' n \<Longrightarrow> i < n \<Longrightarrow> k_start k' ! i = k_start k ! i \<and> k_end k' ! i = k_end k ! i"
  unfolding same_words_def by (metis nth_take)

lemma same_words_trans:
  assumes "same_words k k' n" and "same_words k' k'' m" and "n \<le> m"
  shows "same_words k k'' n"
proof -
  have t: "take n xs = take n (take m xs)" for xs :: "int list" using assms(3) by simp
  show ?thesis using assms(1,2) unfolding same_words_def t [of "k_start k''"] t [of "k_end k''"] using assms(3) by (simp add: min_absorb1)
qed

lemma same_lines_trans: "same_lines k k' \<Longrightarrow> same_lines k' k'' \<Longrightarrow> same_lines k k''"
  by (simp add: same_lines_def)

lemma add_word_same: "same_lines k (add_word s e k)" "same_words k (add_word s e k) (k_count k)"
  by (simp_all add: same_lines_def same_words_def add_word_def)

lemma total_sung_step:
  assumes "total_sung p = Some m" and "p \<noteq> []"
  obtains n where "fst (lyric_is_sung_char p) \<le> length p" "total_sung (drop (fst (lyric_is_sung_char p)) p) = Some n"
    "m = n + (if snd (lyric_is_sung_char p) then 1 else 0)"
proof -
  have "total_sung p = (if p = [] then Some 0
      else if length p < fst (lyric_is_sung_char p) then None
      else map_option (\<lambda>n. n + (if snd (lyric_is_sung_char p) then 1 else 0)) (total_sung (drop (fst (lyric_is_sung_char p)) p)))"
    by (rule total_sung.simps)
  with assms have "\<not> length p < fst (lyric_is_sung_char p)"
    and "map_option (\<lambda>n. n + (if snd (lyric_is_sung_char p) then 1 else 0)) (total_sung (drop (fst (lyric_is_sung_char p)) p)) = Some m"
    by (simp_all only: if_False option.distinct simp_thms split: if_splits)
  then show thesis using that by (cases "total_sung (drop (fst (lyric_is_sung_char p)) p)") (simp_all only: option.map option.distinct option.inject not_less simp_thms)
qed

lemma in_order_Cons:
  "a + 1 < e \<Longrightarrow> word_ok k a \<Longrightarrow> k_end k ! a \<le> k_start k ! (a + 1) \<Longrightarrow> in_order k (a + 1) e \<Longrightarrow> in_order k a e"
  by (simp add: in_order_def upt_conv_Cons)

lemma pseudo_words_add:
  assumes "total_sung p = Some m" and "k_count k + m \<le> KLYRIC_MAX_WORDS - 1" and "klyric_ok k"
    and "0 \<le> t" and "t + int (length p) * 10000000 \<le> 2 ^ 30" and "\<And>part. dur part \<le> 10000000"
  shows "\<exists>k'. pseudo_words dur p t k = Some k' \<and> k_count k' = k_count k + m \<and> same_lines k k' \<and> same_words k k' (k_count k)
    \<and> in_order k' (k_count k) (k_count k') \<and> (0 < m \<longrightarrow> t \<le> k_start k' ! k_count k)"
  using assms
proof (induction dur p t k arbitrary: m rule: pseudo_words.induct)
  case (1 dur p t k)
  show ?case
  proof (cases "p = [] \<or> KLYRIC_MAX_WORDS - 1 \<le> k_count k")
    case True
    with "1.prems"(1,2) have "m = 0" by (auto simp: total_sung.simps [of "[]"])
    moreover from True have "pseudo_words dur p t k = Some k" by (subst pseudo_words.simps) simp
    ultimately show ?thesis by (auto simp: same_lines_def same_words_def in_order_def)
  next
    case False
    define b sung where "b = fst (lyric_is_sung_char p)" and "sung = snd (lyric_is_sung_char p)"
    have ne: "p \<noteq> []" using False by simp
    obtain n where b: "b \<le> length p" and n: "total_sung (drop b p) = Some n" "m = n + (if sung then 1 else 0)"
      by (rule total_sung_step [OF "1.prems"(1) ne]) (simp only: b_def sung_def)
    have b0: "0 < b" unfolding b_def by (rule lyric_bytes_pos)
    have less: "\<not> length p < fst (lyric_is_sung_char p)" using b by (simp add: b_def)
    have shorter: "t + 10000000 + int (length (drop b p)) * 10000000 \<le> 2 ^ 30"
    proof -
      have "int (length (drop b p)) * 10000000 \<le> (int (length p) - 1) * 10000000" using b b0 by (intro mult_right_mono) auto
      then show ?thesis using "1.prems"(5) by (simp add: left_diff_distrib)
    qed
    have big: "0 \<le> int (length (drop b p)) * 10000000" by simp
    show ?thesis
    proof (cases sung)
      case F: False
      define t' where "t' = t + min 300 (max 30 (dur Pause))"
      have "t \<le> t'" "t' \<le> t + 300" by (simp_all add: t'_def)
      then have t': "0 \<le> t'" "t' + int (length (drop b p)) * 10000000 \<le> 2 ^ 30" "t' \<le> 2 ^ 30" "t \<le> t'"
        using "1.prems"(4) shorter big by linarith+
      note IH = "1.IH"(1) [OF False less F [unfolded sung_def], folded b_def t'_def, unfolded s32_id [OF t'(1,3)], OF n(1) _ "1.prems"(3) t'(1,2) "1.prems"(6)]
      have "pseudo_words dur p t k = pseudo_words dur (drop b p) t' k"
        using False less F s32_id [OF t'(1,3)] by (subst pseudo_words.simps) (simp add: b_def sung_def t'_def)
      with IH "1.prems"(2) n(2) F t'(4) show ?thesis by auto
    next
      case T: True
      define d where "d = max 50 (dur (if 2 \<le> b then Full else Half))"
      have d: "50 \<le> d" "d \<le> 10000000" using "1.prems"(6) by (simp_all add: d_def)
      have t': "0 \<le> t + d" "t + d + int (length (drop b p)) * 10000000 \<le> 2 ^ 30" "t + d \<le> 2 ^ 30"
        using "1.prems"(4) shorter big d by linarith+
      define k1 where "k1 = add_word t (t + d) k"
      have lt: "k_count k < KLYRIC_MAX_WORDS" using False by linarith
      have k1: "klyric_ok k1" "k_count k1 = k_count k + 1" using "1.prems"(3) lt by (auto simp: k1_def)
      have ns: "\<not> \<not> snd (lyric_is_sung_char p)" using T by (simp add: sung_def)
      have "k_count k1 + n \<le> KLYRIC_MAX_WORDS - 1" using "1.prems"(2) n(2) T by (simp add: k1)
      from "1.IH"(2) [OF False less ns refl, folded b_def, folded d_def, unfolded s32_id [OF t'(1,3)], folded k1_def, OF n(1) this k1(1) t'(1,2) "1.prems"(6)]
      obtain k' where k': "pseudo_words dur (drop b p) (t + d) k1 = Some k'" "k_count k' = k_count k1 + n" "same_lines k1 k'"
        "same_words k1 k' (k_count k1)" "in_order k' (k_count k1) (k_count k')" "0 < n \<longrightarrow> t + d \<le> k_start k' ! k_count k1" by blast
      have "pseudo_words dur p t k = Some k'"
        using False less ns k'(1) s32_id [OF t'(1,3)] by (subst pseudo_words.simps) (simp add: b_def [symmetric] d_def [symmetric] k1_def Let_def)
      moreover have "k_start k' ! k_count k = t" "k_end k' ! k_count k = t + d"
        using same_words_nth [OF k'(4), of "k_count k"] "1.prems"(3) lt by (auto simp: k1_def add_word_def klyric_ok_def)
      moreover have w: "same_words k k' (k_count k)"
        using same_words_trans [OF add_word_same(2) k'(4) [unfolded k1_def]] by simp
      moreover have "same_lines k k'" using same_lines_trans [OF add_word_same(1) k'(3) [unfolded k1_def]] .
      moreover have "in_order k' (k_count k) (k_count k')"
      proof (cases "n = 0")
        case True
        with calculation "1.prems"(4) d t'(3) k'(2) k1(2) show ?thesis by (simp add: in_order_def word_ok_def)
      next
        case N: False
        with calculation "1.prems"(4) d t'(3) k'(2,5,6) k1(2) show ?thesis by - (rule in_order_Cons, simp_all add: word_ok_def)
      qed
      ultimately show ?thesis using n(2) T k'(2) k1(2) by auto
    qed
  qed
qed

definition words_of_line :: "klyric \<Rightarrow> nat \<Rightarrow> int \<times> nat" where
  \<comment> \<open>when a line starts and how many words it has\<close>
  "words_of_line k j = (k_line_time k ! j, snd (word_range k j) - fst (word_range k j))"

definition words_in_order :: "klyric \<Rightarrow> bool" where
  "words_in_order k \<longleftrightarrow> list_all (\<lambda>j. in_order k (fst (word_range k j)) (snd (word_range k j))) [0..<k_line_count k]"

lemma line_first_le: "klyric_ok k \<Longrightarrow> j < k_line_count k \<Longrightarrow> k_line_first k ! j \<le> k_count k"
proof -
  assume a: "klyric_ok k" "j < k_line_count k"
  then have "take (k_line_count k) (k_line_first k) ! j \<in> set (take (k_line_count k) (k_line_first k))"
    by (intro nth_mem) (simp add: klyric_ok_def)
  with a show ?thesis by (auto simp: klyric_ok_def list_all_iff)
qed

lemma word_range_le: "klyric_ok k \<Longrightarrow> j < k_line_count k \<Longrightarrow> snd (word_range k j) \<le> k_count k"
  using line_first_le [of k "j + 1"] by (simp add: word_range_def)

lemma word_range_sorted: "klyric_ok k \<Longrightarrow> j < k_line_count k \<Longrightarrow> fst (word_range k j) \<le> snd (word_range k j)"
proof -
  assume a: "klyric_ok k" "j < k_line_count k"
  have s: "sorted (take (k_line_count k) (k_line_first k))" and l: "k_line_count k \<le> length (k_line_first k)" using a(1) by (simp_all add: klyric_ok_def)
  have "k_line_first k ! j \<le> k_line_first k ! (j + 1)" if "j + 1 < k_line_count k"
    using sorted_nth_mono [OF s, of j "j + 1"] that l by simp
  then show ?thesis using line_first_le [OF a] by (simp add: word_range_def)
qed

lemma in_order_same: "same_words k k' n \<Longrightarrow> e \<le> n \<Longrightarrow> in_order k a e \<Longrightarrow> in_order k' a e"
  using same_words_nth [of k k' n] by (auto simp: in_order_def word_ok_def list_all_iff)

definition line_added :: "klyric \<Rightarrow> klyric \<Rightarrow> int \<Rightarrow> nat \<Rightarrow> bool" where
  \<comment> \<open>a line of \<open>m\<close> words at time \<open>t\<close> is new\<close>
  "line_added k k' t m \<longleftrightarrow> k_count k' = k_count k + m \<and> k_line_count k' = k_line_count k + 1
     \<and> k_line_first k' = (k_line_first k)[k_line_count k := k_count k] \<and> k_line_time k' = (k_line_time k)[k_line_count k := t]
     \<and> same_words k k' (k_count k) \<and> in_order k' (k_count k) (k_count k')"

lemma range_added:
  assumes "line_added k k' t m" and "klyric_ok k" and "k_line_count k < LYRIC_MAX_LINES"
  shows "j < k_line_count k \<Longrightarrow> word_range k' j = word_range k j \<and> k_line_time k' ! j = k_line_time k ! j"
    and "word_range k' (k_line_count k) = (k_count k, k_count k + m) \<and> k_line_time k' ! k_line_count k = t"
  using assms by (auto simp: line_added_def word_range_def klyric_ok_def nth_list_update)

lemma words_added:
  assumes "line_added k k' t m" and "klyric_ok k" and "k_line_count k < LYRIC_MAX_LINES"
  shows "map (words_of_line k') [0..<k_line_count k'] = map (words_of_line k) [0..<k_line_count k] @ [(t, m)]"
    and "words_in_order k \<Longrightarrow> words_in_order k'"
proof -
  note r = range_added [OF assms]
  have n: "k_line_count k' = k_line_count k + 1" and sw: "same_words k k' (k_count k)" and new: "in_order k' (k_count k) (k_count k + m)"
    using assms(1) by (auto simp: line_added_def)
  show "map (words_of_line k') [0..<k_line_count k'] = map (words_of_line k) [0..<k_line_count k] @ [(t, m)]"
    using r by (simp add: n words_of_line_def)
  assume "words_in_order k"
  then have "in_order k' (fst (word_range k' j)) (snd (word_range k' j))" if "j < k_line_count k" for j
    using that r(1) [OF that] in_order_same [OF sw word_range_le [OF assms(2) that]] by (auto simp: words_in_order_def list_all_iff)
  then show "words_in_order k'" using r(2) new by (simp add: words_in_order_def list_all_iff n less_Suc_eq)
qed

definition share_ok :: "(int \<Rightarrow> nat \<Rightarrow> part \<Rightarrow> int) \<Rightarrow> bool" where
  \<comment> \<open>a part of the time per unit of weight, of at least one unit, is not more than the whole time\<close>
  "share_ok share \<longleftrightarrow> (\<forall>d n part. 0 < d \<longrightarrow> d < 2 ^ 24 \<longrightarrow> 2 \<le> n \<longrightarrow> share d n part \<le> d)"

definition line_fits :: "lyric_line_t \<Rightarrow> bool" where
  "line_fits l \<longleftrightarrow> 0 \<le> fst l \<and> fst l < 10000000 \<and> length (snd l) < LYRIC_TEXT_LEN \<and> total_sung (snd l) \<noteq> None"

definition sung :: "lyric_line_t \<Rightarrow> nat" where
  "sung l = the (total_sung (snd l))"

lemma whole_text:
  "total_sung p = Some m \<Longrightarrow> (\<exists>n. sung_weight p = Some n) \<and> (\<exists>n\<le>length p. count_chars p = Some n)"
proof (induction "length p" arbitrary: p m rule: less_induct)
  case less
  show ?case
  proof (cases "p = []")
    case True
    then show ?thesis by (simp add: sung_weight.simps count_chars.simps)
  next
    case False
    define b where "b = fst (lyric_is_sung_char p)"
    obtain n where b: "b \<le> length p" and n: "total_sung (drop b p) = Some n"
      by (rule total_sung_step [OF less.prems False]) (simp only: b_def)
    have b0: "0 < b" unfolding b_def by (rule lyric_bytes_pos)
    then have s: "length (drop b p) < length p" using False by simp
    have fb: "fst (lyric_char_bytes (hd p)) = b"
      using False by (simp add: b_def lyric_is_sung_char_def Let_def c_at_def hd_conv_nth split: prod.splits)
    from less.hyps [OF s n] obtain x y where "sung_weight (drop b p) = Some x" "count_chars (drop b p) = Some y" "y \<le> length (drop b p)" by blast
    moreover have "sung_weight p = map_option (\<lambda>n. n + sung_weight_step p) (sung_weight (drop b p))"
      using False b by (subst sung_weight.simps) (simp add: b_def [symmetric])
    moreover have "count_chars p = map_option Suc (count_chars (drop b p))"
      using False b by (subst count_chars.simps) (simp add: fb)
    ultimately show ?thesis using b b0 by auto
  qed
qed

lemma pseudo_line_add:
  assumes "share_ok share" and "i < length ls" and "list_all line_fits ls" and "klyric_ok k"
    and "k_count k + sung (ls ! i) \<le> KLYRIC_MAX_WORDS - 1" and "k_line_count k < LYRIC_MAX_LINES"
  shows "\<exists>k'. pseudo_line share ls i k = Some k' \<and> line_added k k' (fst (ls ! i)) (sung (ls ! i))"
proof -
  define t x where "t = fst (ls ! i)" and "x = snd (ls ! i)"
  have f: "line_fits (ls ! i)" using assms(2,3) by (simp add: list_all_length)
  then obtain m where m: "total_sung x = Some m" "sung (ls ! i) = m" by (auto simp: line_fits_def x_def sung_def)
  have t: "0 \<le> t" "t < 10000000" "length x < 64" using f by (simp_all add: line_fits_def t_def x_def LYRIC_TEXT_LEN_def)
  obtain n c where n: "sung_weight x = Some n" and c: "count_chars x = Some c" using whole_text [OF m(1)] by blast
  obtain e where e: "line_end ls i = Some e" "0 \<le> e" "e < 10008001"
  proof (cases "i + 1 < length ls")
    case True
    then have "line_fits (ls ! (i + 1))" using assms(3) by (simp add: list_all_length)
    with True that show thesis by (auto simp: line_end_def line_fits_def)
  next
    case False
    have "s32 (t + min 8000 (max 2000 (int c * 320))) = t + min 8000 (max 2000 (int c * 320))" using t by (intro s32_id) auto
    with False that [of "t + min 8000 (max 2000 (int c * 320))"] t c show thesis by (auto simp: line_end_def t_def x_def)
  qed
  define d where "d = (if s32 (e - t) \<le> 0 then 3000 else s32 (e - t))"
  have "s32 (e - t) = e - t" using e t by (intro s32_small) auto
  then have d: "0 < d" "d \<le> 10008000" using e t by (auto simp: d_def)
  have d2: "d \<le> 10000000"
  proof (cases "i + 1 < length ls")
    case True
    then have "line_fits (ls ! (i + 1))" using assms(3) by (simp add: list_all_length)
    then have "e < 10000000" using True e(1) by (auto simp: line_end_def line_fits_def)
    with \<open>s32 (e - t) = e - t\<close> t show ?thesis by (simp add: d_def)
  next
    case False
    have "s32 (t + min 8000 (max 2000 (int c * 320))) = t + min 8000 (max 2000 (int c * 320))" using t by (intro s32_id) auto
    then have "e \<le> t + 8000" using False e(1) c by (auto simp: line_end_def t_def x_def)
    with \<open>s32 (e - t) = e - t\<close> show ?thesis by (simp add: d_def)
  qed
  have sh: "share d (max 2 n) part \<le> 10000000" for part
    using assms(1) d(1) d2 unfolding share_ok_def by (rule_tac order_trans [of _ d]) auto
  have ok: "klyric_ok (add_line t k)" using assms(4,6) by auto
  have lim: "t + int (length x) * 10000000 \<le> 2 ^ 30" using t by simp
  obtain k' where k': "pseudo_words (share d (max 2 n)) x t (add_line t k) = Some k'" "k_count k' = k_count (add_line t k) + m"
    "same_lines (add_line t k) k'" "same_words (add_line t k) k' (k_count (add_line t k))"
    "in_order k' (k_count (add_line t k)) (k_count k')"
    using pseudo_words_add [OF m(1) _ ok t(1) lim, of "share d (max 2 n)"] assms(5) sh m(2) by auto
  have "pseudo_line share ls i k = Some k'"
    using k'(1) by (simp add: pseudo_line_def e(1) n x_def [symmetric] t_def [symmetric] d_def Let_def)
  moreover have "line_added k k' t m"
    using k'(2-5) by (simp add: line_added_def same_lines_def same_words_def add_line_def)
  ultimately show ?thesis using m(2) by (auto simp: t_def)
qed

lemma pseudo_lines_add:
  assumes "share_ok share" and "list_all line_fits ls" and "klyric_ok k" and "words_in_order k"
    and "k_count k + sum_list (map sung (drop i ls)) < KLYRIC_MAX_WORDS - 1" and "k_line_count k + length ls \<le> LYRIC_MAX_LINES + i"
  shows "\<exists>k'. pseudo_lines share ls i k = Some k' \<and> klyric_ok k' \<and> words_in_order k'
    \<and> map (words_of_line k') [0..<k_line_count k'] = map (words_of_line k) [0..<k_line_count k]
        @ map (\<lambda>l. (fst l, sung l)) (filter (\<lambda>l. snd l \<noteq> []) (drop i ls))"
  using assms
proof (induction share ls i k rule: pseudo_lines.induct)
  case (1 share ls i k)
  show ?case
  proof (cases "length ls \<le> i")
    case True
    with "1.prems" show ?thesis by (subst pseudo_lines.simps) simp
  next
    case False
    then have d: "drop i ls = ls ! i # drop (i + 1) ls" by (simp add: Cons_nth_drop_Suc)
    have go: "\<not> (length ls \<le> i \<or> KLYRIC_MAX_WORDS - 1 \<le> k_count k \<or> LYRIC_MAX_LINES \<le> k_line_count k)"
      using False "1.prems"(5,6) by auto
    show ?thesis
    proof (cases "snd (ls ! i) = []")
      case True
      have s: "sung (ls ! i) = 0" by (simp add: sung_def True total_sung.simps)
      have "pseudo_lines share ls i k = pseudo_lines share ls (i + 1) k" using go True by (subst pseudo_lines.simps) simp
      with "1.IH"(1) [OF go True "1.prems"(1-4)] "1.prems"(5,6) d s True show ?thesis by simp
    next
      case ne: False
      have a: "k_count k + sung (ls ! i) \<le> KLYRIC_MAX_WORDS - 1" "k_line_count k < LYRIC_MAX_LINES"
        using "1.prems"(5,6) False by (simp_all add: d)
      from pseudo_line_add [OF "1.prems"(1) _ "1.prems"(2,3) a] False obtain k1
        where k1: "pseudo_line share ls i k = Some k1" "line_added k k1 (fst (ls ! i)) (sung (ls ! i))" by auto
      note w = words_added [OF k1(2) "1.prems"(3) a(2)]
      have ok: "klyric_ok k1" by (rule klyric_ok_pseudo_line [OF k1(1) "1.prems"(3) a(2)])
      have c: "k_count k1 = k_count k + sung (ls ! i)" "k_line_count k1 = k_line_count k + 1" using k1(2) by (simp_all add: line_added_def)
      have room: "k_count k1 + sum_list (map sung (drop (i + 1) ls)) < KLYRIC_MAX_WORDS - 1" "k_line_count k1 + length ls \<le> LYRIC_MAX_LINES + (i + 1)"
        using "1.prems"(5,6) by (simp_all add: c d)
      have "pseudo_lines share ls i k = pseudo_lines share ls (i + 1) k1" using go ne k1(1) by (subst pseudo_lines.simps) simp
      with "1.IH"(2) [OF go ne k1(1) "1.prems"(1,2) ok w(2) [OF "1.prems"(4)] room] w(1) d ne show ?thesis by simp
    qed
  qed
qed

text \<open>Without word times from the net, the times are estimated: for texts of whole characters
  every line gets as many words as it has characters that are sung, at its own time, each word has
  a positive duration and ends before the next one of its line starts, and no array is left.\<close>

theorem pseudo_words_match:
  assumes "share_ok share" and "list_all line_fits ls" and "2 \<le> length ls" and "length ls \<le> LYRIC_MAX_LINES"
    and "klyric_ok k" and "k_count k = 0" and "sum_list (map sung ls) < 1535"
  shows "\<exists>k'. generate_pseudo_klyric share ls k = Some k' \<and> klyric_ok k' \<and> words_in_order k'
    \<and> map (words_of_line k') [0..<k_line_count k'] = map (\<lambda>l. (fst l, sung l)) (filter (\<lambda>l. snd l \<noteq> []) ls)"
proof -
  let ?k = "k \<lparr> k_count := 0, k_line_count := 0 \<rparr>"
  have "klyric_ok ?k" "words_in_order ?k" using assms(5) by (auto simp: words_in_order_def)
  from pseudo_lines_add [OF assms(1,2) this, of 0] assms(3-7) show ?thesis
    by (simp add: generate_pseudo_klyric_def KLYRIC_MAX_WORDS_def)
qed

definition no_klyric :: klyric where
  "no_klyric = \<lparr> k_start = replicate 1536 0, k_end = replicate 1536 0, k_count = 0, k_line_first = replicate 128 0,
     k_line_time = replicate 128 0, k_line_count = 0, k_map = replicate 128 (-1) \<rparr>"

lemma klyric_ok_none: "klyric_ok no_klyric"
  by (simp add: klyric_ok_def no_klyric_def KLYRIC_MAX_WORDS_def LYRIC_MAX_LINES_def)

definition plain_share :: "int \<Rightarrow> nat \<Rightarrow> part \<Rightarrow> int" where
  "plain_share d n part = (case part of Full \<Rightarrow> 2 * d div int n | Half \<Rightarrow> d div int n | Pause \<Rightarrow> 6 * d div (10 * int n))"

lemma share_ok_plain: "share_ok plain_share"
proof -
  have "plain_share d n part \<le> d" if "0 < d" "2 \<le> n" for d n part
  proof -
    have n: "2 \<le> int n" "0 < int n" using that by simp_all
    have "2 * d \<le> int n * d" "d \<le> int n * d" using that by simp_all
    then have "2 * d div int n \<le> d" "d div int n \<le> d" using n zdiv_mono1 [of "2 * d" "int n * d" "int n"] zdiv_mono1 [of d "int n * d" "int n"] by simp_all
    moreover have "6 * d div (10 * int n) \<le> d"
      using n that zdiv_mono1 [of "6 * d" "(10 * int n) * d" "10 * int n"] by (simp add: mult_mono)
    ultimately show ?thesis by (simp add: plain_share_def split: part.split)
  qed
  then show ?thesis by (simp add: share_ok_def)
qed

lemma pseudo_words_match_witness:
  "\<exists>k'. generate_pseudo_klyric plain_share [(1000, str ''Hi, you''), (3000, [0xE4, 0xBD, 0xA0, 0xE5, 0xA5, 0xBD])] no_klyric = Some k'
    \<and> map (words_of_line k') [0..<k_line_count k'] = [(1000, 5), (3000, 2)]"
proof -
  let ?ls = "[(1000, str ''Hi, you''), (3000, [0xE4, 0xBD, 0xA0, 0xE5, 0xA5, 0xBD])]"
  have t: "total_sung (str ''Hi, you'') = Some 5" "total_sung [0xE4, 0xBD, 0xA0, 0xE5, 0xA5, 0xBD] = Some 2"
    by (simp_all add: total_sung.simps lyric_is_sung_char_def lyric_char_bytes_def c_at_def str_simps Let_def)
  have ne: "str ''Hi, you'' \<noteq> []" by (simp add: str_simps)
  have "list_all line_fits ?ls" by (simp add: line_fits_def t LYRIC_TEXT_LEN_def)
  from pseudo_words_match [OF share_ok_plain this _ _ klyric_ok_none] show ?thesis
    by (auto simp: sung_def t ne LYRIC_MAX_LINES_def no_klyric_def)
qed

subsection \<open>The mapping finds the line\<close>

definition times_ok :: "klyric \<Rightarrow> bool" where
  \<comment> \<open>different times, in order, below 12 days\<close>
  "times_ok k \<longleftrightarrow> sorted_wrt (<) (take (k_line_count k) (k_line_time k))
     \<and> list_all (\<lambda>t. 0 \<le> t \<and> t < 2 ^ 30) (take (k_line_count k) (k_line_time k)) \<and> k_line_count k \<le> length (k_line_time k)"

lemma dist_abs: "0 \<le> a \<Longrightarrow> a < 2 ^ 30 \<Longrightarrow> 0 \<le> b \<Longrightarrow> b < 2 ^ 30 \<Longrightarrow> dist a b = \<bar>a - b\<bar>"
proof -
  assume "0 \<le> a" "a < 2 ^ 30" "0 \<le> b" "b < 2 ^ 30"
  then have "s32 (a - b) = a - b" "s32 \<bar>a - b\<bar> = \<bar>a - b\<bar>" by (auto intro!: s32_small)
  then show ?thesis by (simp add: dist_def)
qed

lemma times_nth:
  assumes "times_ok k" and "j < k_line_count k"
  shows "0 \<le> k_line_time k ! j \<and> k_line_time k ! j < 2 ^ 30" and "i < j \<Longrightarrow> k_line_time k ! i < k_line_time k ! j"
proof -
  have l: "j < length (take (k_line_count k) (k_line_time k))" using assms by (simp add: times_ok_def)
  with assms show "0 \<le> k_line_time k ! j \<and> k_line_time k ! j < 2 ^ 30"
    by (auto simp: times_ok_def list_all_length)
  assume "i < j"
  with sorted_wrt_nth_less [of "(<)" "take (k_line_count k) (k_line_time k)" i j] l assms
  show "k_line_time k ! i < k_line_time k ! j" by (simp add: times_ok_def)
qed

lemma nearer_spec:
  assumes "times_ok k" and "0 \<le> t" and "t < 2 ^ 30" and "ki < k_line_count k"
  shows "ki \<le> nearer k t ki \<and> nearer k t ki < k_line_count k
    \<and> (\<forall>j. ki \<le> j \<and> j < k_line_count k \<longrightarrow> dist (k_line_time k ! nearer k t ki) t \<le> dist (k_line_time k ! j) t)"
  using assms
proof (induction k t ki rule: nearer.induct)
  case (1 k t ki)
  note T = times_nth [OF "1.prems"(1)]
  have d: "dist (k_line_time k ! j) t = \<bar>k_line_time k ! j - t\<bar>" if "j < k_line_count k" for j
    using T(1) [OF that] "1.prems"(2,3) by (intro dist_abs) auto
  show ?case
  proof (cases "ki + 1 < k_line_count k \<and> dist (k_line_time k ! (ki + 1)) t < dist (k_line_time k ! ki) t")
    case True
    have "nearer k t ki = nearer k t (ki + 1)" using True by (subst nearer.simps) simp
    moreover have "dist (k_line_time k ! nearer k t (ki + 1)) t \<le> dist (k_line_time k ! ki) t"
      using "1.IH" [OF True "1.prems"(1-3)] True by (meson le_refl less_imp_le order_trans)
    ultimately show ?thesis using "1.IH" [OF True "1.prems"(1-3)] True
      by (metis Suc_eq_plus1 Suc_leD Suc_leI le_neq_implies_less)
  next
    case False
    have "nearer k t ki = ki" by (subst nearer.simps) (simp only: False if_False)
    moreover have "dist (k_line_time k ! ki) t \<le> dist (k_line_time k ! j) t" if j: "ki \<le> j" "j < k_line_count k" for j
    proof (cases "j = ki")
      case ne: False
      then have n: "ki + 1 < k_line_count k" "ki + 1 \<le> j" using j by auto
      with False have "\<bar>k_line_time k ! ki - t\<bar> \<le> \<bar>k_line_time k ! (ki + 1) - t\<bar>" using d "1.prems"(4) by fastforce
      moreover have "k_line_time k ! ki < k_line_time k ! (ki + 1)" using T(2) [OF n(1), of ki] by simp
      moreover have "k_line_time k ! (ki + 1) \<le> k_line_time k ! j" using T(2) [OF j(2), of "ki + 1"] n(2) by (cases "j = ki + 1") auto
      ultimately have "\<bar>k_line_time k ! ki - t\<bar> \<le> \<bar>k_line_time k ! j - t\<bar>" by linarith
      then show ?thesis using d [OF j(2)] d [OF "1.prems"(4)] by simp
    qed simp
    ultimately show ?thesis using "1.prems"(4) by simp
  qed
qed

lemma best_before_spec:
  assumes "b = (i, dist (k_line_time k ! i) t)" and "i < k_line_count k" and "n \<le> k_line_count k"
  shows "\<exists>j<k_line_count k. best_before k t n b = (j, dist (k_line_time k ! j) t)
    \<and> dist (k_line_time k ! j) t \<le> snd b \<and> (\<forall>m<n. dist (k_line_time k ! j) t \<le> dist (k_line_time k ! m) t)"
  using assms
proof (induction n arbitrary: b i)
  case 0
  then show ?case by auto
next
  case (Suc n)
  define b' where "b' = (if dist (k_line_time k ! n) t < snd b then (n, dist (k_line_time k ! n) t) else b)"
  define i' where "i' = (if dist (k_line_time k ! n) t < snd b then n else i)"
  have b': "b' = (i', dist (k_line_time k ! i') t)" "i' < k_line_count k" using Suc.prems by (simp_all add: b'_def i'_def)
  from Suc.IH [OF b'] Suc.prems(3) obtain j where j: "j < k_line_count k" "best_before k t n b' = (j, dist (k_line_time k ! j) t)"
    "dist (k_line_time k ! j) t \<le> snd b'" "\<forall>m<n. dist (k_line_time k ! j) t \<le> dist (k_line_time k ! m) t" by auto
  have "snd b' \<le> snd b" "snd b' \<le> dist (k_line_time k ! n) t" by (auto simp: b'_def)
  then have "dist (k_line_time k ! j) t \<le> snd b" "dist (k_line_time k ! j) t \<le> dist (k_line_time k ! n) t" using j(3) by simp_all
  moreover have "best_before k t (Suc n) b = best_before k t n b'" by (simp add: b'_def Let_def)
  ultimately show ?case using j by (auto simp: less_Suc_eq)
qed

lemma line_for_spec:
  assumes "times_ok k" and "0 \<le> t" and "t < 2 ^ 30" and "ki < k_line_count k"
  shows "line_for k t ki < k_line_count k
    \<and> (dist (k_line_time k ! line_for k t ki) t \<le> 100 \<longleftrightarrow> (\<exists>j<k_line_count k. dist (k_line_time k ! j) t \<le> 100))"
proof -
  define n where "n = nearer k t ki"
  note N = nearer_spec [OF assms, folded n_def]
  show ?thesis
  proof (cases "0 < n \<and> 100 < dist (k_line_time k ! n) t")
    case True
    obtain j where j: "j < k_line_count k" "best_before k t n (n, dist (k_line_time k ! n) t) = (j, dist (k_line_time k ! j) t)"
      "\<forall>m<n. dist (k_line_time k ! j) t \<le> dist (k_line_time k ! m) t"
      using best_before_spec [of "(n, dist (k_line_time k ! n) t)" n k t n] N by auto
    have lf: "line_for k t ki = (if dist (k_line_time k ! j) t \<le> 100 then j else n)"
      using True j(2) by (simp add: line_for_def n_def [symmetric] Let_def)
    have "dist (k_line_time k ! j) t \<le> 100" if m: "m < k_line_count k" "dist (k_line_time k ! m) t \<le> 100" for m
    proof (cases "m < n")
      case True
      with j(3) m(2) show ?thesis by (meson order_trans)
    next
      case False
      then have "dist (k_line_time k ! n) t \<le> dist (k_line_time k ! m) t" using N m(1) by simp
      with True m(2) show ?thesis by simp
    qed
    with lf j(1) N True show ?thesis by auto
  next
    case False
    have lf: "line_for k t ki = n" using False by (simp only: line_for_def n_def [symmetric] Let_def if_False)
    have "dist (k_line_time k ! n) t \<le> 100" if m: "m < k_line_count k" "dist (k_line_time k ! m) t \<le> 100" for m
    proof (cases "n = 0")
      case True
      then show ?thesis using N m by (metis le0 le_zero_eq order_trans)
    next
      case nz: False
      with False show ?thesis by simp
    qed
    with lf N show ?thesis by auto
  qed
qed

definition maps_to :: "klyric \<Rightarrow> int \<Rightarrow> int \<Rightarrow> bool" where
  \<comment> \<open>\<open>v\<close> is a line within 100 ms of \<open>t\<close>, or -1 when there is none\<close>
  "maps_to k t v \<longleftrightarrow>
     (if list_ex (\<lambda>j. dist (k_line_time k ! j) t \<le> 100) [0..<k_line_count k]
      then 0 \<le> v \<and> v < int (k_line_count k) \<and> dist (k_line_time k ! nat v) t \<le> 100 else v = -1)"

lemma map_lines_spec:
  assumes "times_ok k" and "list_all (\<lambda>l. 0 \<le> fst l \<and> fst l < 2 ^ 30) ls" and "ki < k_line_count k"
    and "length m = n" and "li + length ls \<le> n" and "\<forall>i. li \<le> i \<longrightarrow> i < n \<longrightarrow> m ! i = -1"
  shows "length (map_lines k ls li ki m) = n \<and> (\<forall>i<li. map_lines k ls li ki m ! i = m ! i)
    \<and> (\<forall>i<length ls. maps_to k (fst (ls ! i)) (map_lines k ls li ki m ! (li + i)))"
  using assms
proof (induction ls arbitrary: li ki m)
  case Nil
  then show ?case by simp
next
  case (Cons l ls)
  define k1 where "k1 = line_for k (fst l) ki"
  have s: "k1 < k_line_count k" "dist (k_line_time k ! k1) (fst l) \<le> 100 \<longleftrightarrow> (\<exists>j<k_line_count k. dist (k_line_time k ! j) (fst l) \<le> 100)"
    using line_for_spec [OF Cons.prems(1) _ _ Cons.prems(3), of "fst l"] Cons.prems(2) by (simp_all add: k1_def)
  define m1 where "m1 = (if dist (k_line_time k ! k1) (fst l) \<le> 100 then m[li := int k1] else m)"
  have eq: "map_lines k (l # ls) li ki m = map_lines k ls (li + 1) k1 m1"
    using s(1) by (simp add: k1_def [symmetric] m1_def Let_def)
  have m1: "length m1 = n" "\<forall>i. li + 1 \<le> i \<longrightarrow> i < n \<longrightarrow> m1 ! i = -1" "\<forall>i<li. m1 ! i = m ! i"
    "m1 ! li = (if dist (k_line_time k ! k1) (fst l) \<le> 100 then int k1 else -1)"
    using Cons.prems(4-6) by (auto simp: m1_def)
  have "list_all (\<lambda>l. 0 \<le> fst l \<and> fst l < 2 ^ 30) ls" "li + 1 + length ls \<le> n" using Cons.prems(2,5) by simp_all
  note IH = Cons.IH [OF Cons.prems(1) this(1) s(1) m1(1) this(2) m1(2)]
  have "maps_to k (fst l) (m1 ! li)" using s by (auto simp: maps_to_def m1(4) list_ex_iff)
  moreover have "map_lines k ls (li + 1) k1 m1 ! li = m1 ! li" using IH by simp
  ultimately have "maps_to k (fst ((l # ls) ! i)) (map_lines k ls (li + 1) k1 m1 ! (li + i))" if "i < length (l # ls)" for i
    using that IH by (cases i) auto
  with IH m1(3) show ?case unfolding eq by auto
qed

text \<open>When the lines with words have different times in order, the mapping finds for every line
  of the lyrics a line with words within 100 ms if there is one, and only then.\<close>

theorem map_klyric_finds:
  assumes "times_ok k" and "list_all (\<lambda>l. 0 \<le> fst l \<and> fst l < 2 ^ 30) ls" and "length ls \<le> LYRIC_MAX_LINES" and "i < length ls"
  shows "maps_to k (fst (ls ! i)) (k_map (map_klyric ls k) ! i)"
proof (cases "0 < k_line_count k")
  case True
  have "ls \<noteq> []" using assms(4) by auto
  with True show ?thesis
    using map_lines_spec [OF assms(1,2) True, of "replicate LYRIC_MAX_LINES (-1)" LYRIC_MAX_LINES 0] assms(3,4)
    by (simp add: map_klyric_def Let_def)
next
  case False
  with assms(3,4) show ?thesis by (simp add: map_klyric_def maps_to_def Let_def)
qed

definition two_lines :: klyric where
  "two_lines = add_line 5000 (add_line 1000 no_klyric)"

lemma map_klyric_finds_witness:
  "maps_to two_lines 4950 (k_map (map_klyric [(1000, []), (3000, []), (4950, [])] two_lines) ! 2)
    \<and> dist (k_line_time two_lines ! 1) 4950 \<le> 100"
proof -
  have k: "k_line_count two_lines = 2" "take 2 (k_line_time two_lines) = [1000, 5000]" "length (k_line_time two_lines) = 128"
    by (simp_all add: two_lines_def add_line_def no_klyric_def numeral_eq_Suc)
  then have "times_ok two_lines" by (simp add: times_ok_def)
  moreover have "k_line_time two_lines ! 1 = 5000" using k(2) by (metis nth_Cons_0 nth_Cons_Suc nth_take One_nat_def one_less_numeral_iff semiring_norm(76))
  ultimately show ?thesis
    using map_klyric_finds [of two_lines "[(1000, []), (3000, []), (4950, [])]" 2] by (simp add: LYRIC_MAX_LINES_def dist_abs)
qed

text \<open>With two equal times the search does not get past the first of them: the line at 5 s stays
  without words although one starts there.\<close>

lemma equal_times_stick:
  "k_map (map_klyric [(5000, str ''one'')] (add_line 5000 (add_line 0 (add_line 0 no_klyric)))) ! 0 = -1"
proof -
  define k where "k = add_line 5000 (add_line 0 (add_line 0 no_klyric))"
  have k: "k_line_count k = 3" "k_line_time k ! 0 = 0" "k_line_time k ! Suc 0 = 0"
    by (simp_all add: k_def add_line_def no_klyric_def)
  have "nearer k 5000 0 = 0" by (subst nearer.simps) (simp add: k)
  then have "line_for k 5000 0 = 0" by (simp add: line_for_def)
  then show ?thesis unfolding k_def [symmetric] by (simp add: map_klyric_def k dist_abs LYRIC_MAX_LINES_def)
qed

subsection \<open>The progress never goes back\<close>

lemma first_unsung_spec:
  assumes "0 \<le> a" and sorted: "\<And>i j. a \<le> i \<Longrightarrow> i \<le> j \<Longrightarrow> j < n \<Longrightarrow> ends ! nat i \<le> ends ! nat j"
    and "a \<le> lo" "lo \<le> hi + 1" "hi < n" "\<And>i. a \<le> i \<Longrightarrow> i < lo \<Longrightarrow> ends ! nat i \<le> pos"
    "\<And>i. hi < i \<Longrightarrow> i < n \<Longrightarrow> pos < ends ! nat i" "found = (if hi + 1 < n then hi + 1 else -1)"
  shows "\<exists>m. a \<le> m \<and> m \<le> n \<and> first_unsung ends pos lo hi found = (if m < n then m else -1)
    \<and> (\<forall>i. a \<le> i \<and> i < m \<longrightarrow> ends ! nat i \<le> pos) \<and> (\<forall>i. m \<le> i \<and> i < n \<longrightarrow> pos < ends ! nat i)"
  using assms(2-)
proof (induction ends pos lo hi found rule: first_unsung.induct)
  case (1 ends pos lo hi found)
  show ?case
  proof (cases "hi < lo")
    case True
    have "first_unsung ends pos lo hi found = found" using True by (subst first_unsung.simps) simp
    then show ?thesis using "1.prems"(2-7) True by (intro exI [of _ lo]) auto
  next
    case False
    define mid where "mid = (lo + hi) div 2"
    have mid: "lo \<le> mid" "mid \<le> hi" using False by (auto simp: mid_def)
    show ?thesis
    proof (cases "ends ! nat mid \<le> pos")
      case True
      have eq: "first_unsung ends pos lo hi found = first_unsung ends pos (mid + 1) hi found"
        using False True by (subst first_unsung.simps) (simp add: mid_def [symmetric] Let_def)
      have below: "ends ! nat i \<le> pos" if "a \<le> i" "i < mid + 1" for i
        using "1.prems"(1) [of i mid] True that mid "1.prems"(4) by simp
      show ?thesis unfolding eq
        by (rule "1.IH"(1) [OF False mid_def True "1.prems"(1)]) (use "1.prems"(2-7) mid below in auto)
    next
      case gt: False
      have eq: "first_unsung ends pos lo hi found = first_unsung ends pos lo (mid - 1) mid"
        using False gt by (subst first_unsung.simps) (simp add: mid_def [symmetric] Let_def)
      have above: "pos < ends ! nat i" if "mid - 1 < i" "i < n" for i
        using "1.prems"(1) [of mid i] gt that mid "1.prems"(2) by simp
      show ?thesis unfolding eq
        by (rule "1.IH"(2) [OF False mid_def gt "1.prems"(1)]) (use "1.prems"(2-7) mid above in auto)
    qed
  qed
qed

lemma in_order_ends:
  assumes "in_order k a e" and "a \<le> i" and "i \<le> j" and "j < e"
  shows "k_end k ! i \<le> k_end k ! j"
  using assms(3,4)
proof (induction j rule: dec_induct)
  case base
  show ?case by simp
next
  case (step j)
  have "k_end k ! j \<le> k_start k ! (j + 1)" "word_ok k (j + 1)"
    using assms(1,2) step by (auto simp: in_order_def list_all_iff)
  then have "k_end k ! j \<le> k_end k ! Suc j" by (simp add: word_ok_def)
  with step show ?case by simp
qed

lemma div_range:
  fixes idx n sub :: int
  assumes "0 \<le> idx" and "idx < n" and "0 \<le> sub" and "sub \<le> 100"
  shows "idx * 100 div n \<le> (idx * 100 + sub) div n" and "(idx * 100 + sub) div n \<le> (idx + 1) * 100 div n"
    and "(idx * 100 + sub) div n \<le> 100"
proof -
  have n: "0 < n" using assms by simp
  show "idx * 100 div n \<le> (idx * 100 + sub) div n" "(idx * 100 + sub) div n \<le> (idx + 1) * 100 div n"
    using assms n by (auto intro!: zdiv_mono1)
  have "(idx * 100 + sub) div n \<le> (n * 100) div n" using assms n by (intro zdiv_mono1) auto
  then show "(idx * 100 + sub) div n \<le> 100" using n by simp
qed

definition sub_progress :: "klyric \<Rightarrow> int \<Rightarrow> nat \<Rightarrow> int" where
  "sub_progress k pos i = (if pos < k_start k ! i then 0 else (pos - k_start k ! i) * 100 div (k_end k ! i - k_start k ! i))"

lemma sub_progress_range: "word_ok k i \<Longrightarrow> pos < k_end k ! i \<Longrightarrow> 0 \<le> sub_progress k pos i \<and> sub_progress k pos i \<le> 100"
proof -
  assume w: "word_ok k i" "pos < k_end k ! i"
  define s d where "s = k_start k ! i" and "d = k_end k ! i - k_start k ! i"
  have d: "0 < d" "pos - s < d" using w by (simp_all add: word_ok_def s_def d_def)
  have "(pos - s) * 100 div d \<le> d * 100 div d" using d by (intro zdiv_mono1) auto
  then have "(pos - s) * 100 div d \<le> 100" using d by simp
  moreover have "0 \<le> (pos - s) * 100 div d" if "\<not> pos < s" using that d by (simp add: pos_imp_zdiv_nonneg_iff)
  ultimately show ?thesis by (simp add: sub_progress_def s_def d_def)
qed

lemma sub_progress_mono: "word_ok k i \<Longrightarrow> pos \<le> pos' \<Longrightarrow> pos' < k_end k ! i \<Longrightarrow> sub_progress k pos i \<le> sub_progress k pos' i"
  using sub_progress_range [of k i pos'] by (auto simp: sub_progress_def word_ok_def intro!: zdiv_mono1)

lemma word_progress_eq:
  assumes "word_ok k i" and "pos < k_end k ! i" and "a \<le> i" and "int i - int a < n"
  shows "word_progress k pos a n (int i) = ((int i - int a) * 100 + sub_progress k pos i) div n"
proof -
  define s d where "s = k_start k ! i" and "d = k_end k ! i - k_start k ! i"
  have w: "0 \<le> s" "0 < d" "d \<le> 10000000" "pos - s < d" using assms(1,2) by (simp_all add: word_ok_def s_def d_def)
  have e: "s32 (k_end k ! i - s) = d" using w by (simp add: s_def d_def s32_small)
  show ?thesis
  proof (cases "pos < s")
    case True
    with assms(3) show ?thesis by (auto simp: word_progress_def Let_def sub_progress_def s_def)
  next
    case False
    have "s32 ((pos - s) * 100) = (pos - s) * 100" using False w by (intro s32_small) auto
    moreover have "0 \<le> (pos - s) * 100" using False by simp
    moreover have "0 \<le> sub_progress k pos i \<and> sub_progress k pos i \<le> 100" by (rule sub_progress_range [OF assms(1,2)])
    ultimately show ?thesis
      using False w(2) e assms(3) by (auto simp: word_progress_def Let_def sub_progress_def tdiv_def s_def d_def)
  qed
qed

lemma word_progress_mono:
  assumes "in_order k a e" and "a < e" and "pos \<le> pos'"
  defines "f \<equiv> \<lambda>p. first_unsung (k_end k) p (int a) (int e - 1) (-1)"
  shows "min 100 (word_progress k pos a (int e - int a) (f pos)) \<le> min 100 (word_progress k pos' a (int e - int a) (f pos'))"
proof -
  define n where "n = int e - int a"
  have ex: "\<exists>m. int a \<le> m \<and> m \<le> int e \<and> f p = (if m < int e then m else -1)
      \<and> (\<forall>i. int a \<le> i \<and> i < m \<longrightarrow> k_end k ! nat i \<le> p) \<and> (\<forall>i. m \<le> i \<and> i < int e \<longrightarrow> p < k_end k ! nat i)" for p
    unfolding f_def by (rule first_unsung_spec) (use assms(2) in_order_ends [OF assms(1)] in \<open>auto simp: nat_less_iff le_nat_iff\<close>)
  from ex [of pos] obtain m where m: "int a \<le> m" "m \<le> int e" "f pos = (if m < int e then m else -1)"
    "\<And>i. m \<le> i \<Longrightarrow> i < int e \<Longrightarrow> pos < k_end k ! nat i" "\<And>i. int a \<le> i \<Longrightarrow> i < m \<Longrightarrow> k_end k ! nat i \<le> pos" by blast
  from ex [of pos'] obtain m' where m': "int a \<le> m'" "m' \<le> int e" "f pos' = (if m' < int e then m' else -1)"
    "\<And>i. m' \<le> i \<Longrightarrow> i < int e \<Longrightarrow> pos' < k_end k ! nat i" by blast
  have le: "m \<le> m'"
  proof (rule ccontr)
    assume "\<not> m \<le> m'"
    then have "k_end k ! nat m' \<le> pos" "pos' < k_end k ! nat m'" using m(2,5) m'(1,4) by auto
    with assms(3) show False by simp
  qed
  show ?thesis
  proof (cases "m' < int e")
    case False
    then have "word_progress k pos' a n (f pos') = 100" by (simp add: m'(3) word_progress_def)
    then show ?thesis by (simp add: n_def)
  next
    case True
    define i i' where "i = nat m" and "i' = nat m'"
    have i: "m = int i" "a \<le> i" "i < e" "m' = int i'" "i \<le> i'" "i' < e" using m(1) m'(1) le True by (auto simp: i_def i'_def)
    have w: "word_ok k i" "word_ok k i'" using assms(1) i by (auto simp: in_order_def list_all_iff)
    have p: "pos < k_end k ! i" "pos' < k_end k ! i'" using m(4) [of m] m'(4) [of m'] i by auto
    have idx: "0 \<le> int i - int a" "int i - int a < n" "int i' - int a < n" using i by (auto simp: n_def)
    have W: "word_progress k pos a n (f pos) = ((int i - int a) * 100 + sub_progress k pos i) div n"
      "word_progress k pos' a n (f pos') = ((int i' - int a) * 100 + sub_progress k pos' i') div n"
      using word_progress_eq [OF w(1) p(1) i(2) idx(2)] word_progress_eq [OF w(2) p(2) _ idx(3)] m(3) m'(3) i by simp_all
    have "((int i - int a) * 100 + sub_progress k pos i) div n \<le> ((int i' - int a) * 100 + sub_progress k pos' i') div n"
    proof (cases "i = i'")
      case True
      then show ?thesis using sub_progress_mono [OF w(1) assms(3)] p(2) idx by (intro zdiv_mono1) auto
    next
      case False
      then have "(int i - int a + 1) * 100 \<le> (int i' - int a) * 100" using i(5) by simp
      then have "((int i - int a) * 100 + sub_progress k pos i) \<le> (int i' - int a) * 100 + sub_progress k pos' i'"
        using sub_progress_range [OF w(1) p(1), THEN conjunct2] sub_progress_range [OF w(2) p(2), THEN conjunct1] by (simp add: algebra_simps)
      then show ?thesis using idx by (intro zdiv_mono1) auto
    qed
    with W show ?thesis by (simp add: n_def)
  qed
qed

text \<open>While the song plays on, the progress shown for a line never goes back, and it is between
  0 and 100, or -1 throughout when the line has no words.\<close>

theorem karaoke_progress_mono:
  assumes "klyric_ok k" and "words_in_order k" and "pos \<le> pos'"
  shows "lyrics_get_karaoke_progress k t pos \<le> lyrics_get_karaoke_progress k t pos'
    \<and> (lyrics_get_karaoke_progress k t pos = -1 \<longleftrightarrow> lyrics_get_karaoke_progress k t pos' = -1)
    \<and> -1 \<le> lyrics_get_karaoke_progress k t pos \<and> lyrics_get_karaoke_progress k t pos \<le> 100"
proof (cases "k_line_count k = 0 \<or> k_count k = 0")
  case True
  then show ?thesis by (auto simp: lyrics_get_karaoke_progress_def)
next
  case False
  define kl where "kl = foldl (\<lambda>r i. if k_line_time k ! i \<le> s32 (t + 50) then int i else r) (-1) [0..<k_line_count k]"
  show ?thesis
  proof (cases "kl < 0 \<or> 100 < dist (k_line_time k ! nat kl) t \<or> fst (word_range k (nat kl)) = snd (word_range k (nat kl))")
    case True
    then have "lyrics_get_karaoke_progress k t p = -1" for p
      by (auto simp: lyrics_get_karaoke_progress_def kl_def [symmetric] Let_def split: prod.splits)
    then show ?thesis by simp
  next
    case F: False
    obtain a e where r: "word_range k (nat kl) = (a, e)" by fastforce
    have "kl < int (k_line_count k)"
    proof -
      have "foldl (\<lambda>r i. if P i then int i else r) (-1) [0..<n] < int n" for P and n :: nat
        by (induction n) (auto intro: less_trans)
      then show ?thesis by (simp add: kl_def)
    qed
    then have "nat kl < k_line_count k" using F by auto
    then have "in_order k (fst (word_range k (nat kl))) (snd (word_range k (nat kl)))" "fst (word_range k (nat kl)) \<le> snd (word_range k (nat kl))"
      using assms(2) word_range_sorted [OF assms(1)] by (simp_all add: words_in_order_def list_all_iff)
    then have "in_order k a e" "a \<le> e" by (simp_all add: r)
    moreover have "a \<noteq> e" using F r by simp
    ultimately have "in_order k a e" "a < e" by simp_all
    note m = word_progress_mono [OF this assms(3)]
    have P: "lyrics_get_karaoke_progress k t p = max 0 (min 100 (word_progress k p a (int e - int a) (first_unsung (k_end k) p (int a) (int e - 1) (-1))))" for p
      using False F r by (auto simp: lyrics_get_karaoke_progress_def kl_def [symmetric] Let_def)
    show ?thesis unfolding P using m by auto
  qed
qed

definition sung_line :: klyric where
  "sung_line = add_word 3000 4000 (add_word 1000 2000 (add_line 1000 no_klyric))"

lemma sung_line_ok: "klyric_ok sung_line" "words_in_order sung_line"
proof -
  show "klyric_ok sung_line" unfolding sung_line_def
    by (intro klyric_ok_word klyric_ok_line klyric_ok_none) (simp_all add: no_klyric_def KLYRIC_MAX_WORDS_def LYRIC_MAX_LINES_def)
  have r: "word_range sung_line 0 = (0, 2)" "k_line_count sung_line = 1"
    by (simp_all add: sung_line_def word_range_def add_line_def no_klyric_def)
  have s: "k_start sung_line ! 0 = 1000" "k_end sung_line ! 0 = 2000" "k_start sung_line ! Suc 0 = 3000" "k_end sung_line ! Suc 0 = 4000"
    by (simp_all add: sung_line_def add_word_def add_line_def no_klyric_def)
  show "words_in_order sung_line"
    by (simp add: words_in_order_def r in_order_def word_ok_def s upt_conv_Cons numeral_2_eq_2)
qed

lemma karaoke_progress_mono_witness:
  "lyrics_get_karaoke_progress sung_line 1000 1500 = 25 \<and> lyrics_get_karaoke_progress sung_line 1000 1500 \<le> lyrics_get_karaoke_progress sung_line 1000 2500"
proof -
  have r: "word_range sung_line 0 = (0, 2)" "k_line_count sung_line = 1" "k_count sung_line = 2" "k_line_time sung_line ! 0 = 1000"
    by (simp_all add: sung_line_def word_range_def add_line_def no_klyric_def add_word_def)
  have s: "k_start sung_line ! 0 = 1000" "k_end sung_line ! 0 = 2000" "k_end sung_line ! 1 = 4000"
    by (simp_all add: sung_line_def add_word_def add_line_def no_klyric_def)
  have f: "first_unsung (k_end sung_line) 1500 0 1 (-1) = 0"
    by (subst first_unsung.simps, subst first_unsung.simps) (simp add: s)
  have "lyrics_get_karaoke_progress sung_line 1000 1500 = 25"
    by (simp add: lyrics_get_karaoke_progress_def r s f word_progress_def tdiv_def s32_small dist_abs)
  then show ?thesis using karaoke_progress_mono [OF sung_line_ok, of 1500 2500 1000] by simp
qed

subsection \<open>The highlighted text\<close>

lemma after_chars_spec:
  assumes "total_sung p = Some m" and "n \<le> m"
  shows "\<exists>q r. p = q @ r \<and> after_chars n p = Some r \<and> total_sung q = Some n"
  using assms
proof (induction "length p" arbitrary: p m n rule: less_induct)
  case less
  show ?case
  proof (cases "p = [] \<or> n = 0")
    case True
    have "after_chars n p = Some p" using True by (subst after_chars.simps) simp
    moreover have "n = 0" using True less.prems by (auto simp: total_sung.simps [of "[]"])
    ultimately show ?thesis by (intro exI [of _ "[]"] exI [of _ p]) (simp add: total_sung.simps)
  next
    case False
    define b s where "b = fst (lyric_is_sung_char p)" and "s = snd (lyric_is_sung_char p)"
    have ne: "p \<noteq> []" using False by simp
    obtain x where b: "b \<le> length p" and x: "total_sung (drop b p) = Some x" "m = x + (if s then 1 else 0)"
      by (rule total_sung_step [OF less.prems(1) ne]) (simp only: b_def s_def)
    have b0: "0 < b" unfolding b_def by (rule lyric_bytes_pos)
    define n' where "n' = (if s then n - 1 else n)"
    have "n' \<le> x" using x(2) less.prems(2) by (auto simp: n'_def)
    have "length (drop b p) < length p" using b0 ne by simp
    from less.hyps [OF this x(1) \<open>n' \<le> x\<close>] obtain q r where q: "drop b p = q @ r" "after_chars n' (drop b p) = Some r" "total_sung q = Some n'" by blast
    have "after_chars n p = after_chars n' (drop b p)"
      using False b by (subst after_chars.simps) (simp add: b_def [symmetric] s_def [symmetric] n'_def)
    moreover have "p = (take b p @ q) @ r" using q(1) by (metis append.assoc append_take_drop_id)
    moreover have "total_sung (take b p @ q) = Some n"
    proof -
      have c: "c_at (take b p @ q) i = c_at p i" if "i < b" for i
        using that b by (simp add: c_at_def nth_append)
      have "lyric_is_sung_char (take b p @ q) = lyric_is_sung_char p"
      proof -
        have z: "c_at (take b p @ q) 0 = c_at p 0" using b0 by (rule c)
        have "b = fst (lyric_char_bytes (c_at p 0))" by (simp add: b_def lyric_is_sung_char_def Let_def split: prod.splits)
        then consider "fst (lyric_char_bytes (c_at p 0)) \<noteq> 3" | "b = 3" by fastforce
        then show ?thesis
        proof cases
          case 1
          then show ?thesis by (auto simp: lyric_is_sung_char_def z Let_def split: prod.splits)
        next
          case 2
          then show ?thesis using c [of 1] c [of 2] z by (simp add: lyric_is_sung_char_def)
        qed
      qed
      moreover have "take b p @ q \<noteq> []" using b0 ne by (cases p) auto
      ultimately show ?thesis
        using b q(3) False by (subst total_sung.simps) (auto simp: b_def [symmetric] s_def [symmetric] n'_def)
    qed
    ultimately show ?thesis using q(2) by metis
  qed
qed

text \<open>For a text of whole characters the highlighted part is a prefix of the text that contains
  as many sung characters as words of the line have started, all of them at most: the count never
  runs past the text, and the display is not asked to cut it elsewhere.\<close>

theorem karaoke_highlight:
  assumes "total_sung tx = Some m"
  shows "\<exists>i. lyrics_get_karaoke_byte_idx k li tx pos = Some i \<and>
    (i = -1 \<or> (\<exists>n\<le>length tx. i = int n \<and>
      total_sung (take n tx) = Some (min m (case word_range k (nat (k_map k ! nat li)) of (a, e) \<Rightarrow> sung_words k pos a e))))"
proof -
  obtain a e where r: "word_range k (nat (k_map k ! nat li)) = (a, e)" by fastforce
  obtain q rr where q: "tx = q @ rr" "after_chars (min m (sung_words k pos a e)) tx = Some rr" "total_sung q = Some (min m (sung_words k pos a e))"
    using after_chars_spec [OF assms, of "min m (sung_words k pos a e)"] by auto
  have n: "length q \<le> length tx" "take (length q) tx = q" "int (length tx) - int (length rr) = int (length q)" by (simp_all add: q(1))
  show ?thesis
    using q(2,3) n by (auto simp: lyrics_get_karaoke_byte_idx_def Let_def r assms intro!: exI [of _ "length q"])
qed

lemma karaoke_highlight_witness:
  "\<exists>i. lyrics_get_karaoke_byte_idx (sung_line \<lparr> k_map := 0 # replicate 127 (-1) \<rparr>) 0 (str ''a-b'') 2500 = Some i
    \<and> (i = -1 \<or> (\<exists>n\<le>length (str ''a-b''). i = int n \<and> total_sung (take n (str ''a-b'')) = Some 1))"
proof -
  have t: "total_sung (str ''a-b'') = Some 2"
    by (simp add: total_sung.simps lyric_is_sung_char_def lyric_char_bytes_def c_at_def str_simps Let_def)
  have r: "word_range (sung_line \<lparr> k_map := 0 # replicate 127 (-1) \<rparr>) 0 = (0, 2)"
    "sung_words (sung_line \<lparr> k_map := 0 # replicate 127 (-1) \<rparr>) 2500 0 2 = 1"
    by (simp_all add: sung_line_def word_range_def add_line_def no_klyric_def add_word_def sung_words_def upt_conv_Cons numeral_2_eq_2)
  show ?thesis
    using karaoke_highlight [OF t, of "sung_line \<lparr> k_map := 0 # replicate 127 (-1) \<rparr>" 0 2500] by (simp add: r)
qed

lemma current_line_last:
  "lyrics_get_current_line ls pos = (case filter (\<lambda>i. fst (ls ! i) \<le> pos) [0..<length ls] of [] \<Rightarrow> -1 | is \<Rightarrow> int (last is))"
proof -
  have "foldl (\<lambda>r i. if P i then int i else r) x is = (if filter P is = [] then x else int (last (filter P is)))" for P x "is"
    by (induction "is" arbitrary: x) auto
  then show ?thesis by (simp add: lyrics_get_current_line_def split: list.split)
qed

text \<open>A text that a line of 63 bytes cuts inside a character makes the loops step over its NUL.\<close>

lemma cut_character_overruns:
  "total_sung (str ''la '' @ [0xE4, 0xBD]) = None"
  by (simp add: total_sung.simps lyric_is_sung_char_def lyric_char_bytes_def c_at_def str_simps Let_def)

subsection \<open>No operation leaves the arrays\<close>

lemma klyric_ok_map: "klyric_ok k \<Longrightarrow> klyric_ok (map_klyric ls k)"
proof -
  have "length (map_lines k ls li ki m) = length m" for li ki m
    by (induction k ls li ki m rule: map_lines.induct) (simp_all add: Let_def)
  then show "klyric_ok k \<Longrightarrow> klyric_ok (map_klyric ls k)" by (simp add: klyric_ok_def map_klyric_def Let_def)
qed



end
