(* ===== verification/Lyrics.thy ===== *)
theory Lyrics
  imports SongSearch Karaoke
begin

text \<open>
  Fetching the lyrics of a song (\<open>lyrics_fetch.c\<close>: \<open>search_song\<close>, \<open>extract_json_field\<close>,
  \<open>fetch_lrc\<close>, \<open>fetch_lrc_qq\<close>, \<open>fetch_lrc_kuwo\<close>, \<open>apply_lrc\<close>, \<open>fetch_task\<close>,
  \<open>lyrics_fetch_async\<close>, \<open>lyrics_clear\<close>). \<open>answers\<close> is what a task finds outside while it works: the
  responses to its requests, and memory and arithmetic. A request that succeeds has a response
  that is a C string.

  \<open>lyr\<close> holds the static variables; the mutex is taken for each operation on them, so an
  operation is one step, and between two steps any other task may run. \<open>s_fetch_gen\<close> counts the
  requests and is a number without bound here: it wraps after 2^32 of them.
\<close>

subsection \<open>Requests and answers\<close>

record request =
  rq_url :: "byte list"
  rq_post :: "byte list"
  rq_referer :: "byte list"
  rq_buf :: nat
  rq_try :: nat

record answers =
  http :: "request \<Rightarrow> byte list option"
  a_alloc :: bool
  a_grow :: "nat \<Rightarrow> bool"
  a_behind :: "nat \<Rightarrow> jsmntok_t"
  a_b64 :: "byte list \<Rightarrow> byte list option"
  a_ms :: "byte list \<Rightarrow> int"
  a_share :: "int \<Rightarrow> nat \<Rightarrow> part \<Rightarrow> int"

definition HTTP_SEARCH_BUF :: nat where "HTTP_SEARCH_BUF = 16384"
definition HTTP_FALLBACK_SEARCH_BUF :: nat where "HTTP_FALLBACK_SEARCH_BUF = 16384"

definition get :: "byte list \<Rightarrow> nat \<Rightarrow> string \<Rightarrow> request" where
  "get url buf referer = \<lparr> rq_url = url, rq_post = [], rq_referer = str referer, rq_buf = buf, rq_try = 0 \<rparr>"

definition encoded_keyword :: "byte list \<Rightarrow> byte list \<Rightarrow> byte list" where
  "encoded_keyword title artist = url_encode (search_keyword title artist) 256"

definition search_post :: "byte list \<Rightarrow> byte list \<Rightarrow> byte list" where
  "search_post title artist = copy_text 320 (str ''s='' @ encoded_keyword title artist @ str ''&type=1&limit=8&offset=0'')"

definition search_song :: "answers \<Rightarrow> byte list \<Rightarrow> byte list \<Rightarrow> u32" where
  "search_song a title artist =
     (let post = search_post title artist;
          rq = \<lambda>url. \<lparr> rq_url = str url, rq_post = post, rq_referer = str ''https://music.163.com'', rq_buf = HTTP_SEARCH_BUF, rq_try = 0 \<rparr>;
          best = search_parse_best (a_alloc a) (a_behind a);
          id = (case http a (rq ''http://music.163.com/api/search/get'') of None \<Rightarrow> 0 | Some resp \<Rightarrow> best resp (clean_title title))
      in if id \<noteq> 0 then id
         else case http a (rq ''https://music.163.com/api/cloudsearch/pc'') of None \<Rightarrow> 0 | Some resp \<Rightarrow> best resp (clean_title title))"

definition extract_json_field :: "answers \<Rightarrow> byte list \<Rightarrow> jsmntok_t list \<Rightarrow> string \<Rightarrow> string \<Rightarrow> byte list option" where
  "extract_json_field a resp ts obj_key field_key =
     (case json_find_key resp ts 0 (str obj_key) of
        None \<Rightarrow> None
      | Some idx \<Rightarrow>
          (case json_find_key resp ts idx (str field_key) of
             None \<Rightarrow> None
           | Some fld \<Rightarrow>
               let t = tok_at (a_behind a) ts fld in
               if tk_end t - tk_start t \<le> 0 \<or> \<not> a_alloc a then None
               else Some (cstr (json_unescape (tok_text resp t)))))"

fun take_klyric :: "byte list option list \<Rightarrow> klyric \<Rightarrow> klyric" where
  \<comment> \<open>the texts found under \<open>klyric_keys\<close>, until one has words\<close>
  "take_klyric [] k = k"
| "take_klyric (t # tx) k =
     (case t of
        None \<Rightarrow> take_klyric tx k
      | Some s \<Rightarrow>
          if 10 < length s then (let k1 = parse_klyric s k in if 0 < k_count k1 then k1 else take_klyric tx k1)
          else take_klyric tx k)"

definition lyric_url :: "u32 \<Rightarrow> byte list" where
  "lyric_url song_id = copy_text 128 (str ''http://music.163.com/api/song/lyric?id='' @ fmt_dec (unat song_id) @ str ''&lv=-1&kv=-1&tv=-1&yv=-1'')"

definition fetch_lrc :: "answers \<Rightarrow> u32 \<Rightarrow> klyric \<Rightarrow> byte list option \<times> klyric" where
  "fetch_lrc a song_id k =
     (case http a (get (lyric_url song_id) HTTP_LYRIC_BUF ''https://music.163.com'') of
        None \<Rightarrow> (None, k)
      | Some resp \<Rightarrow>
          if \<not> a_alloc a then (None, k)
          else case jsmn_parse 4096 resp jsmn_init of
                 (Inl e, ps) \<Rightarrow> (None, k)
               | (Inr num, ps) \<Rightarrow>
                   (case extract_json_field a resp (tokens ps) ''lrc'' ''lyric'' of
                      None \<Rightarrow> (None, k)
                    | Some lrc \<Rightarrow> (Some lrc,
                        take_klyric (map (\<lambda>key. extract_json_field a resp (tokens ps) key ''lyric'') [''yrc'', ''klyric'', ''yrcxl'']) k)))"

definition qq_search :: "answers \<Rightarrow> byte list \<Rightarrow> byte list \<Rightarrow> byte list option" where
  \<comment> \<open>one retry\<close>
  "qq_search a title artist =
     (let rq = get (copy_text 512 (str ''https://c.y.qq.com/soso/fcgi-bin/client_search_cp?format=json&n=1&p=1&w='' @ encoded_keyword title artist))
            HTTP_FALLBACK_SEARCH_BUF ''https://y.qq.com''
      in case http a rq of Some resp \<Rightarrow> Some resp | None \<Rightarrow> http a (rq \<lparr> rq_try := 1 \<rparr>))"

definition qq_songmid :: "answers \<Rightarrow> byte list \<Rightarrow> byte list" where
  "qq_songmid a resp =
     (let m = json_extract_quoted (a_grow a) resp ''songmid'' 48 []
      in if m = [] then json_extract_quoted (a_grow a) resp ''mid'' 48 m else m)"

definition fetch_lrc_qq :: "answers \<Rightarrow> byte list \<Rightarrow> byte list \<Rightarrow> byte list option" where
  "fetch_lrc_qq a title artist =
     (case qq_search a title artist of
        None \<Rightarrow> None
      | Some resp \<Rightarrow>
          let mid = qq_songmid a resp in
          if mid = [] then None
          else case http a (get (copy_text 512 (str ''https://c.y.qq.com/lyric/fcgi-bin/fcg_query_lyric_new.fcg?songmid='' @ mid
                  @ str ''&format=json&nobase64=1&g_tk=5381&platform=yqq'')) HTTP_LYRIC_BUF ''https://y.qq.com'') of
                 None \<Rightarrow> None
               | Some resp2 \<Rightarrow>
                   (case index_of 123 resp2 of
                      None \<Rightarrow> None
                    | Some i \<Rightarrow> normalize_lyric_payload (a_b64 a) (a_alloc a)
                        (json_extract_string_alloc (a_grow a) (drop i resp2) ''lyric'')))"

definition kuwo_music_id :: "byte list \<Rightarrow> byte list" where
  "kuwo_music_id resp =
     (case find_sub (str ''MUSIC_'') resp of None \<Rightarrow> [] | Some i \<Rightarrow> take 23 (takeWhile is_digit (drop (i + 6) resp)))"

definition fetch_lrc_kuwo :: "answers \<Rightarrow> byte list \<Rightarrow> byte list \<Rightarrow> byte list option" where
  "fetch_lrc_kuwo a title artist =
     (case http a (get (copy_text 512 (str ''http://search.kuwo.cn/r.s?all='' @ encoded_keyword title artist
            @ str ''&ft=music&itemset=web_2013&client=kt&pn=0&rn=1&rformat=json&encoding=utf8'')) HTTP_FALLBACK_SEARCH_BUF ''http://www.kuwo.cn'') of
        None \<Rightarrow> None
      | Some resp \<Rightarrow>
          let id = kuwo_music_id resp in
          if id = [] then None
          else case http a (get (copy_text 512 (str ''http://m.kuwo.cn/newh5/singles/songinfoandlrc?musicId='' @ id)) HTTP_LYRIC_BUF ''http://m.kuwo.cn'') of
                 None \<Rightarrow> None
               | Some resp2 \<Rightarrow> kuwo_lrclist_to_lrc (a_ms a) (a_alloc a) resp2)"

subsection \<open>The shared state\<close>

record lyr =
  song_name :: "byte list"
  artist_name :: "byte list"
  known_song_id :: u32
  ly_lines :: "lyric_line_t list"
  ly_loaded :: bool
  ly_klyric :: klyric
  s_fetch_gen :: nat
  s_fetch_task :: bool \<comment> \<open>not NULL\<close>
  overrun :: bool \<comment> \<open>a text has been read past its end\<close>

definition clear_data :: "lyr \<Rightarrow> lyr" where
  "clear_data y = y \<lparr> song_name := [], artist_name := [], known_song_id := 0, ly_lines := [], ly_loaded := False,
     ly_klyric := reset_klyric (ly_klyric y), s_fetch_gen := s_fetch_gen y + 1 \<rparr>"

definition lyrics_clear :: "lyr \<Rightarrow> lyr" where
  "lyrics_clear y = clear_data y"

definition lyrics_fetch_async :: "byte list \<Rightarrow> byte list \<Rightarrow> u32 \<Rightarrow> lyr \<Rightarrow> bool \<times> lyr" where
  \<comment> \<open>the part under the mutex; the result says that a task must be created\<close>
  "lyrics_fetch_async title artist song_id y =
     (if ly_loaded y \<and> song_name y = title \<and> artist_name y = artist then (False, y)
      else (\<not> s_fetch_task y, (clear_data y) \<lparr> song_name := take 63 title, artist_name := take 63 artist, known_song_id := song_id \<rparr>))"

definition apply_lrc :: "(int \<Rightarrow> nat \<Rightarrow> part \<Rightarrow> int) \<Rightarrow> byte list option \<Rightarrow> nat \<Rightarrow> lyr \<Rightarrow> bool \<times> lyr" where
  "apply_lrc share lrc gen y =
     (case lrc of
        None \<Rightarrow> (False, y)
      | Some s \<Rightarrow>
          if \<not> lrc_usable s
          then (False, if gen = s_fetch_gen y then y \<lparr> ly_klyric := reset_klyric (ly_klyric y) \<rparr> else y)
          else if gen \<noteq> s_fetch_gen y then (False, y)
          else
            let ls = parse_lrc s; y1 = y \<lparr> ly_lines := ls, ly_loaded := (ls \<noteq> []) \<rparr> in
            if ls = [] then (False, y1 \<lparr> ly_klyric := reset_klyric (ly_klyric y) \<rparr>)
            else case generate_pseudo_klyric share ls (ly_klyric y) of
                   None \<Rightarrow> (True, y1 \<lparr> overrun := True \<rparr>)
                 | Some k \<Rightarrow> (True, y1 \<lparr> ly_klyric := map_klyric ls k \<rparr>))"

subsection \<open>The task\<close>

datatype point = Start | Known | KnownGot "byte list option" | Search | SearchGot u32 | SearchLrc "byte list option"
  | QQ | QQGot "byte list option" | Kuwo | KuwoGot "byte list option" | Leave

record job =
  j_title :: "byte list"
  j_artist :: "byte list"
  j_id :: u32
  j_gen :: nat
  j_at :: point

definition apply_or :: "answers \<Rightarrow> byte list option \<Rightarrow> point \<Rightarrow> job \<Rightarrow> lyr \<Rightarrow> job option \<times> lyr" where
  \<comment> \<open>the check of the generation, \<open>apply_lrc\<close>, and where to go on\<close>
  "apply_or a lrc otherwise j y =
     (if j_gen j \<noteq> s_fetch_gen y then (Some (j \<lparr> j_at := Start \<rparr>), y)
      else case apply_lrc (a_share a) lrc (j_gen j) y of (ok, y1) \<Rightarrow> (Some (j \<lparr> j_at := (if ok then Leave else otherwise) \<rparr>), y1))"

definition fetch_task :: "answers \<Rightarrow> job \<Rightarrow> lyr \<Rightarrow> job option \<times> lyr" where
  \<comment> \<open>to the next point where the task looks at the shared state; \<open>None\<close> when it ends\<close>
  "fetch_task a j y =
     (let stale = (j_gen j \<noteq> s_fetch_gen y); to = \<lambda>p. (Some (j \<lparr> j_at := p \<rparr>), y) in
      case j_at j of
        Start \<Rightarrow>
          (Some (j \<lparr> j_title := song_name y, j_artist := artist_name y, j_id := known_song_id y, j_gen := s_fetch_gen y,
              j_at := (if song_name y = [] then Leave else if known_song_id y \<noteq> 0 then Known else Search) \<rparr>),
           y \<lparr> ly_klyric := reset_klyric (ly_klyric y) \<rparr>)
      | Known \<Rightarrow> (case fetch_lrc a (j_id j) (ly_klyric y) of (lrc, k) \<Rightarrow> (Some (j \<lparr> j_at := KnownGot lrc \<rparr>), y \<lparr> ly_klyric := k \<rparr>))
      | KnownGot lrc \<Rightarrow> apply_or a lrc Search j y
      | Search \<Rightarrow> if stale then to Start else to (SearchGot (search_song a (j_title j) (j_artist j)))
      | SearchGot song_id \<Rightarrow>
          if stale then to Start
          else if song_id = 0 then to QQ
          else (case fetch_lrc a song_id (ly_klyric y) of (lrc, k) \<Rightarrow> (Some (j \<lparr> j_at := SearchLrc lrc \<rparr>), y \<lparr> ly_klyric := k \<rparr>))
      | SearchLrc lrc \<Rightarrow> apply_or a lrc QQ j y
      | QQ \<Rightarrow> if stale then to Start else to (QQGot (fetch_lrc_qq a (j_title j) (j_artist j)))
      | QQGot lrc \<Rightarrow> apply_or a lrc Kuwo j y
      | Kuwo \<Rightarrow> if stale then to Start else to (KuwoGot (fetch_lrc_kuwo a (j_title j) (j_artist j)))
      | KuwoGot lrc \<Rightarrow> apply_or a lrc Leave j y
      | Leave \<Rightarrow> if stale then to Start else (None, y \<lparr> s_fetch_task := False \<rparr>))"

subsection \<open>Everything together\<close>

record fetcher =
  f_lyr :: lyr
  jobs :: "job list"
  creating :: bool \<comment> \<open>a caller is between releasing the mutex and the end of \<open>lyrics_create_task\<close>\<close>
  waiting :: bool \<comment> \<open>a song has been asked for, and no task that saw this request has ended since then\<close>
  shown_for :: "byte list \<times> byte list" \<comment> \<open>the song whose lines were put in last\<close>

definition new_job :: job where
  "new_job = \<lparr> j_title = [], j_artist = [], j_id = 0, j_gen = 0, j_at = Start \<rparr>"

definition lyrics_init :: "klyric \<Rightarrow> fetcher" where
  "lyrics_init k = \<lparr> f_lyr = \<lparr> song_name = [], artist_name = [], known_song_id = 0, ly_lines = [], ly_loaded = False, ly_klyric = k,
     s_fetch_gen = 0, s_fetch_task = False, overrun = False \<rparr>, jobs = [], creating = False, waiting = False, shown_for = ([], []) \<rparr>"

definition ask :: "byte list \<Rightarrow> byte list \<Rightarrow> u32 \<Rightarrow> fetcher \<Rightarrow> fetcher" where
  "ask title artist song_id f =
     (case lyrics_fetch_async title artist song_id (f_lyr f) of (need, y) \<Rightarrow>
        f \<lparr> f_lyr := y, creating := need, waiting := (waiting f \<or> s_fetch_gen y \<noteq> s_fetch_gen (f_lyr f)) \<rparr>)"

definition lyrics_create_task :: "bool \<Rightarrow> bool \<Rightarrow> fetcher \<Rightarrow> fetcher" where
  \<comment> \<open>a task with its stack in PSRAM, or else in internal memory\<close>
  "lyrics_create_task psram_ok internal_ok f =
     (if psram_ok \<or> internal_ok
      then f \<lparr> f_lyr := (f_lyr f) \<lparr> s_fetch_task := True \<rparr>, jobs := jobs f @ [new_job], creating := False \<rparr>
      else f \<lparr> f_lyr := (f_lyr f) \<lparr> s_fetch_task := False \<rparr>, creating := False, waiting := False \<rparr>)"

definition job_step :: "answers \<Rightarrow> nat \<Rightarrow> fetcher \<Rightarrow> fetcher" where
  "job_step a i f =
     (let j = jobs f ! i in
      case fetch_task a j (f_lyr f) of
        (None, y) \<Rightarrow> f \<lparr> f_lyr := y, jobs := take i (jobs f) @ drop (i + 1) (jobs f),
          waiting := (waiting f \<and> j_gen j \<noteq> s_fetch_gen y) \<rparr>
      | (Some j', y) \<Rightarrow> f \<lparr> f_lyr := y, jobs := (jobs f)[i := j'],
          shown_for := (if ly_lines y \<noteq> ly_lines (f_lyr f) then (j_title j, j_artist j) else shown_for f) \<rparr>)"

text \<open>Callers of \<open>lyrics_fetch_async\<close> take turns; what they and the tasks do between two uses of the
  mutex may happen in any order.\<close>

inductive lyrics_step :: "fetcher \<Rightarrow> fetcher \<Rightarrow> bool" where
  Ask: "\<not> creating f \<Longrightarrow> lyrics_step f (ask title artist song_id f)"
| Create: "creating f \<Longrightarrow> lyrics_step f (lyrics_create_task psram_ok internal_ok f)"
| Clear: "lyrics_step f (f \<lparr> f_lyr := lyrics_clear (f_lyr f), waiting := False \<rparr>)"
| Work: "i < length (jobs f) \<Longrightarrow> lyrics_step f (job_step a i f)"

inductive lyrics_reachable :: "fetcher \<Rightarrow> bool" where
  Init: "klyric_ok k \<Longrightarrow> lyrics_reachable (lyrics_init k)"
| Step: "lyrics_reachable f \<Longrightarrow> lyrics_step f f' \<Longrightarrow> lyrics_reachable f'"

definition job_ok :: "lyr \<Rightarrow> job \<Rightarrow> bool" where
  \<comment> \<open>a task with the current generation works for the current song\<close>
  "job_ok y j \<longleftrightarrow> j_at j = Start \<or> (j_gen j \<le> s_fetch_gen y
     \<and> (j_gen j = s_fetch_gen y \<longrightarrow> j_title j = song_name y \<and> j_artist j = artist_name y \<and> j_id j = known_song_id y))"

definition lyr_ok :: "lyr \<Rightarrow> bool" where
  "lyr_ok y \<longleftrightarrow> (ly_loaded y \<longleftrightarrow> ly_lines y \<noteq> []) \<and> length (ly_lines y) \<le> LYRIC_MAX_LINES \<and> klyric_ok (ly_klyric y)"

definition fetcher_ok :: "fetcher \<Rightarrow> bool" where
  "fetcher_ok f \<longleftrightarrow> lyr_ok (f_lyr f) \<and> list_all (job_ok (f_lyr f)) (jobs f) \<and> length (jobs f) \<le> 1
     \<and> (s_fetch_task (f_lyr f) \<longleftrightarrow> jobs f \<noteq> []) \<and> (creating f \<longrightarrow> jobs f = [])
     \<and> (waiting f \<longrightarrow> creating f \<or> jobs f \<noteq> [])
     \<and> (ly_loaded (f_lyr f) \<longrightarrow> shown_for f = (song_name (f_lyr f), artist_name (f_lyr f)))"

definition same_song :: "lyr \<Rightarrow> lyr \<Rightarrow> bool" where
  "same_song y y' \<longleftrightarrow> song_name y' = song_name y \<and> artist_name y' = artist_name y \<and> known_song_id y' = known_song_id y
     \<and> s_fetch_gen y' = s_fetch_gen y"

lemma lrc_loop_length: "length out \<le> LYRIC_MAX_LINES \<Longrightarrow> length (lrc_loop p out) \<le> LYRIC_MAX_LINES"
proof (induction p out rule: lrc_loop.induct)
  case (1 p out)
  show ?case
  proof (cases "p = [] \<or> LYRIC_MAX_LINES \<le> length out")
    case True
    with "1.prems" show ?thesis by (subst lrc_loop.simps) simp
  next
    case False
    with 1 show ?thesis by (subst lrc_loop.simps) (auto simp: Let_def split: option.split)
  qed
qed

lemma apply_lrc_ok:
  assumes "lyr_ok y"
  shows "lyr_ok (snd (apply_lrc share lrc gen y)) \<and> same_song y (snd (apply_lrc share lrc gen y))
    \<and> s_fetch_task (snd (apply_lrc share lrc gen y)) = s_fetch_task y"
proof -
  have p: "length (parse_lrc s) \<le> LYRIC_MAX_LINES" for s unfolding parse_lrc_def by (rule lrc_loop_length) simp
  have r: "klyric_ok (reset_klyric (ly_klyric y))" using assms by (auto simp: lyr_ok_def)
  show ?thesis
    using assms r p klyric_ok_pseudo klyric_ok_map
    by (auto simp: apply_lrc_def lyr_ok_def same_song_def Let_def split: option.split)
qed

lemma take_klyric_ok: "klyric_ok k \<Longrightarrow> klyric_ok (take_klyric tx k)"
  by (induction tx k rule: take_klyric.induct) (auto simp: Let_def klyric_ok_parse split: option.split)

lemma fetch_lrc_ok: "klyric_ok k \<Longrightarrow> klyric_ok (snd (fetch_lrc a i k))"
  by (auto simp: fetch_lrc_def simp del: list.map take_klyric.simps intro!: take_klyric_ok split: option.split prod.split sum.split)

definition fetch_step_ok :: "job \<Rightarrow> lyr \<Rightarrow> job option \<times> lyr \<Rightarrow> bool" where
  \<comment> \<open>what a step of a task leaves\<close>
  "fetch_step_ok j y = (\<lambda>(r, y'). lyr_ok y' \<and> same_song y y'
     \<and> (case r of None \<Rightarrow> \<not> s_fetch_task y' | Some j' \<Rightarrow> job_ok y' j' \<and> s_fetch_task y' = s_fetch_task y)
     \<and> (ly_loaded y' \<longrightarrow> ly_loaded y \<and> ly_lines y' = ly_lines y \<or> j_title j = song_name y \<and> j_artist j = artist_name y))"

lemma fetch_step_ok_to: "lyr_ok y \<Longrightarrow> job_ok y (j \<lparr> j_at := p \<rparr>) \<Longrightarrow> fetch_step_ok j y (Some (j \<lparr> j_at := p \<rparr>), y)"
  by (auto simp: fetch_step_ok_def same_song_def lyr_ok_def)

lemma job_ok_at: "job_ok y j \<Longrightarrow> j_at j \<noteq> Start \<Longrightarrow> job_ok y (j \<lparr> j_at := p \<rparr>)"
  by (auto simp: job_ok_def)

lemma job_ok_start: "job_ok y (j \<lparr> j_at := Start \<rparr>)"
  by (simp add: job_ok_def)

lemma job_ok_same_song: "same_song y y' \<Longrightarrow> job_ok y' j = job_ok y j"
  by (simp add: same_song_def job_ok_def)

lemma fetch_step_ok_klyric: "lyr_ok y \<Longrightarrow> job_ok y (j \<lparr> j_at := p \<rparr>) \<Longrightarrow> klyric_ok k \<Longrightarrow> fetch_step_ok j y (Some (j \<lparr> j_at := p \<rparr>), y \<lparr> ly_klyric := k \<rparr>)"
  by (auto simp: fetch_step_ok_def same_song_def lyr_ok_def job_ok_def)

lemma apply_lrc_song:
  "apply_lrc share lrc gen y = (ok, y') \<Longrightarrow> gen \<noteq> s_fetch_gen y \<Longrightarrow> ly_lines y' = ly_lines y \<and> ly_loaded y' = ly_loaded y"
  by (auto simp: apply_lrc_def split: option.splits if_splits)

lemma fetch_step_ok_apply:
  assumes "lyr_ok y" "job_ok y j" "j_at j \<noteq> Start"
  shows "fetch_step_ok j y (apply_or a lrc p j y)"
proof (cases "j_gen j = s_fetch_gen y")
  case False
  then show ?thesis using fetch_step_ok_to [OF assms(1) job_ok_start] by (simp add: apply_or_def)
next
  case True
  obtain ok y' where y': "apply_lrc (a_share a) lrc (j_gen j) y = (ok, y')" by (cases "apply_lrc (a_share a) lrc (j_gen j) y")
  have ok: "lyr_ok y'" "same_song y y'" "s_fetch_task y' = s_fetch_task y"
    using apply_lrc_ok [OF assms(1), of "a_share a" lrc "j_gen j"] y' by simp_all
  have "job_ok y' (j \<lparr> j_at := q \<rparr>)" for q using job_ok_at [OF assms(2,3)] ok(2) by (simp add: job_ok_same_song)
  moreover have "j_title j = song_name y \<and> j_artist j = artist_name y" using assms(2,3) True by (simp add: job_ok_def)
  ultimately show ?thesis using True ok y' by (simp add: fetch_step_ok_def apply_or_def)
qed

lemma fetch_task_ok:
  assumes "lyr_ok y" and "job_ok y j"
  shows "fetch_step_ok j y (fetch_task a j y)"
proof (cases "j_at j = Start")
  case True
  have "klyric_ok (reset_klyric (ly_klyric y))" using assms(1) by (simp add: lyr_ok_def klyric_ok_reset)
  then show ?thesis using assms(1) True by (auto simp: fetch_task_def fetch_step_ok_def lyr_ok_def same_song_def job_ok_def)
next
  case False
  note at = job_ok_at [OF assms(2) False] and start = fetch_step_ok_to [OF assms(1) job_ok_start]
  note to = fetch_step_ok_to [OF assms(1) at]
  note apply_case = fetch_step_ok_apply [OF assms False, of a]
  have k: "klyric_ok k \<Longrightarrow> fetch_step_ok j y (Some (j \<lparr> j_at := p \<rparr>), y \<lparr> ly_klyric := k \<rparr>)" for p k
    by (rule fetch_step_ok_klyric [OF assms(1) at])
  have f: "fetch_lrc a i (ly_klyric y) = (lrc, k') \<Longrightarrow> klyric_ok k'" for i lrc k'
    using fetch_lrc_ok [of "ly_klyric y" a i] assms(1) by (simp add: lyr_ok_def)
  show ?thesis
  proof (cases "j_at j")
    case Leave
    then show ?thesis using assms(1) start by (auto simp: fetch_task_def fetch_step_ok_def lyr_ok_def same_song_def)
  next
    case Known
    then show ?thesis using k f by (simp add: fetch_task_def split: prod.split)
  next
    case (SearchGot i)
    then show ?thesis using k f start to by (simp add: fetch_task_def split: prod.split)
  qed (use False start to apply_case in \<open>simp_all add: fetch_task_def\<close>)
qed

lemma fetch_task_lines:
  assumes "fetch_task a j y = (None, y')"
  shows "ly_lines y' = ly_lines y \<and> ly_loaded y' = ly_loaded y \<and> j_gen j = s_fetch_gen y"
  using assms by (auto simp: fetch_task_def apply_or_def Let_def split: point.splits if_splits prod.splits)

lemma job_step_ok:
  assumes ok: "fetcher_ok f" and i: "i < length (jobs f)"
  shows "fetcher_ok (job_step a i f)"
proof -
  obtain j where j: "jobs f = [j]" "i = 0"
    using ok i by (cases "jobs f") (auto simp: fetcher_ok_def)
  obtain r y where s: "fetch_task a j (f_lyr f) = (r, y)" by (cases "fetch_task a j (f_lyr f)")
  have "fetch_step_ok j (f_lyr f) (fetch_task a j (f_lyr f))"
    using ok by (intro fetch_task_ok) (simp_all add: fetcher_ok_def j)
  then have y: "fetch_step_ok j (f_lyr f) (r, y)" by (simp add: s)
  show ?thesis
  proof (cases r)
    case None
    then show ?thesis
      using ok y fetch_task_lines [of a j "f_lyr f" y] by (auto simp: job_step_def s j fetcher_ok_def fetch_step_ok_def same_song_def)
  next
    case (Some j')
    then show ?thesis
      using ok y by (auto simp: job_step_def s j fetcher_ok_def fetch_step_ok_def same_song_def lyr_ok_def)
  qed
qed

lemma clear_data_ok: "lyr_ok y \<Longrightarrow> lyr_ok (clear_data y)"
  by (simp add: lyr_ok_def clear_data_def klyric_ok_reset)

lemma job_ok_clear: "job_ok y j \<Longrightarrow> job_ok ((clear_data y) \<lparr> song_name := t, artist_name := u, known_song_id := n \<rparr>) j"
  "job_ok y j \<Longrightarrow> job_ok (clear_data y) j"
  by (auto simp: job_ok_def clear_data_def)

lemma lyrics_step_ok:
  assumes "lyrics_step f f'" and "fetcher_ok f"
  shows "fetcher_ok f'"
  using assms
proof (induction rule: lyrics_step.induct)
  case (Ask f title artist song_id)
  have "lyr_ok (f_lyr f)" using Ask.prems by (simp add: fetcher_ok_def)
  from clear_data_ok [OF this] have
    "lyr_ok ((clear_data (f_lyr f)) \<lparr> song_name := take 63 title, artist_name := take 63 artist, known_song_id := song_id \<rparr>)"
    by (simp add: lyr_ok_def)
  then show ?case
    using Ask by (auto simp: ask_def lyrics_fetch_async_def fetcher_ok_def list_all_iff intro!: job_ok_clear) (simp_all add: clear_data_def)
next
  case (Create f psram_ok internal_ok)
  then show ?case by (auto simp: lyrics_create_task_def fetcher_ok_def lyr_ok_def new_job_def job_ok_def)
next
  case (Clear f)
  have "lyr_ok (f_lyr f)" using Clear.prems by (simp add: fetcher_ok_def)
  from clear_data_ok [OF this] show ?case
    using Clear by (auto simp: lyrics_clear_def fetcher_ok_def list_all_iff intro!: job_ok_clear) (simp_all add: clear_data_def)
next
  case (Work i f a)
  then show ?case by (intro job_step_ok)
qed

lemma reachable_fetcher_ok:
  assumes "lyrics_reachable f"
  shows "fetcher_ok f"
  using assms
proof (induction rule: lyrics_reachable.induct)
  case (Init k)
  then show ?case by (simp add: lyrics_init_def fetcher_ok_def lyr_ok_def)
next
  case (Step f f')
  then show ?case by (blast intro: lyrics_step_ok)
qed


definition no_answers :: answers where
  "no_answers = \<lparr> http = (\<lambda>rq. None), a_alloc = True, a_grow = (\<lambda>n. True), a_behind = (\<lambda>i. jsmn_fill_token JSMN_PRIMITIVE 0 0),
     a_b64 = (\<lambda>s. None), a_ms = (\<lambda>s. 0), a_share = plain_share \<rparr>"

definition asked_once :: fetcher where
  "asked_once = lyrics_create_task True True (ask (str ''Hello'') (str ''Adele'') 7 (lyrics_init no_klyric))"

lemma asked_once_reachable: "lyrics_reachable asked_once"
proof -
  have "lyrics_step (lyrics_init no_klyric) (ask (str ''Hello'') (str ''Adele'') 7 (lyrics_init no_klyric))"
    by (rule Ask) (simp add: lyrics_init_def)
  moreover have "lyrics_step (ask (str ''Hello'') (str ''Adele'') 7 (lyrics_init no_klyric)) asked_once"
    unfolding asked_once_def by (rule Create) (simp add: lyrics_init_def ask_def lyrics_fetch_async_def)
  ultimately show ?thesis by (blast intro: Init Step klyric_ok_none)
qed


subsection \<open>The task comes to an end, with the first lyrics it finds\<close>

definition work :: "answers \<Rightarrow> fetcher \<Rightarrow> fetcher" where
  "work a f = (if jobs f = [] then f else job_step a 0 f)"

fun rank :: "point \<Rightarrow> nat" where
  "rank Leave = 1"
| "rank (KuwoGot lrc) = 2"
| "rank Kuwo = 3"
| "rank (QQGot lrc) = 4"
| "rank QQ = 5"
| "rank (SearchLrc lrc) = 6"
| "rank (SearchGot i) = 7"
| "rank Search = 8"
| "rank (KnownGot lrc) = 9"
| "rank Known = 10"
| "rank Start = 11"

definition steps_left :: "lyr \<Rightarrow> job \<Rightarrow> nat" where
  \<comment> \<open>a task with an old generation finds out at the next point, after the request it is at, and starts over\<close>
  "steps_left y j = (if j_at j = Start \<or> j_gen j = s_fetch_gen y then rank (j_at j) else if j_at j = Known then 13 else 12)"

lemma apply_or_gen: "apply_or a lrc p j y = (r, y') \<Longrightarrow> s_fetch_gen y' = s_fetch_gen y"
  by (auto simp: apply_or_def apply_lrc_def Let_def split: option.splits if_splits prod.splits)

lemma steps_left_apply:
  assumes "apply_or a lrc p j y = (Some j', y')" and "j_at j \<noteq> Start" "j_at j \<noteq> Known" "rank p < rank (j_at j)" "rank Leave < rank (j_at j)"
  shows "steps_left y' j' < steps_left y j"
proof (cases "j_gen j = s_fetch_gen y")
  case True
  obtain ok y1 where a: "apply_lrc (a_share a) lrc (j_gen j) y = (ok, y1)" by (cases "apply_lrc (a_share a) lrc (j_gen j) y")
  have j': "j' = j \<lparr> j_at := (if ok then Leave else p) \<rparr>" using assms(1) True a by (simp add: apply_or_def)
  show ?thesis using apply_or_gen [OF assms(1)] assms(2-) True by (auto simp: steps_left_def j')
next
  case False
  then show ?thesis using assms by (auto simp: apply_or_def steps_left_def)
qed

lemma steps_left_decreases:
  assumes "fetch_task a j y = (Some j', y')"
  shows "steps_left y' j' < steps_left y j"
proof (cases "j_at j")
  case (KnownGot lrc)
  with assms have a: "apply_or a lrc Search j y = (Some j', y')" by (simp add: fetch_task_def)
  show ?thesis by (rule steps_left_apply [OF a]) (simp_all add: KnownGot)
next
  case (SearchLrc lrc)
  with assms have a: "apply_or a lrc QQ j y = (Some j', y')" by (simp add: fetch_task_def)
  show ?thesis by (rule steps_left_apply [OF a]) (simp_all add: SearchLrc)
next
  case (QQGot lrc)
  with assms have a: "apply_or a lrc Kuwo j y = (Some j', y')" by (simp add: fetch_task_def)
  show ?thesis by (rule steps_left_apply [OF a]) (simp_all add: QQGot)
next
  case (KuwoGot lrc)
  with assms have a: "apply_or a lrc Leave j y = (Some j', y')" by (simp add: fetch_task_def)
  show ?thesis by (rule steps_left_apply [OF a]) (simp_all add: KuwoGot)
qed (use assms in \<open>auto simp: fetch_task_def steps_left_def Let_def split: if_splits prod.splits\<close>)

lemma steps_left_bound: "steps_left y j \<le> 13"
  by (cases "j_at j") (simp_all add: steps_left_def)

lemma work_ends:
  "fetcher_ok f \<Longrightarrow> list_all (\<lambda>j. steps_left (f_lyr f) j \<le> length as) (jobs f) \<Longrightarrow> jobs (fold work as f) = [] \<and> fetcher_ok (fold work as f)"
proof (induction as arbitrary: f)
  case Nil
  then show ?case
    by (cases "jobs f"; cases "j_at (hd (jobs f))") (auto simp: steps_left_def split: if_splits)
next
  case (Cons a as)
  show ?case
  proof (cases "jobs f")
    case Nil
    then show ?thesis using Cons by (simp add: work_def)
  next
    case (Cons j js)
    then have j: "jobs f = [j]" using Cons.prems(1) by (simp add: fetcher_ok_def)
    obtain r y where s: "fetch_task a j (f_lyr f) = (r, y)" by (cases "fetch_task a j (f_lyr f)")
    have ok: "fetcher_ok (work a f)" using Cons.prems(1) job_step_ok [OF Cons.prems(1), of 0 a] by (simp add: work_def j)
    have "list_all (\<lambda>j. steps_left (f_lyr (work a f)) j \<le> length as) (jobs (work a f))"
    proof (cases r)
      case None
      then show ?thesis by (simp add: work_def j job_step_def s)
    next
      case (Some j')
      then show ?thesis using steps_left_decreases [of a j "f_lyr f" j' y] Cons.prems(2) by (simp add: work_def j job_step_def s)
    qed
    with Cons.IH [OF ok] show ?thesis by simp
  qed
qed

lemma job_list_left: "list_all (\<lambda>j. steps_left y j \<le> n) js" if "13 \<le> n"
  using that steps_left_bound order_trans by (fastforce simp: list_all_iff)

text \<open>C37: A task that is left alone comes to an end: whatever it is doing, and whatever its requests
  bring, 13 steps later there is no task and \<open>s_fetch_task\<close> is NULL, so that the next request creates
  one; and no request is left waiting, unless its task was never created.\<close>

theorem lyrics_task_ends:
  assumes "lyrics_reachable f" and "13 \<le> length as"
  shows "jobs (fold work as f) = [] \<and> \<not> s_fetch_task (f_lyr (fold work as f)) \<and> (waiting (fold work as f) \<longrightarrow> creating (fold work as f))"
proof -
  from work_ends [OF reachable_fetcher_ok [OF assms(1)] job_list_left [OF assms(2)]] show ?thesis by (auto simp: fetcher_ok_def)
qed

lemma lyrics_task_ends_witness:
  "\<exists>f. jobs f = [new_job] \<and> jobs (fold work (replicate 13 no_answers) f) = []"
  using lyrics_task_ends [OF asked_once_reachable, of "replicate 13 no_answers"]
  by (intro exI [of _ asked_once]) (simp add: asked_once_def ask_def lyrics_create_task_def lyrics_init_def lyrics_fetch_async_def clear_data_def)

definition has_lines :: "byte list option \<Rightarrow> bool" where
  "has_lines lrc = (case lrc of None \<Rightarrow> False | Some s \<Rightarrow> lrc_usable s \<and> parse_lrc s \<noteq> [])"

definition lyric_sources :: "answers \<Rightarrow> byte list \<Rightarrow> byte list \<Rightarrow> u32 \<Rightarrow> byte list option list" where
  \<comment> \<open>the places to look at, in the order of the task\<close>
  "lyric_sources a title artist song_id =
     (let netease = \<lambda>i. if i = 0 then None else fst (fetch_lrc a i no_klyric)
      in [netease song_id, netease (search_song a title artist), fetch_lrc_qq a title artist, fetch_lrc_kuwo a title artist])"

definition lines_of :: "byte list option list \<Rightarrow> lyric_line_t list" where
  "lines_of srcs = (case filter has_lines srcs of Some s # _ \<Rightarrow> parse_lrc s | _ \<Rightarrow> [])"

lemma fetch_lrc_text: "fst (fetch_lrc a i k) = fst (fetch_lrc a i k')"
  by (simp add: fetch_lrc_def split: option.split prod.split sum.split)

lemma apply_lrc_lines:
  assumes "ly_lines y = []"
  shows "fst (apply_lrc share lrc (s_fetch_gen y) y) = has_lines lrc"
    and "ly_lines (snd (apply_lrc share lrc (s_fetch_gen y) y)) = (if has_lines lrc then parse_lrc (the lrc) else [])"
  using assms by (auto simp: apply_lrc_def has_lines_def Let_def split: option.split)

definition quiet :: "byte list \<Rightarrow> byte list \<Rightarrow> u32 \<Rightarrow> nat \<Rightarrow> lyr \<Rightarrow> bool" where
  \<comment> \<open>nothing found yet for this request\<close>
  "quiet t u n g y \<longleftrightarrow> song_name y = t \<and> artist_name y = u \<and> known_song_id y = n \<and> s_fetch_gen y = g \<and> ly_lines y = []"

lemma quiet_klyric [simp]: "quiet t u n g (y \<lparr> ly_klyric := k \<rparr>) = quiet t u n g y"
  by (simp add: quiet_def)

definition job_at :: "byte list \<Rightarrow> byte list \<Rightarrow> u32 \<Rightarrow> nat \<Rightarrow> point \<Rightarrow> job" where
  "job_at t u n g p = \<lparr> j_title = t, j_artist = u, j_id = n, j_gen = g, j_at = p \<rparr>"

fun solo :: "answers \<Rightarrow> nat \<Rightarrow> job option \<times> lyr \<Rightarrow> job option \<times> lyr" where
  "solo a 0 s = s"
| "solo a (Suc n) (None, y) = (None, y)"
| "solo a (Suc n) (Some j, y) = solo a n (fetch_task a j y)"

lemma solo_none [simp]: "solo a n (None, y) = (None, y)"
  by (cases n) simp_all

lemma solo_leave: "j_gen j = s_fetch_gen y \<Longrightarrow> ly_lines (snd (solo a n (Some (j \<lparr> j_at := Leave \<rparr>), y))) = ly_lines y"
  by (cases n) (simp_all add: fetch_task_def)

lemma solo_apply:
  assumes q: "quiet t u n g y" and at: "fetch_task a (job_at t u n g p) y = apply_or a lrc p' (job_at t u n g p) y"
    and other: "\<And>y'. quiet t u n g y' \<Longrightarrow> ly_lines (snd (solo a m (Some (job_at t u n g p'), y'))) = lines_of srcs"
  shows "ly_lines (snd (solo a (Suc m) (Some (job_at t u n g p), y))) = lines_of (lrc # srcs)"
proof -
  have g: "s_fetch_gen y = g" and l: "ly_lines y = []" using q by (simp_all add: quiet_def)
  obtain ok y' where y': "apply_lrc (a_share a) lrc g y = (ok, y')" by (cases "apply_lrc (a_share a) lrc g y")
  have r: "apply_or a lrc p' (job_at t u n g p) y = (Some (job_at t u n g (if ok then Leave else p')), y')"
    using y' g by (simp add: apply_or_def job_at_def)
  have same: "same_song y y'"
    using y' by (auto simp: apply_lrc_def same_song_def Let_def split: option.splits if_splits)
  have ok: "ok = has_lines lrc" "ly_lines y' = (if has_lines lrc then parse_lrc (the lrc) else [])"
    using apply_lrc_lines [OF l, of "a_share a" lrc] y' g by simp_all
  show ?thesis
  proof (cases "has_lines lrc")
    case True
    have "ly_lines (snd (solo a m (Some (job_at t u n g Leave), y'))) = ly_lines y'"
      using solo_leave [of "job_at t u n g Leave" y' a m] same g by (simp add: job_at_def same_song_def)
    moreover have "lines_of (lrc # srcs) = parse_lrc (the lrc)" using True by (cases lrc) (simp_all add: lines_of_def has_lines_def)
    ultimately show ?thesis using True ok by (simp add: at r)
  next
    case False
    then have "quiet t u n g y'" using ok same q by (simp add: quiet_def same_song_def)
    then show ?thesis using False ok other by (simp add: at r lines_of_def)
  qed
qed

lemma solo_to:
  assumes "fetch_task a (job_at t u n g p) y = (Some (job_at t u n g p'), y')"
    and "ly_lines (snd (solo a m (Some (job_at t u n g p'), y'))) = x"
  shows "ly_lines (snd (solo a (Suc m) (Some (job_at t u n g p), y))) = x"
  using assms by simp

lemma solo_kuwo:
  assumes q: "quiet t u n g y"
  shows "ly_lines (snd (solo a (Suc (Suc m)) (Some (job_at t u n g Kuwo), y))) = lines_of [fetch_lrc_kuwo a t u]"
proof (rule solo_to)
  show "fetch_task a (job_at t u n g Kuwo) y = (Some (job_at t u n g (KuwoGot (fetch_lrc_kuwo a t u))), y)"
    using q by (simp add: fetch_task_def job_at_def quiet_def)
  have "ly_lines (snd (solo a m (Some (job_at t u n g Leave), y'))) = lines_of []" if "quiet t u n g y'" for y'
    using that solo_leave [of "job_at t u n g Leave" y' a m] by (simp add: job_at_def quiet_def lines_of_def)
  then show "ly_lines (snd (solo a (Suc m) (Some (job_at t u n g (KuwoGot (fetch_lrc_kuwo a t u))), y))) = lines_of [fetch_lrc_kuwo a t u]"
    by (intro solo_apply [where p' = Leave, OF q]) (simp_all add: fetch_task_def job_at_def)
qed

lemma solo_qq:
  assumes q: "quiet t u n g y"
  shows "ly_lines (snd (solo a (Suc (Suc (Suc (Suc m)))) (Some (job_at t u n g QQ), y))) = lines_of [fetch_lrc_qq a t u, fetch_lrc_kuwo a t u]"
proof (rule solo_to)
  show "fetch_task a (job_at t u n g QQ) y = (Some (job_at t u n g (QQGot (fetch_lrc_qq a t u))), y)"
    using q by (simp add: fetch_task_def job_at_def quiet_def)
  show "ly_lines (snd (solo a (Suc (Suc (Suc m))) (Some (job_at t u n g (QQGot (fetch_lrc_qq a t u))), y)))
      = lines_of [fetch_lrc_qq a t u, fetch_lrc_kuwo a t u]"
    by (intro solo_apply [where p' = Kuwo, OF q] solo_kuwo) (simp_all add: fetch_task_def job_at_def)
qed

lemma lines_of_none [simp]: "lines_of (None # srcs) = lines_of srcs"
  by (simp add: lines_of_def has_lines_def)

lemma solo_search:
  assumes q: "quiet t u n g y"
  shows "ly_lines (snd (solo a (Suc (Suc (Suc (Suc (Suc (Suc (Suc m))))))) (Some (job_at t u n g Search), y)))
    = lines_of (tl (lyric_sources a t u n))"
proof (rule solo_to)
  let ?i = "search_song a t u"
  let ?f = "fetch_lrc a ?i (ly_klyric y)"
  show "fetch_task a (job_at t u n g Search) y = (Some (job_at t u n g (SearchGot ?i)), y)"
    using q by (simp add: fetch_task_def job_at_def quiet_def)
  show "ly_lines (snd (solo a (Suc (Suc (Suc (Suc (Suc (Suc m)))))) (Some (job_at t u n g (SearchGot ?i)), y)))
      = lines_of (tl (lyric_sources a t u n))"
  proof (cases "?i = 0")
    case True
    then have "fetch_task a (job_at t u n g (SearchGot ?i)) y = (Some (job_at t u n g QQ), y)"
      using q by (simp add: fetch_task_def job_at_def quiet_def)
    then show ?thesis using solo_qq [OF q, of a "Suc m"] True by (simp add: lyric_sources_def)
  next
    case False
    let ?y = "y \<lparr> ly_klyric := snd ?f \<rparr>"
    have s: "fetch_task a (job_at t u n g (SearchGot ?i)) y = (Some (job_at t u n g (SearchLrc (fst ?f))), ?y)"
      using q False by (simp add: fetch_task_def job_at_def quiet_def split: prod.split)
    have q': "quiet t u n g ?y" using q by simp
    have "ly_lines (snd (solo a (Suc (Suc (Suc (Suc (Suc m))))) (Some (job_at t u n g (SearchLrc (fst ?f))), ?y)))
      = lines_of [fst ?f, fetch_lrc_qq a t u, fetch_lrc_kuwo a t u]"
      by (intro solo_apply [where p' = QQ, OF q'] solo_qq) (simp_all add: fetch_task_def job_at_def)
    then show ?thesis using False by (simp add: s lyric_sources_def fetch_lrc_text [of a ?i "ly_klyric y" no_klyric])
  qed
qed

lemma solo_start:
  assumes q: "quiet t u n g y" and t: "t \<noteq> []"
  shows "ly_lines (snd (solo a (10 + m) (Some (new_job), y))) = lines_of (lyric_sources a t u n)"
proof -
  let ?y = "y \<lparr> ly_klyric := reset_klyric (ly_klyric y) \<rparr>"
  let ?f = "fetch_lrc a n (ly_klyric ?y)"
  let ?y2 = "?y \<lparr> ly_klyric := snd ?f \<rparr>"
  have ten: "10 + m = Suc (Suc (Suc (Suc (Suc (Suc (Suc (Suc (Suc (Suc m)))))))))" by simp
  have q': "quiet t u n g ?y" "quiet t u n g ?y2" using q by simp_all
  have s: "fetch_task a new_job y = (Some (job_at t u n g (if n \<noteq> 0 then Known else Search)), ?y)"
    using q t by (simp add: fetch_task_def new_job_def job_at_def quiet_def)
  show ?thesis
  proof (cases "n = 0")
    case True
    then show ?thesis using s solo_search [OF q'(1), of a "Suc (Suc m)"] unfolding ten by (simp add: lyric_sources_def)
  next
    case False
    have k: "fetch_task a (job_at t u n g Known) ?y = (Some (job_at t u n g (KnownGot (fst ?f))), ?y2)"
      by (simp add: fetch_task_def job_at_def split: prod.split)
    have "ly_lines (snd (solo a (Suc (Suc (Suc (Suc (Suc (Suc (Suc (Suc m)))))))) (Some (job_at t u n g (KnownGot (fst ?f))), ?y2)))
      = lines_of (fst ?f # tl (lyric_sources a t u n))"
      by (intro solo_apply [where p' = Search, OF q'(2)] solo_search) (simp_all add: fetch_task_def job_at_def)
    then show ?thesis using False s k unfolding ten
      by (simp add: lyric_sources_def fetch_lrc_text [of a n "reset_klyric (ly_klyric y)" no_klyric])
  qed
qed

lemma fold_work_solo:
  "jobs f = [j] \<Longrightarrow> f_lyr (fold work (replicate n a) f) = snd (solo a n (Some j, f_lyr f))"
proof (induction n arbitrary: f j)
  case (Suc n)
  obtain r y where s: "fetch_task a j (f_lyr f) = (r, y)" by (cases "fetch_task a j (f_lyr f)")
  have idle: "fold work (replicate n a) f = f" if "jobs f = []" for f
    using that by (induction n) (simp_all add: work_def del: fold_replicate)
  show ?case
  proof (cases r)
    case None
    then have "f_lyr (work a f) = y" "jobs (work a f) = []" using Suc.prems s by (simp_all add: work_def job_step_def)
    then show ?thesis using idle [of "work a f"] Suc.prems s None by (simp del: fold_replicate)
  next
    case (Some j')
    then have "f_lyr (work a f) = y" "jobs (work a f) = [j']" using Suc.prems s by (simp_all add: work_def job_step_def)
    then show ?thesis using Suc.IH [of "work a f" j'] s Some by (simp del: fold_replicate)
  qed
qed simp


definition two_lyrics :: "lyric_line_t list" where
  "two_lyrics = [(12340, str ''Hello''), (15000, str ''it is me'')]"

definition song_reply :: "byte list" where
  "song_reply = 34 # str ''songmid'' @ [34] @ str '':'' @ [34] @ str ''7'' @ [34]"

definition lyric_reply :: "byte list" where
  "lyric_reply = 34 # str ''lyric'' @ [34] @ str '':'' @ [34] @ str ''[00:12.34]Hello'' @ [92, 110] @ str ''[00:15.00]it is me'' @ [92, 110, 34]"

definition qq_answers :: answers where
  \<comment> \<open>only QQ answers\<close>
  "qq_answers = no_answers \<lparr> http := (\<lambda>rq. if rq_referer rq \<noteq> str ''https://y.qq.com'' then None
     else Some (if rq_buf rq = HTTP_LYRIC_BUF then 123 # lyric_reply else song_reply)) \<rparr>"

lemma two_lyrics_text: "concat (map lrc_line two_lyrics) = str ''[00:12.34]Hello'' @ [10] @ str ''[00:15.00]it is me'' @ [10]"
  by (simp add: two_lyrics_def lrc_line_def stamp_def fmt_dec0_def fmt_dec.simps digit_def str_simps)

lemma two_lyrics_parse: "parse_lrc (concat (map lrc_line two_lyrics)) = two_lyrics"
proof -
  have ok: "list_all lrc_line_ok two_lyrics"
    by (simp add: two_lyrics_def lrc_line_ok_def LYRIC_TEXT_LEN_def is_newline_def is_meta_def meta_keys_def str_simps)
  show ?thesis using lrc_loop_lines [OF ok, of "[]"] by (simp add: parse_lrc_def two_lyrics_def LYRIC_MAX_LINES_def)
qed

lemma two_lyrics_usable: "lrc_usable (concat (map lrc_line two_lyrics))"
  unfolding two_lyrics_text
  by (simp add: lrc_usable_def no_lyric_marks_def str_simps scan_int_def scan_dec_def is_space_def is_digit_def Let_def)

lemma qq_lyric: "fetch_lrc_qq qq_answers t u = Some (concat (map lrc_line two_lyrics))"
proof -
  have m: "json_extract_string_alloc (\<lambda>n. True) song_reply ''songmid'' = Some (str ''7'')"
    by (simp add: json_extract_string_alloc_def song_reply_def str_simps index_of_def string_loop.simps)
  have i: "index_of 123 (123 # lyric_reply) = Some 0" by (simp add: index_of_def)
  have y: "json_extract_string_alloc (\<lambda>n. True) (123 # lyric_reply) ''lyric'' = Some (concat (map lrc_line two_lyrics))"
    unfolding two_lyrics_text
    by (simp add: json_extract_string_alloc_def lyric_reply_def str_simps index_of_def string_loop.simps unescaped_def)
  have h: "http qq_answers (get url n ''https://y.qq.com'') = Some (if n = HTTP_LYRIC_BUF then 123 # lyric_reply else song_reply)" for url n
    by (simp add: qq_answers_def get_def)
  have p: "a_grow qq_answers = (\<lambda>n. True)" "qq_songmid qq_answers song_reply = str ''7''" "str ''7'' \<noteq> []"
    by (simp_all add: qq_answers_def no_answers_def qq_songmid_def json_extract_quoted_def m str_simps)
  have b: "HTTP_FALLBACK_SEARCH_BUF \<noteq> HTTP_LYRIC_BUF" by (simp add: HTTP_FALLBACK_SEARCH_BUF_def HTTP_LYRIC_BUF_def)
  show ?thesis
    by (simp add: fetch_lrc_qq_def qq_search_def h b p i y normalize_lyric_payload_def two_lyrics_usable)
qed

lemma netease_silent: "search_song qq_answers t u = 0"
  by (simp add: search_song_def qq_answers_def str_simps Let_def)


subsection \<open>Overlapping requests\<close>

text \<open>Two callers that overlap are both told to create a task: nothing marks the task that is about to
  be created.\<close>

lemma overlapping_requests:
  assumes "\<not> s_fetch_task y" and "\<not> (ly_loaded y \<and> song_name y = t \<and> artist_name y = u)"
  shows "fst (lyrics_fetch_async t u i y) \<and> fst (lyrics_fetch_async t' u' i' (snd (lyrics_fetch_async t u i y)))"
  using assms by (auto simp: lyrics_fetch_async_def clear_data_def)

end
