(* ===== verification/Soap.thy ===== *)
theory Soap
  imports Cstring
begin

text \<open>
  The renderer's SOAP services (\<open>custom_dlna.c\<close>, from \<open>get_soap_action\<close> to \<open>cm_control_handler\<close>,
  \<open>xml_handler\<close>, \<open>custom_dlna_update_uri\<close> and the setters). A request is what the HTTP server of
  ESP-IDF hands to a handler: its fields by name, and what each call that reads the body finds. The
  application's callbacks are answers (\<open>config\<close>, taken anew for every request) and calls, which are
  recorded in order.
\<close>

subsection \<open>Requests, replies, state\<close>

datatype http_method = HTTP_GET | HTTP_POST | HTTP_SUBSCRIBE | HTTP_UNSUBSCRIBE | HTTP_OTHER

record httpd_req =
  rq_method :: http_method
  req_uri :: "byte list"
  content_len :: nat
  hdr :: "string \<Rightarrow> nat \<Rightarrow> byte list option" \<comment> \<open>\<open>httpd_req_get_hdr_value_str\<close> into a buffer of this size, when it is \<open>ESP_OK\<close>\<close>
  hdr_left :: "string \<Rightarrow> nat \<Rightarrow> byte list \<Rightarrow> byte list" \<comment> \<open>what it leaves of the text in the buffer otherwise\<close>
  hdr_len :: "string \<Rightarrow> nat" \<comment> \<open>\<open>httpd_req_get_hdr_value_len\<close>\<close>
  recvs :: "byte list list" \<comment> \<open>what arrives, piece by piece; an empty piece, or none, is an error\<close>

datatype http_reply =
    Resp (r_status: string) (r_type: string) (r_fields: "(string \<times> byte list) list") (r_body: "byte list")
  | Err500 | Err400 string

datatype music_source_t = MUSIC_SRC_NETEASE | MUSIC_SRC_QQ | MUSIC_SRC_SPEAKER | MUSIC_SRC_KUGOU | MUSIC_SRC_KUWO
  | MUSIC_SRC_BILIBILI | MUSIC_SRC_XIMALAYA | MUSIC_SRC_APPLE | MUSIC_SRC_SPOTIFY | MUSIC_SRC_MAX

datatype callback = On_set_uri "byte list" | On_set_next_uri "byte list" "byte list" | On_set_metadata "byte list"
  | On_play | On_pause | On_stop | On_seek int | On_set_volume int | On_set_mute int | On_next | On_previous

record gena_subscriber_t =
  sub_url :: "byte list"
  sub_sid :: "byte list"
  expiry_time :: int
  sub_seq :: int

record dlna =
  s_uri :: "byte list"
  s_metadata :: "byte list"
  s_next_uri :: "byte list"
  s_next_metadata :: "byte list"
  s_music_source :: music_source_t
  s_user_agent :: "byte list"
  s_volume_cache :: int
  s_mute_cache :: int
  s_ssdp_suppressed :: bool
  s_subs :: "gena_subscriber_t list"
  notify_queue :: "byte list option list option" \<comment> \<open>\<open>Some None\<close> in it is the signal without a text\<close>
  s_sub_count :: nat
  called :: "callback list"

definition MAX_SUBSCRIBERS :: nat where "MAX_SUBSCRIBERS = 4"

definition no_subscriber :: gena_subscriber_t where
  "no_subscriber = \<lparr> sub_url = [], sub_sid = [], expiry_time = 0, sub_seq = 0 \<rparr>"

definition dlna_boot :: dlna where
  \<comment> \<open>the static initial values\<close>
  "dlna_boot = \<lparr> s_uri = [], s_metadata = [], s_next_uri = [], s_next_metadata = [], s_music_source = MUSIC_SRC_NETEASE,
     s_user_agent = [], s_volume_cache = 50, s_mute_cache = 0, s_ssdp_suppressed = False,
     s_subs = replicate MAX_SUBSCRIBERS no_subscriber, notify_queue = None, s_sub_count = 0, called = [] \<rparr>"

record dlna_config =
  get_transport_state :: "byte list option" \<comment> \<open>\<open>None\<close>: no such callback\<close>
  get_uri :: "byte list option option" \<comment> \<open>the callback may answer NULL\<close>
  get_position_sec :: "int option"
  get_duration_sec :: "int option"
  get_position_ms :: "int option"
  get_volume :: "int option"
  get_mute :: "int option"
  has_callback :: "callback \<Rightarrow> bool"
  app :: "callback \<Rightarrow> dlna \<Rightarrow> dlna" \<comment> \<open>what the callback does here, through the public functions\<close>
  cfg_uuid :: "byte list option"
  cfg_port :: int
  mem :: "nat \<Rightarrow> bool" \<comment> \<open>a block of this size can be had\<close>

definition call_back :: "dlna_config \<Rightarrow> callback \<Rightarrow> dlna \<Rightarrow> dlna" where
  "call_back c e d = (if has_callback c e then app c e (d \<lparr> called := called d @ [e] \<rparr>) else d)"

definition NOTIFY_QUEUE_LEN :: nat where "NOTIFY_QUEUE_LEN = 16"

definition custom_dlna_notify_transport_state_async :: "dlna \<Rightarrow> dlna" where
  \<comment> \<open>a full queue drops the signal\<close>
  "custom_dlna_notify_transport_state_async d =
     (case notify_queue d of
        None \<Rightarrow> d
      | Some q \<Rightarrow> if length q < NOTIFY_QUEUE_LEN then d \<lparr> notify_queue := Some (q @ [None]) \<rparr> else d)"

definition custom_dlna_update_uri :: "byte list option \<Rightarrow> byte list option \<Rightarrow> dlna \<Rightarrow> dlna" where
  "custom_dlna_update_uri uri metadata d =
     d \<lparr> s_uri := (case uri of None \<Rightarrow> [] | Some u \<Rightarrow> copy_text 2048 u),
         s_metadata := (case metadata of None \<Rightarrow> [] | Some m \<Rightarrow> copy_text 16384 m),
         s_next_uri := [], s_next_metadata := [] \<rparr>"

definition custom_dlna_set_music_source :: "music_source_t \<Rightarrow> dlna \<Rightarrow> dlna" where
  "custom_dlna_set_music_source src d = (if src = MUSIC_SRC_MAX then d else d \<lparr> s_music_source := src \<rparr>)"

definition custom_dlna_set_ssdp_suppressed :: "bool \<Rightarrow> dlna \<Rightarrow> dlna" where
  "custom_dlna_set_ssdp_suppressed b d = d \<lparr> s_ssdp_suppressed := b \<rparr>"

subsection \<open>Reading a request\<close>

definition hdr_text :: "httpd_req \<Rightarrow> string \<Rightarrow> nat \<Rightarrow> byte list \<Rightarrow> byte list" where
  \<comment> \<open>the text in a buffer, with \<open>old\<close> in it before, when the result of the call is not looked at\<close>
  "hdr_text rq name n old = (case hdr rq name n of None \<Rightarrow> hdr_left rq name n old | Some v \<Rightarrow> v)"

fun req_recv :: "nat \<Rightarrow> byte list list \<Rightarrow> byte list option" where
  \<comment> \<open>the loop over \<open>httpd_req_recv\<close>\<close>
  "req_recv 0 rs = Some []"
| "req_recv (Suc n) [] = None"
| "req_recv (Suc n) (r # rs) =
     (if r = [] then None
      else let d = take (Suc n) r in map_option (\<lambda>b. d @ b) (req_recv (Suc n - length d) rs))"

definition strip_end :: "byte list \<Rightarrow> byte list" where
  \<comment> \<open>\<open>while (end > p && ...)\<close>: the first character stays\<close>
  "strip_end p = (case p of [] \<Rightarrow> [] | c # cs \<Rightarrow> c # rev (dropWhile (\<lambda>x. x = 34 \<or> x = 32) (rev cs)))"

definition get_soap_action :: "httpd_req \<Rightarrow> byte list option" where
  "get_soap_action rq =
     (case (case hdr rq ''SOAPAction'' 128 of Some v \<Rightarrow> Some v | None \<Rightarrow> hdr rq ''SOAPACTION'' 128) of
        None \<Rightarrow> None
      | Some v \<Rightarrow>
          let p = dropWhile (\<lambda>c. c = 34 \<or> c = 32) v in
          Some (strip_end (case index_of 35 p of None \<Rightarrow> p | Some i \<Rightarrow> drop (i + 1) p)))"

definition tag_start :: "byte list \<Rightarrow> byte list \<Rightarrow> byte list \<Rightarrow> nat option" where
  "tag_start xml exact tag =
     (case find_sub exact xml of
        Some i \<Rightarrow> Some i
      | None \<Rightarrow>
          (case find_sub (str ''<u:'' @ tag @ [32]) xml of Some i \<Rightarrow> Some i | None \<Rightarrow> find_sub (tag @ [32]) xml))"

definition behind_gt :: "byte list \<Rightarrow> nat option \<Rightarrow> nat option" where
  "behind_gt xml p =
     (case p of None \<Rightarrow> None
      | Some i \<Rightarrow> (case index_of 62 (drop i xml) of None \<Rightarrow> None | Some j \<Rightarrow> Some (i + j + 1)))"

definition xml_get :: "byte list \<Rightarrow> string \<Rightarrow> nat \<Rightarrow> byte list option" where
  \<comment> \<open>the text in \<open>out\<close>; \<open>None\<close> is -1\<close>
  "xml_get xml name out_max =
     (let tag = str name;
          op = (case behind_gt xml (tag_start xml (str ''<u:'' @ tag @ [62]) tag) of
                  Some k \<Rightarrow> Some k
                | None \<Rightarrow> behind_gt xml (tag_start xml (60 # tag @ [62]) tag))
      in case op of
           None \<Rightarrow> None
         | Some k \<Rightarrow>
             let r = drop k xml in
             (case (case find_sub (str ''</u:'' @ tag) r of Some l \<Rightarrow> Some l | None \<Rightarrow> find_sub (str ''</'' @ tag) r) of
                None \<Rightarrow> None
              | Some l \<Rightarrow> Some (take (min l (out_max - 1)) r)))"

definition parse_seek_target :: "byte list \<Rightarrow> int" where
  "parse_seek_target body =
     (case xml_get body ''Target'' 32 of
        None \<Rightarrow> -1
      | Some buf \<Rightarrow>
          (case sscanf [Num, Lit 58, Num, Lit 58, Num] buf of
             [] \<Rightarrow> atoi buf
           | vs \<Rightarrow> s32 (vs ! 0 * 3600 + (if 2 \<le> length vs then vs ! 1 else 0) * 60 + (if 3 \<le> length vs then vs ! 2 else 0))))"

definition fmt_time :: "int \<Rightarrow> byte list" where
  \<comment> \<open>the buffers have 16 bytes, enough for every \<open>int\<close>\<close>
  "fmt_time sec =
     (let s = nat (max 0 sec)
      in fmt_dec0 2 (s div 3600) @ 58 # fmt_dec0 2 (s div 60 mod 60) @ 58 # fmt_dec0 2 (s mod 60))"

subsection \<open>Replies\<close>

definition send_ok :: "byte list \<Rightarrow> http_reply" where
  "send_ok body = Resp ''200 OK'' ''text/xml; charset=utf-8'' [] body"

definition element :: "string \<Rightarrow> byte list \<Rightarrow> byte list" where
  "element tag v = 60 # str tag @ 62 # v @ str ''</'' @ str tag @ [62]"

definition envelope :: "string \<Rightarrow> byte list \<Rightarrow> byte list \<Rightarrow> byte list" where
  \<comment> \<open>the text around every answer\<close>
  "envelope service action inner =
     dq ''<?xml version=`1.0` encoding=`utf-8`?><s:Envelope xmlns:s=`http://schemas.xmlsoap.org/soap/envelope/`''
     @ dq '' s:encodingStyle=`http://schemas.xmlsoap.org/soap/encoding/`><s:Body><u:'' @ action
     @ dq ''Response xmlns:u=`urn:schemas-upnp-org:service:'' @ str service @ dq '':1`>'' @ inner
     @ str ''</u:'' @ action @ str ''Response></s:Body></s:Envelope>''"

definition soap_response :: "string \<Rightarrow> byte list \<Rightarrow> byte list \<Rightarrow> http_reply" where
  "soap_response service action params =
     (let t = envelope service action params in if length t < 2048 then send_ok t else Err500)"

definition position_ms :: "dlna_config \<Rightarrow> int" where
  "position_ms c = (case get_position_ms c of Some p \<Rightarrow> p
     | None \<Rightarrow> (case get_position_sec c of Some s \<Rightarrow> s32 (s * 1000) | None \<Rightarrow> 0))"

definition duration_sec :: "dlna_config \<Rightarrow> int" where
  "duration_sec c = (case get_duration_sec c of Some s \<Rightarrow> s | None \<Rightarrow> 0)"

definition shown_uri :: "dlna_config \<Rightarrow> dlna \<Rightarrow> byte list" where
  "shown_uri c d = (case get_uri c of None \<Rightarrow> s_uri d | Some None \<Rightarrow> [] | Some (Some u) \<Rightarrow> u)"

definition send_position_info :: "dlna_config \<Rightarrow> dlna \<Rightarrow> http_reply" where
  \<comment> \<open>a negative position counts as 0, whichever way its division rounds\<close>
  "send_position_info c d =
     (let rel = fmt_time (max 0 (position_ms c) div 1000); dur = fmt_time (duration_sec c);
          uri = shown_uri c d; meta = s_metadata d;
          resp_sz = 1024 + length uri + length meta + length rel + length dur
      in if \<not> mem c resp_sz then Err500
         else send_ok (copy_text resp_sz (envelope ''AVTransport'' (str ''GetPositionInfo'')
           (element ''Track'' (str ''1'') @ element ''TrackDuration'' dur @ element ''TrackMetaData'' meta @ element ''TrackURI'' uri
            @ element ''RelTime'' rel @ element ''AbsTime'' rel @ element ''RelCount'' (str ''0'') @ element ''AbsCount'' (str ''0'')))))"

definition transport_state :: "dlna_config \<Rightarrow> byte list" where
  "transport_state c = (case get_transport_state c of None \<Rightarrow> str ''STOPPED'' | Some s \<Rightarrow> s)"

definition send_transport_info :: "dlna_config \<Rightarrow> http_reply" where
  "send_transport_info c =
     send_ok (copy_text 512 (envelope ''AVTransport'' (str ''GetTransportInfo'')
       (element ''CurrentTransportState'' (transport_state c) @ element ''CurrentTransportStatus'' (str ''OK'') @ element ''CurrentSpeed'' (str ''1''))))"

definition send_media_info :: "dlna_config \<Rightarrow> dlna \<Rightarrow> http_reply" where
  "send_media_info c d =
     (let dur = fmt_time (duration_sec c); uri = shown_uri c d; meta = s_metadata d;
          resp_sz = 1024 + length uri + length meta + length dur
      in if \<not> mem c resp_sz then Err500
         else send_ok (copy_text resp_sz (envelope ''AVTransport'' (str ''GetMediaInfo'')
           (element ''NrTracks'' (str ''1'') @ element ''MediaDuration'' dur @ element ''CurrentURI'' uri @ element ''CurrentURIMetaData'' meta
            @ element ''NextURI'' [] @ element ''NextURIMetaData'' [] @ element ''PlayMedium'' (str ''NONE'')
            @ element ''RecordMedium'' (str ''NOT_IMPLEMENTED'') @ element ''WriteStatus'' (str ''NOT_IMPLEMENTED'')))))"

subsection \<open>AVTransport\<close>

definition set_av_uri :: "dlna_config \<Rightarrow> byte list \<Rightarrow> byte list \<Rightarrow> dlna \<Rightarrow> dlna" where
  \<comment> \<open>\<open>on_set_metadata\<close> is given the array, so what is in it by then\<close>
  "set_av_uri c body uri d =
     (let meta = (case xml_get body ''CurrentURIMetaData'' 16384 of None \<Rightarrow> s_metadata d | Some m \<Rightarrow> m);
          d1 = call_back c (On_set_uri uri) (d \<lparr> s_uri := uri, s_metadata := meta \<rparr>);
          d2 = call_back c (On_set_metadata (s_metadata d1)) d1
      in custom_dlna_notify_transport_state_async d2)"

definition transport_actions :: "byte list \<Rightarrow> byte list" where
  "transport_actions st =
     (if st = str ''PLAYING'' then str ''Pause,Stop,Seek,Next,Previous''
      else if st = str ''PAUSED_PLAYBACK'' then str ''Play,Stop,Seek,Next,Previous''
      else str ''Play,Pause,Stop,Seek,Next,Previous'')"

definition avt_action :: "dlna_config \<Rightarrow> httpd_req \<Rightarrow> byte list \<Rightarrow> byte list \<Rightarrow> dlna \<Rightarrow> http_reply \<times> dlna" where
  "avt_action c rq body action d =
     (let ok = soap_response ''AVTransport'' action in
      if action = str ''SetAVTransportURI'' then
        (ok [],
         let d0 = d \<lparr> s_user_agent := hdr_text rq ''User-Agent'' 128 (s_user_agent d) \<rparr> in
         case xml_get body ''CurrentURI'' 2048 of
           None \<Rightarrow> d0
         | Some uri \<Rightarrow> if uri = [] then d0 else set_av_uri c body uri d0)
      else if action = str ''Play'' then (ok (element ''Speed'' (str ''1'')), call_back c On_play d)
      else if action = str ''Pause'' then (ok [], call_back c On_pause d)
      else if action = str ''Stop'' then (ok [], call_back c On_stop d)
      else if action = str ''Seek'' then
        (ok [], let sec = parse_seek_target body in if 0 \<le> sec then call_back c (On_seek sec) d else d)
      else if action = str ''Next'' then (ok [], call_back c On_next d)
      else if action = str ''Previous'' then (ok [], call_back c On_previous d)
      else if action = str ''GetPositionInfo'' then (send_position_info c d, d)
      else if action = str ''GetTransportInfo'' then (send_transport_info c, d)
      else if action = str ''GetMediaInfo'' then (send_media_info c d, d)
      else if action = str ''SetNextAVTransportURI'' then
        (ok [],
         let uri = (case xml_get body ''NextURI'' 2048 of None \<Rightarrow> [] | Some u \<Rightarrow> u);
             meta = (case xml_get body ''NextURIMetaData'' 2048 of None \<Rightarrow> [] | Some m \<Rightarrow> m)
         in call_back c (On_set_next_uri uri meta) (d \<lparr> s_next_uri := uri, s_next_metadata := meta \<rparr>))
      else if action = str ''GetDeviceCapabilities'' then
        (ok (element ''PlayMedia'' (str ''NETWORK'') @ element ''RecMedia'' (str ''NOT_IMPLEMENTED'') @ element ''RecQualityModes'' (str ''NOT_IMPLEMENTED'')), d)
      else if action = str ''GetTransportSettings'' then
        (ok (element ''PlayMode'' (str ''NORMAL'') @ element ''RecQualityMode'' (str ''NOT_IMPLEMENTED'')), d)
      else if action = str ''GetCurrentTransportActions'' then
        (ok (copy_text 128 (element ''Actions'' (transport_actions (transport_state c)))), d)
      else (ok [], d))"

definition handle_avt_control :: "dlna_config \<Rightarrow> httpd_req \<Rightarrow> dlna \<Rightarrow> http_reply \<times> dlna" where
  "handle_avt_control c rq d =
     (if content_len rq = 0 \<or> 32768 < content_len rq \<or> \<not> mem c (content_len rq + 1) then (Err500, d)
      else case req_recv (content_len rq) (recvs rq) of
             None \<Rightarrow> (Err500, d)
           | Some b \<Rightarrow>
               (case get_soap_action rq of
                  None \<Rightarrow> (Err400 ''Missing SOAPAction'', d)
                | Some action \<Rightarrow> avt_action c rq (cstr b) action d))"

subsection \<open>RenderingControl, ConnectionManager and the other handlers\<close>

definition recv_once :: "httpd_req \<Rightarrow> byte list" where
  \<comment> \<open>one call, into 2047 bytes; \<open>[]\<close> when its result is not positive\<close>
  "recv_once rq = (case recvs rq of [] \<Rightarrow> [] | r # rs \<Rightarrow> take 2047 r)"

definition rc_action :: "dlna_config \<Rightarrow> byte list \<Rightarrow> byte list \<Rightarrow> dlna \<Rightarrow> http_reply \<times> dlna" where
  "rc_action c body action d =
     (let ok = soap_response ''RenderingControl'' action in
      if action = str ''GetVolume'' then
        (ok (copy_text 64 (element ''CurrentVolume'' (fmt_int (case get_volume c of None \<Rightarrow> s_volume_cache d | Some v \<Rightarrow> v)))), d)
      else if action = str ''SetVolume'' then
        (ok [], case xml_get body ''DesiredVolume'' 16 of
                  None \<Rightarrow> d
                | Some v \<Rightarrow> call_back c (On_set_volume (atoi v)) (d \<lparr> s_volume_cache := atoi v \<rparr>))
      else if action = str ''GetMute'' then
        (ok (copy_text 64 (element ''CurrentMute'' (fmt_int (case get_mute c of None \<Rightarrow> s_mute_cache d | Some m \<Rightarrow> m)))), d)
      else if action = str ''SetMute'' then
        (ok [], case xml_get body ''DesiredMute'' 16 of
                  None \<Rightarrow> d
                | Some m \<Rightarrow> call_back c (On_set_mute (atoi m)) (d \<lparr> s_mute_cache := atoi m \<rparr>))
      else if action = str ''ListPresets'' then (ok (element ''CurrentPresetNameList'' (str ''FactoryDefaults'')), d)
      else (ok [], d))"

definition rc_control_handler :: "dlna_config \<Rightarrow> httpd_req \<Rightarrow> dlna \<Rightarrow> http_reply option \<times> dlna" where
  \<comment> \<open>\<open>None\<close>: nothing is answered\<close>
  "rc_control_handler c rq d =
     (if recv_once rq = [] then (None, d)
      else case get_soap_action rq of
             None \<Rightarrow> (None, d)
           | Some action \<Rightarrow> (case rc_action c (cstr (recv_once rq)) action d of (r, d') \<Rightarrow> (Some r, d')))"

definition SUPPORTED_PROTOCOLS :: "byte list" where
  "SUPPORTED_PROTOCOLS =
     concat (map (\<lambda>p. str ''http-get:*:audio/'' @ str p @ str '':*,'')
       [''mpeg'', ''mp3'', ''x-mpeg'', ''mp4'', ''ogg'', ''flac'', ''x-flac'', ''wav'', ''x-wav'', ''aac'', ''x-aac'', ''x-m4a'',
        ''x-ms-wma'', ''L16'', ''vnd.dlna.adts'', ''ape'', ''pcm'', ''opus'']) @ str ''http-get:*:audio/*:*''"

definition cm_action :: "byte list \<Rightarrow> http_reply" where
  "cm_action action =
     (let ok = soap_response ''ConnectionManager'' action in
      if action = str ''GetProtocolInfo'' then ok (element ''Source'' [] @ element ''Sink'' SUPPORTED_PROTOCOLS)
      else if action = str ''GetCurrentConnectionIDs'' then ok (element ''ConnectionIDs'' (str ''0''))
      else if action = str ''GetCurrentConnectionInfo'' then
        ok (element ''RcsID'' (str ''0'') @ element ''AVTransportID'' (str ''0'') @ element ''ProtocolInfo'' []
          @ element ''PeerConnectionManager'' [] @ element ''PeerConnectionID'' (str ''-1'') @ element ''Direction'' (str ''Input'')
          @ element ''Status'' (str ''OK''))
      else ok [])"

definition cm_control_handler :: "httpd_req \<Rightarrow> http_reply option" where
  "cm_control_handler rq =
     (if recv_once rq = [] then None else map_option cm_action (get_soap_action rq))"

definition xml_handler :: "byte list \<Rightarrow> http_reply" where
  \<comment> \<open>an embedded file\<close>
  "xml_handler file = Resp ''200 OK'' ''text/xml; charset=utf-8'' [(''Cache-Control'', str ''max-age=1800'')] file"

definition my_404_handler :: "httpd_req \<Rightarrow> http_reply" where
  "my_404_handler rq =
     (if find_sub (str ''renderingcontrol'') (req_uri rq) \<noteq> None then Resp ''200 OK'' ''text/xml; charset=utf-8'' [] []
      else Resp ''404 Not Found'' '''' [] (str ''Not Found''))"

definition wildcard_handler :: "httpd_req \<Rightarrow> http_reply" where
  "wildcard_handler rq = Resp ''404 Not Found'' ''text/plain'' [] (str ''not found'')"

subsection \<open>The arguments of an action are read back\<close>

lemma find_sub_seg:
  assumes "60 \<notin> set p" and "60 \<notin> set s" and "r = [] \<or> hd r = 60"
  shows "find_sub (60 # p) (60 # s @ r) = (if take (length p) s = p then Some 0 else map_option (\<lambda>i. Suc (length s) + i) (find_sub (60 # p) r))"
proof -
  have "take (length p) (s @ r) = p \<longleftrightarrow> take (length p) s = p"
  proof
    assume a: "take (length p) (s @ r) = p"
    show "take (length p) s = p"
    proof (cases "length p \<le> length s")
      case False
      then obtain m where m: "length p = Suc (length s + m)" using less_imp_Suc_add [of "length s" "length p"] by auto
      then obtain xs where "r = 60 # xs" using a assms(3) by (cases r) auto
      with a m have "s @ 60 # take m xs = p" by simp
      then have "60 \<in> set p" by auto
      then show ?thesis using assms(1) by simp
    qed (use a in simp)
  next
    assume a: "take (length p) s = p"
    have "length (take (length p) s) \<le> length s" by simp
    then have "length p \<le> length s" unfolding a .
    with a show "take (length p) (s @ r) = p" by simp
  qed
  moreover have "find_sub (60 # p) (s @ r) = map_option (\<lambda>i. length s + i) (find_sub (60 # p) r)"
    using assms(2) by (intro find_sub_skip) simp_all
  ultimately show ?thesis by (cases "find_sub (60 # p) r") (simp_all add: find_sub_cons)
qed

definition letter :: "byte \<Rightarrow> bool" where
  "letter c \<longleftrightarrow> 65 \<le> c \<and> c \<le> 90 \<or> 97 \<le> c \<and> c \<le> 122"

definition tag_ok :: "string \<Rightarrow> bool" where
  "tag_ok t \<longleftrightarrow> t \<noteq> [] \<and> list_all letter (str t)"

lemma letter_not: "letter c \<Longrightarrow> c \<noteq> 60 \<and> c \<noteq> 62 \<and> c \<noteq> 47 \<and> c \<noteq> 58 \<and> c \<noteq> 63 \<and> c \<noteq> 32"
  by (auto simp: letter_def word_le_nat_alt)

lemma tag_chars: "tag_ok t \<Longrightarrow> c \<in> set (str t) \<Longrightarrow> c \<noteq> 60 \<and> c \<noteq> 62 \<and> c \<noteq> 47 \<and> c \<noteq> 58 \<and> c \<noteq> 63 \<and> c \<noteq> 32"
  using letter_not by (auto simp: tag_ok_def list_all_iff)

lemma tag_hd: "tag_ok t \<Longrightarrow> \<exists>a as. str t = a # as \<and> a \<noteq> 47 \<and> a \<noteq> 58 \<and> a \<noteq> 63"
  using tag_chars [of t "hd (str t)"] by (cases "str t") (auto simp: tag_ok_def str_simps(1) dest: arg_cong [of "str t" _ length])

definition marked :: "byte list list \<Rightarrow> byte list" where
  \<comment> \<open>a text as the pieces between its left angle brackets\<close>
  "marked ss = concat (map (\<lambda>s. 60 # s) ss)"

lemma marked_simps [simp]: "marked [] = []" "marked (s # ss) = 60 # s @ marked ss"
  by (simp_all add: marked_def)

lemma marked_append: "marked (a @ b) = marked a @ marked b"
  by (simp add: marked_def)

lemma marked_hd: "marked ss = [] \<or> hd (marked ss) = 60"
  by (cases ss) simp_all

lemma find_marked:
  assumes "60 \<notin> set p" and "list_all (\<lambda>s. 60 \<notin> set s \<and> take (length p) s \<noteq> p) ss"
  shows "find_sub (60 # p) (marked (ss @ rs)) = map_option (\<lambda>i. length (marked ss) + i) (find_sub (60 # p) (marked rs))"
  using assms(2)
proof (induction ss)
  case Nil
  then show ?case by (simp add: option.map_ident)
next
  case (Cons s ss)
  then have s: "60 \<notin> set s" "take (length p) s \<noteq> p" by simp_all
  define R where "R = marked (ss @ rs)"
  have "find_sub (60 # p) (marked ((s # ss) @ rs)) = find_sub (60 # p) (60 # s @ R)" by (simp only: append_Cons marked_simps R_def)
  also have "\<dots> = map_option (\<lambda>i. Suc (length s) + i) (find_sub (60 # p) R)"
    using find_sub_seg [OF assms(1) s(1), of R] s(2) marked_hd [of "ss @ rs"] by (simp only: R_def if_False)
  also have "find_sub (60 # p) R = map_option (\<lambda>i. length (marked ss) + i) (find_sub (60 # p) (marked rs))"
    using Cons unfolding R_def by simp
  finally show ?case
    by (cases "find_sub (60 # p) (marked rs)") (simp_all only: option.map marked_simps length_Cons length_append add_Suc add.assoc)
qed

lemma find_marked_none:
  "60 \<notin> set p \<Longrightarrow> list_all (\<lambda>s. 60 \<notin> set s \<and> take (length p) s \<noteq> p) ss \<Longrightarrow> find_sub (60 # p) (marked ss) = None"
  using find_marked [of p ss "[]"] by simp

lemma find_marked_at:
  assumes "60 \<notin> set p" and "list_all (\<lambda>s. 60 \<notin> set s \<and> take (length p) s \<noteq> p) ss" and "60 \<notin> set s" and "take (length p) s = p"
  shows "find_sub (60 # p) (marked (ss @ s # rs)) = Some (length (marked ss))"
  using find_marked [OF assms(1,2), of "s # rs"] find_sub_seg [OF assms(1,3) marked_hd, of rs] assms(4) by simp

definition arg_pieces :: "string \<times> byte list \<Rightarrow> byte list list" where
  "arg_pieces a = [str (fst a) @ 62 # snd a, 47 # str (fst a) @ [62]]"

lemma marked_arg: "marked (arg_pieces (t, v)) = element t v"
  by (simp add: arg_pieces_def element_def str_simps)

definition head_pieces :: "byte list \<Rightarrow> byte list list" where
  "head_pieces action =
     [dq ''?xml version=`1.0` encoding=`utf-8`?>'',
      dq ''s:Envelope xmlns:s=`http://schemas.xmlsoap.org/soap/envelope/` s:encodingStyle=`http://schemas.xmlsoap.org/soap/encoding/`>'',
      str ''s:Body>'', str ''u:'' @ action @ dq '' xmlns:u=`urn:schemas-upnp-org:service:AVTransport:1`>'']"

definition tail_pieces :: "byte list \<Rightarrow> byte list list" where
  "tail_pieces action = [str ''/u:'' @ action @ [62], str ''/s:Body>'', str ''/s:Envelope>'']"

definition soap_body :: "byte list \<Rightarrow> (string \<times> byte list) list \<Rightarrow> byte list" where
  \<comment> \<open>a request as control points write it\<close>
  "soap_body action args = marked (head_pieces action @ concat (map arg_pieces args) @ tail_pieces action)"

definition args_ok :: "(string \<times> byte list) list \<Rightarrow> bool" where
  \<comment> \<open>tags of letters, values without a left angle bracket, as escaped texts are\<close>
  "args_ok args \<longleftrightarrow> list_all (\<lambda>a. tag_ok (fst a) \<and> 60 \<notin> set (snd a)) args"

lemma length_element: "length (element t v) = 2 * length t + length v + 5"
  by (simp add: element_def)

lemma tag_open_match:
  assumes "tag_ok t" and "tag_ok t'"
  shows "take (Suc (length (str t))) (str t' @ 62 # v) = str t @ [62] \<longleftrightarrow> str t' = str t"
proof
  assume a: "take (Suc (length (str t))) (str t' @ 62 # v) = str t @ [62]"
  have n: "\<forall>c\<in>set (str t). c \<noteq> 62" "\<forall>c\<in>set (str t'). c \<noteq> 62" using tag_chars assms by blast+
  have "str t' @ 62 # v = (str t @ [62]) @ drop (Suc (length (str t))) (str t' @ 62 # v)"
    unfolding a [symmetric] by (rule append_take_drop_id [symmetric])
  then have "str t' @ 62 # v = str t @ 62 # drop (Suc (length (str t))) (str t' @ 62 # v)" by simp
  from arg_cong [OF this, of "takeWhile (\<lambda>c. c \<noteq> 62)"] show "str t' = str t"
    by (simp add: takeWhile_stop [OF n(1)] takeWhile_stop [OF n(2)])
qed simp


lemma str_letters: "list_all letter (str t) \<Longrightarrow> c \<in> set (str t) \<Longrightarrow> letter c"
  by (simp add: list_all_iff)

lemma head_no_bracket: "list_all letter action \<Longrightarrow> list_all (\<lambda>s. 60 \<notin> set s) (head_pieces action)"
  "list_all letter action \<Longrightarrow> list_all (\<lambda>s. 60 \<notin> set s) (tail_pieces action)"
  using letter_not by (auto simp: head_pieces_def tail_pieces_def dq_def str_simps list_all_iff)

lemma args_no_bracket: "args_ok args \<Longrightarrow> list_all (\<lambda>s. 60 \<notin> set s) (concat (map arg_pieces args))"
  using tag_chars by (fastforce simp: args_ok_def arg_pieces_def list_all_iff)

lemma take_prefix_false: "x \<in> set p \<Longrightarrow> x \<notin> set s \<Longrightarrow> take (length p) s \<noteq> p"
  by (metis in_set_takeD)

lemma takeWhile_of_prefix:
  assumes "62 \<notin> set q" and "take (Suc (length q)) s = q @ [62]"
  shows "takeWhile (\<lambda>c. c \<noteq> 62) s = q"
proof -
  have "s = (q @ [62]) @ drop (Suc (length q)) s" unfolding assms(2) [symmetric] by (rule append_take_drop_id [symmetric])
  then have "s = q @ 62 # drop (Suc (length q)) s" by simp
  moreover have "\<forall>c\<in>set q. c \<noteq> 62" using assms(1) by auto
  ultimately show ?thesis using takeWhile_stop [of q "\<lambda>c. c \<noteq> 62" 62] by metis
qed

lemma tag_upto:
  "tag_ok t \<Longrightarrow> takeWhile (\<lambda>c. c \<noteq> 62) (str t @ 62 # v) = str t"
  "tag_ok t \<Longrightarrow> takeWhile (\<lambda>c. c \<noteq> 62) (47 # str t @ [62]) = 47 # str t"
  using tag_chars by (simp_all add: takeWhile_stop)

lemma head_open:
  "list_all letter action \<Longrightarrow> s \<in> set (head_pieces action) \<Longrightarrow> \<not> list_all letter (takeWhile (\<lambda>c. c \<noteq> 62) s)"
  using letter_not by (auto simp: head_pieces_def str_simps dq_def letter_def)

lemma head_uopen:
  assumes "list_all letter action" and "tag_ok t" and "s \<in> set (head_pieces action)"
  shows "takeWhile (\<lambda>c. c \<noteq> 62) s \<noteq> 117 # 58 # str t"
proof -
  have u: "takeWhile (\<lambda>c. c \<noteq> 62) (action @ 32 # r) = action @ takeWhile (\<lambda>c. c \<noteq> 62) (32 # r)" for r
    using assms(1) letter_not by (intro takeWhile_append2) (auto simp: list_all_iff)
  have "32 \<notin> set (str t)" using tag_chars [OF assms(2)] by auto
  then have "action @ 32 # r \<noteq> str t" for r by (metis in_set_conv_decomp)
  with assms(3) u show ?thesis by (auto simp: head_pieces_def str_simps dq_def)
qed

lemma tail_slash: "s \<in> set (tail_pieces action) \<Longrightarrow> \<exists>r. s = 47 # r"
  by (auto simp: tail_pieces_def str_simps)

definition misses :: "byte list \<Rightarrow> byte list \<Rightarrow> bool" where
  "misses p s \<longleftrightarrow> 60 \<notin> set s \<and> take (length p) s \<noteq> p"

lemma open_misses:
  assumes "tag_ok t" and "list_all letter action" and "args_ok args" and "str t \<notin> set (map (\<lambda>a. str (fst a)) args)"
  shows "list_all (misses (str t @ [62])) (head_pieces action @ concat (map arg_pieces args))"
proof -
  have t: "62 \<notin> set (str t)" "list_all letter (str t)" using tag_chars [OF assms(1)] assms(1) by (auto simp: tag_ok_def)
  have "take (length (str t @ [62])) s \<noteq> str t @ [62]" if "s \<in> set (head_pieces action)" for s
    using takeWhile_of_prefix [OF t(1)] head_open [OF assms(2) that] t(2) by auto
  moreover have "take (length (str t @ [62])) s \<noteq> str t @ [62]" if "s \<in> set (arg_pieces a)" "a \<in> set args" for s a
  proof -
    have a: "tag_ok (fst a)" using assms(3) that(2) by (auto simp: args_ok_def list_all_iff)
    have "str (fst a) \<in> set (map (\<lambda>a. str (fst a)) args)" using that(2) by simp
    then have "str (fst a) \<noteq> str t" using assms(4) by metis
    moreover
    have "47 # str (fst a) \<noteq> str t" using tag_chars [OF assms(1)] by (metis list.set_intros(1))
    ultimately have "takeWhile (\<lambda>c. c \<noteq> 62) s \<noteq> str t" using tag_upto [OF a] that(1) by (auto simp: arg_pieces_def)
    then show ?thesis using takeWhile_of_prefix [OF t(1)] by auto
  qed
  ultimately show ?thesis
    using head_no_bracket(1) [OF assms(2)] args_no_bracket [OF assms(3)] by (auto simp: misses_def list_all_iff)
qed

lemma uopen_misses:
  assumes "tag_ok t" and "list_all letter action" and "args_ok args"
  shows "list_all (misses (117 # 58 # str t @ [62])) (head_pieces action @ concat (map arg_pieces args) @ tail_pieces action)"
proof -
  have t: "62 \<notin> set (117 # 58 # str t)" using tag_chars [OF assms(1)] by auto
  have "takeWhile (\<lambda>c. c \<noteq> 62) s \<noteq> 117 # 58 # str t" if "s \<in> set (arg_pieces a)" "a \<in> set args" for s a
  proof -
    have a: "tag_ok (fst a)" using assms(3) that(2) by (auto simp: args_ok_def list_all_iff)
    then have "str (fst a) \<noteq> 117 # 58 # str t" using tag_chars [of "fst a" 58] by auto
    then show ?thesis using tag_upto [OF a] that(1) by (auto simp: arg_pieces_def)
  qed
  moreover have "takeWhile (\<lambda>c. c \<noteq> 62) s \<noteq> 117 # 58 # str t" if "s \<in> set (tail_pieces action)" for s
    using tail_slash [OF that] by auto
  ultimately have "takeWhile (\<lambda>c. c \<noteq> 62) s \<noteq> 117 # 58 # str t"
    if "s \<in> set (head_pieces action @ concat (map arg_pieces args) @ tail_pieces action)" for s
    using that head_uopen [OF assms(2,1)] by auto
  then have "take (length (117 # 58 # str t @ [62])) s \<noteq> 117 # 58 # str t @ [62]"
    if "s \<in> set (head_pieces action @ concat (map arg_pieces args) @ tail_pieces action)" for s
    using takeWhile_of_prefix [OF t, of s] that by fastforce
  then show ?thesis
    using head_no_bracket [OF assms(2)] args_no_bracket [OF assms(3)] unfolding misses_def list_all_iff by auto
qed

lemma uclose_misses:
  assumes "tag_ok t" and "list_all letter action" and "args_ok args" and "take (length t) action \<noteq> str t"
  shows "list_all (misses (47 # 117 # 58 # str t)) (concat (map arg_pieces args) @ tail_pieces action)"
proof -
  have "take (length (47 # 117 # 58 # str t)) s \<noteq> 47 # 117 # 58 # str t" if "s \<in> set (arg_pieces a)" "a \<in> set args" for s a
  proof -
    have a: "tag_ok (fst a)" using assms(3) that(2) by (auto simp: args_ok_def list_all_iff)
    from tag_hd [OF a] obtain b bs where b: "str (fst a) = b # bs" "b \<noteq> 47" by auto
    have "58 \<notin> set (47 # str (fst a) @ [62])" using tag_chars [OF a] by auto
    from take_prefix_false [OF _ this, of "47 # 117 # 58 # str t"] b that(1) show ?thesis by (auto simp: arg_pieces_def)
  qed
  moreover have "take (length (47 # 117 # 58 # str t)) s \<noteq> 47 # 117 # 58 # str t" if "s \<in> set (tail_pieces action)" for s
  proof -
    have "62 \<notin> set (str t)" using tag_chars [OF assms(1)] by auto
    then have "take (length (str t)) (action @ [62]) \<noteq> str t"
    proof (cases "length t \<le> length action")
      case False
      then have "take (length (str t)) (action @ [62]) = action @ [62]" by simp
      moreover have "action @ [62] \<noteq> str t" using \<open>62 \<notin> set (str t)\<close> in_set_conv_decomp by metis
      ultimately show ?thesis by simp
    qed (use assms(4) in simp)
    with that show ?thesis by (auto simp: tail_pieces_def str_simps(1,2))
  qed
  ultimately show ?thesis
    using head_no_bracket(2) [OF assms(2)] args_no_bracket [OF assms(3)] unfolding misses_def list_all_iff by auto
qed

lemma find_sub_behind: "find_sub p xs = None \<Longrightarrow> find_sub (a @ p) xs = None"
proof (rule ccontr)
  assume n: "find_sub p xs = None" and "find_sub (a @ p) xs \<noteq> None"
  then obtain i where "find_sub (a @ p) xs = Some i" by auto
  from find_sub_Some [OF this] have i: "take (length (a @ p)) (drop i xs) = a @ p" "i + length (a @ p) \<le> length xs" by simp_all
  from arg_cong [OF i(1), of "drop (length a)"] have "take (length p) (drop (i + length a) xs) = p"
    by (simp add: drop_take add.commute)
  moreover have "i + length a \<le> length xs" using i(2) by simp
  ultimately show False using n unfolding find_sub_None by blast
qed

lemma xml_get_arg:
  assumes "list_all letter action" and ok: "args_ok (xs @ (t, v) # ys)" and new: "str t \<notin> set (map (\<lambda>a. str (fst a)) xs)"
    and "take (length t) action \<noteq> str t" and sp: "find_sub (str t @ [32]) (soap_body action (xs @ (t, v) # ys)) = None"
  shows "xml_get (soap_body action (xs @ (t, v) # ys)) t n = Some (take (n - 1) v)"
proof -
  define B where "B = soap_body action (xs @ (t, v) # ys)"
  define P where "P = head_pieces action @ concat (map arg_pieces xs)"
  define Q where "Q = (47 # str t @ [62]) # concat (map arg_pieces ys) @ tail_pieces action"
  have B: "B = marked (P @ (str t @ 62 # v) # Q)" by (simp add: B_def soap_body_def P_def Q_def arg_pieces_def)
  have t: "tag_ok t" "60 \<notin> set v" and xs: "args_ok xs" using ok by (simp_all add: args_ok_def)
  have t': "60 \<notin> set (str t)" "62 \<notin> set (str t)" using tag_chars [OF t(1)] by auto
  have "find_sub (60 # 117 # 58 # str t @ [62]) B = None"
    unfolding B_def soap_body_def using uopen_misses [OF t(1) assms(1) ok] t'
    by (intro find_marked_none) (auto simp: list_all_iff misses_def)
  moreover have "find_sub (60 # 117 # 58 # str t @ [32]) B = None" "find_sub (str t @ [32]) B = None"
    using sp find_sub_behind [of "str t @ [32]" B "[60, 117, 58]"] by (simp_all add: B_def)
  ultimately have none: "tag_start B (str ''<u:'' @ str t @ [62]) (str t) = None"
    by (simp add: tag_start_def str_simps del: find_sub.simps)
  have "find_sub (60 # str t @ [62]) B = Some (length (marked P))"
    unfolding B using open_misses [OF t(1) assms(1) xs new] t' t(2)
    by (intro find_marked_at) (auto simp: P_def list_all_iff misses_def)
  then have some: "tag_start B (60 # str t @ [62]) (str t) = Some (length (marked P))" by (simp add: tag_start_def)
  have d: "drop (length (marked P)) B = (60 # str t) @ 62 # v @ marked Q" by (simp add: B marked_append)
  have gt: "index_of 62 (drop (length (marked P)) B) = Some (Suc (length t))"
    unfolding d using t'(2) index_of_at [of 62 "60 # str t"] by simp
  have "drop (length (marked P) + Suc (length t) + 1) B = drop (Suc (length t) + 1) (drop (length (marked P)) B)"
    by (simp add: add.commute)
  also have "\<dots> = v @ marked Q" by (simp add: d)
  finally have r: "drop (length (marked P) + Suc (length t) + 1) B = v @ marked Q" .
  have "find_sub (60 # 47 # 117 # 58 # str t) (marked Q) = None"
    using uclose_misses [OF t(1) assms(1) ok assms(4)] t'
    by (intro find_marked_none) (auto simp: Q_def list_all_iff misses_def arg_pieces_def)
  then have u: "find_sub (str ''</u:'' @ str t) (v @ marked Q) = None"
    using find_sub_skip [of "60 # 47 # 117 # 58 # str t" v "marked Q"] t(2) by (simp add: str_simps)
  have "marked Q = (60 # 47 # str t) @ 62 # marked (concat (map arg_pieces ys) @ tail_pieces action)" by (simp add: Q_def)
  then have "find_sub (60 # 47 # str t) (marked Q) = Some 0" using find_sub_prefix by metis
  then have c: "find_sub (str ''</'' @ str t) (v @ marked Q) = Some (length v)"
    using find_sub_skip [of "60 # 47 # str t" v "marked Q"] t(2) by (simp add: str_simps)
  have "take (min (length v) (n - 1)) (v @ marked Q) = take (n - 1) v" by (simp add: min_def)
  with none some gt r u c show ?thesis
    unfolding B_def [symmetric] xml_get_def behind_gt_def Let_def by simp
qed

definition plain_request :: "byte list \<Rightarrow> (string \<times> byte list) list \<Rightarrow> bool" where
  \<comment> \<open>distinct tags, none the beginning of the action's name, and no tag with a blank behind it\<close>
  "plain_request action args \<longleftrightarrow>
     list_all letter action \<and> args_ok args \<and> distinct (map (\<lambda>a. str (fst a)) args)
     \<and> list_all (\<lambda>a. take (length (fst a)) action \<noteq> str (fst a) \<and> find_sub (str (fst a) @ [32]) (soap_body action args) = None) args"

lemma xml_get_of_plain:
  "plain_request action args \<Longrightarrow> (t, v) \<in> set args \<Longrightarrow> xml_get (soap_body action args) t n = Some (take (n - 1) v)"
proof -
  assume a: "plain_request action args" "(t, v) \<in> set args"
  then obtain xs ys where args: "args = xs @ (t, v) # ys" by (auto dest: split_list)
  then show ?thesis using a(1) unfolding args plain_request_def by (intro xml_get_arg) auto
qed


lemma find_sub_before:
  assumes "find_sub (p @ [x]) a = None" and "x \<notin> set b"
  shows "find_sub (p @ [x]) (a @ b) = None"
proof (rule ccontr)
  assume "find_sub (p @ [x]) (a @ b) \<noteq> None"
  then obtain i where i: "find_sub (p @ [x]) (a @ b) = Some i" by auto
  from find_sub_Some [OF i] have t: "take (length (p @ [x])) (drop i (a @ b)) = p @ [x]" "i + Suc (length p) \<le> length (a @ b)" by simp_all
  show False
  proof (cases "i + Suc (length p) \<le> length a")
    case True
    with t(1) have "take (length (p @ [x])) (drop i a) = p @ [x]" by simp
    moreover have "i \<le> length a" using True by simp
    ultimately show False using assms(1) unfolding find_sub_None by blast
  next
    case False
    have "x = take (length (p @ [x])) (drop i (a @ b)) ! length p" unfolding t(1) by simp
    also have "\<dots> = (a @ b) ! (i + length p)" using t(2) by (simp del: take_append drop_append)
    also have "\<dots> = b ! (i + length p - length a)" using False by (simp add: nth_append)
    finally have "x \<in> set b" using t(2) False by simp
    with assms(2) show False by simp
  qed
qed

lemma not_in_marked: "(\<And>a. a \<in> set as \<Longrightarrow> x \<notin> set (marked (f a))) \<Longrightarrow> x \<notin> set (marked (concat (map f as)))"
  by (induction as) (simp_all add: marked_append)

lemma no_blank:
  assumes "list_all letter action" and "args_ok args" and "list_all (\<lambda>a. 32 \<notin> set (snd a)) args"
  shows "32 \<notin> set (marked (concat (map arg_pieces args) @ tail_pieces action))"
proof -
  have "32 \<notin> set (marked (tail_pieces action))"
    using assms(1) letter_not by (auto simp: tail_pieces_def str_simps list_all_iff)
  moreover have "32 \<notin> set (marked (arg_pieces a))" if "a \<in> set args" for a
    using that assms(2,3) tag_chars [of "fst a" 32] by (auto simp: arg_pieces_def args_ok_def list_all_iff)
  then have "32 \<notin> set (marked (concat (map arg_pieces args)))" by (rule not_in_marked)
  ultimately show ?thesis by (simp add: marked_append)
qed

lemma plain_blank:
  assumes "list_all letter action" and "args_ok args" and "list_all (\<lambda>a. 32 \<notin> set (snd a)) args"
    and "find_sub (str t @ [32]) (marked (head_pieces action)) = None"
  shows "find_sub (str t @ [32]) (soap_body action args) = None"
  unfolding soap_body_def marked_append [of "head_pieces action"] by (rule find_sub_before [OF assms(4) no_blank [OF assms(1,2,3)]])

lemma req_recv_concat: "list_all (\<lambda>r. r \<noteq> []) rs \<Longrightarrow> req_recv (length (concat rs)) rs = Some (concat rs)"
proof (induction rs)
  case (Cons r rs)
  then obtain n where n: "length (concat (r # rs)) = Suc n" by (cases r) auto
  have "take (Suc n) r = r" "Suc n - length r = length (concat rs)" using n by simp_all
  with Cons n show ?case by simp
qed simp

definition avt_post :: "httpd_req \<Rightarrow> byte list \<Rightarrow> (string \<times> byte list) list \<Rightarrow> bool" where
  \<comment> \<open>a POST to the AVTransport service, arriving in any pieces\<close>
  "avt_post rq action args \<longleftrightarrow>
     concat (recvs rq) = soap_body action args \<and> list_all (\<lambda>r. r \<noteq> []) (recvs rq)
     \<and> content_len rq = length (soap_body action args) \<and> content_len rq \<le> 32768
     \<and> hdr rq ''SOAPAction'' 128 = Some (dq ''`urn:schemas-upnp-org:service:AVTransport:1#'' @ action @ [34])"

lemma strip_quote: "action \<noteq> [] \<Longrightarrow> list_all letter action \<Longrightarrow> strip_end (action @ [34]) = action"
proof -
  assume a: "action \<noteq> []" "list_all letter action"
  then obtain c cs where c: "action = c # cs" by (cases action) auto
  have "dropWhile (\<lambda>x. x = 34 \<or> x = 32) (rev cs) = rev cs"
  proof (cases "rev cs")
    case (Cons y ys)
    then have "y \<in> set cs" by (metis list.set_intros(1) set_rev)
    then have "letter y" using a(2) c by (simp add: list_all_iff)
    then have "y \<noteq> 34" "y \<noteq> 32" by (auto simp: letter_def)
    with Cons show ?thesis by simp
  qed simp
  then show ?thesis by (simp add: c strip_end_def)
qed

lemma get_soap_action_plain:
  assumes "hdr rq ''SOAPAction'' 128 = Some (dq ''`urn:schemas-upnp-org:service:AVTransport:1#'' @ action @ [34])"
    and "action \<noteq> []" and "list_all letter action"
  shows "get_soap_action rq = Some action"
proof -
  define u where "u = str ''urn:schemas-upnp-org:service:AVTransport:1''"
  have v: "dq ''`urn:schemas-upnp-org:service:AVTransport:1#'' @ action @ [34] = 34 # u @ 35 # action @ [34]"
    by (simp add: dq_def str_simps u_def)
  have p: "dropWhile (\<lambda>c. c = 34 \<or> c = 32) (u @ r) = u @ r" for r
    by (simp add: u_def str_simps)
  have "35 \<notin> set u" by (simp add: u_def str_simps)
  then have "index_of 35 (u @ 35 # action @ [34]) = Some (length u)" by (rule index_of_at)
  then show ?thesis using assms(1) strip_quote [OF assms(2,3)]
    unfolding get_soap_action_def v by (simp add: p)
qed

lemma no_nul:
  assumes "list_all letter action" and "args_ok args" and "list_all (\<lambda>a. 0 \<notin> set (snd a)) args"
  shows "cstr (soap_body action args) = soap_body action args"
proof -
  have l: "\<not> letter 0" by (simp add: letter_def)
  have "0 \<notin> set (marked (head_pieces action))" "0 \<notin> set (marked (tail_pieces action))"
    using assms(1) l by (auto simp: head_pieces_def tail_pieces_def dq_def str_simps list_all_iff)
  moreover have "0 \<notin> set (marked (arg_pieces a))" if "a \<in> set args" for a
    using that assms(2,3) l str_letters [of "fst a" 0] by (auto simp: arg_pieces_def args_ok_def tag_ok_def list_all_iff)
  then have "0 \<notin> set (marked (concat (map arg_pieces args)))" by (rule not_in_marked)
  ultimately have "\<forall>b\<in>set (soap_body action args). b \<noteq> 0" by (auto simp: soap_body_def marked_append)
  then show ?thesis unfolding cstr_def by (simp add: takeWhile_eq_all_conv)
qed

lemma avt_posted:
  assumes "avt_post rq action args" and "action \<noteq> []" and "list_all letter action" and "args_ok args"
    and "list_all (\<lambda>a. 0 \<notin> set (snd a)) args" and "mem c (content_len rq + 1)"
  shows "handle_avt_control c rq d = avt_action c rq (soap_body action args) action d"
proof -
  have r: "req_recv (content_len rq) (recvs rq) = Some (soap_body action args)" "get_soap_action rq = Some action" "0 < content_len rq"
    using assms(1) req_recv_concat [of "recvs rq"] get_soap_action_plain [OF _ assms(2,3)]
    by (auto simp: avt_post_def soap_body_def head_pieces_def)
  with assms(1,6) show ?thesis by (simp add: handle_avt_control_def avt_post_def no_nul [OF assms(3,4,5)])
qed

lemma str_eq: "str s = str t \<longleftrightarrow> s = t"
proof -
  have "inj (of_char :: char \<Rightarrow> byte)"
  proof (rule injI)
    fix a b :: char
    assume "of_char a = (of_char b :: byte)"
    then have "unat (of_nat (of_char a) :: byte) = unat (of_nat (of_char b) :: byte)" by (simp only: of_nat_of_char)
    moreover have "of_char x < (2::nat) ^ LENGTH(8)" for x using of_char_mod_256 [of x, where ?'a = nat] mod_less_divisor [of 256 "of_char x"] by simp
    ultimately have "(of_char a :: nat) = of_char b" by (metis mod_less unat_of_nat)
    then show "a = b" by simp
  qed
  then show ?thesis by (simp add: str_def inj_map_eq_map)
qed

definition seek_args :: "int \<Rightarrow> (string \<times> byte list) list" where
  "seek_args sec = [(''InstanceID'', str ''0''), (''Unit'', str ''REL_TIME''), (''Target'', fmt_time sec)]"

lemma digit_list_not: "list_all is_digit ds \<Longrightarrow> 0 \<notin> set ds \<and> 32 \<notin> set ds \<and> 60 \<notin> set ds"
  by (auto simp: list_all_iff is_digit_def)

lemma fmt_time_not: "0 \<notin> set (fmt_time sec) \<and> 32 \<notin> set (fmt_time sec) \<and> 60 \<notin> set (fmt_time sec)"
  using digit_list_not [OF fmt_dec0_digits] by (simp add: fmt_time_def Let_def)

lemma seek_head:
  "list_all (\<lambda>t. find_sub (str t @ [32]) (marked (head_pieces (str ''Seek''))) = None) [''InstanceID'', ''Unit'', ''Target'']"
  by code_simp

lemma seek_letters: "list_all letter (str ''Seek'')" "list_all tag_ok [''InstanceID'', ''Unit'', ''Target'']"
  by code_simp+

lemma seek_args_ok: "args_ok (seek_args sec)" "list_all (\<lambda>a. 0 \<notin> set (snd a)) (seek_args sec)" "list_all (\<lambda>a. 32 \<notin> set (snd a)) (seek_args sec)"
  using seek_letters(2) fmt_time_not [of sec] by (simp_all add: seek_args_def args_ok_def str_simps)

lemma seek_plain: "plain_request (str ''Seek'') (seek_args sec)"
proof -
  have "distinct (map (\<lambda>a. str (fst a)) (seek_args sec))" by (simp add: seek_args_def str_simps)
  moreover have "list_all (\<lambda>a. take (length (fst a)) (str ''Seek'') \<noteq> str (fst a)) (seek_args sec)"
    by (simp add: seek_args_def str_simps)
  moreover have "list_all (\<lambda>a. find_sub (str (fst a) @ [32]) (marked (head_pieces (str ''Seek''))) = None) (seek_args sec)"
    using seek_head by (simp only: seek_args_def list.pred_inject fst_conv)
  ultimately show ?thesis
    using plain_blank [OF seek_letters(1) seek_args_ok(1,3)] seek_letters(1) seek_args_ok(1) [of sec]
    unfolding plain_request_def list_all_iff by blast
qed

lemma parse_fmt_time:
  assumes "0 \<le> sec" and "sec < 2 ^ 31"
  shows "sscanf [Num, Lit 58, Num, Lit 58, Num] (fmt_time sec) = [sec div 3600, sec div 60 mod 60, sec mod 60]"
proof -
  define n where "n = nat sec"
  have n: "n < 2 ^ 31" "sec = int n" using assms by (auto simp: n_def)
  define x y z where "x = n div 3600" "y = n div 60 mod 60" "z = n mod 60"
  have xyz: "x < 2 ^ 31" "y < 2 ^ 31" "z < 2 ^ 31" using n(1) unfolding x_y_z_def by linarith+
  have f: "fmt_time sec = fmt_dec0 2 x @ 58 # fmt_dec0 2 y @ 58 # fmt_dec0 2 z @ []"
    by (simp add: fmt_time_def x_y_z_def n(2))
  have l: "sscanf (Lit 58 # f) (58 # s) = sscanf f s" for f s by simp
  have c: "(58 # s = [] \<or> \<not> is_digit (hd (58 # s)))" for s by simp
  have "sscanf [Num, Lit 58, Num, Lit 58, Num] (fmt_time sec) = int x # sscanf [Lit 58, Num, Lit 58, Num] (58 # fmt_dec0 2 y @ 58 # fmt_dec0 2 z @ [])"
    unfolding f by (rule sscanf_fmt [OF xyz(1) c])
  also have "\<dots> = int x # int y # sscanf [Lit 58, Num] (58 # fmt_dec0 2 z @ [])"
    unfolding l sscanf_fmt [OF xyz(2) c] ..
  also have "\<dots> = [int x, int y, int z]"
    unfolding l using sscanf_fmt [OF xyz(3), of "[]" "[]" 2] by (simp del: sscanf.simps(3))
  finally show ?thesis by (simp add: x_y_z_def n(2) zdiv_int zmod_int)
qed

lemma parse_seek_read:
  assumes "xml_get body ''Target'' 32 = Some buf" and "sscanf [Num, Lit 58, Num, Lit 58, Num] buf = [h, m, s]"
  shows "parse_seek_target body = s32 (h * 3600 + m * 60 + s)"
  unfolding parse_seek_target_def assms option.case list.case by simp

lemma clock_split: "(n :: int) div 3600 * 3600 + n div 60 mod 60 * 60 + n mod 60 = n"
proof -
  have "n div 3600 = n div 60 div 60" using zdiv_zmult2_eq [of 60 n 60] by simp
  moreover have "n = n div 60 * 60 + n mod 60" "n div 60 = n div 60 div 60 * 60 + n div 60 mod 60" by simp_all
  ultimately show ?thesis by linarith
qed

lemma length_fmt_time: "sec < 2 ^ 31 \<Longrightarrow> length (fmt_time sec) \<le> 12"
proof -
  assume "sec < 2 ^ 31"
  then have "nat (max 0 sec) < 10 ^ 6 * 3600" by simp
  then have "nat (max 0 sec) div 3600 < 10 ^ 6" by (rule less_mult_imp_div_less)
  then have "length (fmt_dec0 2 (nat (max 0 sec) div 3600)) \<le> 6"
    using length_fmt_dec_le [of "nat (max 0 sec) div 3600" 6] unfolding fmt_dec0_def length_append length_replicate by linarith
  moreover have "length (fmt_dec0 2 (m mod 60)) = 2" for m by (rule length_fmt_dec0) (simp_all add: order.strict_trans [OF mod_less_divisor])
  ultimately show ?thesis by (simp add: fmt_time_def Let_def)
qed

text \<open>C13: A seek request in the notation of the renderer's own positions makes the application seek to that
  second, for every position an \<open>int\<close> holds and however the request arrives; its body is answered and nothing
  else changes.\<close>

theorem seek_reaches_second:
  assumes "0 \<le> sec" and "sec < 2 ^ 31" and "avt_post rq (str ''Seek'') (seek_args sec)" and "mem c (content_len rq + 1)"
  shows "handle_avt_control c rq d = (soap_response ''AVTransport'' (str ''Seek'') [], call_back c (On_seek sec) d)"
proof -
  have "xml_get (soap_body (str ''Seek'') (seek_args sec)) ''Target'' 32 = Some (take (32 - 1) (fmt_time sec))"
    by (rule xml_get_of_plain [OF seek_plain]) (simp add: seek_args_def)
  also have "take (32 - 1) (fmt_time sec) = fmt_time sec" using length_fmt_time [OF assms(2)] by simp
  finally have "parse_seek_target (soap_body (str ''Seek'') (seek_args sec)) = s32 (sec div 3600 * 3600 + sec div 60 mod 60 * 60 + sec mod 60)"
    by (rule parse_seek_read) (rule parse_fmt_time [OF assms(1,2)])
  also have "sec div 3600 * 3600 + sec div 60 mod 60 * 60 + sec mod 60 = sec" by (rule clock_split)
  also have "s32 sec = sec" using assms(1,2) by (intro s32_small) simp_all
  finally have "parse_seek_target (soap_body (str ''Seek'') (seek_args sec)) = sec" .
  moreover have "handle_avt_control c rq d = avt_action c rq (soap_body (str ''Seek'') (seek_args sec)) (str ''Seek'') d"
    by (rule avt_posted [OF assms(3) _ seek_letters(1) seek_args_ok(1,2) assms(4)]) (simp add: str_simps)
  ultimately show ?thesis using assms(1) by (simp add: avt_action_def Let_def str_eq)
qed

definition keeps_texts :: "dlna_config \<Rightarrow> bool" where
  \<comment> \<open>the application leaves the renderer's texts alone\<close>
  "keeps_texts c \<longleftrightarrow> (\<forall>e d. s_uri (app c e d) = s_uri d \<and> s_metadata (app c e d) = s_metadata d)"

lemma call_back_texts: "keeps_texts c \<Longrightarrow> s_uri (call_back c e d) = s_uri d \<and> s_metadata (call_back c e d) = s_metadata d"
  by (simp add: keeps_texts_def call_back_def)

lemma async_texts [simp]:
  "s_uri (custom_dlna_notify_transport_state_async d) = s_uri d" "s_metadata (custom_dlna_notify_transport_state_async d) = s_metadata d"
  by (simp_all add: custom_dlna_notify_transport_state_async_def split: option.splits)

definition set_uri_args :: "byte list \<Rightarrow> byte list \<Rightarrow> (string \<times> byte list) list" where
  "set_uri_args uri meta = [(''InstanceID'', str ''0''), (''CurrentURI'', uri), (''CurrentURIMetaData'', meta)]"

lemma length_quoted [simp]: "length (dq s) = length s"
  by (simp add: dq_def)

lemma length_envelope: "length (envelope service action inner) = 259 + 2 * length action + length service + length inner"
  by (simp add: envelope_def)


subsection \<open>At concrete requests\<close>

definition quiet_config :: dlna_config where
  \<comment> \<open>an application without getters, with every other callback, which changes nothing here\<close>
  "quiet_config = \<lparr> get_transport_state = None, get_uri = None, get_position_sec = None, get_duration_sec = None,
     get_position_ms = None, get_volume = None, get_mute = None, has_callback = (\<lambda>e. True), app = (\<lambda>e d. d),
     cfg_uuid = None, cfg_port = 8080, mem = (\<lambda>n. True) \<rparr>"

definition post_request :: "byte list \<Rightarrow> (string \<times> byte list) list \<Rightarrow> httpd_req" where
  "post_request action args = \<lparr> rq_method = HTTP_POST, req_uri = str ''/upnp/control/avtransport'', content_len = length (soap_body action args),
     hdr = (\<lambda>name n. if name = ''SOAPAction'' then Some (dq ''`urn:schemas-upnp-org:service:AVTransport:1#'' @ action @ [34]) else None),
     hdr_left = (\<lambda>name n old. old), hdr_len = (\<lambda>name. 0), recvs = [take 100 (soap_body action args), drop 100 (soap_body action args)] \<rparr>"

lemma length_soap_body:
  "length (soap_body action args) = 254 + 2 * length action + sum_list (map (\<lambda>a. 2 * length (fst a) + length (snd a) + 5) args)"
proof -
  have "length (marked (concat (map arg_pieces args))) = sum_list (map (\<lambda>a. 2 * length (fst a) + length (snd a) + 5) args)"
    by (induction args) (simp_all add: arg_pieces_def marked_append)
  then show ?thesis by (simp add: soap_body_def marked_append head_pieces_def tail_pieces_def)
qed

lemma avt_post_request:
  "length (soap_body action args) \<le> 32768 \<Longrightarrow> avt_post (post_request action args) action args"
  by (auto simp: avt_post_def post_request_def length_soap_body dest: arg_cong [where f = length])


theorem seek_reaches_second_witness:
  "handle_avt_control quiet_config (post_request (str ''Seek'') (seek_args 187)) dlna_boot
   = (soap_response ''AVTransport'' (str ''Seek'') [], call_back quiet_config (On_seek 187) dlna_boot)"
proof (rule seek_reaches_second)
  show "avt_post (post_request (str ''Seek'') (seek_args 187)) (str ''Seek'') (seek_args 187)"
    using length_fmt_time [of 187] by (intro avt_post_request) (simp add: length_soap_body seek_args_def)
qed (simp_all add: quiet_config_def)

lemma set_uri_plain: "plain_request (str ''SetAVTransportURI'') (set_uri_args (str ''http://h/a.mp3'') (str ''&lt;DIDL-Lite/&gt;''))"
proof -
  define args where "args = set_uri_args (str ''http://h/a.mp3'') (str ''&lt;DIDL-Lite/&gt;'')"
  have l: "list_all letter (str ''SetAVTransportURI'')" by code_simp
  have t: "list_all tag_ok [''InstanceID'', ''CurrentURI'', ''CurrentURIMetaData'']" by code_simp
  have h: "list_all (\<lambda>t. find_sub (str t @ [32]) (marked (head_pieces (str ''SetAVTransportURI''))) = None) [''InstanceID'', ''CurrentURI'', ''CurrentURIMetaData'']"
    by code_simp
  have ok: "args_ok args" "list_all (\<lambda>a. 32 \<notin> set (snd a)) args"
    using t by (simp_all add: args_def set_uri_args_def args_ok_def str_simps)
  have "distinct (map (\<lambda>a. str (fst a)) args)" by (simp add: args_def set_uri_args_def str_eq)
  moreover have "list_all (\<lambda>a. take (length (fst a)) (str ''SetAVTransportURI'') \<noteq> str (fst a)) args"
    by (simp add: args_def set_uri_args_def str_simps)
  moreover have "list_all (\<lambda>a. find_sub (str (fst a) @ [32]) (marked (head_pieces (str ''SetAVTransportURI''))) = None) args"
    using h by (simp only: args_def set_uri_args_def list.pred_inject fst_conv)
  ultimately show ?thesis using plain_blank [OF l ok] l ok(1)
    unfolding plain_request_def list_all_iff args_def by blast
qed


end
