(* ===== verification/Gena.thy ===== *)
theory Gena
  imports Soap
begin

text \<open>
  The renderer's events (\<open>custom_dlna.c\<close>: \<open>event_handler\<close>, \<open>gena_notify\<close>, \<open>gena_task\<close>,
  \<open>custom_dlna_notify_transport_state\<close>, \<open>custom_dlna_notify_rcs\<close>, \<open>pos_notify_task\<close> and
  \<open>custom_dlna_init\<close>). Time is in seconds since the start; whether a connection to a subscriber comes about
  is an answer of the network. What is handed to \<open>send\<close> is listed slot by slot.
\<close>

subsection \<open>Subscriptions\<close>

definition SUB_TIMEOUT_SEC :: int where "SUB_TIMEOUT_SEC = 1800"

definition first_where :: "('a \<Rightarrow> bool) \<Rightarrow> 'a list \<Rightarrow> nat option" where
  \<comment> \<open>a loop that returns the first index, or -1\<close>
  "first_where P xs = (let n = length (takeWhile (\<lambda>x. \<not> P x) xs) in if n < length xs then Some n else None)"

definition find_sub_by_sid :: "byte list \<Rightarrow> dlna \<Rightarrow> nat option" where
  "find_sub_by_sid sid d = first_where (\<lambda>s. sub_sid s \<noteq> [] \<and> sub_sid s = sid) (s_subs d)"

definition find_free_slot :: "dlna \<Rightarrow> nat option" where
  "find_free_slot d = first_where (\<lambda>s. sub_url s = []) (s_subs d)"

definition stale :: "int \<Rightarrow> gena_subscriber_t \<Rightarrow> bool" where
  "stale now s \<longleftrightarrow> 0 < expiry_time s \<and> expiry_time s < now"

definition cleanup_stale_subscriptions :: "int \<Rightarrow> dlna \<Rightarrow> dlna" where
  "cleanup_stale_subscriptions now d =
     (let subs = map (\<lambda>s. if sub_url s \<noteq> [] \<and> stale now s then s \<lparr> sub_url := [] \<rparr> else s) (s_subs d)
      in d \<lparr> s_subs := subs, s_sub_count := (if list_all (\<lambda>s. sub_url s = []) subs then 0 else s_sub_count d) \<rparr>)"

definition fixed_sid :: "byte list option \<Rightarrow> byte list" where
  "fixed_sid uuid = copy_text 96 (str ''uuid:'' @ (case uuid of None \<Rightarrow> str ''8db0797a-f01a-4949-8f59-51188b18180b'' | Some u \<Rightarrow> u))"

definition callback_url :: "byte list \<Rightarrow> byte list" where
  \<comment> \<open>what stands between the angle brackets\<close>
  "callback_url cb = takeWhile (\<lambda>c. c \<noteq> 62) (case cb of [] \<Rightarrow> [] | c # cs \<Rightarrow> if c = 60 then cs else cb)"

subsection \<open>Sending an event\<close>

datatype attempt = No_socket | No_connect | Connected

record notification =
  to_host :: "byte list"
  to_port :: u16
  notify_req :: "byte list"

definition parse_callback :: "byte list \<Rightarrow> (byte list \<times> int \<times> byte list) option" where
  \<comment> \<open>\<open>http://host[:port]/path\<close>\<close>
  "parse_callback url =
     (if take 7 url \<noteq> str ''http://'' then None
      else let p = drop 7 url;
               host = take 127 (takeWhile (\<lambda>c. c \<noteq> 47 \<and> c \<noteq> 58) p);
               q = drop (length host) p;
               (port, r) = (case q of c # cs \<Rightarrow> if c = 58 then (atoi cs, dropWhile (\<lambda>c. c \<noteq> 47) cs) else (80, q) | [] \<Rightarrow> (80, q))
           in Some (host, port, if r \<noteq> [] \<and> hd r = 47 then r else [47]))"

definition notify_text :: "byte list \<Rightarrow> byte list \<Rightarrow> int \<Rightarrow> byte list \<Rightarrow> int \<Rightarrow> byte list \<Rightarrow> byte list" where
  "notify_text path host port sid seq xml =
     str ''NOTIFY '' @ path @ str '' HTTP/1.1'' @ crlf
     @ str ''HOST: '' @ host @ [58] @ fmt_int port @ crlf
     @ dq ''CONTENT-TYPE: text/xml; charset=`utf-8`'' @ crlf
     @ str ''NT: upnp:event'' @ crlf @ str ''NTS: upnp:propchange'' @ crlf
     @ str ''SID: '' @ sid @ crlf @ str ''SEQ: '' @ fmt_int seq @ crlf
     @ str ''CONTENT-LENGTH: '' @ fmt_dec (length xml) @ crlf @ crlf @ xml"

definition notify_slot :: "dlna_config \<Rightarrow> int \<Rightarrow> byte list \<Rightarrow> attempt \<Rightarrow> gena_subscriber_t \<Rightarrow> gena_subscriber_t \<times> notification option" where
  \<comment> \<open>a pass of the loop\<close>
  "notify_slot c now xml w s =
     (if sub_url s = [] then (s, None)
      else if stale now s then (s \<lparr> sub_url := [] \<rparr>, None)
      else case parse_callback (sub_url s) of
             None \<Rightarrow> (s, None)
           | Some (host, port, path) \<Rightarrow>
               if w \<noteq> Connected then (s, None)
               else let s' = s \<lparr> sub_seq := s32 (sub_seq s + 1) \<rparr>;
                        req = notify_text path host port (sub_sid s) (sub_seq s) xml
                    in (s', if mem c (length xml + 1024) \<and> length req < length xml + 1024
                            then Some \<lparr> to_host = host, to_port = word_of_int port, notify_req = req \<rparr> else None))"

definition gena_notify :: "dlna_config \<Rightarrow> int \<Rightarrow> (nat \<Rightarrow> attempt) \<Rightarrow> byte list \<Rightarrow> dlna \<Rightarrow> notification option list \<times> dlna" where
  "gena_notify c now w xml d =
     (let rs = map (\<lambda>i. notify_slot c now xml (w i) (s_subs d ! i)) [0..<MAX_SUBSCRIBERS]
      in (map snd rs, d \<lparr> s_subs := map fst rs \<rparr>))"

definition no_notification :: "notification option list" where
  "no_notification = replicate MAX_SUBSCRIBERS None"

definition escaped :: "string \<Rightarrow> byte list \<Rightarrow> byte list" where
  "escaped name v = str ''&lt;'' @ str name @ str '' val=&quot;'' @ v @ str ''&quot;/&gt;''"

definition last_change :: "byte list \<Rightarrow> byte list" where
  "last_change inner =
     dq ''<?xml version=`1.0` encoding=`utf-8`?><e:propertyset xmlns:e=`urn:schemas-upnp-org:event-1-0`><e:property><LastChange>''
     @ str ''&lt;Event xmlns=&quot;urn:schemas-upnp-org:metadata-1-0/AVT/&quot;&gt;&lt;InstanceID val=&quot;0&quot;&gt;''
     @ inner @ str ''&lt;/InstanceID&gt;&lt;/Event&gt;</LastChange></e:property></e:propertyset>''"

definition transport_event :: "dlna_config \<Rightarrow> dlna \<Rightarrow> byte list" where
  "transport_event c d =
     last_change (escaped ''TransportState'' (transport_state c) @
       (if s_music_source d \<noteq> MUSIC_SRC_QQ then []
        else let dur = fmt_time (duration_sec c); pos = fmt_time (case get_position_sec c of Some s \<Rightarrow> s | None \<Rightarrow> 0)
             in escaped ''TransportStatus'' (str ''OK'') @ escaped ''TransportPlaySpeed'' (str ''1'')
              @ escaped ''NumberOfTracks'' (str ''1'') @ escaped ''CurrentTrack'' (str ''1'')
              @ escaped ''CurrentTrackDuration'' dur @ escaped ''CurrentMediaDuration'' dur
              @ escaped ''CurrentTrackMetaData'' (s_metadata d) @ escaped ''CurrentTrackURI'' (s_uri d)
              @ escaped ''AVTransportURI'' (s_uri d) @ escaped ''AVTransportURIMetaData'' (s_metadata d)
              @ escaped ''NextAVTransportURI'' (s_next_uri d) @ escaped ''NextAVTransportURIMetaData'' (s_next_metadata d)
              @ escaped ''RelativeTimePosition'' pos @ escaped ''AbsoluteTimePosition'' pos
              @ escaped ''CurrentTransportActions'' (str ''PLAY,STOP,PAUSE,SEEK'')))"

definition custom_dlna_notify_transport_state :: "dlna_config \<Rightarrow> int \<Rightarrow> (nat \<Rightarrow> attempt) \<Rightarrow> dlna \<Rightarrow> notification option list \<times> dlna" where
  "custom_dlna_notify_transport_state c now w d =
     (let d1 = cleanup_stale_subscriptions now d;
          buf_size = 2048 + length (s_metadata d) * 4;
          t = transport_event c d
      in if \<not> mem c buf_size \<or> buf_size \<le> length t then (no_notification, d1) else gena_notify c now w t d1)"

definition rcs_text :: "int \<Rightarrow> int \<Rightarrow> byte list" where
  "rcs_text vol mute =
     copy_text 1024 (dq ''<?xml version=`1.0` encoding=`utf-8`?><e:propertyset xmlns:e=`urn:schemas-upnp-org:event-1-0`><e:property>''
       @ element ''Volume'' (fmt_int vol) @ element ''Mute'' (fmt_int mute) @ str ''</e:property></e:propertyset>'')"

definition custom_dlna_notify_rcs :: "dlna_config \<Rightarrow> int \<Rightarrow> (nat \<Rightarrow> attempt) \<Rightarrow> dlna \<Rightarrow> notification option list \<times> dlna" where
  "custom_dlna_notify_rcs c now w d =
     (let d1 = cleanup_stale_subscriptions now d;
          t = rcs_text (case get_volume c of None \<Rightarrow> s_volume_cache d | Some v \<Rightarrow> v) (case get_mute c of None \<Rightarrow> s_mute_cache d | Some m \<Rightarrow> m)
      in if \<not> mem c 1024 then (no_notification, d1)
         else case notify_queue d1 of
                None \<Rightarrow> gena_notify c now w t d1
              | Some q \<Rightarrow> (no_notification, if length q < NOTIFY_QUEUE_LEN then d1 \<lparr> notify_queue := Some (q @ [Some t]) \<rparr> else d1))"

definition gena_task :: "dlna_config \<Rightarrow> int \<Rightarrow> (nat \<Rightarrow> attempt) \<Rightarrow> dlna \<Rightarrow> notification option list \<times> dlna" where
  \<comment> \<open>a pass of the loop; with an empty queue it waits\<close>
  "gena_task c now w d =
     (case notify_queue d of
        Some (m # q) \<Rightarrow>
          let d1 = d \<lparr> notify_queue := Some q \<rparr> in
          (case m of Some t \<Rightarrow> gena_notify c now w t d1 | None \<Rightarrow> custom_dlna_notify_transport_state c now w d1)
      | _ \<Rightarrow> (no_notification, d))"

definition pos_notify_task :: "dlna_config \<Rightarrow> int \<Rightarrow> (nat \<Rightarrow> attempt) \<Rightarrow> dlna \<Rightarrow> notification option list \<times> dlna" where
  \<comment> \<open>a pass of the loop, started by the timer\<close>
  "pos_notify_task c now w d =
     (if get_transport_state c = Some (str ''PLAYING'') then custom_dlna_notify_transport_state c now w d else (no_notification, d))"

subsection \<open>The subscription requests\<close>

definition sub_reply :: "byte list \<Rightarrow> http_reply" where
  "sub_reply sid = Resp ''200 OK'' '''' [(''SID'', sid), (''TIMEOUT'', str ''Second-1800''), (''Server'', str ''ESP32-DLNA/1.0 UPnP/1.0'')] []"

definition upd_sub :: "nat \<Rightarrow> (gena_subscriber_t \<Rightarrow> gena_subscriber_t) \<Rightarrow> dlna \<Rightarrow> dlna" where
  "upd_sub i f d = d \<lparr> s_subs := (s_subs d)[i := f (s_subs d ! i)] \<rparr>"

definition renew_sub :: "int \<Rightarrow> httpd_req \<Rightarrow> nat \<Rightarrow> dlna \<Rightarrow> http_reply \<times> dlna" where
  \<comment> \<open>a known SID: a CALLBACK, when there is one, replaces the address\<close>
  "renew_sub now rq i d =
     (let d1 = upd_sub i (\<lambda>s. s \<lparr> expiry_time := now + SUB_TIMEOUT_SEC \<rparr>) d;
          url = callback_url (hdr_text rq ''CALLBACK'' 256 []);
          d2 = (if 0 < hdr_len rq ''CALLBACK'' \<and> hdr_len rq ''CALLBACK'' < 255 \<and> url \<noteq> []
                then upd_sub i (\<lambda>s. s \<lparr> sub_url := copy_text 256 url \<rparr>) d1 else d1)
      in (sub_reply (sub_sid (s_subs d ! i)), d2))"

definition rebuild_sub :: "int \<Rightarrow> httpd_req \<Rightarrow> byte list \<Rightarrow> dlna \<Rightarrow> http_reply \<times> dlna" where
  \<comment> \<open>the device's own SID in no slot\<close>
  "rebuild_sub now rq sid d =
     (case find_free_slot d of
        None \<Rightarrow> (Resp ''500 Internal Server Error'' '''' [] [], d)
      | Some i \<Rightarrow>
          let d1 = upd_sub i (\<lambda>s. s \<lparr> sub_sid := sid, expiry_time := now + SUB_TIMEOUT_SEC, sub_seq := 0 \<rparr>) d;
              url = callback_url (hdr_text rq ''CALLBACK'' 256 []);
              d2 = (if 0 < hdr_len rq ''CALLBACK'' \<and> hdr_len rq ''CALLBACK'' < 255 \<and> url \<noteq> []
                    then upd_sub i (\<lambda>s. s \<lparr> sub_url := copy_text 256 url \<rparr>) d1 else d1)
          in (sub_reply sid, d2))"

definition slot_for :: "byte list \<Rightarrow> dlna \<Rightarrow> nat option" where
  \<comment> \<open>the slot with this address, else the first, else a free one\<close>
  "slot_for url d =
     (case first_where (\<lambda>s. sub_url s \<noteq> [] \<and> sub_url s = url) (s_subs d) of
        Some i \<Rightarrow> Some i
      | None \<Rightarrow> if sub_url (s_subs d ! 0) = [] then Some 0 else find_free_slot d)"

definition new_sub :: "dlna_config \<Rightarrow> int \<Rightarrow> (nat \<Rightarrow> attempt) \<Rightarrow> httpd_req \<Rightarrow> dlna \<Rightarrow> notification option list \<times> http_reply \<times> dlna" where
  "new_sub c now w rq d =
     (let url = callback_url (hdr_text rq ''CALLBACK'' 256 []) in
      case slot_for url d of
        None \<Rightarrow> (no_notification, Resp ''500 Internal Server Error'' '''' [] (str ''No capacity''), d)
      | Some i \<Rightarrow>
          let sid = fixed_sid (cfg_uuid c);
              d1 = upd_sub i (\<lambda>s. \<lparr> sub_url = copy_text 256 url, sub_sid = sid, expiry_time = now + SUB_TIMEOUT_SEC, sub_seq = 0 \<rparr>) d
          in case custom_dlna_notify_rcs c now w (custom_dlna_notify_transport_state_async d1) of
               (ns, d2) \<Rightarrow> (ns, sub_reply sid, d2))"

definition event_handler :: "dlna_config \<Rightarrow> int \<Rightarrow> (nat \<Rightarrow> attempt) \<Rightarrow> httpd_req \<Rightarrow> dlna \<Rightarrow> notification option list \<times> http_reply \<times> dlna" where
  "event_handler c now w rq d =
     (let sid = hdr_text rq ''SID'' 64 []; with_sid = (0 < hdr_len rq ''SID'' \<and> hdr_len rq ''SID'' < 63) in
      if rq_method rq = HTTP_SUBSCRIBE then
        if with_sid then
          (no_notification,
           case find_sub_by_sid sid d of
             Some i \<Rightarrow> renew_sub now rq i d
           | None \<Rightarrow> if sid = fixed_sid (cfg_uuid c) then rebuild_sub now rq sid d
                     else (Resp ''412 Precondition Failed'' '''' [] [], d))
        else if 0 < hdr_len rq ''CALLBACK'' \<and> hdr_len rq ''CALLBACK'' < 255 then new_sub c now w rq d
        else (no_notification, Err400 ''Missing CALLBACK or SID'', d)
      else if rq_method rq = HTTP_UNSUBSCRIBE then
        (no_notification, Resp ''200 OK'' '''' [] [],
         if with_sid then (case find_sub_by_sid sid d of None \<Rightarrow> d | Some i \<Rightarrow> upd_sub i (\<lambda>s. s \<lparr> sub_url := [] \<rparr>) d) else d)
      else (no_notification, Resp ''200 OK'' '''' [] [], d))"

subsection \<open>The server\<close>

definition custom_dlna_init :: "dlna_config option \<Rightarrow> int \<Rightarrow> bool \<Rightarrow> bool \<Rightarrow> dlna \<Rightarrow> bool \<times> dlna" where
  \<comment> \<open>whether the server starts, and whether the queue and its task can be had\<close>
  "custom_dlna_init cfg now server queue d =
     (case cfg of
        None \<Rightarrow> (False, d)
      | Some c \<Rightarrow>
          let d1 = d \<lparr> s_volume_cache := 50, s_mute_cache := 0, s_sub_count := 1,
                       s_subs := (replicate MAX_SUBSCRIBERS no_subscriber)[0 := no_subscriber
                         \<lparr> sub_sid := fixed_sid (cfg_uuid c), expiry_time := now + SUB_TIMEOUT_SEC \<rparr>] \<rparr>
          in if server then (True, d1 \<lparr> notify_queue := (if queue then Some [] else None) \<rparr>) else (False, d1))"

definition uris :: "(string \<times> http_method option \<times> string) list" where
  \<comment> \<open>path, method and handler; \<open>None\<close> is \<open>HTTP_ANY\<close>\<close>
  "uris =
     [(''/device.xml'', Some HTTP_GET, ''xml''), (''/avtransport.xml'', Some HTTP_GET, ''xml''), (''/renderingcontrol.xml'', Some HTTP_GET, ''xml''),
      (''/connectionmanager.xml'', Some HTTP_GET, ''xml''), (''/upnp/control/avtransport'', Some HTTP_POST, ''avt''),
      (''/upnp/control/renderingcontrol'', Some HTTP_POST, ''rc''), (''/upnp/control/connectionmanager'', Some HTTP_POST, ''cm''),
      (''/upnp/event/avtransport'', None, ''event''), (''/upnp/event/renderingcontrol'', None, ''event''),
      (''/upnp/event/connectionmanager'', None, ''event'')]"

definition route :: "httpd_req \<Rightarrow> (string \<times> http_method option \<times> string) option" where
  \<comment> \<open>the first entry that fits the path before any query\<close>
  "route rq = find (\<lambda>(p, m, h). str p = takeWhile (\<lambda>b. b \<noteq> 63) (req_uri rq) \<and> (m = None \<or> m = Some (rq_method rq))) uris"

definition serve :: "dlna_config \<Rightarrow> (string \<Rightarrow> byte list) \<Rightarrow> int \<Rightarrow> (nat \<Rightarrow> attempt) \<Rightarrow> httpd_req \<Rightarrow> dlna
    \<Rightarrow> notification option list \<times> http_reply option \<times> dlna" where
  \<comment> \<open>\<open>files\<close> are the embedded descriptions; the last entry of the table takes every other path with a slash\<close>
  "serve c files now w rq d =
     (case route rq of
        Some (p, m, h) \<Rightarrow>
          if h = ''xml'' then (no_notification, Some (xml_handler (files p)), d)
          else if h = ''avt'' then (no_notification, case handle_avt_control c rq d of (r, d') \<Rightarrow> (Some r, d'))
          else if h = ''rc'' then (no_notification, rc_control_handler c rq d)
          else if h = ''cm'' then (no_notification, cm_control_handler rq, d)
          else (case event_handler c now w rq d of (ns, r, d') \<Rightarrow> (ns, Some r, d'))
      | None \<Rightarrow> (no_notification, Some (if take 1 (req_uri rq) = [47] then wildcard_handler rq else my_404_handler rq), d))"

subsection \<open>The reachable states\<close>

definition dlna_ok :: "byte list option \<Rightarrow> dlna \<Rightarrow> bool" where
  \<comment> \<open>every text inside its array, the queue inside its length; the first slot has the device's SID and no slot another one\<close>
  "dlna_ok u d \<longleftrightarrow>
     length (s_uri d) < 2048 \<and> length (s_metadata d) < 16384 \<and> length (s_next_uri d) < 2048 \<and> length (s_next_metadata d) < 2048
     \<and> length (s_user_agent d) < 128 \<and> (\<forall>q. notify_queue d = Some q \<longrightarrow> length q \<le> NOTIFY_QUEUE_LEN)
     \<and> length (s_subs d) = MAX_SUBSCRIBERS \<and> sub_sid (s_subs d ! 0) = fixed_sid u
     \<and> list_all (\<lambda>s. length (sub_url s) < 256 \<and> (sub_sid s = [] \<or> sub_sid s = fixed_sid u)) (s_subs d)"

definition rq_ok :: "httpd_req \<Rightarrow> bool" where
  \<comment> \<open>a field read into a buffer fits there, also when the call fails\<close>
  "rq_ok rq \<longleftrightarrow> (\<forall>name n v. hdr rq name n = Some v \<longrightarrow> length v < n)
     \<and> (\<forall>name n old. length old < n \<longrightarrow> length (hdr_left rq name n old) < n)"

definition app_ok :: "byte list option \<Rightarrow> dlna_config \<Rightarrow> bool" where
  "app_ok u c \<longleftrightarrow> cfg_uuid c = u \<and> (\<forall>e d. dlna_ok u d \<longrightarrow> dlna_ok u (app c e d))"

inductive renderer :: "byte list option \<Rightarrow> (string \<Rightarrow> byte list) \<Rightarrow> dlna \<Rightarrow> bool" for u files where
  started: "custom_dlna_init (Some c) now server queue dlna_boot = (True, d) \<Longrightarrow> cfg_uuid c = u \<Longrightarrow> renderer u files d"
| served: "renderer u files d \<Longrightarrow> app_ok u c \<Longrightarrow> rq_ok rq \<Longrightarrow> serve c files now w rq d = (ns, r, d') \<Longrightarrow> renderer u files d'"
| notified: "renderer u files d \<Longrightarrow> app_ok u c \<Longrightarrow> gena_task c now w d = (ns, d') \<Longrightarrow> renderer u files d'"
| ticked: "renderer u files d \<Longrightarrow> app_ok u c \<Longrightarrow> pos_notify_task c now w d = (ns, d') \<Longrightarrow> renderer u files d'"
| rendering_changed: "renderer u files d \<Longrightarrow> app_ok u c \<Longrightarrow> custom_dlna_notify_rcs c now w d = (ns, d') \<Longrightarrow> renderer u files d'"
| state_changed: "renderer u files d \<Longrightarrow> renderer u files (custom_dlna_notify_transport_state_async d)"
| track_changed: "renderer u files d \<Longrightarrow> renderer u files (custom_dlna_update_uri uri meta d)"
| source_changed: "renderer u files d \<Longrightarrow> renderer u files (custom_dlna_set_music_source src d)"
| suppressed: "renderer u files d \<Longrightarrow> renderer u files (custom_dlna_set_ssdp_suppressed b d)"

lemma dlna_ok_same:
  "dlna_ok u d \<Longrightarrow> s_uri d' = s_uri d \<Longrightarrow> s_metadata d' = s_metadata d \<Longrightarrow> s_next_uri d' = s_next_uri d
   \<Longrightarrow> s_next_metadata d' = s_next_metadata d \<Longrightarrow> s_user_agent d' = s_user_agent d \<Longrightarrow> notify_queue d' = notify_queue d
   \<Longrightarrow> s_subs d' = s_subs d \<Longrightarrow> dlna_ok u d'"
  by (simp add: dlna_ok_def)

lemma call_back_ok: "app_ok u c \<Longrightarrow> dlna_ok u d \<Longrightarrow> dlna_ok u (call_back c e d)"
proof -
  assume a: "app_ok u c" "dlna_ok u d"
  then have "dlna_ok u (d \<lparr> called := called d @ [e] \<rparr>)" by (simp add: dlna_ok_def)
  with a show ?thesis by (simp add: call_back_def app_ok_def)
qed

lemma async_ok: "dlna_ok u d \<Longrightarrow> dlna_ok u (custom_dlna_notify_transport_state_async d)"
  by (auto simp: custom_dlna_notify_transport_state_async_def dlna_ok_def split: option.splits)

lemma update_uri_ok: "dlna_ok u d \<Longrightarrow> dlna_ok u (custom_dlna_update_uri uri meta d)"
  by (auto simp: custom_dlna_update_uri_def dlna_ok_def split: option.splits)

lemma xml_get_length: "xml_get xml t n = Some v \<Longrightarrow> 0 < n \<Longrightarrow> length v < n"
  by (auto simp: xml_get_def Let_def split: option.splits)

lemma hdr_text_length: "rq_ok rq \<Longrightarrow> length old < n \<Longrightarrow> length (hdr_text rq name n old) < n"
  by (auto simp: hdr_text_def rq_ok_def split: option.splits)

lemma subs_ok:
  assumes "dlna_ok u d" and "length subs = MAX_SUBSCRIBERS" and "sub_sid (subs ! 0) = fixed_sid u"
    and "list_all (\<lambda>s. length (sub_url s) < 256 \<and> (sub_sid s = [] \<or> sub_sid s = fixed_sid u)) subs"
  shows "dlna_ok u (d \<lparr> s_subs := subs, s_sub_count := n \<rparr>)" "dlna_ok u (d \<lparr> s_subs := subs \<rparr>)"
  using assms by (simp_all add: dlna_ok_def)

lemma queue_ok: "dlna_ok u d \<Longrightarrow> length q \<le> NOTIFY_QUEUE_LEN \<Longrightarrow> dlna_ok u (d \<lparr> notify_queue := Some q \<rparr>)"
  by (simp add: dlna_ok_def)

lemma cleanup_ok: "dlna_ok u d \<Longrightarrow> dlna_ok u (cleanup_stale_subscriptions now d)"
  unfolding cleanup_stale_subscriptions_def Let_def
  by (rule subs_ok) (auto simp: dlna_ok_def MAX_SUBSCRIBERS_def list_all_iff)

lemma notify_slot_same: "sub_sid (fst (notify_slot c now xml w s)) = sub_sid s \<and> (sub_url (fst (notify_slot c now xml w s)) = sub_url s \<or> sub_url (fst (notify_slot c now xml w s)) = [])"
  by (simp add: notify_slot_def Let_def split: option.splits)

lemma gena_notify_ok: "dlna_ok u d \<Longrightarrow> dlna_ok u (snd (gena_notify c now w xml d))"
  unfolding gena_notify_def Let_def snd_conv
proof (rule subs_ok)
  assume d: "dlna_ok u d"
  then have l: "s_subs d ! i \<in> set (s_subs d)" if "i < MAX_SUBSCRIBERS" for i using that by (simp add: dlna_ok_def)
  show "list_all (\<lambda>s. length (sub_url s) < 256 \<and> (sub_sid s = [] \<or> sub_sid s = fixed_sid u))
     (map fst (map (\<lambda>i. notify_slot c now xml (w i) (s_subs d ! i)) [0..<MAX_SUBSCRIBERS]))"
    unfolding list_all_iff
  proof
    fix s assume "s \<in> set (map fst (map (\<lambda>i. notify_slot c now xml (w i) (s_subs d ! i)) [0..<MAX_SUBSCRIBERS]))"
    then obtain i where i: "i < MAX_SUBSCRIBERS" "s = fst (notify_slot c now xml (w i) (s_subs d ! i))" by auto
    from d l [OF i(1)] notify_slot_same [of c now xml "w i" "s_subs d ! i"]
    show "length (sub_url s) < 256 \<and> (sub_sid s = [] \<or> sub_sid s = fixed_sid u)"
      unfolding i(2) by (auto simp: dlna_ok_def list_all_iff)
  qed
qed (auto simp: dlna_ok_def MAX_SUBSCRIBERS_def notify_slot_same)

lemma notify_state_ok: "dlna_ok u d \<Longrightarrow> dlna_ok u (snd (custom_dlna_notify_transport_state c now w d))"
  by (simp add: custom_dlna_notify_transport_state_def Let_def gena_notify_ok cleanup_ok)

lemma notify_rcs_ok: "dlna_ok u d \<Longrightarrow> dlna_ok u (snd (custom_dlna_notify_rcs c now w d))"
  using cleanup_ok [of u d now]
  by (auto simp: custom_dlna_notify_rcs_def Let_def gena_notify_ok queue_ok split: option.splits)

lemma gena_task_ok: "dlna_ok u d \<Longrightarrow> dlna_ok u (snd (gena_task c now w d))"
proof -
  assume d: "dlna_ok u d"
  show ?thesis
  proof (cases "notify_queue d")
    case (Some q)
    show ?thesis
    proof (cases q)
      case (Cons m ms)
      with Some d have "dlna_ok u (d \<lparr> notify_queue := Some ms \<rparr>)" by (intro queue_ok) (auto simp: dlna_ok_def)
      with Some Cons show ?thesis by (simp add: gena_task_def Let_def gena_notify_ok notify_state_ok split: option.splits)
    qed (use Some d in \<open>simp add: gena_task_def\<close>)
  qed (use d in \<open>simp add: gena_task_def\<close>)
qed

lemma ok_if: "dlna_ok u (snd x) \<Longrightarrow> dlna_ok u (snd y) \<Longrightarrow> dlna_ok u (snd (if b then x else y))"
  by simp

lemma avt_action_ok:
  assumes a: "app_ok u c" and "rq_ok rq" and d: "dlna_ok u d"
  shows "dlna_ok u (snd (avt_action c rq body action d))"
proof -
  note cb = call_back_ok [OF a]
  define d0 where "d0 = d \<lparr> s_user_agent := hdr_text rq ''User-Agent'' 128 (s_user_agent d) \<rparr>"
  have d0: "dlna_ok u d0"
    using d hdr_text_length [OF assms(2), of "s_user_agent d" 128] by (simp add: dlna_ok_def d0_def)
  have set_uri: "dlna_ok u (set_av_uri c body uri d0)" if "xml_get body ''CurrentURI'' 2048 = Some uri" for uri
  proof -
    have "dlna_ok u (d0 \<lparr> s_uri := uri, s_metadata := (case xml_get body ''CurrentURIMetaData'' 16384 of None \<Rightarrow> s_metadata d0 | Some m \<Rightarrow> m) \<rparr>)"
      using d0 xml_get_length [OF that] xml_get_length [of body "''CurrentURIMetaData''" 16384]
      by (auto simp: dlna_ok_def split: option.splits)
    then show ?thesis unfolding set_av_uri_def Let_def by (intro async_ok cb)
  qed
  have "dlna_ok u (d \<lparr> s_next_uri := (case xml_get body ''NextURI'' 2048 of None \<Rightarrow> [] | Some v \<Rightarrow> v),
      s_next_metadata := (case xml_get body ''NextURIMetaData'' 2048 of None \<Rightarrow> [] | Some m \<Rightarrow> m) \<rparr>)"
    using d xml_get_length [of body "''NextURI''" 2048] xml_get_length [of body "''NextURIMetaData''" 2048]
    by (auto simp: dlna_ok_def split: option.splits)
  then show ?thesis
    unfolding avt_action_def Let_def d0_def [symmetric]
    by (intro ok_if; simp only: snd_conv; use d d0 cb set_uri in \<open>auto split: option.split\<close>)
qed

lemma handle_avt_ok: "app_ok u c \<Longrightarrow> rq_ok rq \<Longrightarrow> dlna_ok u d \<Longrightarrow> dlna_ok u (snd (handle_avt_control c rq d))"
  by (simp add: handle_avt_control_def avt_action_ok split: option.splits)

lemma rc_handler_ok: "app_ok u c \<Longrightarrow> dlna_ok u d \<Longrightarrow> dlna_ok u (snd (rc_control_handler c rq d))"
proof -
  assume a: "app_ok u c" "dlna_ok u d"
  have "dlna_ok u (d \<lparr> s_volume_cache := v \<rparr>)" "dlna_ok u (d \<lparr> s_mute_cache := v \<rparr>)" for v using a(2) by (simp_all add: dlna_ok_def)
  with a call_back_ok [OF a(1)] have "dlna_ok u (snd (rc_action c body action d))" for body action
    by (simp add: rc_action_def Let_def split: option.splits)
  with a(2) show ?thesis by (simp add: rc_control_handler_def split: option.splits prod.splits) (metis snd_conv)
qed

lemma first_where_less: "first_where P xs = Some i \<Longrightarrow> i < length xs \<and> P (xs ! i)"
  using nth_length_takeWhile [of "\<lambda>x. \<not> P x" xs] by (auto simp: first_where_def Let_def split: if_splits)

lemma upd_sub_ok:
  assumes "dlna_ok u d" and "i < length (s_subs d)" and "length (sub_url (f (s_subs d ! i))) < 256"
    and "sub_sid (f (s_subs d ! i)) = sub_sid (s_subs d ! i) \<or> sub_sid (f (s_subs d ! i)) = fixed_sid u"
  shows "dlna_ok u (upd_sub i f d)"
  unfolding upd_sub_def
proof (rule subs_ok [OF assms(1)])
  show "sub_sid ((s_subs d)[i := f (s_subs d ! i)] ! 0) = fixed_sid u"
    using assms by (cases i) (auto simp: dlna_ok_def MAX_SUBSCRIBERS_def)
  show "list_all (\<lambda>s. length (sub_url s) < 256 \<and> (sub_sid s = [] \<or> sub_sid s = fixed_sid u)) ((s_subs d)[i := f (s_subs d ! i)])"
    using assms by (auto simp: dlna_ok_def list_all_iff dest!: set_update_subset_insert [THEN subsetD])
qed (use assms in \<open>simp add: dlna_ok_def\<close>)

lemma upd_sub_length [simp]: "length (s_subs (upd_sub i f d)) = length (s_subs d)"
  by (simp add: upd_sub_def)

lemma upd_sub_nth: "i < length (s_subs d) \<Longrightarrow> s_subs (upd_sub i f d) ! j = (if i = j then f (s_subs d ! i) else s_subs d ! j)"
  by (simp add: upd_sub_def)

lemma sub_facts:
  "dlna_ok u d \<Longrightarrow> i < length (s_subs d) \<Longrightarrow> length (sub_url (s_subs d ! i)) < 256 \<and> (sub_sid (s_subs d ! i) = [] \<or> sub_sid (s_subs d ! i) = fixed_sid u)"
  by (simp add: dlna_ok_def list_all_length)

lemma renew_ok: "dlna_ok u d \<Longrightarrow> i < length (s_subs d) \<Longrightarrow> dlna_ok u (snd (renew_sub now rq i d))"
  unfolding renew_sub_def Let_def using sub_facts [of u d i]
  by (auto intro!: upd_sub_ok simp: upd_sub_nth)

lemma rebuild_ok: "dlna_ok u d \<Longrightarrow> sid = fixed_sid u \<Longrightarrow> dlna_ok u (snd (rebuild_sub now rq sid d))"
  unfolding rebuild_sub_def Let_def using sub_facts [of u d] first_where_less
  by (fastforce intro!: upd_sub_ok simp: upd_sub_nth find_free_slot_def split: option.splits)

lemma slot_for_less: "dlna_ok u d \<Longrightarrow> slot_for url d = Some i \<Longrightarrow> i < length (s_subs d)"
  by (auto simp: slot_for_def find_free_slot_def dlna_ok_def MAX_SUBSCRIBERS_def split: option.splits if_splits dest: first_where_less)

lemma new_sub_ok: "dlna_ok u d \<Longrightarrow> cfg_uuid c = u \<Longrightarrow> dlna_ok u (snd (snd (new_sub c now w rq d)))"
proof -
  assume a: "dlna_ok u d" "cfg_uuid c = u"
  have "dlna_ok u (upd_sub i (\<lambda>s. \<lparr> sub_url = copy_text 256 url, sub_sid = fixed_sid u, expiry_time = e, sub_seq = 0 \<rparr>) d)"
    if "slot_for url d = Some i" for url i e using slot_for_less [OF a(1) that] by (intro upd_sub_ok a(1)) simp_all
  with a notify_rcs_ok [OF async_ok] show ?thesis
    by (simp add: new_sub_def Let_def split: option.splits prod.splits) (metis snd_conv)
qed

lemma event_handler_ok: "dlna_ok u d \<Longrightarrow> cfg_uuid c = u \<Longrightarrow> dlna_ok u (snd (snd (event_handler c now w rq d)))"
proof -
  assume a: "dlna_ok u d" "cfg_uuid c = u"
  have l: "i < length (s_subs d)" if "find_sub_by_sid sid d = Some i" for sid i
    using that first_where_less by (auto simp: find_sub_by_sid_def)
  have "dlna_ok u (upd_sub i (\<lambda>s. s \<lparr> sub_url := [] \<rparr>) d)" if "find_sub_by_sid sid d = Some i" for sid i
    using l [OF that] by (intro upd_sub_ok a(1)) simp_all
  with a l renew_ok [OF a(1)] rebuild_ok [OF a(1)] new_sub_ok [OF a] show ?thesis
    by (simp add: event_handler_def Let_def split: option.splits)
qed

lemma http_serve_ok:
  "app_ok u c \<Longrightarrow> rq_ok rq \<Longrightarrow> dlna_ok u d \<Longrightarrow> dlna_ok u (snd (snd (serve c files now w rq d)))"
  using handle_avt_ok [of u c rq d] rc_handler_ok [of u c d rq] event_handler_ok [of u d c now w rq]
  by (auto simp: serve_def app_ok_def split_beta split: option.splits)

lemma four_slots: "replicate 4 x = [x, x, x, x]"
  by (simp add: numeral_eq_Suc)

lemma init_ok: "custom_dlna_init (Some c) now server queue dlna_boot = (True, d) \<Longrightarrow> cfg_uuid c = u \<Longrightarrow> dlna_ok u d"
  by (auto simp: custom_dlna_init_def dlna_boot_def dlna_ok_def no_subscriber_def MAX_SUBSCRIBERS_def four_slots Let_def split: if_splits)

lemma renderer_ok: "renderer u files d \<Longrightarrow> dlna_ok u d"
proof (induction rule: renderer.induct)
  case (served d c rq now w ns r d')
  then show ?case using http_serve_ok [of u c rq d files now w] by simp
next
  case (notified d c now w ns d')
  then show ?case using gena_task_ok [of u d c now w] by simp
next
  case (ticked d c now w ns d')
  then show ?case using notify_state_ok [of u d c now w] by (auto simp: pos_notify_task_def split: if_splits)
next
  case (rendering_changed d c now w ns d')
  then show ?case using notify_rcs_ok [of u d c now w] by simp
next
  case (started c now server queue d)
  then show ?case by (rule init_ok)
next
  case (state_changed d)
  then show ?case by (intro async_ok)
next
  case (track_changed d uri meta)
  then show ?case by (intro update_uri_ok)
qed (simp_all add: custom_dlna_set_music_source_def custom_dlna_set_ssdp_suppressed_def dlna_ok_def)

subsection \<open>What subscribers are sent\<close>

lemma parse_callback_length: "parse_callback url = Some (h, p, path) \<Longrightarrow> length h + length path \<le> length url \<and> - (2 ^ 31) \<le> p \<and> p < 2 ^ 31"
proof -
  assume a: "parse_callback url = Some (h, p, path)"
  define q where "q = drop 7 url"
  define h' where "h' = take 127 (takeWhile (\<lambda>c. c \<noteq> 47 \<and> c \<noteq> 58) q)"
  have "length h' \<le> length q" using length_takeWhile_le [of "\<lambda>c. c \<noteq> 47 \<and> c \<noteq> 58" q] by (simp add: h'_def)
  moreover have "7 \<le> length url"
  proof -
    have "take 7 url = str ''http://''" using a by (simp add: parse_callback_def split: if_splits)
    then have "length (take 7 url) = 7" by simp
    then show ?thesis by simp
  qed
  moreover have "length (dropWhile (\<lambda>c. c \<noteq> 47) cs) \<le> length cs" for cs :: "byte list" by (rule length_dropWhile_le)
  ultimately show ?thesis
    using a atoi_range length_dropWhile_le [of "\<lambda>c. c \<noteq> 47" "tl (drop (length h') q)"]
    unfolding parse_callback_def Let_def q_def [symmetric] h'_def [symmetric]
    by (cases "drop (length h') q") (auto split: if_splits dest!: arg_cong [of _ _ length] simp: q_def)
qed

lemma notify_slot_sends:
  assumes "sub_url s \<noteq> []" and "length (sub_url s) < 256" and "length (sub_sid s) < 96" and "\<not> stale now s"
    and "parse_callback (sub_url s) = Some (h, p, path)" and "- (2 ^ 31) \<le> sub_seq s" "sub_seq s < 2 ^ 31"
    and "mem c (length xml + 1024)" and "length xml < 2 ^ 31"
  shows "notify_slot c now xml Connected s = (s \<lparr> sub_seq := s32 (sub_seq s + 1) \<rparr>,
    Some \<lparr> to_host = h, to_port = word_of_int p, notify_req = notify_text path h p (sub_sid s) (sub_seq s) xml \<rparr>)"
proof -
  have "length (fmt_int p) \<le> 11" "length (fmt_int (sub_seq s)) \<le> 11"
    using parse_callback_length [OF assms(5)] assms(6,7) length_fmt_int by blast+
  moreover have "length (fmt_dec (length xml)) \<le> 10" using assms(9) by (intro length_fmt_dec_le) auto
  ultimately have "length (notify_text path h p (sub_sid s) (sub_seq s) xml) < length xml + 1024"
    using parse_callback_length [OF assms(5)] assms(2,3) by (simp add: notify_text_def)
  with assms show ?thesis by (simp add: notify_slot_def Let_def)
qed

fun notify_all :: "dlna_config \<Rightarrow> (nat \<Rightarrow> attempt) \<Rightarrow> (int \<times> byte list) list \<Rightarrow> dlna \<Rightarrow> notification option list list" where
  \<comment> \<open>events one after the other, each at its time\<close>
  "notify_all c w [] d = []"
| "notify_all c w ((now, xml) # es) d = (case gena_notify c now w xml d of (ns, d') \<Rightarrow> ns # notify_all c w es d')"

definition listening :: "byte list \<Rightarrow> byte list \<Rightarrow> int \<Rightarrow> int \<Rightarrow> gena_subscriber_t \<Rightarrow> bool" where
  "listening url sid e k s \<longleftrightarrow> sub_url s = url \<and> sub_sid s = sid \<and> expiry_time s = e \<and> sub_seq s = k"

lemma notify_all_slot:
  assumes "i < MAX_SUBSCRIBERS" and "url \<noteq> []" "length url < 256" "length sid < 96" and "parse_callback url = Some (h, p, path)"
    and "mem c = (\<lambda>n. True)"
  shows "listening url sid e (int k) (s_subs d ! i) \<Longrightarrow> list_all (\<lambda>(t, xml). t \<le> e \<and> length xml < 2 ^ 31) es \<Longrightarrow> k + length es < 2 ^ 31 \<Longrightarrow>
    map (\<lambda>ns. ns ! i) (notify_all c (\<lambda>j. Connected) es d)
    = map (\<lambda>(n, t, xml). Some \<lparr> to_host = h, to_port = word_of_int p, notify_req = notify_text path h p sid (int n) xml \<rparr>) (enumerate k es)"
proof (induction es arbitrary: k d)
  case (Cons ev es)
  obtain t xml where ev: "ev = (t, xml)" by (cases ev)
  define s where "s = s_subs d ! i"
  have s: "listening url sid e (int k) s" "t \<le> e" "length xml < 2 ^ 31" using Cons.prems by (simp_all add: s_def ev)
  have k: "s32 (int k + 1) = int (Suc k)" using Cons.prems(3) by (subst s32_small) simp_all
  have "notify_slot c t xml Connected s = (s \<lparr> sub_seq := s32 (sub_seq s + 1) \<rparr>,
      Some \<lparr> to_host = h, to_port = word_of_int p, notify_req = notify_text path h p (sub_sid s) (sub_seq s) xml \<rparr>)"
    using s assms(2,3,4,5,6) Cons.prems(3) by (intro notify_slot_sends) (auto simp: listening_def stale_def)
  then have n: "notify_slot c t xml Connected s = (s \<lparr> sub_seq := int (Suc k) \<rparr>,
      Some \<lparr> to_host = h, to_port = word_of_int p, notify_req = notify_text path h p sid (int k) xml \<rparr>)"
    using s(1) k by (simp add: listening_def)
  obtain ns d' where g: "gena_notify c t (\<lambda>j. Connected) xml d = (ns, d')" by (cases "gena_notify c t (\<lambda>j. Connected) xml d")
  have i: "ns ! i = snd (notify_slot c t xml Connected s)" "s_subs d' ! i = fst (notify_slot c t xml Connected s)"
    using g assms(1) by (auto simp: gena_notify_def Let_def s_def)
  have "listening url sid e (int (Suc k)) (s_subs d' ! i)" using s(1) unfolding i n by (simp add: listening_def)
  from Cons.IH [OF this] Cons.prems(2,3) show ?case by (simp add: ev g i(1) n)
qed simp

lemma no_angle: "62 \<notin> set url \<Longrightarrow> callback_url (60 # url @ [62]) = url"
proof -
  assume "62 \<notin> set url"
  then have "takeWhile (\<lambda>c. c \<noteq> 62) (url @ 62 # []) = url" by (intro takeWhile_stop) auto
  then show ?thesis by (simp add: callback_url_def)
qed

lemma first_where_none: "(\<And>x. x \<in> set xs \<Longrightarrow> \<not> P x) \<Longrightarrow> first_where P xs = None"
proof -
  assume "\<And>x. x \<in> set xs \<Longrightarrow> \<not> P x"
  then have "takeWhile (\<lambda>x. \<not> P x) xs = xs" by (auto simp: takeWhile_eq_all_conv)
  then show ?thesis by (simp only: first_where_def Let_def less_irrefl if_False)
qed

lemma notify_rcs_keeps:
  assumes "notify_queue d = Some q" and "i < length (s_subs d)" and "\<not> stale now (s_subs d ! i)"
  shows "s_subs (snd (custom_dlna_notify_rcs c now w d)) ! i = s_subs d ! i"
  using assms by (simp add: custom_dlna_notify_rcs_def cleanup_stale_subscriptions_def Let_def)

lemma async_subs: "s_subs (custom_dlna_notify_transport_state_async d) = s_subs d"
  "notify_queue d = None \<longleftrightarrow> notify_queue (custom_dlna_notify_transport_state_async d) = None"
  by (simp_all add: custom_dlna_notify_transport_state_async_def split: option.splits)

lemma length_fixed_sid: "length (fixed_sid u) < 96"
  by (simp add: fixed_sid_def)

lemma new_sub_listening:
  assumes "dlna_ok u d" and "cfg_uuid c = u" and "notify_queue d \<noteq> None" and "0 \<le> now"
    and "callback_url (hdr_text rq ''CALLBACK'' 256 []) = url" and "length url < 256"
    and "new_sub c now w rq d = (ns, Resp ''200 OK'' t hs b, d')"
  shows "\<exists>i<MAX_SUBSCRIBERS. listening url (fixed_sid u) (now + SUB_TIMEOUT_SEC) 0 (s_subs d' ! i)"
proof -
  from assms(5,7) obtain i where i: "slot_for url d = Some i" by (auto simp: new_sub_def Let_def split: option.splits)
  define d1 where "d1 = upd_sub i (\<lambda>s. \<lparr> sub_url = copy_text 256 url, sub_sid = fixed_sid u, expiry_time = now + SUB_TIMEOUT_SEC, sub_seq = 0 \<rparr>) d"
  have l: "i < length (s_subs d)" using slot_for_less [OF assms(1) i] .
  then have s: "listening url (fixed_sid u) (now + SUB_TIMEOUT_SEC) 0 (s_subs d1 ! i)"
    using assms(6) by (simp add: d1_def upd_sub_nth listening_def copy_text_fits)
  have "notify_queue d1 \<noteq> None" using assms(3) by (simp add: d1_def upd_sub_def)
  then obtain q where q: "notify_queue (custom_dlna_notify_transport_state_async d1) = Some q" using async_subs(2) [of d1] by auto
  have "\<not> stale now (s_subs d1 ! i)" using s assms(4) by (simp add: listening_def stale_def SUB_TIMEOUT_SEC_def)
  moreover have "d' = snd (custom_dlna_notify_rcs c now w (custom_dlna_notify_transport_state_async d1))"
    using assms(2,5,7) i by (auto simp: new_sub_def Let_def d1_def split: prod.splits)
  ultimately have "s_subs d' ! i = s_subs d1 ! i"
    using notify_rcs_keeps [OF q, of i now c w] l by (simp add: d1_def async_subs(1))
  then show ?thesis using s l assms(1) by (auto simp: dlna_ok_def)
qed


text \<open>Every subscriber has the same identifier, so whoever unsubscribes with it ends the subscription in the
  first slot and no other; any other identifier ends none.\<close>

theorem unsubscribe_ends_first:
  assumes "renderer u files d" and "cfg_uuid c = u" and "rq_method rq = HTTP_UNSUBSCRIBE"
    and "0 < hdr_len rq ''SID''" "hdr_len rq ''SID'' < 63" and "hdr rq ''SID'' 64 = Some sid"
  shows "event_handler c now w rq d = (no_notification, Resp ''200 OK'' '''' [] [],
    if sid = fixed_sid u then d \<lparr> s_subs := (s_subs d)[0 := (s_subs d ! 0) \<lparr> sub_url := [] \<rparr>] \<rparr> else d)"
proof -
  have d: "dlna_ok u d" using renderer_ok [OF assms(1)] .
  have ne: "fixed_sid u \<noteq> []" by (simp add: fixed_sid_def copy_text_def str_simps)
  from d obtain s ss where s: "s_subs d = s # ss" "sub_sid s = fixed_sid u" by (cases "s_subs d") (auto simp: dlna_ok_def MAX_SUBSCRIBERS_def)
  have "find_sub_by_sid sid d = (if sid = fixed_sid u then Some 0 else None)"
  proof (cases "sid = fixed_sid u")
    case True
    then show ?thesis using s ne by (simp add: find_sub_by_sid_def first_where_def)
  next
    case False
    then have "\<not> (sub_sid x \<noteq> [] \<and> sub_sid x = sid)" if "x \<in> set (s_subs d)" for x
      using d that by (auto simp: dlna_ok_def list_all_iff)
    then have "find_sub_by_sid sid d = None" unfolding find_sub_by_sid_def by (intro first_where_none) blast
    with False show ?thesis by simp
  qed
  then show ?thesis using assms(3,4,5,6) by (simp add: event_handler_def Let_def hdr_text_def upd_sub_def)
qed

text \<open>C26: Whatever control points send and in whatever order the tasks run, every text of the renderer stays
  inside its array, the event queue inside its length, and the first subscription keeps the device's own
  identifier while no other slot ever has another.\<close>

theorem renderer_invariant: "renderer u files d \<Longrightarrow> dlna_ok u d"
  by (rule renderer_ok)

lemma length_escaped: "length (escaped name v) = 26 + length name + length v"
  by (simp add: escaped_def)

lemma length_last_change: "length (last_change inner) = 299 + length inner"
  by (simp add: last_change_def)

lemma length_qq_event:
  "s_music_source d = MUSIC_SRC_QQ \<Longrightarrow> length (transport_event c d)
   = 1031 + length (transport_state c) + 2 * length (fmt_time (duration_sec c))
     + 2 * length (fmt_time (case get_position_sec c of Some s \<Rightarrow> s | None \<Rightarrow> 0))
     + 2 * length (s_metadata d) + 2 * length (s_uri d) + length (s_next_uri d) + length (s_next_metadata d)"
  by (simp add: transport_event_def length_last_change length_escaped Let_def)

lemma length_simple_event:
  "s_music_source d \<noteq> MUSIC_SRC_QQ \<Longrightarrow> length (transport_event c d) = 339 + length (transport_state c)"
  by (simp add: transport_event_def length_last_change length_escaped)

definition event_lost :: "dlna \<Rightarrow> bool" where
  \<comment> \<open>the addresses and the next description outgrow what the description itself leaves free\<close>
  "event_lost d \<longleftrightarrow> s_music_source d = MUSIC_SRC_QQ
     \<and> 1017 + 2 * length (s_metadata d) \<le> 2 * length (s_uri d) + length (s_next_uri d) + length (s_next_metadata d)"

text \<open>With QQ music as the source, long addresses make the transport event larger than the buffer, which
  grows with the description only: then no subscriber is told anything, on any network. Without QQ music the
  event is never lost for its length.\<close>

theorem long_address_silences:
  "(event_lost d \<longrightarrow> custom_dlna_notify_transport_state c now w d = (no_notification, cleanup_stale_subscriptions now d))
   \<and> (s_music_source d \<noteq> MUSIC_SRC_QQ \<longrightarrow> length (transport_state c) \<le> 16 \<longrightarrow> mem c (2048 + length (s_metadata d) * 4) \<longrightarrow>
      custom_dlna_notify_transport_state c now w d = gena_notify c now w (transport_event c d) (cleanup_stale_subscriptions now d))"
  by (auto simp: custom_dlna_notify_transport_state_def Let_def event_lost_def length_qq_event length_simple_event)

subsection \<open>At concrete requests\<close>

definition subscribe_request :: httpd_req where
  "subscribe_request = \<lparr> rq_method = HTTP_SUBSCRIBE, req_uri = str ''/upnp/event/avtransport'', content_len = 0,
     hdr = (\<lambda>name n. if name = ''CALLBACK'' then Some (60 # str ''http://10.0.0.7:49152/ev'' @ [62]) else None),
     hdr_left = (\<lambda>name n old. old), hdr_len = (\<lambda>name. if name = ''CALLBACK'' then 26 else 0), recvs = [] \<rparr>"

definition started_dlna :: dlna where
  "started_dlna = snd (custom_dlna_init (Some quiet_config) 5 True True dlna_boot)"

lemma started_renderer: "renderer None files started_dlna"
  by (rule renderer.started [of quiet_config 5 True True]) (simp_all add: started_dlna_def custom_dlna_init_def quiet_config_def Let_def)

lemma parse_example: "parse_callback (str ''http://10.0.0.7:49152/ev'') = Some (str ''10.0.0.7'', 49152, str ''/ev'')"
proof -
  have d: "list_all is_digit (str ''49152'')" by code_simp
  have v: "dec_val (str ''49152'') = 49152" by (simp add: dec_val_def str_simps)
  have "scan_dec (str ''49152'' @ str ''/ev'') = (False, dec_val (str ''49152''), length (str ''49152''))"
    using d by (intro scan_dec_digits) (simp_all add: str_simps is_digit_def)
  then have "atoi (str ''49152'' @ str ''/ev'') = 49152" by (simp add: atoi_def v)
  then show ?thesis by (simp add: parse_callback_def Let_def str_simps)
qed


definition unsubscribe_request :: httpd_req where
  "unsubscribe_request = \<lparr> rq_method = HTTP_UNSUBSCRIBE, req_uri = str ''/upnp/event/avtransport'', content_len = 0,
     hdr = (\<lambda>name n. if name = ''SID'' then Some (fixed_sid None) else None),
     hdr_left = (\<lambda>name n old. old), hdr_len = (\<lambda>name. if name = ''SID'' then 41 else 0), recvs = [] \<rparr>"

theorem unsubscribe_ends_first_witness:
  "event_handler quiet_config 7 (\<lambda>j. No_connect) unsubscribe_request started_dlna = (no_notification, Resp ''200 OK'' '''' [] [],
    if fixed_sid None = fixed_sid None then started_dlna \<lparr> s_subs := (s_subs started_dlna)[0 := (s_subs started_dlna ! 0) \<lparr> sub_url := [] \<rparr>] \<rparr> else started_dlna)"
  by (rule unsubscribe_ends_first [OF started_renderer [of "\<lambda>p. []"]]) (simp_all add: unsubscribe_request_def quiet_config_def)

theorem renderer_invariant_witness: "dlna_ok None started_dlna"
  by (rule renderer_invariant [OF started_renderer [of "\<lambda>p. []"]])

theorem long_address_silences_witness:
  "custom_dlna_notify_transport_state quiet_config 7 (\<lambda>j. Connected)
     (custom_dlna_set_music_source MUSIC_SRC_QQ (custom_dlna_update_uri (Some (replicate 600 97)) None started_dlna))
   = (no_notification, cleanup_stale_subscriptions 7 (custom_dlna_set_music_source MUSIC_SRC_QQ (custom_dlna_update_uri (Some (replicate 600 97)) None started_dlna)))"
  by (rule long_address_silences [THEN conjunct1, THEN mp])
    (simp add: event_lost_def custom_dlna_set_music_source_def custom_dlna_update_uri_def copy_text_def started_dlna_def custom_dlna_init_def Let_def)

end
