(* ===== verification/Ssdp.thy ===== *)
theory Ssdp
  imports Soap
begin

text \<open>
  The renderer's discovery (\<open>custom_dlna.c\<close>: \<open>ssdp_send_byebye\<close>, \<open>ssdp_alive_task\<close>,
  \<open>ssdp_task\<close>). A datagram is its text; the addresses of the device and of its gateway are answers of the
  network interface.
\<close>

subsection \<open>The messages\<close>

definition svc :: "string list" where
  "svc = [''upnp:rootdevice'', ''urn:schemas-upnp-org:device:MediaRenderer:1'', ''urn:schemas-upnp-org:service:AVTransport:1'',
     ''urn:schemas-upnp-org:service:RenderingControl:1'', ''urn:schemas-upnp-org:service:ConnectionManager:1'']"

definition byebye_text :: "byte list \<Rightarrow> string \<Rightarrow> byte list" where
  "byebye_text uuid s =
     str ''NOTIFY * HTTP/1.1'' @ crlf @ str ''HOST: 239.255.255.250:1900'' @ crlf @ str ''NTS: ssdp:byebye'' @ crlf
     @ str ''NT: '' @ str s @ crlf @ str ''USN: uuid:'' @ uuid @ str ''::'' @ str s @ crlf @ crlf"

definition ssdp_send_byebye :: "bool \<Rightarrow> byte list \<Rightarrow> byte list list" where
  \<comment> \<open>with a socket, the datagrams\<close>
  "ssdp_send_byebye sock uuid = (if sock then map (byebye_text uuid) svc else [])"

definition location :: "byte list \<Rightarrow> int \<Rightarrow> byte list" where
  "location ip port =
     str ''LOCATION: http://'' @ ip @ [58] @ fmt_int port @ str ''/device.xml'' @ crlf @ str ''SERVER: ESP32-DLNA/1.0 UPnP/1.0'' @ crlf"

definition alive_text :: "byte list \<Rightarrow> int \<Rightarrow> byte list \<Rightarrow> string \<Rightarrow> byte list" where
  "alive_text ip port uuid s =
     str ''NOTIFY * HTTP/1.1'' @ crlf @ str ''HOST: 239.255.255.250:1900'' @ crlf @ str ''CACHE-CONTROL: max-age=1800'' @ crlf
     @ location ip port @ str ''NTS: ssdp:alive'' @ crlf
     @ str ''NT: '' @ str s @ crlf @ str ''USN: uuid:'' @ uuid @ str ''::'' @ str s @ crlf @ crlf"

definition alive_delay :: "u32 \<Rightarrow> int" where
  \<comment> \<open>milliseconds, from a random word\<close>
  "alive_delay r = 30000 + (int (unat r mod 10000) - 5000)"

definition no_address :: "byte list" where "no_address = str ''0.0.0.0''"

definition ssdp_alive :: "byte list \<Rightarrow> byte list \<Rightarrow> int \<Rightarrow> byte list \<Rightarrow> byte list \<Rightarrow> (byte list \<times> byte list) list \<times> byte list" where
  \<comment> \<open>a pass of the loop: the datagrams with where they go, and the gateway's address from then on\<close>
  "ssdp_alive ip gw_dyn port uuid gw =
     (if ip = [] \<or> ip = no_address then ([], gw)
      else let gw' = (if gw_dyn \<noteq> [] \<and> gw_dyn \<noteq> no_address then gw_dyn else gw)
           in (concat (map (\<lambda>s. let t = alive_text ip port uuid s in [(str ''239.255.255.250'', t), (gw', t)]) svc), gw'))"

subsection \<open>Searches\<close>

definition search_keys :: "(string \<times> string) list" where
  \<comment> \<open>what a search target has to contain, and the service that answers\<close>
  "search_keys = zip [''rootdevice'', ''MediaRenderer'', ''AVTransport'', ''RenderingControl'', ''ConnectionManager''] svc"

definition search_target :: "byte list \<Rightarrow> byte list option" where
  \<comment> \<open>\<open>stv\<close>, of a datagram whose line ends have become bars\<close>
  "search_target pkt =
     (let buf = cstr (map (\<lambda>c. if c = 13 \<or> c = 10 then 124 else c) pkt) in
      case find_sub (str ''ST:'') buf of
        None \<Rightarrow> None
      | Some i \<Rightarrow> Some (take 127 (takeWhile (\<lambda>c. c \<noteq> 13 \<and> c \<noteq> 10) (dropWhile is_space (drop (i + 3) buf)))))"

definition search_services :: "bool \<Rightarrow> byte list \<Rightarrow> string list" where
  \<comment> \<open>the services that answer, in their order\<close>
  "search_services suppressed pkt =
     (if pkt = [] \<or> find_sub (str ''M-SEARCH'') (cstr pkt) = None \<or> suppressed then []
      else case search_target pkt of
             None \<Rightarrow> []
           | Some stv \<Rightarrow> map snd (filter (\<lambda>(k, s). find_sub (str ''ssdp:all'') stv \<noteq> None \<or> find_sub (str k) stv \<noteq> None) search_keys))"

definition search_text :: "byte list \<Rightarrow> int \<Rightarrow> byte list \<Rightarrow> string \<Rightarrow> byte list" where
  "search_text ip port uuid s =
     str ''HTTP/1.1 200 OK'' @ crlf @ str ''CACHE-CONTROL: max-age=1800'' @ crlf @ str ''EXT:'' @ crlf @ location ip port
     @ str ''ST: '' @ str s @ crlf @ str ''USN: uuid:'' @ uuid @ str ''::'' @ str s @ crlf @ crlf"

definition ssdp_answers :: "byte list \<Rightarrow> int \<Rightarrow> byte list \<Rightarrow> byte list \<Rightarrow> dlna \<Rightarrow> byte list list" where
  \<comment> \<open>a pass of the loop over \<open>recvfrom\<close>, which reads at most 2047 bytes\<close>
  "ssdp_answers ip port uuid pkt d = map (search_text ip port uuid) (search_services (s_ssdp_suppressed d) (take 2047 pkt))"

subsection \<open>What is found\<close>

definition search_request :: "byte list \<Rightarrow> byte list \<Rightarrow> byte list" where
  \<comment> \<open>as control points write it\<close>
  "search_request mx target =
     str ''M-SEARCH * HTTP/1.1'' @ crlf @ str ''HOST: 239.255.255.250:1900'' @ crlf @ dq ''MAN: `ssdp:discover`'' @ crlf
     @ str ''MX: '' @ mx @ crlf @ str ''ST: '' @ target @ crlf @ crlf"

lemma find_sub_wall:
  assumes "x \<notin> set pat" and "pat \<noteq> []"
  shows "find_sub pat (a @ x # b) = None \<longleftrightarrow> find_sub pat a = None \<and> find_sub pat b = None"
proof (induction a)
  case Nil
  have "hd pat \<noteq> x" using assms by (cases pat) auto
  then have "take (length pat) (x # b) \<noteq> pat" using assms(2) by (cases pat) auto
  then show ?case using assms(2) by simp
next
  case (Cons y a)
  have "take (length pat) (y # a @ x # b) = pat \<longleftrightarrow> take (length pat) (y # a) = pat"
  proof (cases "length pat \<le> length (y # a)")
    case False
    then obtain m where m: "length pat = Suc (length (y # a) + m)" using less_imp_Suc_add [of "length (y # a)" "length pat"] by auto
    then have "take (length pat) (y # a @ x # b) = y # a @ x # take m b" by simp
    then have "take (length pat) (y # a @ x # b) \<noteq> pat" using assms(1) by (metis in_set_conv_decomp append_Cons)
    moreover have "take (length pat) (y # a) \<noteq> pat" using False arg_cong [of "take (length pat) (y # a)" pat length] by auto
    ultimately show ?thesis by blast
  qed (metis append_Cons take_append append_Nil2 diff_is_0_eq take0)
  with Cons show ?case by simp
qed

definition in_words :: "byte list \<Rightarrow> bool" where
  \<comment> \<open>a key: no digit, blank or bar\<close>
  "in_words pat \<longleftrightarrow> pat \<noteq> [] \<and> 32 \<notin> set pat \<and> 124 \<notin> set pat \<and> list_all (\<lambda>c. \<not> is_digit c) pat"

definition search_front :: "byte list" where
  "search_front = str ''239.255.255.250:1900||'' @ dq ''MAN: `ssdp:discover`||MX:''"

lemma keys_in_words: "list_all (\<lambda>k. in_words (str k) \<and> find_sub (str k) search_front = None \<and> find_sub (str k) (str ''|ST:'') = None)
    (''ssdp:all'' # map fst search_keys)"
  by code_simp

lemma bars: "in_words pat \<Longrightarrow> find_sub pat (replicate n 124) = None"
proof (induction n)
  case (Suc n)
  then show ?case using find_sub_wall [of 124 pat "[]" "replicate n 124"] by (simp add: in_words_def)
qed (simp add: in_words_def)

lemma key_in_stv:
  assumes k: "in_words pat" "find_sub pat search_front = None" "find_sub pat (str ''|ST:'') = None" and "list_all is_digit mx"
  shows "find_sub pat (search_front @ 32 # mx @ 124 # str ''|ST:'' @ 32 # t @ replicate n 124) = None \<longleftrightarrow> find_sub pat t = None"
proof -
  have w: "32 \<notin> set pat" "124 \<notin> set pat" "pat \<noteq> []" using k(1) by (simp_all add: in_words_def)
  have "hd pat \<notin> set mx" using assms(4) k(1) hd_in_set [OF w(3)] by (auto simp: in_words_def list_all_iff)
  then have mx: "find_sub pat mx = None" using find_sub_skip [OF w(3), of mx "[]"] w(3) by simp
  have t: "find_sub pat (t @ replicate n 124) = None \<longleftrightarrow> find_sub pat t = None"
    using bars [OF k(1)] find_sub_wall [OF w(2,3), of t] by (cases n) simp_all
  show ?thesis
    unfolding find_sub_wall [OF w(1,3), of search_front] find_sub_wall [OF w(2,3), of mx] find_sub_wall [OF w(1,3), of "str ''|ST:''"] t
    using k(2,3) mx by blast
qed

definition plain :: "byte list \<Rightarrow> bool" where
  "plain t \<longleftrightarrow> 0 \<notin> set t \<and> 10 \<notin> set t \<and> 13 \<notin> set t"

lemma plain_same: "plain t \<Longrightarrow> map (\<lambda>c. if c = 13 \<or> c = 10 then 124 else c) t = t"
  by (intro map_idI) (auto simp: plain_def)

lemma plain_digits: "list_all is_digit mx \<Longrightarrow> plain mx"
  by (auto simp: plain_def list_all_iff is_digit_def)

lemma no_nul_cstr: "0 \<notin> set t \<Longrightarrow> cstr t = t"
  by (auto simp: cstr_def takeWhile_eq_all_conv)

lemma four_bars: "replicate 4 (124 :: byte) = [124, 124, 124, 124]"
  by (simp add: numeral_eq_Suc)

lemma request_bars:
  assumes "plain mx" and "plain t"
  shows "map (\<lambda>c. if c = 13 \<or> c = 10 then 124 else c) (search_request mx t)
    = str ''M-SEARCH * HTTP/1.1||HO'' @ str ''ST:'' @ 32 # search_front @ 32 # mx @ 124 # str ''|ST:'' @ 32 # t @ replicate 4 124"
  using plain_same [OF assms(1)] plain_same [OF assms(2)]
  by (simp add: search_request_def search_front_def crlf_def dq_def str_simps four_bars)

lemma host_st: "find_sub (str ''ST:'') (str ''M-SEARCH * HTTP/1.1||HO'' @ str ''ST:'') = Some 23"
  by code_simp

lemma request_target:
  assumes "list_all is_digit mx" and "plain t" and "length mx + length t \<le> 73"
  shows "\<exists>n. search_target (search_request mx t) = Some (search_front @ 32 # mx @ 124 # str ''|ST:'' @ 32 # t @ replicate n 124)"
proof -
  define r where "r = search_front @ 32 # mx @ 124 # str ''|ST:'' @ 32 # t @ replicate 4 124"
  have pm: "plain mx" using plain_digits [OF assms(1)] .
  have nf: "0 \<notin> set search_front \<and> 10 \<notin> set search_front \<and> 13 \<notin> set search_front" by (simp add: search_front_def dq_def str_simps)
  then have "plain r" using pm assms(2) by (auto simp: r_def plain_def str_simps)
  then have r: "takeWhile (\<lambda>c. c \<noteq> 13 \<and> c \<noteq> 10) r = r" "0 \<notin> set r" by (auto simp: plain_def takeWhile_eq_all_conv)
  have hd: "dropWhile is_space (32 # r) = r" by (simp add: r_def search_front_def str_simps is_space_def)
  have buf: "map (\<lambda>c. if c = 13 \<or> c = 10 then 124 else c) (search_request mx t) = (str ''M-SEARCH * HTTP/1.1||HO'' @ str ''ST:'') @ 32 # r"
    using request_bars [OF pm assms(2)] by (simp add: r_def)
  have c: "cstr ((str ''M-SEARCH * HTTP/1.1||HO'' @ str ''ST:'') @ 32 # r) = (str ''M-SEARCH * HTTP/1.1||HO'' @ str ''ST:'') @ 32 # r"
    using r(2) by (intro no_nul_cstr) (simp add: str_simps)
  have f: "find_sub (str ''ST:'') ((str ''M-SEARCH * HTTP/1.1||HO'' @ str ''ST:'') @ 32 # r) = Some 23"
    by (rule find_sub_append [OF host_st])
  have d: "drop (23 + 3) ((str ''M-SEARCH * HTTP/1.1||HO'' @ str ''ST:'') @ 32 # r) = 32 # r" by simp
  have "search_target (search_request mx t) = Some (take 127 r)"
    unfolding search_target_def buf Let_def c f option.case d hd r(1) ..
  moreover have "length (search_front @ 32 # mx @ 124 # str ''|ST:'' @ 32 # t) \<le> 127"
    using assms(3) by (simp add: search_front_def)
  then have "take 127 r = search_front @ 32 # mx @ 124 # str ''|ST:'' @ 32 # t @ replicate (min 4 (127 - length (search_front @ 32 # mx @ 124 # str ''|ST:'' @ 32 # t))) 124"
    using take_append [of 127 "search_front @ 32 # mx @ 124 # str ''|ST:'' @ 32 # t" "replicate 4 124"]
    by (simp add: r_def min.commute)
  ultimately show ?thesis by (intro exI) (simp only:)
qed

lemma request_searches:
  assumes "list_all is_digit mx" and "plain t"
  shows "search_request mx t \<noteq> []" "find_sub (str ''M-SEARCH'') (cstr (search_request mx t)) \<noteq> None"
proof -
  have "0 \<notin> set (search_request mx t)"
    using assms(2) plain_digits [OF assms(1)] by (simp add: search_request_def crlf_def dq_def str_simps plain_def)
  then have "cstr (search_request mx t) = search_request mx t" by (rule no_nul_cstr)
  moreover have "\<exists>r. search_request mx t = str ''M-SEARCH'' @ r"
    by (rule exI [of _ "str '' * HTTP/1.1'' @ drop 19 (search_request mx t)"]) (simp add: search_request_def str_simps)
  then obtain r where r: "search_request mx t = str ''M-SEARCH'' @ r" ..
  ultimately show "search_request mx t \<noteq> []" "find_sub (str ''M-SEARCH'') (cstr (search_request mx t)) \<noteq> None"
    using find_sub_prefix [of "str ''M-SEARCH''" r] by (simp_all del: find_sub.simps) (simp_all add: str_simps)
qed

lemma services_of:
  "pkt \<noteq> [] \<Longrightarrow> find_sub (str ''M-SEARCH'') (cstr pkt) \<noteq> None \<Longrightarrow> search_target pkt = Some v \<Longrightarrow>
   search_services False pkt = map snd (filter (\<lambda>(k, s). find_sub (str ''ssdp:all'') v \<noteq> None \<or> find_sub (str k) v \<noteq> None) search_keys)"
  unfolding search_services_def by (simp only: simp_thms if_False option.case)

lemma searched:
  assumes "list_all is_digit mx" and "plain t" and "length mx + length t \<le> 73"
  shows "search_services False (search_request mx t)
    = map snd (filter (\<lambda>(k, s). find_sub (str ''ssdp:all'') t \<noteq> None \<or> find_sub (str k) t \<noteq> None) search_keys)"
proof -
  from request_target [OF assms] obtain n
    where n: "search_target (search_request mx t) = Some (search_front @ 32 # mx @ 124 # str ''|ST:'' @ 32 # t @ replicate n 124)" ..
  have k: "find_sub (str k) (search_front @ 32 # mx @ 124 # str ''|ST:'' @ 32 # t @ replicate n 124) = None \<longleftrightarrow> find_sub (str k) t = None"
    if "k \<in> set (''ssdp:all'' # map fst search_keys)" for k
    using keys_in_words that assms(1) by (intro key_in_stv) (simp_all only: list_all_iff)
  define S where "S = search_front @ 32 # mx @ 124 # str ''|ST:'' @ 32 # t @ replicate n 124"
  have all: "find_sub (str ''ssdp:all'') S = None \<longleftrightarrow> find_sub (str ''ssdp:all'') t = None"
    unfolding S_def by (rule k) simp
  have each: "find_sub (str k) S = None \<longleftrightarrow> find_sub (str k) t = None" if "(k, s) \<in> set search_keys" for k s
    unfolding S_def by (rule k) (use that in \<open>auto intro: rev_image_eqI\<close>)
  have "filter (\<lambda>(k, s). find_sub (str ''ssdp:all'') S \<noteq> None \<or> find_sub (str k) S \<noteq> None) search_keys
      = filter (\<lambda>(k, s). find_sub (str ''ssdp:all'') t \<noteq> None \<or> find_sub (str k) t \<noteq> None) search_keys"
    unfolding all
  proof (intro filter_cong refl)
    fix ks assume "ks \<in> set search_keys"
    then have "find_sub (str (fst ks)) S = None \<longleftrightarrow> find_sub (str (fst ks)) t = None" by (intro each [of _ "snd ks"]) simp
    then show "(case ks of (k, s) \<Rightarrow> find_sub (str ''ssdp:all'') t \<noteq> None \<or> find_sub (str k) S \<noteq> None)
        = (case ks of (k, s) \<Rightarrow> find_sub (str ''ssdp:all'') t \<noteq> None \<or> find_sub (str k) t \<noteq> None)"
      unfolding split_beta by (simp only:)
  qed
  with services_of [OF request_searches [OF assms(1,2)] n] show ?thesis unfolding S_def by (simp only:)
qed

text \<open>A search as control points send it is answered by exactly the services its target names, in one
  answer each, and by all of them when it asks for everything: although the target is taken from behind the
  HOST field, nothing before it is ever mistaken for a service.\<close>

theorem search_finds_services:
  assumes "list_all is_digit mx" and "plain t" and "length mx + length t \<le> 73" and "\<not> s_ssdp_suppressed d"
  shows "ssdp_answers ip port uuid (search_request mx t) d
    = map (search_text ip port uuid) (map snd (filter (\<lambda>(k, s). find_sub (str ''ssdp:all'') t \<noteq> None \<or> find_sub (str k) t \<noteq> None) search_keys))"
proof -
  have "length (search_request mx t) \<le> 2047" using assms(3) by (simp add: search_request_def dq_def)
  then show ?thesis using assms(4) searched [OF assms(1,2,3)] by (simp add: ssdp_answers_def)
qed

text \<open>What stands 127 characters or more behind the HOST field is not seen: such a search is answered as if
  anything else stood there.\<close>

theorem late_target_unseen:
  assumes "0 \<notin> set x" and "x \<noteq> []" and "\<not> is_space (hd x)" and "127 \<le> length x" and "0 \<notin> set y" and "0 \<notin> set z"
  shows "search_services False (str ''M-SEARCH * HTTP/1.1'' @ crlf @ str ''HOST: '' @ x @ y)
       = search_services False (str ''M-SEARCH * HTTP/1.1'' @ crlf @ str ''HOST: '' @ x @ z)"
proof -
  define bar :: "byte \<Rightarrow> byte" where "bar = (\<lambda>c. if c = 13 \<or> c = 10 then 124 else c)"
  have stv: "search_target (str ''M-SEARCH * HTTP/1.1'' @ crlf @ str ''HOST: '' @ x @ y) = Some (take 127 (map bar x))" if y: "0 \<notin> set y" for y
  proof -
    define r where "r = map bar x @ map bar y"
    have nul: "0 \<notin> set r" "\<forall>c\<in>set r. c \<noteq> 13 \<and> c \<noteq> 10" using assms(1) y by (auto simp: r_def bar_def)
    have buf: "map (\<lambda>c. if c = 13 \<or> c = 10 then 124 else c) (str ''M-SEARCH * HTTP/1.1'' @ crlf @ str ''HOST: '' @ x @ y)
        = (str ''M-SEARCH * HTTP/1.1||HO'' @ str ''ST:'') @ 32 # r"
      by (simp add: r_def str_simps crlf_def flip: bar_def) (simp add: bar_def)
    have c: "cstr ((str ''M-SEARCH * HTTP/1.1||HO'' @ str ''ST:'') @ 32 # r) = (str ''M-SEARCH * HTTP/1.1||HO'' @ str ''ST:'') @ 32 # r"
      using nul(1) by (intro no_nul_cstr) (simp add: str_simps)
    have f: "find_sub (str ''ST:'') ((str ''M-SEARCH * HTTP/1.1||HO'' @ str ''ST:'') @ 32 # r) = Some 23"
      by (rule find_sub_append [OF host_st])
    have d: "drop (23 + 3) ((str ''M-SEARCH * HTTP/1.1||HO'' @ str ''ST:'') @ 32 # r) = 32 # r" by simp
    have "\<not> is_space (bar (hd x))" using assms(3) by (simp add: bar_def is_space_def)
    then have "\<not> is_space (hd r)" "r \<noteq> []" using assms(2) by (cases x; simp add: r_def)+
    then have "dropWhile is_space r = r" by (cases r) simp_all
    then have h: "dropWhile is_space (32 # r) = r" by (simp add: is_space_def)
    have t: "takeWhile (\<lambda>c. c \<noteq> 13 \<and> c \<noteq> 10) r = r" using nul(2) by (simp add: takeWhile_eq_all_conv)
    have "take 127 r = take 127 (map bar x)" using assms(4) by (simp add: r_def)
    then show ?thesis unfolding search_target_def buf Let_def c f option.case d h t by simp
  qed
  have ms: "find_sub (str ''M-SEARCH'') (cstr (str ''M-SEARCH * HTTP/1.1'' @ crlf @ str ''HOST: '' @ x @ y)) \<noteq> None" if y: "0 \<notin> set y" for y
  proof -
    have "cstr (str ''M-SEARCH * HTTP/1.1'' @ crlf @ str ''HOST: '' @ x @ y) = str ''M-SEARCH * HTTP/1.1'' @ crlf @ str ''HOST: '' @ x @ y"
      using assms(1) y by (intro no_nul_cstr) (simp add: str_simps crlf_def)
    also have "\<dots> = str ''M-SEARCH'' @ str '' * HTTP/1.1'' @ crlf @ str ''HOST: '' @ x @ y" by (simp add: str_simps)
    finally have c: "cstr (str ''M-SEARCH * HTTP/1.1'' @ crlf @ str ''HOST: '' @ x @ y) = str ''M-SEARCH'' @ str '' * HTTP/1.1'' @ crlf @ str ''HOST: '' @ x @ y" .
    show ?thesis unfolding c find_sub_prefix by (rule option.distinct(2))
  qed
  have ne: "str ''M-SEARCH * HTTP/1.1'' @ crlf @ str ''HOST: '' @ x @ y \<noteq> []" for y by (simp add: crlf_def)
  show ?thesis
    unfolding services_of [OF ne ms [OF assms(5)] stv [OF assms(5)]] services_of [OF ne ms [OF assms(6)] stv [OF assms(6)]] ..
qed

lemma length_svc: "list_all (\<lambda>s. length s \<le> 48) svc"
  by (simp add: svc_def)

text \<open>Every announcement and every answer fits its 512 bytes when the address is one of IPv4 and the
  identifier is at most 64 long, so that what is sent is the whole text.\<close>

theorem discovery_texts_fit:
  assumes "length ip \<le> 15" and "length uuid \<le> 64" and "- (2 ^ 31) \<le> port" and "port < 2 ^ 31"
  shows "list_all (\<lambda>s. length (byebye_text uuid s) < 512 \<and> length (alive_text ip port uuid s) < 512 \<and> length (search_text ip port uuid s) < 512) svc"
  using length_svc length_fmt_int [OF assms(3,4)] assms(1,2)
  by (auto simp: list_all_iff byebye_text_def alive_text_def search_text_def location_def dest!: bspec)

theorem search_finds_services_witness:
  "ssdp_answers (str ''10.0.0.2'') 8080 (str ''u'') (search_request (str ''3'') (str ''urn:schemas-upnp-org:service:AVTransport:1'')) dlna_boot
   = map (search_text (str ''10.0.0.2'') 8080 (str ''u'')) (map snd (filter (\<lambda>(k, s). find_sub (str ''ssdp:all'') (str ''urn:schemas-upnp-org:service:AVTransport:1'') \<noteq> None
        \<or> find_sub (str k) (str ''urn:schemas-upnp-org:service:AVTransport:1'') \<noteq> None) search_keys))"
  by (rule search_finds_services) (simp_all add: str_simps is_digit_def plain_def dlna_boot_def)

theorem late_target_unseen_witness:
  "search_services False (str ''M-SEARCH * HTTP/1.1'' @ crlf @ str ''HOST: '' @ (replicate 130 65) @ crlf @ str ''ST: ssdp:all'' @ crlf)
   = search_services False (str ''M-SEARCH * HTTP/1.1'' @ crlf @ str ''HOST: '' @ (replicate 130 65) @ [])"
proof (rule late_target_unseen)
  show "\<not> is_space (hd (replicate 130 (65 :: byte)))" by (simp add: is_space_def)
qed (simp_all add: str_simps crlf_def)

theorem discovery_texts_fit_witness:
  "list_all (\<lambda>s. length (byebye_text (str ''u'') s) < 512 \<and> length (alive_text (str ''10.0.0.2'') 8080 (str ''u'') s) < 512
     \<and> length (search_text (str ''10.0.0.2'') 8080 (str ''u'') s) < 512) svc"
  by (rule discovery_texts_fit) simp_all

end
