(* ===== verification/Didl.thy ===== *)
theory Didl
  imports Soap
begin

unbundle bit_operations_syntax

text \<open>
  The texts of the player (\<open>main/dlna.c\<close>): descriptions in DIDL-Lite (\<open>html_unescape\<close>, \<open>extract_tag\<close>,
  \<open>parse_duration_from_metadata\<close>, \<open>decode_html_entities\<close>), addresses (\<open>is_video_uri\<close>, the source in
  \<open>detect_and_apply_music_source\<close>, the decoding in \<open>_do_play\<close>), the volume curve, and the characters the
  lyrics task counts (\<open>utf8_*\<close>).
\<close>

subsection \<open>Entities and elements\<close>

definition entities :: "(string \<times> byte) list" where
  "entities = [(''&amp;'', 38), (''&lt;'', 60), (''&gt;'', 62), (''&quot;'', 34), (''&apos;'', 39)]"

definition entity_at :: "byte list \<Rightarrow> (byte \<times> nat) option" where
  \<comment> \<open>the entity a text starts with: its character and its length\<close>
  "entity_at s = map_option (\<lambda>(e, c). (c, length e)) (find (\<lambda>(e, c). take (length e) s = str e) entities)"

function unescape_loop :: "nat \<Rightarrow> nat \<Rightarrow> byte list \<Rightarrow> byte list" where
  \<comment> \<open>\<open>room\<close> characters can still be stored, \<open>left\<close> characters belong to the source, which goes on behind them\<close>
  "unescape_loop room left s =
     (if room = 0 \<or> left = 0 \<or> s = [] then []
      else case entity_at s of
             Some (c, n) \<Rightarrow> c # unescape_loop (room - 1) (left - n) (drop n s)
           | None \<Rightarrow> hd s # unescape_loop (room - 1) (left - 1) (tl s))"
  by auto
termination by (relation "measure (\<lambda>(room, left, s). room)") simp_all

declare unescape_loop.simps [simp del]

definition html_unescape :: "nat \<Rightarrow> byte list \<Rightarrow> nat \<Rightarrow> byte list" where
  "html_unescape dst_size src src_len = unescape_loop (dst_size - 1) src_len src"

definition plain_gt :: "byte list \<Rightarrow> byte list" where
  \<comment> \<open>behind the end of an opening tag\<close>
  "plain_gt p = (case p of [] \<Rightarrow> [] | c # cs \<Rightarrow> if c = 62 then cs else if c = 47 then drop 2 p else p)"

fun open_end :: "byte list \<Rightarrow> byte list" where
  "open_end [] = []"
| "open_end (c # cs) = (if c = 62 \<or> c = 47 \<and> take 1 cs = [62] then c # cs else open_end cs)"

fun escaped_end :: "byte list \<Rightarrow> byte list" where
  \<comment> \<open>behind the first end of tag, escaped or not\<close>
  "escaped_end [] = []"
| "escaped_end (c # cs) =
     (if take 4 (c # cs) = str ''&gt;'' then drop 3 cs
      else if c = 62 then cs
      else if c = 47 \<and> take 1 cs = [62] then drop 1 cs
      else escaped_end cs)"

definition extract_tag :: "nat \<Rightarrow> byte list \<Rightarrow> string \<Rightarrow> byte list option" where
  \<comment> \<open>the text stored in \<open>out\<close>; \<open>None\<close> is -1 and leaves it\<close>
  "extract_tag out_size xml tag =
     (case find_sub (str ''&lt;'' @ str tag) xml of
        None \<Rightarrow>
          (case find_sub (60 # str tag) xml of
             None \<Rightarrow> None
           | Some i \<Rightarrow>
               let p = plain_gt (open_end (drop (i + length tag + 1) xml)) in
               if p = [] then None
               else map_option (html_unescape out_size p) (find_sub (str ''</'' @ str tag @ [62]) p))
      | Some i \<Rightarrow>
          let p = escaped_end (drop (i + 4 + length tag) xml) in
          if p = [] then None
          else map_option (html_unescape out_size p) (find_sub (str ''&lt;/'' @ str tag @ str ''&gt;'') p))"

definition parse_duration_from_metadata :: "byte list \<Rightarrow> int \<Rightarrow> int" where
  \<comment> \<open>the duration in seconds, from the one before\<close>
  "parse_duration_from_metadata meta old =
     (let p = (case find_sub (str ''duration=&quot;'') meta of
                 Some i \<Rightarrow> Some (drop (i + 15) meta)
               | None \<Rightarrow> map_option (\<lambda>i. drop (i + 10) meta) (find_sub (dq ''duration=`'') meta))
      in case p of
           None \<Rightarrow> old
         | Some s \<Rightarrow>
             let vs = sscanf [Num, Lit 58, Num, Lit 58, Num] s;
                 total = s32 (vs ! 0 * 3600 + vs ! 1 * 60 + (if 3 \<le> length vs then vs ! 2 else 0))
             in if 2 \<le> length vs \<and> 0 < total then total else old)"

definition utf8 :: "u32 \<Rightarrow> byte list" where
  \<comment> \<open>as written into \<open>dst\<close>\<close>
  "utf8 cp =
     (if cp < 0x80 then [ucast cp]
      else if cp < 0x800 then [0xC0 OR ucast (drop_bit 6 cp), 0x80 OR ucast (cp AND 0x3F)]
      else if cp < 0x10000 then [0xE0 OR ucast (drop_bit 12 cp), 0x80 OR ucast (drop_bit 6 cp AND 0x3F), 0x80 OR ucast (cp AND 0x3F)]
      else [0xF0 OR ucast (drop_bit 18 cp), 0x80 OR ucast (drop_bit 12 cp AND 0x3F), 0x80 OR ucast (drop_bit 6 cp AND 0x3F), 0x80 OR ucast (cp AND 0x3F)])"

definition codepoint :: "byte list \<Rightarrow> u32" where
  "codepoint ds = of_nat (dec_val ds)"

function entity_loop :: "nat \<Rightarrow> byte list \<Rightarrow> byte list" where
  \<comment> \<open>\<open>room\<close> is \<open>dst_size - pos\<close>\<close>
  "entity_loop room s =
     (if s = [] \<or> room \<le> 6 then []
      else if take 2 s = str ''&#'' then
        (let ds = takeWhile is_digit (drop 2 s); r = drop (2 + length ds) s; u = utf8 (codepoint ds)
         in u @ entity_loop (room - length u) (if r \<noteq> [] \<and> hd r = 59 then tl r else r))
      else hd s # entity_loop (room - 1) (tl s))"
  by auto
termination by (relation "measure (\<lambda>(room, s). room)") (auto simp: utf8_def Let_def)

declare entity_loop.simps [simp del]

definition decode_html_entities :: "nat \<Rightarrow> byte list \<Rightarrow> byte list" where
  \<comment> \<open>\<open>&#0;\<close> ends the text\<close>
  "decode_html_entities dst_size src = cstr (entity_loop dst_size src)"

subsection \<open>Addresses\<close>

fun decode_amp :: "nat \<Rightarrow> byte list \<Rightarrow> byte list" where
  \<comment> \<open>the loop in \<open>_do_play\<close>, with room for so many characters\<close>
  "decode_amp 0 s = []"
| "decode_amp (Suc n) s =
     (if s = [] then [] else if take 5 s = str ''&amp;'' then 38 # decode_amp n (drop 5 s) else hd s # decode_amp n (tl s))"

definition str_has :: "byte list \<Rightarrow> string \<Rightarrow> bool" where
  "str_has s sub \<longleftrightarrow> find_sub (map to_lower (str sub)) (map to_lower s) \<noteq> None"

definition video_exts :: "string list" where
  "video_exts = [''.mp4'', ''.mov'', ''.avi'', ''.mkv'', ''.wmv'', ''.m4v'', ''.3gp'', ''.ts'', ''.mts'', ''.m2ts'']"

definition is_video_uri :: "byte list \<Rightarrow> bool" where
  "is_video_uri uri =
     (let path = (case find_sub (str ''://'') uri of Some i \<Rightarrow> drop (i + 3) uri | None \<Rightarrow> uri)
      in case index_of 47 path of
           None \<Rightarrow> False
         | Some i \<Rightarrow> list_ex (\<lambda>e. length e \<le> length path - i \<and> strcaseeq (drop (length path - length e) path) (str e)) video_exts)"

definition music_source :: "byte list option \<Rightarrow> byte list \<Rightarrow> music_source_t" where
  \<comment> \<open>\<open>src\<close> in \<open>detect_and_apply_music_source\<close>, from the address, which may be NULL, and the User-Agent\<close>
  "music_source uri ua =
     (let u = (case uri of None \<Rightarrow> (\<lambda>s. False) | Some x \<Rightarrow> str_has x); a = str_has ua in
      if (case uri of None \<Rightarrow> False | Some x \<Rightarrow> find_sub (str '':8090'') x \<noteq> None) then MUSIC_SRC_SPEAKER
      else if u ''qqmusic'' \<or> u ''qq_music'' \<or> u ''qq_realtime'' \<or> u ''tc.qq.com'' \<or> a ''qqmusic'' \<or> a ''aqqmusic'' \<or> a ''qq music'' then MUSIC_SRC_QQ
      else if a ''bilibili'' \<or> u ''bilibili'' \<or> u ''b23.tv'' then MUSIC_SRC_BILIBILI
      else if a ''kugou'' \<or> u ''kugou.com'' \<or> u ''kugou'' then MUSIC_SRC_KUGOU
      else if a ''kuwo'' \<or> u ''kuwo.cn'' \<or> u ''kuwo'' then MUSIC_SRC_KUWO
      else if a ''ximalaya'' \<or> u ''ximalaya.com'' \<or> u ''ximalaya'' then MUSIC_SRC_XIMALAYA
      else MUSIC_SRC_NETEASE)"

subsection \<open>Volume\<close>

definition s_vol_curve :: "int list" where
  "s_vol_curve = [-64, -50, -38, -28, -19, -11, -5, 0, 2, 4, 6]"

definition vol_percent_to_alc_gain :: "int \<Rightarrow> int" where
  "vol_percent_to_alc_gain percent =
     (if percent \<le> 0 then -64
      else if 100 \<le> percent then s_vol_curve ! 10
      else let idx = nat (percent div 10); frac = percent mod 10; a = s_vol_curve ! idx; b = s_vol_curve ! (idx + 1)
           in a + (b - a) * frac div 10)"

subsection \<open>Characters\<close>

definition utf8_starts :: "byte \<Rightarrow> bool" where
  "utf8_starts b \<longleftrightarrow> b AND 0xC0 \<noteq> 0x80"

fun utf8_byte_offset :: "byte list \<Rightarrow> int \<Rightarrow> nat" where
  "utf8_byte_offset [] n = 0"
| "utf8_byte_offset (b # bs) n = (if n \<le> 0 then 0 else Suc (utf8_byte_offset bs (if utf8_starts b then n - 1 else n)))"

definition utf8_char_count :: "byte list \<Rightarrow> nat" where
  "utf8_char_count s = length (filter utf8_starts s)"

definition estimate_last_line_duration_ms :: "byte list \<Rightarrow> nat" where
  "estimate_last_line_duration_ms t = min 8000 (max 2000 (max 1 (utf8_char_count t) * 320))"

subsection \<open>Descriptions are read back\<close>

definition escape_char :: "byte \<Rightarrow> byte list" where
  \<comment> \<open>a character as XML writes it\<close>
  "escape_char c = (case find (\<lambda>(e, x). x = c) entities of Some (e, x) \<Rightarrow> str e | None \<Rightarrow> [c])"

definition escape :: "byte list \<Rightarrow> byte list" where
  "escape t = concat (map escape_char t)"

lemma escape_simps [simp]: "escape [] = []" "escape (c # t) = escape_char c @ escape t"
  by (simp_all add: escape_def)

lemma escape_char_cases:
  "escape_char c = (if c = 38 then str ''&amp;'' else if c = 60 then str ''&lt;'' else if c = 62 then str ''&gt;''
     else if c = 34 then str ''&quot;'' else if c = 39 then str ''&apos;'' else [c])"
  by (simp add: escape_char_def entities_def)

lemma entity_at_escaped: "entity_at (escape_char c @ s) = (if escape_char c = [c] then None else Some (c, length (escape_char c))) \<or> c = 38 \<and> escape_char c = [c]"
  by (simp add: escape_char_cases entity_at_def entities_def str_simps)

lemma escape_char_ne [simp]: "escape_char c \<noteq> []" "0 < length (escape_char c)"
  by (simp_all add: escape_char_cases str_simps)

lemma unescape_step:
  "0 < room \<Longrightarrow> unescape_loop room (length (escape_char c) + m) (escape_char c @ s) = c # unescape_loop (room - 1) m s"
  by (subst unescape_loop.simps) (simp add: escape_char_cases entity_at_def entities_def str_simps)

lemma unescape_escape: "unescape_loop room (length (escape t)) (escape t @ s) = take room t"
proof (induction t arbitrary: room)
  case Nil
  show ?case by (subst unescape_loop.simps) simp
next
  case (Cons c t)
  show ?case
  proof (cases room)
    case 0
    then show ?thesis by (subst unescape_loop.simps) simp
  next
    case (Suc n)
    with Cons.IH [of n] unescape_step [of room c "length (escape t)" "escape t @ s"] show ?thesis by simp
  qed
qed

lemma escape_no_angle: "60 \<notin> set (escape t) \<and> 62 \<notin> set (escape t)"
  by (induction t) (auto simp: escape_char_cases str_simps)

text \<open>The text of an element is read back from a description: with the markup written as such, every
  title comes out unchanged, cut to the buffer, whatever characters it has.\<close>

theorem description_read:
  assumes "list_all (\<lambda>s. 60 \<notin> set s \<and> take (length tag) s \<noteq> str tag) ps" and "60 \<notin> set (str tag)"
    and "find_sub (str ''&lt;'' @ str tag) (marked (ps @ (str tag @ 62 # escape t) # (47 # str tag @ 62 # q) # qs)) = None"
  shows "extract_tag n (marked (ps @ (str tag @ 62 # escape t) # (47 # str tag @ 62 # q) # qs)) tag = Some (take (n - 1) t)"
proof -
  define B where "B = marked (ps @ (str tag @ 62 # escape t) # (47 # str tag @ 62 # q) # qs)"
  define R where "R = 60 # 47 # str tag @ 62 # q @ marked qs"
  have esc: "60 \<notin> set (str tag @ 62 # escape t)" using assms(2) escape_no_angle by simp
  have "find_sub (60 # str tag) B = Some (length (marked ps))"
    unfolding B_def using assms(1,2) esc by (intro find_marked_at) simp_all
  moreover have "drop (length (marked ps) + length tag + 1) B = drop (length tag + 1) (drop (length (marked ps)) B)" by (simp add: add.commute)
  then have "drop (length (marked ps) + length tag + 1) B = 62 # escape t @ R"
    by (simp add: B_def R_def marked_append)
  moreover have "find_sub (str ''</'' @ str tag @ [62]) (escape t @ R) = Some (length (escape t))"
  proof -
    have "find_sub (60 # 47 # str tag @ [62]) R = Some 0"
      using find_sub_prefix [of "60 # 47 # str tag @ [62]" "q @ marked qs"] by (simp only: R_def append_Cons append_assoc append_Nil)
    then show ?thesis
      using find_sub_skip [of "60 # 47 # str tag @ [62]" "escape t" R] escape_no_angle [of t] by (simp add: str_simps)
  qed
  moreover have "escape t @ R \<noteq> []" by (simp add: R_def)
  ultimately show ?thesis
    using assms(3) unfolding B_def [symmetric]
    by (simp add: extract_tag_def plain_gt_def html_unescape_def unescape_escape Let_def)
qed

lemma skip_amp:
  "60 \<notin> set u \<Longrightarrow> find_sub (38 # 108 # p) (escape u @ s) = map_option (\<lambda>i. length (escape u) + i) (find_sub (38 # 108 # p) s)"
proof (induction u)
  case Nil
  then show ?case by (simp add: option.map_ident)
next
  case (Cons c u)
  then have c: "c \<noteq> 60" and u: "find_sub (38 # 108 # p) (escape u @ s) = map_option (\<lambda>i. length (escape u) + i) (find_sub (38 # 108 # p) s)" by simp_all
  have "find_sub (38 # 108 # p) (escape_char c @ r) = map_option (\<lambda>i. length (escape_char c) + i) (find_sub (38 # 108 # p) r)" for r
    using c by (cases "find_sub (38 # 108 # p) r") (auto simp: escape_char_cases str_simps find_sub_cons)
  from this [of "escape u @ s"] u show ?case by (cases "find_sub (38 # 108 # p) s") simp_all
qed

text \<open>A description that arrives escaped, as control points send it, is unescaped only once although its texts
  were escaped twice: what comes out is the title as XML writes it.\<close>

theorem escaped_description_read:
  assumes "find_sub (str ''&lt;'' @ str tag) (pre @ str ''&lt;'' @ str tag @ str ''&gt;'' @ escape (escape t) @ str ''&lt;/'' @ str tag @ str ''&gt;'' @ post) = Some (length pre)"
  shows "extract_tag n (pre @ str ''&lt;'' @ str tag @ str ''&gt;'' @ escape (escape t) @ str ''&lt;/'' @ str tag @ str ''&gt;'' @ post) tag
    = Some (take (n - 1) (escape t))"
proof -
  define R where "R = str ''&lt;/'' @ str tag @ str ''&gt;'' @ post"
  define B where "B = pre @ str ''&lt;'' @ str tag @ str ''&gt;'' @ escape (escape t) @ R"
  have "drop (length pre + 4 + length tag) B = drop (4 + length tag) (drop (length pre) B)" by (simp add: add.commute add.left_commute)
  then have "drop (length pre + 4 + length tag) B = str ''&gt;'' @ escape (escape t) @ R"
    by (simp add: B_def)
  moreover have "escaped_end (str ''&gt;'' @ escape (escape t) @ R) = escape (escape t) @ R" by (simp add: str_simps)
  moreover have "find_sub (str ''&lt;/'' @ str tag @ str ''&gt;'') (escape (escape t) @ R) = Some (length (escape (escape t)))"
  proof -
    have "find_sub (str ''&lt;/'' @ str tag @ str ''&gt;'') R = Some 0"
      using find_sub_prefix [of "str ''&lt;/'' @ str tag @ str ''&gt;''" post] by (simp only: R_def append_assoc)
    then show ?thesis
      using skip_amp [of "escape t" "116 # 59 # 47 # str tag @ str ''&gt;''" R] escape_no_angle [of t] by (simp add: str_simps)
  qed
  moreover have "escape (escape t) @ R \<noteq> []" by (simp add: R_def str_simps)
  moreover have "find_sub (str ''&lt;'' @ str tag) B = Some (length pre)" using assms by (simp add: B_def R_def)
  ultimately have "extract_tag n B tag = Some (take (n - 1) (escape t))"
    unfolding extract_tag_def by (simp add: html_unescape_def unescape_escape Let_def)
  then show ?thesis by (simp add: B_def R_def)
qed

lemma sscanf_time:
  assumes "0 \<le> sec" and "sec < 2 ^ 31" and "r = [] \<or> \<not> is_digit (hd r)"
  shows "sscanf [Num, Lit 58, Num, Lit 58, Num] (fmt_time sec @ r) = [sec div 3600, sec div 60 mod 60, sec mod 60]"
proof -
  define n where "n = nat sec"
  have n: "n < 2 ^ 31" "sec = int n" using assms by (auto simp: n_def)
  define x y z where "x = n div 3600" "y = n div 60 mod 60" "z = n mod 60"
  have xyz: "x < 2 ^ 31" "y < 2 ^ 31" "z < 2 ^ 31" using n(1) unfolding x_y_z_def by linarith+
  have f: "fmt_time sec @ r = fmt_dec0 2 x @ 58 # fmt_dec0 2 y @ 58 # fmt_dec0 2 z @ r"
    by (simp add: fmt_time_def x_y_z_def n(2))
  have l: "sscanf (Lit 58 # f) (58 # s) = sscanf f s" for f s by simp
  have c: "(58 # s = [] \<or> \<not> is_digit (hd (58 # s)))" for s by simp
  have e: "sscanf [] s = []" for s by simp
  show ?thesis
    unfolding f sscanf_fmt [OF xyz(1) c] l sscanf_fmt [OF xyz(2) c] sscanf_fmt [OF xyz(3) assms(3)] e
    by (simp add: x_y_z_def n(2) zdiv_int zmod_int)
qed

text \<open>A duration written in the attribute of a description is taken over to the second, in either way of writing
  the quotation marks; a description without one leaves the duration as it was.\<close>

theorem duration_read:
  assumes "0 < sec" and "sec < 2 ^ 31" and "r = [] \<or> \<not> is_digit (hd r)"
  shows "(find_sub (str ''duration=&quot;'') meta = Some i \<longrightarrow> drop (i + 15) meta = fmt_time sec @ r \<longrightarrow> parse_duration_from_metadata meta old = sec)
    \<and> (find_sub (str ''duration=&quot;'') meta = None \<longrightarrow> find_sub (dq ''duration=`'') meta = Some i \<longrightarrow> drop (i + 10) meta = fmt_time sec @ r
        \<longrightarrow> parse_duration_from_metadata meta old = sec)
    \<and> (find_sub (str ''duration=&quot;'') meta = None \<longrightarrow> find_sub (dq ''duration=`'') meta = None \<longrightarrow> parse_duration_from_metadata meta old = old)"
proof -
  define vs where "vs = sscanf [Num, Lit 58, Num, Lit 58, Num] (fmt_time sec @ r)"
  have vs: "vs = [sec div 3600, sec div 60 mod 60, sec mod 60]"
    unfolding vs_def using assms by (intro sscanf_time) simp_all
  have s: "s32 (sec div 3600 * 3600 + sec div 60 mod 60 * 60 + sec mod 60) = sec"
    unfolding clock_split using assms by (intro s32_small) simp_all
  have "3 \<le> length vs" "vs ! 0 = sec div 3600" "vs ! 1 = sec div 60 mod 60" "vs ! 2 = sec mod 60" by (simp_all add: vs)
  then have t: "(let total = s32 (vs ! 0 * 3600 + vs ! 1 * 60 + (if 3 \<le> length vs then vs ! 2 else 0)) in if 2 \<le> length vs \<and> 0 < total then total else old) = sec"
    using s assms(1) by (simp only: Let_def if_True) simp
  show ?thesis
  proof (intro conjI impI)
    assume "find_sub (str ''duration=&quot;'') meta = Some i" and "drop (i + 15) meta = fmt_time sec @ r"
    then show "parse_duration_from_metadata meta old = sec"
      using t unfolding parse_duration_from_metadata_def vs_def by (simp only: option.case Let_def)
  next
    assume "find_sub (str ''duration=&quot;'') meta = None" "find_sub (dq ''duration=`'') meta = Some i" and "drop (i + 10) meta = fmt_time sec @ r"
    then show "parse_duration_from_metadata meta old = sec"
      using t unfolding parse_duration_from_metadata_def vs_def by (simp only: option.case option.map Let_def)
  next
    assume "find_sub (str ''duration=&quot;'') meta = None" "find_sub (dq ''duration=`'') meta = None"
    then show "parse_duration_from_metadata meta old = old"
      unfolding parse_duration_from_metadata_def by (simp only: option.case option.map Let_def)
  qed
qed

lemma gain_table:
  "list_all (\<lambda>p. - 64 \<le> vol_percent_to_alc_gain p \<and> vol_percent_to_alc_gain p \<le> vol_percent_to_alc_gain (p + 1) \<and> vol_percent_to_alc_gain p \<le> 6) [0..99]"
  by code_simp

lemma gain_step: "vol_percent_to_alc_gain p \<le> vol_percent_to_alc_gain (p + 1)"
proof (cases "0 \<le> p \<and> p \<le> 99")
  case True
  then have "p \<in> set [0..99]" by simp
  then show ?thesis using gain_table by (auto simp: list_all_iff)
next
  case False
  then show ?thesis by (auto simp: vol_percent_to_alc_gain_def)
qed

lemma gain_mono: "p \<le> q \<Longrightarrow> vol_percent_to_alc_gain p \<le> vol_percent_to_alc_gain q"
proof (induction "nat (q - p)" arbitrary: q)
  case (Suc n)
  then have "n = nat (q - 1 - p)" "p \<le> q - 1" by auto
  then show ?case using Suc.hyps(1) [of "q - 1"] gain_step [of "q - 1"] by simp
qed simp

text \<open>A louder volume never has a smaller gain, and every gain is in the range the amplifier element takes,
  whatever number is set.\<close>

theorem volume_curve_monotone:
  "(p \<le> q \<longrightarrow> vol_percent_to_alc_gain p \<le> vol_percent_to_alc_gain q) \<and> - 64 \<le> vol_percent_to_alc_gain p \<and> vol_percent_to_alc_gain p \<le> 6"
proof -
  have "vol_percent_to_alc_gain (min p 0) \<le> vol_percent_to_alc_gain p" "vol_percent_to_alc_gain p \<le> vol_percent_to_alc_gain (max p 100)"
    by (rule gain_mono; simp)+
  then show ?thesis using gain_mono by (auto simp: vol_percent_to_alc_gain_def s_vol_curve_def)
qed

subsection \<open>Character references\<close>

datatype piece = Lone byte | Ref u32

fun piece_text :: "piece \<Rightarrow> byte list" where
  "piece_text (Lone b) = [b]"
| "piece_text (Ref cp) = str ''&#'' @ fmt_dec (unat cp) @ [59]"

fun piece_bytes :: "piece \<Rightarrow> byte list" where
  "piece_bytes (Lone b) = [b]"
| "piece_bytes (Ref cp) = utf8 cp"

lemma utf8_length: "length (utf8 cp) \<le> 4 \<and> utf8 cp \<noteq> []"
  by (simp add: utf8_def)

lemma ref_step:
  assumes "6 < room"
  shows "entity_loop room (piece_text (Ref cp) @ s) = utf8 cp @ entity_loop (room - length (utf8 cp)) s"
proof -
  have d: "list_all is_digit (fmt_dec (unat cp))" by (rule fmt_dec_digits)
  have "takeWhile is_digit (fmt_dec (unat cp) @ 59 # s) = fmt_dec (unat cp)"
    using d by (intro takeWhile_stop) (auto simp: list_all_iff is_digit_def)
  moreover have "codepoint (fmt_dec (unat cp)) = cp" by (simp add: codepoint_def)
  ultimately show ?thesis using assms by (subst entity_loop.simps) (simp add: str_simps Let_def)
qed

lemma char_step:
  "6 < room \<Longrightarrow> b \<noteq> 38 \<Longrightarrow> entity_loop room (b # s) = b # entity_loop (room - 1) s"
  by (subst entity_loop.simps) (simp add: str_simps)

definition piece_ok :: "piece \<Rightarrow> bool" where
  "piece_ok p \<longleftrightarrow> (case p of Lone b \<Rightarrow> b \<noteq> 38 \<and> b \<noteq> 0 | Ref cp \<Rightarrow> cp \<noteq> 0)"

lemma pieces_loop:
  "list_all piece_ok ps \<Longrightarrow> length (concat (map piece_bytes ps)) + 6 \<le> room \<Longrightarrow>
   entity_loop room (concat (map piece_text ps)) = concat (map piece_bytes ps)"
proof (induction ps arbitrary: room)
  case Nil
  show ?case by (subst entity_loop.simps) simp
next
  case (Cons p ps)
  show ?case
  proof (cases p)
    case (Lone b)
    with Cons show ?thesis by (simp add: char_step piece_ok_def)
  next
    case (Ref cp)
    with Cons.prems have "0 < length (utf8 cp)" "6 < room" using utf8_length [of cp] by (cases "utf8 cp"; simp)+
    with Ref Cons show ?thesis using ref_step [of room cp "concat (map piece_text ps)"] by simp
  qed
qed

lemma or_ne: "(a :: byte) \<noteq> 0 \<Longrightarrow> a OR b \<noteq> 0"
  by (simp add: bit_eq_iff bit_or_iff) blast

lemma utf8_no_nul: "cp \<noteq> 0 \<Longrightarrow> 0 \<notin> set (utf8 cp)"
proof -
  assume "cp \<noteq> 0"
  moreover have "ucast cp \<noteq> (0 :: byte)" if "cp < 0x80"
  proof
    assume "ucast cp = (0 :: byte)"
    then have "unat (ucast cp :: byte) = 0" by simp
    moreover have "unat cp < 128" using that by (simp add: word_less_nat_alt)
    ultimately have "unat cp = 0" by (simp add: unsigned_ucast_eq take_bit_eq_mod)
    then show False using \<open>cp \<noteq> 0\<close> by (simp add: unat_eq_zero)
  qed
  moreover have "(0xC0 :: byte) \<noteq> 0" "(0xE0 :: byte) \<noteq> 0" "(0xF0 :: byte) \<noteq> 0" "(0x80 :: byte) \<noteq> 0" by simp_all
  ultimately show ?thesis using or_ne by (auto simp: utf8_def dest: sym)
qed

text \<open>Decimal character references become the bytes of the character in UTF-8 form, and all other characters but
  an ampersand stay, as long as the result leaves six bytes of the buffer free.\<close>

theorem references_decoded:
  assumes "list_all piece_ok ps" and "length (concat (map piece_bytes ps)) + 6 \<le> n"
  shows "decode_html_entities n (concat (map piece_text ps)) = concat (map piece_bytes ps)"
proof -
  have "0 \<notin> set (piece_bytes p)" if "p \<in> set ps" for p
    using assms(1) that utf8_no_nul by (cases p) (auto simp: list_all_iff piece_ok_def)
  then have "\<forall>b\<in>set (concat (map piece_bytes ps)). b \<noteq> 0" by auto
  then have "cstr (concat (map piece_bytes ps)) = concat (map piece_bytes ps)" unfolding cstr_def takeWhile_eq_all_conv .
  then show ?thesis using pieces_loop [OF assms] by (simp add: decode_html_entities_def)
qed

subsection \<open>At concrete texts\<close>

theorem description_read_witness:
  "extract_tag 256 (marked ([str ''item>''] @ (str ''dc:title'' @ 62 # escape (str ''A & B'')) # (47 # str ''dc:title'' @ 62 # []) # [str ''/item>''])) ''dc:title''
   = Some (take (256 - 1) (str ''A & B''))"
proof (rule description_read)
  show "find_sub (str ''&lt;'' @ str ''dc:title'') (marked ([str ''item>''] @ (str ''dc:title'' @ 62 # escape (str ''A & B'')) # (47 # str ''dc:title'' @ 62 # []) # [str ''/item>''])) = None"
    by code_simp
qed (simp_all add: str_simps)

theorem escaped_description_read_witness:
  "extract_tag 256 (str ''&lt;item&gt;'' @ str ''&lt;'' @ str ''dc:title'' @ str ''&gt;'' @ escape (escape (str ''A & B'')) @ str ''&lt;/'' @ str ''dc:title'' @ str ''&gt;'' @ []) ''dc:title''
   = Some (take (256 - 1) (escape (str ''A & B'')))"
proof (rule escaped_description_read)
  show "find_sub (str ''&lt;'' @ str ''dc:title'') (str ''&lt;item&gt;'' @ str ''&lt;'' @ str ''dc:title'' @ str ''&gt;'' @ escape (escape (str ''A & B'')) @ str ''&lt;/'' @ str ''dc:title'' @ str ''&gt;'' @ [])
      = Some (length (str ''&lt;item&gt;''))"
    by code_simp
qed

lemma duration_example: "find_sub (str ''duration=&quot;'') (dq ''<res duration=`'' @ fmt_time 187 @ dq ''.000`>'') = None"
  "find_sub (dq ''duration=`'') (dq ''<res duration=`'' @ fmt_time 187 @ dq ''.000`>'') = Some 5"
  by code_simp+

theorem duration_read_witness: "parse_duration_from_metadata (dq ''<res duration=`'' @ fmt_time 187 @ dq ''.000`>'') 0 = 187"
  by (rule duration_read [of 187 "dq ''.000`>''", THEN conjunct2, THEN conjunct1, rule_format, OF _ _ _ duration_example])
    (simp_all add: dq_def str_simps)

theorem volume_curve_monotone_witness: "vol_percent_to_alc_gain 35 \<le> vol_percent_to_alc_gain 70"
  by (rule volume_curve_monotone [THEN conjunct1, rule_format]) simp

theorem references_decoded_witness:
  "decode_html_entities 128 (concat (map piece_text [Lone 65, Ref 0x5468, Lone 66])) = concat (map piece_bytes [Lone 65, Ref 0x5468, Lone 66])"
  by (rule references_decoded) (simp_all add: piece_ok_def utf8_def)

end
