(* ===== verification/Player.thy ===== *)
theory Player
  imports Gena Didl Jsmn Media
begin

text \<open>
  The player (\<open>main/dlna.c\<close>): its state machine, the position it reports, the callbacks of the renderer
  (\<open>cb_*\<close>), the events of the audio pipeline, the switch to and from MiPlay. Its state contains that of
  the renderer (\<open>rend\<close>), which the callbacks change through the public functions of \<open>Soap\<close> and \<open>Gena\<close>.
  The clock is part of the state: time passes in the delays the code makes and between operations. What the
  audio framework, the display and the MiPlay component are told is listed in \<open>told\<close>, oldest first.
\<close>

subsection \<open>State\<close>

datatype play_state_t = PS_NO_MEDIA | PS_STOPPED | PS_PLAYING | PS_PAUSED | PS_TRANSITIONING

datatype miplay_cmd_t = MIPLAY_CMD_PAUSE | MIPLAY_CMD_PLAY | MIPLAY_CMD_PREV | MIPLAY_CMD_NEXT

datatype pipe_op = Pipe_stop | Pipe_pause | Pipe_resume | Pipe_reset | Pipe_agent bool | Pipe_uri "byte list" | Pipe_jobs | Pipe_run | Pipe_seek u64

datatype order =
    Audio pipe_op | Miplay_audio pipe_op | Drop_ringbuf | Gain int | Miplay_gain int | Set_clk int int int
  | Receiver_control string int | Cmd_post miplay_cmd_t | Miplay_set_volume int
  | Lyrics_clear | Lyrics_fetch "byte list" "byte list" u32 | Cover "byte list"
  | Ui_speaker bool | Ui_title "byte list" | Ui_artist "byte list" | Ui_clear_cover | Ui_lyrics_clear
  | Told_subscribers "notification option list"
  | Later_stop int \<comment> \<open>a task for \<open>delayed_stop_notify\<close> with this generation\<close>
  | Later_seek int \<comment> \<open>a task for \<open>deferred_seek_worker\<close>\<close>

record player =
  clock_us :: int
  s_pipe :: bool
  s_alc_el :: bool
  s_miplay_pipe :: bool
  s_miplay_alc_el :: bool
  s_state :: play_state_t
  s_track_uri :: "byte list option"
  s_vol :: int
  s_last_applied_vol :: int
  s_mute :: bool
  s_last_i2s :: "int \<times> int \<times> int" \<comment> \<open>rate, bits, channels\<close>
  s_saved_pos_sec :: int
  s_pending_seek_sec :: int
  s_dur_cache_sec :: int
  s_saved_uri :: "byte list option"
  s_music_id :: u32
  s_last_notified :: play_state_t
  p_next_uri :: "byte list option"
  p_next_metadata :: "byte list option"
  s_user_stopped :: bool
  s_stuck_paused_since :: int
  s_lyrics_ui_clear_pending :: bool
  s_lyrics_refetch_pending :: bool
  s_xiaomi_speaker_mode :: bool
  s_miplay_media_queue :: "media_event list option"
  s_miplay_connected :: bool
  s_miplay_session_reset_pending :: bool
  s_miplay_state :: int
  s_miplay_position_ms :: int
  s_miplay_duration_ms :: int
  s_miplay_position_anchor_us :: int
  s_miplay_id :: "byte list"
  s_miplay_audio_id :: "byte list"
  s_miplay_title :: "byte list"
  s_miplay_artist :: "byte list"
  s_miplay_album :: "byte list"
  s_miplay_cover_url :: "byte list"
  s_miplay_pending_volume :: int
  s_play_start_us :: int
  s_grace_until :: int
  s_accumulated_ms :: int
  s_playing_uri :: "byte list option"
  s_near_end_count :: nat
  s_media_generation :: int
  s_album_art_gen :: int
  s_cur_title :: "byte list"
  s_cur_artist :: "byte list"
  track_seq :: u32 \<comment> \<open>\<open>lvgl_port_ui_track_seq\<close>\<close>
  miplay_vol :: u32 \<comment> \<open>\<open>miplay_get_volume\<close>\<close>
  rend :: dlna
  told :: "order list"

record system =
  dup_ok :: "nat \<Rightarrow> bool" \<comment> \<open>a copy of this size can be had\<close>
  run_ok :: bool \<comment> \<open>\<open>esp_gmf_pipeline_run\<close>, and the second time\<close>
  rerun_ok :: bool
  http_io :: bool \<comment> \<open>the pipeline has its input element\<close>
  file_size :: u64 \<comment> \<open>what this element knows, or 0\<close>
  tasks_ok :: bool \<comment> \<open>a task and its argument can be had\<close>
  memory :: "nat \<Rightarrow> bool" \<comment> \<open>and what the renderer finds: memory, subscribers\<close>
  net :: "nat \<Rightarrow> attempt"

definition tell :: "order list \<Rightarrow> player \<Rightarrow> player" where
  "tell es p = p \<lparr> told := told p @ es \<rparr>"

definition delay :: "int \<Rightarrow> player \<Rightarrow> player" where
  \<comment> \<open>\<open>vTaskDelay\<close> of so many milliseconds\<close>
  "delay ms p = p \<lparr> clock_us := clock_us p + ms * 1000 \<rparr>"

definition strdup_psram :: "system \<Rightarrow> byte list option \<Rightarrow> byte list option" where
  "strdup_psram s t = (case t of None \<Rightarrow> None | Some x \<Rightarrow> if dup_ok s (length x + 1) then Some x else None)"

definition state_str :: "play_state_t \<Rightarrow> byte list" where
  "state_str s = (case s of PS_PLAYING \<Rightarrow> str ''PLAYING'' | PS_PAUSED \<Rightarrow> str ''PAUSED_PLAYBACK'' | PS_NO_MEDIA \<Rightarrow> str ''NO_MEDIA_PRESENT''
     | PS_TRANSITIONING \<Rightarrow> str ''TRANSITIONING'' | PS_STOPPED \<Rightarrow> str ''STOPPED'')"

definition set_state :: "play_state_t \<Rightarrow> player \<Rightarrow> player" where
  "set_state s p =
     (let p1 = p \<lparr> s_state := s \<rparr> in
      if s \<noteq> s_last_notified p then p1 \<lparr> s_last_notified := s, rend := custom_dlna_notify_transport_state_async (rend p) \<rparr> else p1)"

definition signal :: "player \<Rightarrow> player" where
  "signal p = p \<lparr> rend := custom_dlna_notify_transport_state_async (rend p) \<rparr>"

definition dlna_uri :: "byte list option \<Rightarrow> byte list option \<Rightarrow> player \<Rightarrow> player" where
  "dlna_uri uri meta p = p \<lparr> rend := custom_dlna_update_uri uri meta (rend p) \<rparr>"

definition dlna_source :: "music_source_t \<Rightarrow> player \<Rightarrow> player" where
  "dlna_source src p = p \<lparr> rend := custom_dlna_set_music_source src (rend p) \<rparr>"

subsection \<open>What the renderer asks\<close>

definition cb_get_transport_state :: "player \<Rightarrow> byte list" where
  "cb_get_transport_state p =
     (if clock_us p < s_grace_until p \<and> s_state p \<in> {PS_PLAYING, PS_STOPPED, PS_TRANSITIONING} then str ''PLAYING''
      else state_str (s_state p))"

definition cb_get_uri :: "player \<Rightarrow> byte list" where
  "cb_get_uri p = (case s_track_uri p of None \<Rightarrow> [] | Some u \<Rightarrow> u)"

definition elapsed_ms :: "player \<Rightarrow> int" where
  "elapsed_ms p = (clock_us p - s_play_start_us p) div 1000"

definition cb_get_position_ms :: "player \<Rightarrow> int" where
  "cb_get_position_ms p = (if s_state p = PS_PLAYING \<and> 0 < s_play_start_us p then s_accumulated_ms p + elapsed_ms p else s_accumulated_ms p)"

definition cb_get_position_sec :: "player \<Rightarrow> int" where
  "cb_get_position_sec p = cb_get_position_ms p div 1000"

definition cb_get_duration_sec :: "player \<Rightarrow> int" where
  "cb_get_duration_sec p = (if s_state p = PS_NO_MEDIA then 0 else s_dur_cache_sec p)"

definition cb_get_volume :: "player \<Rightarrow> int" where
  "cb_get_volume p = (if s_mute p then 0 else s_vol p)"

definition cb_get_mute :: "player \<Rightarrow> int" where
  "cb_get_mute p = (if s_mute p then 1 else 0)"

definition get_position_ms_ui :: "player \<Rightarrow> int" where
  \<comment> \<open>\<open>get_position_ms\<close>, for the display\<close>
  "get_position_ms_ui p = (if 0 < s_play_start_us p then s_accumulated_ms p + elapsed_ms p else s_accumulated_ms p)"

definition freeze :: "player \<Rightarrow> player" where
  \<comment> \<open>adds what has been played since the start\<close>
  "freeze p = (if 0 < s_play_start_us p then p \<lparr> s_accumulated_ms := s_accumulated_ms p + elapsed_ms p, s_play_start_us := 0 \<rparr> else p)"

subsection \<open>Volume\<close>

definition my_vol_set :: "int \<Rightarrow> player \<Rightarrow> player" where
  "my_vol_set v p = (if s_alc_el p then tell [Gain (vol_percent_to_alc_gain v)] p else p)"

definition on_miplay_vol_changed :: "u32 \<Rightarrow> player \<Rightarrow> player" where
  "on_miplay_vol_changed v p = (if s_miplay_alc_el p then tell [Miplay_gain (vol_percent_to_alc_gain (sint v))] p else p)"

definition cb_set_volume :: "int \<Rightarrow> player \<Rightarrow> player" where
  "cb_set_volume v0 p =
     (let v = min 100 (max 0 v0);
          p1 = my_vol_set v (p \<lparr> s_vol := v, s_mute := False \<rparr>);
          p2 = (if s_miplay_alc_el p1 then tell [Miplay_gain (vol_percent_to_alc_gain v)] p1 else p1);
          p3 = tell [Miplay_set_volume v] (p2 \<lparr> miplay_vol := of_int v \<rparr>)
      in if s_miplay_connected p3 then p3 \<lparr> s_miplay_pending_volume := v \<rparr> else p3)"

subsection \<open>Pipelines\<close>

definition to_speaker :: "bool \<Rightarrow> player \<Rightarrow> player" where
  "to_speaker on p = tell [Ui_speaker on] p"

definition leave_speaker :: "player \<Rightarrow> player" where
  \<comment> \<open>out of the loudspeaker mode of the phone, if in it\<close>
  "leave_speaker p =
     (if s_xiaomi_speaker_mode p then dlna_source MUSIC_SRC_NETEASE (to_speaker False (p \<lparr> s_xiaomi_speaker_mode := False \<rparr>)) else p)"

definition pipe :: "pipe_op \<Rightarrow> player \<Rightarrow> player" where
  "pipe x p = tell [Audio x] p"

definition stop_pipe :: "player \<Rightarrow> player" where
  "stop_pipe p = (if s_pipe p then pipe Pipe_stop p else p)"

definition miplay_pipeline_start :: "player \<Rightarrow> player" where
  "miplay_pipeline_start p =
     (if s_miplay_pipe p
      then tell [Drop_ringbuf, Miplay_audio Pipe_stop, Miplay_audio Pipe_reset, Miplay_audio Pipe_jobs, Miplay_audio Pipe_run] p else p)"

definition miplay_pipeline_stop :: "player \<Rightarrow> player" where
  "miplay_pipeline_stop p = (if s_miplay_pipe p then tell [Miplay_audio Pipe_stop, Drop_ringbuf] p else p)"

definition dlna_on_miplay_media_start :: "bool \<Rightarrow> player \<Rightarrow> player" where
  "dlna_on_miplay_media_start start p =
     (if start then on_miplay_vol_changed (miplay_vol p) (miplay_pipeline_start (p \<lparr> s_accumulated_ms := 0, s_play_start_us := 0 \<rparr>))
      else miplay_pipeline_stop (freeze p))"

definition schedule_delayed_stop_notify :: "system \<Rightarrow> player \<Rightarrow> player" where
  "schedule_delayed_stop_notify s p = (if tasks_ok s then tell [Later_stop (s_media_generation p)] p else p)"

definition seek_byte :: "system \<Rightarrow> int \<Rightarrow> player \<Rightarrow> u64" where
  "seek_byte s sec p =
     (let size = (if http_io s then file_size s else 0) in
      if 0 < size \<and> 0 < s_dur_cache_sec p then of_int sec * size div of_int (s_dur_cache_sec p) else of_int sec * 16000)"

definition deferred_seek_worker :: "system \<Rightarrow> int \<Rightarrow> player \<Rightarrow> player" where
  "deferred_seek_worker s sec p =
     (if s_pipe p \<and> s_state p = PS_PLAYING then
        let p1 = delay 100 (pipe Pipe_pause (p \<lparr> s_media_generation := s_media_generation p + 1 \<rparr>));
            p2 = pipe Pipe_resume (delay 50 (pipe (Pipe_seek (seek_byte s sec p1)) p1))
        in p2 \<lparr> s_play_start_us := clock_us p2 \<rparr>
      else p)"

subsection \<open>Playing\<close>

definition run_pipe :: "byte list \<Rightarrow> player \<Rightarrow> player" where
  "run_pipe uri p = pipe Pipe_run (pipe Pipe_jobs (pipe (Pipe_uri uri) p))"

definition do_play :: "system \<Rightarrow> byte list option \<Rightarrow> int \<Rightarrow> player \<Rightarrow> player" where
  "do_play s uri_in seek_sec p =
     (let p0 = p \<lparr> s_media_generation := s_media_generation p + 1, s_near_end_count := 0 \<rparr> in
      case uri_in of
        None \<Rightarrow> p0
      | Some u \<Rightarrow>
          if \<not> s_pipe p0 then p0
          else
            let uri = decode_amp 2046 u;
                p1 = pipe Pipe_reset (p0 \<lparr> s_grace_until := clock_us p0 + 8000000, s_last_i2s := (0, 0, 0) \<rparr>);
                p2 = (if http_io s then pipe (Pipe_agent (s_music_source (rend p1) = MUSIC_SRC_QQ)) p1 else p1);
                p3 = run_pipe uri p2;
                p4 = (if run_ok s then p3 else run_pipe uri (pipe Pipe_reset (delay 1000 p3)))
            in if run_ok s \<or> rerun_ok s then
                 let p5 = set_state PS_PLAYING p4
                 in p5 \<lparr> s_accumulated_ms := s32 (seek_sec * 1000), s_play_start_us := clock_us p5, s_grace_until := clock_us p5 + 8000000,
                         s_user_stopped := False, s_playing_uri := strdup_psram s (Some u),
                         s_pending_seek_sec := (if 0 < seek_sec then seek_sec else s_pending_seek_sec p5) \<rparr>
               else set_state PS_STOPPED p4)"

definition dlna_detach_miplay_if_active :: "player \<Rightarrow> player" where
  "dlna_detach_miplay_if_active p =
     (if \<not> s_miplay_connected p then p
      else let p1 = miplay_pipeline_stop (p \<lparr> s_miplay_connected := False, s_miplay_state := 0, s_miplay_position_anchor_us := 0 \<rparr>)
           in p1 \<lparr> rend := custom_dlna_set_ssdp_suppressed False (rend p1), s_last_i2s := (0, 0, 0) \<rparr>)"

definition same_text :: "byte list option \<Rightarrow> byte list option \<Rightarrow> bool" where
  \<comment> \<open>both there, and \<open>strcmp\<close> is 0\<close>
  "same_text a b \<longleftrightarrow> a \<noteq> None \<and> a = b"

definition cut_over :: "system \<Rightarrow> player \<Rightarrow> player" where
  \<comment> \<open>stop what plays and play the address set, from the position kept; \<open>pipe\<close> even without a pipeline, as in the code\<close>
  "cut_over s p =
     (let p1 = delay 300 (pipe Pipe_stop (p \<lparr> s_user_stopped := False, s_grace_until := clock_us p + 1500000 \<rparr>))
      in (do_play s (s_track_uri p1) (s_saved_pos_sec p1) p1) \<lparr> s_saved_pos_sec := 0 \<rparr>)"

definition cb_play :: "system \<Rightarrow> player \<Rightarrow> player" where
  "cb_play s p0 =
     (let p = dlna_detach_miplay_if_active p0 in
      if s_state p = PS_PLAYING then (if same_text (s_playing_uri p) (s_track_uri p) then p else cut_over s p)
      else if s_state p = PS_PAUSED \<and> s_pipe p then
        (let p1 = (if s_playing_uri p \<noteq> None \<and> s_track_uri p \<noteq> None \<and> s_playing_uri p \<noteq> s_track_uri p then cut_over s p
                   else let q = set_state PS_PLAYING (pipe Pipe_resume p) in q \<lparr> s_play_start_us := clock_us q \<rparr>)
         in p1 \<lparr> s_grace_until := clock_us p1 + 8000000, s_user_stopped := False \<rparr>)
      else
        (if s_track_uri p \<noteq> None \<and> s_pipe p
         then do_play s (s_track_uri p) (if same_text (s_saved_uri p) (s_track_uri p) \<and> 0 < s_saved_pos_sec p then s_saved_pos_sec p else 0) p
         else p) \<lparr> s_saved_pos_sec := 0 \<rparr>)"

definition save_pos :: "system \<Rightarrow> player \<Rightarrow> player" where
  "save_pos s p = p \<lparr> s_saved_pos_sec := s_accumulated_ms p div 1000, s_saved_uri := strdup_psram s (s_track_uri p) \<rparr>"

definition cb_pause :: "system \<Rightarrow> player \<Rightarrow> player" where
  "cb_pause s p =
     (if s_miplay_connected p then tell [Receiver_control ''pause'' 0] p
      else let p1 = p \<lparr> s_pending_seek_sec := 0 \<rparr> in
           if s_pipe p1 \<and> s_state p1 = PS_PLAYING
           then (set_state PS_PAUSED (pipe Pipe_pause (save_pos s (freeze p1)))) \<lparr> s_user_stopped := True \<rparr> else p1)"

definition cb_stop :: "system \<Rightarrow> player \<Rightarrow> player" where
  "cb_stop s p =
     (let p1 = save_pos s (freeze (leave_speaker (p \<lparr> s_media_generation := s_media_generation p + 1, s_near_end_count := 0 \<rparr>)));
          p2 = set_state PS_STOPPED (stop_pipe (p1 \<lparr> s_user_stopped := True, s_grace_until := clock_us p1 + 2000000 \<rparr>))
      in p2 \<lparr> p_next_uri := None, p_next_metadata := None \<rparr>)"

definition cb_seek :: "system \<Rightarrow> int \<Rightarrow> player \<Rightarrow> player" where
  "cb_seek s sec p0 =
     (let d = dlna_detach_miplay_if_active p0;
          p = d \<lparr> s_media_generation := s_media_generation d + 1, s_near_end_count := 0 \<rparr> in
      if \<not> s_pipe p then p
      else let playing = (s_state p = PS_PLAYING);
               p1 = (if playing then delay 50 (pipe Pipe_pause p) else p);
               p2 = pipe (Pipe_seek (seek_byte s sec p1)) p1;
               p3 = p2 \<lparr> s_accumulated_ms := s32 (sec * 1000), s_play_start_us := clock_us p2 \<rparr>
           in if playing then pipe Pipe_resume (delay 50 p3) else p3)"

definition detect_and_apply_music_source :: "byte list \<Rightarrow> player \<Rightarrow> player" where
  "detect_and_apply_music_source uri p =
     (let src = music_source (Some uri) (s_user_agent (rend p)) in
      dlna_source src
        (if src = MUSIC_SRC_SPEAKER
         then (if s_xiaomi_speaker_mode p then p else to_speaker True p) \<lparr> s_xiaomi_speaker_mode := True \<rparr>
         else (if s_xiaomi_speaker_mode p then to_speaker False p else p) \<lparr> s_xiaomi_speaker_mode := False \<rparr>))"

definition fresh_track :: "system \<Rightarrow> byte list \<Rightarrow> player \<Rightarrow> player" where
  \<comment> \<open>what is done under the lock\<close>
  "fresh_track s uri p =
     (let q = tell [Lyrics_clear] (p \<lparr> s_saved_pos_sec := 0, s_track_uri := strdup_psram s (Some uri), s_dur_cache_sec := 0,
            s_cur_title := [], s_cur_artist := [] \<rparr>)
      in q \<lparr> s_lyrics_ui_clear_pending := True, s_user_stopped := False,
             s_state := (if s_state q = PS_NO_MEDIA \<and> s_track_uri q \<noteq> None then PS_STOPPED else s_state q) \<rparr>)"

definition cb_set_uri :: "system \<Rightarrow> byte list \<Rightarrow> player \<Rightarrow> player" where
  "cb_set_uri s uri p =
     (let p1 = p \<lparr> s_media_generation := s_media_generation p + 1, s_near_end_count := 0 \<rparr> in
      if is_video_uri uri then p1
      else dlna_detach_miplay_if_active (fresh_track s uri (detect_and_apply_music_source uri p1)))"

definition cb_set_next_uri :: "system \<Rightarrow> byte list \<Rightarrow> byte list \<Rightarrow> player \<Rightarrow> player" where
  "cb_set_next_uri s uri meta p = p \<lparr> p_next_uri := strdup_psram s (Some uri), p_next_metadata := strdup_psram s (Some meta) \<rparr>"

definition fetch_album_art_async :: "byte list \<Rightarrow> player \<Rightarrow> player" where
  "fetch_album_art_async url p = tell [Cover url] p"

definition take_tag :: "nat \<Rightarrow> byte list \<Rightarrow> string \<Rightarrow> byte list" where
  "take_tag n meta tag = (case extract_tag n meta tag of None \<Rightarrow> [] | Some t \<Rightarrow> t)"

definition cb_set_metadata :: "byte list \<Rightarrow> player \<Rightarrow> player" where
  "cb_set_metadata meta p =
     (if s_xiaomi_speaker_mode p \<or> s_miplay_connected p then p
      else
        let p1 = p \<lparr> s_dur_cache_sec := parse_duration_from_metadata meta (s_dur_cache_sec p) \<rparr>;
            title = take_tag 256 meta ''dc:title''; artist = take_tag 256 meta ''upnp:artist''; art = take_tag 256 meta ''upnp:albumArtURI'';
            music_id = strtoul (take_tag 32 meta ''netease:musicId'');
            p2 = (if s_music_id p1 \<noteq> 0 \<and> music_id \<noteq> 0 \<and> music_id \<noteq> s_music_id p1 then p1 \<lparr> s_saved_pos_sec := 0, s_saved_uri := None \<rparr> else p1);
            p3 = (if music_id \<noteq> 0 then p2 \<lparr> s_music_id := music_id \<rparr> else p2);
            netease = (s_music_source (rend p3) = MUSIC_SRC_NETEASE);
            p4 = (if art \<noteq> [] \<and> netease
                  then fetch_album_art_async (if index_of 63 art = None then take 255 (art @ str ''?param=300y300'') else art) p3 else p3)
        in if title \<noteq> [] \<and> (title \<noteq> s_cur_title p4 \<or> artist \<noteq> s_cur_artist p4)
           then let t = decode_html_entities 128 title; a = decode_html_entities 128 artist
                in tell [Ui_clear_cover, Ui_title t, Ui_artist a, Lyrics_fetch t a (if netease then music_id else 0)]
                     (p4 \<lparr> s_cur_title := t, s_cur_artist := a \<rparr>)
           else p4)"

subsection \<open>Next and previous\<close>

definition has_next :: "player \<Rightarrow> bool" where
  "has_next p \<longleftrightarrow> (case p_next_uri p of None \<Rightarrow> False | Some u \<Rightarrow> u \<noteq> [])"

definition promote :: "system \<Rightarrow> player \<Rightarrow> player" where
  \<comment> \<open>the next track becomes the current one\<close>
  "promote s p =
     (let meta = p_next_metadata p;
          p1 = p \<lparr> s_track_uri := p_next_uri p, p_next_uri := None, p_next_metadata := None \<rparr>;
          p2 = (if s_pipe p1 then do_play s (s_track_uri p1) 0 p1 else p1)
      in dlna_uri (s_track_uri p2) meta p2)"

definition skip_mirror :: "miplay_cmd_t \<Rightarrow> player \<Rightarrow> player" where
  "skip_mirror cmd p =
     tell [Cmd_post cmd] (p \<lparr> s_miplay_state := 3, s_miplay_position_ms := 0, s_miplay_duration_ms := 0, s_miplay_position_anchor_us := 0 \<rparr>)"

definition from_start :: "player \<Rightarrow> player" where
  "from_start p = p \<lparr> s_user_stopped := False, s_accumulated_ms := 0, s_play_start_us := 0, s_saved_pos_sec := 0, s_saved_uri := None,
     s_near_end_count := 0, s_media_generation := s_media_generation p + 1 \<rparr>"

datatype waited = Got_next | Intervened | Timeout

fun wait_next :: "nat \<Rightarrow> (nat \<Rightarrow> player \<Rightarrow> player) \<Rightarrow> int \<Rightarrow> u32 \<Rightarrow> player \<Rightarrow> waited \<times> player" where
  \<comment> \<open>the loop over 100 ms; \<open>env\<close> is what others do meanwhile\<close>
  "wait_next 0 env gen seq p = (Timeout, p)"
| "wait_next (Suc n) env gen seq p =
     (let p1 = env n (delay 100 p) in
      if has_next p1 then (Got_next, p1)
      else if gen \<noteq> s_media_generation p1 \<or> s_state p1 = PS_PLAYING \<or> track_seq p1 \<noteq> seq then (Intervened, p1)
      else wait_next n env gen seq p1)"

definition cb_next :: "system \<Rightarrow> (nat \<Rightarrow> player \<Rightarrow> player) \<Rightarrow> player \<Rightarrow> player" where
  "cb_next s env p =
     (if s_miplay_connected p then skip_mirror MIPLAY_CMD_NEXT p
      else
        let p1 = from_start p in
        if has_next p1 then signal (promote s (delay 300 (stop_pipe (p1 \<lparr> s_grace_until := clock_us p1 + 1500000 \<rparr>))))
        else
          let p2 = signal (set_state PS_TRANSITIONING (delay 300 (stop_pipe (p1 \<lparr> s_grace_until := clock_us p1 + 1000000 \<rparr>)))) in
          case wait_next 50 env (s_media_generation p2) (track_seq p2) p2 of
            (Got_next, p3) \<Rightarrow> signal (promote s p3)
          | (Intervened, p3) \<Rightarrow> p3
          | (Timeout, p3) \<Rightarrow>
              let p4 = p3 \<lparr> s_accumulated_ms := (if 0 < s_dur_cache_sec p3 then s32 (s_dur_cache_sec p3 * 1000) else s_accumulated_ms p3), s_play_start_us := 0 \<rparr>
              in signal (dlna_uri None None (set_state PS_STOPPED p4)))"

definition cb_previous :: "system \<Rightarrow> player \<Rightarrow> player" where
  "cb_previous s p =
     (if s_miplay_connected p then skip_mirror MIPLAY_CMD_PREV p
      else
        let p1 = from_start p in
        signal (if s_pipe p1 \<and> s_track_uri p1 \<noteq> None
                then do_play s (s_track_uri p1) 0 (delay 300 (pipe Pipe_stop (p1 \<lparr> s_grace_until := clock_us p1 + 1000000 \<rparr>)))
                else set_state PS_STOPPED (stop_pipe p1)))"

definition cb_play_toggle :: "system \<Rightarrow> player \<Rightarrow> player" where
  "cb_play_toggle s p =
     (if s_miplay_connected p then
        (if s_miplay_state p = 1 then tell [Cmd_post MIPLAY_CMD_PAUSE] (p \<lparr> s_miplay_state := 2 \<rparr>)
         else tell [Cmd_post MIPLAY_CMD_PLAY] (p \<lparr> s_miplay_state := 1, s_miplay_position_anchor_us := clock_us p - s_miplay_position_ms p * 1000 \<rparr>))
      else if s_state p = PS_PLAYING then cb_pause s p else cb_play s p)"

definition delayed_stop_notify :: "system \<Rightarrow> (nat \<Rightarrow> player \<Rightarrow> player) \<Rightarrow> int \<Rightarrow> player \<Rightarrow> player" where
  "delayed_stop_notify s env gen p = (if gen \<noteq> s_media_generation p then p else cb_next s env (freeze p))"

subsection \<open>The renderer's configuration\<close>

definition player_getters :: "system \<Rightarrow> player \<Rightarrow> dlna_config" where
  \<comment> \<open>the part of \<open>cfg\<close> in \<open>start_dlna\<close> that asks\<close>
  "player_getters s p = \<lparr> get_transport_state = Some (cb_get_transport_state p), get_uri = Some (Some (cb_get_uri p)),
     get_position_sec = Some (cb_get_position_sec p), get_duration_sec = Some (cb_get_duration_sec p),
     get_position_ms = Some (cb_get_position_ms p), get_volume = Some (cb_get_volume p), get_mute = Some (cb_get_mute p),
     has_callback = (\<lambda>e. False), app = (\<lambda>e d. d), cfg_uuid = Some (str ''8db0797a-f01a-4949-8f59-51188b18180b''), cfg_port = 8080, mem = memory s \<rparr>"

definition apply_volume_hw :: "system \<Rightarrow> player \<Rightarrow> player" where
  "apply_volume_hw s p =
     (let p1 = my_vol_set (cb_get_volume p) p in
      case custom_dlna_notify_rcs (player_getters s p1) (clock_us p1 div 1000000) (net s) (rend p1) of
        (ns, d) \<Rightarrow> tell [Told_subscribers ns] (p1 \<lparr> rend := d \<rparr>))"

definition cb_set_mute :: "system \<Rightarrow> int \<Rightarrow> player \<Rightarrow> player" where
  "cb_set_mute s m p = apply_volume_hw s (p \<lparr> s_mute := (m \<noteq> 0) \<rparr>)"

definition player_callback :: "system \<Rightarrow> (nat \<Rightarrow> player \<Rightarrow> player) \<Rightarrow> callback \<Rightarrow> player \<Rightarrow> player" where
  "player_callback s env e p =
     (case e of
        On_set_uri u \<Rightarrow> cb_set_uri s u p
      | On_set_next_uri u m \<Rightarrow> cb_set_next_uri s u m p
      | On_set_metadata m \<Rightarrow> cb_set_metadata m p
      | On_play \<Rightarrow> cb_play s p
      | On_pause \<Rightarrow> cb_pause s p
      | On_stop \<Rightarrow> cb_stop s p
      | On_seek sec \<Rightarrow> cb_seek s sec p
      | On_set_volume v \<Rightarrow> cb_set_volume v p
      | On_set_mute m \<Rightarrow> cb_set_mute s m p
      | On_next \<Rightarrow> cb_next s env p
      | On_previous \<Rightarrow> cb_previous s p)"

definition player_config :: "system \<Rightarrow> (nat \<Rightarrow> player \<Rightarrow> player) \<Rightarrow> player \<Rightarrow> dlna_config" where
  \<comment> \<open>the configuration as the renderer finds it while the player is in this state\<close>
  "player_config s env p = (player_getters s p) \<lparr> has_callback := (\<lambda>e. True), app := (\<lambda>e d. rend (player_callback s env e (p \<lparr> rend := d \<rparr>))) \<rparr>"

subsection \<open>Events of the pipelines\<close>

datatype gmf_event = Running | Paused | Stopped | Finished | Failed | Sound int int int \<comment> \<open>rate, bits, channels\<close> | Other_event

definition sound_format :: "int \<Rightarrow> int \<Rightarrow> int \<Rightarrow> int \<times> int \<times> int" where
  "sound_format rate bits ch =
     (if rate \<le> 0 then 48000 else rate, if bits \<noteq> 16 \<and> bits \<noteq> 24 \<and> bits \<noteq> 32 then 16 else bits, if ch \<le> 0 \<or> 2 < ch then 2 else ch)"

definition set_clk :: "int \<times> int \<times> int \<Rightarrow> player \<Rightarrow> player" where
  "set_clk f p = (case f of (rate, bits, ch) \<Rightarrow> tell [Set_clk rate ch bits] p)"

definition start_clock :: "player \<Rightarrow> player" where
  "start_clock p = (if s_play_start_us p = 0 then p \<lparr> s_play_start_us := clock_us p \<rparr> else p)"

definition in_grace :: "player \<Rightarrow> bool" where
  "in_grace p \<longleftrightarrow> clock_us p < s_grace_until p"

definition pipeline_event_cb :: "system \<Rightarrow> gmf_event \<Rightarrow> player \<Rightarrow> player" where
  "pipeline_event_cb s e p =
     (case e of
        Running \<Rightarrow>
          let p1 = start_clock (set_state PS_PLAYING p) in
          if 0 < s_pending_seek_sec p1
          then let p2 = p1 \<lparr> s_pending_seek_sec := 0 \<rparr> in if tasks_ok s then tell [Later_seek (s_pending_seek_sec p1)] p2 else p2
          else p1
      | Paused \<Rightarrow> if s_user_stopped p then set_state PS_PAUSED p else p
      | Stopped \<Rightarrow> if in_grace p \<or> s_state p = PS_PAUSED then p else set_state PS_STOPPED p
      | Finished \<Rightarrow> if s_state p = PS_PAUSED then p else schedule_delayed_stop_notify s (leave_speaker p)
      | Failed \<Rightarrow> if in_grace p then p else set_state PS_STOPPED (leave_speaker p)
      | Sound rate bits ch \<Rightarrow>
          let f = sound_format rate bits ch in if f \<noteq> s_last_i2s p then (set_clk f p) \<lparr> s_last_i2s := f \<rparr> else p
      | Other_event \<Rightarrow> p)"

definition miplay_pipeline_event_cb :: "gmf_event \<Rightarrow> player \<Rightarrow> player" where
  "miplay_pipeline_event_cb e p =
     (case e of
        Running \<Rightarrow> start_clock (set_state PS_PLAYING p)
      | Stopped \<Rightarrow> if s_state p = PS_PLAYING then set_state PS_STOPPED p else p
      | Failed \<Rightarrow> set_state PS_STOPPED p
      | Sound rate bits ch \<Rightarrow> set_clk (sound_format rate bits ch) p
      | _ \<Rightarrow> p)"

subsection \<open>MiPlay and the network come and go\<close>

definition dlna_on_miplay_connected :: "bool \<Rightarrow> player \<Rightarrow> player" where
  "dlna_on_miplay_connected connected p =
     (let p1 = p \<lparr> s_miplay_connected := connected, s_miplay_state := 0, s_miplay_position_ms := 0, s_miplay_duration_ms := 0,
            s_miplay_position_anchor_us := 0, s_miplay_session_reset_pending := True, s_miplay_media_queue := map_option (\<lambda>q. []) (s_miplay_media_queue p),
            rend := custom_dlna_set_ssdp_suppressed connected (rend p) \<rparr>
      in if connected then
           stop_pipe ((tell [Miplay_set_volume (cb_get_volume p1)] (p1 \<lparr> miplay_vol := of_int (cb_get_volume p1) \<rparr>))
             \<lparr> s_miplay_pending_volume := -1, s_cur_title := [], s_cur_artist := [], s_dur_cache_sec := 0,
               s_media_generation := s_media_generation p1 + 1 \<rparr>)
         else to_speaker False ((miplay_pipeline_stop p1) \<lparr> s_last_i2s := (0, 0, 0) \<rparr>))"

definition wifi_lost :: "player \<Rightarrow> player" where
  \<comment> \<open>\<open>WIFI_EVENT_STA_DISCONNECTED\<close>\<close>
  "wifi_lost p =
     (if s_pipe p \<and> s_state p = PS_PLAYING
      then let q = set_state PS_PAUSED (pipe Pipe_pause p) in q \<lparr> s_user_stopped := False, s_stuck_paused_since := clock_us q \<rparr> else p)"

definition wifi_back :: "player \<Rightarrow> player" where
  \<comment> \<open>\<open>IP_EVENT_STA_GOT_IP\<close>\<close>
  "wifi_back p =
     (if s_pipe p \<and> s_state p = PS_PAUSED \<and> \<not> s_user_stopped p
      then let q = set_state PS_PLAYING (pipe Pipe_resume p) in q \<lparr> s_play_start_us := clock_us q \<rparr> else p)"

subsection \<open>The display's task\<close>

definition miplay_active :: "player \<Rightarrow> bool" where
  "miplay_active p \<longleftrightarrow> s_miplay_connected p \<and> 0 \<le> s_miplay_state p \<and> s_miplay_state p \<le> 3"

definition sync_volume :: "player \<Rightarrow> int \<times> player" where
  \<comment> \<open>\<open>pending_volume\<close>, and the volume taken over from the phone\<close>
  "sync_volume p =
     (if \<not> miplay_active p then (-1, p)
      else let pending = s_miplay_pending_volume p; p1 = p \<lparr> s_miplay_pending_volume := -1 \<rparr> in
           if 0 \<le> pending then (pending, p1)
           else let v = min 100 (max 0 (sint (miplay_vol p1))) in
                (pending, if s_vol p1 = v then p1 else p1 \<lparr> s_vol := v, s_mute := (if s_mute p1 \<and> 0 < v then False else s_mute p1) \<rparr>))"

definition apply_volume :: "player \<Rightarrow> player" where
  "apply_volume p =
     (if s_vol p = s_last_applied_vol p then p
      else let p1 = my_vol_set (cb_get_volume p) p;
               p2 = (if s_miplay_alc_el p1 then tell [Miplay_gain (vol_percent_to_alc_gain (s_vol p1))] p1 else p1)
           in p2 \<lparr> s_last_applied_vol := s_vol p2 \<rparr>)"

definition near_end :: "system \<Rightarrow> player \<Rightarrow> player" where
  "near_end s p =
     (let remain = s32 (s_dur_cache_sec p * 1000) - get_position_ms_ui p in
      if \<not> miplay_active p \<and> s_state p = PS_PLAYING \<and> 0 < s_dur_cache_sec p \<and> 0 < remain \<and> remain < 1000 then
        (if 50 \<le> s_near_end_count p + 1 then schedule_delayed_stop_notify s (p \<lparr> s_near_end_count := 0 \<rparr>)
         else p \<lparr> s_near_end_count := s_near_end_count p + 1 \<rparr>)
      else p \<lparr> s_near_end_count := 0 \<rparr>)"

definition stuck_paused :: "player \<Rightarrow> player" where
  "stuck_paused p =
     (if \<not> miplay_active p \<and> s_state p = PS_PAUSED \<and> \<not> s_user_stopped p then
        (if s_stuck_paused_since p = 0 then p \<lparr> s_stuck_paused_since := clock_us p \<rparr>
         else if 30000000 < clock_us p - s_stuck_paused_since p then (set_state PS_STOPPED (stop_pipe p)) \<lparr> s_stuck_paused_since := 0 \<rparr>
         else p)
      else p \<lparr> s_stuck_paused_since := 0 \<rparr>)"

definition ui_update :: "system \<Rightarrow> player \<Rightarrow> player" where
  \<comment> \<open>a pass of the loop, as far as it acts on the player; the media events are taken before it\<close>
  "ui_update s p =
     (case sync_volume p of
        (pending, p1) \<Rightarrow>
          let p2 = stuck_paused (near_end s (apply_volume p1))
          in if 0 \<le> pending then tell [Receiver_control ''volume'' pending] p2 else p2)"

subsection \<open>The invariant\<close>

definition device :: "byte list option" where
  "device = Some (str ''8db0797a-f01a-4949-8f59-51188b18180b'')"

definition player_ok :: "player \<Rightarrow> bool" where
  \<comment> \<open>the state is the one last notified, the volume a percentage, the start of playing in the past, titles inside their arrays\<close>
  "player_ok p \<longleftrightarrow> s_last_notified p = s_state p \<and> s_state p \<noteq> PS_NO_MEDIA \<and> 0 \<le> s_vol p \<and> s_vol p \<le> 100
     \<and> 0 \<le> s_play_start_us p \<and> s_play_start_us p \<le> clock_us p
     \<and> length (s_cur_title p) < 128 \<and> length (s_cur_artist p) < 128 \<and> dlna_ok device (rend p)"

lemma ok_same [simp]:
  "player_ok (tell es p) = player_ok p"
  "player_ok (p \<lparr> s_last_i2s := f \<rparr>) = player_ok p"
  "player_ok (p \<lparr> s_track_uri := a \<rparr>) = player_ok p"
  "player_ok (p \<lparr> s_mute := b \<rparr>) = player_ok p"
  "player_ok (p \<lparr> s_last_applied_vol := i \<rparr>) = player_ok p"
  "player_ok (p \<lparr> s_saved_pos_sec := i \<rparr>) = player_ok p"
  "player_ok (p \<lparr> s_pending_seek_sec := i \<rparr>) = player_ok p"
  "player_ok (p \<lparr> s_dur_cache_sec := i \<rparr>) = player_ok p"
  "player_ok (p \<lparr> s_saved_uri := a \<rparr>) = player_ok p"
  "player_ok (p \<lparr> s_music_id := w \<rparr>) = player_ok p"
  "player_ok (p \<lparr> p_next_uri := a \<rparr>) = player_ok p"
  "player_ok (p \<lparr> p_next_metadata := a \<rparr>) = player_ok p"
  "player_ok (p \<lparr> s_user_stopped := b \<rparr>) = player_ok p"
  "player_ok (p \<lparr> s_stuck_paused_since := i \<rparr>) = player_ok p"
  "player_ok (p \<lparr> s_lyrics_ui_clear_pending := b \<rparr>) = player_ok p"
  "player_ok (p \<lparr> s_lyrics_refetch_pending := b \<rparr>) = player_ok p"
  "player_ok (p \<lparr> s_xiaomi_speaker_mode := b \<rparr>) = player_ok p"
  "player_ok (p \<lparr> s_miplay_media_queue := q \<rparr>) = player_ok p"
  "player_ok (p \<lparr> s_miplay_connected := b \<rparr>) = player_ok p"
  "player_ok (p \<lparr> s_miplay_session_reset_pending := b \<rparr>) = player_ok p"
  "player_ok (p \<lparr> s_miplay_state := i \<rparr>) = player_ok p"
  "player_ok (p \<lparr> s_miplay_position_ms := i \<rparr>) = player_ok p"
  "player_ok (p \<lparr> s_miplay_duration_ms := i \<rparr>) = player_ok p"
  "player_ok (p \<lparr> s_miplay_position_anchor_us := i \<rparr>) = player_ok p"
  "player_ok (p \<lparr> s_miplay_pending_volume := i \<rparr>) = player_ok p"
  "player_ok (p \<lparr> s_grace_until := i \<rparr>) = player_ok p"
  "player_ok (p \<lparr> s_accumulated_ms := i \<rparr>) = player_ok p"
  "player_ok (p \<lparr> s_playing_uri := a \<rparr>) = player_ok p"
  "player_ok (p \<lparr> s_near_end_count := n \<rparr>) = player_ok p"
  "player_ok (p \<lparr> s_media_generation := i \<rparr>) = player_ok p"
  "player_ok (p \<lparr> miplay_vol := w \<rparr>) = player_ok p"
  by (simp_all add: player_ok_def tell_def)

lemma ok_now [simp]: "player_ok p \<Longrightarrow> x = clock_us p \<Longrightarrow> player_ok (p \<lparr> s_play_start_us := x \<rparr>)" "player_ok p \<Longrightarrow> player_ok (p \<lparr> s_play_start_us := 0 \<rparr>)"
  by (simp_all add: player_ok_def)

lemma ok_rend: "player_ok p \<Longrightarrow> dlna_ok device d \<Longrightarrow> player_ok (p \<lparr> rend := d \<rparr>)"
  by (simp add: player_ok_def)

lemma ok_dlna: "player_ok p \<Longrightarrow> dlna_ok device (rend p)"
  by (simp add: player_ok_def)

lemma ok_titles: "player_ok p \<Longrightarrow> length t < 128 \<Longrightarrow> length a < 128 \<Longrightarrow> player_ok (p \<lparr> s_cur_title := t, s_cur_artist := a \<rparr>)"
  by (simp add: player_ok_def)

lemma ok_vol: "player_ok p \<Longrightarrow> 0 \<le> v \<Longrightarrow> v \<le> 100 \<Longrightarrow> player_ok (p \<lparr> s_vol := v \<rparr>)"
  by (simp add: player_ok_def)

lemma source_ok: "dlna_ok u d \<Longrightarrow> dlna_ok u (custom_dlna_set_music_source src d)"
  "dlna_ok u d \<Longrightarrow> dlna_ok u (custom_dlna_set_ssdp_suppressed b d)"
  by (simp_all add: custom_dlna_set_music_source_def custom_dlna_set_ssdp_suppressed_def dlna_ok_def)

lemma set_state_ok [simp]: "player_ok p \<Longrightarrow> s \<noteq> PS_NO_MEDIA \<Longrightarrow> player_ok (set_state s p)"
  by (auto simp: player_ok_def set_state_def Let_def async_ok)

lemma signal_ok [simp]: "player_ok p \<Longrightarrow> player_ok (signal p)"
  by (simp add: signal_def ok_rend async_ok ok_dlna)

lemma dlna_uri_ok [simp]: "player_ok p \<Longrightarrow> player_ok (dlna_uri a b p)"
  by (simp add: dlna_uri_def ok_rend update_uri_ok ok_dlna)

lemma dlna_source_ok [simp]: "player_ok p \<Longrightarrow> player_ok (dlna_source src p)"
  by (simp add: dlna_source_def ok_rend source_ok ok_dlna)

lemma delay_ok [simp]: "player_ok p \<Longrightarrow> 0 \<le> ms \<Longrightarrow> player_ok (delay ms p)"
  by (simp add: player_ok_def delay_def)

lemma told_ok [simp]:
  "player_ok (pipe x p) = player_ok p" "player_ok (stop_pipe p) = player_ok p" "player_ok (my_vol_set v p) = player_ok p"
  "player_ok (to_speaker b p) = player_ok p" "player_ok (miplay_pipeline_start p) = player_ok p" "player_ok (miplay_pipeline_stop p) = player_ok p"
  "player_ok (on_miplay_vol_changed w p) = player_ok p" "player_ok (schedule_delayed_stop_notify s p) = player_ok p" "player_ok (run_pipe uri p) = player_ok p"
  "player_ok (fetch_album_art_async uri p) = player_ok p"
  by (simp_all add: pipe_def stop_pipe_def my_vol_set_def to_speaker_def miplay_pipeline_start_def miplay_pipeline_stop_def
      on_miplay_vol_changed_def schedule_delayed_stop_notify_def run_pipe_def fetch_album_art_async_def)

lemma save_ok [simp]: "player_ok (save_pos s p) = player_ok p"
  by (simp add: save_pos_def)

lemma freeze_ok [simp]: "player_ok p \<Longrightarrow> player_ok (freeze p)"
  by (simp add: freeze_def)

lemma leave_speaker_ok [simp]: "player_ok p \<Longrightarrow> player_ok (leave_speaker p)"
  by (auto simp: leave_speaker_def)

lemma detach_ok [simp]: "player_ok p \<Longrightarrow> player_ok (dlna_detach_miplay_if_active p)"
  by (simp add: dlna_detach_miplay_if_active_def Let_def ok_rend source_ok ok_dlna)

lemma if_ok: "(b \<Longrightarrow> player_ok p) \<Longrightarrow> (\<not> b \<Longrightarrow> player_ok q) \<Longrightarrow> player_ok (if b then p else q)"
  by simp

lemma do_play_ok [simp]: "player_ok p \<Longrightarrow> player_ok (do_play s uri sec p)"
proof -
  assume a: "player_ok p"
  have r: "player_ok (run_pipe u (pipe Pipe_reset (delay 1000 (run_pipe u q))))" if "player_ok q" for u q
    using that by auto
  have f: "player_ok ((set_state PS_PLAYING q) \<lparr> s_accumulated_ms := i, s_play_start_us := clock_us (set_state PS_PLAYING q), s_grace_until := g,
      s_user_stopped := b, s_playing_uri := t, s_pending_seek_sec := n \<rparr>)" if "player_ok q" for q i g b t n
    using set_state_ok [OF that, of PS_PLAYING] by simp
  show ?thesis
  proof (cases uri)
    case (Some u)
    show ?thesis unfolding do_play_def Let_def Some option.case
      by (intro if_ok f set_state_ok r) (use a in \<open>simp_all split: if_split\<close>)
  qed (use a in \<open>simp add: do_play_def\<close>)
qed

lemma cut_over_ok [simp]: "player_ok p \<Longrightarrow> player_ok (cut_over s p)"
  by (simp add: cut_over_def Let_def)

lemma cb_play_ok [simp]: "player_ok p \<Longrightarrow> player_ok (cb_play s p)"
  by (simp add: cb_play_def Let_def)

lemma cb_pause_ok [simp]: "player_ok p \<Longrightarrow> player_ok (cb_pause s p)"
  by (simp add: cb_pause_def Let_def)

lemma cb_stop_ok [simp]: "player_ok p \<Longrightarrow> player_ok (cb_stop s p)"
  by (simp add: cb_stop_def Let_def)

lemma clock_tell [simp]: "clock_us (tell es p) = clock_us p" "clock_us (pipe x p) = clock_us p" "s_state (tell es p) = s_state p" "s_state (pipe x p) = s_state p"
  by (simp_all add: tell_def pipe_def)

lemma cb_seek_ok [simp]: "player_ok p \<Longrightarrow> player_ok (cb_seek s sec p)"
  by (simp add: cb_seek_def Let_def)

lemma detect_ok [simp]: "player_ok p \<Longrightarrow> player_ok (detect_and_apply_music_source uri p)"
  by (simp add: detect_and_apply_music_source_def Let_def)

lemma fresh_track_ok [simp]: "player_ok p \<Longrightarrow> player_ok (fresh_track s uri p)"
  by (auto simp: fresh_track_def Let_def tell_def player_ok_def)

lemma cb_set_uri_ok [simp]: "player_ok p \<Longrightarrow> player_ok (cb_set_uri s uri p)"
  by (simp add: cb_set_uri_def Let_def)

lemma cb_set_next_uri_ok [simp]: "player_ok p \<Longrightarrow> player_ok (cb_set_next_uri s u m p)"
  by (simp add: cb_set_next_uri_def)

lemma length_entity_loop: "0 < room \<Longrightarrow> length (entity_loop room s) < room"
proof (induction room arbitrary: s rule: less_induct)
  case (less room)
  show ?case
  proof (cases "s = [] \<or> room \<le> 6")
    case True
    then show ?thesis using less.prems by (subst entity_loop.simps) simp
  next
    case False
    show ?thesis
    proof (cases "take 2 s = str ''&#''")
      case True
      define u where "u = utf8 (codepoint (takeWhile is_digit (drop 2 s)))"
      have u: "0 < length u" "length u \<le> 4" using utf8_length [of "codepoint (takeWhile is_digit (drop 2 s))"] by (simp_all add: u_def)
      have "\<exists>r. entity_loop room s = u @ entity_loop (room - length u) r"
        using False True by (subst entity_loop.simps) (auto simp: Let_def u_def)
      then obtain r where "entity_loop room s = u @ entity_loop (room - length u) r" ..
      moreover have "length (entity_loop (room - length u) r) < room - length u"
        using u False by (intro less.IH) simp_all
      ultimately show ?thesis by simp
    next
      case False': False
      have "length (entity_loop (room - 1) (tl s)) < room - 1" using False by (intro less.IH) simp_all
      then show ?thesis using False False' by (subst entity_loop.simps) simp
    qed
  qed
qed

lemma length_decoded [simp]: "0 < n \<Longrightarrow> length (decode_html_entities n t) < n"
  using length_entity_loop [of n t] length_takeWhile_le [of "\<lambda>b. b \<noteq> 0" "entity_loop n t"]
  by (simp add: decode_html_entities_def cstr_def)

lemma cb_set_metadata_ok [simp]: "player_ok p \<Longrightarrow> player_ok (cb_set_metadata m p)"
  by (simp add: cb_set_metadata_def Let_def ok_titles)

lemma promote_ok [simp]: "player_ok p \<Longrightarrow> player_ok (promote s p)"
  by (simp add: promote_def Let_def)

lemma from_start_ok [simp]: "player_ok p \<Longrightarrow> player_ok (from_start p)"
  by (simp add: from_start_def)

lemma skip_mirror_ok [simp]: "player_ok (skip_mirror cmd p) = player_ok p"
  by (simp add: skip_mirror_def)

definition env_ok :: "(nat \<Rightarrow> player \<Rightarrow> player) \<Rightarrow> bool" where
  \<comment> \<open>what other tasks do keeps the invariant\<close>
  "env_ok env \<longleftrightarrow> (\<forall>n p. player_ok p \<longrightarrow> player_ok (env n p))"

lemma wait_next_ok: "env_ok env \<Longrightarrow> player_ok p \<Longrightarrow> player_ok (snd (wait_next n env gen seq p))"
proof (induction n arbitrary: p gen)
  case (Suc n)
  then have "player_ok (env n (delay 100 p))" by (simp add: env_ok_def)
  with Suc show ?case by (simp add: Let_def)
qed simp

lemma cb_next_ok [simp]: "env_ok env \<Longrightarrow> player_ok p \<Longrightarrow> player_ok (cb_next s env p)"
proof -
  assume a: "env_ok env" "player_ok p"
  define p1 where "p1 = from_start p"
  define p2 where "p2 = signal (set_state PS_TRANSITIONING (delay 300 (stop_pipe (p1 \<lparr> s_grace_until := clock_us p1 + 1000000 \<rparr>))))"
  obtain w p3 where w: "wait_next 50 env (s_media_generation p2) (track_seq p2) p2 = (w, p3)" by (cases "wait_next 50 env (s_media_generation p2) (track_seq p2) p2")
  have ok: "player_ok p1" "player_ok p2" using a(2) by (simp_all add: p1_def p2_def)
  from wait_next_ok [OF a(1) ok(2), of 50 "s_media_generation p2" "track_seq p2"] w have "player_ok p3" by simp
  with a ok show ?thesis
    unfolding cb_next_def Let_def p1_def [symmetric] p2_def [symmetric] w
    by (simp split: waited.split)
qed

lemma cb_previous_ok [simp]: "player_ok p \<Longrightarrow> player_ok (cb_previous s p)"
  by (simp add: cb_previous_def Let_def)

lemma cb_play_toggle_ok [simp]: "player_ok p \<Longrightarrow> player_ok (cb_play_toggle s p)"
  by (simp add: cb_play_toggle_def)

lemma delayed_stop_ok [simp]: "env_ok env \<Longrightarrow> player_ok p \<Longrightarrow> player_ok (delayed_stop_notify s env gen p)"
  by (simp add: delayed_stop_notify_def)

lemma cb_set_volume_ok [simp]: "player_ok p \<Longrightarrow> player_ok (cb_set_volume v p)"
proof -
  assume "player_ok p"
  then have "player_ok (p \<lparr> s_vol := min 100 (max 0 v), s_mute := False \<rparr>)" by (simp add: ok_vol)
  then show ?thesis by (simp add: cb_set_volume_def Let_def)
qed

lemma apply_volume_hw_ok [simp]: "player_ok p \<Longrightarrow> player_ok (apply_volume_hw s p)"
proof -
  assume a: "player_ok p"
  then have "player_ok (my_vol_set (cb_get_volume p) p)" by simp
  with notify_rcs_ok [OF ok_dlna [OF this]] show ?thesis
    by (simp add: apply_volume_hw_def Let_def ok_rend split_beta)
qed

lemma cb_set_mute_ok [simp]: "player_ok p \<Longrightarrow> player_ok (cb_set_mute s m p)"
  by (simp add: cb_set_mute_def)

lemma player_callback_ok: "env_ok env \<Longrightarrow> player_ok p \<Longrightarrow> player_ok (player_callback s env e p)"
  by (simp add: player_callback_def split: callback.split)

lemma start_clock_ok [simp]: "player_ok p \<Longrightarrow> player_ok (start_clock p)"
  by (simp add: start_clock_def)

lemma set_clk_ok [simp]: "player_ok (set_clk f p) = player_ok p"
  by (simp add: set_clk_def split: prod.split)

lemma pipeline_event_ok [simp]: "player_ok p \<Longrightarrow> player_ok (pipeline_event_cb s e p)"
  by (simp add: pipeline_event_cb_def Let_def split: gmf_event.split)

lemma miplay_pipeline_event_ok [simp]: "player_ok p \<Longrightarrow> player_ok (miplay_pipeline_event_cb e p)"
  by (simp add: miplay_pipeline_event_cb_def split: gmf_event.split)

lemma media_start_ok [simp]: "player_ok p \<Longrightarrow> player_ok (dlna_on_miplay_media_start b p)"
  by (simp add: dlna_on_miplay_media_start_def)

lemma connected_ok [simp]: "player_ok p \<Longrightarrow> player_ok (dlna_on_miplay_connected b p)"
  by (simp add: dlna_on_miplay_connected_def Let_def ok_titles ok_rend source_ok ok_dlna)

lemma wifi_ok [simp]: "player_ok p \<Longrightarrow> player_ok (wifi_lost p)" "player_ok p \<Longrightarrow> player_ok (wifi_back p)"
  by (simp_all add: wifi_lost_def wifi_back_def Let_def)

lemma deferred_seek_ok [simp]: "player_ok p \<Longrightarrow> player_ok (deferred_seek_worker s sec p)"
  by (simp add: deferred_seek_worker_def Let_def)

lemma sync_volume_ok: "player_ok p \<Longrightarrow> player_ok (snd (sync_volume p))"
  by (auto simp: sync_volume_def Let_def ok_vol)

lemma ui_update_ok [simp]: "player_ok p \<Longrightarrow> player_ok (ui_update s p)"
proof -
  assume "player_ok p"
  then have s: "player_ok (snd (sync_volume p))" by (rule sync_volume_ok)
  have "player_ok q \<Longrightarrow> player_ok (apply_volume q)" "player_ok q \<Longrightarrow> player_ok (near_end s q)" "player_ok q \<Longrightarrow> player_ok (stuck_paused q)" for q
    by (simp_all add: apply_volume_def near_end_def stuck_paused_def Let_def)
  with s show ?thesis by (simp add: ui_update_def Let_def split_beta)
qed

subsection \<open>The reachable states\<close>

definition player_boot :: "bool \<Rightarrow> bool \<Rightarrow> bool \<Rightarrow> bool \<Rightarrow> dlna \<Rightarrow> player" where
  \<comment> \<open>the static initial values, with the elements and pipelines that could be set up\<close>
  "player_boot pi alc mpi malc d = \<lparr> clock_us = 0, s_pipe = pi, s_alc_el = alc, s_miplay_pipe = mpi, s_miplay_alc_el = malc,
     s_state = PS_STOPPED, s_track_uri = None, s_vol = 35, s_last_applied_vol = 35, s_mute = False, s_last_i2s = (48000, 16, 2),
     s_saved_pos_sec = 0, s_pending_seek_sec = 0, s_dur_cache_sec = 0, s_saved_uri = None, s_music_id = 0, s_last_notified = PS_STOPPED,
     p_next_uri = None, p_next_metadata = None, s_user_stopped = False, s_stuck_paused_since = 0, s_lyrics_ui_clear_pending = False,
     s_lyrics_refetch_pending = False, s_xiaomi_speaker_mode = False, s_miplay_media_queue = None, s_miplay_connected = False,
     s_miplay_session_reset_pending = False, s_miplay_state = 0, s_miplay_position_ms = 0, s_miplay_duration_ms = 0,
     s_miplay_position_anchor_us = 0, s_miplay_id = [], s_miplay_audio_id = [], s_miplay_title = [], s_miplay_artist = [],
     s_miplay_album = [], s_miplay_cover_url = [], s_miplay_pending_volume = -1, s_play_start_us = 0, s_grace_until = 0,
     s_accumulated_ms = 0, s_playing_uri = None, s_near_end_count = 0, s_media_generation = 0, s_album_art_gen = 0,
     s_cur_title = [], s_cur_artist = [], track_seq = 0, miplay_vol = 0, rend = d, told = [] \<rparr>"

definition later :: "int \<Rightarrow> player \<Rightarrow> player" where
  "later us p = p \<lparr> clock_us := clock_us p + us \<rparr>"

inductive player_run :: "player \<Rightarrow> bool" where
  booted: "dlna_ok device d \<Longrightarrow> player_run (player_boot pi alc mpi malc d)"
| time_passed: "player_run p \<Longrightarrow> 0 \<le> us \<Longrightarrow> player_run (later us p)"
| renderer_moved: "player_run p \<Longrightarrow> dlna_ok device d \<Longrightarrow> player_run (p \<lparr> rend := d \<rparr>)"
| called_back: "player_run p \<Longrightarrow> env_ok env \<Longrightarrow> player_run (player_callback s env e p)"
| toggled: "player_run p \<Longrightarrow> player_run (cb_play_toggle s p)"
| pipe_event: "player_run p \<Longrightarrow> player_run (pipeline_event_cb s e p)"
| miplay_event: "player_run p \<Longrightarrow> player_run (miplay_pipeline_event_cb e p)"
| finish_due: "player_run p \<Longrightarrow> env_ok env \<Longrightarrow> player_run (delayed_stop_notify s env gen p)"
| seek_due: "player_run p \<Longrightarrow> player_run (deferred_seek_worker s sec p)"
| media_switched: "player_run p \<Longrightarrow> player_run (dlna_on_miplay_media_start b p)"
| phone_switched: "player_run p \<Longrightarrow> player_run (dlna_on_miplay_connected b p)"
| network_lost: "player_run p \<Longrightarrow> player_run (wifi_lost p)"
| network_back: "player_run p \<Longrightarrow> player_run (wifi_back p)"
| displayed: "player_run p \<Longrightarrow> player_run (ui_update s p)"

lemma boot_ok: "dlna_ok device d \<Longrightarrow> player_ok (player_boot pi alc mpi malc d)"
  by (simp add: player_ok_def player_boot_def)

lemma player_run_ok: "player_run p \<Longrightarrow> player_ok p"
proof (induction rule: player_run.induct)
  case (time_passed p us)
  then show ?case by (simp add: player_ok_def later_def)
qed (simp_all add: boot_ok ok_rend player_callback_ok)



subsection \<open>Position\<close>

lemma set_state_fields [simp]:
  "s_state (set_state x p) = x" "clock_us (set_state x p) = clock_us p" "s_accumulated_ms (set_state x p) = s_accumulated_ms p"
  "s_play_start_us (set_state x p) = s_play_start_us p" "s_miplay_connected (set_state x p) = s_miplay_connected p" "s_pipe (set_state x p) = s_pipe p"
  "s_playing_uri (set_state x p) = s_playing_uri p" "s_track_uri (set_state x p) = s_track_uri p" "s_dur_cache_sec (set_state x p) = s_dur_cache_sec p"
  "s_grace_until (set_state x p) = s_grace_until p" "s_user_stopped (set_state x p) = s_user_stopped p"
  "s_saved_pos_sec (set_state x p) = s_saved_pos_sec p" "s_saved_uri (set_state x p) = s_saved_uri p" "s_media_generation (set_state x p) = s_media_generation p"
  "track_seq (set_state x p) = track_seq p" "p_next_uri (set_state x p) = p_next_uri p" "s_pending_seek_sec (set_state x p) = s_pending_seek_sec p"
  by (simp_all add: set_state_def Let_def)

lemma pipe_fields [simp]:
  "s_accumulated_ms (pipe x p) = s_accumulated_ms p" "s_play_start_us (pipe x p) = s_play_start_us p" "s_miplay_connected (pipe x p) = s_miplay_connected p"
  "s_pipe (pipe x p) = s_pipe p" "s_playing_uri (pipe x p) = s_playing_uri p" "s_track_uri (pipe x p) = s_track_uri p" "s_dur_cache_sec (pipe x p) = s_dur_cache_sec p"
  "s_grace_until (pipe x p) = s_grace_until p" "s_user_stopped (pipe x p) = s_user_stopped p" "s_saved_pos_sec (pipe x p) = s_saved_pos_sec p"
  "s_saved_uri (pipe x p) = s_saved_uri p" "s_media_generation (pipe x p) = s_media_generation p" "track_seq (pipe x p) = track_seq p" "p_next_uri (pipe x p) = p_next_uri p"
  "s_pending_seek_sec (pipe x p) = s_pending_seek_sec p" "rend (pipe x p) = rend p"
  by (simp_all add: pipe_def tell_def)

lemma later_fields [simp]:
  "clock_us (later us p) = clock_us p + us" "s_accumulated_ms (later us p) = s_accumulated_ms p" "s_play_start_us (later us p) = s_play_start_us p"
  "s_state (later us p) = s_state p" "s_miplay_connected (later us p) = s_miplay_connected p" "s_pipe (later us p) = s_pipe p"
  "s_playing_uri (later us p) = s_playing_uri p" "s_track_uri (later us p) = s_track_uri p" "s_grace_until (later us p) = s_grace_until p"
  "s_user_stopped (later us p) = s_user_stopped p" "s_saved_pos_sec (later us p) = s_saved_pos_sec p" "s_saved_uri (later us p) = s_saved_uri p"
  "s_pending_seek_sec (later us p) = s_pending_seek_sec p"
  by (simp_all add: later_def)

text \<open>Pausing and going on lose nothing: the position reported stays the same from the pause on, however long it
  lasts, and from then on counts the time that is played.\<close>

theorem pause_keeps_position:
  assumes "player_run p" and "s_state p = PS_PLAYING" and "0 < s_play_start_us p" and "s_pipe p" and "\<not> s_miplay_connected p"
    and "s_playing_uri p = s_track_uri p" and "0 \<le> wait" and "0 \<le> t"
  shows "cb_get_position_ms (later wait (cb_pause s p)) = cb_get_position_ms p
    \<and> cb_get_position_ms (later t (cb_play s (later wait (cb_pause s p)))) = cb_get_position_ms p + t div 1000"
proof -
  define q where "q = cb_pause s p"
  have q: "s_state q = PS_PAUSED" "s_accumulated_ms q = cb_get_position_ms p" "s_play_start_us q = 0" "s_pipe q" "\<not> s_miplay_connected q"
    "s_playing_uri q = s_track_uri q" "clock_us q = clock_us p"
    using assms by (simp_all add: q_def cb_pause_def freeze_def save_pos_def elapsed_ms_def cb_get_position_ms_def)
  have c: "0 < clock_us q" using assms(3) player_run_ok [OF assms(1)] q(7) by (simp add: player_ok_def)
  have "cb_play s (later wait q) = (let r = set_state PS_PLAYING (pipe Pipe_resume (later wait q)) in
      r \<lparr> s_play_start_us := clock_us r, s_grace_until := clock_us r + 8000000, s_user_stopped := False \<rparr>)"
    using q by (simp add: cb_play_def dlna_detach_miplay_if_active_def Let_def)
  then show ?thesis using q c assms(7) unfolding q_def [symmetric]
    by (simp add: cb_get_position_ms_def elapsed_ms_def Let_def)
qed

fun event_run :: "system \<Rightarrow> (int \<times> gmf_event) list \<Rightarrow> player \<Rightarrow> player" where
  \<comment> \<open>events of the pipeline, each so many microseconds after the one before\<close>
  "event_run s [] p = p"
| "event_run s ((us, e) # es) p = event_run s es (pipeline_event_cb s e (later us p))"

definition settled :: "int \<Rightarrow> player \<Rightarrow> bool" where
  "settled g p \<longleftrightarrow> s_state p = PS_PLAYING \<and> s_grace_until p = g \<and> \<not> s_user_stopped p"

lemma event_settled:
  assumes "settled g p" and "clock_us p < g"
  shows "settled g (pipeline_event_cb s e p) \<and> clock_us (pipeline_event_cb s e p) = clock_us p"
  using assms
  by (auto simp: settled_def pipeline_event_cb_def Let_def in_grace_def start_clock_def tell_def schedule_delayed_stop_notify_def
      leave_speaker_def dlna_source_def to_speaker_def set_clk_def split: gmf_event.split prod.split)

lemma event_run_settled:
  "settled g p \<Longrightarrow> list_all (\<lambda>(us, e). 0 \<le> us) es \<Longrightarrow> clock_us p + sum_list (map fst es) < g \<Longrightarrow>
   settled g (event_run s es p) \<and> clock_us (event_run s es p) < g"
proof (induction es arbitrary: p)
  case (Cons ev es)
  obtain us e where ev: "ev = (us, e)" by (cases ev)
  have "0 \<le> sum_list (map fst es)" using Cons.prems(2) by (intro sum_list_nonneg) (auto simp: list_all_iff)
  then have c: "clock_us (later us p) < g" using Cons.prems(3) by (simp add: ev)
  have l: "settled g (later us p)" using Cons.prems(1) by (simp add: settled_def)
  from event_settled [OF l c, of s e] Cons show ?case by (simp add: ev)
qed (simp add: settled_def)

lemma do_play_started:
  assumes "s_pipe p" and "run_ok s \<or> rerun_ok s"
  shows "settled (clock_us (do_play s (Some u) sec p) + 8000000) (do_play s (Some u) sec p)"
  using assms by (simp add: do_play_def Let_def settled_def)


text \<open>C20: A track that was stopped is resumed where it was: playing the same address again starts at the second
  reached, and as soon as the pipeline runs the seek to that second is ordered.\<close>

theorem stopped_track_resumes:
  assumes "player_run p" and "s_state p = PS_PLAYING" and "0 < s_play_start_us p" and "s_pipe p" and "\<not> s_miplay_connected p"
    and "s_track_uri p = Some u" and "dup_ok s = (\<lambda>n. True)" and "run_ok s" and "tasks_ok s" and "0 \<le> wait"
    and "1000 \<le> cb_get_position_ms p" and "cb_get_position_ms p < 2 ^ 31"
  shows "cb_get_position_ms (cb_play s (later wait (cb_stop s p))) = cb_get_position_ms p div 1000 * 1000
    \<and> Later_seek (cb_get_position_ms p div 1000) \<in> set (told (pipeline_event_cb s Running (cb_play s (later wait (cb_stop s p)))))"
proof -
  define pos where "pos = cb_get_position_ms p"
  define q where "q = later wait (cb_stop s p)"
  have l: "s_pipe (leave_speaker x) = s_pipe x" "s_miplay_connected (leave_speaker x) = s_miplay_connected x" "s_track_uri (leave_speaker x) = s_track_uri x"
    "s_play_start_us (leave_speaker x) = s_play_start_us x" "s_accumulated_ms (leave_speaker x) = s_accumulated_ms x" "clock_us (leave_speaker x) = clock_us x" for x
    by (simp_all add: leave_speaker_def dlna_source_def to_speaker_def tell_def)
  have q: "s_state q = PS_STOPPED" "s_pipe q" "\<not> s_miplay_connected q" "s_track_uri q = Some u" "s_saved_uri q = Some u" "s_saved_pos_sec q = pos div 1000"
    using assms(2-7) by (simp_all add: q_def cb_stop_def Let_def stop_pipe_def freeze_def save_pos_def l strdup_psram_def elapsed_ms_def pos_def cb_get_position_ms_def)
  have n: "0 < pos div 1000" "pos div 1000 < 2 ^ 31" using assms(11,12) by (simp_all add: pos_def)
  have "cb_play s q = (do_play s (Some u) (pos div 1000) q) \<lparr> s_saved_pos_sec := 0 \<rparr>"
    using q n by (simp add: cb_play_def dlna_detach_miplay_if_active_def Let_def same_text_def)
  moreover obtain r where r: "do_play s (Some u) (pos div 1000) q = r" "s_state r = PS_PLAYING" "s_accumulated_ms r = s32 (pos div 1000 * 1000)"
    "s_play_start_us r = clock_us r" "s_pending_seek_sec r = pos div 1000"
    using q(2) n assms(8) by (simp add: do_play_def Let_def)
  moreover have "s32 (pos div 1000 * 1000) = pos div 1000 * 1000"
    using assms(11,12) unfolding pos_def [symmetric] by (intro s32_small) linarith+
  ultimately show ?thesis
    using n assms(9) unfolding pos_def [symmetric] q_def [symmetric]
    by (simp add: cb_get_position_ms_def elapsed_ms_def pipeline_event_cb_def start_clock_def tell_def Let_def)
qed

lemma wait_alone:
  "\<not> has_next p \<Longrightarrow> s_state p \<noteq> PS_PLAYING \<Longrightarrow> wait_next n (\<lambda>k x. x) (s_media_generation p) (track_seq p) p = (Timeout, delay (int n * 100) p)"
proof (induction n arbitrary: p)
  case 0
  then show ?case by (simp add: delay_def)
next
  case (Suc n)
  have d: "\<not> has_next (delay 100 p)" "s_state (delay 100 p) \<noteq> PS_PLAYING" "s_media_generation (delay 100 p) = s_media_generation p" "track_seq (delay 100 p) = track_seq p"
    using Suc.prems by (simp_all add: delay_def has_next_def)
  from Suc.IH [OF d(1,2)] d show ?case by (simp add: Let_def) (simp add: delay_def algebra_simps)
qed


text \<open>A loss of the network loses the position: when the connection comes back the player goes on from where it was
  last started, so what was played since then is not counted any more.\<close>

theorem network_loss_forgets_position:
  assumes "s_state p = PS_PLAYING" and "s_pipe p" and "0 \<le> clock_us p" and "0 \<le> wait"
  shows "cb_get_position_ms (wifi_back (later wait (wifi_lost p))) = s_accumulated_ms p"
  using assms by (simp add: wifi_lost_def wifi_back_def Let_def cb_get_position_ms_def elapsed_ms_def)

subsection \<open>At a concrete player\<close>

definition good_system :: system where
  "good_system = \<lparr> dup_ok = (\<lambda>n. True), run_ok = True, rerun_ok = False, http_io = True, file_size = 0, tasks_ok = True,
     memory = (\<lambda>n. True), net = (\<lambda>i. Connected) \<rparr>"

definition fresh_renderer :: dlna where
  "fresh_renderer = snd (custom_dlna_init (Some (quiet_config \<lparr> cfg_uuid := device \<rparr>)) 0 True True dlna_boot)"

definition set_player :: player where
  \<comment> \<open>an address has been set\<close>
  "set_player = player_callback good_system (\<lambda>n p. p) (On_set_uri (str ''http://h/a'')) (player_boot True True False False fresh_renderer)"

definition playing_player :: player where
  \<comment> \<open>and the pipeline has been running for 65 s\<close>
  "playing_player = later 65000000 (pipeline_event_cb good_system Running (later 1000000 set_player))"

lemma fresh_renderer_ok: "dlna_ok device fresh_renderer"
  by (rule init_ok [of "quiet_config \<lparr> cfg_uuid := device \<rparr>" 0 True True]) (simp_all add: fresh_renderer_def custom_dlna_init_def Let_def)

lemma env_same: "env_ok (\<lambda>n p. p)"
  by (simp add: env_ok_def)

lemma playing_run: "player_run playing_player"
  unfolding playing_player_def set_player_def
  by (intro time_passed pipe_event called_back env_same booted fresh_renderer_ok) simp_all

lemma example_uri: "\<not> is_video_uri (str ''http://h/a'')" "music_source (Some (str ''http://h/a'')) [] = MUSIC_SRC_NETEASE"
  by code_simp+

lemma playing_fields:
  "s_state playing_player = PS_PLAYING" "s_play_start_us playing_player = 1000000" "s_pipe playing_player" "\<not> s_miplay_connected playing_player"
  "s_track_uri playing_player = Some (str ''http://h/a'')" "s_accumulated_ms playing_player = 0" "clock_us playing_player = 66000000"
proof -
  have u: "s_user_agent fresh_renderer = []" by (simp add: fresh_renderer_def custom_dlna_init_def dlna_boot_def Let_def)
  have s: "set_player = tell [Lyrics_clear] (dlna_source MUSIC_SRC_NETEASE (player_boot True True False False fresh_renderer)
      \<lparr> s_media_generation := 1, s_track_uri := Some (str ''http://h/a''), s_lyrics_ui_clear_pending := True \<rparr>)"
    using example_uri u
    by (simp add: set_player_def player_callback_def cb_set_uri_def detect_and_apply_music_source_def fresh_track_def player_boot_def Let_def
        dlna_detach_miplay_if_active_def good_system_def strdup_psram_def dlna_source_def tell_def)
  show "s_state playing_player = PS_PLAYING" "s_play_start_us playing_player = 1000000" "s_pipe playing_player" "\<not> s_miplay_connected playing_player"
    "s_track_uri playing_player = Some (str ''http://h/a'')" "s_accumulated_ms playing_player = 0" "clock_us playing_player = 66000000"
    by (simp_all add: playing_player_def s player_boot_def dlna_source_def tell_def pipeline_event_cb_def start_clock_def Let_def later_def set_state_def)
qed




theorem stopped_track_resumes_witness:
  "Later_seek 65 \<in> set (told (pipeline_event_cb good_system Running (cb_play good_system (later 9000000 (cb_stop good_system playing_player)))))"
proof -
  have pos: "cb_get_position_ms playing_player = 65000" by (simp add: cb_get_position_ms_def elapsed_ms_def playing_fields)
  then show ?thesis
    using stopped_track_resumes [OF playing_run, of "str ''http://h/a''" good_system 9000000, THEN conjunct2]
    by (simp add: playing_fields good_system_def)
qed


theorem network_loss_forgets_position_witness:
  "cb_get_position_ms (wifi_back (later 2000000 (wifi_lost playing_player))) = s_accumulated_ms playing_player"
  by (rule network_loss_forgets_position) (simp_all add: playing_fields)

theorem pause_keeps_position_witness:
  "cb_get_position_ms (later 4000000 (cb_play good_system (later 5000000 (cb_pause good_system
      (later 65000000 (pipeline_event_cb good_system Running (later 1000000 (player_boot True True False False fresh_renderer))))))))
   = cb_get_position_ms (later 65000000 (pipeline_event_cb good_system Running (later 1000000 (player_boot True True False False fresh_renderer)))) + 4000000 div 1000"
proof (rule pause_keeps_position [THEN conjunct2])
  show "player_run (later 65000000 (pipeline_event_cb good_system Running (later 1000000 (player_boot True True False False fresh_renderer))))"
    by (intro time_passed pipe_event booted fresh_renderer_ok) simp_all
qed (simp_all add: pipeline_event_cb_def start_clock_def player_boot_def set_state_def later_def Let_def)

end
