(* ===== verification/Nowplaying.thy ===== *)
theory Nowplaying
  imports Player
begin

text \<open>
  What the display shows of a MiPlay session (\<open>main/dlna.c\<close>: \<open>dlna_on_miplay_media\<close>,
  \<open>consume_miplay_media_events_locked\<close>, \<open>get_miplay_position_ms\<close>): the queue of media events between
  the control task and the display's task, and their merging into the song shown. The events are those of
  \<open>Media\<close>.
\<close>

subsection \<open>The queue and the position\<close>

definition MIPLAY_MEDIA_QUEUE_LEN :: nat where "MIPLAY_MEDIA_QUEUE_LEN = 8"

definition dlna_on_miplay_media :: "media_event \<Rightarrow> player \<Rightarrow> player" where
  \<comment> \<open>a full queue loses its oldest event\<close>
  "dlna_on_miplay_media e p =
     (case s_miplay_media_queue p of
        None \<Rightarrow> p
      | Some q \<Rightarrow> p \<lparr> s_miplay_media_queue := Some ((if length q < MIPLAY_MEDIA_QUEUE_LEN then q else tl q) @ [e]) \<rparr>)"

definition clamp_miplay_ms :: "int \<Rightarrow> int" where
  "clamp_miplay_ms v = (if v \<le> 0 then 0 else if 2147483647 < v then 2147483647 else v)"

definition get_miplay_position_ms :: "player \<Rightarrow> int" where
  \<comment> \<open>state 1 is \<open>PS_PLAYING\<close>\<close>
  "get_miplay_position_ms p =
     (let pos = s_miplay_position_ms p
            + (if s_miplay_state p = 1 \<and> 0 < s_miplay_position_anchor_us p then (clock_us p - s_miplay_position_anchor_us p) div 1000 else 0)
      in clamp_miplay_ms (if 0 < s_miplay_duration_ms p \<and> s_miplay_duration_ms p < pos then s_miplay_duration_ms p else pos))"

subsection \<open>Merging an event\<close>

definition waiting_screen :: "order list" where
  "waiting_screen = [Lyrics_clear, Ui_lyrics_clear, Ui_clear_cover, Ui_title (str ''Xiaomi Speaker''), Ui_artist (str ''Waiting...'')]"

definition no_song :: "player \<Rightarrow> player" where
  "no_song p = p \<lparr> s_miplay_id := [], s_miplay_audio_id := [], s_miplay_title := [], s_miplay_artist := [], s_miplay_album := [],
     s_miplay_cover_url := [], s_miplay_position_ms := 0, s_miplay_duration_ms := 0, s_miplay_position_anchor_us := 0, s_lyrics_refetch_pending := True \<rparr>"

definition reset_miplay_media_locked :: "player \<Rightarrow> player" where
  "reset_miplay_media_locked p = tell waiting_screen ((no_song p) \<lparr> s_miplay_state := 0 \<rparr>)"

definition says :: "media_event \<Rightarrow> u32 \<Rightarrow> byte list \<Rightarrow> bool" where
  "says e b t \<longleftrightarrow> has_bit (ev_changed e) b \<and> t \<noteq> []"

definition title_changed :: "player \<Rightarrow> media_event \<Rightarrow> bool" where
  "title_changed p e \<longleftrightarrow> says e MIPLAY_MEDIA_CHANGED_TITLE (ev_title e) \<and> s_miplay_title p \<noteq> ev_title e"

definition new_track :: "player \<Rightarrow> media_event \<Rightarrow> bool" where
  "new_track p e \<longleftrightarrow>
     says e MIPLAY_MEDIA_CHANGED_ID (ev_id e) \<and> s_miplay_id p \<noteq> ev_id e
     \<or> says e MIPLAY_MEDIA_CHANGED_AUDIO_ID (ev_audio_id e) \<and> s_miplay_audio_id p \<noteq> ev_audio_id e
     \<or> says e MIPLAY_MEDIA_CHANGED_COVER_URL (ev_cover_url e) \<and> s_miplay_cover_url p \<noteq> [] \<and> s_miplay_cover_url p \<noteq> ev_cover_url e
     \<or> has_bit (ev_changed e) MIPLAY_MEDIA_CHANGED_DURATION \<and> 0 < ev_duration_ms e \<and> 0 < s_miplay_duration_ms p
         \<and> clamp_miplay_ms (ev_duration_ms e) \<noteq> s_miplay_duration_ms p
     \<or> title_changed p e"

definition lyric_as_title :: "player \<Rightarrow> media_event \<Rightarrow> bool" where
  "lyric_as_title p e \<longleftrightarrow> title_changed p e \<and> s_miplay_title p \<noteq> [] \<and> \<not> new_track p e"

definition clear_song :: "player \<Rightarrow> player" where
  "clear_song p = tell waiting_screen ((no_song p) \<lparr> s_album_art_gen := s_album_art_gen p + 1, s_lyrics_ui_clear_pending := False \<rparr>)"

definition merge_texts :: "bool \<Rightarrow> media_event \<Rightarrow> player \<Rightarrow> player" where
  "merge_texts lat e p = p \<lparr>
     s_miplay_id := (if says e MIPLAY_MEDIA_CHANGED_ID (ev_id e) then copy_text 64 (ev_id e) else s_miplay_id p),
     s_miplay_audio_id := (if says e MIPLAY_MEDIA_CHANGED_AUDIO_ID (ev_audio_id e) then copy_text 64 (ev_audio_id e) else s_miplay_audio_id p),
     s_miplay_title := (if says e MIPLAY_MEDIA_CHANGED_TITLE (ev_title e) then copy_text 128 (ev_title e) else s_miplay_title p),
     s_miplay_artist := (if says e MIPLAY_MEDIA_CHANGED_ARTIST (ev_artist e) \<and> (\<not> lat \<or> s_miplay_artist p = [])
                         then copy_text 128 (ev_artist e) else s_miplay_artist p),
     s_miplay_album := (if says e MIPLAY_MEDIA_CHANGED_ALBUM (ev_album e) \<and> (\<not> lat \<or> s_miplay_album p = [])
                        then copy_text 128 (ev_album e) else s_miplay_album p) \<rparr>"

definition cover_same :: "media_event \<Rightarrow> player \<Rightarrow> bool" where
  "cover_same e p \<longleftrightarrow> says e MIPLAY_MEDIA_CHANGED_COVER_URL (ev_cover_url e) \<and> s_miplay_cover_url p \<noteq> [] \<and> s_miplay_cover_url p = ev_cover_url e"

definition merge_numbers :: "media_event \<Rightarrow> player \<Rightarrow> player" where
  "merge_numbers e p =
     (let p1 = (if has_bit (ev_changed e) MIPLAY_MEDIA_CHANGED_DURATION \<and> 0 < ev_duration_ms e
                then p \<lparr> s_miplay_duration_ms := clamp_miplay_ms (ev_duration_ms e) \<rparr> else p)
      in if has_bit (ev_changed e) MIPLAY_MEDIA_CHANGED_POSITION
         then p1 \<lparr> s_miplay_position_ms := clamp_miplay_ms (ev_position_ms e),
                   s_miplay_position_anchor_us := (if s_miplay_state p1 = 1 then clock_us p1 else s_miplay_position_anchor_us p1) \<rparr>
         else p1)"

definition merge_state :: "media_event \<Rightarrow> player \<Rightarrow> player" where
  "merge_state e p =
     (if has_bit (ev_changed e) MIPLAY_MEDIA_CHANGED_PLAYER_STATE \<and> 0 \<le> ev_player_state e \<and> ev_player_state e \<le> 3 then
        (if ev_player_state e = 1 then p \<lparr> s_miplay_state := 1, s_miplay_position_anchor_us := clock_us p \<rparr>
         else p \<lparr> s_miplay_state := ev_player_state e, s_miplay_position_anchor_us := 0,
                  s_miplay_position_ms := (if has_bit (ev_changed e) MIPLAY_MEDIA_CHANGED_POSITION then s_miplay_position_ms p else get_miplay_position_ms p) \<rparr>)
      else p)"

definition from_zero :: "bool \<Rightarrow> media_event \<Rightarrow> player \<Rightarrow> player" where
  "from_zero nt e p =
     (if nt \<and> \<not> has_bit (ev_changed e) MIPLAY_MEDIA_CHANGED_POSITION \<and> \<not> has_bit (ev_changed e) MIPLAY_MEDIA_CHANGED_PLAYER_STATE
      then p \<lparr> s_miplay_position_ms := 0, s_miplay_position_anchor_us := (if s_miplay_state p = 1 then clock_us p else 0) \<rparr> else p)"

definition show_song :: "bool \<Rightarrow> bool \<Rightarrow> media_event \<Rightarrow> player \<Rightarrow> player" where
  "show_song lat same e p =
     (let p1 = (if has_bit (ev_changed e) MIPLAY_MEDIA_CHANGED_TITLE \<and> s_miplay_title p \<noteq> [] then tell [Ui_title (s_miplay_title p)] p else p);
          p2 = (if has_bit (ev_changed e) MIPLAY_MEDIA_CHANGED_ARTIST \<and> s_miplay_artist p1 \<noteq> [] \<and> \<not> lat then tell [Ui_artist (s_miplay_artist p1)] p1 else p1)
      in if says e MIPLAY_MEDIA_CHANGED_COVER_URL (ev_cover_url e) \<and> \<not> same
         then fetch_album_art_async (s_miplay_cover_url p2) (p2 \<lparr> s_album_art_gen := s_album_art_gen p2 + 1 \<rparr>) else p2)"

definition song_id :: "player \<Rightarrow> u32" where
  "song_id p = (let i = (if s_miplay_id p \<noteq> [] then s_miplay_id p else s_miplay_audio_id p) in if i \<noteq> [] then strtoul i else 0)"

definition ask_lyrics :: "bool \<Rightarrow> player \<Rightarrow> player" where
  "ask_lyrics nt p =
     (if s_miplay_title p \<noteq> [] \<and> (nt \<or> s_lyrics_refetch_pending p)
      then tell [Lyrics_fetch (s_miplay_title p) (s_miplay_artist p) (song_id p)] (p \<lparr> s_lyrics_refetch_pending := False \<rparr>) else p)"

definition take_event :: "player \<Rightarrow> media_event \<Rightarrow> player" where
  \<comment> \<open>a pass of the loop\<close>
  "take_event p e =
     (let nt = new_track p e; lat = lyric_as_title p e;
          p1 = merge_texts lat e (if nt then clear_song p else p);
          same = cover_same e p1;
          p2 = (if says e MIPLAY_MEDIA_CHANGED_COVER_URL (ev_cover_url e) \<and> \<not> same then p1 \<lparr> s_miplay_cover_url := copy_text MIPLAY_COVER_SOURCE_MAX (ev_cover_url e) \<rparr> else p1)
      in ask_lyrics nt (show_song lat same e (from_zero nt e (merge_state e (merge_numbers e p2)))))"

definition consume_miplay_media_events_locked :: "player \<Rightarrow> player" where
  "consume_miplay_media_events_locked p =
     (let p1 = (if s_miplay_session_reset_pending p then reset_miplay_media_locked (p \<lparr> s_miplay_session_reset_pending := False \<rparr>) else p) in
      case s_miplay_media_queue p1 of
        None \<Rightarrow> p1
      | Some q \<Rightarrow>
          let p2 = p1 \<lparr> s_miplay_media_queue := Some [] \<rparr> in
          if s_miplay_connected p2 then foldl take_event p2 q else p2)"

subsection \<open>Facts\<close>

lemma copied_empty [simp]: "copy_text (Suc (Suc n)) t = [] \<longleftrightarrow> t = []"
  by (cases t) (simp_all add: copy_text_def)

lemma copied_empty_128 [simp]: "copy_text 128 t = [] \<longleftrightarrow> t = []" "copy_text 64 t = [] \<longleftrightarrow> t = []" "copy_text MIPLAY_COVER_SOURCE_MAX t = [] \<longleftrightarrow> t = []"
  by (cases t; simp add: copy_text_def MIPLAY_COVER_SOURCE_MAX_def)+

lemma lyric_as_title_never [simp]: "lyric_as_title p e = False"
  by (simp add: lyric_as_title_def new_track_def)

lemma clamp_range: "0 \<le> clamp_miplay_ms v \<and> clamp_miplay_ms v \<le> 2147483647"
  by (simp add: clamp_miplay_ms_def)

lemma clamp_mono: "v \<le> w \<Longrightarrow> clamp_miplay_ms v \<le> clamp_miplay_ms w"
  by (simp add: clamp_miplay_ms_def)

lemma merged_title [simp]:
  "s_miplay_title (tell es p) = s_miplay_title p" "s_miplay_title (ask_lyrics nt p) = s_miplay_title p" "s_miplay_title (show_song lat same e p) = s_miplay_title p"
  "s_miplay_title (from_zero nt e p) = s_miplay_title p" "s_miplay_title (merge_state e p) = s_miplay_title p" "s_miplay_title (merge_numbers e p) = s_miplay_title p"
  by (simp_all add: tell_def ask_lyrics_def show_song_def fetch_album_art_async_def from_zero_def merge_state_def merge_numbers_def Let_def)

lemma merged_artist [simp]:
  "s_miplay_artist (tell es p) = s_miplay_artist p" "s_miplay_artist (ask_lyrics nt p) = s_miplay_artist p" "s_miplay_artist (show_song lat same e p) = s_miplay_artist p"
  "s_miplay_artist (from_zero nt e p) = s_miplay_artist p" "s_miplay_artist (merge_state e p) = s_miplay_artist p" "s_miplay_artist (merge_numbers e p) = s_miplay_artist p"
  by (simp_all add: tell_def ask_lyrics_def show_song_def fetch_album_art_async_def from_zero_def merge_state_def merge_numbers_def Let_def)

lemma merged_cover [simp]:
  "s_miplay_cover_url (tell es p) = s_miplay_cover_url p" "s_miplay_cover_url (ask_lyrics nt p) = s_miplay_cover_url p" "s_miplay_cover_url (show_song lat same e p) = s_miplay_cover_url p"
  "s_miplay_cover_url (from_zero nt e p) = s_miplay_cover_url p" "s_miplay_cover_url (merge_state e p) = s_miplay_cover_url p" "s_miplay_cover_url (merge_numbers e p) = s_miplay_cover_url p"
  by (simp_all add: tell_def ask_lyrics_def show_song_def fetch_album_art_async_def from_zero_def merge_state_def merge_numbers_def Let_def)

lemma merged_album [simp]:
  "s_miplay_album (tell es p) = s_miplay_album p" "s_miplay_album (ask_lyrics nt p) = s_miplay_album p" "s_miplay_album (show_song lat same e p) = s_miplay_album p"
  "s_miplay_album (from_zero nt e p) = s_miplay_album p" "s_miplay_album (merge_state e p) = s_miplay_album p" "s_miplay_album (merge_numbers e p) = s_miplay_album p"
  by (simp_all add: tell_def ask_lyrics_def show_song_def fetch_album_art_async_def from_zero_def merge_state_def merge_numbers_def Let_def)

lemma merged_duration [simp]:
  "s_miplay_duration_ms (tell es p) = s_miplay_duration_ms p" "s_miplay_duration_ms (ask_lyrics nt p) = s_miplay_duration_ms p"
  "s_miplay_duration_ms (show_song lat same e p) = s_miplay_duration_ms p" "s_miplay_duration_ms (from_zero nt e p) = s_miplay_duration_ms p"
  "s_miplay_duration_ms (merge_state e p) = s_miplay_duration_ms p"
  "s_miplay_duration_ms (merge_numbers e p) = (if has_bit (ev_changed e) MIPLAY_MEDIA_CHANGED_DURATION \<and> 0 < ev_duration_ms e
     then clamp_miplay_ms (ev_duration_ms e) else s_miplay_duration_ms p)"
  by (simp_all add: tell_def ask_lyrics_def show_song_def fetch_album_art_async_def from_zero_def merge_state_def merge_numbers_def Let_def)

lemma merged_told [simp]:
  "told (tell es p) = told p @ es" "told (from_zero nt e p) = told p" "told (merge_state e p) = told p" "told (merge_numbers e p) = told p"
  "told (merge_texts lat e p) = told p" "told (clear_song p) = told p @ waiting_screen"
  by (simp_all add: tell_def from_zero_def merge_state_def merge_numbers_def merge_texts_def clear_song_def no_song_def Let_def)

definition event_text :: "media_event \<Rightarrow> u32 \<Rightarrow> nat \<Rightarrow> byte list \<Rightarrow> byte list" where
  \<comment> \<open>what an event alone says of a text\<close>
  "event_text e b n t = (if says e b t then copy_text n t else [])"

lemma says_text: "says e b t \<Longrightarrow> t \<noteq> []" "says e b t \<Longrightarrow> has_bit (ev_changed e) b"
  by (simp_all add: says_def)

lemma fresh_texts:
  "s_miplay_title (merge_texts False e (clear_song p)) = event_text e MIPLAY_MEDIA_CHANGED_TITLE 128 (ev_title e)"
  "s_miplay_artist (merge_texts False e (clear_song p)) = event_text e MIPLAY_MEDIA_CHANGED_ARTIST 128 (ev_artist e)"
  "s_miplay_album (merge_texts False e (clear_song p)) = event_text e MIPLAY_MEDIA_CHANGED_ALBUM 128 (ev_album e)"
  "s_miplay_cover_url (merge_texts False e (clear_song p)) = []" "s_miplay_duration_ms (merge_texts False e (clear_song p)) = 0"
  by (simp_all add: merge_texts_def clear_song_def no_song_def tell_def event_text_def)

lemma told_shown:
  "told (show_song False same e p) = told p
     @ (if has_bit (ev_changed e) MIPLAY_MEDIA_CHANGED_TITLE \<and> s_miplay_title p \<noteq> [] then [Ui_title (s_miplay_title p)] else [])
     @ (if has_bit (ev_changed e) MIPLAY_MEDIA_CHANGED_ARTIST \<and> s_miplay_artist p \<noteq> [] then [Ui_artist (s_miplay_artist p)] else [])
     @ (if says e MIPLAY_MEDIA_CHANGED_COVER_URL (ev_cover_url e) \<and> \<not> same then [Cover (s_miplay_cover_url p)] else [])"
  by (simp add: show_song_def fetch_album_art_async_def Let_def)

lemma told_asked:
  "told (ask_lyrics nt p) = told p @ (if s_miplay_title p \<noteq> [] \<and> (nt \<or> s_lyrics_refetch_pending p)
     then [Lyrics_fetch (s_miplay_title p) (s_miplay_artist p) (song_id p)] else [])"
  by (simp add: ask_lyrics_def)

text \<open>C17: A new track replaces the old one completely: after an event that starts one, title, artist, album and cover are what
  this event says of them, or empty; the display is cleared before it is given the new texts; and the lyrics are asked for
  exactly when the event brought a title.\<close>

theorem new_track_shown:
  assumes "new_track p e"
  shows "s_miplay_title (take_event p e) = event_text e MIPLAY_MEDIA_CHANGED_TITLE 128 (ev_title e)
    \<and> s_miplay_artist (take_event p e) = event_text e MIPLAY_MEDIA_CHANGED_ARTIST 128 (ev_artist e)
    \<and> s_miplay_album (take_event p e) = event_text e MIPLAY_MEDIA_CHANGED_ALBUM 128 (ev_album e)
    \<and> s_miplay_cover_url (take_event p e) = event_text e MIPLAY_MEDIA_CHANGED_COVER_URL MIPLAY_COVER_SOURCE_MAX (ev_cover_url e)
    \<and> s_miplay_duration_ms (take_event p e) =
        (if has_bit (ev_changed e) MIPLAY_MEDIA_CHANGED_DURATION \<and> 0 < ev_duration_ms e then clamp_miplay_ms (ev_duration_ms e) else 0)
    \<and> (\<exists>i. told (take_event p e) = told p @ waiting_screen
        @ (if s_miplay_title (take_event p e) \<noteq> [] then [Ui_title (s_miplay_title (take_event p e))] else [])
        @ (if s_miplay_artist (take_event p e) \<noteq> [] then [Ui_artist (s_miplay_artist (take_event p e))] else [])
        @ (if s_miplay_cover_url (take_event p e) \<noteq> [] then [Cover (s_miplay_cover_url (take_event p e))] else [])
        @ (if s_miplay_title (take_event p e) \<noteq> [] then [Lyrics_fetch (s_miplay_title (take_event p e)) (s_miplay_artist (take_event p e)) i] else []))"
proof -
  define p1 where "p1 = merge_texts False e (clear_song p)"
  define p2 where "p2 = (if says e MIPLAY_MEDIA_CHANGED_COVER_URL (ev_cover_url e) then p1 \<lparr> s_miplay_cover_url := copy_text MIPLAY_COVER_SOURCE_MAX (ev_cover_url e) \<rparr> else p1)"
  define p3 where "p3 = from_zero True e (merge_state e (merge_numbers e p2))"
  have same: "cover_same e p1 = False" by (simp add: cover_same_def p1_def fresh_texts)
  have m: "take_event p e = ask_lyrics True (show_song False False e p3)"
    using assms by (simp add: take_event_def Let_def p1_def [symmetric] same p2_def p3_def)
  have f: "s_miplay_title p3 = event_text e MIPLAY_MEDIA_CHANGED_TITLE 128 (ev_title e)" "s_miplay_artist p3 = event_text e MIPLAY_MEDIA_CHANGED_ARTIST 128 (ev_artist e)"
    "s_miplay_album p3 = event_text e MIPLAY_MEDIA_CHANGED_ALBUM 128 (ev_album e)"
    "s_miplay_cover_url p3 = event_text e MIPLAY_MEDIA_CHANGED_COVER_URL MIPLAY_COVER_SOURCE_MAX (ev_cover_url e)"
    "s_miplay_duration_ms p3 = (if has_bit (ev_changed e) MIPLAY_MEDIA_CHANGED_DURATION \<and> 0 < ev_duration_ms e then clamp_miplay_ms (ev_duration_ms e) else 0)"
    "told p3 = told p @ waiting_screen"
    by (simp_all add: p3_def p2_def p1_def fresh_texts) (simp_all add: event_text_def p1_def [symmetric] fresh_texts [folded p1_def])
  have s: "has_bit (ev_changed e) b \<and> event_text e b n t \<noteq> [] \<longleftrightarrow> event_text e b n t \<noteq> []" for b n t
    by (auto simp: event_text_def says_def)
  have c: "says e MIPLAY_MEDIA_CHANGED_COVER_URL (ev_cover_url e) \<longleftrightarrow> event_text e MIPLAY_MEDIA_CHANGED_COVER_URL MIPLAY_COVER_SOURCE_MAX (ev_cover_url e) \<noteq> []"
    by (auto simp: event_text_def says_def)
  have t: "(has_bit (ev_changed e) MIPLAY_MEDIA_CHANGED_TITLE \<and> s_miplay_title p3 \<noteq> []) = (s_miplay_title p3 \<noteq> [])"
    "(has_bit (ev_changed e) MIPLAY_MEDIA_CHANGED_ARTIST \<and> s_miplay_artist p3 \<noteq> []) = (s_miplay_artist p3 \<noteq> [])"
    "says e MIPLAY_MEDIA_CHANGED_COVER_URL (ev_cover_url e) = (s_miplay_cover_url p3 \<noteq> [])"
    unfolding f(1,2,4) by (rule s, rule s, rule c)
  have "told (take_event p e) = told p @ waiting_screen
        @ (if s_miplay_title p3 \<noteq> [] then [Ui_title (s_miplay_title p3)] else [])
        @ (if s_miplay_artist p3 \<noteq> [] then [Ui_artist (s_miplay_artist p3)] else [])
        @ (if s_miplay_cover_url p3 \<noteq> [] then [Cover (s_miplay_cover_url p3)] else [])
        @ (if s_miplay_title p3 \<noteq> [] then [Lyrics_fetch (s_miplay_title p3) (s_miplay_artist p3) (song_id (show_song False False e p3))] else [])"
    unfolding m told_asked told_shown t merged_title merged_artist f(6) by simp
  then show ?thesis by (auto simp: m f simp del: append_assoc)
qed

subsection \<open>A session\<close>

datatype mp_step =
    Reported media_event \<comment> \<open>by the phone\<close>
  | Redrawn \<comment> \<open>a pass of the display's task\<close>
  | Passed nat \<comment> \<open>microseconds\<close>
  | Toggled \<comment> \<open>the button\<close>
  | Skipped bool
  | Sounding bool \<comment> \<open>the stream starts or stops\<close>

fun mp_exec :: "system \<Rightarrow> mp_step \<Rightarrow> player \<Rightarrow> player" where
  "mp_exec s (Reported e) p = dlna_on_miplay_media e p"
| "mp_exec s Redrawn p = ui_update s (consume_miplay_media_events_locked p)"
| "mp_exec s (Passed n) p = later (int n) p"
| "mp_exec s Toggled p = cb_play_toggle s p"
| "mp_exec s (Skipped forwards) p = (if forwards then cb_next s (\<lambda>n p. p) p else cb_previous s p)"
| "mp_exec s (Sounding b) p = dlna_on_miplay_media_start b p"

definition cast_session :: "system \<Rightarrow> mp_step list \<Rightarrow> player \<Rightarrow> player" where
  \<comment> \<open>what follows the connection\<close>
  "cast_session s xs p = fold (mp_exec s) xs (dlna_on_miplay_connected True p)"

fun lyrics_next :: "byte list option \<Rightarrow> order \<Rightarrow> byte list option" where
  "lyrics_next c (Lyrics_fetch t a i) = Some t"
| "lyrics_next c Lyrics_clear = None"
| "lyrics_next c x = c"

definition lyrics_for :: "order list \<Rightarrow> byte list option" where
  \<comment> \<open>the title whose lyrics have been asked for last, if they have not been cleared since\<close>
  "lyrics_for es = foldl lyrics_next None es"

lemma lyrics_for_append: "lyrics_for (xs @ ys) = foldl lyrics_next (lyrics_for xs) ys"
  by (simp add: lyrics_for_def)

definition song_view :: "player \<Rightarrow> byte list \<times> bool \<times> bool \<times> byte list option" where
  "song_view p = (s_miplay_title p, s_miplay_session_reset_pending p, s_miplay_connected p, lyrics_for (told p))"

lemma view_tell: "foldl lyrics_next (lyrics_for (told p)) es = lyrics_for (told p) \<Longrightarrow> song_view (tell es p) = song_view p"
  by (simp add: song_view_def tell_def lyrics_for_append)

lemma view_steps [simp]:
  "song_view (pipe x p) = song_view p" "song_view (set_state new p) = song_view p" "song_view (stop_pipe p) = song_view p"
  "song_view (my_vol_set v p) = song_view p" "song_view (schedule_delayed_stop_notify s p) = song_view p"
  "song_view (freeze p) = song_view p" "song_view (miplay_pipeline_start p) = song_view p" "song_view (miplay_pipeline_stop p) = song_view p"
  "song_view (on_miplay_vol_changed w p) = song_view p" "song_view (later n p) = song_view p" "song_view (skip_mirror cmd p) = song_view p"
  "song_view (dlna_on_miplay_media e p) = song_view p"
  by (simp_all add: song_view_def pipe_def set_state_def stop_pipe_def my_vol_set_def schedule_delayed_stop_notify_def freeze_def miplay_pipeline_start_def
      miplay_pipeline_stop_def on_miplay_vol_changed_def later_def skip_mirror_def dlna_on_miplay_media_def tell_def lyrics_for_append Let_def split: option.split)

lemma view_started [simp]: "song_view (dlna_on_miplay_media_start b p) = song_view p"
proof -
  have "song_view (p \<lparr> s_accumulated_ms := 0, s_play_start_us := 0 \<rparr>) = song_view p" by (simp add: song_view_def)
  then show ?thesis by (simp add: dlna_on_miplay_media_start_def)
qed

lemma view_fields:
  "song_view (p \<lparr> s_near_end_count := n \<rparr>) = song_view p" "song_view (p \<lparr> s_stuck_paused_since := t \<rparr>) = song_view p"
  "song_view (p \<lparr> s_last_applied_vol := v \<rparr>) = song_view p" "song_view (p \<lparr> s_miplay_pending_volume := v \<rparr>) = song_view p"
  "song_view (p \<lparr> s_vol := v, s_mute := m \<rparr>) = song_view p"
  by (simp_all add: song_view_def)

lemma view_toggled: "s_miplay_connected p \<Longrightarrow> song_view (cb_play_toggle s p) = song_view p"
  by (simp add: cb_play_toggle_def song_view_def tell_def lyrics_for_append)

lemma view_near_end [simp]: "song_view (near_end s p) = song_view p"
  by (simp add: near_end_def Let_def view_fields)

lemma view_stuck [simp]: "song_view (stuck_paused p) = song_view p"
  by (simp add: stuck_paused_def Let_def view_fields)

lemma view_apply_volume [simp]: "song_view (apply_volume p) = song_view p"
proof -
  define q where "q = my_vol_set (cb_get_volume p) p"
  have q: "song_view q = song_view p" by (simp add: q_def)
  have t: "song_view (tell [Miplay_gain g] q) = song_view p" for g using q by (simp add: view_tell)
  show ?thesis by (simp add: apply_volume_def Let_def q_def [symmetric] view_fields q t)
qed

lemma view_sync: "song_view (snd (sync_volume p)) = song_view p"
  by (auto simp: sync_volume_def Let_def view_fields)

lemma view_redrawn [simp]: "song_view (ui_update s p) = song_view p"
  by (simp add: ui_update_def Let_def split_beta view_sync view_tell)

lemma song_pending [simp]:
  "s_lyrics_refetch_pending (tell es p) = s_lyrics_refetch_pending p" "s_lyrics_refetch_pending (show_song lat same e p) = s_lyrics_refetch_pending p"
  "s_lyrics_refetch_pending (from_zero nt e p) = s_lyrics_refetch_pending p" "s_lyrics_refetch_pending (merge_state e p) = s_lyrics_refetch_pending p"
  "s_lyrics_refetch_pending (merge_numbers e p) = s_lyrics_refetch_pending p" "s_lyrics_refetch_pending (merge_texts lat e p) = s_lyrics_refetch_pending p"
  by (simp_all add: tell_def show_song_def fetch_album_art_async_def from_zero_def merge_state_def merge_numbers_def merge_texts_def Let_def)

definition flags :: "player \<Rightarrow> bool \<times> bool \<times> media_event list option" where
  "flags p = (s_miplay_session_reset_pending p, s_miplay_connected p, s_miplay_media_queue p)"

lemma flags_steps [simp]:
  "flags (tell es p) = flags p" "flags (merge_texts lat e p) = flags p" "flags (clear_song p) = flags p" "flags (merge_numbers e p) = flags p"
  "flags (merge_state e p) = flags p" "flags (from_zero nt e p) = flags p" "flags (show_song lat same e p) = flags p" "flags (ask_lyrics nt p) = flags p"
  "flags (p \<lparr> s_miplay_cover_url := c \<rparr>) = flags p"
  by (simp_all add: flags_def tell_def merge_texts_def clear_song_def no_song_def merge_numbers_def merge_state_def from_zero_def show_song_def
      fetch_album_art_async_def ask_lyrics_def Let_def)

lemma merged_flags [simp]: "flags (take_event p e) = flags p"
  by (simp add: take_event_def Let_def)

lemma merged_all_flags [simp]: "flags (foldl take_event p es) = flags p"
  by (induction es arbitrary: p) simp_all

definition song_ok :: "player \<Rightarrow> bool" where
  \<comment> \<open>the lyrics asked for are those of the title\<close>
  "song_ok p \<longleftrightarrow> length (s_miplay_title p) < 128 \<and> (s_miplay_title p = [] \<or> lyrics_for (told p) = Some (s_miplay_title p))"

lemma merged_told_lyrics: "\<exists>ui. (\<forall>c. foldl lyrics_next c ui = c) \<and> told (show_song lat same e p) = told p @ ui"
proof -
  have "\<exists>ui. (\<forall>c. foldl lyrics_next c ui = c) \<and> told (show_song False same e p) = told p @ ui"
    by (rule exI [of _ "(if has_bit (ev_changed e) MIPLAY_MEDIA_CHANGED_TITLE \<and> s_miplay_title p \<noteq> [] then [Ui_title (s_miplay_title p)] else [])
     @ (if has_bit (ev_changed e) MIPLAY_MEDIA_CHANGED_ARTIST \<and> s_miplay_artist p \<noteq> [] then [Ui_artist (s_miplay_artist p)] else [])
     @ (if says e MIPLAY_MEDIA_CHANGED_COVER_URL (ev_cover_url e) \<and> \<not> same then [Cover (s_miplay_cover_url p)] else [])"])
      (unfold told_shown, simp)
  moreover have "\<exists>ui. (\<forall>c. foldl lyrics_next c ui = c) \<and> told (show_song True same e p) = told p @ ui"
    by (rule exI [of _ "(if has_bit (ev_changed e) MIPLAY_MEDIA_CHANGED_TITLE \<and> s_miplay_title p \<noteq> [] then [Ui_title (s_miplay_title p)] else [])
     @ (if says e MIPLAY_MEDIA_CHANGED_COVER_URL (ev_cover_url e) \<and> \<not> same then [Cover (s_miplay_cover_url p)] else [])"])
      (simp add: show_song_def fetch_album_art_async_def Let_def)
  ultimately show ?thesis by (cases lat) simp_all
qed

lemma old_title: "\<not> new_track p e \<Longrightarrow> length (s_miplay_title p) < 128 \<Longrightarrow> s_miplay_title (merge_texts lat e p) = s_miplay_title p"
  by (auto simp: new_track_def title_changed_def merge_texts_def copy_text_def)

lemma title_cover [simp]: "s_miplay_title (p \<lparr> s_miplay_cover_url := c \<rparr>) = s_miplay_title p" "told (p \<lparr> s_miplay_cover_url := c \<rparr>) = told p"
  "s_lyrics_refetch_pending (p \<lparr> s_miplay_cover_url := c \<rparr>) = s_lyrics_refetch_pending p"
  by simp_all

lemma merge_song:
  assumes "song_ok p"
  shows "song_ok (take_event p e)"
proof -
  define base where "base = (if new_track p e then clear_song p else p)"
  define p1 where "p1 = merge_texts False e base"
  define p3 where "p3 = from_zero (new_track p e) e (merge_state e (merge_numbers e
    (if says e MIPLAY_MEDIA_CHANGED_COVER_URL (ev_cover_url e) \<and> \<not> cover_same e p1 then p1 \<lparr> s_miplay_cover_url := copy_text MIPLAY_COVER_SOURCE_MAX (ev_cover_url e) \<rparr> else p1)))"
  define p4 where "p4 = show_song False (cover_same e p1) e p3"
  have m: "take_event p e = ask_lyrics (new_track p e) p4"
    unfolding take_event_def Let_def lyric_as_title_never base_def [symmetric] p1_def [symmetric] p3_def [symmetric] p4_def [symmetric] ..
  have f: "s_miplay_title p4 = s_miplay_title p1" "told p3 = told base" by (simp_all add: p4_def p3_def p1_def)
  obtain ui where ui: "foldl lyrics_next c ui = c" "told p4 = told base @ ui" for c
    using merged_told_lyrics [of False "cover_same e p1" e p3] f(2) unfolding p4_def [symmetric] by auto
  have t: "length (s_miplay_title p1) < 128"
    using assms by (simp add: p1_def base_def merge_texts_def song_ok_def clear_song_def no_song_def tell_def)
  show ?thesis
  proof (cases "new_track p e")
    case True
    then show ?thesis using t by (simp add: m song_ok_def told_asked f lyrics_for_append)
  next
    case False
    then have "s_miplay_title p1 = s_miplay_title p" using assms by (simp add: p1_def base_def old_title song_ok_def)
    then show ?thesis using t assms False by (simp add: m song_ok_def told_asked f ui lyrics_for_append base_def)
  qed
qed

lemma merge_songs: "song_ok p \<Longrightarrow> song_ok (foldl take_event p es)"
  by (induction es arbitrary: p) (simp_all add: merge_song)

definition session_ok :: "player \<Rightarrow> bool" where
  "session_ok p \<longleftrightarrow> s_miplay_connected p \<and> (s_miplay_session_reset_pending p \<or> song_ok p)"

lemma session_view: "song_view q = song_view p \<Longrightarrow> session_ok q = session_ok p"
  by (simp add: session_ok_def song_ok_def song_view_def)

lemma reset_song: "song_ok (reset_miplay_media_locked p)"
  by (simp add: reset_miplay_media_locked_def song_ok_def no_song_def tell_def)

lemma consumed: "session_ok p \<Longrightarrow> session_ok (consume_miplay_media_events_locked p) \<and> \<not> s_miplay_session_reset_pending (consume_miplay_media_events_locked p)"
proof -
  assume a: "session_ok p"
  define p1 where "p1 = (if s_miplay_session_reset_pending p then reset_miplay_media_locked (p \<lparr> s_miplay_session_reset_pending := False \<rparr>) else p)"
  have p1: "song_ok p1" "s_miplay_connected p1" "\<not> s_miplay_session_reset_pending p1"
    using a reset_song by (auto simp: p1_def session_ok_def) (simp_all add: reset_miplay_media_locked_def no_song_def tell_def)
  then have q: "song_ok (p1 \<lparr> s_miplay_media_queue := Some [] \<rparr>)" by (simp add: song_ok_def)
  have "flags (foldl take_event (p1 \<lparr> s_miplay_media_queue := Some [] \<rparr>) es) = (False, True, Some [])" for es
    unfolding merged_all_flags using p1 by (simp add: flags_def)
  then show ?thesis
    using p1 merge_songs [OF q] unfolding consume_miplay_media_events_locked_def Let_def p1_def [symmetric]
    by (auto simp: session_ok_def flags_def split: option.split)
qed

lemma mp_step_ok: "session_ok p \<Longrightarrow> session_ok (mp_exec s x p)"
proof (cases x)
  case Redrawn
  moreover assume "session_ok p"
  ultimately show ?thesis using consumed by (simp add: session_view [OF view_redrawn])
next
  case Toggled
  moreover assume "session_ok p"
  ultimately show ?thesis using session_view [OF view_toggled [of p s]] by (simp add: session_ok_def)
next
  case (Skipped b)
  moreover assume a: "session_ok p"
  then have "s_miplay_connected p" by (simp add: session_ok_def)
  ultimately show ?thesis using a by (simp add: cb_next_def cb_previous_def session_view [OF view_steps(11)])
qed (simp_all add: session_view [OF view_steps(12)] session_view [OF view_steps(10)] session_view [OF view_started])

lemma connected_session: "session_ok (dlna_on_miplay_connected True p)"
  by (simp add: dlna_on_miplay_connected_def session_ok_def Let_def tell_def stop_pipe_def pipe_def)

lemma session_kept: "session_ok (cast_session s xs p)"
proof -
  have "session_ok q \<Longrightarrow> session_ok (fold (mp_exec s) xs q)" for q by (induction xs arbitrary: q) (simp_all add: mp_step_ok)
  then show ?thesis unfolding cast_session_def by (simp add: connected_session)
qed

text \<open>C15: In a session, whatever the phone reports and in whatever order the display's task, the buttons and the stream's
  events come: once the display has been drawn, a title that is shown is the one whose lyrics have been asked for last.\<close>

theorem lyrics_follow_title:
  shows "s_miplay_title (cast_session s (xs @ [Redrawn]) p) = []
    \<or> lyrics_for (told (cast_session s (xs @ [Redrawn]) p)) = Some (s_miplay_title (cast_session s (xs @ [Redrawn]) p))"
proof -
  define q where "q = cast_session s xs p"
  have q: "cast_session s (xs @ [Redrawn]) p = ui_update s (consume_miplay_media_events_locked q)" by (simp add: cast_session_def q_def)
  have "session_ok q" unfolding q_def by (rule session_kept)
  from consumed [OF this] have "song_ok (consume_miplay_media_events_locked q)" by (auto simp: session_ok_def)
  then have "song_ok (cast_session s (xs @ [Redrawn]) p)"
    using view_redrawn [of s "consume_miplay_media_events_locked q"] unfolding q by (simp add: song_ok_def song_view_def)
  then show ?thesis by (simp add: song_ok_def)
qed

subsection \<open>The queue, the position, the button\<close>

lemma queue_step:
  "s_miplay_media_queue p = Some q \<Longrightarrow> length q \<le> 8 \<Longrightarrow>
     s_miplay_media_queue (dlna_on_miplay_media e p) = Some (drop (length q + 1 - 8) (q @ [e]))"
  by (cases q) (auto simp: dlna_on_miplay_media_def MIPLAY_MEDIA_QUEUE_LEN_def drop_Cons')

lemma queue_run:
  "s_miplay_media_queue p = Some q \<Longrightarrow> length q \<le> 8 \<Longrightarrow>
     s_miplay_media_queue (fold dlna_on_miplay_media es p) = Some (drop (length q + length es - 8) (q @ es))"
proof (induction es arbitrary: p q)
  case (Cons e es)
  define q' where "q' = drop (length q + 1 - 8) (q @ [e])"
  have "s_miplay_media_queue (dlna_on_miplay_media e p) = Some q'" using queue_step [OF Cons.prems] by (simp add: q'_def)
  moreover have "length q' \<le> 8" by (simp add: q'_def)
  ultimately have "s_miplay_media_queue (fold dlna_on_miplay_media (e # es) p) = Some (drop (length q' + length es - 8) (q' @ es))"
    using Cons.IH by simp
  moreover have "drop (length q' + length es - 8) (q' @ es) = drop (length q + length (e # es) - 8) (q @ e # es)"
  proof (cases "length q < 8")
    case True
    then have "q' = q @ [e]" by (simp add: q'_def)
    then show ?thesis by simp
  next
    case False
    with Cons.prems(2) have "length q = 8" by simp
    then show ?thesis by (cases q) (simp_all add: q'_def)
  qed
  ultimately show ?case by simp
qed simp

text \<open>A burst of reports between two passes of the display loses the oldest ones: of more than eight events only the
  last eight are left, so a report of a new track followed by eight positions never reaches the display.\<close>

theorem burst_drops_oldest:
  assumes "s_miplay_media_queue p = Some q" and "length q \<le> 8" and "8 \<le> length es"
  shows "s_miplay_media_queue (fold dlna_on_miplay_media es p) = Some (drop (length es - 8) es)"
  using queue_run [OF assms(1,2), of es] assms(3) by simp

lemma later_ms: "(c + 1000 * n - a) div 1000 = (c - a) div 1000 + (n :: int)"
  using div_mult_self1 [of "1000 :: int" "c - a" n] by (simp add: diff_add_eq mult.commute)

text \<open>While a song plays, the position shown goes on with the clock, from what the phone reported, and stops at the
  duration, or at the largest number when that is unknown.\<close>

theorem shown_position_advances:
  assumes "s_miplay_state p = 1" and "0 < s_miplay_position_anchor_us p" and "s_miplay_position_anchor_us p \<le> clock_us p"
    and "0 \<le> s_miplay_position_ms p" and "0 \<le> s_miplay_duration_ms p" and "s_miplay_duration_ms p < 2 ^ 31"
  shows "get_miplay_position_ms (later (1000 * int n) p) = min (get_miplay_position_ms p + int n)
    (if s_miplay_duration_ms p = 0 then 2147483647 else s_miplay_duration_ms p)"
proof -
  have "(clock_us p + 1000 * int n - s_miplay_position_anchor_us p) div 1000 = (clock_us p - s_miplay_position_anchor_us p) div 1000 + int n"
    by (rule later_ms)
  moreover have "0 \<le> (clock_us p - s_miplay_position_anchor_us p) div 1000" using assms(3) by simp
  ultimately show ?thesis
    using assms by (auto simp: get_miplay_position_ms_def later_def clamp_miplay_ms_def min_def Let_def)
qed


subsection \<open>At a concrete session\<close>

definition reported :: media_event where
  "reported = \<lparr> ev_changed = MIPLAY_MEDIA_CHANGED_TITLE OR MIPLAY_MEDIA_CHANGED_ARTIST, ev_id = [], ev_audio_id = [], ev_title = str ''Song'', ev_artist = str ''Singer'',
     ev_album = [], ev_cover_url = [], ev_duration_ms = 0, ev_position_ms = 0, ev_status = 0, ev_device_state = 0, ev_player_state = 0 \<rparr>"

definition shown_player :: player where
  \<comment> \<open>connected, a song of four minutes, 100 s after the start\<close>
  "shown_player = (player_boot True True True True fresh_renderer)
     \<lparr> s_miplay_connected := True, s_miplay_media_queue := Some [], s_miplay_duration_ms := 240000, s_miplay_position_ms := 30000, clock_us := 100000000 \<rparr>"

lemma reported_says: "has_bit (ev_changed reported) MIPLAY_MEDIA_CHANGED_TITLE" "has_bit (ev_changed reported) MIPLAY_MEDIA_CHANGED_ARTIST"
  "ev_title reported = str ''Song''" "str ''Song'' \<noteq> []"
  by code_simp+

theorem new_track_shown_witness: "s_miplay_title (take_event shown_player reported) = str ''Song''"
proof -
  have "new_track shown_player reported"
    using reported_says by (simp add: new_track_def title_changed_def says_def shown_player_def player_boot_def)
  then have "s_miplay_title (take_event shown_player reported) = event_text reported MIPLAY_MEDIA_CHANGED_TITLE 128 (ev_title reported)"
    by (rule new_track_shown [THEN conjunct1])
  also have "\<dots> = str ''Song''" using reported_says by (simp add: event_text_def says_def copy_text_def)
  finally show ?thesis .
qed

theorem burst_drops_oldest_witness:
  "s_miplay_media_queue (fold dlna_on_miplay_media (reported # replicate 8 (reported \<lparr> ev_changed := MIPLAY_MEDIA_CHANGED_POSITION \<rparr>)) shown_player)
   = Some (drop (length (reported # replicate 8 (reported \<lparr> ev_changed := MIPLAY_MEDIA_CHANGED_POSITION \<rparr>)) - 8)
       (reported # replicate 8 (reported \<lparr> ev_changed := MIPLAY_MEDIA_CHANGED_POSITION \<rparr>)))"
  by (rule burst_drops_oldest [of _ "[]"]) (simp_all add: shown_player_def)

theorem shown_position_advances_witness:
  "get_miplay_position_ms (later (1000 * int 7) (shown_player \<lparr> s_miplay_state := 1, s_miplay_position_anchor_us := 90000000 \<rparr>))
   = min (get_miplay_position_ms (shown_player \<lparr> s_miplay_state := 1, s_miplay_position_anchor_us := 90000000 \<rparr>) + int 7)
       (if s_miplay_duration_ms (shown_player \<lparr> s_miplay_state := 1, s_miplay_position_anchor_us := 90000000 \<rparr>) = 0 then 2147483647
        else s_miplay_duration_ms (shown_player \<lparr> s_miplay_state := 1, s_miplay_position_anchor_us := 90000000 \<rparr>))"
  by (rule shown_position_advances) (simp_all add: shown_player_def)


end
